(* ===== verification/Prelude.thy ===== *)
theory Prelude imports Main "HOL-Library.Word" "HOL-Library.Monad_Syntax" begin

unbundle bit_operations_syntax

text \<open>
  The shared vocabulary of the development: machine types, nullable pointers, checked reads
  and writes of C objects, the C integer conversions, and the list and arithmetic facts that
  several components use.

  A C function is a HOL function into \<^typ>\<open>'a option\<close> wherever the C text can run into
  undefined behaviour (a read or write outside an object, a signed overflow, a division by
  zero, a call with missing variadic arguments): \<^const>\<open>None\<close> is that undefined
  behaviour, never an error code.  Error codes are ordinary values.
\<close>

section \<open>Machine types and pointers\<close>

type_synonym u8 = "8 word"
type_synonym u16 = "16 word"
type_synonym u32 = "32 word"
type_synonym u64 = "64 word"

datatype 'a cptr = NULL | Ptr 'a

named_theorems cmem \<open>unfolding rules for checked reads and writes\<close>
named_theorems cint \<open>unfolding rules for the C integer conversions\<close>

section \<open>Checked access to a C object\<close>

definition rd :: "'a list \<Rightarrow> nat \<Rightarrow> 'a option" where
  "rd b i = (if i < length b then Some (b ! i) else None)"

definition wr :: "'a list \<Rightarrow> nat \<Rightarrow> 'a \<Rightarrow> 'a list option" where
  "wr b i v = (if i < length b then Some (b[i := v]) else None)"

lemma rd_in [simp]: "i < length b \<Longrightarrow> rd b i = Some (b ! i)"
  by (simp add: rd_def)

lemma rd_out [simp]: "length b \<le> i \<Longrightarrow> rd b i = None"
  by (simp add: rd_def)

lemma wr_in [simp]: "i < length b \<Longrightarrow> wr b i v = Some (b[i := v])"
  by (simp add: wr_def)

lemma wr_out [simp]: "length b \<le> i \<Longrightarrow> wr b i v = None"
  by (simp add: wr_def)

lemma rd_SomeD: "rd b i = Some v \<Longrightarrow> i < length b \<and> v = b ! i"
  by (simp add: rd_def split: if_splits)

lemma wr_SomeD: "wr b i v = Some b' \<Longrightarrow> i < length b \<and> b' = b[i := v]"
  by (simp add: wr_def split: if_splits)

lemma length_wr: "wr b i v = Some b' \<Longrightarrow> length b' = length b"
  by (auto dest: wr_SomeD)

lemmas cmem_defs [cmem] = rd_def wr_def

text \<open>An allocator that gives a block of every size asked for, whatever it holds.\<close>

definition malloc_ok :: "(nat \<Rightarrow> u8 list cptr) \<Rightarrow> bool" where
  "malloc_ok alloc \<longleftrightarrow> (\<forall>n. \<exists>b. alloc n = Ptr b \<and> length b = n)"

text \<open>The bytes of a string literal, without its terminator.\<close>

definition ascii :: "string \<Rightarrow> u8 list" where
  "ascii s = map of_char s"

section \<open>C integers on the mathematical integers\<close>

text \<open>
  A C \<open>int\<close> is an \<^typ>\<open>int\<close> in range.  \<open>ck32\<close> and \<open>ck64\<close> are the value of a signed
  arithmetic expression (no value on overflow), \<open>wrap32\<close> and \<open>wrap64\<close> the conversion to a signed
  type, which the supported compilers define to reduce modulo the width, and \<open>cdiv\<close>, \<open>cmod\<close>
  the truncating division.
\<close>

definition in_i32 :: "int \<Rightarrow> bool" where
  "in_i32 x \<longleftrightarrow> - (2 ^ 31) \<le> x \<and> x < 2 ^ 31"

definition in_i64 :: "int \<Rightarrow> bool" where
  "in_i64 x \<longleftrightarrow> - (2 ^ 63) \<le> x \<and> x < 2 ^ 63"

definition ck32 :: "int \<Rightarrow> int option" where
  "ck32 x = (if in_i32 x then Some x else None)"

definition ck64 :: "int \<Rightarrow> int option" where
  "ck64 x = (if in_i64 x then Some x else None)"

definition wrap32 :: "int \<Rightarrow> int" where
  "wrap32 x = (x + 2 ^ 31) mod 2 ^ 32 - 2 ^ 31"

definition wrap64 :: "int \<Rightarrow> int" where
  "wrap64 x = (x + 2 ^ 63) mod 2 ^ 64 - 2 ^ 63"

definition cdiv :: "int \<Rightarrow> int \<Rightarrow> int" where
  "cdiv a b = sgn a * sgn b * (\<bar>a\<bar> div \<bar>b\<bar>)"

definition cmod :: "int \<Rightarrow> int \<Rightarrow> int" where
  "cmod a b = sgn a * (\<bar>a\<bar> mod \<bar>b\<bar>)"

lemmas cint_defs [cint] = in_i32_def in_i64_def ck32_def ck64_def wrap32_def wrap64_def

lemma ck32_in [simp]: "in_i32 x \<Longrightarrow> ck32 x = Some x"
  by (simp add: ck32_def)

lemma ck64_in [simp]: "in_i64 x \<Longrightarrow> ck64 x = Some x"
  by (simp add: ck64_def)

lemma wrap32_in [simp]: "in_i32 x \<Longrightarrow> wrap32 x = x"
  by (simp add: wrap32_def in_i32_def)

lemma wrap64_in [simp]: "in_i64 x \<Longrightarrow> wrap64 x = x"
  by (simp add: wrap64_def in_i64_def)

lemma in_i32_wrap32: "in_i32 (wrap32 x)"
proof -
  have "0 \<le> (x + 2 ^ 31) mod 2 ^ 32" "(x + 2 ^ 31) mod 2 ^ 32 < 2 ^ 32" by simp_all
  then show ?thesis unfolding wrap32_def in_i32_def by simp
qed

lemma cdiv_nonneg: "0 \<le> a \<Longrightarrow> 0 \<le> b \<Longrightarrow> cdiv a b = a div b"
  by (cases "a = 0"; cases "b = 0") (simp_all add: cdiv_def)

lemma cdiv_cmod: "cdiv a b * b + cmod a b = a"
proof -
  have "cdiv a b * b = sgn a * (\<bar>a\<bar> div \<bar>b\<bar> * \<bar>b\<bar>)"
    by (simp add: cdiv_def abs_sgn [of b] mult_ac)
  then have "cdiv a b * b + cmod a b = sgn a * (\<bar>a\<bar> div \<bar>b\<bar> * \<bar>b\<bar> + \<bar>a\<bar> mod \<bar>b\<bar>)"
    unfolding cmod_def by (simp only: distrib_left)
  also have "\<dots> = sgn a * \<bar>a\<bar>" by simp
  also have "\<dots> = a" by (simp add: sgn_mult_abs)
  finally show ?thesis .
qed

section \<open>Words read as natural numbers\<close>

lemma unat_or_disjoint: "(a :: 'a::len word) AND b = 0 \<Longrightarrow> unat (a OR b) = unat a + unat b"
proof -
  assume "a AND b = 0"
  then have "unat a AND unat b = 0" by (metis unsigned_0 unsigned_and_eq)
  then show ?thesis by (simp add: unsigned_or_eq disjunctive_add_eq_or)
qed

text \<open>The usual packing step: a high part aligned to \<open>2 ^ n\<close> joined with a low part below it.\<close>

lemma unat_or_aligned:
  fixes a b :: "'a::len word"
  assumes "2 ^ n dvd unat a" "unat b < 2 ^ n"
  shows "unat (a OR b) = unat a + unat b"
proof -
  have a: "\<not> bit a i" if "i < n" for i
  proof -
    have "take_bit n (unat a) = 0" using assms(1) by (simp add: take_bit_eq_mod)
    then have "\<not> bit (unat a) i" using that by (metis bit_0_eq bit_take_bit_iff bot_apply bot_bool_def)
    then show ?thesis by (metis bit_unsigned_iff possible_bit_nat)
  qed
  have b: "\<not> bit b i" if "n \<le> i" for i
  proof -
    have "take_bit n (unat b) = unat b" using assms(2) by (simp add: take_bit_nat_eq_self)
    then have "\<not> bit (unat b) i" using that by (metis bit_take_bit_iff not_le)
    then show ?thesis by (metis bit_unsigned_iff possible_bit_nat)
  qed
  have "a AND b = 0"
    using a b by (auto simp: bit_eq_iff bit_and_iff not_less) (metis not_le)
  then show ?thesis by (rule unat_or_disjoint)
qed

lemma unat_push_bit:
  fixes a :: "'a::len word"
  assumes "unat a * 2 ^ n < 2 ^ LENGTH('a)"
  shows "unat (push_bit n a) = unat a * 2 ^ n"
  unfolding unsigned_push_bit_eq push_bit_eq_mult [where ?'a = nat]
  using assms by (simp add: take_bit_nat_eq_self)

lemma unat_drop_bit: "unat (drop_bit n (a :: 'a::len word)) = unat a div 2 ^ n"
  unfolding unsigned_drop_bit_eq drop_bit_eq_div [where ?'a = nat]
  by (simp add: take_bit_nat_eq_self)

lemma unat_and_mask: "unat ((a :: 'a::len word) AND mask n) = unat a mod 2 ^ n"
  unfolding take_bit_eq_mask [symmetric] unsigned_take_bit_eq by (rule take_bit_eq_mod)

lemma unat_and_1: "unat ((a :: 'a::len word) AND 1) = unat a mod 2"
  using unat_and_mask [of a 1] by simp

text \<open>Two's complement reading of a word.\<close>

lemma sint_shift: "sint (w :: 'a::len word) = (uint w + 2 ^ (LENGTH('a) - 1)) mod 2 ^ LENGTH('a) - 2 ^ (LENGTH('a) - 1)"
  unfolding sint_uint signed_take_bit_eq_take_bit_shift take_bit_eq_mod by simp

lemma sint_small:
  fixes w :: "'a::len word"
  assumes "uint w < 2 ^ (LENGTH('a) - 1)"
  shows "sint w = uint w"
proof -
  have "(2 :: int) ^ LENGTH('a) = 2 * 2 ^ (LENGTH('a) - 1)" by (simp flip: power_Suc)
  then show ?thesis using assms unfolding sint_shift by simp
qed

lemma sint_big:
  fixes w :: "'a::len word"
  assumes "2 ^ (LENGTH('a) - 1) \<le> uint w"
  shows "sint w = uint w - 2 ^ LENGTH('a)"
proof -
  let ?h = "(2 :: int) ^ (LENGTH('a) - 1)"
  have d: "(2 :: int) ^ LENGTH('a) = 2 * ?h" by (simp flip: power_Suc)
  have u: "uint w < 2 * ?h" using uint_lt2p [of w] by (simp only: d)
  have "(uint w + ?h) mod (2 * ?h) = (uint w - ?h + 2 * ?h) mod (2 * ?h)" by (simp add: add.commute)
  also have "\<dots> = (uint w - ?h) mod (2 * ?h)" by (rule mod_add_self2)
  also have "\<dots> = uint w - ?h" using assms u by (intro mod_pos_pos_trivial) simp_all
  finally show ?thesis unfolding sint_shift d by simp
qed

lemma uint_word_of_int_in: "0 \<le> k \<Longrightarrow> k < 2 ^ LENGTH('a) \<Longrightarrow> uint (word_of_int k :: 'a::len word) = k"
  by (subst uint_word_of_int) simp

end
