(* ===== verification/Kringbuf.thy ===== *)
theory Kringbuf imports Prelude begin

text \<open>
  The byte ring buffer of freestanding/kringbuf.c and freestanding/kringbuf.h: the
  descriptor, its six operations with their NULL guards, the well-formedness invariant, the
  refinement of the buffer to a bounded FIFO list (locale \<open>byte_fifo\<close>), and the push and pop
  operations split into their memory accesses, to say what an interleaved producer and
  consumer can do to the shared \<open>count\<close> field.
\<close>

section \<open>The descriptor and its operations\<close>

record kringbuf =
  rb_buffer :: "u8 list cptr"
  rb_capacity :: nat
  rb_head :: nat
  rb_tail :: nat
  rb_count :: nat

definition kringbuf_init :: "kringbuf cptr \<Rightarrow> u8 list cptr \<Rightarrow> nat \<Rightarrow> kringbuf cptr" where
  "kringbuf_init rb buffer capacity =
     (case (rb, buffer) of
        (Ptr r, Ptr b) \<Rightarrow>
          if capacity = 0 then rb
          else Ptr (r\<lparr>rb_buffer := buffer, rb_capacity := capacity,
                      rb_head := 0, rb_tail := 0, rb_count := 0\<rparr>)
      | _ \<Rightarrow> rb)"

definition kringbuf_push :: "kringbuf cptr \<Rightarrow> u8 \<Rightarrow> (int \<times> kringbuf cptr) option" where
  "kringbuf_push rb byte =
     (case rb of
        NULL \<Rightarrow> Some (-1, rb)
      | Ptr r \<Rightarrow>
          (case rb_buffer r of
             NULL \<Rightarrow> Some (-1, rb)
           | Ptr b \<Rightarrow>
               if rb_count r \<ge> rb_capacity r then Some (-1, rb)
               else do {
                 b' \<leftarrow> wr b (rb_head r) byte;
                 Some (0, Ptr (r\<lparr>rb_buffer := Ptr b',
                                 rb_head := (rb_head r + 1) mod rb_capacity r,
                                 rb_count := rb_count r + 1\<rparr>))
               }))"

text \<open>
  \<open>out_byte\<close> may be NULL, in which case the slot is not even read; \<open>(rb->tail + 1) % 0\<close> traps.
\<close>

definition kringbuf_pop :: "kringbuf cptr \<Rightarrow> u8 cptr \<Rightarrow> (int \<times> kringbuf cptr \<times> u8 cptr) option" where
  "kringbuf_pop rb out_byte =
     (case rb of
        NULL \<Rightarrow> Some (-1, rb, out_byte)
      | Ptr r \<Rightarrow>
          (case rb_buffer r of
             NULL \<Rightarrow> Some (-1, rb, out_byte)
           | Ptr b \<Rightarrow>
               if rb_count r = 0 then Some (-1, rb, out_byte)
               else do {
                 out' \<leftarrow> (case out_byte of NULL \<Rightarrow> Some NULL | Ptr _ \<Rightarrow> map_option Ptr (rd b (rb_tail r)));
                 if rb_capacity r = 0 then None
                 else Some (0, Ptr (r\<lparr>rb_tail := (rb_tail r + 1) mod rb_capacity r,
                                      rb_count := rb_count r - 1\<rparr>), out')
               }))"

definition kringbuf_peek :: "kringbuf cptr \<Rightarrow> u8 cptr \<Rightarrow> (int \<times> u8 cptr) option" where
  "kringbuf_peek rb out_byte =
     (case rb of
        NULL \<Rightarrow> Some (-1, out_byte)
      | Ptr r \<Rightarrow>
          (case rb_buffer r of
             NULL \<Rightarrow> Some (-1, out_byte)
           | Ptr b \<Rightarrow>
               if rb_count r = 0 then Some (-1, out_byte)
               else do {
                 out' \<leftarrow> (case out_byte of NULL \<Rightarrow> Some NULL | Ptr _ \<Rightarrow> map_option Ptr (rd b (rb_tail r)));
                 Some (0, out')
               }))"

definition kringbuf_is_empty :: "kringbuf cptr \<Rightarrow> bool" where
  "kringbuf_is_empty rb = (case rb of NULL \<Rightarrow> True | Ptr r \<Rightarrow> rb_count r = 0)"

definition kringbuf_is_full :: "kringbuf cptr \<Rightarrow> bool" where
  "kringbuf_is_full rb = (case rb of NULL \<Rightarrow> False | Ptr r \<Rightarrow> rb_count r \<ge> rb_capacity r)"

definition kringbuf_count :: "kringbuf cptr \<Rightarrow> nat" where
  "kringbuf_count rb = (case rb of NULL \<Rightarrow> 0 | Ptr r \<Rightarrow> rb_count r)"

lemmas kringbuf_defs = kringbuf_init_def kringbuf_push_def kringbuf_pop_def kringbuf_peek_def
  kringbuf_is_empty_def kringbuf_is_full_def kringbuf_count_def

section \<open>Invariant and abstraction\<close>

definition rb_bytes :: "kringbuf \<Rightarrow> u8 list" where
  "rb_bytes r = (case rb_buffer r of NULL \<Rightarrow> [] | Ptr b \<Rightarrow> b)"

definition rb_wf :: "kringbuf \<Rightarrow> bool" where
  "rb_wf r \<longleftrightarrow> rb_buffer r \<noteq> NULL \<and> 0 < rb_capacity r \<and> rb_capacity r \<le> length (rb_bytes r) \<and>
     rb_tail r < rb_capacity r \<and> rb_count r \<le> rb_capacity r \<and>
     rb_head r = (rb_tail r + rb_count r) mod rb_capacity r"

definition rb_list :: "kringbuf \<Rightarrow> u8 list" where
  "rb_list r = map (\<lambda>i. rb_bytes r ! ((rb_tail r + i) mod rb_capacity r)) [0..<rb_count r]"

definition rbp_wf :: "kringbuf cptr \<Rightarrow> bool" where
  "rbp_wf rb = (case rb of NULL \<Rightarrow> False | Ptr r \<Rightarrow> rb_wf r)"

definition rbp_list :: "kringbuf cptr \<Rightarrow> u8 list" where
  "rbp_list rb = (case rb of NULL \<Rightarrow> [] | Ptr r \<Rightarrow> rb_list r)"

definition rbp_cap :: "kringbuf cptr \<Rightarrow> nat" where
  "rbp_cap rb = (case rb of NULL \<Rightarrow> 0 | Ptr r \<Rightarrow> rb_capacity r)"

lemma rbp_wfE:
  assumes "rbp_wf rb"
  obtains r b where "rb = Ptr r" "rb_wf r" "rb_buffer r = Ptr b" "rb_bytes r = b"
  using assms by (cases rb; cases "rb_buffer (case rb of Ptr r \<Rightarrow> r)")
    (auto simp: rbp_wf_def rb_wf_def rb_bytes_def)

lemma length_rb_list [simp]: "length (rb_list r) = rb_count r"
  by (simp add: rb_list_def)

lemma wrap_index_distinct:
  fixes t c i k :: nat
  assumes "i < k" "k < c"
  shows "(t + i) mod c \<noteq> (t + k) mod c"
proof
  assume "(t + i) mod c = (t + k) mod c"
  then have "c dvd (t + k) - (t + i)"
    by (metis add_le_cancel_left assms(1) less_imp_le mod_eq_dvd_iff_nat)
  with assms show False by (auto dest: dvd_imp_le)
qed

lemma rb_wf_push:
  fixes byte :: u8
  assumes wf: "rb_wf r" and buf: "rb_buffer r = Ptr b" and room: "rb_count r < rb_capacity r"
  defines "r' \<equiv> r\<lparr>rb_buffer := Ptr (b[rb_head r := byte]),
                  rb_head := (rb_head r + 1) mod rb_capacity r, rb_count := rb_count r + 1\<rparr>"
  shows "rb_wf r'" and "rb_list r' = rb_list r @ [byte]"
proof -
  let ?c = "rb_capacity r"
  have h: "rb_head r = (rb_tail r + rb_count r) mod ?c" and len: "?c \<le> length b"
    using wf buf by (auto simp: rb_wf_def rb_bytes_def)
  show "rb_wf r'"
    using wf buf room h by (auto simp: rb_wf_def rb_bytes_def r'_def mod_simps)
  have slot: "b[rb_head r := byte] ! ((rb_tail r + i) mod ?c) = b ! ((rb_tail r + i) mod ?c)"
    if "i < rb_count r" for i
    using wrap_index_distinct [OF that room] h by (metis nth_list_update_neq)
  have "rb_head r < length b" using h len room by (metis less_le_trans mod_less_divisor not_less0 gr0I)
  then show "rb_list r' = rb_list r @ [byte]"
    using slot h by (simp add: rb_list_def rb_bytes_def r'_def buf)
qed

lemma rb_wf_pop:
  assumes wf: "rb_wf r" and ne: "0 < rb_count r"
  defines "r' \<equiv> r\<lparr>rb_tail := (rb_tail r + 1) mod rb_capacity r, rb_count := rb_count r - 1\<rparr>"
  shows "rb_wf r'" and "rb_list r = rb_bytes r ! rb_tail r # rb_list r'"
proof -
  from ne obtain n where n: "rb_count r = Suc n" by (cases "rb_count r") auto
  show "rb_wf r'"
    using wf n by (auto simp: rb_wf_def rb_bytes_def r'_def mod_simps)
  show "rb_list r = rb_bytes r ! rb_tail r # rb_list r'"
    using wf n by (simp add: rb_list_def rb_bytes_def r'_def rb_wf_def upt_conv_Cons mod_simps
      map_Suc_upt [symmetric] del: upt_Suc)
qed

section \<open>The contract: a bounded FIFO of bytes\<close>

datatype fifo_op = OpPush u8 | OpPop

type_synonym fifo_res = "int \<times> u8 cptr"

text \<open>The abstract queue: a list and a capacity.  A pop hands its result to a variable that held 0.\<close>

fun fifo_step :: "nat \<Rightarrow> u8 list \<Rightarrow> fifo_op \<Rightarrow> fifo_res \<times> u8 list" where
  "fifo_step c q (OpPush x) = (if length q < c then ((0, NULL), q @ [x]) else ((-1, NULL), q))"
| "fifo_step c q OpPop = (case q of [] \<Rightarrow> ((-1, Ptr 0), []) | y # ys \<Rightarrow> ((0, Ptr y), ys))"

fun fifo_run :: "nat \<Rightarrow> u8 list \<Rightarrow> fifo_op list \<Rightarrow> fifo_res list \<times> u8 list" where
  "fifo_run c q [] = ([], q)"
| "fifo_run c q (x # xs) =
     (let (a, q') = fifo_step c q x; (as, q'') = fifo_run c q' xs in (a # as, q''))"

text \<open>The same client program over an implementation given by its push and pop.\<close>

fun client_step :: "('q \<Rightarrow> u8 \<Rightarrow> (int \<times> 'q) option) \<Rightarrow> ('q \<Rightarrow> u8 cptr \<Rightarrow> (int \<times> 'q \<times> u8 cptr) option) \<Rightarrow>
    'q \<Rightarrow> fifo_op \<Rightarrow> (fifo_res \<times> 'q) option" where
  "client_step push pop q (OpPush x) = do { (st, q') \<leftarrow> push q x; Some ((st, NULL), q') }"
| "client_step push pop q OpPop = do { (st, q', v) \<leftarrow> pop q (Ptr 0); Some ((st, v), q') }"

fun client_run :: "('q \<Rightarrow> u8 \<Rightarrow> (int \<times> 'q) option) \<Rightarrow> ('q \<Rightarrow> u8 cptr \<Rightarrow> (int \<times> 'q \<times> u8 cptr) option) \<Rightarrow>
    'q \<Rightarrow> fifo_op list \<Rightarrow> (fifo_res list \<times> 'q) option" where
  "client_run push pop q [] = Some ([], q)"
| "client_run push pop q (x # xs) = do {
     (a, q') \<leftarrow> client_step push pop q x;
     (as, q'') \<leftarrow> client_run push pop q' xs;
     Some (a # as, q'')
   }"

locale byte_fifo =
  fixes push :: "'q \<Rightarrow> u8 \<Rightarrow> (int \<times> 'q) option"
    and pop :: "'q \<Rightarrow> u8 cptr \<Rightarrow> (int \<times> 'q \<times> u8 cptr) option"
    and contents :: "'q \<Rightarrow> u8 list"
    and cap :: "'q \<Rightarrow> nat"
    and inv :: "'q \<Rightarrow> bool"
  assumes push_room: "inv q \<Longrightarrow> length (contents q) < cap q \<Longrightarrow>
      \<exists>q'. push q x = Some (0, q') \<and> inv q' \<and> contents q' = contents q @ [x] \<and> cap q' = cap q"
    and push_full: "inv q \<Longrightarrow> cap q \<le> length (contents q) \<Longrightarrow> push q x = Some (-1, q)"
    and pop_some: "inv q \<Longrightarrow> contents q = y # ys \<Longrightarrow>
      \<exists>q'. pop q (Ptr v) = Some (0, q', Ptr y) \<and> inv q' \<and> contents q' = ys \<and> cap q' = cap q"
    and pop_none: "inv q \<Longrightarrow> contents q = [] \<Longrightarrow> pop q w = Some (-1, q, w)"
begin

lemma step_refines:
  assumes "inv q"
  shows "\<exists>q'. client_step push pop q x = Some (fst (fifo_step (cap q) (contents q) x), q') \<and> inv q' \<and>
    contents q' = snd (fifo_step (cap q) (contents q) x) \<and> cap q' = cap q"
proof (cases x)
  case (OpPush b)
  show ?thesis
  proof (cases "length (contents q) < cap q")
    case True
    from push_room [OF assms True, of b] show ?thesis by (auto simp: OpPush True)
  next
    case False
    then show ?thesis using push_full [OF assms, of b] assms by (simp add: OpPush)
  qed
next
  case OpPop
  show ?thesis
  proof (cases "contents q")
    case Nil
    then show ?thesis using pop_none [OF assms Nil] assms by (simp add: OpPop)
  next
    case (Cons y ys)
    from pop_some [OF assms Cons, of 0] show ?thesis by (auto simp: OpPop Cons)
  qed
qed

lemma run_refines:
  "inv q \<Longrightarrow> \<exists>q'. client_run push pop q xs = Some (fst (fifo_run (cap q) (contents q) xs), q') \<and> inv q' \<and>
    contents q' = snd (fifo_run (cap q) (contents q) xs) \<and> cap q' = cap q"
proof (induction xs arbitrary: q)
  case Nil
  then show ?case by simp
next
  case (Cons x xs)
  from step_refines [OF Cons.prems, of x] obtain q' where
    q': "client_step push pop q x = Some (fst (fifo_step (cap q) (contents q) x), q')" "inv q'"
    "contents q' = snd (fifo_step (cap q) (contents q) x)" "cap q' = cap q" by blast
  from Cons.IH [OF q'(2)] q' show ?case by (auto simp: split_beta Let_def)
qed

end

lemma push_room_rb:
  assumes "rbp_wf q" "length (rbp_list q) < rbp_cap q"
  shows "\<exists>q'. kringbuf_push q x = Some (0, q') \<and> rbp_wf q' \<and> rbp_list q' = rbp_list q @ [x] \<and> rbp_cap q' = rbp_cap q"
proof -
  from assms(1) obtain r b where q: "q = Ptr r" "rb_wf r" "rb_buffer r = Ptr b" "rb_bytes r = b"
    by (rule rbp_wfE)
  have room: "rb_count r < rb_capacity r" using assms(2) q(1) by (simp add: rbp_list_def rbp_cap_def)
  have "rb_head r < length b"
    using q room by (auto simp: rb_wf_def intro: less_le_trans [OF mod_less_divisor])
  with room q rb_wf_push [OF q(2,3) room, of x] show ?thesis
    by (simp add: kringbuf_push_def rbp_wf_def rbp_list_def rbp_cap_def)
qed

lemma pop_some_rb:
  assumes "rbp_wf q" "rbp_list q = y # ys"
  shows "\<exists>q'. kringbuf_pop q (Ptr v) = Some (0, q', Ptr y) \<and> rbp_wf q' \<and> rbp_list q' = ys \<and> rbp_cap q' = rbp_cap q"
proof -
  from assms(1) obtain r b where q: "q = Ptr r" "rb_wf r" "rb_buffer r = Ptr b" "rb_bytes r = b"
    by (rule rbp_wfE)
  have ne: "0 < rb_count r" using assms(2) q(1) length_rb_list [of r] by (simp add: rbp_list_def)
  from rb_wf_pop [OF q(2) ne] assms(2) q ne show ?thesis
    by (auto simp: kringbuf_pop_def rbp_wf_def rbp_list_def rbp_cap_def rb_wf_def)
qed

interpretation ring_fifo: byte_fifo kringbuf_push kringbuf_pop rbp_list rbp_cap rbp_wf
proof unfold_locales
  fix q x assume "rbp_wf q" "length (rbp_list q) < rbp_cap q"
  then show "\<exists>q'. kringbuf_push q x = Some (0, q') \<and> rbp_wf q' \<and> rbp_list q' = rbp_list q @ [x] \<and> rbp_cap q' = rbp_cap q"
    by (rule push_room_rb)
next
  fix q x assume "rbp_wf q" "rbp_cap q \<le> length (rbp_list q)"
  then show "kringbuf_push q x = Some (-1, q)"
    by (auto elim!: rbp_wfE simp: kringbuf_push_def rbp_list_def rbp_cap_def)
next
  fix q y ys v assume "rbp_wf q" "rbp_list q = y # ys"
  then show "\<exists>q'. kringbuf_pop q (Ptr v) = Some (0, q', Ptr y) \<and> rbp_wf q' \<and> rbp_list q' = ys \<and> rbp_cap q' = rbp_cap q"
    by (rule pop_some_rb)
next
  fix q w assume "rbp_wf q" "rbp_list q = []"
  then show "kringbuf_pop q w = Some (-1, q, w)"
    by (auto elim!: rbp_wfE simp: kringbuf_pop_def rbp_list_def rb_list_def)
qed

text \<open>The queries agree with the contents, on every wf buffer.\<close>

lemma queries_rb:
  assumes "rbp_wf q"
  shows "kringbuf_is_empty q \<longleftrightarrow> rbp_list q = []"
    and "kringbuf_is_full q \<longleftrightarrow> length (rbp_list q) = rbp_cap q"
    and "kringbuf_count q = length (rbp_list q)"
    and "rbp_list q = y # ys \<Longrightarrow> kringbuf_peek q (Ptr v) = Some (0, Ptr y)"
proof -
  from assms obtain r b where q: "q = Ptr r" "rb_wf r" "rb_buffer r = Ptr b" "rb_bytes r = b"
    by (rule rbp_wfE)
  show "kringbuf_is_empty q \<longleftrightarrow> rbp_list q = []" "kringbuf_count q = length (rbp_list q)"
    "kringbuf_is_full q \<longleftrightarrow> length (rbp_list q) = rbp_cap q"
    using q by (auto simp: kringbuf_defs rbp_list_def rbp_cap_def rb_wf_def rb_list_def)
  assume l: "rbp_list q = y # ys"
  then have ne: "0 < rb_count r" using q(1) length_rb_list [of r] by (simp add: rbp_list_def)
  from rb_wf_pop(2) [OF q(2) ne] l q ne show "kringbuf_peek q (Ptr v) = Some (0, Ptr y)"
    by (auto simp: kringbuf_peek_def rbp_list_def rb_wf_def)
qed

lemma init_rb:
  assumes "0 < c" "c \<le> length b"
  shows "rbp_wf (kringbuf_init (Ptr r) (Ptr b) c)"
    and "rbp_list (kringbuf_init (Ptr r) (Ptr b) c) = []"
    and "rbp_cap (kringbuf_init (Ptr r) (Ptr b) c) = c"
  using assms by (auto simp: kringbuf_init_def rbp_wf_def rb_wf_def rbp_list_def rb_list_def
    rbp_cap_def rb_bytes_def)

section \<open>Push and pop as sequences of memory accesses\<close>

text \<open>
  One constructor per point between two accesses to the shared descriptor.  \<open>rb->count++\<close> and
  \<open>rb->count--\<close> are a load and a store: nothing in the code makes them one atomic access.
\<close>

datatype prod_pc = PCheck | PWrite | PHead | PLoad | PInc nat | PRet int

datatype cons_pc = CCheck | CRead | CTail | CLoad | CDec nat | CRet int

fun prod_step :: "u8 \<Rightarrow> kringbuf \<Rightarrow> prod_pc \<Rightarrow> (kringbuf \<times> prod_pc) option" where
  "prod_step x r PCheck = Some (r, if rb_count r \<ge> rb_capacity r then PRet (-1) else PWrite)"
| "prod_step x r PWrite = (case rb_buffer r of NULL \<Rightarrow> None
     | Ptr b \<Rightarrow> do { b' \<leftarrow> wr b (rb_head r) x; Some (r\<lparr>rb_buffer := Ptr b'\<rparr>, PHead) })"
| "prod_step x r PHead = Some (r\<lparr>rb_head := (rb_head r + 1) mod rb_capacity r\<rparr>, PLoad)"
| "prod_step x r PLoad = Some (r, PInc (rb_count r))"
| "prod_step x r (PInc c) = Some (r\<lparr>rb_count := c + 1\<rparr>, PRet 0)"
| "prod_step x r (PRet v) = None"

fun cons_step :: "kringbuf \<Rightarrow> u8 \<Rightarrow> cons_pc \<Rightarrow> (kringbuf \<times> u8 \<times> cons_pc) option" where
  "cons_step r v CCheck = Some (r, v, if rb_count r = 0 then CRet (-1) else CRead)"
| "cons_step r v CRead = (case rb_buffer r of NULL \<Rightarrow> None
     | Ptr b \<Rightarrow> do { y \<leftarrow> rd b (rb_tail r); Some (r, y, CTail) })"
| "cons_step r v CTail = Some (r\<lparr>rb_tail := (rb_tail r + 1) mod rb_capacity r\<rparr>, v, CLoad)"
| "cons_step r v CLoad = Some (r, v, CDec (rb_count r))"
| "cons_step r v (CDec c) = Some (r\<lparr>rb_count := c - 1\<rparr>, v, CRet 0)"
| "cons_step r v (CRet n) = None"

record ring_sys =
  sys_rb :: kringbuf
  sys_prod :: prod_pc
  sys_cons :: cons_pc
  sys_out :: u8

text \<open>One producer pushing \<open>x\<close> and one consumer, on two cores: either may move.\<close>

inductive ring_step :: "u8 \<Rightarrow> ring_sys \<Rightarrow> ring_sys \<Rightarrow> bool" for x where
  producer: "prod_step x (sys_rb s) (sys_prod s) = Some (r, p) \<Longrightarrow>
     ring_step x s (s\<lparr>sys_rb := r, sys_prod := p\<rparr>)"
| consumer: "cons_step (sys_rb s) (sys_out s) (sys_cons s) = Some (r, v, c) \<Longrightarrow>
     ring_step x s (s\<lparr>sys_rb := r, sys_cons := c, sys_out := v\<rparr>)"

inductive_simps ring_step_iff: "ring_step x s t"

definition ring_start :: "kringbuf \<Rightarrow> ring_sys" where
  "ring_start r = \<lparr>sys_rb = r, sys_prod = PCheck, sys_cons = CCheck, sys_out = 0\<rparr>"

abbreviation ring_steps :: "u8 \<Rightarrow> ring_sys \<Rightarrow> ring_sys \<Rightarrow> bool" where
  "ring_steps x \<equiv> (ring_step x)\<^sup>*\<^sup>*"

text \<open>Moves chained one after the other; the premises are evaluated by the simplifier.\<close>

lemma prod_then:
  "prod_step x (sys_rb s) (sys_prod s) = Some (r, p) \<Longrightarrow>
   ring_steps x (s\<lparr>sys_rb := r, sys_prod := p\<rparr>) t \<Longrightarrow> ring_steps x s t"
  by (rule converse_rtranclp_into_rtranclp, erule ring_step.producer)

lemma cons_then:
  "cons_step (sys_rb s) (sys_out s) (sys_cons s) = Some (r, v, c) \<Longrightarrow>
   ring_steps x (s\<lparr>sys_rb := r, sys_cons := c, sys_out := v\<rparr>) t \<Longrightarrow> ring_steps x s t"
  by (rule converse_rtranclp_into_rtranclp, erule ring_step.consumer)

text \<open>Alone, the split producer computes \<open>kringbuf_push\<close>, and the split consumer \<open>kringbuf_pop\<close>.\<close>

lemma producer_alone_is_push:
  assumes "kringbuf_push (Ptr r) x = Some (st, Ptr r')" and "rb_buffer r \<noteq> NULL"
  shows "ring_steps x (ring_start r) ((ring_start r)\<lparr>sys_rb := r', sys_prod := PRet st\<rparr>)"
proof -
  from assms(2) obtain b where b: "rb_buffer r = Ptr b" by (cases "rb_buffer r") auto
  show ?thesis
  proof (cases "rb_count r \<ge> rb_capacity r")
    case True
    with assms(1) b have "st = -1" "r' = r" by (simp_all add: kringbuf_push_def)
    then show ?thesis
      by (intro prod_then [OF _ rtranclp.rtrancl_refl]) (simp_all add: ring_start_def True)
  next
    case False
    with assms(1) b have l: "rb_head r < length b" and r': "st = 0"
      "r' = r\<lparr>rb_buffer := Ptr (b[rb_head r := x]), rb_head := (rb_head r + 1) mod rb_capacity r,
              rb_count := rb_count r + 1\<rparr>"
      by (auto simp: kringbuf_push_def wr_def split: if_splits)
    show ?thesis
      unfolding r' ring_start_def
      by (rule prod_then, simp add: False, rule prod_then, simp add: b l, rule prod_then, simp,
          rule prod_then, simp, rule prod_then, simp, simp)
  qed
qed

lemma consumer_alone_is_pop:
  assumes "kringbuf_pop (Ptr r) (Ptr 0) = Some (st, Ptr r', Ptr v)" and "rb_buffer r \<noteq> NULL"
  shows "ring_steps x (ring_start r) ((ring_start r)\<lparr>sys_rb := r', sys_cons := CRet st, sys_out := v\<rparr>)"
proof -
  from assms(2) obtain b where b: "rb_buffer r = Ptr b" by (cases "rb_buffer r") auto
  show ?thesis
  proof (cases "rb_count r = 0")
    case True
    with assms(1) b have "st = -1" "r' = r" "v = 0" by (simp_all add: kringbuf_pop_def)
    then show ?thesis
      by (intro cons_then [OF _ rtranclp.rtrancl_refl]) (simp_all add: ring_start_def True)
  next
    case False
    with assms(1) b have l: "rb_tail r < length b" and r': "st = 0" "v = b ! rb_tail r"
      "r' = r\<lparr>rb_tail := (rb_tail r + 1) mod rb_capacity r, rb_count := rb_count r - 1\<rparr>"
      by (auto simp: kringbuf_pop_def rd_def split: if_splits)
    show ?thesis
      unfolding r' ring_start_def
      by (rule cons_then, simp add: False, rule cons_then, simp add: b l, rule cons_then, simp,
          rule cons_then, simp, rule cons_then, simp, simp)
  qed
qed

section \<open>Properties\<close>

text \<open>
  C4: On every well-formed ring buffer, any sequence of pushes and pops returns exactly the
  status codes and bytes that a bounded FIFO list of the same capacity returns, never runs into
  undefined behaviour, and leaves a well-formed buffer holding the list's contents.
\<close>

theorem kringbuf_refines_fifo:
  assumes "rbp_wf q"
  shows "\<exists>q'. client_run kringbuf_push kringbuf_pop q ops =
      Some (fst (fifo_run (rbp_cap q) (rbp_list q) ops), q') \<and>
    rbp_wf q' \<and> rbp_list q' = snd (fifo_run (rbp_cap q) (rbp_list q) ops) \<and> rbp_cap q' = rbp_cap q"
  using ring_fifo.run_refines [OF assms] .

definition demo_ring :: "kringbuf cptr" where
  "demo_ring = Ptr \<lparr>rb_buffer = Ptr [0, 0, 5], rb_capacity = 3, rb_head = 0, rb_tail = 2, rb_count = 1\<rparr>"

theorem kringbuf_refines_fifo_witness:
  "\<exists>q'. client_run kringbuf_push kringbuf_pop demo_ring [OpPush 9, OpPop, OpPop, OpPop] =
    Some ([(0, NULL), (0, Ptr 5), (0, Ptr 9), (-1, Ptr 0)], q')"
proof -
  have "rbp_wf demo_ring"
    by (simp add: demo_ring_def rbp_wf_def rb_wf_def rb_bytes_def)
  from kringbuf_refines_fifo [OF this, of "[OpPush 9, OpPop, OpPop, OpPop]"] show ?thesis
    by (auto simp: demo_ring_def rbp_list_def rbp_cap_def rb_list_def rb_bytes_def)
qed

text \<open>
  C8: The buffer is documented as lock-free, yet on any well-formed buffer that is neither empty
  nor full there is an interleaving of one push and one pop on two cores in which both report
  success and the descriptor is left inconsistent: the two updates of \<open>count\<close> race, one is
  lost, and the count is one too high.
\<close>

theorem kringbuf_concurrent_lost_update:
  assumes wf: "rb_wf r" and ne: "0 < rb_count r" and room: "rb_count r < rb_capacity r"
  shows "\<exists>s. ring_steps x (ring_start r) s \<and> sys_prod s = PRet 0 \<and> sys_cons s = CRet 0 \<and>
    rb_count (sys_rb s) = rb_count r + 1 \<and> \<not> rb_wf (sys_rb s)"
proof -
  from wf obtain b where b: "rb_buffer r = Ptr b" by (cases "rb_buffer r") (auto simp: rb_wf_def)
  have l: "rb_tail r < length b" "rb_head r < length b"
    using wf b room by (auto simp: rb_wf_def rb_bytes_def intro: less_le_trans [OF mod_less_divisor])
  let ?c = "rb_capacity r"
  let ?r = "r\<lparr>rb_tail := (rb_tail r + 1) mod ?c, rb_buffer := Ptr (b[rb_head r := x]),
              rb_head := (rb_head r + 1) mod ?c, rb_count := rb_count r + 1\<rparr>"
  have run: "ring_steps x (ring_start r)
      \<lparr>sys_rb = ?r, sys_prod = PRet 0, sys_cons = CRet 0, sys_out = b ! rb_tail r\<rparr>"
    unfolding ring_start_def
    using ne room b l
    by - (rule cons_then, simp, rule cons_then, simp, rule cons_then, simp,
        rule prod_then, simp, rule prod_then, simp, rule prod_then, simp, rule prod_then, simp,
        rule cons_then, simp, rule cons_then, simp, rule prod_then, simp, simp)
  have "(rb_tail r + rb_count r + 1) mod ?c \<noteq> (rb_tail r + rb_count r + 2) mod ?c"
    using wrap_index_distinct [of 0 1 ?c "rb_tail r + rb_count r + 1"] ne room by simp
  moreover have "rb_head ?r = (rb_tail r + rb_count r + 1) mod ?c"
    using wf by (simp add: rb_wf_def mod_Suc_eq)
  moreover have "(rb_tail ?r + rb_count ?r) mod rb_capacity ?r = (rb_tail r + rb_count r + 2) mod ?c"
    using mod_add_left_eq [of "rb_tail r + 1" ?c "rb_count r + 1"] by simp
  ultimately have "\<not> rb_wf ?r" unfolding rb_wf_def by simp
  with run show ?thesis by (intro exI conjI) auto
qed

theorem kringbuf_concurrent_lost_update_witness:
  "\<exists>s. ring_steps 9 (ring_start (case demo_ring of Ptr r \<Rightarrow> r)) s \<and> sys_prod s = PRet 0 \<and>
    sys_cons s = CRet 0 \<and> \<not> rb_wf (sys_rb s)"
  using kringbuf_concurrent_lost_update [of "case demo_ring of Ptr r \<Rightarrow> r" 9]
  by (auto simp: demo_ring_def rb_wf_def rb_bytes_def)

end
