(* ===== verification/Klist.thy ===== *)
theory Klist imports Prelude begin

text \<open>
  The intrusive circular doubly-linked list of freestanding/klist.c and klist.h, over a heap of
  nodes: a partial map from addresses to \<open>next\<close>/\<open>prev\<close> pairs, with 0 as the null pointer and an
  access through an unmapped address as undefined behaviour.  The representation predicate
  \<open>circ\<close> says that a header and a list of nodes form a well-linked ring; every operation is shown
  to realise the list operation it stands for.
\<close>

section \<open>Nodes, heap and operations\<close>

record klist_node =
  kn_next :: nat
  kn_prev :: nat

type_synonym node_heap = "nat \<rightharpoonup> klist_node"

definition get_next :: "node_heap \<Rightarrow> nat \<Rightarrow> nat option" where
  "get_next h a = map_option kn_next (h a)"

definition get_prev :: "node_heap \<Rightarrow> nat \<Rightarrow> nat option" where
  "get_prev h a = map_option kn_prev (h a)"

definition set_next :: "node_heap \<Rightarrow> nat \<Rightarrow> nat \<Rightarrow> node_heap option" where
  "set_next h a v = map_option (\<lambda>n. h(a \<mapsto> n\<lparr>kn_next := v\<rparr>)) (h a)"

definition set_prev :: "node_heap \<Rightarrow> nat \<Rightarrow> nat \<Rightarrow> node_heap option" where
  "set_prev h a v = map_option (\<lambda>n. h(a \<mapsto> n\<lparr>kn_prev := v\<rparr>)) (h a)"

definition klist_init :: "node_heap \<Rightarrow> nat \<Rightarrow> node_heap option" where
  "klist_init h head =
     (if head = 0 then Some h
      else do {
        h1 \<leftarrow> set_next h head head;
        set_prev h1 head head
      })"

definition klist_add_head :: "node_heap \<Rightarrow> nat \<Rightarrow> nat \<Rightarrow> node_heap option" where
  "klist_add_head h head new_node =
     (if head = 0 \<or> new_node = 0 then Some h
      else do {
        n \<leftarrow> get_next h head;
        h1 \<leftarrow> set_next h new_node n;
        h2 \<leftarrow> set_prev h1 new_node head;
        n' \<leftarrow> get_next h2 head;
        h3 \<leftarrow> set_prev h2 n' new_node;
        set_next h3 head new_node
      })"

definition klist_add_tail :: "node_heap \<Rightarrow> nat \<Rightarrow> nat \<Rightarrow> node_heap option" where
  "klist_add_tail h head new_node =
     (if head = 0 \<or> new_node = 0 then Some h
      else do {
        h1 \<leftarrow> set_next h new_node head;
        p \<leftarrow> get_prev h1 head;
        h2 \<leftarrow> set_prev h1 new_node p;
        p' \<leftarrow> get_prev h2 head;
        h3 \<leftarrow> set_next h2 p' new_node;
        set_prev h3 head new_node
      })"

definition klist_remove :: "node_heap \<Rightarrow> nat \<Rightarrow> node_heap option" where
  "klist_remove h node =
     (if node = 0 then Some h
      else do {
        n \<leftarrow> get_next h node;
        p \<leftarrow> get_prev h node;
        if n = 0 \<or> p = 0 then Some h
        else do {
          h1 \<leftarrow> set_next h p n;
          n' \<leftarrow> get_next h1 node;
          p' \<leftarrow> get_prev h1 node;
          h2 \<leftarrow> set_prev h1 n' p';
          h3 \<leftarrow> set_next h2 node node;
          set_prev h3 node node
        }
      })"

definition klist_is_empty :: "node_heap \<Rightarrow> nat \<Rightarrow> bool option" where
  "klist_is_empty h head =
     (if head = 0 then Some False else map_option (\<lambda>n. n = head) (get_next h head))"

text \<open>\<open>klist_entry\<close>: the container's address from its member's (\<open>offsetof\<close> is \<open>off\<close>).\<close>

definition klist_entry :: "nat \<Rightarrow> nat \<Rightarrow> nat" where
  "klist_entry ptr off = ptr - off"

lemmas heap_access = get_next_def get_prev_def set_next_def set_prev_def

section \<open>Representation\<close>

text \<open>
  \<open>seg h a ns b\<close>: the forward and backward links lead from \<open>a\<close> through \<open>ns\<close> to \<open>b\<close>.
\<close>

fun seg :: "node_heap \<Rightarrow> nat \<Rightarrow> nat list \<Rightarrow> nat \<Rightarrow> bool" where
  "seg h a [] b \<longleftrightarrow> get_next h a = Some b \<and> get_prev h b = Some a"
| "seg h a (x # xs) b \<longleftrightarrow> get_next h a = Some x \<and> get_prev h x = Some a \<and> seg h x xs b"

definition circ :: "node_heap \<Rightarrow> nat \<Rightarrow> nat list \<Rightarrow> bool" where
  "circ h head ns \<longleftrightarrow> seg h head ns head \<and> distinct (head # ns) \<and> 0 \<notin> set (head # ns)"

lemma seg_append: "seg h a (xs @ y # ys) b \<longleftrightarrow> seg h a xs y \<and> seg h y ys b"
  by (induction xs arbitrary: a) auto

lemma seg_frame:
  assumes "seg h a xs b"
    and "\<And>x. x \<in> set (a # xs) \<Longrightarrow> get_next h' x = get_next h x"
    and "\<And>x. x \<in> set (xs @ [b]) \<Longrightarrow> get_prev h' x = get_prev h x"
  shows "seg h' a xs b"
  using assms by (induction xs arbitrary: a) auto

lemma seg_mapped: "seg h a xs b \<Longrightarrow> x \<in> set (a # b # xs) \<Longrightarrow> \<exists>n. h x = Some n"
  by (induction xs arbitrary: a) (auto simp: heap_access)

text \<open>What the four field writes leave unchanged.\<close>

lemma next_set_next: "set_next h a v = Some h' \<Longrightarrow> get_next h' x = (if x = a then Some v else get_next h x)"
  by (auto simp: heap_access)

lemma prev_set_next: "set_next h a v = Some h' \<Longrightarrow> get_prev h' x = get_prev h x"
  by (auto simp: heap_access)

lemma next_set_prev: "set_prev h a v = Some h' \<Longrightarrow> get_next h' x = get_next h x"
  by (auto simp: heap_access)

lemma prev_set_prev: "set_prev h a v = Some h' \<Longrightarrow> get_prev h' x = (if x = a then Some v else get_prev h x)"
  by (auto simp: heap_access)

lemmas field_writes = next_set_next prev_set_next next_set_prev prev_set_prev

lemma set_next_defined: "get_next h a = Some w \<Longrightarrow> \<exists>h'. set_next h a v = Some h'"
  by (auto simp: heap_access)

lemma set_prev_defined: "get_next h a = Some w \<Longrightarrow> \<exists>h'. set_prev h a v = Some h'"
  by (auto simp: heap_access)

lemma get_prev_defined: "get_next h a = Some w \<longleftrightarrow> (\<exists>n. h a = Some n \<and> kn_next n = w)"
  by (auto simp: heap_access)

text \<open>
  Both insertions link a node between two neighbours: this is their common core.
\<close>

lemma seg_insert:
  assumes s: "seg h a xs b"
    and d: "distinct (a # xs)" "b \<notin> set xs" "m \<notin> set (a # b # xs)"
    and n: "\<And>x. get_next h' x = (if x = a then Some m else if x = m then Some (hd (xs @ [b])) else get_next h x)"
    and p: "\<And>x. get_prev h' x = (if x = hd (xs @ [b]) then Some m else if x = m then Some a else get_prev h x)"
  shows "seg h' a (m # xs) b"
proof (cases xs)
  case Nil
  then show ?thesis using d n p by simp
next
  case (Cons y ys)
  from s Cons have "seg h y ys b" by simp
  then have "seg h' y ys b"
    by (rule seg_frame) (use d n p Cons in auto)
  then show ?thesis using d n p Cons by simp
qed

lemma seg_last: "seg h a xs b \<Longrightarrow> get_prev h b = Some (last (a # xs))"
  by (induction xs arbitrary: a) auto

lemma seg_hd: "seg h a xs b \<Longrightarrow> get_next h a = Some (hd (xs @ [b]))"
  by (cases xs) auto

lemma circ_first: "circ h head ns \<Longrightarrow> get_next h head = Some (hd (ns @ [head]))"
  by (simp add: circ_def seg_hd)

lemma circ_last: "circ h head ns \<Longrightarrow> get_prev h head = Some (last (head # ns))"
  by (simp only: circ_def seg_last)

lemma circ_mapped: "circ h head ns \<Longrightarrow> x \<in> set (head # ns) \<Longrightarrow> \<exists>n. h x = Some n"
  using seg_mapped [of h head ns head x] by (auto simp: circ_def)

lemma circ_nodes: "circ h head ns \<Longrightarrow> last (head # ns) \<in> set (head # ns)"
  using last_in_set by blast

lemma seg_insert_last:
  assumes "seg h a xs b" "distinct (a # xs)" "b \<notin> set xs" "m \<notin> set (a # b # xs)"
    and "\<And>x. get_next h' x = (if x = last (a # xs) then Some m else if x = m then Some b else get_next h x)"
    and "\<And>x. get_prev h' x = (if x = b then Some m else if x = m then Some (last (a # xs)) else get_prev h x)"
  shows "seg h' a (xs @ [m]) b"
  using assms by (induction xs arbitrary: a) auto

lemma seg_delete:
  assumes "seg h a (xs @ m # ys) b" "distinct (a # xs @ m # ys)" "b \<notin> set (xs @ m # ys)"
    and "\<And>x. get_next h' x = (if x = m then Some m else if x = last (a # xs) then Some (hd (ys @ [b])) else get_next h x)"
    and "\<And>x. get_prev h' x = (if x = m then Some m else if x = hd (ys @ [b]) then Some (last (a # xs)) else get_prev h x)"
  shows "seg h' a (xs @ ys) b"
  using assms
proof (induction xs arbitrary: a)
  case Nil
  show ?case
  proof (cases ys)
    case (Cons y zs)
    from Nil.prems(1) Cons have "seg h y zs b" by simp
    then have "seg h' y zs b"
      by (rule seg_frame) (use Nil.prems Cons in auto)
    then show ?thesis using Nil.prems Cons by auto
  qed (use Nil.prems in auto)
next
  case (Cons x xs)
  have "hd (ys @ [b]) \<in> set (b # ys)" by (cases ys) auto
  then have "hd (ys @ [b]) \<noteq> x" using Cons.prems by auto
  moreover have "seg h' x (xs @ ys) b"
    by (rule Cons.IH) (use Cons.prems in auto)
  moreover have "a \<noteq> m" "x \<noteq> m" "a \<noteq> last (x # xs)"
    using Cons.prems(2) last_in_set [of "x # xs"] by auto
  ultimately show ?case using Cons.prems by simp
qed

section \<open>The operations realise the list operations\<close>

text \<open>What each operation writes, over the links it finds.\<close>

lemma add_head_writes:
  assumes "get_next h head = Some f" "h f = Some nf" "h m = Some k" "f \<noteq> m" "head \<noteq> m" "head \<noteq> 0" "m \<noteq> 0"
  shows "\<exists>h'. klist_add_head h head m = Some h' \<and> dom h' = dom h \<and>
    (\<forall>x. get_next h' x = (if x = head then Some m else if x = m then Some f else get_next h x)) \<and>
    (\<forall>x. get_prev h' x = (if x = f then Some m else if x = m then Some head else get_prev h x))"
  using assms by (cases "head = f") (auto simp: klist_add_head_def heap_access)

lemma add_tail_writes:
  assumes "get_prev h head = Some l" "h l = Some nl" "h m = Some k" "l \<noteq> m" "head \<noteq> m" "head \<noteq> 0" "m \<noteq> 0"
  shows "\<exists>h'. klist_add_tail h head m = Some h' \<and> dom h' = dom h \<and>
    (\<forall>x. get_next h' x = (if x = l then Some m else if x = m then Some head else get_next h x)) \<and>
    (\<forall>x. get_prev h' x = (if x = head then Some m else if x = m then Some l else get_prev h x))"
  using assms by (cases "head = l") (auto simp: klist_add_tail_def heap_access)

lemma remove_writes:
  assumes "get_next h m = Some n" "get_prev h m = Some p" "h n = Some nn" "h p = Some np"
    "n \<noteq> m" "p \<noteq> m" "n \<noteq> 0" "p \<noteq> 0" "m \<noteq> 0"
  shows "\<exists>h'. klist_remove h m = Some h' \<and> dom h' = dom h \<and>
    (\<forall>x. get_next h' x = (if x = m then Some m else if x = p then Some n else get_next h x)) \<and>
    (\<forall>x. get_prev h' x = (if x = m then Some m else if x = n then Some p else get_prev h x))"
  using assms by (cases "n = p") (auto simp: klist_remove_def heap_access)

lemma klist_init_circ:
  assumes "h head = Some n" "head \<noteq> 0"
  shows "\<exists>h'. klist_init h head = Some h' \<and> circ h' head [] \<and> dom h' = dom h"
  using assms by (auto simp: klist_init_def heap_access circ_def)

lemma klist_add_head_circ:
  assumes c: "circ h head ns" and m: "h m = Some k" "m \<noteq> 0" "m \<notin> set (head # ns)"
  shows "\<exists>h'. klist_add_head h head m = Some h' \<and> circ h' head (m # ns) \<and> dom h' = dom h"
proof -
  let ?f = "hd (ns @ [head])"
  have f: "get_next h head = Some ?f" using c by (rule circ_first)
  have "?f \<in> set (head # ns)" by (cases ns) auto
  with c obtain nf nh where mapped: "h ?f = Some nf" "h head = Some nh" and fm: "?f \<noteq> m"
    using circ_mapped [OF c] m(3) by (metis list.set_intros(1))
  have h0: "head \<noteq> 0" "m \<noteq> head" using c m by (auto simp: circ_def)
  obtain h' where h': "klist_add_head h head m = Some h'" and dom: "dom h' = dom h"
    and fields: "\<And>x. get_next h' x = (if x = head then Some m else if x = m then Some ?f else get_next h x)"
      "\<And>x. get_prev h' x = (if x = ?f then Some m else if x = m then Some head else get_prev h x)"
    using add_head_writes [OF f mapped(1) m(1) fm] h0 m(2) by auto
  have "seg h' head (m # ns) head"
    using c m fields by (intro seg_insert [of h]) (auto simp: circ_def)
  then show ?thesis using h' dom c m by (auto simp: circ_def)
qed

lemma klist_add_tail_circ:
  assumes c: "circ h head ns" and m: "h m = Some k" "m \<noteq> 0" "m \<notin> set (head # ns)"
  shows "\<exists>h'. klist_add_tail h head m = Some h' \<and> circ h' head (ns @ [m]) \<and> dom h' = dom h"
proof -
  let ?l = "last (head # ns)"
  have f: "get_prev h head = Some ?l" using c by (rule circ_last)
  obtain nf nh where mapped: "h ?l = Some nf" "h head = Some nh" and fm: "?l \<noteq> m"
    using circ_mapped [OF c] circ_nodes [OF c] m(3) by (metis list.set_intros(1))
  have h0: "head \<noteq> 0" "m \<noteq> head" using c m by (auto simp: circ_def)
  obtain h' where h': "klist_add_tail h head m = Some h'" and dom: "dom h' = dom h"
    and fields: "\<And>x. get_next h' x = (if x = ?l then Some m else if x = m then Some head else get_next h x)"
      "\<And>x. get_prev h' x = (if x = head then Some m else if x = m then Some ?l else get_prev h x)"
    using add_tail_writes [OF f mapped(1) m(1) fm] h0 m(2) by auto
  have "seg h' head (ns @ [m]) head"
    using c m fields by (intro seg_insert_last [of h]) (auto simp: circ_def)
  then show ?thesis using h' dom c m by (auto simp: circ_def)
qed

lemma klist_remove_circ:
  assumes c: "circ h head (xs @ m # ys)"
  shows "\<exists>h'. klist_remove h m = Some h' \<and> circ h' head (xs @ ys) \<and> dom h' = dom h \<and>
    get_next h' m = Some m \<and> get_prev h' m = Some m"
proof -
  let ?p = "last (head # xs)" and ?n = "hd (ys @ [head])"
  from c have s: "seg h head xs m" "seg h m ys head" by (auto simp: circ_def seg_append)
  have p: "get_prev h m = Some ?p" and n: "get_next h m = Some ?n"
    using seg_last [OF s(1)] seg_hd [OF s(2)] by simp_all
  have in_ring: "?p \<in> set (head # xs)" "?n \<in> set (head # ys)" by (auto simp: hd_append)
  then have "?p \<in> set (head # xs @ m # ys)" "?n \<in> set (head # xs @ m # ys)"
    by (auto simp del: last.simps)
  then obtain np nn where mapped: "h ?p = Some np" "h ?n = Some nn"
    using circ_mapped [OF c] by blast
  have ne: "?p \<noteq> m" "?n \<noteq> m" "?p \<noteq> 0" "?n \<noteq> 0" "m \<noteq> 0"
    using c in_ring by (auto simp: circ_def)
  obtain h' where h': "klist_remove h m = Some h'" and dom: "dom h' = dom h"
    and fields: "\<And>x. get_next h' x = (if x = m then Some m else if x = ?p then Some ?n else get_next h x)"
      "\<And>x. get_prev h' x = (if x = m then Some m else if x = ?n then Some ?p else get_prev h x)"
    using remove_writes [OF n p mapped(2,1) ne(2,1,4,3,5)] by auto
  have "seg h' head (xs @ ys) head"
    by (rule seg_delete [OF _ _ _ fields]) (use c in \<open>auto simp: circ_def\<close>)
  moreover have "get_next h' m = Some m" "get_prev h' m = Some m" by (simp_all add: fields)
  ultimately show ?thesis using h' dom c by (auto simp: circ_def)
qed

section \<open>The contract: a sequence of distinct nodes\<close>

datatype list_op = AddHead nat | AddTail nat | Remove nat

text \<open>The list operation, with no value where the caller breaks the contract.\<close>

fun seq_step :: "nat list \<Rightarrow> list_op \<Rightarrow> nat list option" where
  "seq_step ns (AddHead m) = (if m \<in> set ns then None else Some (m # ns))"
| "seq_step ns (AddTail m) = (if m \<in> set ns then None else Some (ns @ [m]))"
| "seq_step ns (Remove m) = (if m \<in> set ns then Some (remove1 m ns) else None)"

fun op_node :: "list_op \<Rightarrow> nat" where
  "op_node (AddHead m) = m"
| "op_node (AddTail m) = m"
| "op_node (Remove m) = m"

fun seq_run :: "nat list \<Rightarrow> list_op list \<Rightarrow> nat list option" where
  "seq_run ns [] = Some ns"
| "seq_run ns (x # xs) = do { ns' \<leftarrow> seq_step ns x; seq_run ns' xs }"

fun klist_run :: "node_heap \<Rightarrow> nat \<Rightarrow> list_op list \<Rightarrow> node_heap option" where
  "klist_run h head [] = Some h"
| "klist_run h head (AddHead m # xs) = do { h' \<leftarrow> klist_add_head h head m; klist_run h' head xs }"
| "klist_run h head (AddTail m # xs) = do { h' \<leftarrow> klist_add_tail h head m; klist_run h' head xs }"
| "klist_run h head (Remove m # xs) = do { h' \<leftarrow> klist_remove h m; klist_run h' head xs }"

locale node_sequence =
  fixes rep :: "'h \<Rightarrow> nat list \<Rightarrow> bool"
    and usable :: "nat \<Rightarrow> bool"
    and add_first add_last remove :: "'h \<Rightarrow> nat \<Rightarrow> 'h option"
  assumes add_first: "rep h ns \<Longrightarrow> usable m \<Longrightarrow> m \<notin> set ns \<Longrightarrow> \<exists>h'. add_first h m = Some h' \<and> rep h' (m # ns)"
    and add_last: "rep h ns \<Longrightarrow> usable m \<Longrightarrow> m \<notin> set ns \<Longrightarrow> \<exists>h'. add_last h m = Some h' \<and> rep h' (ns @ [m])"
    and remove: "rep h (xs @ m # ys) \<Longrightarrow> \<exists>h'. remove h m = Some h' \<and> rep h' (xs @ ys)"
    and distinct_nodes: "rep h ns \<Longrightarrow> distinct ns"
begin

definition op_step :: "'h \<Rightarrow> list_op \<Rightarrow> 'h option" where
  "op_step h x = (case x of AddHead m \<Rightarrow> add_first h m | AddTail m \<Rightarrow> add_last h m | Remove m \<Rightarrow> remove h m)"

primrec op_run :: "'h \<Rightarrow> list_op list \<Rightarrow> 'h option" where
  "op_run h [] = Some h"
| "op_run h (x # xs) = Option.bind (op_step h x) (\<lambda>h'. op_run h' xs)"

lemma op_step_refines:
  assumes "rep h ns" "usable (op_node x)" "seq_step ns x = Some ns'"
  shows "\<exists>h'. op_step h x = Some h' \<and> rep h' ns'"
proof (cases x)
  case (Remove m)
  with assms(3) have "m \<in> set ns" "ns' = remove1 m ns" by (auto split: if_splits)
  then obtain xs ys where ns: "ns = xs @ m # ys" "m \<notin> set xs" by (metis split_list_first)
  then have "ns' = xs @ ys" using \<open>ns' = remove1 m ns\<close> by (simp add: remove1_append)
  then show ?thesis using remove [of h xs m ys] assms(1) ns(1) by (simp add: Remove op_step_def)
qed (use assms add_first add_last in \<open>auto simp: op_step_def split: if_splits\<close>)

lemma op_run_refines:
  "rep h ns \<Longrightarrow> \<forall>x\<in>set xs. usable (op_node x) \<Longrightarrow> seq_run ns xs = Some ns' \<Longrightarrow>
   \<exists>h'. op_run h xs = Some h' \<and> rep h' ns'"
proof (induction xs arbitrary: h ns)
  case (Cons x xs)
  then obtain ns1 where n1: "seq_step ns x = Some ns1" "seq_run ns1 xs = Some ns'"
    by (auto simp: bind_eq_Some_conv)
  with op_step_refines [of h ns x ns1] Cons.prems obtain h1 where "op_step h x = Some h1" "rep h1 ns1"
    by auto
  with Cons.IH [of h1 ns1] Cons.prems n1 show ?case by auto
qed simp

end

text \<open>
  The interpretation is over heaps of one domain \<open>D\<close> that hold a ring at a fixed header.
\<close>

definition ring_rep :: "nat \<Rightarrow> nat set \<Rightarrow> node_heap \<Rightarrow> nat list \<Rightarrow> bool" where
  "ring_rep head D h ns \<longleftrightarrow> circ h head ns \<and> dom h = D"

definition node_usable :: "nat \<Rightarrow> nat set \<Rightarrow> nat \<Rightarrow> bool" where
  "node_usable head D m \<longleftrightarrow> m \<in> D \<and> m \<noteq> 0 \<and> m \<noteq> head"

interpretation kl: node_sequence "ring_rep head D" "node_usable head D"
  "\<lambda>h. klist_add_head h head" "\<lambda>h. klist_add_tail h head" klist_remove for head D
proof unfold_locales
  fix h ns m
  assume *: "ring_rep head D h ns" "node_usable head D m" "m \<notin> set ns"
  then obtain k where "circ h head ns" "h m = Some k" "m \<noteq> 0" "m \<notin> set (head # ns)" "dom h = D"
    by (auto simp: ring_rep_def node_usable_def)
  from klist_add_head_circ [OF this(1-4)] klist_add_tail_circ [OF this(1-4)] this(5)
  show "\<exists>h'. klist_add_head h head m = Some h' \<and> ring_rep head D h' (m # ns)"
    "\<exists>h'. klist_add_tail h head m = Some h' \<and> ring_rep head D h' (ns @ [m])"
    by (auto simp: ring_rep_def)
next
  fix h xs m ys assume "ring_rep head D h (xs @ m # ys)"
  then show "\<exists>h'. klist_remove h m = Some h' \<and> ring_rep head D h' (xs @ ys)"
    using klist_remove_circ [of h head xs m ys] by (auto simp: ring_rep_def)
next
  fix h ns assume "ring_rep head D h ns"
  then show "distinct ns" by (auto simp: ring_rep_def circ_def)
qed

lemma klist_run_op_run: "klist_run h head xs = kl.op_run head h xs"
proof (induction xs arbitrary: h)
  case (Cons x xs)
  then show ?case by (cases x) (simp_all add: kl.op_step_def)
qed simp

section \<open>Properties\<close>

text \<open>
  C5: On a well-linked ring, every sequence of insertions at either end and removals that
  respects the list contract (no node inserted twice, only members removed, every node mapped
  and distinct from the header) runs without undefined behaviour and leaves a well-linked ring
  holding exactly the nodes of the list after the same operations, in the same order.
\<close>

theorem klist_realises_list:
  assumes "circ h head ns" and "seq_run ns ops = Some ns'"
    and "\<forall>x\<in>set ops. op_node x \<in> dom h \<and> op_node x \<noteq> 0 \<and> op_node x \<noteq> head"
  shows "\<exists>h'. klist_run h head ops = Some h' \<and> circ h' head ns' \<and> dom h' = dom h"
  using kl.op_run_refines [of head "dom h" h ns ops ns'] assms
  by (simp add: ring_rep_def node_usable_def klist_run_op_run)

definition demo_nodes :: node_heap where
  "demo_nodes = Map.empty(16 \<mapsto> \<lparr>kn_next = 16, kn_prev = 16\<rparr>, 32 \<mapsto> \<lparr>kn_next = 0, kn_prev = 0\<rparr>,
     48 \<mapsto> \<lparr>kn_next = 0, kn_prev = 0\<rparr>, 64 \<mapsto> \<lparr>kn_next = 7, kn_prev = 9\<rparr>)"

theorem klist_realises_list_witness:
  "\<exists>h'. klist_run demo_nodes 16 [AddHead 32, AddTail 48, AddHead 64, Remove 32] = Some h' \<and> circ h' 16 [64, 48]"
proof -
  have "circ demo_nodes 16 []" by (simp add: circ_def demo_nodes_def heap_access)
  from klist_realises_list [OF this, of "[AddHead 32, AddTail 48, AddHead 64, Remove 32]" "[64, 48]"]
  show ?thesis by (auto simp: demo_nodes_def)
qed

text \<open>
  Removing a member unlinks exactly that node: it ends self-linked, so a second
  \<open>klist_remove\<close> of it leaves the heap as it is, and the header's ring keeps its other members.
\<close>

theorem klist_remove_idempotent:
  assumes "circ h head (xs @ m # ys)"
  shows "\<exists>h'. klist_remove h m = Some h' \<and> circ h' head (xs @ ys) \<and> klist_remove h' m = Some h'"
proof -
  from klist_remove_circ [OF assms] obtain h' where
    h': "klist_remove h m = Some h'" "circ h' head (xs @ ys)" "get_next h' m = Some m" "get_prev h' m = Some m"
    by blast
  then obtain n where "h' m = Some n" "kn_next n = m" "kn_prev n = m" by (auto simp: heap_access)
  then have "klist_remove h' m = Some h'"
    by (cases n) (auto simp: klist_remove_def heap_access map_upd_triv)
  with h' show ?thesis by blast
qed

theorem klist_remove_idempotent_witness:
  "\<exists>h h'. circ h 16 [32, 48] \<and> klist_remove h 32 = Some h' \<and> circ h' 16 [48] \<and> klist_remove h' 32 = Some h'"
proof -
  let ?h = "Map.empty(16 \<mapsto> \<lparr>kn_next = 32, kn_prev = 48\<rparr>, 32 \<mapsto> \<lparr>kn_next = 48, kn_prev = 16\<rparr>,
     48 \<mapsto> \<lparr>kn_next = 16, kn_prev = 32\<rparr>) :: node_heap"
  have "circ ?h 16 ([] @ 32 # [48])" by (simp add: circ_def heap_access)
  from this klist_remove_idempotent [OF this] show ?thesis by auto
qed

end
