(* ===== verification/Kspinlock.thy ===== *)
theory Kspinlock imports Prelude "HOL-Library.Multiset" begin

unbundle bit_operations_syntax

text \<open>
  The spinlock and the atomic counters of freestanding/kspinlock.c and kspinlock.h.  A lock is a
  32-bit cell; \<open>__atomic_test_and_set\<close> and \<open>__atomic_clear\<close> act on its low byte (the compiler's
  documented behaviour on the little-endian targets the code is built for), so both are written
  out on the whole word.  Any number of cores run the lock protocol in \<open>smp_step\<close>.
\<close>

section \<open>The lock operations\<close>

definition test_and_set :: "u32 \<Rightarrow> bool \<times> u32" where
  "test_and_set l = (l AND 0xFF \<noteq> 0, (l AND 0xFFFFFF00) OR 1)"

definition atomic_clear :: "u32 \<Rightarrow> u32" where
  "atomic_clear l = l AND 0xFFFFFF00"

definition kspinlock_init :: "u32 cptr \<Rightarrow> u32 cptr" where
  "kspinlock_init lock = (case lock of NULL \<Rightarrow> NULL | Ptr _ \<Rightarrow> Ptr 0)"

definition kspinlock_trylock :: "u32 cptr \<Rightarrow> int \<times> u32 cptr" where
  "kspinlock_trylock lock =
     (case lock of
        NULL \<Rightarrow> (0, NULL)
      | Ptr l \<Rightarrow> (let (was_set, l') = test_and_set l in (if was_set then 0 else 1, Ptr l')))"

definition kspinlock_unlock :: "u32 cptr \<Rightarrow> u32 cptr" where
  "kspinlock_unlock lock = (case lock of NULL \<Rightarrow> NULL | Ptr l \<Rightarrow> Ptr (atomic_clear l))"

text \<open>
  \<open>kspinlock_lock\<close> repeats the test-and-set until it finds the byte clear.  The lock cell is
  volatile: before the \<open>n\<close>-th attempt the other cores turn its value \<open>l\<close> into \<open>env n l\<close>.  A spin
  that never ends is \<^const>\<open>None\<close>.
\<close>

partial_function (option) spin :: "(nat \<Rightarrow> u32 \<Rightarrow> u32) \<Rightarrow> nat \<Rightarrow> u32 \<Rightarrow> u32 option" where
  "spin env n l =
     (case test_and_set (env n l) of (was_set, l') \<Rightarrow>
        if was_set then spin env (n + 1) l' else Some l')"

definition kspinlock_lock :: "(nat \<Rightarrow> u32 \<Rightarrow> u32) \<Rightarrow> u32 cptr \<Rightarrow> u32 cptr option" where
  "kspinlock_lock env lock =
     (case lock of NULL \<Rightarrow> Some NULL | Ptr l \<Rightarrow> map_option Ptr (spin env 0 l))"

definition katomic_add :: "u32 \<Rightarrow> u32 \<Rightarrow> u32 \<times> u32" where
  "katomic_add cell val = (cell, cell + val)"

definition katomic_sub :: "u32 \<Rightarrow> u32 \<Rightarrow> u32 \<times> u32" where
  "katomic_sub cell val = (cell, cell - val)"

definition locked :: "u32 \<Rightarrow> bool" where
  "locked l \<longleftrightarrow> l AND 0xFF \<noteq> 0"

lemma test_and_set_eq: "test_and_set l = (locked l, (l AND 0xFFFFFF00) OR 1)"
  by (simp add: test_and_set_def locked_def)

lemma locked_set [simp]: "locked ((l AND 0xFFFFFF00) OR 1)"
proof -
  have "((l AND 0xFFFFFF00) OR 1) AND 0xFF = (1 :: u32)"
    by (simp add: and.assoc bit.conj_disj_distrib2)
  then show ?thesis by (simp add: locked_def)
qed

lemma locked_clear [simp]: "\<not> locked (atomic_clear l)"
  by (simp add: locked_def atomic_clear_def and.assoc)

lemma locked_0 [simp]: "\<not> locked 0"
  by (simp add: locked_def)

section \<open>Spinning\<close>

lemma spin_eq:
  "spin env n l = (if locked (env n l) then spin env (n + 1) ((env n l AND 0xFFFFFF00) OR 1)
     else Some ((env n l AND 0xFFFFFF00) OR 1))"
  by (subst spin.simps) (simp add: test_and_set_eq)

lemma spin_returns_locked: "spin env n l = Some l' \<Longrightarrow> locked l'"
proof (erule spin.raw_induct [rotated])
  fix f env n l l'
  assume IH: "\<And>env n l l'. f env n l = Some l' \<Longrightarrow> locked l'"
    and eq: "(case test_and_set (env n l) of (was_set, l') \<Rightarrow>
      if was_set then f env (n + 1) l' else Some l') = Some l'"
  then show "locked l'" by (auto simp: test_and_set_eq split: if_splits)
qed

lemma spin_terminates:
  assumes "\<And>l. \<not> locked (env (n + d) l)"
  shows "\<exists>l'. spin env n l = Some l'"
  using assms
proof (induction d arbitrary: n l)
  case 0
  then show ?case by (subst spin_eq) simp
next
  case (Suc d)
  have "\<exists>l'. spin env (n + 1) m = Some l'" for m
    by (rule Suc.IH) (use Suc.prems in simp)
  then show ?case by (subst spin_eq) auto
qed

lemma spin_forever:
  assumes held: "\<And>n l. locked l \<Longrightarrow> locked (env n l)"
  shows "locked l \<Longrightarrow> spin env n l = None"
proof (rule ccontr)
  assume l: "locked l" and "spin env n l \<noteq> None"
  then obtain l' where ret: "spin env n l = Some l'" by auto
  have "env = e \<longrightarrow> locked l \<longrightarrow> False" if "spin e n l = Some l'" for e
    using that
  proof (rule spin.raw_induct [where P = "\<lambda>e n l l'. env = e \<longrightarrow> locked l \<longrightarrow> False", rotated])
    fix f e n l l'
    assume IH: "\<And>e n l l'. f e n l = Some l' \<Longrightarrow> env = e \<longrightarrow> locked l \<longrightarrow> False"
      and eq: "(case test_and_set (e n l) of (was_set, l') \<Rightarrow>
        if was_set then f e (n + 1) l' else Some l') = Some l'"
    show "env = e \<longrightarrow> locked l \<longrightarrow> False"
      using IH [of e "n + 1" "(e n l AND 0xFFFFFF00) OR 1"] eq held
      by (auto simp: test_and_set_eq split: if_splits)
  qed
  with ret l show False by blast
qed

section \<open>Many cores and one lock\<close>

datatype core_pc = Outside | Spinning | Inside

record smp =
  smp_lock :: u32
  smp_pc :: "nat \<Rightarrow> core_pc"

definition smp_init :: smp where
  "smp_init = \<lparr>smp_lock = 0, smp_pc = (\<lambda>_. Outside)\<rparr>"

text \<open>
  A core calls \<open>kspinlock_lock\<close> (and then makes attempts, one atomic access each), calls
  \<open>kspinlock_trylock\<close> and enters when it returns 1, or leaves through \<open>kspinlock_unlock\<close>.
\<close>

inductive smp_step :: "smp \<Rightarrow> smp \<Rightarrow> bool" where
  call_lock: "smp_pc s i = Outside \<Longrightarrow> smp_step s (s\<lparr>smp_pc := (smp_pc s)(i := Spinning)\<rparr>)"
| attempt: "smp_pc s i = Spinning \<Longrightarrow> test_and_set (smp_lock s) = (was_set, l') \<Longrightarrow>
     smp_step s (s\<lparr>smp_lock := l', smp_pc := (smp_pc s)(i := if was_set then Spinning else Inside)\<rparr>)"
| trylock: "smp_pc s i = Outside \<Longrightarrow> kspinlock_trylock (Ptr (smp_lock s)) = (r, Ptr l') \<Longrightarrow>
     smp_step s (s\<lparr>smp_lock := l', smp_pc := (smp_pc s)(i := if r = 0 then Outside else Inside)\<rparr>)"
| unlock: "smp_pc s i = Inside \<Longrightarrow> kspinlock_unlock (Ptr (smp_lock s)) = Ptr l' \<Longrightarrow>
     smp_step s (s\<lparr>smp_lock := l', smp_pc := (smp_pc s)(i := Outside)\<rparr>)"

inductive smp_reachable :: "smp \<Rightarrow> bool" where
  start: "smp_reachable smp_init"
| step: "smp_reachable s \<Longrightarrow> smp_step s t \<Longrightarrow> smp_reachable t"

text \<open>The lock byte is set exactly while some core is inside, and then only one is.\<close>

definition lock_inv :: "smp \<Rightarrow> bool" where
  "lock_inv s \<longleftrightarrow> (locked (smp_lock s) \<longleftrightarrow> (\<exists>i. smp_pc s i = Inside)) \<and>
     (\<forall>i j. smp_pc s i = Inside \<longrightarrow> smp_pc s j = Inside \<longrightarrow> i = j)"

lemma lock_inv_move:
  assumes "lock_inv s" "smp_pc s i \<noteq> Inside" "p \<noteq> Inside" "locked l \<longleftrightarrow> locked (smp_lock s)"
  shows "lock_inv (s\<lparr>smp_lock := l, smp_pc := (smp_pc s)(i := p)\<rparr>)"
proof -
  have "(\<exists>j. ((smp_pc s)(i := p)) j = Inside) \<longleftrightarrow> (\<exists>j. smp_pc s j = Inside)"
    using assms(2,3) by (metis fun_upd_apply)
  then show ?thesis using assms by (auto simp: lock_inv_def)
qed

lemma lock_inv_enter:
  assumes "lock_inv s" "\<not> locked (smp_lock s)" "locked l"
  shows "lock_inv (s\<lparr>smp_lock := l, smp_pc := (smp_pc s)(i := Inside)\<rparr>)"
  using assms by (auto simp: lock_inv_def)

lemma lock_inv_step: "smp_step s t \<Longrightarrow> lock_inv s \<Longrightarrow> lock_inv t"
proof (induction rule: smp_step.induct)
  case (call_lock s i)
  then show ?case using lock_inv_move [of s i Spinning "smp_lock s"] by simp
next
  case (attempt s i was_set l')
  then show ?case
    using lock_inv_move [of s i Spinning l'] lock_inv_enter [of s l' i]
    by (cases "locked (smp_lock s)") (auto simp: test_and_set_eq)
next
  case (trylock s i r l')
  then show ?case
    using lock_inv_move [of s i Outside l'] lock_inv_enter [of s l' i]
    by (cases "locked (smp_lock s)") (auto simp: kspinlock_trylock_def test_and_set_eq)
next
  case (unlock s i l')
  then have "\<And>j. smp_pc s j = Inside \<Longrightarrow> j = i" by (auto simp: lock_inv_def)
  with unlock show ?case by (auto simp: lock_inv_def kspinlock_unlock_def)
qed

lemma lock_inv_reachable: "smp_reachable s \<Longrightarrow> lock_inv s"
proof (induction rule: smp_reachable.induct)
  case start
  show ?case by (simp add: lock_inv_def smp_init_def)
next
  case (step s t)
  then show ?case by (blast intro: lock_inv_step)
qed

text \<open>Concurrent atomic updates: any order of the same additions ends in the same value.\<close>

lemma katomic_add_order:
  assumes "mset xs = mset ys"
  shows "fold (\<lambda>v c. snd (katomic_add c v)) xs c = fold (\<lambda>v c. snd (katomic_add c v)) ys c"
proof -
  have f: "fold (\<lambda>v c. snd (katomic_add c v)) zs c = c + sum_mset (mset zs)" for zs
    by (induction zs arbitrary: c) (simp_all add: katomic_add_def add_ac)
  show ?thesis by (simp add: f assms)
qed

section \<open>Properties\<close>

text \<open>
  C7: With any number of cores locking, trying and unlocking in any interleaving from an
  initialised lock, two cores are never inside the critical section together, and the lock byte
  is set exactly while some core is inside.
\<close>

theorem kspinlock_mutual_exclusion:
  assumes "smp_reachable s"
  shows "(locked (smp_lock s) \<longleftrightarrow> (\<exists>i. smp_pc s i = Inside)) \<and>
    (\<forall>i j. smp_pc s i = Inside \<longrightarrow> smp_pc s j = Inside \<longrightarrow> i = j)"
  using lock_inv_reachable [OF assms] by (simp add: lock_inv_def)

theorem kspinlock_mutual_exclusion_witness:
  "\<exists>s. smp_reachable s \<and> smp_pc s 3 = Inside \<and> smp_pc s 5 = Spinning \<and> locked (smp_lock s)"
proof -
  let ?a = "smp_init\<lparr>smp_pc := (smp_pc smp_init)(5 := Spinning)\<rparr>"
  let ?b = "?a\<lparr>smp_lock := 1, smp_pc := (smp_pc ?a)(3 := Inside)\<rparr>"
  have "smp_reachable ?a"
    by (intro smp_reachable.step [OF smp_reachable.start] smp_step.call_lock) (simp add: smp_init_def)
  moreover have "smp_step ?a ?b"
    using smp_step.trylock [of ?a 3 1 1] by (simp add: kspinlock_trylock_def test_and_set_def smp_init_def)
  ultimately have r: "smp_reachable ?b" by (rule smp_reachable.step)
  have "smp_pc ?b 3 = Inside \<and> smp_pc ?b 5 = Spinning" by (simp add: smp_init_def)
  with r kspinlock_mutual_exclusion [OF r] show ?thesis by blast
qed

text \<open>
  C9: \<open>kspinlock_lock\<close> returns, with the lock held, as soon as the other cores release the lock
  once, whatever they do before; if the lock is held and nobody releases it (a core that locks
  twice, for one), it never returns.
\<close>

theorem kspinlock_lock_waits_for_release:
  "((\<exists>n. \<forall>l. \<not> locked (env n l)) \<longrightarrow> (\<exists>l'. kspinlock_lock env (Ptr l) = Some (Ptr l') \<and> locked l')) \<and>
   ((\<forall>n l. locked l \<longrightarrow> locked (env n l)) \<and> locked l \<longrightarrow> kspinlock_lock env (Ptr l) = None)"
proof (intro conjI impI)
  assume "\<exists>n. \<forall>l. \<not> locked (env n l)"
  then obtain d where "\<And>l. \<not> locked (env (0 + d) l)" by auto
  from spin_terminates [of env 0 d l, OF this] obtain l' where "spin env 0 l = Some l'" by blast
  then show "\<exists>l'. kspinlock_lock env (Ptr l) = Some (Ptr l') \<and> locked l'"
    using spin_returns_locked by (auto simp: kspinlock_lock_def)
next
  assume "(\<forall>n l. locked l \<longrightarrow> locked (env n l)) \<and> locked l"
  then show "kspinlock_lock env (Ptr l) = None"
    using spin_forever [of env l 0] by (auto simp: kspinlock_lock_def)
qed

theorem kspinlock_lock_waits_for_release_witness:
  "(\<exists>l'. kspinlock_lock (\<lambda>n l. if n < 2 then l else 0) (Ptr 1) = Some (Ptr l') \<and> locked l') \<and>
   kspinlock_lock (\<lambda>n l. l) (Ptr 1) = None"
proof -
  have l1: "locked 1" by (simp add: locked_def)
  have "\<exists>n. \<forall>l. \<not> locked (if n < (2::nat) then l else 0)" by (rule exI [of _ 2]) simp
  then show ?thesis
    using kspinlock_lock_waits_for_release [of "\<lambda>n l. if n < 2 then l else 0" 1]
      kspinlock_lock_waits_for_release [of "\<lambda>n l. l" 1] l1 by blast
qed

end
