(* ===== verification/Kdiv64.thy ===== *)
theory Kdiv64 imports Prelude begin

text \<open>
  The 64-bit division routines of freestanding/kdiv64.c that the 32-bit kernel links in place of
  the compiler's: the restoring shift-and-subtract loop on 64-bit words, and the four entry
  points \<open>__divdi3\<close>, \<open>__moddi3\<close>, \<open>__udivdi3\<close>, \<open>__umoddi3\<close>.  A C \<open>int64_t\<close> is an \<^typ>\<open>int\<close> in
  range; negating the most negative one has no value.
\<close>

section \<open>The routines\<close>

text \<open>The loop, counting down from bit \<open>n - 1\<close> to bit 0.\<close>

fun udiv_loop :: "u64 \<Rightarrow> u64 \<Rightarrow> nat \<Rightarrow> u64 \<Rightarrow> u64 \<Rightarrow> u64 \<times> u64" where
  "udiv_loop num den 0 quot rem = (quot, rem)"
| "udiv_loop num den (Suc i) quot rem =
     (let rem1 = push_bit 1 rem OR (drop_bit i num AND 1) in
      if rem1 \<ge> den then udiv_loop num den i (quot OR push_bit i 1) (rem1 - den)
      else udiv_loop num den i quot rem1)"

definition udivmoddi4 :: "u64 \<Rightarrow> u64 \<Rightarrow> u64 \<times> u64" where
  "udivmoddi4 num den = (if den = 0 then (0, 0) else udiv_loop num den 64 0 0)"

text \<open>\<open>(uint64_t)(-(a + 1)) + 1\<close> for a negative \<open>a\<close>, \<open>(uint64_t)a\<close> otherwise.\<close>

definition magnitude :: "int \<Rightarrow> u64" where
  "magnitude a = (if a < 0 then word_of_int (- (a + 1)) + 1 else word_of_int a)"

definition divdi3 :: "int \<Rightarrow> int \<Rightarrow> int option" where
  "divdi3 a b =
     (let neg = ((a < 0) \<noteq> (b < 0));
          res = fst (udivmoddi4 (magnitude a) (magnitude b))
      in if neg then ck64 (- sint res) else Some (sint res))"

definition moddi3 :: "int \<Rightarrow> int \<Rightarrow> int option" where
  "moddi3 a b =
     (let neg = (a < 0);
          rem = snd (udivmoddi4 (magnitude a) (magnitude b))
      in if neg then ck64 (- sint rem) else Some (sint rem))"

definition udivdi3 :: "u64 \<Rightarrow> u64 \<Rightarrow> u64" where
  "udivdi3 a b = fst (udivmoddi4 a b)"

definition umoddi3 :: "u64 \<Rightarrow> u64 \<Rightarrow> u64" where
  "umoddi3 a b = snd (udivmoddi4 a b)"

section \<open>The loop computes quotient and remainder\<close>

lemma shift_in_bit:
  fixes rem num :: u64
  assumes "2 * unat rem + 1 < 2 ^ 64"
  shows "unat (push_bit 1 rem OR (drop_bit i num AND 1)) = 2 * unat rem + unat num div 2 ^ i mod 2"
proof -
  have p: "unat (push_bit 1 rem) = 2 * unat rem"
    using assms unat_push_bit [of rem 1] by simp
  have b: "unat (drop_bit i num AND 1) = unat num div 2 ^ i mod 2"
    by (simp only: unat_and_1 unat_drop_bit)
  show ?thesis
    using unat_or_aligned [of 1 "push_bit 1 rem" "drop_bit i num AND 1"] p b by simp
qed

lemma set_quot_bit:
  fixes quot :: u64
  assumes "i < 64" "2 ^ Suc i dvd unat quot"
  shows "unat (quot OR push_bit i 1) = unat quot + 2 ^ i"
proof -
  have "(2::nat) ^ i < 2 ^ 64" using assms(1) by (intro power_strict_increasing) simp_all
  then have p: "unat (push_bit i (1 :: u64)) = 2 ^ i"
    using unat_push_bit [of "1 :: u64" i] by simp
  show ?thesis using unat_or_aligned [OF assms(2), of "push_bit i 1"] p by simp
qed

text \<open>One bit more of the dividend: the schoolbook step on naturals.\<close>

lemma div_step:
  fixes N d i :: nat
  assumes "0 < d"
  defines "r \<equiv> 2 * (N div 2 ^ Suc i mod d) + N div 2 ^ i mod 2"
  shows "N div 2 ^ i div d = 2 * (N div 2 ^ Suc i div d) + (if d \<le> r then 1 else 0)"
    and "N div 2 ^ i mod d = (if d \<le> r then r - d else r)"
proof -
  let ?M = "N div 2 ^ Suc i"
  have M: "N div 2 ^ i = 2 * ?M + N div 2 ^ i mod 2"
    by (metis div_mult2_eq mult_div_mod_eq power_Suc2)
  have "2 * ?M = 2 * (?M div d) * d + 2 * (?M mod d)"
    by (metis div_mult_mod_eq distrib_left mult.assoc)
  with M have N: "N div 2 ^ i = 2 * (?M div d) * d + r" by (simp add: r_def)
  have "?M mod d < d" using assms(1) by simp
  then have r: "r < 2 * d" unfolding r_def by simp
  show "N div 2 ^ i div d = 2 * (?M div d) + (if d \<le> r then 1 else 0)"
    and "N div 2 ^ i mod d = (if d \<le> r then r - d else r)"
    unfolding N using assms(1) r
    by (auto simp: div_mult_self3 le_div_geq le_mod_geq)
qed

lemma udiv_loop_correct:
  assumes "n \<le> 64" "den \<noteq> 0"
    and "unat rem = unat num div 2 ^ n mod unat den"
    and "unat quot = unat num div 2 ^ n div unat den * 2 ^ n"
  shows "unat (fst (udiv_loop num den n quot rem)) = unat num div unat den \<and>
    unat (snd (udiv_loop num den n quot rem)) = unat num mod unat den"
  using assms
proof (induction n arbitrary: quot rem)
  case 0
  then show ?case by simp
next
  case (Suc i)
  let ?N = "unat num" and ?d = "unat den"
  let ?rem1 = "push_bit 1 rem OR (drop_bit i num AND 1)"
  have d: "0 < ?d" using Suc.prems(2) by (simp add: unat_gt_0)
  have N: "?N < 2 ^ 64" and dl: "?d < 2 ^ 64" using unsigned_less [of num] unsigned_less [of den] by simp_all
  have "2 * unat rem + 1 < 2 ^ 64"
  proof (cases "?d \<le> 2 ^ 63")
    case True
    have "unat rem < ?d" using Suc.prems(3) d by simp
    with True show ?thesis by simp
  next
    case False
    have "?N div 2 ^ Suc i \<le> ?N div 2 ^ 1" by (rule div_le_mono2) simp_all
    also have "\<dots> < 2 ^ 63" using N by simp
    finally have "?N div 2 ^ Suc i < 2 ^ 63" .
    then have "unat rem < 2 ^ 63" using Suc.prems(3) by (simp only: mod_le_divisor) (metis le_less_trans mod_less_eq_dividend)
    then show ?thesis by simp
  qed
  then have r1: "unat ?rem1 = 2 * (?N div 2 ^ Suc i mod ?d) + ?N div 2 ^ i mod 2"
    using shift_in_bit [of rem i num] Suc.prems(3) by simp
  have q: "unat (quot OR push_bit i 1) = unat quot + 2 ^ i"
    using Suc.prems(1,4) by (intro set_quot_bit) simp_all
  note step = div_step [OF d, of ?N i, folded r1]
  show ?case
  proof (cases "den \<le> ?rem1")
    case True
    then have le: "?d \<le> unat ?rem1" by (simp add: word_le_nat_alt)
    have "unat (?rem1 - den) = ?N div 2 ^ i mod ?d" using step(2) le True by (simp add: unat_sub)
    moreover have "unat (quot OR push_bit i 1) = ?N div 2 ^ i div ?d * 2 ^ i"
      using step(1) le q Suc.prems(4) by (simp add: algebra_simps)
    ultimately show ?thesis using Suc.IH [of "?rem1 - den" "quot OR push_bit i 1"] Suc.prems(1,2) True
      by (simp add: Let_def)
  next
    case False
    then have le: "\<not> ?d \<le> unat ?rem1" by (simp add: word_le_nat_alt)
    have "unat ?rem1 = ?N div 2 ^ i mod ?d" using step(2) le by simp
    moreover have "unat quot = ?N div 2 ^ i div ?d * 2 ^ i"
      using step(1) le Suc.prems(4) by simp
    ultimately show ?thesis using Suc.IH [of ?rem1 quot] Suc.prems(1,2) False by (simp add: Let_def)
  qed
qed

lemma udivmoddi4_nat:
  assumes "den \<noteq> 0"
  shows "unat (fst (udivmoddi4 num den)) = unat num div unat den"
    and "unat (snd (udivmoddi4 num den)) = unat num mod unat den"
proof -
  have "unat num < 2 ^ 64" using unsigned_less [of num] by simp
  then have "unat num div 2 ^ 64 = 0" by simp
  then show "unat (fst (udivmoddi4 num den)) = unat num div unat den"
    "unat (snd (udivmoddi4 num den)) = unat num mod unat den"
    using udiv_loop_correct [of 64 den 0 num 0] assms by (simp_all add: udivmoddi4_def)
qed

section \<open>Signed division\<close>

lemma uint_magnitude: "in_i64 a \<Longrightarrow> uint (magnitude a) = \<bar>a\<bar>"
proof -
  assume a: "in_i64 a"
  show ?thesis
  proof (cases "a < 0")
    case True
    have m: "magnitude a = word_of_int (- a)" using True by (simp add: magnitude_def)
    have "uint (word_of_int (- a) :: u64) = - a"
      using a True by (intro uint_word_of_int_in) (simp_all add: in_i64_def)
    then show ?thesis using True by (simp only: m)
  next
    case False
    then have "uint (word_of_int a :: u64) = a"
      using a by (intro uint_word_of_int_in) (simp_all add: in_i64_def)
    then show ?thesis using False by (simp only: magnitude_def if_False)
  qed
qed

lemma udivmoddi4_word:
  assumes "den \<noteq> 0"
  shows "udivmoddi4 num den = (num div den, num mod den)"
  using udivmoddi4_nat [OF assms, of num] by (simp add: prod_eq_iff word_unat_eq_iff unat_div unat_mod)

text \<open>
  The exact quotient of the magnitudes is below \<open>2 ^ 63\<close> unless it is the magnitude of the most
  negative dividend.
\<close>

lemma quotient_magnitude:
  assumes "in_i64 a" "in_i64 b" "b \<noteq> 0" "\<not> (a = - (2 ^ 63) \<and> \<bar>b\<bar> = 1)"
  shows "\<bar>a\<bar> div \<bar>b\<bar> < 2 ^ 63"
proof (cases "\<bar>b\<bar> = 1")
  case True
  with assms have "\<bar>a\<bar> < 2 ^ 63" by (auto simp: in_i64_def abs_if)
  then show ?thesis using True by simp
next
  case False
  then have "2 \<le> \<bar>b\<bar>" using assms(3) by linarith
  then have "\<bar>a\<bar> div \<bar>b\<bar> \<le> \<bar>a\<bar> div 2" by (intro zdiv_mono2) simp_all
  also have "\<dots> < 2 ^ 63" using assms(1) by (auto simp: in_i64_def abs_if)
  finally show ?thesis .
qed

lemma magnitude_0_iff: "in_i64 b \<Longrightarrow> magnitude b = 0 \<longleftrightarrow> b = 0"
  using uint_magnitude [of b] by (metis abs_eq_0 uint_0_iff)

lemma magnitudes_divided:
  assumes "in_i64 a" "in_i64 b" "b \<noteq> 0"
  shows "uint (fst (udivmoddi4 (magnitude a) (magnitude b))) = \<bar>a\<bar> div \<bar>b\<bar>"
    and "uint (snd (udivmoddi4 (magnitude a) (magnitude b))) = \<bar>a\<bar> mod \<bar>b\<bar>"
  using assms by (simp_all add: udivmoddi4_word magnitude_0_iff uint_div uint_mod uint_magnitude)

section \<open>Properties\<close>

text \<open>
  C6: The unsigned shift-and-subtract loop computes exactly the quotient and the remainder for
  every 64-bit dividend and divisor, divisors above \<open>2 ^ 63\<close> included, and yields 0 and 0 for a
  zero divisor.
\<close>

theorem udivmoddi4_correct:
  "udivmoddi4 num den = (if den = 0 then (0, 0) else (num div den, num mod den))"
  using udivmoddi4_word [of den num] by (simp add: udivmoddi4_def)

text \<open>
  \<open>__divdi3\<close> and \<open>__moddi3\<close> compute C's truncating quotient and remainder for every pair of
  64-bit operands with a non-zero divisor, except the quotient of the most negative dividend by 1
  or -1.
\<close>

theorem signed_division_correct:
  assumes "in_i64 a" "in_i64 b" "b \<noteq> 0"
  shows "(\<not> (a = - (2 ^ 63) \<and> \<bar>b\<bar> = 1) \<longrightarrow> divdi3 a b = Some (cdiv a b)) \<and>
    moddi3 a b = Some (cmod a b)"
proof (rule conjI)
  let ?q = "fst (udivmoddi4 (magnitude a) (magnitude b))" and ?r = "snd (udivmoddi4 (magnitude a) (magnitude b))"
  note qr = magnitudes_divided [OF assms]
  show "\<not> (a = - (2 ^ 63) \<and> \<bar>b\<bar> = 1) \<longrightarrow> divdi3 a b = Some (cdiv a b)"
  proof
    assume "\<not> (a = - (2 ^ 63) \<and> \<bar>b\<bar> = 1)"
    then have l: "\<bar>a\<bar> div \<bar>b\<bar> < 2 ^ 63" using quotient_magnitude assms by blast
    then have s: "sint ?q = \<bar>a\<bar> div \<bar>b\<bar>" using qr(1) by (subst sint_small) simp_all
    have "0 \<le> \<bar>a\<bar> div \<bar>b\<bar>" using assms(3) by (simp add: pos_imp_zdiv_nonneg_iff)
    with l have "in_i64 (- (\<bar>a\<bar> div \<bar>b\<bar>))" unfolding in_i64_def by linarith
    then show "divdi3 a b = Some (cdiv a b)"
      using s assms(3) by (auto simp: divdi3_def cdiv_def Let_def sgn_if)
  qed
  have "\<bar>a\<bar> mod \<bar>b\<bar> < \<bar>b\<bar>" "\<bar>b\<bar> \<le> 2 ^ 63" using assms by (auto simp: in_i64_def abs_if)
  then have l: "\<bar>a\<bar> mod \<bar>b\<bar> < 2 ^ 63" by linarith
  then have s: "sint ?r = \<bar>a\<bar> mod \<bar>b\<bar>" using qr(2) by (subst sint_small) simp_all
  have "0 \<le> \<bar>a\<bar> mod \<bar>b\<bar>" using assms(3) by simp
  with l have "in_i64 (- (\<bar>a\<bar> mod \<bar>b\<bar>))" unfolding in_i64_def by linarith
  then show "moddi3 a b = Some (cmod a b)"
    using s by (auto simp: moddi3_def cmod_def Let_def sgn_if)
qed

theorem signed_division_correct_witness:
  "divdi3 (-7) 2 = Some (-3) \<and> moddi3 (-7) 2 = Some (-1)"
  using signed_division_correct [of "-7" 2] by (simp add: in_i64_def cdiv_def cmod_def)

text \<open>
  Dividing the most negative value by 1 negates a result that has no negation: the routine
  runs into a signed overflow although the quotient is representable.
\<close>

theorem divdi3_min_by_one_overflows: "divdi3 (- (2 ^ 63)) 1 = None"
proof -
  let ?a = "- (2 ^ 63) :: int"
  have i: "in_i64 ?a" "in_i64 1" by (simp_all add: in_i64_def)
  have u: "uint (fst (udivmoddi4 (magnitude ?a) (magnitude 1))) = 2 ^ 63"
    using magnitudes_divided(1) [OF i] by simp
  have "sint (fst (udivmoddi4 (magnitude ?a) (magnitude 1))) = - (2 ^ 63)"
    by (subst sint_big) (use u in simp_all)
  then show ?thesis by (simp add: divdi3_def ck64_def in_i64_def)
qed

end
