(* ===== verification/Kstring.thy ===== *)
theory Kstring imports Prelude "HOL-Library.List_Lexorder" "HOL-Library.Sublist" begin

text \<open>
  The string and number routines of freestanding/kstring.c.  A \<open>const char *\<close> is the list of
  bytes from the pointer to the end of the object it points into, so that advancing the pointer
  drops the head and reading at the end of the object is undefined behaviour; a destination is the
  whole array, indexed.  \<open>cstr\<close> is the C string a buffer holds and \<open>terminated\<close> says that it
  holds one.  A returned pointer into a string is its offset.
\<close>

definition cstr :: "u8 list \<Rightarrow> u8 list" where
  "cstr b = takeWhile (\<lambda>c. c \<noteq> 0) b"

definition terminated :: "u8 list \<Rightarrow> bool" where
  "terminated b \<longleftrightarrow> 0 \<in> set b"

section \<open>Length, comparison, search\<close>

fun strlen_loop :: "u8 list \<Rightarrow> nat \<Rightarrow> nat option" where
  "strlen_loop [] len = None"
| "strlen_loop (c # cs) len = (if c \<noteq> 0 then strlen_loop cs (len + 1) else Some len)"

definition kstrlen :: "u8 list cptr \<Rightarrow> nat option" where
  "kstrlen str = (case str of NULL \<Rightarrow> Some 0 | Ptr s \<Rightarrow> strlen_loop s 0)"

fun strcmp_loop :: "u8 list \<Rightarrow> u8 list \<Rightarrow> int option" where
  "strcmp_loop (x # xs) (y # ys) =
     (if x \<noteq> 0 \<and> x = y then strcmp_loop xs ys else Some (uint x - uint y))"
| "strcmp_loop _ _ = None"

definition kstrcmp :: "u8 list cptr \<Rightarrow> u8 list cptr \<Rightarrow> int option" where
  "kstrcmp s1 s2 =
     (case (s1, s2) of
        (Ptr a, Ptr b) \<Rightarrow> strcmp_loop a b
      | (Ptr a, NULL) \<Rightarrow> Some 1
      | (NULL, Ptr b) \<Rightarrow> Some (-1)
      | (NULL, NULL) \<Rightarrow> Some 0)"

fun strncmp_loop :: "nat \<Rightarrow> u8 list \<Rightarrow> u8 list \<Rightarrow> int option" where
  "strncmp_loop 0 xs ys = Some 0"
| "strncmp_loop (Suc n) (x # xs) (y # ys) =
     (if x \<noteq> 0 \<and> x = y then strncmp_loop n xs ys else Some (uint x - uint y))"
| "strncmp_loop (Suc n) _ _ = None"

definition kstrncmp :: "u8 list cptr \<Rightarrow> u8 list cptr \<Rightarrow> nat \<Rightarrow> int option" where
  "kstrncmp s1 s2 n =
     (case (s1, s2) of (Ptr a, Ptr b) \<Rightarrow> if n = 0 then Some 0 else strncmp_loop n a b | _ \<Rightarrow> Some 0)"

fun strchr_loop :: "u8 list \<Rightarrow> u8 \<Rightarrow> nat \<Rightarrow> nat cptr option" where
  "strchr_loop [] c i = None"
| "strchr_loop (x # xs) c i =
     (if x \<noteq> c then (if x = 0 then Some NULL else strchr_loop xs c (i + 1)) else Some (Ptr i))"

definition kstrchr :: "u8 list cptr \<Rightarrow> int \<Rightarrow> nat cptr option" where
  "kstrchr str c = (case str of NULL \<Rightarrow> Some NULL | Ptr s \<Rightarrow> strchr_loop s (word_of_int c) 0)"

fun strstr_loop :: "u8 list \<Rightarrow> u8 list \<Rightarrow> nat \<Rightarrow> nat \<Rightarrow> nat cptr option" where
  "strstr_loop [] needle needle_len i = None"
| "strstr_loop (x # xs) needle needle_len i =
     (if x = 0 then Some NULL
      else do {
        first \<leftarrow> rd needle 0;
        if x = first then do {
          r \<leftarrow> kstrncmp (Ptr (x # xs)) (Ptr needle) needle_len;
          if r = 0 then Some (Ptr i) else strstr_loop xs needle needle_len (i + 1)
        } else strstr_loop xs needle needle_len (i + 1)
      })"

definition kstrstr :: "u8 list cptr \<Rightarrow> u8 list cptr \<Rightarrow> nat cptr option" where
  "kstrstr haystack needle =
     (case (haystack, needle) of
        (Ptr h, Ptr m) \<Rightarrow> do {
          first \<leftarrow> rd m 0;
          if first = 0 then Some (Ptr 0)
          else do { needle_len \<leftarrow> kstrlen (Ptr m); strstr_loop h m needle_len 0 }
        }
      | _ \<Rightarrow> Some NULL)"

section \<open>Copying\<close>

fun strcpy_loop :: "u8 list \<Rightarrow> nat \<Rightarrow> u8 list \<Rightarrow> u8 list option" where
  "strcpy_loop dest i [] = None"
| "strcpy_loop dest i (c # cs) =
     do { dest' \<leftarrow> wr dest i c; if c \<noteq> 0 then strcpy_loop dest' (i + 1) cs else Some dest' }"

definition kstrcpy :: "u8 list cptr \<Rightarrow> u8 list cptr \<Rightarrow> u8 list cptr option" where
  "kstrcpy dest src =
     (case (dest, src) of (Ptr d, Ptr s) \<Rightarrow> map_option Ptr (strcpy_loop d 0 s) | _ \<Rightarrow> Some dest)"

text \<open>The bounded copy loop: \<open>k\<close> is \<open>n - i\<close>, the rounds left; the index it stops at is returned.\<close>

fun copy_bounded :: "u8 list \<Rightarrow> nat \<Rightarrow> u8 list \<Rightarrow> nat \<Rightarrow> (u8 list \<times> nat) option" where
  "copy_bounded dest i src 0 = Some (dest, i)"
| "copy_bounded dest i [] (Suc k) = None"
| "copy_bounded dest i (c # cs) (Suc k) =
     (if c \<noteq> 0 then do { dest' \<leftarrow> wr dest i c; copy_bounded dest' (i + 1) cs k } else Some (dest, i))"

fun pad_zero :: "u8 list \<Rightarrow> nat \<Rightarrow> nat \<Rightarrow> u8 list option" where
  "pad_zero dest i 0 = Some dest"
| "pad_zero dest i (Suc k) = do { dest' \<leftarrow> wr dest i 0; pad_zero dest' (i + 1) k }"

definition kstrncpy :: "u8 list cptr \<Rightarrow> u8 list cptr \<Rightarrow> nat \<Rightarrow> u8 list cptr option" where
  "kstrncpy dest src n =
     (case (dest, src) of
        (Ptr d, Ptr s) \<Rightarrow>
          if n = 0 then Some dest
          else do {
            (d', i) \<leftarrow> copy_bounded d 0 s n;
            d'' \<leftarrow> pad_zero d' i (n - i);
            Some (Ptr d'')
          }
      | _ \<Rightarrow> Some dest)"

definition kstrcat :: "u8 list cptr \<Rightarrow> u8 list cptr \<Rightarrow> u8 list cptr option" where
  "kstrcat dest src =
     (case (dest, src) of
        (Ptr d, Ptr s) \<Rightarrow> do { e \<leftarrow> strlen_loop d 0; d' \<leftarrow> strcpy_loop d e s; Some (Ptr d') }
      | _ \<Rightarrow> Some dest)"

definition kstrncat :: "u8 list cptr \<Rightarrow> u8 list cptr \<Rightarrow> nat \<Rightarrow> u8 list cptr option" where
  "kstrncat dest src n =
     (case (dest, src) of
        (Ptr d, Ptr s) \<Rightarrow>
          if n = 0 then Some dest
          else do {
            e \<leftarrow> strlen_loop d 0;
            (d', i) \<leftarrow> copy_bounded d e s n;
            d'' \<leftarrow> wr d' i 0;
            Some (Ptr d'')
          }
      | _ \<Rightarrow> Some dest)"

fun memcmp_loop :: "u8 list \<Rightarrow> u8 list \<Rightarrow> nat \<Rightarrow> nat \<Rightarrow> int option" where
  "memcmp_loop p1 p2 i 0 = Some 0"
| "memcmp_loop p1 p2 i (Suc k) = do {
     x \<leftarrow> rd p1 i; y \<leftarrow> rd p2 i;
     if x \<noteq> y then Some (uint x - uint y) else memcmp_loop p1 p2 (i + 1) k
   }"

definition kmemcmp :: "u8 list \<Rightarrow> u8 list \<Rightarrow> nat \<Rightarrow> int option" where
  "kmemcmp s1 s2 n = memcmp_loop s1 s2 0 n"

text \<open>
  \<open>kmemmove\<close> works on possibly overlapping regions of one memory: \<open>d\<close> and \<open>s\<close> are offsets.
\<close>

fun move_up :: "u8 list \<Rightarrow> nat \<Rightarrow> nat \<Rightarrow> nat \<Rightarrow> nat \<Rightarrow> u8 list option" where
  "move_up mem d s i 0 = Some mem"
| "move_up mem d s i (Suc k) =
     do { x \<leftarrow> rd mem (s + i); mem' \<leftarrow> wr mem (d + i) x; move_up mem' d s (i + 1) k }"

fun move_down :: "u8 list \<Rightarrow> nat \<Rightarrow> nat \<Rightarrow> nat \<Rightarrow> u8 list option" where
  "move_down mem d s 0 = Some mem"
| "move_down mem d s (Suc i) =
     do { x \<leftarrow> rd mem (s + i); mem' \<leftarrow> wr mem (d + i) x; move_down mem' d s i }"

definition kmemmove :: "u8 list \<Rightarrow> nat \<Rightarrow> nat \<Rightarrow> nat \<Rightarrow> u8 list option" where
  "kmemmove mem d s n =
     (if d = s \<or> n = 0 then Some mem
      else if d < s then move_up mem d s 0 n
      else move_down mem d s n)"

section \<open>Numbers\<close>

definition digits_lower :: "u8 list" where
  "digits_lower = [48, 49, 50, 51, 52, 53, 54, 55, 56, 57, 97, 98, 99, 100, 101, 102]"

definition digits_upper :: "u8 list" where
  "digits_upper = [48, 49, 50, 51, 52, 53, 54, 55, 56, 57, 65, 66, 67, 68, 69, 70]"

text \<open>
  \<open>while (uval > 0) \<dots>\<close>: the digits in reverse into \<open>temp\<close>.  The callers have checked that the
  base is at least 2, which the guard repeats for termination.
\<close>

function digit_loop :: "u8 list \<Rightarrow> nat \<Rightarrow> nat \<Rightarrow> u8 list \<Rightarrow> nat \<Rightarrow> (u8 list \<times> nat) option" where
  "digit_loop digits base uval temp temp_pos =
     (if uval > 0 \<and> base \<ge> 2 then do {
        c \<leftarrow> rd digits (uval mod base);
        temp' \<leftarrow> wr temp temp_pos c;
        digit_loop digits base (uval div base) temp' (temp_pos + 1)
      } else Some (temp, temp_pos))"
  by pat_completeness auto
termination
  by (relation "measure (\<lambda>(d, b, u, t, p). u)") auto

declare digit_loop.simps [simp del]

fun emit_reversed :: "u8 list \<Rightarrow> u8 list \<Rightarrow> nat \<Rightarrow> nat \<Rightarrow> (u8 list \<times> nat) option" where
  "emit_reversed temp buf pos 0 = Some (buf, pos)"
| "emit_reversed temp buf pos (Suc i) =
     do { c \<leftarrow> rd temp i; buf' \<leftarrow> wr buf pos c; emit_reversed temp buf' (pos + 1) i }"

definition kitoa :: "int \<Rightarrow> u8 list cptr \<Rightarrow> int \<Rightarrow> bool \<Rightarrow> (nat \<times> u8 list cptr) option" where
  "kitoa val buf base uppercase =
     (let digits = (if uppercase then digits_upper else digits_lower) in
      if base < 2 \<or> base > 16 then Some (0, buf)
      else case buf of NULL \<Rightarrow> Some (0, buf) | Ptr b \<Rightarrow> do {
        let is_neg = (val < 0 \<and> base = 10);
        val' \<leftarrow> (if is_neg then ck64 (- val) else Some val);
        let uval = nat (val' mod 2 ^ 64);
        (temp, temp_pos) \<leftarrow>
          (if uval = 0 then map_option (\<lambda>t. (t, 1)) (wr (replicate 68 0) 0 48)
           else digit_loop digits (nat base) uval (replicate 68 0) 0);
        (b1, pos) \<leftarrow> (if is_neg then map_option (\<lambda>b. (b, 1)) (wr b 0 45) else Some (b, 0));
        (b2, pos') \<leftarrow> emit_reversed temp b1 pos temp_pos;
        b3 \<leftarrow> wr b2 pos' 0;
        Some (pos', Ptr b3)
      })"

fun skip_blanks :: "u8 list \<Rightarrow> u8 list option" where
  "skip_blanks [] = None"
| "skip_blanks (c # cs) = (if c = 32 \<or> c = 9 \<or> c = 10 then skip_blanks cs else Some (c # cs))"

fun atoi_loop :: "u8 list \<Rightarrow> int \<Rightarrow> int option" where
  "atoi_loop [] res = None"
| "atoi_loop (c # cs) res =
     (if 48 \<le> c \<and> c \<le> 57 then do {
        m \<leftarrow> ck64 (res * 10);
        r \<leftarrow> ck64 (m + (uint c - 48));
        atoi_loop cs r
      } else Some res)"

definition katoi :: "u8 list cptr \<Rightarrow> int option" where
  "katoi str =
     (case str of NULL \<Rightarrow> Some 0 | Ptr s0 \<Rightarrow> do {
        s \<leftarrow> skip_blanks s0;
        c \<leftarrow> rd s 0;
        let (sign, s') = (if c = 45 then (-1, tl s) else if c = 43 then (1, tl s) else (1, s));
        res \<leftarrow> atoi_loop s' 0;
        ck64 (res * sign)
      })"

definition digit_value :: "u8 \<Rightarrow> int" where
  "digit_value c =
     (if 48 \<le> c \<and> c \<le> 57 then uint c - 48
      else if 97 \<le> c \<and> c \<le> 122 then uint c - 97 + 10
      else if 65 \<le> c \<and> c \<le> 90 then uint c - 65 + 10
      else -1)"

text \<open>The accumulation, modulo \<open>2 ^ 64\<close>; the rest of the string is what \<open>endptr\<close> points to.\<close>

fun strtoul_loop :: "int \<Rightarrow> u8 list \<Rightarrow> int \<Rightarrow> (int \<times> u8 list) option" where
  "strtoul_loop base [] acc = None"
| "strtoul_loop base (c # cs) acc =
     (if c = 0 then Some (acc, c # cs)
      else let digit = digit_value c in
        if digit < 0 \<or> digit \<ge> base then Some (acc, c # cs)
        else strtoul_loop base cs ((acc * base + digit) mod 2 ^ 64))"

definition kstrtoul :: "u8 list cptr \<Rightarrow> int \<Rightarrow> (int \<times> u8 list cptr) option" where
  "kstrtoul str base =
     (case str of NULL \<Rightarrow> Some (0, NULL) | Ptr s0 \<Rightarrow> do {
        s \<leftarrow> skip_blanks s0;
        c0 \<leftarrow> rd s 0;
        (base', s') \<leftarrow>
          (if base = 0 then
             (if c0 = 48 then do {
                c1 \<leftarrow> rd s 1;
                if c1 = 120 \<or> c1 = 88 then Some (16, drop 2 s) else Some (8, tl s)
              } else Some (10, s))
           else if base = 16 \<and> c0 = 48 then do {
             c1 \<leftarrow> rd s 1;
             if c1 = 120 \<or> c1 = 88 then Some (base, drop 2 s) else Some (base, s)
           } else Some (base, s));
        (acc, rest) \<leftarrow> strtoul_loop base' s' 0;
        Some (acc, Ptr rest)
      })"

section \<open>C strings in buffers\<close>

lemma cstr_no_nul [simp]: "0 \<notin> set (cstr b)"
  by (induction b) (auto simp: cstr_def)

lemma terminatedE:
  assumes "terminated b"
  obtains r where "b = cstr b @ 0 # r"
proof -
  have "\<exists>r. b = cstr b @ 0 # r" using assms by (induction b) (auto simp: terminated_def cstr_def)
  then show ?thesis using that by blast
qed

lemma cstr_append [simp]: "0 \<notin> set xs \<Longrightarrow> cstr (xs @ 0 # r) = xs"
  by (induction xs) (auto simp: cstr_def)

lemma cstr_no_nul_eq: "0 \<notin> set b \<Longrightarrow> cstr b = b"
  by (induction b) (auto simp: cstr_def)

lemma terminated_append [simp]: "terminated (xs @ 0 # r)"
  by (simp add: terminated_def)

lemma length_cstr_terminated: "terminated b \<Longrightarrow> length (cstr b) < length b"
proof (erule terminatedE)
  fix r assume "b = cstr b @ 0 # r"
  then have "length b = length (cstr b @ 0 # r)" by (rule arg_cong)
  then show "length (cstr b) < length b" by simp
qed

lemma strlen_loop_cstr:
  "strlen_loop b n = (if terminated b then Some (n + length (cstr b)) else None)"
  by (induction b arbitrary: n) (auto simp: terminated_def cstr_def)

lemma kstrlen_cstr: "kstrlen (Ptr b) = (if terminated b then Some (length (cstr b)) else None)"
  by (simp add: kstrlen_def strlen_loop_cstr)

lemma strcmp_loop_total:
  "terminated a \<Longrightarrow> terminated b \<Longrightarrow>
   \<exists>r. strcmp_loop a b = Some r \<and> (r = 0 \<longleftrightarrow> cstr a = cstr b) \<and> (r < 0 \<longleftrightarrow> cstr a < cstr b)"
proof (induction a b rule: strcmp_loop.induct)
  case (1 x xs y ys)
  show ?case
  proof (cases "x \<noteq> 0 \<and> x = y")
    case True
    with 1 show ?thesis by (auto simp: terminated_def cstr_def)
  next
    case False
    then have e: "strcmp_loop (x # xs) (y # ys) = Some (uint x - uint y)" by auto
    have "uint x < uint y \<longleftrightarrow> x < y" by (simp add: word_less_def)
    moreover have "uint x - uint y = 0 \<longleftrightarrow> x = y" by (simp flip: word_uint_eq_iff)
    ultimately show ?thesis using False uint_ge_0 [of y] unfolding e
      by (auto simp: cstr_def word_less_def less_le)
  qed
qed (auto simp: terminated_def)

lemma kstrcmp_eq_0:
  "terminated a \<Longrightarrow> terminated b \<Longrightarrow> kstrcmp (Ptr a) (Ptr b) = Some 0 \<longleftrightarrow> cstr a = cstr b"
  using strcmp_loop_total [of a b] by (auto simp: kstrcmp_def)

text \<open>Comparing \<open>n\<close> bytes asks whether \<open>n\<close>-byte prefixes of the strings agree.\<close>

lemma strncmp_loop_total:
  "terminated a \<Longrightarrow> terminated b \<Longrightarrow>
   \<exists>r. strncmp_loop n a b = Some r \<and> (r = 0 \<longleftrightarrow> take n (cstr a) = take n (cstr b))"
proof (induction n a b rule: strncmp_loop.induct)
  case (2 n x xs y ys)
  show ?case
  proof (cases "x \<noteq> 0 \<and> x = y")
    case True
    with 2 show ?thesis by (auto simp: terminated_def cstr_def)
  next
    case False
    then have e: "strncmp_loop (Suc n) (x # xs) (y # ys) = Some (uint x - uint y)" by auto
    have "uint x - uint y = 0 \<longleftrightarrow> x = y" by (simp flip: word_uint_eq_iff)
    then show ?thesis using False unfolding e by (auto simp: cstr_def)
  qed
qed (auto simp: terminated_def)

lemma strchr_loop_first:
  "terminated s \<Longrightarrow> strchr_loop s c i = Some (if c = 0 \<or> c \<in> set (cstr s)
     then Ptr (i + length (takeWhile (\<lambda>x. x \<noteq> c) (cstr s))) else NULL)"
proof (induction s arbitrary: i)
  case (Cons x s)
  show ?case
  proof (cases "x = 0 \<or> x = c")
    case True
    then show ?thesis by (auto simp: cstr_def)
  next
    case False
    then show ?thesis using Cons by (auto simp: terminated_def cstr_def)
  qed
qed (simp add: terminated_def)

section \<open>Copies\<close>

text \<open>Overwriting a stretch of a list.\<close>

definition overlay :: "'a list \<Rightarrow> nat \<Rightarrow> 'a list \<Rightarrow> 'a list" where
  "overlay b i xs = take i b @ xs @ drop (i + length xs) b"

lemma overlay_Nil [simp]: "i \<le> length b \<Longrightarrow> overlay b i [] = b"
  by (simp add: overlay_def)

lemma length_overlay [simp]: "i + length xs \<le> length b \<Longrightarrow> length (overlay b i xs) = length b"
  by (simp add: overlay_def)

lemma overlay_step: "i < length b \<Longrightarrow> overlay (b[i := x]) (Suc i) xs = overlay b i (x # xs)"
  by (simp add: overlay_def take_Suc_conv_app_nth drop_update_cancel)

text \<open>Consecutive writes.\<close>

fun wr_seq :: "u8 list \<Rightarrow> nat \<Rightarrow> u8 list \<Rightarrow> u8 list option" where
  "wr_seq buf i [] = Some buf"
| "wr_seq buf i (x # xs) = do {buf \<leftarrow> wr buf i x; wr_seq buf (i + 1) xs}"

lemma wr_seq_overlay: "i + length xs \<le> length b \<Longrightarrow> wr_seq b i xs = Some (overlay b i xs)"
proof (induction xs arbitrary: b i)
  case (Cons x xs)
  then show ?case using Cons.IH [of "i + 1" "b[i := x]"] by (simp add: overlay_step)
qed simp

lemma overlay_overlay: "i + length xs \<le> length b \<Longrightarrow> overlay (overlay b i xs) (i + length xs) ys = overlay b i (xs @ ys)"
  by (cases xs) (simp_all add: overlay_def min_def ac_simps)

lemma overlay_update: "i < length b \<Longrightarrow> b[i := x] = overlay b i [x]"
  by (simp add: overlay_def upd_conv_take_nth_drop)

lemma nth_overlay:
  "i + length xs \<le> length b \<Longrightarrow> j < length b \<Longrightarrow>
   overlay b i xs ! j = (if i \<le> j \<and> j < i + length xs then xs ! (j - i) else b ! j)"
  by (auto simp: overlay_def nth_append min_def)

lemma strcpy_loop_cstr:
  "0 \<notin> set xs \<Longrightarrow> i + length xs < length d \<Longrightarrow>
   strcpy_loop d i (xs @ 0 # r) = Some (overlay d i (xs @ [0]))"
proof (induction xs arbitrary: d i)
  case Nil
  then show ?case by (simp add: overlay_update)
next
  case (Cons x xs)
  then show ?case using Cons.IH [where d = "d[i := x]" and i = "i + 1"] by (simp add: overlay_step)
qed

lemma strcpy_loop_overflow:
  "0 \<notin> set xs \<Longrightarrow> length d \<le> i + length xs \<Longrightarrow> strcpy_loop d i (xs @ 0 # r) = None"
proof (induction xs arbitrary: d i)
  case (Cons x xs)
  then show ?case by (cases "i < length d") auto
qed simp

lemma copy_bounded_cstr:
  "0 \<notin> set xs \<Longrightarrow> i + min k (length xs) \<le> length d \<Longrightarrow>
   copy_bounded d i (xs @ 0 # r) k = Some (overlay d i (take k xs), i + min k (length xs))"
proof (induction xs arbitrary: d i k)
  case Nil
  then show ?case by (cases k) simp_all
next
  case (Cons x xs)
  show ?case
  proof (cases k)
    case (Suc m)
    then show ?thesis using Cons Cons.IH [where i = "i + 1" and k = m and d = "d[i := x]"] by (simp add: overlay_step)
  qed (use Cons in simp)
qed

lemma pad_zero_overlay: "i + k \<le> length d \<Longrightarrow> pad_zero d i k = Some (overlay d i (replicate k 0))"
proof (induction k arbitrary: d i)
  case (Suc k)
  then show ?case using Suc.IH [where i = "i + 1" and d = "d[i := 0]"] by (simp add: overlay_step)
qed simp

lemma kstrncpy_spec:
  assumes "terminated s" "n \<le> length d"
  shows "kstrncpy (Ptr d) (Ptr s) n = Some (Ptr (overlay d 0 (take n (cstr s @ replicate n 0))))"
proof (cases "n = 0")
  case False
  from assms(1) obtain r where s: "s = cstr s @ 0 # r" by (rule terminatedE)
  let ?x = "cstr s"
  let ?m = "min n (length ?x)"
  have c: "copy_bounded d 0 s n = Some (overlay d 0 (take n ?x), ?m)"
    using copy_bounded_cstr [of ?x 0 n d r] assms(2) s by simp
  have "pad_zero (overlay d 0 (take n ?x)) ?m (n - ?m) =
      Some (overlay (overlay d 0 (take n ?x)) ?m (replicate (n - ?m) 0))"
    using assms(2) by (intro pad_zero_overlay) simp
  also have "overlay (overlay d 0 (take n ?x)) ?m (replicate (n - ?m) 0) =
      overlay d 0 (take n ?x @ replicate (n - ?m) 0)"
    using overlay_overlay [of 0 "take n ?x" d] assms(2) by (simp add: min.commute)
  also have "take n ?x @ replicate (n - ?m) 0 = take n (?x @ replicate n 0)"
    by (cases "length ?x \<le> n") (simp_all add: min_def)
  finally show ?thesis using c False by (simp add: kstrncpy_def)
qed (simp add: kstrncpy_def overlay_def)

lemma overlay_snoc: "i + length xs < length b \<Longrightarrow> overlay (b[i + length xs := x]) i xs = overlay b i (xs @ [x])"
  by (rule nth_equalityI) (auto simp: nth_overlay nth_append nth_list_update)

lemma move_up_overlay:
  "d < s \<Longrightarrow> s + i + k \<le> length mem \<Longrightarrow>
   move_up mem d s i k = Some (overlay mem (d + i) (take k (drop (s + i) mem)))"
proof (induction k arbitrary: mem i)
  case (Suc k)
  let ?m = "mem[d + i := mem ! (s + i)]"
  have "move_up ?m d s (i + 1) k = Some (overlay ?m (d + (i + 1)) (take k (drop (s + (i + 1)) ?m)))"
    using Suc.prems by (intro Suc.IH) simp_all
  also have "drop (s + (i + 1)) ?m = drop (s + (i + 1)) mem" using Suc.prems(1) by simp
  also have "overlay ?m (d + (i + 1)) (take k (drop (s + (i + 1)) mem)) =
      overlay mem (d + i) (mem ! (s + i) # take k (drop (s + (i + 1)) mem))"
    using Suc.prems overlay_step [of "d + i" mem "mem ! (s + i)"] by simp
  also have "mem ! (s + i) # take k (drop (s + (i + 1)) mem) = take (Suc k) (drop (s + i) mem)"
    using Suc.prems by (simp add: Cons_nth_drop_Suc [symmetric])
  finally show ?case using Suc.prems by simp
qed simp

lemma move_down_overlay:
  "s < d \<Longrightarrow> d + n \<le> length mem \<Longrightarrow> move_down mem d s n = Some (overlay mem d (take n (drop s mem)))"
proof (induction n arbitrary: mem)
  case (Suc n)
  let ?m = "mem[d + n := mem ! (s + n)]"
  have "move_down ?m d s n = Some (overlay ?m d (take n (drop s ?m)))"
    using Suc.prems by (intro Suc.IH) simp_all
  also have "take n (drop s ?m) = take n (drop s mem)"
    using Suc.prems(1) by (simp add: drop_update_swap)
  also have "overlay ?m d (take n (drop s mem)) = overlay mem d (take n (drop s mem) @ [mem ! (s + n)])"
    using Suc.prems overlay_snoc [of d "take n (drop s mem)" mem "mem ! (s + n)"] by simp
  also have "take n (drop s mem) @ [mem ! (s + n)] = take (Suc n) (drop s mem)"
    using Suc.prems by (simp add: take_Suc_conv_app_nth)
  finally show ?case using Suc.prems by simp
qed simp

section \<open>Substring search\<close>

lemma strstr_loop_first:
  assumes "terminated needle" "cstr needle \<noteq> []"
  shows "terminated hay \<Longrightarrow> \<exists>r. strstr_loop hay needle (length (cstr needle)) i = Some r \<and>
    (case r of NULL \<Rightarrow> \<forall>k. \<not> prefix (cstr needle) (drop k (cstr hay))
     | Ptr j \<Rightarrow> \<exists>m. j = i + m \<and> prefix (cstr needle) (drop m (cstr hay)) \<and>
         (\<forall>k<m. \<not> prefix (cstr needle) (drop k (cstr hay))))"
proof (induction hay arbitrary: i)
  case Nil
  then show ?case by (simp add: terminated_def)
next
  case (Cons x hay)
  let ?m = "cstr needle" and ?n = "length (cstr needle)"
  have first: "rd needle 0 = Some (hd ?m)" using assms by (cases needle) (auto simp: cstr_def)
  show ?case
  proof (cases "x = 0")
    case True
    then show ?thesis using assms(2) by (auto simp: cstr_def)
  next
    case False
    then have c: "cstr (x # hay) = x # cstr hay" and t: "terminated hay"
      using Cons.prems by (auto simp: cstr_def terminated_def)
    obtain r where r: "strncmp_loop ?n (x # hay) needle = Some r"
      "r = 0 \<longleftrightarrow> take ?n (cstr (x # hay)) = take ?n ?m"
      using strncmp_loop_total [OF Cons.prems assms(1)] by blast
    have r0: "r = 0 \<longleftrightarrow> prefix ?m (cstr (x # hay))"
      unfolding r(2) by (metis prefix_length_le append_eq_conv_conj order_refl prefix_def take_all take_is_prefix)
    have hd: "prefix ?m (cstr (x # hay)) \<Longrightarrow> x = hd ?m" using assms(2) c by (cases ?m) auto
    show ?thesis
    proof (cases "prefix ?m (cstr (x # hay))")
      case True
      then show ?thesis using False first r(1) r0 hd assms(2)
        by (auto simp: kstrncmp_def intro!: exI [of _ "0::nat"])
    next
      case no: False
      have step: "strstr_loop (x # hay) needle ?n i = strstr_loop hay needle ?n (i + 1)"
        using False first r(1) r0 no assms(2) by (auto simp: kstrncmp_def)
      from Cons.IH [OF t, of "i + 1"] obtain q where q: "strstr_loop hay needle ?n (i + 1) = Some q"
        "case q of NULL \<Rightarrow> \<forall>k. \<not> prefix ?m (drop k (cstr hay))
         | Ptr j \<Rightarrow> \<exists>m. j = i + 1 + m \<and> prefix ?m (drop m (cstr hay)) \<and> (\<forall>k<m. \<not> prefix ?m (drop k (cstr hay)))"
        by blast
      have shift: "\<not> prefix ?m (drop k (cstr (x # hay)))" if "k = 0 \<or> \<not> prefix ?m (drop (k - 1) (cstr hay))" for k
        using that no c by (cases k) auto
      show ?thesis
      proof (cases q)
        case NULL
        then show ?thesis using q step shift by simp
      next
        case (Ptr j)
        with q(2) obtain m where m: "j = i + Suc m" "prefix ?m (drop m (cstr hay))"
          "\<forall>k<m. \<not> prefix ?m (drop k (cstr hay))" by auto
        have "\<forall>k<Suc m. \<not> prefix ?m (drop k (cstr (x # hay)))"
          using shift m(3) by (metis less_Suc_eq_0_disj diff_Suc_1)
        moreover have "prefix ?m (drop (Suc m) (cstr (x # hay)))" using m(2) c by simp
        ultimately show ?thesis using q(1) step m(1) Ptr by auto
      qed
    qed
  qed
qed

section \<open>Digits\<close>

text \<open>The digits of a number, least significant first.\<close>

function ndigits :: "nat \<Rightarrow> nat \<Rightarrow> nat list" where
  "ndigits base u = (if u > 0 \<and> base \<ge> 2 then (u mod base) # ndigits base (u div base) else [])"
  by pat_completeness auto
termination
  by (relation "measure (\<lambda>(b, u). u)") auto

declare ndigits.simps [simp del]

lemma ndigits_0 [simp]: "ndigits base 0 = []"
  by (simp add: ndigits.simps)

lemma ndigits_rec: "u > 0 \<Longrightarrow> base \<ge> 2 \<Longrightarrow> ndigits base u = (u mod base) # ndigits base (u div base)"
  by (subst ndigits.simps) simp

lemma ndigits_less: "d \<in> set (ndigits base u) \<Longrightarrow> d < base"
proof (induction base u rule: ndigits.induct)
  case (1 base u)
  then show ?case by (cases "u > 0 \<and> base \<ge> 2") (auto simp: ndigits.simps [of base u])
qed

lemma length_ndigits: "u < 2 ^ k \<Longrightarrow> length (ndigits base u) \<le> k"
proof (induction k arbitrary: u)
  case (Suc k)
  show ?case
  proof (cases "u > 0 \<and> base \<ge> 2")
    case True
    then have "u div base \<le> u div 2" by (intro div_le_mono2) simp_all
    also have "\<dots> < 2 ^ k" using Suc.prems by simp
    finally show ?thesis using Suc.IH True by (simp add: ndigits_rec)
  next
    case False
    then show ?thesis by (subst ndigits.simps) (simp only: if_False list.size)
  qed
qed simp

lemma ndigits_last: "u > 0 \<Longrightarrow> base \<ge> 2 \<Longrightarrow> last (ndigits base u) \<noteq> 0"
proof (induction base u rule: ndigits.induct)
  case (1 base u)
  note rec = ndigits_rec [OF "1.prems"]
  show ?case
  proof (cases "u < base")
    case True
    then show ?thesis using "1.prems" unfolding rec by simp
  next
    case False
    then have p: "u div base > 0" using "1.prems" by (simp add: div_greater_zero_iff)
    have ne: "ndigits base (u div base) \<noteq> []" using ndigits_rec [OF p "1.prems"(2)] by simp
    have "last (ndigits base (u div base)) \<noteq> 0"
      by (rule "1.IH" [OF conjI [OF "1.prems"] p "1.prems"(2)])
    with ne show ?thesis unfolding rec by simp
  qed
qed

definition horner :: "nat \<Rightarrow> nat \<Rightarrow> nat list \<Rightarrow> nat" where
  "horner base a ds = foldl (\<lambda>a d. a * base + d) a ds"

lemma horner_Nil [simp]: "horner base a [] = a"
  by (simp add: horner_def)

lemma horner_Cons [simp]: "horner base a (d # ds) = horner base (a * base + d) ds"
  by (simp add: horner_def)

lemma horner_snoc: "horner base a (ds @ [d]) = horner base a ds * base + d"
  by (simp add: horner_def)

lemma horner_ndigits: "base \<ge> 2 \<Longrightarrow> horner base 0 (rev (ndigits base u)) = u"
proof (induction base u rule: ndigits.induct)
  case (1 base u)
  then show ?case
    by (cases "u > 0") (simp_all add: ndigits_rec horner_snoc div_mult_mod_eq)
qed

lemma horner_ge: "base \<ge> 1 \<Longrightarrow> a \<le> horner base a ds"
proof (induction ds arbitrary: a)
  case (Cons d ds)
  have "a \<le> a * base + d" using Cons.prems by (simp add: trans_le_add1)
  also have "\<dots> \<le> horner base (a * base + d) ds" by (rule Cons.IH [OF Cons.prems])
  finally show ?case by simp
qed simp

definition digit_char :: "bool \<Rightarrow> nat \<Rightarrow> u8" where
  "digit_char uppercase d = (if uppercase then digits_upper else digits_lower) ! d"

lemma digit_cases:
  "(d::nat) < 16 \<Longrightarrow> d = 0 \<or> d = 1 \<or> d = 2 \<or> d = 3 \<or> d = 4 \<or> d = 5 \<or> d = 6 \<or> d = 7 \<or>
    d = 8 \<or> d = 9 \<or> d = 10 \<or> d = 11 \<or> d = 12 \<or> d = 13 \<or> d = 14 \<or> d = 15"
  by arith

lemma digit_value_char: "d < 16 \<Longrightarrow> digit_value (digit_char up d) = int d"
  by (cases up; drule digit_cases; elim disjE;
      simp add: digit_char_def digits_upper_def digits_lower_def digit_value_def)

lemma digit_char_nonzero: "d < 16 \<Longrightarrow> digit_char up d \<noteq> 0 \<and> digit_char up d \<notin> {32, 9, 10, 45, 43}"
  by (cases up; drule digit_cases; elim disjE;
      simp add: digit_char_def digits_upper_def digits_lower_def)

lemma digit_char_48: "d < 16 \<Longrightarrow> digit_char up d = 48 \<Longrightarrow> d = 0"
  by (cases up; drule digit_cases; elim disjE;
      simp add: digit_char_def digits_upper_def digits_lower_def)

lemma digit_char_dec:
  assumes "d < 10"
  shows "48 \<le> digit_char up d" "digit_char up d \<le> 57" "uint (digit_char up d) = 48 + int d"
proof -
  have "d = 0 \<or> d = 1 \<or> d = 2 \<or> d = 3 \<or> d = 4 \<or> d = 5 \<or> d = 6 \<or> d = 7 \<or> d = 8 \<or> d = 9"
    using assms by arith
  then show "48 \<le> digit_char up d" "digit_char up d \<le> 57" "uint (digit_char up d) = 48 + int d"
    by (cases up; elim disjE; simp add: digit_char_def digits_upper_def digits_lower_def)+
qed

lemma rd_digits: "d < 16 \<Longrightarrow> rd (if up then digits_upper else digits_lower) d = Some (digit_char up d)"
  by (auto simp: digit_char_def digits_upper_def digits_lower_def)

section \<open>Printing\<close>

lemma digit_loop_ndigits:
  assumes "2 \<le> base" and digits: "\<And>d. d < base \<Longrightarrow> rd digits d = Some (f d)"
  shows "pos + length (ndigits base u) \<le> length temp \<Longrightarrow>
    digit_loop digits base u temp pos =
      Some (overlay temp pos (map f (ndigits base u)), pos + length (ndigits base u))"
proof (induction u arbitrary: temp pos rule: less_induct)
  case (less u)
  show ?case
  proof (cases "u = 0")
    case True
    then show ?thesis using less.prems by (simp add: digit_loop.simps)
  next
    case False
    then have nd: "ndigits base u = u mod base # ndigits base (u div base)"
      using assms(1) by (intro ndigits_rec) simp_all
    have d: "rd digits (u mod base) = Some (f (u mod base))" using assms(1) by (intro digits) simp
    have p: "pos < length temp" and l: "pos + 1 + length (ndigits base (u div base)) \<le> length temp"
      using less.prems nd by simp_all
    have "digit_loop digits base (u div base) (temp[pos := f (u mod base)]) (pos + 1) =
        Some (overlay (temp[pos := f (u mod base)]) (pos + 1) (map f (ndigits base (u div base))),
          pos + 1 + length (ndigits base (u div base)))"
      using False assms(1) l by (intro less.IH) simp_all
    then show ?thesis
      using False assms(1) d p nd by (subst digit_loop.simps) (simp add: overlay_step)
  qed
qed

lemma emit_reversed_overlay:
  "i \<le> length temp \<Longrightarrow> pos + i \<le> length buf \<Longrightarrow>
   emit_reversed temp buf pos i = Some (overlay buf pos (rev (take i temp)), pos + i)"
proof (induction i arbitrary: buf pos)
  case (Suc i)
  then show ?case
    using Suc.IH [where buf = "buf[pos := temp ! i]" and pos = "pos + 1"]
    by (simp add: overlay_step take_Suc_conv_app_nth)
qed simp

text \<open>The text of an unsigned value, and of a signed one.\<close>

definition utext :: "bool \<Rightarrow> nat \<Rightarrow> nat \<Rightarrow> u8 list" where
  "utext up base u = (if u = 0 then [48] else map (digit_char up) (rev (ndigits base u)))"

definition itext :: "bool \<Rightarrow> nat \<Rightarrow> int \<Rightarrow> u8 list" where
  "itext up base v = (if v < 0 \<and> base = 10 then 45 # utext up base (nat (- v))
     else utext up base (nat (v mod 2 ^ 64)))"

lemma length_utext: "u < 2 ^ 64 \<Longrightarrow> length (utext up base u) \<le> 64"
  using length_ndigits [of u 64 base] by (simp add: utext_def)

lemma digits_to_buffer:
  assumes "2 \<le> base" "base \<le> 16" "u < 2 ^ 64" "pos + length (utext up base u) \<le> length buf"
  shows "\<exists>temp n. (if u = 0 then map_option (\<lambda>t. (t, 1)) (wr (replicate 68 0) 0 48)
      else digit_loop (if up then digits_upper else digits_lower) base u (replicate 68 0) 0) = Some (temp, n) \<and>
    emit_reversed temp buf pos n = Some (overlay buf pos (utext up base u), pos + length (utext up base u))"
proof (cases "u = 0")
  case True
  have "overlay (replicate 68 0) 0 [48] ! 0 = (48 :: u8)" by (simp add: overlay_def)
  then show ?thesis using assms(4) True by (simp add: utext_def overlay_update)
next
  case False
  let ?ds = "ndigits base u" and ?t = "replicate 68 0 :: u8 list"
  have l: "length ?ds \<le> 64" using assms(3) by (rule length_ndigits)
  let ?temp = "overlay ?t 0 (map (digit_char up) ?ds)"
  have "digit_loop (if up then digits_upper else digits_lower) base u ?t 0 = Some (?temp, 0 + length ?ds)"
    using assms l by (intro digit_loop_ndigits rd_digits) simp_all
  moreover have "take (length ?ds) ?temp = map (digit_char up) ?ds" by (simp add: overlay_def)
  then have "emit_reversed ?temp buf pos (length ?ds) =
      Some (overlay buf pos (utext up base u), pos + length (utext up base u))"
    using assms(4) False l by (subst emit_reversed_overlay) (simp_all add: utext_def rev_map)
  ultimately show ?thesis using False by simp
qed

lemma kitoa_text:
  assumes "2 \<le> base" "base \<le> 16" "in_i64 v" "\<not> (v = - (2 ^ 63) \<and> base = 10)"
    and "length (itext up (nat base) v) < length b"
  shows "kitoa v (Ptr b) base up =
    Some (length (itext up (nat base) v), Ptr (overlay b 0 (itext up (nat base) v @ [0])))"
proof (cases "v < 0 \<and> base = 10")
  case True
  let ?u = "nat (- v)"
  have u: "- v mod 2 ^ 64 = - v" "in_i64 (- v)" "?u < 2 ^ 64" "?u \<noteq> 0"
    using True assms(3,4) by (auto simp: in_i64_def)
  have t: "itext up (nat base) v = 45 # utext up 10 ?u" using True by (simp add: itext_def)
  obtain temp n where tn: "digit_loop (if up then digits_upper else digits_lower) 10 ?u (replicate 68 0) 0 = Some (temp, n)"
    "emit_reversed temp (b[0 := 45]) 1 n = Some (overlay (b[0 := 45]) 1 (utext up 10 ?u), 1 + length (utext up 10 ?u))"
    using digits_to_buffer [of 10 ?u 1 up "b[0 := 45]"] u(3,4) assms(5) t by auto
  have ov: "overlay (b[0 := 45]) 1 (utext up 10 ?u) = overlay b 0 (45 # utext up 10 ?u)"
    using overlay_step [of 0 b 45] assms(5) t by (cases b) simp_all
  have "(overlay b 0 (45 # utext up 10 ?u))[1 + length (utext up 10 ?u) := 0] =
      overlay b 0 (45 # utext up 10 ?u @ [0])"
    using overlay_overlay [of 0 "45 # utext up 10 ?u" b "[0]"] assms(5) t by (simp add: overlay_update)
  moreover have "wr b 0 45 = Some (b[0 := 45])" using assms(5) by (intro wr_in) linarith
  ultimately show ?thesis
    using True u tn ov t assms(1,2,5) by (simp add: kitoa_def Let_def)
next
  case False
  let ?u = "nat (v mod 2 ^ 64)"
  have u: "?u < 2 ^ 64" by (simp add: nat_less_iff)
  have t: "itext up (nat base) v = utext up (nat base) ?u" using False by (auto simp: itext_def)
  obtain temp n where tn: "(if ?u = 0 then map_option (\<lambda>t. (t, 1)) (wr (replicate 68 0) 0 48)
      else digit_loop (if up then digits_upper else digits_lower) (nat base) ?u (replicate 68 0) 0) = Some (temp, n)"
    "emit_reversed temp b 0 n = Some (overlay b 0 (utext up (nat base) ?u), 0 + length (utext up (nat base) ?u))"
    using digits_to_buffer [where base = "nat base" and pos = 0 and buf = b and up = up, OF _ _ u] assms(1,2,5)
    unfolding t by force
  have "(overlay b 0 (utext up (nat base) ?u))[length (utext up (nat base) ?u) := 0] =
      overlay b 0 (utext up (nat base) ?u @ [0])"
    using overlay_overlay [of 0 "utext up (nat base) ?u" b "[0]"] assms(5) t by (simp add: overlay_update)
  moreover have "kitoa v (Ptr b) base up = (do {
      (temp, temp_pos) \<leftarrow> (if ?u = 0 then map_option (\<lambda>t. (t, 1)) (wr (replicate 68 0) 0 48)
        else digit_loop (if up then digits_upper else digits_lower) (nat base) ?u (replicate 68 0) 0);
      (b2, pos') \<leftarrow> emit_reversed temp b 0 temp_pos;
      b3 \<leftarrow> wr b2 pos' 0;
      Some (pos', Ptr b3) })"
    unfolding kitoa_def Let_def if_not_P [OF False]
    using assms(1,2) by (simp only: not_less [symmetric] simp_thms if_False cptr.case bind.bind_lunit prod.case)
  ultimately show ?thesis using assms(5) unfolding tn(1) t by (simp add: tn(2))
qed

section \<open>Parsing\<close>

lemma strtoul_loop_digits:
  assumes "2 \<le> base" "base \<le> 16" "c = 0"
  shows "\<forall>d\<in>set ds. d < base \<Longrightarrow> horner base a ds < 2 ^ 64 \<Longrightarrow>
    strtoul_loop (int base) (map (digit_char up) ds @ c # r) (int a) = Some (int (horner base a ds), c # r)"
proof (induction ds arbitrary: a)
  case Nil
  then show ?case using assms(3) by simp
next
  case (Cons d ds)
  have d: "d < 16" "d < base" using Cons.prems(1) assms(2) by auto
  have "a * base + d \<le> horner base (a * base + d) ds" using assms(1) by (intro horner_ge) simp
  then have "a * base + d < 2 ^ 64" using Cons.prems(2) by simp
  then have "(int a * int base + int d) mod 2 ^ 64 = int (a * base + d)"
    by (metis mod_less of_nat_add of_nat_mod of_nat_mult of_nat_numeral of_nat_power)
  then show ?case
    using Cons.IH [of "a * base + d"] Cons.prems d digit_char_nonzero [OF d(1)] digit_value_char [OF d(1)]
    by (simp add: Let_def)
qed

lemma atoi_loop_digits:
  assumes "c = 0"
  shows "\<forall>d\<in>set ds. d < 10 \<Longrightarrow> horner 10 a ds < 2 ^ 63 \<Longrightarrow>
    atoi_loop (map (digit_char up) ds @ c # r) (int a) = Some (int (horner 10 a ds))"
proof (induction ds arbitrary: a)
  case Nil
  then show ?case using assms by simp
next
  case (Cons d ds)
  have d: "d < 10" using Cons.prems(1) by auto
  have "a * 10 + d \<le> horner 10 (a * 10 + d) ds" by (intro horner_ge) simp
  then have l: "int (a * 10 + d) < 2 ^ 63" using Cons.prems(2) by simp
  then have "in_i64 (int a * 10)" "in_i64 (int a * 10 + int d)" by (simp_all add: in_i64_def)
  then show ?case
    using Cons.IH [of "a * 10 + d"] Cons.prems digit_char_dec [OF d, of up] by simp
qed

lemma utext_digits:
  assumes "2 \<le> base"
  obtains ds where "utext up base u = map (digit_char up) ds" "ds \<noteq> []" "\<forall>d\<in>set ds. d < base"
    "horner base 0 ds = u" "u \<noteq> 0 \<Longrightarrow> hd ds \<noteq> 0" "u = 0 \<Longrightarrow> ds = [0]"
proof (cases "u = 0")
  case True
  have "digit_char up 0 = 48" by (simp add: digit_char_def digits_upper_def digits_lower_def)
  then show ?thesis using that [of "[0]"] assms True by (simp add: utext_def)
next
  case False
  then have ne: "ndigits base u \<noteq> []" using assms ndigits_rec [of u base] by simp
  show ?thesis
    using that [of "rev (ndigits base u)"] False ne assms ndigits_less [of _ base u] horner_ndigits [OF assms, of u]
      ndigits_last [of u base] by (simp add: utext_def hd_rev)
qed

lemma kstrtoul_utext:
  assumes "2 \<le> base" "base \<le> 16" "u < 2 ^ 64"
  shows "kstrtoul (Ptr (utext up base u @ 0 # r)) (int base) = Some (int u, Ptr (0 # r))"
proof -
  obtain ds where ds: "utext up base u = map (digit_char up) ds" "ds \<noteq> []" "\<forall>d\<in>set ds. d < base"
    "horner base 0 ds = u" "u \<noteq> 0 \<Longrightarrow> hd ds \<noteq> 0" "u = 0 \<Longrightarrow> ds = [0]"
    using utext_digits [OF assms(1)] by metis
  obtain d ds' where d: "ds = d # ds'" using ds(2) by (cases ds) auto
  have d16: "d < 16" using ds(3) d assms(2) by auto
  have loop: "strtoul_loop (int base) (utext up base u @ 0 # r) 0 = Some (int u, 0 # r)"
    using strtoul_loop_digits [OF assms(1,2) refl ds(3), of 0 up r] ds(1,4) assms(3) by simp
  have skip: "skip_blanks (utext up base u @ 0 # r) = Some (utext up base u @ 0 # r)"
    using ds(1) d digit_char_nonzero [OF d16] by simp
  show ?thesis
  proof (cases "u = 0")
    case True
    then have "utext up base u = [48]" by (simp add: utext_def)
    then have "kstrtoul (Ptr (utext up base u @ 0 # r)) (int base) =
        map_option (\<lambda>(acc, rest). (acc, Ptr rest)) (strtoul_loop (int base) (utext up base u @ 0 # r) 0)"
      using assms(1) by (cases "base = 16") (simp_all add: kstrtoul_def Let_def)
    then show ?thesis by (simp add: loop)
  next
    case False
    then have "digit_char up d \<noteq> 48" using digit_char_48 [OF d16] ds(5) d by auto
    then show ?thesis using skip loop assms(1) ds(1) d by (simp add: kstrtoul_def)
  qed
qed

lemma katoi_utext:
  assumes "u < 2 ^ 63"
  shows "katoi (Ptr (utext up 10 u @ 0 # r)) = Some (int u)"
    and "katoi (Ptr (45 # utext up 10 u @ 0 # r)) = Some (- int u)"
proof -
  obtain ds where ds: "utext up 10 u = map (digit_char up) ds" "ds \<noteq> []" "\<forall>d\<in>set ds. d < 10"
    "horner 10 0 ds = u" using utext_digits [of 10 up u] by auto
  obtain d ds' where d: "ds = d # ds'" using ds(2) by (cases ds) auto
  have d16: "d < 16" using ds(3) d by auto
  have loop: "atoi_loop (utext up 10 u @ 0 # r) 0 = Some (int u)"
    using atoi_loop_digits [OF refl ds(3), of 0 up r] ds(1,4) assms by simp
  have range: "in_i64 (int u)" "in_i64 (- int u)" using assms by (simp_all add: in_i64_def)
  show "katoi (Ptr (utext up 10 u @ 0 # r)) = Some (int u)"
    using loop range ds(1) d digit_char_nonzero [OF d16, of up] by (simp add: katoi_def)
  show "katoi (Ptr (45 # utext up 10 u @ 0 # r)) = Some (- int u)"
    using loop range by (simp add: katoi_def)
qed

lemma itext_bounds:
  assumes "2 \<le> base" "base \<le> 16" "in_i64 v"
  shows "length (itext up (nat base) v) \<le> 65" "0 \<notin> set (itext up (nat base) v)"
proof -
  have no: "0 \<notin> set (utext up (nat base) u)" for u
  proof -
    have "2 \<le> nat base" using assms(1) by simp
    then obtain ds where ds: "utext up (nat base) u = map (digit_char up) ds" "\<forall>d\<in>set ds. d < nat base"
      using utext_digits [of "nat base" up u] by metis
    have "digit_char up d \<noteq> 0" if "d \<in> set ds" for d
    proof -
      have "d < 16" using ds(2) that assms(2) by auto
      then show ?thesis using digit_char_nonzero by blast
    qed
    then show ?thesis using ds(1) by (metis (no_types, lifting) imageE list.set_map)
  qed
  have "- v < 2 ^ 64" using assms(3) by (simp add: in_i64_def)
  then have "nat (- v) < 2 ^ 64" "nat (v mod 2 ^ 64) < 2 ^ 64"
    by (simp_all add: nat_less_iff zless_nat_eq_int_zless)
  then have "length (utext up (nat base) (nat (- v))) \<le> 64" "length (utext up (nat base) (nat (v mod 2 ^ 64))) \<le> 64"
    by (auto intro: length_utext)
  then show "length (itext up (nat base) v) \<le> 65" unfolding itext_def by auto
  show "0 \<notin> set (itext up (nat base) v)" using no unfolding itext_def by auto
qed

lemma katoi_itext:
  assumes "in_i64 v" "v \<noteq> - (2 ^ 63)"
  shows "katoi (Ptr (itext up 10 v @ 0 # r)) = Some v"
proof (cases "v < 0")
  case True
  then have "nat (- v) < 2 ^ 63" using assms by (auto simp: in_i64_def)
  from katoi_utext(2) [OF this, of up r] show ?thesis using True by (simp add: itext_def)
next
  case False
  then have "nat v < 2 ^ 63" "v mod 2 ^ 64 = v" using assms by (auto simp: in_i64_def)
  with katoi_utext(1) [OF this(1), of up r] show ?thesis using False by (simp add: itext_def)
qed

section \<open>Properties\<close>

text \<open>
  kstrcmp on two C strings never reads outside them, and its sign is the lexicographic order
  of the strings by unsigned byte value: negative exactly for less, 0 exactly for equal.
\<close>
theorem kstrcmp_lexicographic:
  "terminated a \<Longrightarrow> terminated b \<Longrightarrow> \<exists>r. kstrcmp (Ptr a) (Ptr b) = Some r \<and>
     (r = 0 \<longleftrightarrow> cstr a = cstr b) \<and> (r < 0 \<longleftrightarrow> cstr a < cstr b)"
  using strcmp_loop_total [of a b] by (simp add: kstrcmp_def)

theorem kstrcmp_lexicographic_witness:
  "\<exists>r. kstrcmp (Ptr [97, 98, 0]) (Ptr [97, 200, 0]) = Some r \<and>
     (r = 0 \<longleftrightarrow> cstr [97, 98, 0] = cstr [97, 200, 0]) \<and> (r < 0 \<longleftrightarrow> cstr [97, 98, 0] < cstr [97, 200, 0])"
  by (rule kstrcmp_lexicographic) (simp_all add: terminated_def)

text \<open>
  kstrcpy of a C string has defined behaviour exactly when the destination has room for the
  string and its terminator, and then it writes those bytes at the start of the destination and
  changes nothing else.
\<close>
theorem kstrcpy_exact:
  "terminated s \<Longrightarrow> kstrcpy (Ptr d) (Ptr s) =
     (if length (cstr s) < length d then Some (Ptr (overlay d 0 (cstr s @ [0]))) else None)"
proof -
  assume "terminated s"
  then obtain r where s: "s = cstr s @ 0 # r" by (rule terminatedE)
  have "strcpy_loop d 0 (cstr s @ 0 # r) = (if length (cstr s) < length d then Some (overlay d 0 (cstr s @ [0])) else None)"
    using strcpy_loop_cstr [of "cstr s" 0 d r] strcpy_loop_overflow [of "cstr s" d 0 r] by simp
  then show ?thesis unfolding kstrcpy_def using s by simp
qed

theorem kstrcpy_exact_witness:
  "kstrcpy (Ptr [1, 2, 3, 4]) (Ptr [97, 98, 0, 5]) = Some (Ptr [97, 98, 0, 4]) \<and>
   kstrcpy (Ptr [1, 2]) (Ptr [97, 98, 0, 5]) = None"
  using kstrcpy_exact [of "[97, 98, 0, 5]" "[1, 2, 3, 4]"] kstrcpy_exact [of "[97, 98, 0, 5]" "[1, 2]"]
  by (simp add: terminated_def cstr_def overlay_def)

text \<open>
  C11: kmemmove copies the source region as it was before the call, whatever the overlap of the
  two regions, and changes no byte outside the destination.
\<close>
theorem kmemmove_overlap_safe:
  "d + n \<le> length mem \<Longrightarrow> s + n \<le> length mem \<Longrightarrow>
   kmemmove mem d s n = Some (overlay mem d (take n (drop s mem)))"
proof -
  assume a: "d + n \<le> length mem" "s + n \<le> length mem"
  show ?thesis
  proof (cases "d = s \<or> n = 0")
    case True
    have "overlay mem s (take n (drop s mem)) = mem" using a(2)
      by (simp add: overlay_def min_def) (metis append_take_drop_id add.commute drop_drop)
    then show ?thesis using True a(1) by (auto simp: kmemmove_def)
  next
    case False
    then show ?thesis
      using a move_up_overlay [of d s 0 n mem] move_down_overlay [of s d n mem] by (auto simp: kmemmove_def)
  qed
qed

theorem kmemmove_overlap_safe_witness:
  "kmemmove [1, 2, 3, 4, 5] 1 0 4 = Some [1, 1, 2, 3, 4] \<and> kmemmove [1, 2, 3, 4, 5] 0 1 4 = Some [2, 3, 4, 5, 5]"
  using kmemmove_overlap_safe [of 1 4 "[1, 2, 3, 4, 5]" 0] kmemmove_overlap_safe [of 0 4 "[1, 2, 3, 4, 5]" 1]
  by (simp add: overlay_def)

text \<open>
  kstrstr on two C strings never reads outside them and returns the first offset at which the
  needle occurs in the haystack, or NULL exactly when it occurs nowhere.
\<close>
theorem kstrstr_first_occurrence:
  "terminated h \<Longrightarrow> terminated m \<Longrightarrow> \<exists>r. kstrstr (Ptr h) (Ptr m) = Some r \<and>
     (case r of NULL \<Rightarrow> \<forall>k. \<not> prefix (cstr m) (drop k (cstr h))
      | Ptr j \<Rightarrow> prefix (cstr m) (drop j (cstr h)) \<and> (\<forall>k<j. \<not> prefix (cstr m) (drop k (cstr h))))"
proof -
  assume t: "terminated h" "terminated m"
  obtain c cs where m: "m = c # cs" using t(2) by (cases m) (auto simp: terminated_def)
  show ?thesis
  proof (cases "c = 0")
    case True
    then show ?thesis using m by (simp add: kstrstr_def cstr_def)
  next
    case False
    then have "cstr m \<noteq> []" using m by (simp add: cstr_def)
    moreover have "kstrstr (Ptr h) (Ptr m) = strstr_loop h m (length (cstr m)) 0"
      using False m t(2) by (simp add: kstrstr_def kstrlen_cstr)
    ultimately show ?thesis using strstr_loop_first [OF t(2) _ t(1), of 0]
      by (elim exE conjE meta_impE) (auto split: cptr.splits)
  qed
qed

theorem kstrstr_first_occurrence_witness:
  "\<exists>r. kstrstr (Ptr [97, 97, 98, 0]) (Ptr [97, 98, 0]) = Some r \<and>
     (case r of NULL \<Rightarrow> \<forall>k. \<not> prefix (cstr [97, 98, 0]) (drop k (cstr [97, 97, 98, 0]))
      | Ptr j \<Rightarrow> prefix (cstr [97, 98, 0]) (drop j (cstr [97, 97, 98, 0])) \<and>
          (\<forall>k<j. \<not> prefix (cstr [97, 98, 0]) (drop k (cstr [97, 97, 98, 0]))))"
  by (rule kstrstr_first_occurrence) (simp_all add: terminated_def)

text \<open>
  C10: kitoa writes a terminated text of a signed 64-bit value in any base from 2 to 16, in either
  letter case, into any buffer of at least 66 bytes, and returns its length; only the least value in
  base 10 is undefined behaviour.  In base 10 katoi parses the text back to the value.  kstrtoul, which
  knows no sign, parses it to the value modulo \<open>2 ^ 64\<close>, that is to the value itself unless it is negative;
  the text of a negative value in base 10 it does not parse at all: it returns 0 and the start of the text.
\<close>
theorem kitoa_parse_roundtrip:
  assumes "2 \<le> base" "base \<le> 16" "in_i64 v" "66 \<le> length b"
  shows "if v = - (2 ^ 63) \<and> base = 10 then kitoa v (Ptr b) base up = None
    else \<exists>n b'. kitoa v (Ptr b) base up = Some (n, Ptr b') \<and> length b' = length b \<and>
      n = length (cstr b') \<and> terminated b' \<and>
      (if base = 10 \<and> v < 0 then kstrtoul (Ptr b') base = Some (0, Ptr b')
       else \<exists>r. kstrtoul (Ptr b') base = Some (v mod 2 ^ 64, Ptr (0 # r))) \<and>
      (base = 10 \<longrightarrow> katoi (Ptr b') = Some v)"
proof (cases "v = - (2 ^ 63) \<and> base = 10")
  case True
  then show ?thesis by (simp add: kitoa_def ck64_def in_i64_def)
next
  case False
  let ?t = "itext up (nat base) v"
  have t: "length ?t \<le> 65" "0 \<notin> set ?t" using itext_bounds assms(1-3) False by auto
  obtain b' where b': "kitoa v (Ptr b) base up = Some (length ?t, Ptr b')" "b' = overlay b 0 (?t @ [0])"
    using kitoa_text [OF assms(1-3) False, of up b] t assms(4) by simp
  obtain r where r: "b' = ?t @ 0 # r" using b'(2) by (simp add: overlay_def)
  have len: "length b' = length b" using b'(2) t(1) assms(4) by simp
  have "katoi (Ptr b') = Some v" if "base = 10"
    unfolding r using katoi_itext [OF assms(3)] False that by simp
  moreover have "kstrtoul (Ptr b') base = Some (v mod 2 ^ 64, Ptr (0 # r))" if "\<not> (base = 10 \<and> v < 0)"
  proof -
    have u: "?t = utext up (nat base) (nat (v mod 2 ^ 64))" using that by (auto simp: itext_def)
    show ?thesis unfolding r u
      using kstrtoul_utext [of "nat base" "nat (v mod 2 ^ 64)" up r] assms(1,2) by (simp add: nat_less_iff)
  qed
  moreover have "kstrtoul (Ptr b') base = Some (0, Ptr b')" if "base = 10 \<and> v < 0"
    unfolding r using that by (simp add: itext_def kstrtoul_def digit_value_def)
  ultimately show ?thesis using b'(1) len t(2) r False by (intro if_not_P [THEN iffD2]) auto
qed

theorem kitoa_parse_roundtrip_witness:
  "(\<exists>n b'. kitoa (- 42) (Ptr (replicate 66 7)) 10 False = Some (n, Ptr b') \<and> terminated b' \<and>
     kstrtoul (Ptr b') 10 = Some (0, Ptr b') \<and> katoi (Ptr b') = Some (- 42)) \<and>
   (\<exists>n b' r. kitoa 2026 (Ptr (replicate 66 7)) 10 False = Some (n, Ptr b') \<and> terminated b' \<and>
     kstrtoul (Ptr b') 10 = Some (2026, Ptr (0 # r)) \<and> katoi (Ptr b') = Some 2026) \<and>
   (\<exists>n b' r. kitoa (- 1) (Ptr (replicate 66 7)) 16 True = Some (n, Ptr b') \<and> terminated b' \<and>
     kstrtoul (Ptr b') 16 = Some (0xFFFFFFFFFFFFFFFF, Ptr (0 # r)))"
  using kitoa_parse_roundtrip [of 10 "- 42" "replicate 66 7" False]
    kitoa_parse_roundtrip [of 10 2026 "replicate 66 7" False]
    kitoa_parse_roundtrip [of 16 "- 1" "replicate 66 7" True]
  by (simp add: in_i64_def) blast

text \<open>
  The least 64-bit value is outside both directions: printing it in base 10 negates it, and
  parsing its decimal text accumulates \<open>2 ^ 63\<close>, each a signed overflow.
\<close>
theorem kstring_int64_min_overflows:
  "kitoa (- (2 ^ 63)) (Ptr b) 10 up = None \<and>
   katoi (Ptr [45, 57, 50, 50, 51, 51, 55, 50, 48, 51, 54, 56, 53, 52, 55, 55, 53, 56, 48, 56, 0]) = None"
  by (simp add: kitoa_def katoi_def ck64_def in_i64_def uint_word_of_int_in)

end
