(* ===== verification/Kmem.thy ===== *)
theory Kmem imports Prelude begin

unbundle bit_operations_syntax

text \<open>
  The kernel heap of freestanding/kmem.c, as built for i386: \<open>size_t\<close> and pointers are 32 bits wide,
  so that a block header (\<open>size\<close>, \<open>is_free\<close>, \<open>next\<close>, \<open>prev\<close>) is four 32-bit words and
  BLOCK_HEADER_SIZE is 16.  Memory is one flat byte store indexed by address: headers, the back
  pointers stored below each payload and the payloads all live in it, so that an overlap between
  them would show.  Address 0 is NULL.  \<open>size_t\<close> arithmetic is modulo \<open>2 ^ 32\<close>.  The walks along
  the \<open>next\<close> pointers are partial functions: \<^const>\<open>None\<close> is a walk that does not end.
\<close>

section \<open>Memory\<close>

type_synonym memory = "nat \<Rightarrow> u8"

definition w32 :: "nat \<Rightarrow> nat" where
  "w32 x = x mod 2 ^ 32"

definition sub32 :: "nat \<Rightarrow> nat \<Rightarrow> nat" where
  "sub32 x y = (x + 2 ^ 32 - y mod 2 ^ 32) mod 2 ^ 32"

definition ld32 :: "memory \<Rightarrow> nat \<Rightarrow> nat" where
  "ld32 m a = unat (m a) + 2 ^ 8 * unat (m (a + 1)) + 2 ^ 16 * unat (m (a + 2)) + 2 ^ 24 * unat (m (a + 3))"

definition st32 :: "memory \<Rightarrow> nat \<Rightarrow> nat \<Rightarrow> memory" where
  "st32 m a v = m(a := word_of_nat v, a + 1 := word_of_nat (v div 2 ^ 8),
     a + 2 := word_of_nat (v div 2 ^ 16), a + 3 := word_of_nat (v div 2 ^ 24))"

text \<open>
  \<open>kmemcpy\<close> and \<open>kmemset\<close>: \<open>rep movsl\<close> and \<open>rep stosl\<close> move whole words upwards (the stored word
  is read before it is written), then the remaining bytes are moved one at a time.
\<close>

fun rep_movsl :: "memory \<Rightarrow> nat \<Rightarrow> nat \<Rightarrow> nat \<Rightarrow> memory" where
  "rep_movsl m d s 0 = m"
| "rep_movsl m d s (Suc k) = rep_movsl (st32 m d (ld32 m s)) (d + 4) (s + 4) k"

fun copy_bytes :: "memory \<Rightarrow> nat \<Rightarrow> nat \<Rightarrow> nat \<Rightarrow> memory" where
  "copy_bytes m d s 0 = m"
| "copy_bytes m d s (Suc n) = copy_bytes (m(d := m s)) (d + 1) (s + 1) n"

definition kmemcpy :: "memory \<Rightarrow> nat \<Rightarrow> nat \<Rightarrow> nat \<Rightarrow> memory" where
  "kmemcpy m dest src n =
     (if n \<ge> 4 then
        let dwords = n div 4 in
        copy_bytes (rep_movsl m dest src dwords) (dest + 4 * dwords) (src + 4 * dwords) (n mod 4)
      else copy_bytes m dest src n)"

fun rep_stosl :: "memory \<Rightarrow> nat \<Rightarrow> nat \<Rightarrow> nat \<Rightarrow> memory" where
  "rep_stosl m p v 0 = m"
| "rep_stosl m p v (Suc k) = rep_stosl (st32 m p v) (p + 4) v k"

fun set_bytes :: "memory \<Rightarrow> nat \<Rightarrow> u8 \<Rightarrow> nat \<Rightarrow> memory" where
  "set_bytes m p b 0 = m"
| "set_bytes m p b (Suc n) = set_bytes (m(p := b)) (p + 1) b n"

definition kmemset :: "memory \<Rightarrow> nat \<Rightarrow> int \<Rightarrow> nat \<Rightarrow> memory" where
  "kmemset m s c n =
     (let byte_val = word_of_int c :: u8; b = unat byte_val;
          val32 = b * 2 ^ 24 + b * 2 ^ 16 + b * 2 ^ 8 + b in
      if n \<ge> 4 then
        let dwords = n div 4 in
        set_bytes (rep_stosl m s val32 dwords) (s + 4 * dwords) byte_val (n mod 4)
      else set_bytes m s byte_val n)"

section \<open>Blocks and the heap state\<close>

definition BLOCK_HEADER_SIZE :: nat where "BLOCK_HEADER_SIZE = 16"
definition PTR_SIZE :: nat where "PTR_SIZE = 4"

definition ALIGN8 :: "nat \<Rightarrow> nat" where
  "ALIGN8 x = w32 (x + 7) div 8 * 8"

definition blk_size :: "memory \<Rightarrow> nat \<Rightarrow> nat" where "blk_size m b = ld32 m b"
definition blk_free :: "memory \<Rightarrow> nat \<Rightarrow> nat" where "blk_free m b = ld32 m (b + 4)"
definition blk_next :: "memory \<Rightarrow> nat \<Rightarrow> nat" where "blk_next m b = ld32 m (b + 8)"
definition blk_prev :: "memory \<Rightarrow> nat \<Rightarrow> nat" where "blk_prev m b = ld32 m (b + 12)"
definition set_size :: "nat \<Rightarrow> nat \<Rightarrow> memory \<Rightarrow> memory" where "set_size b v m = st32 m b v"
definition set_free :: "nat \<Rightarrow> nat \<Rightarrow> memory \<Rightarrow> memory" where "set_free b v m = st32 m (b + 4) v"
definition set_next :: "nat \<Rightarrow> nat \<Rightarrow> memory \<Rightarrow> memory" where "set_next b v m = st32 m (b + 8) v"
definition set_prev :: "nat \<Rightarrow> nat \<Rightarrow> memory \<Rightarrow> memory" where "set_prev b v m = st32 m (b + 12) v"

text \<open>The word below a payload holds the address of its block.\<close>

definition back_ptr :: "memory \<Rightarrow> nat \<Rightarrow> nat" where "back_ptr m p = ld32 m (p - PTR_SIZE)"
definition set_back_ptr :: "nat \<Rightarrow> nat \<Rightarrow> memory \<Rightarrow> memory" where "set_back_ptr p v m = st32 m (p - PTR_SIZE) v"

text \<open>
  The state: memory, the two static variables, the lock hooks (code pointers) and the hooks called
  so far.
\<close>

record kmem =
  mem :: memory
  head_block :: nat
  total_heap_bytes :: nat
  kmem_lock_hook :: "nat cptr"
  kmem_unlock_hook :: "nat cptr"
  hook_calls :: "nat list"

definition lock_heap :: "kmem \<Rightarrow> kmem" where
  "lock_heap h = (case kmem_lock_hook h of NULL \<Rightarrow> h | Ptr f \<Rightarrow> h\<lparr>hook_calls := hook_calls h @ [f]\<rparr>)"

definition unlock_heap :: "kmem \<Rightarrow> kmem" where
  "unlock_heap h = (case kmem_unlock_hook h of NULL \<Rightarrow> h | Ptr f \<Rightarrow> h\<lparr>hook_calls := hook_calls h @ [f]\<rparr>)"

definition kmem_set_locks :: "nat cptr \<Rightarrow> nat cptr \<Rightarrow> kmem \<Rightarrow> kmem" where
  "kmem_set_locks lock_fn unlock_fn h = h\<lparr>kmem_lock_hook := lock_fn, kmem_unlock_hook := unlock_fn\<rparr>"

section \<open>Regions\<close>

definition kmem_init :: "nat \<Rightarrow> nat \<Rightarrow> kmem \<Rightarrow> kmem" where
  "kmem_init heap_start heap_size h =
     (if heap_start = 0 \<or> heap_size < BLOCK_HEADER_SIZE + 32 then h
      else h\<lparr>total_heap_bytes := heap_size,
             head_block := heap_start,
             mem := (set_prev heap_start 0 \<circ> set_next heap_start 0 \<circ> set_free heap_start 1 \<circ>
                     set_size heap_start (ALIGN8 (heap_size - BLOCK_HEADER_SIZE))) (mem h)\<rparr>)"

partial_function (option) last_block :: "memory \<Rightarrow> nat \<Rightarrow> nat option" where
  "last_block m cur = (if blk_next m cur \<noteq> 0 then last_block m (blk_next m cur) else Some cur)"

definition kmem_add_region :: "nat \<Rightarrow> nat \<Rightarrow> kmem \<Rightarrow> (int \<times> kmem) option" where
  "kmem_add_region heap_start heap_size h0 =
     (if heap_start = 0 \<or> heap_size < BLOCK_HEADER_SIZE + 32 then Some (-1, h0)
      else do {
        let h = lock_heap h0;
        let new_region = heap_start;
        let m = (set_prev new_region 0 \<circ> set_free new_region 1 \<circ>
                 set_size new_region (ALIGN8 (heap_size - BLOCK_HEADER_SIZE))) (mem h);
        h' \<leftarrow> (if head_block h = 0 then
                 Some (h\<lparr>head_block := new_region, mem := set_next new_region 0 m\<rparr>)
               else do {
                 cur \<leftarrow> last_block m (head_block h);
                 Some (h\<lparr>mem := (set_prev new_region cur \<circ> set_next cur new_region) m\<rparr>)
               });
        Some (0, unlock_heap (h'\<lparr>total_heap_bytes := w32 (total_heap_bytes h' + heap_size)\<rparr>))
      })"

section \<open>Allocation\<close>

text \<open>The split of a block that is larger than needed, statement by statement.\<close>

definition split_block :: "nat \<Rightarrow> nat \<Rightarrow> memory \<Rightarrow> memory" where
  "split_block cur required_space m0 =
     (let new_block = w32 (cur + BLOCK_HEADER_SIZE + required_space);
          m1 = set_size new_block (sub32 (sub32 (blk_size m0 cur) required_space) BLOCK_HEADER_SIZE) m0;
          m2 = set_free new_block 1 m1;
          m3 = set_next new_block (blk_next m2 cur) m2;
          m4 = set_prev new_block cur m3;
          m5 = (if blk_next m4 cur \<noteq> 0 then set_prev (blk_next m4 cur) new_block m4 else m4);
          m6 = set_next cur new_block m5
      in set_size cur required_space m6)"

definition take_block :: "nat \<Rightarrow> nat \<Rightarrow> memory \<Rightarrow> nat \<times> memory" where
  "take_block cur required_space m0 =
     (let m1 = (if blk_size m0 cur \<ge> w32 (required_space + BLOCK_HEADER_SIZE + 32)
                then split_block cur required_space m0 else m0);
          m2 = set_free cur 0 m1;
          payload = w32 (cur + BLOCK_HEADER_SIZE + PTR_SIZE)
      in (payload, set_back_ptr payload cur m2))"

partial_function (option) kmalloc_walk :: "nat \<Rightarrow> nat \<Rightarrow> memory \<Rightarrow> (nat \<times> memory) option" where
  "kmalloc_walk required_space cur m =
     (if cur = 0 then Some (0, m)
      else if blk_free m cur \<noteq> 0 \<and> blk_size m cur \<ge> required_space
      then Some (take_block cur required_space m)
      else kmalloc_walk required_space (blk_next m cur) m)"

definition kmalloc :: "nat \<Rightarrow> kmem \<Rightarrow> (nat \<times> kmem) option" where
  "kmalloc sz h0 =
     (if sz = 0 \<or> head_block h0 = 0 then Some (0, h0)
      else do {
        let h = lock_heap h0;
        let alloc_size = ALIGN8 sz;
        let required_space = w32 (alloc_size + PTR_SIZE);
        (payload, m) \<leftarrow> kmalloc_walk required_space (head_block h) (mem h);
        Some (payload, unlock_heap (h\<lparr>mem := m\<rparr>))
      })"

definition kzalloc :: "nat \<Rightarrow> kmem \<Rightarrow> (nat \<times> kmem) option" where
  "kzalloc sz h = do {
     (ptr, h') \<leftarrow> kmalloc sz h;
     Some (ptr, if ptr \<noteq> 0 then h'\<lparr>mem := kmemset (mem h') ptr 0 sz\<rparr> else h')
   }"

text \<open>
  \<open>x & ~(alignment - 1)\<close> for a power of two rounds down; the guard that the alignment is one is
  the code's test \<open>(alignment & (alignment - 1)) != 0\<close>.
\<close>

definition kmalloc_aligned :: "nat \<Rightarrow> nat \<Rightarrow> kmem \<Rightarrow> (nat \<times> kmem) option" where
  "kmalloc_aligned sz alignment h0 =
     (if sz = 0 \<or> alignment = 0 then Some (0, h0)
      else if alignment AND (alignment - 1) \<noteq> 0 then Some (0, h0)
      else do {
        let h1 = unlock_heap (lock_heap h0);
        let alloc_size = w32 (ALIGN8 sz + alignment + PTR_SIZE + BLOCK_HEADER_SIZE);
        (raw_ptr, h2) \<leftarrow> kmalloc alloc_size h1;
        if raw_ptr = 0 then Some (0, h2)
        else do {
          let h3 = lock_heap h2;
          let aligned_addr = w32 (raw_ptr + PTR_SIZE + alignment - 1) div alignment * alignment;
          let original_block = back_ptr (mem h3) raw_ptr;
          Some (aligned_addr, unlock_heap (h3\<lparr>mem := set_back_ptr aligned_addr original_block (mem h3)\<rparr>))
        }
      })"

section \<open>Release\<close>

definition coalesce_next :: "nat \<Rightarrow> memory \<Rightarrow> memory" where
  "coalesce_next block m0 =
     (let m1 = set_size block (w32 (blk_size m0 block + BLOCK_HEADER_SIZE + blk_size m0 (blk_next m0 block))) m0;
          m2 = set_next block (blk_next m1 (blk_next m1 block)) m1
      in if blk_next m2 block \<noteq> 0 then set_prev (blk_next m2 block) block m2 else m2)"

definition coalesce_prev :: "nat \<Rightarrow> memory \<Rightarrow> memory" where
  "coalesce_prev block m0 =
     (let p0 = blk_prev m0 block;
          m1 = set_size p0 (w32 (blk_size m0 p0 + BLOCK_HEADER_SIZE + blk_size m0 block)) m0;
          m2 = set_next (blk_prev m1 block) (blk_next m1 block) m1
      in if blk_next m2 block \<noteq> 0 then set_prev (blk_next m2 block) (blk_prev m2 block) m2 else m2)"

definition release_block :: "nat \<Rightarrow> memory \<Rightarrow> memory" where
  "release_block block m0 =
     (let m1 = set_free block 1 m0;
          m2 = (if blk_next m1 block \<noteq> 0 \<and> blk_free m1 (blk_next m1 block) \<noteq> 0 then coalesce_next block m1 else m1)
      in if blk_prev m2 block \<noteq> 0 \<and> blk_free m2 (blk_prev m2 block) \<noteq> 0 then coalesce_prev block m2 else m2)"

definition kfree :: "nat \<Rightarrow> kmem \<Rightarrow> kmem" where
  "kfree ptr h0 =
     (if ptr = 0 then h0
      else let h = lock_heap h0; block = back_ptr (mem h) ptr in
        if block = 0 then unlock_heap h
        else unlock_heap (h\<lparr>mem := release_block block (mem h)\<rparr>))"

definition krealloc :: "nat \<Rightarrow> nat \<Rightarrow> kmem \<Rightarrow> (nat \<times> kmem) option" where
  "krealloc ptr sz h0 =
     (if ptr = 0 then kmalloc sz h0
      else if sz = 0 then Some (0, kfree ptr h0)
      else do {
        let h1 = lock_heap h0;
        let block = back_ptr (mem h1) ptr;
        let old_size = blk_size (mem h1) block;
        let h2 = unlock_heap h1;
        if old_size \<ge> sz then Some (ptr, h2)
        else do {
          (new_ptr, h3) \<leftarrow> kmalloc sz h2;
          if new_ptr \<noteq> 0
          then Some (new_ptr, kfree ptr (h3\<lparr>mem := kmemcpy (mem h3) new_ptr ptr old_size\<rparr>))
          else Some (new_ptr, h3)
        }
      })"

section \<open>Accounting\<close>

partial_function (option) sum_blocks :: "(memory \<Rightarrow> nat \<Rightarrow> bool) \<Rightarrow> memory \<Rightarrow> nat \<Rightarrow> nat \<Rightarrow> nat option" where
  "sum_blocks P m cur acc =
     (if cur = 0 then Some acc
      else sum_blocks P m (blk_next m cur) (if P m cur then w32 (acc + blk_size m cur) else acc))"

definition kmem_get_free_bytes :: "kmem \<Rightarrow> (nat \<times> kmem) option" where
  "kmem_get_free_bytes h0 = do {
     let h = lock_heap h0;
     n \<leftarrow> sum_blocks (\<lambda>m b. blk_free m b \<noteq> 0) (mem h) (head_block h) 0;
     Some (n, unlock_heap h)
   }"

definition kmem_get_used_bytes :: "kmem \<Rightarrow> (nat \<times> kmem) option" where
  "kmem_get_used_bytes h0 = do {
     let h = lock_heap h0;
     n \<leftarrow> sum_blocks (\<lambda>m b. blk_free m b = 0) (mem h) (head_block h) 0;
     Some (n, unlock_heap h)
   }"

definition kmem_get_total_bytes :: "kmem \<Rightarrow> nat" where
  "kmem_get_total_bytes h = total_heap_bytes h"

section \<open>Words in memory\<close>

lemma ld32_st32_same [simp]: "v < 2 ^ 32 \<Longrightarrow> ld32 (st32 m a v) a = v"
proof -
  assume v: "v < 2 ^ 32"
  define q r q' r' where "q = v div 256" "r = v mod 256" "q' = q div 256" "r' = q mod 256"
  note d = this
  have s: "v = 256 * q + r" "q = 256 * q' + r'" "q' = 256 * (q' div 256) + q' mod 256" by (simp_all add: d)
  have "q' div 256 < 256" using v s(1,2) by (simp add: div_less_iff_less_mult)
  moreover have "ld32 (st32 m a v) a = v mod 256 + 256 * (v div 256 mod 256) +
      65536 * (v div 65536 mod 256) + 16777216 * (v div 16777216 mod 256)"
    unfolding ld32_def st32_def by (simp add: unat_of_nat)
  moreover have "v div 65536 = q'" "v div 16777216 = q' div 256" by (simp_all add: d flip: div_mult2_eq)
  ultimately have "ld32 (st32 m a v) a = r + 256 * r' + 65536 * (q' mod 256) + 16777216 * (q' div 256)"
    by (simp flip: d)
  also have "\<dots> = v" using s by linarith
  finally show ?thesis .
qed

lemma ld32_st32_other [simp]: "a + 4 \<le> b \<or> b + 4 \<le> a \<Longrightarrow> ld32 (st32 m a v) b = ld32 m b"
  unfolding ld32_def st32_def by auto

lemma st32_frame: "i < a \<or> a + 4 \<le> i \<Longrightarrow> st32 m a v i = m i"
  unfolding st32_def by auto

lemma ld32_cong: "(\<And>i. a \<le> i \<Longrightarrow> i < a + 4 \<Longrightarrow> m' i = m i) \<Longrightarrow> ld32 m' a = ld32 m a"
  unfolding ld32_def by simp

section \<open>The block list\<close>

text \<open>
  A block is its address, its size and whether it is free.  \<open>dseg m p a xs l n\<close> is a doubly linked
  segment of memory that starts at \<open>a\<close> with predecessor \<open>p\<close> and ends with the last block \<open>l\<close> and
  successor \<open>n\<close>; \<open>tiled lo xs hi\<close> says that the blocks fill the region from \<open>lo\<close> to \<open>hi\<close> without
  gap or overlap.
\<close>

type_synonym blk = "nat \<times> nat \<times> bool"

fun dseg :: "memory \<Rightarrow> nat \<Rightarrow> nat \<Rightarrow> blk list \<Rightarrow> nat \<Rightarrow> nat \<Rightarrow> bool" where
  "dseg m p a [] l n \<longleftrightarrow> l = p \<and> n = a"
| "dseg m p a ((b, s, f) # xs) l n \<longleftrightarrow> a = b \<and> blk_size m b = s \<and> (blk_free m b \<noteq> 0 \<longleftrightarrow> f) \<and>
     blk_prev m b = p \<and> dseg m b (blk_next m b) xs l n"

fun tiled :: "nat \<Rightarrow> blk list \<Rightarrow> nat \<Rightarrow> bool" where
  "tiled a [] e \<longleftrightarrow> a = e"
| "tiled a ((b, s, f) # xs) e \<longleftrightarrow> a = b \<and> 4 \<le> s \<and> tiled (b + 16 + s) xs e"

fun no_free_pair :: "blk list \<Rightarrow> bool" where
  "no_free_pair ((b, s, f) # (c, t, g) # xs) \<longleftrightarrow> \<not> (f \<and> g) \<and> no_free_pair ((c, t, g) # xs)"
| "no_free_pair _ \<longleftrightarrow> True"

definition heap_inv :: "kmem \<Rightarrow> blk list \<Rightarrow> nat \<Rightarrow> nat \<Rightarrow> bool" where
  "heap_inv h xs lo hi \<longleftrightarrow> 0 < lo \<and> hi < 2 ^ 32 \<and> head_block h = lo \<and> xs \<noteq> [] \<and> tiled lo xs hi \<and>
     (\<exists>l. dseg (mem h) 0 lo xs l 0) \<and> no_free_pair xs"

lemma dseg_append:
  "dseg m p a (xs @ ys) l n \<longleftrightarrow> (\<exists>k c. dseg m p a xs k c \<and> dseg m k c ys l n)"
  by (induction m p a xs l n rule: dseg.induct) auto

lemma tiled_append: "tiled a (xs @ ys) e \<longleftrightarrow> (\<exists>c. tiled a xs c \<and> tiled c ys e)"
  by (induction a xs e rule: tiled.induct) auto

lemma tiled_le: "tiled a xs e \<Longrightarrow> a \<le> e"
  by (induction a xs e rule: tiled.induct) auto

lemma tiled_in: "tiled a xs e \<Longrightarrow> (b, s, f) \<in> set xs \<Longrightarrow> a \<le> b \<and> b + 16 + s \<le> e \<and> 4 \<le> s"
proof (induction a xs e rule: tiled.induct)
  case (2 a b' s' f' xs e)
  then show ?case using tiled_le [of "b' + 16 + s'" xs e] by auto
qed simp

lemma dseg_frame:
  "tiled a xs e \<Longrightarrow> (\<And>i. a \<le> i \<Longrightarrow> i < e \<Longrightarrow> m' i = m i) \<Longrightarrow> dseg m' p a' xs l n \<longleftrightarrow> dseg m p a' xs l n"
proof (induction a xs e arbitrary: p a' rule: tiled.induct)
  case (2 a b s f xs e)
  have t: "b = a" "tiled (b + 16 + s) xs e" "b + 16 + s \<le> e" using "2.prems"(1) tiled_le by auto
  have "ld32 m' (b + k) = ld32 m (b + k)" if "k \<le> 12" for k
    using "2.prems"(2) t that by (intro ld32_cong) auto
  from this [of 0] this [of 4] this [of 8] this [of 12]
  have h: "blk_size m' b = blk_size m b" "blk_free m' b = blk_free m b" "blk_next m' b = blk_next m b"
    "blk_prev m' b = blk_prev m b" by (simp_all add: blk_size_def blk_free_def blk_next_def blk_prev_def)
  have "dseg m' b (blk_next m b) xs l n \<longleftrightarrow> dseg m b (blk_next m b) xs l n"
    using "2.prems"(2) t by (intro "2.IH") auto
  then show ?case using h by simp
qed simp

lemma dseg_tiled_start: "dseg m p a xs l n \<Longrightarrow> tiled c xs e \<Longrightarrow> xs \<noteq> [] \<Longrightarrow> a = c"
  by (cases xs) auto

text \<open>Around a block: what the linked segments on both sides and the layout say of its addresses.\<close>

lemma dseg_split:
  assumes "dseg m 0 lo (ys @ (b, s, f) # zs) l 0" "tiled lo (ys @ (b, s, f) # zs) hi"
  obtains k where "dseg m 0 lo ys k b" "dseg m k b ((b, s, f) # zs) l 0"
    "tiled lo ys b" "4 \<le> s" "tiled (b + 16 + s) zs hi" "lo \<le> b" "b + 16 + s \<le> hi"
  using assms tiled_le by (fastforce simp: dseg_append tiled_append)

lemmas field_defs = blk_size_def blk_free_def blk_next_def blk_prev_def set_size_def set_free_def set_next_def set_prev_def

lemma w32_small [simp]: "x < 2 ^ 32 \<Longrightarrow> w32 x = x"
  by (simp add: w32_def)

lemma sub32_le [simp]: "y \<le> x \<Longrightarrow> x < 2 ^ 32 \<Longrightarrow> sub32 x y = x - y"
proof -
  assume a: "y \<le> x" "x < 2 ^ 32"
  then have "(x + 2 ^ 32 - y) mod 2 ^ 32 = (x - y + 2 ^ 32) mod 2 ^ 32" by simp
  also have "\<dots> = x - y" using a by (simp only: mod_add_self2) simp
  finally show ?thesis using a by (simp add: sub32_def)
qed

lemma no_free_pair_append:
  "no_free_pair (xs @ ys) \<longleftrightarrow> no_free_pair xs \<and> no_free_pair ys \<and>
     (xs = [] \<or> ys = [] \<or> \<not> (snd (snd (last xs)) \<and> snd (snd (hd ys))))"
  by (induction xs rule: no_free_pair.induct; cases ys) (auto split: prod.splits)

section \<open>Splitting, taking and merging blocks\<close>

lemma split_block_seg:
  assumes seg: "dseg m k b ((b, s, f) # zs) l 0" and t: "tiled (b + 16 + s) zs hi"
    and a: "req + 48 \<le> s" "hi \<le> 2 ^ 32"
  shows "\<exists>l'. dseg (split_block b req m) k b ((b, req, f) # (b + 16 + req, s - req - 16, True) # zs) l' 0"
    and "\<And>i. i < b \<or> b + 16 \<le> i \<and> i < b + 16 + req \<or> b + 32 + req \<le> i \<and> i < b + 16 + s \<or> b + 32 + s \<le> i \<or>
      (zs = [] \<and> b + 16 + s \<le> i) \<Longrightarrow> split_block b req m i = m i"
proof -
  let ?nb = "b + 16 + req" and ?m = "split_block b req m"
  have le: "b + 16 + s \<le> hi" using t by (rule tiled_le)
  have h: "blk_size m b = s" "blk_free m b \<noteq> 0 \<longleftrightarrow> f" "blk_prev m b = k" "dseg m b (blk_next m b) zs l 0"
    using seg by auto
  have nb: "w32 (b + BLOCK_HEADER_SIZE + req) = ?nb" "sub32 (sub32 s req) BLOCK_HEADER_SIZE = s - req - 16"
    using le a by (simp_all add: BLOCK_HEADER_SIZE_def)
  have bnd: "b + s + 16 \<le> 2 ^ 32" using le a(2) by simp
  note sb = split_block_def nb(1) h(1) nb(2) Let_def
  have "(\<exists>l'. dseg ?m k b ((b, req, f) # (?nb, s - req - 16, True) # zs) l' 0) \<and>
    (\<forall>i. i < b \<or> b + 16 \<le> i \<and> i < b + 16 + req \<or> b + 32 + req \<le> i \<and> i < b + 16 + s \<or> b + 32 + s \<le> i \<or>
      (zs = [] \<and> b + 16 + s \<le> i) \<longrightarrow> ?m i = m i)"
  proof (cases zs)
    case Nil
    then have n: "blk_next m b = 0" using h(4) by simp
    show ?thesis using h n Nil a bnd unfolding sb by (auto simp add: field_defs st32_frame)
  next
    case (Cons z zs')
    obtain c t g where z: "z = (c, t, g)" by (cases z) auto
    have n: "blk_next m b = c" "c = b + 16 + s" "blk_size m c = t" "blk_free m c \<noteq> 0 \<longleftrightarrow> g" "blk_prev m c = b"
      "dseg m c (blk_next m c) zs' l 0" and t': "tiled (c + 16 + t) zs' hi"
      using h(4) t Cons z by auto
    have c: "c + 16 \<le> 2 ^ 32" using tiled_le [OF t'] a(2) by simp
    have fr: "?m i = m i"
      if "i < b \<or> b + 16 \<le> i \<and> i < b + 16 + req \<or> b + 32 + req \<le> i \<and> i < b + 16 + s \<or> b + 32 + s \<le> i" for i
      using that h n a bnd c unfolding sb by (elim disjE) (simp_all add: field_defs st32_frame)
    have hd: "blk_size ?m b = req" "blk_free ?m b \<noteq> 0 \<longleftrightarrow> f" "blk_next ?m b = ?nb" "blk_prev ?m b = k"
      "blk_size ?m ?nb = s - req - 16" "blk_free ?m ?nb \<noteq> 0" "blk_next ?m ?nb = c" "blk_prev ?m ?nb = b"
      "blk_size ?m c = t" "blk_free ?m c \<noteq> 0 \<longleftrightarrow> g" "blk_next ?m c = blk_next m c" "blk_prev ?m c = ?nb"
      using h n a bnd c unfolding sb by (simp_all add: field_defs)
    have "dseg ?m c (blk_next m c) zs' l 0"
      using n(2,6) fr by (subst dseg_frame [OF t']) auto
    then show ?thesis using hd n fr Cons z by auto
  qed
  then show "\<exists>l'. dseg ?m k b ((b, req, f) # (?nb, s - req - 16, True) # zs) l' 0"
    and "\<And>i. i < b \<or> b + 16 \<le> i \<and> i < b + 16 + req \<or> b + 32 + req \<le> i \<and> i < b + 16 + s \<or> b + 32 + s \<le> i \<or>
      (zs = [] \<and> b + 16 + s \<le> i) \<Longrightarrow> ?m i = m i" by blast+
qed

lemma ld32_less [simp]: "ld32 m a < 2 ^ 32"
proof -
  have "unat (m i) < 256" for i using unsigned_less [of "m i"] by simp
  from this [of a] this [of "a + 1"] this [of "a + 2"] this [of "a + 3"] show ?thesis by (simp add: ld32_def)
qed

lemma ld32_less_numeral [simp]: "ld32 m a < 4294967296"
  using ld32_less [of m a] by simp

lemma coalesce_next_seg:
  assumes seg: "dseg m k b ((b, s, f) # (c, t, g) # zs) l 0" and t: "tiled (b + 16 + s) ((c, t, g) # zs) hi"
    and a: "hi \<le> 2 ^ 32" "0 < b"
  shows "\<exists>l'. dseg (coalesce_next b m) k b ((b, s + 16 + t, f) # zs) l' 0"
    and "\<And>i. i < b \<or> b + 16 \<le> i \<and> i < c + 16 + t \<or> c + 32 + t \<le> i \<or> (zs = [] \<and> c + 16 + t \<le> i) \<Longrightarrow>
      coalesce_next b m i = m i"
proof -
  let ?m = "coalesce_next b m"
  have t': "tiled (c + 16 + t) zs hi" and c: "c = b + 16 + s" and le: "c + 16 + t \<le> hi"
    using t tiled_le by auto
  have h: "blk_size m b = s" "blk_free m b \<noteq> 0 \<longleftrightarrow> f" "blk_prev m b = k" "blk_next m b = c"
    "blk_size m c = t" "dseg m c (blk_next m c) zs l 0"
    using seg by auto
  have w: "w32 (s + BLOCK_HEADER_SIZE + t) = s + 16 + t" using le c a by (simp add: BLOCK_HEADER_SIZE_def)
  have bnd: "b + s + 32 + t \<le> 2 ^ 32" using le c a(1) by simp
  note cn = coalesce_next_def Let_def
  have "(\<exists>l'. dseg ?m k b ((b, s + 16 + t, f) # zs) l' 0) \<and>
    (\<forall>i. i < b \<or> b + 16 \<le> i \<and> i < c + 16 + t \<or> c + 32 + t \<le> i \<or> (zs = [] \<and> c + 16 + t \<le> i) \<longrightarrow> ?m i = m i)"
  proof (cases zs)
    case Nil
    then have n: "blk_next m c = 0" using h(6) by simp
    show ?thesis using h n Nil c bnd unfolding cn by (auto simp add: field_defs st32_frame w)
  next
    case (Cons z zs')
    obtain d u g' where z: "z = (d, u, g')" by (cases z) auto
    have n: "blk_next m c = d" "d = c + 16 + t" "blk_size m d = u" "blk_free m d \<noteq> 0 \<longleftrightarrow> g'"
      "dseg m d (blk_next m d) zs' l 0" and t'': "tiled (d + 16 + u) zs' hi"
      using h(6) t' Cons z by auto
    have d: "d + 16 \<le> 2 ^ 32" using tiled_le [OF t''] a(1) by simp
    have fr: "?m i = m i" if "i < b \<or> b + 16 \<le> i \<and> i < c + 16 + t \<or> c + 32 + t \<le> i" for i
      using that h n c bnd d unfolding cn by (elim disjE) (simp_all add: field_defs st32_frame w)
    have hd: "blk_size ?m b = s + 16 + t" "blk_free ?m b \<noteq> 0 \<longleftrightarrow> f" "blk_next ?m b = d" "blk_prev ?m b = k"
      "blk_size ?m d = u" "blk_free ?m d \<noteq> 0 \<longleftrightarrow> g'" "blk_next ?m d = blk_next m d" "blk_prev ?m d = b"
      using h n a(2) c bnd d unfolding cn by (simp_all add: field_defs w)
    have "dseg ?m d (blk_next m d) zs' l 0"
      using n(2,5) fr by (subst dseg_frame [OF t'']) auto
    then show ?thesis using hd n fr Cons z by auto
  qed
  then show "\<exists>l'. dseg ?m k b ((b, s + 16 + t, f) # zs) l' 0"
    and "\<And>i. i < b \<or> b + 16 \<le> i \<and> i < c + 16 + t \<or> c + 32 + t \<le> i \<or> (zs = [] \<and> c + 16 + t \<le> i) \<Longrightarrow> ?m i = m i"
    by blast+
qed

lemma coalesce_prev_eq:
  assumes "dseg m k b ((b, s, f) # (c, t, g) # zs) l 0" "tiled (b + 16 + s) ((c, t, g) # zs) hi"
    "hi \<le> 2 ^ 32" "0 < b"
  shows "coalesce_prev c m = coalesce_next b m"
proof -
  have h: "blk_next m b = c" "blk_prev m c = b" "c = b + 16 + s" "b + 16 + s \<le> hi"
    using assms(1,2) tiled_le [OF assms(2)] by auto
  show ?thesis using h assms(3,4)
    unfolding coalesce_prev_def coalesce_next_def Let_def by (simp add: field_defs)
qed

lemma set_free_seg:
  assumes "dseg m k b ((b, s, f) # zs) l 0" "tiled (b + 16 + s) zs hi" "v < 2 ^ 32"
  shows "dseg (set_free b v m) k b ((b, s, v \<noteq> 0) # zs) l 0"
proof -
  have "dseg (set_free b v m) b (blk_next m b) zs l 0"
    using assms(1) by (subst dseg_frame [OF assms(2)]) (auto simp: set_free_def st32_frame)
  then show ?thesis using assms by (simp add: field_defs)
qed

text \<open>Header bytes, and writes that touch none.\<close>

definition header_byte :: "blk list \<Rightarrow> nat \<Rightarrow> bool" where
  "header_byte xs i \<longleftrightarrow> (\<exists>(b, s, f) \<in> set xs. b \<le> i \<and> i < b + 16)"

lemma header_byte_simps [simp]:
  "\<not> header_byte [] i"
  "header_byte ((b, s, f) # xs) i \<longleftrightarrow> b \<le> i \<and> i < b + 16 \<or> header_byte xs i"
  "header_byte (xs @ ys) i \<longleftrightarrow> header_byte xs i \<or> header_byte ys i"
  by (auto simp: header_byte_def)

lemma dseg_headers:
  "(\<And>i. header_byte xs i \<Longrightarrow> m' i = m i) \<Longrightarrow> dseg m' p a xs l n \<longleftrightarrow> dseg m p a xs l n"
proof (induction m p a xs l n rule: dseg.induct)
  case (2 m p a b s f xs l n)
  have "ld32 m' (b + k) = ld32 m (b + k)" if "k \<le> 12" for k
    using "2.prems" that by (intro ld32_cong) auto
  from this [of 0] this [of 4] this [of 8] this [of 12]
  have h: "blk_size m' b = blk_size m b" "blk_free m' b = blk_free m b" "blk_next m' b = blk_next m b"
    "blk_prev m' b = blk_prev m b" by (simp_all add: field_defs)
  have "dseg m' b (blk_next m b) xs l n \<longleftrightarrow> dseg m b (blk_next m b) xs l n"
    using "2.prems" by (intro "2.IH") auto
  then show ?case using h by simp
qed simp

lemma tiled_disjoint:
  "tiled a xs e \<Longrightarrow> (b, s, f) \<in> set xs \<Longrightarrow> (c, t, g) \<in> set xs \<Longrightarrow>
   (b, s, f) = (c, t, g) \<or> b + 16 + s \<le> c \<or> c + 16 + t \<le> b"
proof (induction a xs e rule: tiled.induct)
  case (2 a b' s' f' xs e)
  then show ?case using tiled_in [of "b' + 16 + s'" xs e] by fastforce
qed simp

text \<open>A block has one place in the list.\<close>

lemma tiled_position:
  "tiled lo (ys @ (b, s, f) # zs) hi \<Longrightarrow> ys @ (b, s, f) # zs = ys' @ (b, t, g) # zs' \<Longrightarrow> ys' = ys \<and> t = s \<and> zs' = zs"
proof (induction ys arbitrary: lo ys')
  case Nil
  have "(b, t, g) \<notin> set zs" if "tiled (b + 16 + s) zs hi" using tiled_in [OF that] by fastforce
  with Nil show ?case by (cases ys') auto
next
  case (Cons y ys)
  obtain c u k where y: "y = (c, u, k)" by (cases y) auto
  have "tiled (c + 16 + u) (ys @ (b, s, f) # zs) hi" using Cons.prems(1) y by simp
  then have "c \<noteq> b" using tiled_in [of "c + 16 + u" "ys @ (b, s, f) # zs" hi b s f] by auto
  then show ?case using Cons y by (cases ys') auto
qed

lemma payload_not_header:
  "tiled a xs e \<Longrightarrow> (b, s, f) \<in> set xs \<Longrightarrow> b + 16 \<le> i \<Longrightarrow> i < b + 16 + s \<Longrightarrow> \<not> header_byte xs i"
  unfolding header_byte_def using tiled_disjoint by fastforce

lemma header_byte_in: "tiled a xs e \<Longrightarrow> header_byte xs i \<Longrightarrow> a \<le> i \<and> i < e"
  unfolding header_byte_def using tiled_in by fastforce

text \<open>What an allocation and a release do to the list of blocks.\<close>

definition taken :: "nat \<Rightarrow> nat \<Rightarrow> nat \<Rightarrow> blk list" where
  "taken b s req = (if req + 48 \<le> s then [(b, req, False), (b + 16 + req, s - req - 16, True)] else [(b, s, False)])"

fun join_free :: "blk list \<Rightarrow> blk list" where
  "join_free ((b, s, True) # (c, t, True) # xs) = (b, s + 16 + t, True) # xs"
| "join_free xs = xs"

definition released :: "blk list \<Rightarrow> nat \<Rightarrow> nat \<Rightarrow> blk list \<Rightarrow> blk list" where
  "released ys b s zs = (if ys = [] then join_free ((b, s, True) # zs)
     else butlast ys @ join_free (last ys # join_free ((b, s, True) # zs)))"

lemma back_ptr_set [simp]: "v < 2 ^ 32 \<Longrightarrow> back_ptr (set_back_ptr p v m) p = v"
  by (simp add: back_ptr_def set_back_ptr_def)

lemma take_block_seg:
  assumes seg: "dseg m 0 lo (ys @ (b, s, True) # zs) l 0" and t: "tiled lo (ys @ (b, s, True) # zs) hi"
    and hi: "hi < 2 ^ 32" and a: "4 \<le> req" "req \<le> s" "req + 48 < 2 ^ 32"
  obtains l' m' where "take_block b req m = (b + 20, m')" "dseg m' 0 lo (ys @ taken b s req @ zs) l' 0"
    "tiled lo (ys @ taken b s req @ zs) hi" "back_ptr m' (b + 20) = b"
    "\<And>i. \<not> header_byte (ys @ zs) i \<Longrightarrow> \<not> (b \<le> i \<and> i < b + 16 + s) \<Longrightarrow> m' i = m i"
proof -
  have hi': "hi \<le> 2 ^ 32" using hi by simp
  obtain k where k: "dseg m 0 lo ys k b" "dseg m k b ((b, s, True) # zs) l 0" "tiled lo ys b" "4 \<le> s"
    "tiled (b + 16 + s) zs hi" "lo \<le> b" "b + 16 + s \<le> hi"
    by (rule dseg_split [OF seg t])
  define m1 where "m1 = (if req + 48 \<le> s then split_block b req m else m)"
  define m2 where "m2 = set_free b 0 m1"
  let ?m = "set_back_ptr (b + 20) b m2"
  have take: "take_block b req m = (b + 20, ?m)"
    using k(2,7) a hi unfolding take_block_def Let_def m1_def m2_def by (simp add: BLOCK_HEADER_SIZE_def PTR_SIZE_def add.commute [of 20])
  obtain x xs where tk: "taken b s req = (b, x, False) # xs" "req \<le> x" "tiled (b + 16 + x) (xs @ zs) hi"
    using a k(5) by (cases "req + 48 \<le> s") (auto simp: taken_def add.assoc)
  have "\<exists>l'. dseg m1 k b ((b, x, True) # xs @ zs) l' 0"
    using split_block_seg(1) [OF k(2,5) _ hi', of req] k(2) tk(1) unfolding m1_def
    by (auto simp: taken_def split: if_splits)
  then obtain l' where "dseg m1 k b ((b, x, True) # xs @ zs) l' 0" by blast
  then have seg2: "dseg m2 k b ((b, x, False) # xs @ zs) l' 0"
    using set_free_seg [OF _ tk(3), where v = 0] unfolding m2_def by fastforce
  have x: "x \<le> s" using tk(1) by (auto simp: taken_def split: if_splits)
  have til: "tiled b ((b, x, False) # xs @ zs) hi" using tk(2,3) a(1) by simp
  have "dseg ?m k b ((b, x, False) # xs @ zs) l' 0"
    using seg2
  proof (subst dseg_headers)
    show "?m i = m2 i" if "header_byte ((b, x, False) # xs @ zs) i" for i
      using that payload_not_header [OF til, of b x False i] a(1) tk(2)
      by (cases "b + 16 \<le> i \<and> i < b + 20") (auto simp: set_back_ptr_def PTR_SIZE_def st32_frame)
  qed
  moreover have fr: "?m i = m i" if "\<not> header_byte (ys @ zs) i" "\<not> (b \<le> i \<and> i < b + 16 + s)" for i
  proof -
    have "m1 i = m i"
    proof (cases zs)
      case Nil
      then show ?thesis using that(2) split_block_seg(2) [OF k(2,5) _ hi', of req i] unfolding m1_def by auto
    next
      case (Cons z zs')
      then have "\<not> (b + 16 + s \<le> i \<and> i < b + 32 + s)" using that(1) k(5) by (cases z) auto
      then show ?thesis using that(2) split_block_seg(2) [OF k(2,5) _ hi', of req i] unfolding m1_def by auto
    qed
    then show ?thesis using that(2) k(4) a hi
      by (auto simp: m2_def set_back_ptr_def set_free_def PTR_SIZE_def st32_frame)
  qed
  moreover have "dseg ?m 0 lo ys k b"
    using k(1)
  proof (subst dseg_frame [OF k(3)])
    fix i assume i: "lo \<le> i" "i < b"
    have "m1 i = m i" using i split_block_seg(2) [OF k(2,5) _ hi', of req i] unfolding m1_def by auto
    then show "?m i = m i" using i by (simp add: m2_def set_back_ptr_def set_free_def PTR_SIZE_def st32_frame)
  qed
  ultimately have "dseg ?m 0 lo (ys @ taken b s req @ zs) l' 0" "tiled lo (ys @ taken b s req @ zs) hi"
    using k(3) til by (auto simp: dseg_append tiled_append tk(1))
  moreover have "back_ptr ?m (b + 20) = b" using k(7) hi by simp
  ultimately show ?thesis using that take fr by blast
qed

lemma absorb_seg:
  assumes seg: "dseg m 0 lo (ys @ (b, s, f) # (c, t, g) # zs) l 0"
    and t: "tiled lo (ys @ (b, s, f) # (c, t, g) # zs) hi" and hi: "hi \<le> 2 ^ 32" and lo: "0 < lo"
  shows "\<exists>l'. dseg (coalesce_next b m) 0 lo (ys @ (b, s + 16 + t, f) # zs) l' 0"
    and "tiled lo (ys @ (b, s + 16 + t, f) # zs) hi"
    and "coalesce_prev c m = coalesce_next b m"
    and "\<And>i. \<not> header_byte (ys @ (b, s, f) # (c, t, g) # zs) i \<Longrightarrow> coalesce_next b m i = m i"
proof -
  obtain k where k: "dseg m 0 lo ys k b" "dseg m k b ((b, s, f) # (c, t, g) # zs) l 0" "tiled lo ys b" "4 \<le> s"
    "tiled (b + 16 + s) ((c, t, g) # zs) hi" "lo \<le> b"
    by (rule dseg_split [OF seg t])
  have b: "0 < b" using k(6) lo by simp
  note cs = coalesce_next_seg [OF k(2,5) hi b]
  have "dseg (coalesce_next b m) 0 lo ys k b"
    using k(1) cs(2) by (subst dseg_frame [OF k(3)]) auto
  then show "\<exists>l'. dseg (coalesce_next b m) 0 lo (ys @ (b, s + 16 + t, f) # zs) l' 0"
    using cs(1) by (auto simp: dseg_append)
  show "tiled lo (ys @ (b, s + 16 + t, f) # zs) hi"
    using k(3-5) by (auto simp: tiled_append add.assoc add.left_commute)
  show "coalesce_prev c m = coalesce_next b m" using coalesce_prev_eq [OF k(2,5) hi b] .
  show "coalesce_next b m i = m i" if "\<not> header_byte (ys @ (b, s, f) # (c, t, g) # zs) i" for i
  proof (cases zs)
    case Nil
    then show ?thesis using that k(5) by (intro cs(2)) auto
  next
    case (Cons z zs')
    then show ?thesis using that k(5) by (cases z, intro cs(2)) auto
  qed
qed

lemma release_block_seg:
  assumes seg: "dseg m 0 lo (ys @ (b, s, f) # zs) l 0" and t: "tiled lo (ys @ (b, s, f) # zs) hi"
    and hi: "hi \<le> 2 ^ 32" and lo: "0 < lo"
  shows "\<exists>l'. dseg (release_block b m) 0 lo (released ys b s zs) l' 0"
    and "tiled lo (released ys b s zs) hi"
    and "\<And>i. \<not> header_byte (ys @ (b, s, f) # zs) i \<Longrightarrow> release_block b m i = m i"
proof -
  obtain k where k: "dseg m 0 lo ys k b" "dseg m k b ((b, s, f) # zs) l 0" "tiled lo ys b" "4 \<le> s"
    "tiled (b + 16 + s) zs hi" "lo \<le> b"
    by (rule dseg_split [OF seg t])
  define m1 where "m1 = set_free b 1 m"
  define m2 where "m2 = (if blk_next m1 b \<noteq> 0 \<and> blk_free m1 (blk_next m1 b) \<noteq> 0 then coalesce_next b m1 else m1)"
  let ?m = "release_block b m"
  have m3: "?m = (if blk_prev m2 b \<noteq> 0 \<and> blk_free m2 (blk_prev m2 b) \<noteq> 0 then coalesce_prev b m2 else m2)"
    by (simp add: release_block_def m1_def m2_def Let_def)
  have s1: "dseg m1 k b ((b, s, True) # zs) l 0"
    using set_free_seg [OF k(2,5), of 1] by (simp add: m1_def)
  have "dseg m1 0 lo ys k b"
    using k(1) by (subst dseg_frame [OF k(3)]) (auto simp: m1_def set_free_def st32_frame)
  with s1 have s1': "dseg m1 0 lo (ys @ (b, s, True) # zs) l 0" by (auto simp: dseg_append)
  have t1: "tiled lo (ys @ (b, s, True) # zs) hi" using t by (simp add: tiled_append)
  have f1: "m1 i = m i" if "\<not> header_byte (ys @ (b, s, f) # zs) i" for i
    using that by (auto simp: m1_def set_free_def st32_frame)
  have "\<exists>u zs' l'. join_free ((b, s, True) # zs) = (b, u, True) # zs' \<and>
      dseg m2 0 lo (ys @ (b, u, True) # zs') l' 0 \<and> tiled lo (ys @ (b, u, True) # zs') hi \<and>
      (\<forall>i. \<not> header_byte (ys @ (b, s, f) # zs) i \<longrightarrow> m2 i = m i) \<and>
      (\<forall>i. header_byte ((b, u, True) # zs') i \<longrightarrow> header_byte ((b, s, True) # zs) i)"
  proof (cases zs)
    case Nil
    then have "blk_next m1 b = 0" using s1 by simp
    then have "m2 = m1" by (simp add: m2_def)
    then show ?thesis using s1' t1 f1 Nil by (intro exI [of _ s] exI [of _ zs] exI [of _ l]) auto
  next
    case (Cons z zs')
    obtain c u g where z: "zs = (c, u, g) # zs'" using Cons by (cases z) auto
    have n: "blk_next m1 b = c" "c \<noteq> 0" "blk_free m1 c \<noteq> 0 \<longleftrightarrow> g" using s1 z k(5) by auto
    show ?thesis
    proof (cases g)
      case True
      note ab = absorb_seg [OF s1' [unfolded z] t1 [unfolded z] hi lo]
      obtain l' where "dseg (coalesce_next b m1) 0 lo (ys @ (b, s + 16 + u, True) # zs') l' 0" using ab(1) by blast
      moreover have "m2 = coalesce_next b m1" using n True by (simp add: m2_def)
      ultimately show ?thesis using ab(2,4) f1 z True
        by (intro exI [of _ "s + 16 + u"] exI [of _ zs'] exI [of _ l']) auto
    next
      case False
      then have "m2 = m1" using n by (simp add: m2_def)
      then show ?thesis using s1' t1 f1 z False by (intro exI [of _ s] exI [of _ zs] exI [of _ l]) auto
    qed
  qed
  then obtain u zs' l2 where j: "join_free ((b, s, True) # zs) = (b, u, True) # zs'"
    "dseg m2 0 lo (ys @ (b, u, True) # zs') l2 0" "tiled lo (ys @ (b, u, True) # zs') hi"
    "\<And>i. \<not> header_byte (ys @ (b, s, f) # zs) i \<Longrightarrow> m2 i = m i"
    "\<And>i. header_byte ((b, u, True) # zs') i \<Longrightarrow> header_byte ((b, s, True) # zs) i"
    by blast
  have "(\<exists>l'. dseg ?m 0 lo (released ys b s zs) l' 0) \<and> tiled lo (released ys b s zs) hi \<and>
    (\<forall>i. \<not> header_byte (ys @ (b, s, f) # zs) i \<longrightarrow> ?m i = m i)"
  proof (cases ys rule: rev_cases)
    case Nil
    then have "blk_prev m2 b = 0" using j(2) by simp
    then have "?m = m2" by (simp add: m3)
    then show ?thesis using j Nil by (auto simp: released_def)
  next
    case (snoc ys' y)
    obtain p v g where y: "ys = ys' @ [(p, v, g)]" using snoc by (cases y) auto
    have n: "blk_prev m2 b = p" "blk_free m2 p \<noteq> 0 \<longleftrightarrow> g" using j(2) y by (auto simp: dseg_append)
    have "lo \<le> p" using tiled_in [OF j(3), of p v g] y by simp
    then have p: "p \<noteq> 0" using lo by simp
    show ?thesis
    proof (cases g)
      case True
      have sg: "dseg m2 0 lo (ys' @ (p, v, True) # (b, u, True) # zs') l2 0"
        "tiled lo (ys' @ (p, v, True) # (b, u, True) # zs') hi" using j(2,3) y True by simp_all
      note ab = absorb_seg [OF sg hi lo]
      have e: "?m = coalesce_next p m2" using n p True by (simp add: m3 ab(3))
      have "?m i = m i" if "\<not> header_byte (ys @ (b, s, f) # zs) i" for i
      proof -
        have "coalesce_next p m2 i = m2 i" using that j(5) [of i] y by (intro ab(4)) auto
        then show ?thesis using e j(4) [OF that] by simp
      qed
      moreover have "released ys b s zs = ys' @ (p, v + 16 + u, True) # zs'"
        using j(1) y True by (simp add: released_def)
      ultimately show ?thesis using ab(1,2) e by metis
    next
      case False
      then have "?m = m2" using n by (simp add: m3)
      then show ?thesis using j y False by (auto simp: released_def)
    qed
  qed
  then show "\<exists>l'. dseg ?m 0 lo (released ys b s zs) l' 0" "tiled lo (released ys b s zs) hi"
    "\<And>i. \<not> header_byte (ys @ (b, s, f) # zs) i \<Longrightarrow> ?m i = m i" by blast+
qed

lemma no_free_pair_taken:
  "no_free_pair (ys @ (b, s, True) # zs) \<Longrightarrow> no_free_pair (ys @ taken b s req @ zs)"
  by (cases zs) (auto simp: taken_def no_free_pair_append split: prod.splits)

lemma no_free_pair_last: "no_free_pair (ys @ (b, s, True) # zs) \<Longrightarrow> ys \<noteq> [] \<Longrightarrow> \<not> snd (snd (last ys))"
  by (simp add: no_free_pair_append)

lemma join_free_fst: "\<exists>t zs'. join_free ((b, s, True) # zs) = (b, t, True) # zs'"
  by (cases "(b, s, True) # zs" rule: join_free.cases) auto

lemma join_free_idle: "ys \<noteq> [] \<Longrightarrow> \<not> snd (snd (last ys)) \<Longrightarrow> join_free (last ys # x) = last ys # x"
  by (cases "last ys" rule: prod_cases3) simp

lemma released_taken:
  assumes "no_free_pair (ys @ (b, s, True) # zs)" "req \<le> s"
  shows "taken b s req = (b, if req + 48 \<le> s then req else s, False) # tl (taken b s req)"
    and "released ys b (if req + 48 \<le> s then req else s) (tl (taken b s req) @ zs) = ys @ (b, s, True) # zs"
proof -
  show "taken b s req = (b, if req + 48 \<le> s then req else s, False) # tl (taken b s req)"
    by (simp add: taken_def)
  have z: "join_free ((b, s, True) # zs) = (b, s, True) # zs"
    using assms(1) by (cases zs) (auto simp: no_free_pair_append)
  have j: "join_free ((b, if req + 48 \<le> s then req else s, True) # tl (taken b s req) @ zs) = (b, s, True) # zs"
    using z assms(2) by (simp add: taken_def)
  show "released ys b (if req + 48 \<le> s then req else s) (tl (taken b s req) @ zs) = ys @ (b, s, True) # zs"
    unfolding released_def j
    using no_free_pair_last [OF assms(1)] join_free_idle [of ys "(b, s, True) # zs"] by simp
qed

lemma no_free_pair_released:
  assumes "no_free_pair (ys @ (b, s, False) # zs)"
  shows "no_free_pair (released ys b s zs)"
proof -
  have *: "no_free_pair (join_free ((b, t, True) # zs))" for t
  proof (cases "(b, t, True) # zs" rule: join_free.cases)
    case (1 b' s' c u xs)
    then show ?thesis using assms by (cases xs) (auto simp: no_free_pair_append)
  qed (use assms in \<open>auto simp: no_free_pair_append\<close>)
  obtain t zs' where j: "join_free ((b, s, True) # zs) = (b, t, True) # zs'" using join_free_fst by blast
  show ?thesis
  proof (cases ys rule: rev_cases)
    case Nil
    then show ?thesis using * by (simp add: released_def)
  next
    case (snoc ys' y)
    obtain p v g where y: "y = (p, v, g)" by (cases y) auto
    have "no_free_pair ((b, t, True) # zs')" using * [of s] j by simp
    then have "no_free_pair ((b, t, True) # zs') \<and> no_free_pair ((p, w, True) # zs')" for w
      by (cases zs') auto
    then show ?thesis using snoc y j assms by (cases g) (auto simp: released_def no_free_pair_append)
  qed
qed

text \<open>The blocks in use are those of the list before, less the released one.\<close>

definition used_blocks :: "blk list \<Rightarrow> (nat \<times> nat) set" where
  "used_blocks xs = {(b, s). (b, s, False) \<in> set xs}"

lemma used_blocks_simps [simp]:
  "used_blocks [] = {}" "used_blocks ((b, s, True) # xs) = used_blocks xs"
  "used_blocks ((b, s, False) # xs) = insert (b, s) (used_blocks xs)"
  "used_blocks (xs @ ys) = used_blocks xs \<union> used_blocks ys"
  by (auto simp: used_blocks_def)

lemma used_blocks_join [simp]: "used_blocks (join_free xs) = used_blocks xs"
  by (cases xs rule: join_free.cases) auto

lemma used_blocks_released: "used_blocks (released ys b s zs) = used_blocks ys \<union> used_blocks zs"
proof (cases ys rule: rev_cases)
  case (snoc ys' y)
  obtain p v g where "y = (p, v, g)" by (cases y) auto
  then show ?thesis using snoc by (cases g) (simp_all add: released_def)
qed (simp add: released_def)

lemma used_blocks_taken: "used_blocks (taken b s req) = {(b, if req + 48 \<le> s then req else s)}"
  by (simp add: taken_def)

section \<open>Walks\<close>

lemma kmalloc_walk_find:
  "dseg m p a xs l 0 \<Longrightarrow> tiled a xs hi \<Longrightarrow> 0 < a \<or> xs = [] \<Longrightarrow>
   kmalloc_walk req a m = Some (case find (\<lambda>(b, s, f). f \<and> req \<le> s) xs of
     None \<Rightarrow> (0, m) | Some (b, s, f) \<Rightarrow> take_block b req m)"
proof (induction m p a xs l "0 :: nat" rule: dseg.induct)
  case (1 m p a l)
  then show ?case by (simp add: kmalloc_walk.simps)
next
  case (2 m p a b s f xs l)
  show ?case
  proof (cases xs)
    case Nil
    with 2 show ?thesis by (simp add: kmalloc_walk.simps [of req 0] kmalloc_walk.simps [of req b])
  next
    case (Cons x xs')
    then have "blk_next m b = b + 16 + s" using "2.prems" dseg_tiled_start [of m b "blk_next m b" xs l 0] by auto
    with 2 show ?thesis by (auto simp: kmalloc_walk.simps [of req b])
  qed
qed

lemma sum_blocks_sum:
  "dseg m p a xs l 0 \<Longrightarrow> tiled a xs hi \<Longrightarrow> 0 < a \<or> xs = [] \<Longrightarrow>
   acc + sum_list (map (\<lambda>(b, s, f). s) (filter (\<lambda>(b, s, f). P m b) xs)) < 2 ^ 32 \<Longrightarrow>
   sum_blocks P m a acc = Some (acc + sum_list (map (\<lambda>(b, s, f). s) (filter (\<lambda>(b, s, f). P m b) xs)))"
proof (induction m p a xs l "0 :: nat" arbitrary: acc rule: dseg.induct)
  case (1 m p a l)
  then show ?case by (simp add: sum_blocks.simps)
next
  case (2 m p a b s f xs l)
  have nx: "0 < blk_next m b \<or> xs = []" "tiled (blk_next m b) xs hi \<or> xs = []"
    using "2.prems" dseg_tiled_start [of m b "blk_next m b" xs l 0] by (cases xs; auto)+
  show ?case
  proof (cases xs)
    case Nil
    with 2 show ?thesis by (simp add: sum_blocks.simps [of P m 0] sum_blocks.simps [of P m b] split: if_splits)
  next
    case (Cons x xs')
    with 2 nx show ?thesis by (auto simp: sum_blocks.simps [of P m b])
  qed
qed

lemma find_SomeE:
  assumes "find P xs = Some x"
  obtains ys zs where "xs = ys @ x # zs" "P x"
  using assms by (metis find_Some_iff in_set_conv_decomp nth_mem)

section \<open>The interface\<close>

lemma heap_hooks [simp]:
  "mem (lock_heap h) = mem h" "head_block (lock_heap h) = head_block h"
  "mem (unlock_heap h) = mem h" "head_block (unlock_heap h) = head_block h"
  "total_heap_bytes (lock_heap h) = total_heap_bytes h" "total_heap_bytes (unlock_heap h) = total_heap_bytes h"
  by (simp_all add: lock_heap_def unlock_heap_def split: cptr.splits)

text \<open>
  \<open>live h xs p n\<close>: \<open>p\<close> is a pointer to \<open>n\<close> usable bytes inside a used block, with its back pointer
  below it.
\<close>

definition live :: "kmem \<Rightarrow> blk list \<Rightarrow> nat \<Rightarrow> nat \<Rightarrow> bool" where
  "live h xs p n \<longleftrightarrow> (\<exists>b s. (b, s) \<in> used_blocks xs \<and> back_ptr (mem h) p = b \<and> b + 20 \<le> p \<and> p + n \<le> b + 16 + s)"

text \<open>What an operation must leave alone when it changes \<open>h\<close> into \<open>h'\<close>: payloads of used blocks.\<close>

definition same_payloads :: "(nat \<times> nat) set \<Rightarrow> kmem \<Rightarrow> kmem \<Rightarrow> bool" where
  "same_payloads U h h' \<longleftrightarrow> (\<forall>(b, s) \<in> U. \<forall>i. b + 16 \<le> i \<and> i < b + 16 + s \<longrightarrow> mem h' i = mem h i)"

lemma live_mono:
  assumes "live h xs p n" "same_payloads U h h'" "U \<subseteq> used_blocks ys"
    "(back_ptr (mem h) p, s) \<in> U" "\<And>t. (back_ptr (mem h) p, t) \<in> used_blocks xs \<Longrightarrow> t = s"
  shows "live h' ys p n"
proof -
  let ?b = "back_ptr (mem h) p"
  have b: "?b + 20 \<le> p" "p + n \<le> ?b + 16 + s" using assms(1,5) unfolding live_def by blast+
  have "back_ptr (mem h') p = ?b"
    unfolding back_ptr_def PTR_SIZE_def
    using assms(2,4) b unfolding same_payloads_def by (intro ld32_cong) force
  then show ?thesis using b assms(3,4) unfolding live_def by blast
qed

lemma used_blocks_unique:
  "tiled lo xs hi \<Longrightarrow> (b, s) \<in> used_blocks xs \<Longrightarrow> (b, t) \<in> used_blocks xs \<Longrightarrow> t = s"
  unfolding used_blocks_def using tiled_disjoint by fastforce

lemma heap_invE:
  assumes "heap_inv h xs lo hi"
  obtains l where "0 < lo" "hi < 2 ^ 32" "head_block h = lo" "xs \<noteq> []" "tiled lo xs hi"
    "dseg (mem h) 0 lo xs l 0" "no_free_pair xs"
  using assms unfolding heap_inv_def by blast

definition request :: "nat \<Rightarrow> nat" where
  "request sz = ALIGN8 sz + 4"

lemma request_bounds:
  assumes "0 < sz" "sz \<le> 2 ^ 31"
  shows "sz + 4 \<le> request sz" "request sz + 48 < 2 ^ 32" "w32 (ALIGN8 sz + PTR_SIZE) = request sz" "12 \<le> request sz"
proof -
  have a: "ALIGN8 sz = (sz + 7) div 8 * 8" using assms by (simp add: ALIGN8_def)
  have "sz \<le> (sz + 7) div 8 * 8" "(sz + 7) div 8 * 8 \<le> sz + 7" "8 \<le> (sz + 7) div 8 * 8" using assms(1) by presburger+
  then show "sz + 4 \<le> request sz" "request sz + 48 < 2 ^ 32" "w32 (ALIGN8 sz + PTR_SIZE) = request sz" "12 \<le> request sz"
    using assms(2) by (simp_all add: request_def a PTR_SIZE_def)
qed

text \<open>
  The effect of \<open>kmalloc\<close> on a well-formed heap, with the split of the block list it makes.
\<close>

lemma kmalloc_cases:
  assumes inv: "heap_inv h xs lo hi" and sz: "0 < sz" "sz \<le> 2 ^ 31"
  obtains (full) h' where "kmalloc sz h = Some (0, h')" "mem h' = mem h" "head_block h' = head_block h"
      "\<forall>(b, s, f) \<in> set xs. f \<longrightarrow> s < request sz"
  | (found) ys b s zs h' where "xs = ys @ (b, s, True) # zs" "request sz \<le> s"
      "kmalloc sz h = Some (b + 20, h')" "heap_inv h' (ys @ taken b s (request sz) @ zs) lo hi"
      "back_ptr (mem h') (b + 20) = b"
      "\<And>i. \<not> header_byte (ys @ zs) i \<Longrightarrow> \<not> (b \<le> i \<and> i < b + 16 + s) \<Longrightarrow> mem h' i = mem h i"
proof -
  obtain l where i: "0 < lo" "hi < 2 ^ 32" "head_block h = lo" "xs \<noteq> []" "tiled lo xs hi"
    "dseg (mem h) 0 lo xs l 0" "no_free_pair xs" by (rule heap_invE [OF inv])
  note req = request_bounds [OF sz]
  let ?req = "request sz"
  have walk: "kmalloc_walk ?req lo (mem h) = Some (case find (\<lambda>(b, s, f). f \<and> ?req \<le> s) xs of
     None \<Rightarrow> (0, mem h) | Some (b, s, f) \<Rightarrow> take_block b ?req (mem h))"
    using kmalloc_walk_find [OF i(6,5)] i(1) by blast
  show ?thesis
  proof (cases "find (\<lambda>(b, s, f). f \<and> ?req \<le> s) xs")
    case None
    then have "\<forall>(b, s, f) \<in> set xs. f \<longrightarrow> s < ?req" by (fastforce simp: find_None_iff not_le)
    moreover have "kmalloc sz h = Some (0, unlock_heap ((lock_heap h)\<lparr>mem := mem h\<rparr>))"
      using walk None i(1,3) sz by (simp add: kmalloc_def req(3) Let_def)
    ultimately show ?thesis using full by simp
  next
    case (Some x)
    then obtain ys zs where x: "xs = ys @ x # zs" "(\<lambda>(b, s, f). f \<and> ?req \<le> s) x" by (rule find_SomeE)
    obtain b s where b: "x = (b, s, True)" "?req \<le> s" using x(2) by (cases x) auto
    note xs = x(1) [unfolded b(1)]
    have r4: "4 \<le> ?req" using req(4) by simp
    obtain l' m' where t: "take_block b ?req (mem h) = (b + 20, m')"
      "dseg m' 0 lo (ys @ taken b s ?req @ zs) l' 0" "tiled lo (ys @ taken b s ?req @ zs) hi"
      "back_ptr m' (b + 20) = b"
      "\<And>i. \<not> header_byte (ys @ zs) i \<Longrightarrow> \<not> (b \<le> i \<and> i < b + 16 + s) \<Longrightarrow> m' i = mem h i"
      using take_block_seg [OF i(6) [unfolded xs] i(5) [unfolded xs] i(2) r4 b(2) req(2)] by blast
    let ?h = "unlock_heap ((lock_heap h)\<lparr>mem := m'\<rparr>)"
    have k: "kmalloc sz h = Some (b + 20, ?h)"
      using walk Some t(1) b(1) i(1,3) sz by (simp add: kmalloc_def req(3) Let_def)
    have m: "mem ?h = m'" "head_block ?h = lo" using i(3) by simp_all
    have "no_free_pair (ys @ taken b s ?req @ zs)" using i(7) xs by (simp add: no_free_pair_taken)
    then have "heap_inv ?h (ys @ taken b s ?req @ zs) lo hi"
      using i(1,2) m t(2,3) by (auto simp: heap_inv_def taken_def)
    then show ?thesis using found [OF xs b(2) k] t(4,5) m(1) by simp
  qed
qed

lemma payload_kept:
  assumes t: "tiled lo (ys @ (b, s, f) # zs) hi" and c: "(c, t) \<in> used_blocks (ys @ zs)"
    and i: "c + 16 \<le> i" "i < c + 16 + t"
  shows "\<not> header_byte (ys @ (b, s, f) # zs) i" "\<not> (b \<le> i \<and> i < b + 16 + s)" "lo \<le> i" "i < hi"
proof -
  have m: "(c, t, False) \<in> set (ys @ (b, s, f) # zs)" "(b, s, f) \<in> set (ys @ (b, s, f) # zs)"
    using c by (auto simp: used_blocks_def)
  show "\<not> header_byte (ys @ (b, s, f) # zs) i" by (rule payload_not_header [OF t m(1) i])
  have "c \<noteq> b"
  proof -
    obtain k where k: "tiled lo ys b" "tiled (b + 16 + s) zs hi" using t by (auto simp: tiled_append)
    have "(c, t, False) \<in> set ys \<or> (c, t, False) \<in> set zs" using c by (auto simp: used_blocks_def)
    then show ?thesis using tiled_in [OF k(1), of c t False] tiled_in [OF k(2), of c t False] by auto
  qed
  then show "\<not> (b \<le> i \<and> i < b + 16 + s)" using tiled_disjoint [OF t m] i by auto
  show "lo \<le> i" "i < hi" using tiled_in [OF t m(1)] i by auto
qed

text \<open>Everything a live pointer owns survives an operation that keeps the payloads of its block.\<close>

lemma live_kept:
  assumes inv: "heap_inv h xs lo hi" and l: "live h xs q n"
    and k: "same_payloads U h h'" "U \<subseteq> used_blocks ys" "\<And>s. (back_ptr (mem h) q, s) \<in> used_blocks xs \<Longrightarrow> (back_ptr (mem h) q, s) \<in> U"
  shows "live h' ys q n" "back_ptr (mem h') q = back_ptr (mem h) q" "\<And>i. q \<le> i \<Longrightarrow> i < q + n \<Longrightarrow> mem h' i = mem h i"
proof -
  let ?b = "back_ptr (mem h) q"
  obtain s where s: "(?b, s) \<in> used_blocks xs" "?b + 20 \<le> q" "q + n \<le> ?b + 16 + s" using l unfolding live_def by blast
  have U: "(?b, s) \<in> U" using k(3) s(1) by blast
  have b: "\<And>i. ?b + 16 \<le> i \<Longrightarrow> i < ?b + 16 + s \<Longrightarrow> mem h' i = mem h i"
    using k(1) U unfolding same_payloads_def by blast
  show "\<And>i. q \<le> i \<Longrightarrow> i < q + n \<Longrightarrow> mem h' i = mem h i" using b s by simp
  show p: "back_ptr (mem h') q = ?b"
    unfolding back_ptr_def PTR_SIZE_def using b s by (intro ld32_cong) auto
  show "live h' ys q n" using p s U k(2) unfolding live_def by fastforce
qed

lemma kmalloc_found:
  assumes inv: "heap_inv h xs lo hi" and sz: "0 < sz" "sz \<le> 2 ^ 31" and xs: "xs = ys @ (b, s, True) # zs"
    and req: "request sz \<le> s" and inv': "heap_inv h' (ys @ taken b s (request sz) @ zs) lo hi"
    and bp: "back_ptr (mem h') (b + 20) = b"
    and frame: "\<forall>i. \<not> header_byte (ys @ zs) i \<and> \<not> (b \<le> i \<and> i < b + 16 + s) \<longrightarrow> mem h' i = mem h i"
  shows "same_payloads (used_blocks xs) h h'" "used_blocks xs \<subseteq> used_blocks (ys @ taken b s (request sz) @ zs)"
    "live h' (ys @ taken b s (request sz) @ zs) (b + 20) sz"
    "\<And>q n. live h xs q n \<Longrightarrow> back_ptr (mem h) q \<noteq> b \<and> (q + n \<le> b + 20 \<or> b + 20 + sz \<le> q)"
    "\<And>i. \<not> (lo \<le> i \<and> i < hi) \<Longrightarrow> mem h' i = mem h i"
proof -
  note fr = frame [rule_format, OF conjI]
  have t: "tiled lo (ys @ (b, s, True) # zs) hi" using inv xs by (auto elim: heap_invE)
  have u: "used_blocks xs = used_blocks (ys @ zs)" using xs by simp
  have "mem h' i = mem h i" if "(c, v) \<in> used_blocks (ys @ zs)" "c + 16 \<le> i" "i < c + 16 + v" for c v i
    using payload_kept(1,2) [OF t that] by (intro fr) auto
  then show "same_payloads (used_blocks xs) h h'" unfolding same_payloads_def u by blast
  show "used_blocks xs \<subseteq> used_blocks (ys @ taken b s (request sz) @ zs)" using xs by auto
  have "(b, if request sz + 48 \<le> s then request sz else s) \<in> used_blocks (ys @ taken b s (request sz) @ zs)"
    by (simp add: used_blocks_taken)
  moreover have "b + 20 + sz \<le> b + 16 + (if request sz + 48 \<le> s then request sz else s)"
    using request_bounds(1) [OF sz] req by auto
  ultimately show "live h' (ys @ taken b s (request sz) @ zs) (b + 20) sz"
    unfolding live_def using bp by fastforce
  show "back_ptr (mem h) q \<noteq> b \<and> (q + n \<le> b + 20 \<or> b + 20 + sz \<le> q)" if l: "live h xs q n" for q n
  proof -
    obtain c t' where c: "(c, t') \<in> used_blocks (ys @ zs)" "back_ptr (mem h) q = c" "c + 20 \<le> q" "q + n \<le> c + 16 + t'"
      using l u unfolding live_def by auto
    have m: "(c, t', False) \<in> set (ys @ (b, s, True) # zs)" using c(1) by (auto simp: used_blocks_def)
    have "c + 16 + t' \<le> b \<or> b + 16 + s \<le> c" using tiled_disjoint [OF t m, of b s True] by auto
    then show ?thesis using c request_bounds(1) [OF sz] req by auto
  qed
  show "mem h' i = mem h i" if "\<not> (lo \<le> i \<and> i < hi)" for i
  proof (rule fr)
    show "\<not> header_byte (ys @ zs) i" using header_byte_in [OF t, of i] that by auto
    show "\<not> (b \<le> i \<and> i < b + 16 + s)" using tiled_in [OF t, of b s True] that by auto
  qed
qed

lemma kfree_ok:
  assumes inv: "heap_inv h xs lo hi" and l: "live h xs p n"
  obtains ys b s zs where "xs = ys @ (b, s, False) # zs" "back_ptr (mem h) p = b"
    "heap_inv (kfree p h) (released ys b s zs) lo hi" "same_payloads (used_blocks (ys @ zs)) h (kfree p h)"
    "\<And>i. \<not> (lo \<le> i \<and> i < hi) \<Longrightarrow> mem (kfree p h) i = mem h i"
proof -
  obtain l where i: "0 < lo" "hi < 2 ^ 32" "head_block h = lo" "xs \<noteq> []" "tiled lo xs hi"
    "dseg (mem h) 0 lo xs l 0" "no_free_pair xs" by (rule heap_invE [OF inv])
  let ?b = "back_ptr (mem h) p"
  obtain s where s: "(?b, s, False) \<in> set xs" "?b + 20 \<le> p" using l unfolding live_def used_blocks_def by auto
  then obtain ys zs where xs: "xs = ys @ (?b, s, False) # zs" by (meson split_list)
  have b: "?b \<noteq> 0" "p \<noteq> 0" using tiled_in [OF i(5) s(1)] i(1) s(2) by auto
  have k: "mem (kfree p h) = release_block ?b (mem h)" "head_block (kfree p h) = lo"
    using b i(3) by (simp_all add: kfree_def Let_def)
  have hi: "hi \<le> 2 ^ 32" using i(2) by simp
  note r = release_block_seg [OF i(6) [unfolded xs] i(5) [unfolded xs] hi i(1)]
  have ne: "released ys ?b s zs \<noteq> []" using r(2) i(5) xs tiled_in [OF i(5) s(1)] by (cases "released ys ?b s zs") auto
  have "heap_inv (kfree p h) (released ys ?b s zs) lo hi"
    using r(1,2) k ne i no_free_pair_released [of ys ?b s zs] xs unfolding heap_inv_def by simp
  moreover have "mem (kfree p h) i = mem h i" if "(c, v) \<in> used_blocks (ys @ zs)" "c + 16 \<le> i" "i < c + 16 + v" for c v i
    unfolding k using payload_kept(1) [OF i(5) [unfolded xs] that] by (rule r(3))
  then have "same_payloads (used_blocks (ys @ zs)) h (kfree p h)" unfolding same_payloads_def by blast
  moreover have "mem (kfree p h) i = mem h i" if "\<not> (lo \<le> i \<and> i < hi)" for i
    unfolding k using header_byte_in [OF i(5) [unfolded xs], of i] that by (intro r(3)) auto
  ultimately show ?thesis using that xs by blast
qed

section \<open>Filling and copying\<close>

lemma st32_bytes:
  "st32 m a (unat b0 + 2 ^ 8 * unat b1 + 2 ^ 16 * unat b2 + 2 ^ 24 * unat b3) =
   m(a := b0, a + 1 := b1, a + 2 := b2, a + 3 := (b3 :: u8))"
proof -
  let ?v = "unat b0 + 2 ^ 8 * unat b1 + 2 ^ 16 * unat b2 + 2 ^ 24 * unat b3"
  have l: "unat b0 < 256" "unat b1 < 256" "unat b2 < 256" "unat b3 < 256"
    using unsigned_less [of b0] unsigned_less [of b1] unsigned_less [of b2] unsigned_less [of b3] by simp_all
  have e: "(word_of_nat v :: u8) = b" if "v mod 256 = unat b" for v and b :: u8
    using that by (simp add: word_unat_eq_iff unat_of_nat)
  have v: "?v = unat b0 + 256 * (unat b1 + 256 * (unat b2 + 256 * unat b3))" by simp
  have d: "?v div 2 ^ 8 = unat b1 + 256 * (unat b2 + 256 * unat b3)" unfolding v using l(1) by simp
  have d2: "?v div 2 ^ 16 = unat b2 + 256 * unat b3" unfolding v using l by simp
  have d3: "?v div 2 ^ 24 = unat b3" unfolding v using l by simp
  have "word_of_nat ?v = b0" unfolding v using l(1) by (intro e) (simp only: mod_mult_self2 mod_less)
  moreover have "word_of_nat (?v div 2 ^ 8) = b1" unfolding d using l(2) by (intro e) (simp only: mod_mult_self2 mod_less)
  moreover have "word_of_nat (?v div 2 ^ 16) = b2" unfolding d2 using l(3) by (intro e) (simp only: mod_mult_self2 mod_less)
  moreover have "word_of_nat (?v div 2 ^ 24) = b3" unfolding d3 using l(4) by (intro e) (simp only: mod_less)
  ultimately show ?thesis unfolding st32_def by metis
qed

lemma st32_ld32: "st32 m d (ld32 m s) = m(d := m s, d + 1 := m (s + 1), d + 2 := m (s + 2), d + 3 := m (s + 3))"
  unfolding ld32_def by (rule st32_bytes)

definition fill :: "memory \<Rightarrow> nat \<Rightarrow> u8 \<Rightarrow> nat \<Rightarrow> memory" where
  "fill m p b n = (\<lambda>i. if p \<le> i \<and> i < p + n then b else m i)"

lemma fill_fill: "fill (fill m p b j) (p + j) b k = fill m p b (j + k)"
  by (auto simp: fill_def fun_eq_iff)

lemma set_bytes_fill: "set_bytes m p b n = fill m p b n"
  by (induction n arbitrary: m p) (auto simp: fill_def fun_eq_iff)

lemma rep_stosl_fill:
  "rep_stosl m p (unat b * 2 ^ 24 + unat b * 2 ^ 16 + unat b * 2 ^ 8 + unat b) k = fill m p b (4 * k)"
proof (induction k arbitrary: m p)
  case (Suc k)
  have "st32 m p (unat b * 2 ^ 24 + unat b * 2 ^ 16 + unat b * 2 ^ 8 + unat b) = fill m p b 4"
    using st32_bytes [of m p b b b b] by (auto simp: fill_def fun_eq_iff mult.commute add.commute add.left_commute)
  then show ?case using Suc fill_fill [of m p b 4 "4 * k"] by simp
qed (auto simp: fill_def fun_eq_iff)

lemma kmemset_fill: "kmemset m s c n = fill m s (word_of_int c) n"
proof -
  have "fill (fill m s b (4 * (n div 4))) (s + 4 * (n div 4)) b (n mod 4) = fill m s b n" for b
    by (simp add: fill_fill)
  then show ?thesis unfolding kmemset_def Let_def set_bytes_fill rep_stosl_fill by simp
qed

definition copied :: "memory \<Rightarrow> memory \<Rightarrow> nat \<Rightarrow> nat \<Rightarrow> nat \<Rightarrow> memory" where
  "copied m0 m d s n = (\<lambda>i. if d \<le> i \<and> i < d + n then m0 (s + (i - d)) else m i)"

lemma copy_bytes_copied:
  "d + n \<le> s \<or> s + n \<le> d \<Longrightarrow> copy_bytes m d s n = copied m m d s n"
proof (induction n arbitrary: m d s)
  case (Suc n)
  have "copy_bytes (m(d := m s)) (d + 1) (s + 1) n = copied (m(d := m s)) (m(d := m s)) (d + 1) (s + 1) n"
    using Suc.prems by (intro Suc.IH) auto
  also have "\<dots> = copied m m d s (Suc n)"
  proof
    fix i
    have "s + (i - d) = Suc (s + (i - Suc d))" if "Suc d \<le> i" using that by simp
    then show "copied (m(d := m s)) (m(d := m s)) (d + 1) (s + 1) n i = copied m m d s (Suc n) i"
      using Suc.prems by (auto simp: copied_def)
  qed
  finally show ?case by simp
qed (auto simp: copied_def fun_eq_iff)

lemma rep_movsl_bytes:
  "d + 4 * k \<le> s \<or> s + 4 * k \<le> d \<Longrightarrow> rep_movsl m d s k = copy_bytes m d s (4 * k)"
proof (induction k arbitrary: m d s)
  case (Suc k)
  have "copy_bytes m d s (4 * Suc k) =
      copy_bytes (m(d := m s, d + 1 := m (s + 1), d + 2 := m (s + 2), d + 3 := m (s + 3))) (d + 4) (s + 4) (4 * k)"
    using Suc.prems by (elim disjE) (simp_all add: numeral_eq_Suc)
  moreover have "rep_movsl m' (d + 4) (s + 4) k = copy_bytes m' (d + 4) (s + 4) (4 * k)" for m'
    using Suc.prems by (intro Suc.IH) auto
  ultimately show ?case by (simp only: rep_movsl.simps st32_ld32)
qed simp

lemma copy_bytes_add: "copy_bytes (copy_bytes m d s a) (d + a) (s + a) b = copy_bytes m d s (a + b)"
proof (induction a arbitrary: m d s)
  case (Suc a)
  then show ?case using Suc.IH [of "m(d := m s)" "d + 1" "s + 1"]
    by (simp only: copy_bytes.simps add_Suc add_Suc_right Suc_eq_plus1 [symmetric])
qed simp

lemma kmemcpy_copied:
  assumes "d + n \<le> s \<or> s + n \<le> d"
  shows "kmemcpy m d s n = copied m m d s n"
proof -
  have "4 * (n div 4) \<le> n" by simp
  then have "d + 4 * (n div 4) \<le> s \<or> s + 4 * (n div 4) \<le> d" using assms by linarith
  then have "kmemcpy m d s n = copy_bytes m d s n"
    by (simp add: kmemcpy_def Let_def rep_movsl_bytes copy_bytes_add)
  then show ?thesis using copy_bytes_copied [OF assms] by simp
qed

section \<open>The heap as a store of objects\<close>

text \<open>
  What a client relies on.  \<open>owns h p n\<close> is a pointer to \<open>n\<close> bytes the client was given, \<open>owner\<close>
  tells allocations apart, \<open>byte\<close> and \<open>store\<close> are the client's own accesses.
\<close>

locale byte_heap =
  fixes ok :: "'h \<Rightarrow> bool" and owns :: "'h \<Rightarrow> nat \<Rightarrow> nat \<Rightarrow> bool" and owner :: "'h \<Rightarrow> nat \<Rightarrow> nat"
    and byte :: "'h \<Rightarrow> nat \<Rightarrow> u8" and alloc :: "nat \<Rightarrow> 'h \<Rightarrow> (nat \<times> 'h) option"
    and release :: "nat \<Rightarrow> 'h \<Rightarrow> 'h" and store :: "nat \<Rightarrow> u8 \<Rightarrow> 'h \<Rightarrow> 'h" and limit :: nat
  assumes alloc_ok: "ok h \<Longrightarrow> 0 < n \<Longrightarrow> n \<le> limit \<Longrightarrow> \<exists>p h'. alloc n h = Some (p, h') \<and> ok h' \<and>
      (p \<noteq> 0 \<longrightarrow> owns h' p n \<and> (\<forall>q k. owns h q k \<longrightarrow> owner h q \<noteq> owner h' p)) \<and>
      (\<forall>q k. owns h q k \<longrightarrow> owns h' q k \<and> owner h' q = owner h q \<and> (\<forall>i. q \<le> i \<and> i < q + k \<longrightarrow> byte h' i = byte h i))"
    and release_ok: "ok h \<Longrightarrow> owns h p n \<Longrightarrow> ok (release p h) \<and>
      (\<forall>q k. owns h q k \<and> owner h q \<noteq> owner h p \<longrightarrow> owns (release p h) q k \<and>
         owner (release p h) q = owner h q \<and> (\<forall>i. q \<le> i \<and> i < q + k \<longrightarrow> byte (release p h) i = byte h i))"
    and store_ok: "ok h \<Longrightarrow> owns h p n \<Longrightarrow> p \<le> i \<Longrightarrow> i < p + n \<Longrightarrow> ok (store i v h) \<and>
      byte (store i v h) = (byte h)(i := v) \<and>
      (\<forall>q k. owns h q k \<and> (q = p \<or> owner h q \<noteq> owner h p) \<longrightarrow> owns (store i v h) q k \<and> owner (store i v h) q = owner h q)"
    and apart: "ok h \<Longrightarrow> owns h p n \<Longrightarrow> owns h q k \<Longrightarrow> owner h p \<noteq> owner h q \<Longrightarrow> p + n \<le> q \<or> q + k \<le> p"
    and owns_zero: "ok h \<Longrightarrow> owns h p n \<Longrightarrow> p \<noteq> 0"

text \<open>
  A client program and its abstract meaning: a finite set of objects, each with its contents.  A
  request for no bytes or more than the limit, a release of something not held and a write outside
  an object are not made.
\<close>

datatype heap_op = Alloc nat | Release nat | Store nat nat u8

fun client_step :: "('h \<Rightarrow> nat \<Rightarrow> u8) \<Rightarrow> (nat \<Rightarrow> 'h \<Rightarrow> (nat \<times> 'h) option) \<Rightarrow> (nat \<Rightarrow> 'h \<Rightarrow> 'h) \<Rightarrow>
    (nat \<Rightarrow> u8 \<Rightarrow> 'h \<Rightarrow> 'h) \<Rightarrow> nat \<Rightarrow> heap_op \<Rightarrow> 'h \<times> (nat \<rightharpoonup> u8 list) \<Rightarrow> ('h \<times> (nat \<rightharpoonup> u8 list)) option" where
  "client_step byte alloc release store limit (Alloc n) (h, objs) =
     (if 0 < n \<and> n \<le> limit then do {
        (p, h') \<leftarrow> alloc n h;
        Some (h', if p = 0 then objs else objs(p \<mapsto> map (byte h') [p..<p + n]))
      } else Some (h, objs))"
| "client_step byte alloc release store limit (Release p) (h, objs) =
     (if p \<in> dom objs then Some (release p h, objs(p := None)) else Some (h, objs))"
| "client_step byte alloc release store limit (Store p k v) (h, objs) =
     (case objs p of Some bs \<Rightarrow> if k < length bs then Some (store (p + k) v h, objs(p \<mapsto> bs[k := v])) else Some (h, objs)
      | None \<Rightarrow> Some (h, objs))"

fun run_client :: "('h \<Rightarrow> nat \<Rightarrow> u8) \<Rightarrow> (nat \<Rightarrow> 'h \<Rightarrow> (nat \<times> 'h) option) \<Rightarrow> (nat \<Rightarrow> 'h \<Rightarrow> 'h) \<Rightarrow>
    (nat \<Rightarrow> u8 \<Rightarrow> 'h \<Rightarrow> 'h) \<Rightarrow> nat \<Rightarrow> heap_op list \<Rightarrow> 'h \<times> (nat \<rightharpoonup> u8 list) \<Rightarrow> ('h \<times> (nat \<rightharpoonup> u8 list)) option" where
  "run_client byte alloc release store limit [] s = Some s"
| "run_client byte alloc release store limit (x # xs) s =
     do { s' \<leftarrow> client_step byte alloc release store limit x s; run_client byte alloc release store limit xs s' }"

definition holds_objects :: "('h \<Rightarrow> bool) \<Rightarrow> ('h \<Rightarrow> nat \<Rightarrow> nat \<Rightarrow> bool) \<Rightarrow> ('h \<Rightarrow> nat \<Rightarrow> nat) \<Rightarrow> ('h \<Rightarrow> nat \<Rightarrow> u8) \<Rightarrow>
    'h \<Rightarrow> (nat \<rightharpoonup> u8 list) \<Rightarrow> bool" where
  "holds_objects ok owns owner byte h objs \<longleftrightarrow> ok h \<and>
     (\<forall>p bs. objs p = Some bs \<longrightarrow> owns h p (length bs) \<and> (\<forall>i<length bs. byte h (p + i) = bs ! i)) \<and>
     (\<forall>p bs q cs. objs p = Some bs \<and> objs q = Some cs \<and> p \<noteq> q \<longrightarrow> owner h p \<noteq> owner h q)"

lemma holds_objectsI:
  assumes "ok h" "\<And>p bs. objs p = Some bs \<Longrightarrow> owns h p (length bs)"
    "\<And>p bs i. objs p = Some bs \<Longrightarrow> i < length bs \<Longrightarrow> byte h (p + i) = bs ! i"
    "\<And>p bs q cs. objs p = Some bs \<Longrightarrow> objs q = Some cs \<Longrightarrow> p \<noteq> q \<Longrightarrow> owner h p \<noteq> owner h q"
  shows "holds_objects ok owns owner byte h objs"
  using assms unfolding holds_objects_def by blast

lemma holds_objectsD:
  assumes "holds_objects ok owns owner byte h objs"
  shows "ok h" "objs p = Some bs \<Longrightarrow> owns h p (length bs)"
    "objs p = Some bs \<Longrightarrow> i < length bs \<Longrightarrow> byte h (p + i) = bs ! i"
    "objs p = Some bs \<Longrightarrow> objs q = Some cs \<Longrightarrow> p \<noteq> q \<Longrightarrow> owner h p \<noteq> owner h q"
  using assms unfolding holds_objects_def by blast+

context byte_heap begin

abbreviation holds :: "'h \<Rightarrow> (nat \<rightharpoonup> u8 list) \<Rightarrow> bool" where
  "holds \<equiv> holds_objects ok owns owner byte"

lemma step_alloc:
  assumes "holds h objs" "0 < n" "n \<le> limit"
  shows "\<exists>p h'. alloc n h = Some (p, h') \<and> holds h' (if p = 0 then objs else objs(p \<mapsto> map (byte h') [p..<p + n]))"
proof -
  note o = holds_objectsD [OF assms(1)]
  obtain p h' where a: "alloc n h = Some (p, h')" "ok h'"
    "p \<noteq> 0 \<Longrightarrow> owns h' p n" "\<And>q k. p \<noteq> 0 \<Longrightarrow> owns h q k \<Longrightarrow> owner h q \<noteq> owner h' p"
    "\<And>q k. owns h q k \<Longrightarrow> owns h' q k" "\<And>q k. owns h q k \<Longrightarrow> owner h' q = owner h q"
    "\<And>q k i. owns h q k \<Longrightarrow> q \<le> i \<Longrightarrow> i < q + k \<Longrightarrow> byte h' i = byte h i"
    using alloc_ok [OF o(1) assms(2,3)] by blast
  have old: "owns h' q (length bs)" "owner h' q = owner h q" "i < length bs \<Longrightarrow> byte h' (q + i) = bs ! i"
    if "objs q = Some bs" for q bs i
    using a(5-7) [OF o(2) [OF that]] o(3) [OF that] by simp_all
  have "holds h' objs"
    by (rule holds_objectsI) (simp_all add: a(2) old o(4))
  moreover have "holds h' (objs(p \<mapsto> map (byte h') [p..<p + n]))" if p: "p \<noteq> 0"
  proof (rule holds_objectsI)
    have ne: "owner h' q \<noteq> owner h' p" if "objs q = Some bs" for q bs
      using old(2) [OF that] a(4) [OF p o(2) [OF that]] by simp
    show "owner h' q \<noteq> owner h' r" if "(objs(p \<mapsto> map (byte h') [p..<p + n])) q = Some bs"
      "(objs(p \<mapsto> map (byte h') [p..<p + n])) r = Some cs" "q \<noteq> r" for q bs r cs
      using that ne ne [symmetric] old(2) o(4) by (auto split: if_splits)
  qed (use a(2,3) p old in \<open>auto split: if_splits\<close>)
  ultimately show ?thesis using a(1) by auto
qed

lemma step_release:
  assumes "holds h objs" "p \<in> dom objs"
  shows "holds (release p h) (objs(p := None))"
proof -
  note o = holds_objectsD [OF assms(1)]
  obtain bs where p: "objs p = Some bs" using assms(2) by blast
  note r = release_ok [OF o(1) o(2) [OF p]]
  have old: "owns (release p h) q (length cs)" "owner (release p h) q = owner h q"
    "i < length cs \<Longrightarrow> byte (release p h) (q + i) = cs ! i"
    if "objs q = Some cs" "q \<noteq> p" for q cs i
    using r o(2) [OF that(1)] o(4) [OF that(1) p that(2)] o(3) [OF that(1), of i] by auto
  show ?thesis
    by (rule holds_objectsI) (use r old o(4) in \<open>auto split: if_splits\<close>)
qed

lemma step_store:
  assumes "holds h objs" "objs p = Some bs" "k < length bs"
  shows "holds (store (p + k) v h) (objs(p \<mapsto> bs[k := v]))"
proof -
  note o = holds_objectsD [OF assms(1)]
  note op = o(2) [OF assms(2)]
  let ?h = "store (p + k) v h"
  have s: "ok ?h" "byte ?h = (byte h)(p + k := v)"
    "\<And>q j. owns h q j \<Longrightarrow> q = p \<or> owner h q \<noteq> owner h p \<Longrightarrow> owns ?h q j \<and> owner ?h q = owner h q"
    using store_ok [OF o(1) op, of "p + k" v] assms(3) by auto
  have q: "owns ?h q (length cs)" "owner ?h q = owner h q" if "objs q = Some cs" for q cs
    using s(3) [OF o(2) [OF that]] o(4) [OF that assms(2)] by (cases "q = p"; simp)+
  have far: "q + i \<noteq> p + k" if "objs q = Some cs" "i < length cs" "q \<noteq> p" for q cs i
    using apart [OF o(1) o(2) [OF that(1)] op o(4) [OF that(1) assms(2) that(3)]] that(2) assms(3) by auto
  show ?thesis
  proof (rule holds_objectsI)
    show "byte ?h (q + i) = cs ! i" if "(objs(p \<mapsto> bs[k := v])) q = Some cs" "i < length cs" for q cs i
    proof (cases "q = p")
      case True
      then show ?thesis using that o(3) [OF assms(2), of i] unfolding s(2) by (auto simp: nth_list_update)
    next
      case False
      then show ?thesis using that far [of q cs i] o(3) [of q cs i] unfolding s(2) by simp
    qed
    show "owns ?h q (length cs)" if "(objs(p \<mapsto> bs[k := v])) q = Some cs" for q cs
      using that q(1) assms(2) by (auto split: if_splits)
    show "owner ?h q \<noteq> owner ?h r" if "(objs(p \<mapsto> bs[k := v])) q = Some cs"
      "(objs(p \<mapsto> bs[k := v])) r = Some ds" "q \<noteq> r" for q cs r ds
    proof -
      note w = that
      obtain cs' ds' where "objs q = Some cs'" "objs r = Some ds'" using w assms(2) by (auto split: if_splits)
      then show ?thesis using q(2) o(4) that(3) by simp
    qed
  qed (rule s(1))
qed

lemma client_step_holds:
  "holds h objs \<Longrightarrow> \<exists>h' objs'. client_step byte alloc release store limit x (h, objs) = Some (h', objs') \<and> holds h' objs'"
proof (cases x)
  case (Alloc n)
  then show "holds h objs \<Longrightarrow> ?thesis" using step_alloc [of h objs n] by (cases "0 < n \<and> n \<le> limit") auto
next
  case (Release p)
  then show "holds h objs \<Longrightarrow> ?thesis" using step_release [of h objs p] by auto
next
  case (Store p k v)
  then show "holds h objs \<Longrightarrow> ?thesis" using step_store [of h objs p _ k v] by (auto split: option.split)
qed

lemma run_client_holds:
  "holds h objs \<Longrightarrow> \<exists>h' objs'. run_client byte alloc release store limit xs (h, objs) = Some (h', objs') \<and> holds h' objs'"
proof (induction xs arbitrary: h objs)
  case (Cons x xs)
  from client_step_holds [OF Cons.prems, of x] Cons.IH show ?case by fastforce
qed simp

end

section \<open>The allocator is such a heap\<close>

definition heap_ok :: "kmem \<Rightarrow> bool" where
  "heap_ok h \<longleftrightarrow> (\<exists>xs lo hi. heap_inv h xs lo hi)"

definition heap_owns :: "kmem \<Rightarrow> nat \<Rightarrow> nat \<Rightarrow> bool" where
  "heap_owns h p n \<longleftrightarrow> (\<exists>xs lo hi. heap_inv h xs lo hi \<and> live h xs p n)"

definition heap_owner :: "kmem \<Rightarrow> nat \<Rightarrow> nat" where
  "heap_owner h p = back_ptr (mem h) p"

definition poke :: "nat \<Rightarrow> u8 \<Rightarrow> kmem \<Rightarrow> kmem" where
  "poke i v h = h\<lparr>mem := (mem h)(i := v)\<rparr>"

lemma dseg_unique:
  "dseg m p a xs l 0 \<Longrightarrow> tiled lo xs hi \<Longrightarrow> dseg m p a ys l' 0 \<Longrightarrow> tiled lo' ys hi' \<Longrightarrow> 0 < a \<Longrightarrow> xs = ys"
proof (induction xs arbitrary: p a ys lo lo')
  case Nil
  then show ?case by simp
next
  case (Cons x xs)
  obtain b s f where x: "x = (b, s, f)" by (cases x) auto
  obtain ys' where ys: "ys = (b, s, f) # ys'"
  proof (cases ys)
    case (Cons y ys')
    then show ?thesis using Cons.prems(1,3) x that [of ys'] by (cases y) simp
  qed (use Cons.prems(3,5) in simp)
  show ?case
  proof (cases "blk_next m b = 0")
    case True
    have "xs = []" using Cons.prems(1,2) x True dseg_tiled_start [of m b 0 xs l 0] by (cases xs) auto
    moreover have "ys' = []" using Cons.prems(3,4) ys True dseg_tiled_start [of m b 0 ys' l' 0] by (cases ys') auto
    ultimately show ?thesis using x ys by simp
  next
    case False
    then show ?thesis using Cons.prems x ys Cons.IH [of b "blk_next m b" "b + 16 + s" ys' "b + 16 + s"] by auto
  qed
qed

lemma heap_inv_unique:
  assumes "heap_inv h xs lo hi" "heap_inv h ys lo' hi'"
  shows "xs = ys" "lo = lo'" "hi = hi'"
proof -
  obtain l where d: "0 < lo" "head_block h = lo" "tiled lo xs hi" "dseg (mem h) 0 lo xs l 0"
    by (rule heap_invE [OF assms(1)])
  obtain l' where d': "head_block h = lo'" "tiled lo' ys hi'" "dseg (mem h) 0 lo' ys l' 0"
    by (rule heap_invE [OF assms(2)])
  show "lo = lo'" using d(2) d'(1) by simp
  then show xy: "xs = ys" using dseg_unique [OF d(4,3) _ d'(2) d(1)] d'(3) by simp
  have "tiled a zs e \<Longrightarrow> tiled a zs e' \<Longrightarrow> e = e'" for a zs e e'
    by (induction a zs e rule: tiled.induct) auto
  then show "hi = hi'" using d(3) d'(2) xy \<open>lo = lo'\<close> by simp
qed

lemma heap_owns_iff: "heap_inv h xs lo hi \<Longrightarrow> heap_owns h p n \<longleftrightarrow> live h xs p n"
  unfolding heap_owns_def using heap_inv_unique by blast

text \<open>Writes into a payload, at or above a pointer to it.\<close>

lemma payload_write_ok:
  assumes inv: "heap_inv h xs lo hi" and l: "live h xs p n"
    and outside: "\<forall>i. \<not> (p \<le> i \<and> i < p + n) \<longrightarrow> m' i = mem h i"
  shows "heap_inv (h\<lparr>mem := m'\<rparr>) xs lo hi"
    and "\<And>q k. live h xs q k \<Longrightarrow> q = p \<or> back_ptr (mem h) q \<noteq> back_ptr (mem h) p \<Longrightarrow>
      live (h\<lparr>mem := m'\<rparr>) xs q k \<and> back_ptr m' q = back_ptr (mem h) q"
    and "\<And>q k i. live h xs q k \<Longrightarrow> back_ptr (mem h) q \<noteq> back_ptr (mem h) p \<Longrightarrow> q \<le> i \<Longrightarrow> i < q + k \<Longrightarrow> m' i = mem h i"
    and "\<And>i. \<not> (lo \<le> i \<and> i < hi) \<Longrightarrow> m' i = mem h i"
proof -
  have m: "m' i = mem h i" if "\<not> (p \<le> i \<and> i < p + n)" for i using outside that by blast
  obtain l where e: "0 < lo" "hi < 2 ^ 32" "head_block h = lo" "xs \<noteq> []" "tiled lo xs hi"
    "dseg (mem h) 0 lo xs l 0" "no_free_pair xs" by (rule heap_invE [OF inv])
  let ?b = "back_ptr (mem h) p"
  obtain s where s: "(?b, s, False) \<in> set xs" "?b + 20 \<le> p" "p + n \<le> ?b + 16 + s"
    using l unfolding live_def used_blocks_def by auto
  have "dseg m' 0 lo xs l 0"
  proof (subst dseg_headers)
    show "m' j = mem h j" if "header_byte xs j" for j
      using that payload_not_header [OF e(5) s(1), of j] s by (intro m) auto
  qed (rule e(6))
  then show "heap_inv (h\<lparr>mem := m'\<rparr>) xs lo hi" using e by (auto simp: heap_inv_def)
  have apart: "q + k \<le> ?b \<or> ?b + 16 + s + 20 \<le> q"
    if q: "live h xs q k" "back_ptr (mem h) q \<noteq> ?b" for q k
  proof -
    obtain t where "(back_ptr (mem h) q, t, False) \<in> set xs" "back_ptr (mem h) q + 20 \<le> q" "q + k \<le> back_ptr (mem h) q + 16 + t"
      using q(1) unfolding live_def used_blocks_def by auto
    then show ?thesis using tiled_disjoint [OF e(5) s(1)] q(2) by fastforce
  qed
  show "live (h\<lparr>mem := m'\<rparr>) xs q k \<and> back_ptr m' q = back_ptr (mem h) q"
    if q: "live h xs q k" "q = p \<or> back_ptr (mem h) q \<noteq> ?b" for q k
  proof -
    have c: "20 \<le> q" using q(1) unfolding live_def by auto
    have "\<not> (p \<le> i \<and> i < p + n)" if "q - 4 \<le> i" "i < q" for i
      using that q apart [OF q(1)] s c by (cases "q = p") auto
    then have "back_ptr m' q = back_ptr (mem h) q"
      unfolding back_ptr_def PTR_SIZE_def using c by (intro ld32_cong m) auto
    then show ?thesis using q(1) unfolding live_def by simp
  qed
  show "m' i = mem h i" if "live h xs q k" "back_ptr (mem h) q \<noteq> ?b" "q \<le> i" "i < q + k" for q k i
    using apart [OF that(1,2)] that(3,4) s by (intro m) linarith
  show "m' i = mem h i" if "\<not> (lo \<le> i \<and> i < hi)" for i
    using tiled_in [OF e(5) s(1)] s that by (intro m) linarith
qed

lemma poke_ok:
  assumes inv: "heap_inv h xs lo hi" and l: "live h xs p n" and i: "p \<le> i" "i < p + n"
  shows "heap_inv (poke i v h) xs lo hi"
    and "\<And>q k. live h xs q k \<Longrightarrow> q = p \<or> back_ptr (mem h) q \<noteq> back_ptr (mem h) p \<Longrightarrow>
      live (poke i v h) xs q k \<and> back_ptr (mem (poke i v h)) q = back_ptr (mem h) q"
proof -
  have "\<forall>j. \<not> (p \<le> j \<and> j < p + n) \<longrightarrow> ((mem h)(i := v)) j = mem h j" using i by auto
  note w = payload_write_ok [where m' = "(mem h)(i := v)", OF inv l this]
  show "heap_inv (poke i v h) xs lo hi" unfolding poke_def by (rule w(1))
  show "\<And>q k. live h xs q k \<Longrightarrow> q = p \<or> back_ptr (mem h) q \<noteq> back_ptr (mem h) p \<Longrightarrow>
      live (poke i v h) xs q k \<and> back_ptr (mem (poke i v h)) q = back_ptr (mem h) q"
    unfolding poke_def using w(2) by simp
qed

lemma heap_inv_cong: "mem h' = mem h \<Longrightarrow> head_block h' = head_block h \<Longrightarrow> heap_inv h' xs lo hi \<longleftrightarrow> heap_inv h xs lo hi"
  by (simp add: heap_inv_def)

text \<open>First fit: the block taken is the first free one, in the order of the list, that is large enough.\<close>

definition first_fit :: "nat \<Rightarrow> blk list \<Rightarrow> nat" where
  "first_fit n xs = (case find (\<lambda>(b, s, f). f \<and> n \<le> s) xs of None \<Rightarrow> 0 | Some (b, s, f) \<Rightarrow> b + 20)"

lemma kmalloc_first_fit:
  assumes inv: "heap_inv h xs lo hi" and sz: "0 < sz" "sz \<le> 2 ^ 31" and k: "kmalloc sz h = Some (p, h')"
  shows "p = first_fit (request sz) xs"
proof -
  obtain l where i: "0 < lo" "hi < 2 ^ 32" "head_block h = lo" "xs \<noteq> []" "tiled lo xs hi"
    "dseg (mem h) 0 lo xs l 0" "no_free_pair xs" by (rule heap_invE [OF inv])
  note req = request_bounds [OF sz]
  let ?req = "request sz"
  have walk: "kmalloc_walk ?req lo (mem h) = Some (case find (\<lambda>(b, s, f). f \<and> ?req \<le> s) xs of
     None \<Rightarrow> (0, mem h) | Some (b, s, f) \<Rightarrow> take_block b ?req (mem h))"
    using kmalloc_walk_find [OF i(6,5)] i(1) by blast
  show ?thesis
  proof (cases "find (\<lambda>(b, s, f). f \<and> ?req \<le> s) xs")
    case None
    then show ?thesis using walk k i(1,3) sz by (simp add: kmalloc_def req(3) Let_def first_fit_def)
  next
    case (Some x)
    then obtain ys zs where x: "xs = ys @ x # zs" "(\<lambda>(b, s, f). f \<and> ?req \<le> s) x" by (rule find_SomeE)
    obtain b s where b: "x = (b, s, True)" "?req \<le> s" using x(2) by (cases x) auto
    note xs = x(1) [unfolded b(1)]
    have r4: "4 \<le> ?req" using req(4) by simp
    obtain m' where "take_block b ?req (mem h) = (b + 20, m')"
      using take_block_seg [OF i(6) [unfolded xs] i(5) [unfolded xs] i(2) r4 b(2) req(2)] by blast
    then show ?thesis using walk Some k b(1) i(1,3) sz by (simp add: kmalloc_def req(3) Let_def first_fit_def)
  qed
qed

lemma live_cong: "mem h' = mem h \<Longrightarrow> live h' xs p n \<longleftrightarrow> live h xs p n"
  by (simp add: live_def)

text \<open>One call of \<open>kmalloc\<close>, as a client sees it.\<close>

lemma kmalloc_ok:
  assumes inv: "heap_inv h xs lo hi" and sz: "0 < sz" "sz \<le> 2 ^ 31"
  obtains p h' ys where "kmalloc sz h = Some (p, h')" "heap_inv h' ys lo hi"
    "p = 0 \<longleftrightarrow> (\<forall>(b, s, f) \<in> set xs. f \<longrightarrow> s < request sz)"
    "p \<noteq> 0 \<Longrightarrow> live h' ys p sz"
    "\<And>q n. p \<noteq> 0 \<Longrightarrow> live h xs q n \<Longrightarrow> back_ptr (mem h) q \<noteq> back_ptr (mem h') p \<and> (q + n \<le> p \<or> p + sz \<le> q)"
    "same_payloads (used_blocks xs) h h'" "used_blocks xs \<subseteq> used_blocks ys"
    "\<And>i. \<not> (lo \<le> i \<and> i < hi) \<Longrightarrow> mem h' i = mem h i"
    "p = 0 \<Longrightarrow> ys = xs"
    "p \<noteq> 0 \<Longrightarrow> heap_inv (kfree p h') xs lo hi"
proof (cases rule: kmalloc_cases [OF inv sz])
  case (1 h')
  have "heap_inv h' xs lo hi" using inv heap_inv_cong [OF 1(2,3)] by blast
  from that [OF 1(1) this] 1 show ?thesis by (simp add: same_payloads_def)
next
  case (2 ys b s zs h')
  have "\<forall>i. \<not> header_byte (ys @ zs) i \<and> \<not> (b \<le> i \<and> i < b + 16 + s) \<longrightarrow> mem h' i = mem h i" using 2(6) by blast
  note f = kmalloc_found [OF inv sz 2(1,2,4,5) this]
  let ?ys = "ys @ taken b s (request sz) @ zs"
  have b: "b + 20 \<noteq> 0" by simp
  have z: "\<not> (\<forall>(b, s, f) \<in> set xs. f \<longrightarrow> s < request sz)" using 2(1,2) by auto
  have i: "0 < lo" "tiled lo xs hi" "no_free_pair xs" using inv by (auto simp: heap_inv_def)
  note rt = released_taken [OF i(3) [unfolded 2(1)] 2(2)]
  have "heap_inv (kfree (b + 20) h') xs lo hi"
  proof (rule kfree_ok [OF 2(4) f(3)])
    fix ys' b' s' zs'
    assume a: "?ys = ys' @ (b', s', False) # zs'" "back_ptr (mem h') (b + 20) = b'"
      "heap_inv (kfree (b + 20) h') (released ys' b' s' zs') lo hi"
    have bb: "b' = b" using a(2) 2(5) by simp
    let ?s = "if request sz + 48 \<le> s then request sz else s"
    have e: "?ys = ys @ (b, ?s, False) # tl (taken b s (request sz)) @ zs"
      using rt(1) by (metis append_Cons)
    have t: "tiled lo ?ys hi" using 2(4) by (simp add: heap_inv_def)
    have "ys' = ys \<and> s' = ?s \<and> zs' = tl (taken b s (request sz)) @ zs"
      by (rule tiled_position [OF t [unfolded e], where g = False]) (use a(1) e bb in simp)
    then show "heap_inv (kfree (b + 20) h') xs lo hi" using a(3) bb rt(2) 2(1) by simp
  qed
  note rt' = this
  show ?thesis
  proof (rule that [OF 2(3,4)])
    show "b + 20 = 0 \<longleftrightarrow> (\<forall>(b, s, f) \<in> set xs. f \<longrightarrow> s < request sz)" using z b by blast
    show "back_ptr (mem h) q \<noteq> back_ptr (mem h') (b + 20) \<and> (q + n \<le> b + 20 \<or> b + 20 + sz \<le> q)"
      if "live h xs q n" for q n using f(4) [OF that] 2(5) by simp
    show "live h' ?ys (b + 20) sz" by (rule f(3))
    show "same_payloads (used_blocks xs) h h'" by (rule f(1))
    show "used_blocks xs \<subseteq> used_blocks ?ys" by (rule f(2))
    show "mem h' i = mem h i" if "\<not> (lo \<le> i \<and> i < hi)" for i by (rule f(5) [OF that])
    show "?ys = xs" if "b + 20 = 0" using that b by blast
    show "heap_inv (kfree (b + 20) h') xs lo hi" by (rule rt')
  qed
qed

lemma kmalloc_client:
  assumes "heap_ok h" "0 < n" "n \<le> 2 ^ 31"
  shows "\<exists>p h'. kmalloc n h = Some (p, h') \<and> heap_ok h' \<and>
      (p \<noteq> 0 \<longrightarrow> heap_owns h' p n \<and> (\<forall>q k. heap_owns h q k \<longrightarrow> heap_owner h q \<noteq> heap_owner h' p)) \<and>
      (\<forall>q k. heap_owns h q k \<longrightarrow> heap_owns h' q k \<and> heap_owner h' q = heap_owner h q \<and>
        (\<forall>i. q \<le> i \<and> i < q + k \<longrightarrow> mem h' i = mem h i))"
proof -
  obtain xs lo hi where inv: "heap_inv h xs lo hi" using assms(1) unfolding heap_ok_def by blast
  obtain p h' ys where k: "kmalloc n h = Some (p, h')" "heap_inv h' ys lo hi"
    "p \<noteq> 0 \<Longrightarrow> live h' ys p n"
    "\<And>q n'. p \<noteq> 0 \<Longrightarrow> live h xs q n' \<Longrightarrow> back_ptr (mem h) q \<noteq> back_ptr (mem h') p \<and> (q + n' \<le> p \<or> p + n \<le> q)"
    "same_payloads (used_blocks xs) h h'" "used_blocks xs \<subseteq> used_blocks ys"
    by (rule kmalloc_ok [OF inv assms(2,3)]) blast
  note o = heap_owns_iff [OF inv] and o' = heap_owns_iff [OF k(2)]
  note kept = live_kept [OF inv _ k(5,6)]
  have "heap_ok h'" using k(2) unfolding heap_ok_def by blast
  moreover have "p \<noteq> 0 \<longrightarrow> heap_owns h' p n \<and> (\<forall>q k. heap_owns h q k \<longrightarrow> heap_owner h q \<noteq> heap_owner h' p)"
    using k(3,4) unfolding o o' heap_owner_def by blast
  moreover have "\<forall>q k. heap_owns h q k \<longrightarrow> heap_owns h' q k \<and> heap_owner h' q = heap_owner h q \<and>
      (\<forall>i. q \<le> i \<and> i < q + k \<longrightarrow> mem h' i = mem h i)"
    using kept unfolding o o' heap_owner_def by blast
  ultimately show ?thesis using k(1) by blast
qed

lemma kfree_client:
  assumes "heap_ok h" "heap_owns h p n"
  shows "heap_ok (kfree p h) \<and>
      (\<forall>q k. heap_owns h q k \<and> heap_owner h q \<noteq> heap_owner h p \<longrightarrow> heap_owns (kfree p h) q k \<and>
         heap_owner (kfree p h) q = heap_owner h q \<and> (\<forall>i. q \<le> i \<and> i < q + k \<longrightarrow> mem (kfree p h) i = mem h i))"
proof -
  obtain xs lo hi where inv: "heap_inv h xs lo hi" using assms(1) unfolding heap_ok_def by blast
  note o = heap_owns_iff [OF inv]
  obtain ys b s zs where f: "xs = ys @ (b, s, False) # zs" "back_ptr (mem h) p = b"
    "heap_inv (kfree p h) (released ys b s zs) lo hi" "same_payloads (used_blocks (ys @ zs)) h (kfree p h)"
    by (rule kfree_ok [OF inv assms(2) [unfolded o]])
  have u: "used_blocks (ys @ zs) \<subseteq> used_blocks (released ys b s zs)" by (simp add: used_blocks_released)
  have "(back_ptr (mem h) q, t) \<in> used_blocks (ys @ zs)"
    if "back_ptr (mem h) q \<noteq> back_ptr (mem h) p" "(back_ptr (mem h) q, t) \<in> used_blocks xs" for q t
    using that f(1,2) by auto
  then have k: "live (kfree p h) (released ys b s zs) q m" "back_ptr (mem (kfree p h)) q = back_ptr (mem h) q"
    "q \<le> i \<Longrightarrow> i < q + m \<Longrightarrow> mem (kfree p h) i = mem h i"
    if "live h xs q m" "back_ptr (mem h) q \<noteq> back_ptr (mem h) p" for q m i
    using live_kept [OF inv that(1) f(4) u] that(2) by blast+
  have "heap_ok (kfree p h)" using f(3) unfolding heap_ok_def by blast
  then show ?thesis using k unfolding o heap_owns_iff [OF f(3)] heap_owner_def by blast
qed

interpretation kheap: byte_heap heap_ok heap_owns heap_owner mem kmalloc kfree poke "2 ^ 31"
proof
  fix h :: kmem and n :: nat
  assume "heap_ok h" "0 < n" "n \<le> 2 ^ 31"
  then show "\<exists>p h'. kmalloc n h = Some (p, h') \<and> heap_ok h' \<and>
      (p \<noteq> 0 \<longrightarrow> heap_owns h' p n \<and> (\<forall>q k. heap_owns h q k \<longrightarrow> heap_owner h q \<noteq> heap_owner h' p)) \<and>
      (\<forall>q k. heap_owns h q k \<longrightarrow> heap_owns h' q k \<and> heap_owner h' q = heap_owner h q \<and>
        (\<forall>i. q \<le> i \<and> i < q + k \<longrightarrow> mem h' i = mem h i))" by (rule kmalloc_client)
next
  fix h :: kmem and p n :: nat
  assume "heap_ok h" "heap_owns h p n"
  then show "heap_ok (kfree p h) \<and>
      (\<forall>q k. heap_owns h q k \<and> heap_owner h q \<noteq> heap_owner h p \<longrightarrow> heap_owns (kfree p h) q k \<and>
         heap_owner (kfree p h) q = heap_owner h q \<and> (\<forall>i. q \<le> i \<and> i < q + k \<longrightarrow> mem (kfree p h) i = mem h i))"
    by (rule kfree_client)
next
  fix h :: kmem and p n i :: nat and v :: u8
  assume a: "heap_ok h" "heap_owns h p n" "p \<le> i" "i < p + n"
  then obtain xs lo hi where inv: "heap_inv h xs lo hi" unfolding heap_ok_def by blast
  note o = heap_owns_iff [OF inv]
  note pk = poke_ok [OF inv a(2) [unfolded o] a(3,4), where v = v]
  show "heap_ok (poke i v h) \<and> mem (poke i v h) = (mem h)(i := v) \<and>
      (\<forall>q k. heap_owns h q k \<and> (q = p \<or> heap_owner h q \<noteq> heap_owner h p) \<longrightarrow>
        heap_owns (poke i v h) q k \<and> heap_owner (poke i v h) q = heap_owner h q)"
    using pk unfolding o heap_owns_iff [OF pk(1)] heap_owner_def by (auto simp: heap_ok_def poke_def)
next
  fix h :: kmem and p n q k :: nat
  assume a: "heap_ok h" "heap_owns h p n" "heap_owns h q k" "heap_owner h p \<noteq> heap_owner h q"
  then obtain xs lo hi where inv: "heap_inv h xs lo hi" unfolding heap_ok_def by blast
  obtain s t where "(back_ptr (mem h) p, s, False) \<in> set xs" "back_ptr (mem h) p + 20 \<le> p" "p + n \<le> back_ptr (mem h) p + 16 + s"
    "(back_ptr (mem h) q, t, False) \<in> set xs" "back_ptr (mem h) q + 20 \<le> q" "q + k \<le> back_ptr (mem h) q + 16 + t"
    using a(2,3) unfolding heap_owns_iff [OF inv] live_def used_blocks_def by auto
  moreover have "tiled lo xs hi" using inv by (simp add: heap_inv_def)
  ultimately show "p + n \<le> q \<or> q + k \<le> p" using tiled_disjoint a(4) unfolding heap_owner_def by fastforce
next
  fix h :: kmem and p n :: nat
  assume "heap_ok h" "heap_owns h p n"
  then show "p \<noteq> 0" unfolding heap_owns_def live_def by auto
qed

section \<open>Initialisation, alignment, accounting\<close>

lemma kmem_init_inv:
  assumes "0 < lo" "48 \<le> n" "lo + n + 8 < 2 ^ 32"
  shows "heap_inv (kmem_init lo n h) [(lo, ALIGN8 (n - 16), True)] lo (lo + 16 + ALIGN8 (n - 16))"
    and "lo + 16 + ALIGN8 (n - 16) = lo + n \<longleftrightarrow> 8 dvd n" "lo + n \<le> lo + 16 + ALIGN8 (n - 16)"
proof -
  have a: "ALIGN8 (n - 16) = (n - 16 + 7) div 8 * 8" using assms by (simp add: ALIGN8_def)
  have b: "32 \<le> (n - 16 + 7) div 8 * 8" "n - 16 \<le> (n - 16 + 7) div 8 * 8" "(n - 16 + 7) div 8 * 8 \<le> n - 16 + 7"
    using assms(2) by presburger+
  have m: "mem (kmem_init lo n h) = set_prev lo 0 (set_next lo 0 (set_free lo 1 (set_size lo (ALIGN8 (n - 16)) (mem h))))"
    "head_block (kmem_init lo n h) = lo"
    using assms by (simp_all add: kmem_init_def BLOCK_HEADER_SIZE_def)
  have "ALIGN8 (n - 16) < 2 ^ 32" using a b assms(3) by linarith
  then have "dseg (mem (kmem_init lo n h)) 0 lo [(lo, ALIGN8 (n - 16), True)] lo 0"
    unfolding m by (simp add: field_defs)
  moreover have "lo + 16 + ALIGN8 (n - 16) < 2 ^ 32" "4 \<le> ALIGN8 (n - 16)" using a b assms by linarith+
  ultimately show "heap_inv (kmem_init lo n h) [(lo, ALIGN8 (n - 16), True)] lo (lo + 16 + ALIGN8 (n - 16))"
    unfolding heap_inv_def m(2) using assms(1) by auto
  have "16 + (n - 16 + 7) div 8 * 8 = n \<longleftrightarrow> 8 dvd n" using assms(2) by presburger
  then show "lo + 16 + ALIGN8 (n - 16) = lo + n \<longleftrightarrow> 8 dvd n" unfolding a by linarith
  show "lo + n \<le> lo + 16 + ALIGN8 (n - 16)" unfolding a using b assms(2) by linarith
qed

lemma align_up:
  assumes "0 < al"
  shows "x \<le> (x + al - 1) div al * al" "(x + al - 1) div al * al \<le> x + al - 1" "al dvd (x + al - 1) div al * (al :: nat)"
proof -
  let ?y = "x + al - 1"
  have "?y div al * al + ?y mod al = ?y" "?y mod al < al" using assms by simp_all
  then show "x \<le> ?y div al * al" "?y div al * al \<le> ?y" using assms by linarith+
qed simp

lemma power_of_two_mask: "(2 :: nat) ^ k AND (2 ^ k - Suc 0) = 0"
proof -
  have "(2 :: nat) ^ k AND mask k = 0" by (simp flip: take_bit_eq_mask add: take_bit_eq_mod)
  then show ?thesis by (simp add: mask_eq_exp_minus_1)
qed

lemma kmalloc_aligned_ok:
  assumes inv: "heap_inv h xs lo hi" and sz: "0 < sz" "sz + 2 ^ k \<le> 2 ^ 30"
  shows "\<exists>p h' ys. kmalloc_aligned sz (2 ^ k) h = Some (p, h') \<and> heap_inv h' ys lo hi \<and>
    (p \<noteq> 0 \<longrightarrow> 2 ^ k dvd p \<and> live h' ys p sz \<and>
      (\<forall>q n. live h xs q n \<longrightarrow> back_ptr (mem h) q \<noteq> back_ptr (mem h') p)) \<and>
    (\<forall>q n. live h xs q n \<longrightarrow> live h' ys q n \<and> back_ptr (mem h') q = back_ptr (mem h) q \<and>
      (\<forall>i. q \<le> i \<and> i < q + n \<longrightarrow> mem h' i = mem h i))"
proof -
  let ?al = "2 ^ k :: nat"
  have a8: "ALIGN8 sz = (sz + 7) div 8 * 8" "sz \<le> (sz + 7) div 8 * 8" "(sz + 7) div 8 * 8 \<le> sz + 7"
  proof -
    show "ALIGN8 sz = (sz + 7) div 8 * 8" using sz by (simp add: ALIGN8_def)
    show "sz \<le> (sz + 7) div 8 * 8" "(sz + 7) div 8 * 8 \<le> sz + 7" by presburger+
  qed
  let ?n = "ALIGN8 sz + ?al + 20"
  have al0: "0 < ?al" by simp
  have n: "w32 (ALIGN8 sz + ?al + PTR_SIZE + BLOCK_HEADER_SIZE) = ?n" "0 < ?n" "?n \<le> 2 ^ 31"
    using a8 sz al0 by (simp_all add: PTR_SIZE_def BLOCK_HEADER_SIZE_def)
  define h1 where "h1 = unlock_heap (lock_heap h)"
  have h1: "mem h1 = mem h" "head_block h1 = head_block h" by (simp_all add: h1_def)
  have inv1: "heap_inv h1 xs lo hi" using inv heap_inv_cong [OF h1] by blast
  obtain r h2 ys where k: "kmalloc ?n h1 = Some (r, h2)" "heap_inv h2 ys lo hi" "r \<noteq> 0 \<Longrightarrow> live h2 ys r ?n"
    "\<And>q n. r \<noteq> 0 \<Longrightarrow> live h1 xs q n \<Longrightarrow> back_ptr (mem h1) q \<noteq> back_ptr (mem h2) r \<and> (q + n \<le> r \<or> r + ?n \<le> q)"
    "same_payloads (used_blocks xs) h1 h2" "used_blocks xs \<subseteq> used_blocks ys"
    by (rule kmalloc_ok [OF inv1 n(2,3)]) blast
  have kept: "live h2 ys q n" "back_ptr (mem h2) q = back_ptr (mem h) q" "q \<le> i \<Longrightarrow> i < q + n \<Longrightarrow> mem h2 i = mem h i"
    if "live h xs q n" for q n i
  proof -
    have "live h1 xs q n" using that live_cong [OF h1(1)] by simp
    from live_kept [OF inv1 this k(5,6)] h1 show "live h2 ys q n" "back_ptr (mem h2) q = back_ptr (mem h) q"
      "q \<le> i \<Longrightarrow> i < q + n \<Longrightarrow> mem h2 i = mem h i" by simp_all
  qed
  show ?thesis
  proof (cases "r = 0")
    case True
    have "kmalloc_aligned sz ?al h = Some (0, h2)"
      using k(1) sz(1) True unfolding kmalloc_aligned_def Let_def n(1) h1_def [symmetric]
      by (simp add: power_of_two_mask)
    then show ?thesis using k(2) kept by blast
  next
    case False
    let ?p = "(r + 4 + ?al - 1) div ?al * ?al" and ?b = "back_ptr (mem h2) r"
    obtain s where s: "(?b, s) \<in> used_blocks ys" "?b + 20 \<le> r" "r + ?n \<le> ?b + 16 + s"
      using k(3) [OF False] unfolding live_def by blast
    have "tiled lo ys hi" "hi < 2 ^ 32" "0 < lo" using k(2) by (auto simp: heap_inv_def)
    then have b: "?b + 16 + s < 2 ^ 32" "0 < ?b"
      using tiled_in [of lo ys hi ?b s False] s(1) unfolding used_blocks_def by auto
    note up = align_up [OF al0, of "r + 4"]
    have p: "r + 4 \<le> ?p" "?p + sz + 16 \<le> r + ?n" using up a8 by linarith+
    have w: "w32 (r + PTR_SIZE + ?al - 1) = r + 4 + ?al - 1" using s b p a8 by (simp add: PTR_SIZE_def)
    define h3 where "h3 = unlock_heap ((lock_heap h2)\<lparr>mem := set_back_ptr ?p ?b (mem h2)\<rparr>)"
    have res: "kmalloc_aligned sz ?al h = Some (?p, h3)"
      using k(1) sz(1) False unfolding kmalloc_aligned_def Let_def n(1) h1_def [symmetric] h3_def
      by (simp add: power_of_two_mask w [simplified])
    have m3: "mem h3 = set_back_ptr ?p ?b (mem h2)" "head_block h3 = head_block h2" by (simp_all add: h3_def)
    have fr: "mem h3 i = mem h2 i" if "\<not> (?p - 4 \<le> i \<and> i < ?p)" for i
      unfolding m3 set_back_ptr_def PTR_SIZE_def using that p(1) by (intro st32_frame) linarith
    obtain l where l: "dseg (mem h2) 0 lo ys l 0" using k(2) by (auto simp: heap_inv_def)
    have "dseg (mem h3) 0 lo ys l 0"
    proof (subst dseg_headers)
      show "mem h3 j = mem h2 j" if "header_byte ys j" for j
      proof (rule fr)
        have "(?b, s, False) \<in> set ys" using s(1) by (simp add: used_blocks_def)
        from payload_not_header [OF \<open>tiled lo ys hi\<close> this, of j] that
        show "\<not> (?p - 4 \<le> j \<and> j < ?p)" using s(2,3) p by linarith
      qed
    qed (rule l)
    then have inv3: "heap_inv h3 ys lo hi" using k(2) m3(2) unfolding heap_inv_def by auto
    have bp: "back_ptr (mem h3) ?p = ?b" using b unfolding m3 by simp
    have lp: "live h3 ys ?p sz" unfolding live_def bp using s p by (intro exI [of _ ?b] exI [of _ s]) linarith
    have oth: "live h3 ys q n" "back_ptr (mem h3) q = back_ptr (mem h) q" "q \<le> i \<Longrightarrow> i < q + n \<Longrightarrow> mem h3 i = mem h i"
      "back_ptr (mem h) q \<noteq> ?b" if q: "live h xs q n" for q n i
    proof -
      let ?c = "back_ptr (mem h) q"
      show ne: "?c \<noteq> ?b" using k(4) [OF False, of q n] live_cong [OF h1(1)] q h1(1) by simp
      obtain t where t: "(?c, t) \<in> used_blocks ys" "?c + 20 \<le> q" "q + n \<le> ?c + 16 + t"
        using kept(1,2) [OF q] unfolding live_def by auto
      have d: "?c + 16 + t \<le> ?b \<or> ?b + 16 + s \<le> ?c"
        using tiled_disjoint [OF \<open>tiled lo ys hi\<close>, of ?c t False ?b s False] t(1) s(1) ne
        by (auto simp: used_blocks_def)
      have same: "mem h3 i = mem h2 i" if "q - 4 \<le> i" "i < q + n \<or> i < q" for i
        by (rule fr) (use that d t s p in linarith)
      then have "ld32 (mem h3) (q - 4) = ld32 (mem h2) (q - 4)" using t(2) by (intro ld32_cong) auto
      then show e: "back_ptr (mem h3) q = ?c" using kept(2) [OF q] by (simp add: back_ptr_def PTR_SIZE_def)
      show "live h3 ys q n" unfolding live_def e using t by blast
      show "mem h3 i = mem h i" if "q \<le> i" "i < q + n" using same [of i] that kept(3) [OF q that] by simp
    qed
    show ?thesis
      by (intro exI [of _ ?p] exI [of _ h3] exI [of _ ys], unfold bp) (use res inv3 up(3) lp oth in blast)
  qed
qed

lemma dseg_free_flags:
  "dseg m p a xs l n \<Longrightarrow> (b, s, f) \<in> set xs \<Longrightarrow> blk_free m b \<noteq> 0 \<longleftrightarrow> f"
  by (induction m p a xs l n rule: dseg.induct) auto

lemma sum_sizes:
  "tiled a xs e \<Longrightarrow> sum_list (map (\<lambda>(b, s, f). s) (filter (\<lambda>(b, s, f). P b) xs)) +
     sum_list (map (\<lambda>(b, s, f). s) (filter (\<lambda>(b, s, f). \<not> P b) xs)) + 16 * length xs = e - a"
proof (induction a xs e rule: tiled.induct)
  case (2 a b s f xs e)
  then show ?case using tiled_le [of "b + 16 + s" xs e] by auto
qed simp

text \<open>Two faults of the code: a request near \<open>2 ^ 32\<close>, and growing in place.\<close>

lemma kmalloc_wraps:
  assumes "heap_inv h [(lo, s, True)] lo hi" "52 \<le> s"
  shows "\<exists>h'. kmalloc (2 ^ 32 - 1) h = Some (lo + 20, h') \<and>
    heap_inv h' [(lo, 4, False), (lo + 20, s - 20, True)] lo hi"
proof -
  obtain l where i: "0 < lo" "hi < 2 ^ 32" "head_block h = lo" "tiled lo [(lo, s, True)] hi"
    "dseg (mem h) 0 lo [(lo, s, True)] l 0" by (rule heap_invE [OF assms(1)])
  have w: "w32 (ALIGN8 (2 ^ 32 - 1) + PTR_SIZE) = 4" by (simp add: ALIGN8_def PTR_SIZE_def w32_def)
  have walk: "kmalloc_walk 4 lo (mem h) = Some (take_block lo 4 (mem h))"
    using kmalloc_walk_find [OF i(5,4), of 4] i(1) assms(2) by simp
  obtain l' m' where t: "take_block lo 4 (mem h) = (lo + 20, m')" "dseg m' 0 lo ([] @ taken lo s 4 @ []) l' 0"
    "tiled lo ([] @ taken lo s 4 @ []) hi"
  proof (rule take_block_seg [of "mem h" lo "[]" lo s "[]" l hi 4])
    show "dseg (mem h) 0 lo ([] @ (lo, s, True) # []) l 0" using i(5) by simp
    show "tiled lo ([] @ (lo, s, True) # []) hi" using i(4) by simp
    show "hi < 2 ^ 32" by (rule i(2))
  qed (use assms(2) that in auto)
  have tk: "taken lo s 4 = [(lo, 4, False), (lo + 20, s - 20, True)]" using assms(2) by (simp add: taken_def)
  let ?h = "unlock_heap ((lock_heap h)\<lparr>mem := m'\<rparr>)"
  have "kmalloc (2 ^ 32 - 1) h = Some (lo + 20, ?h)"
    using walk t(1) i(1,3) w unfolding kmalloc_def Let_def by simp
  moreover have "heap_inv ?h (taken lo s 4) lo hi"
    using t(2,3) i(1-3) tk unfolding heap_inv_def by auto
  ultimately show ?thesis using tk by auto
qed

lemma krealloc_in_place:
  assumes "heap_inv h (ys @ (b, s, False) # (c, t, g) # zs) lo hi" "back_ptr (mem h) p = b" "b + 20 \<le> p"
  shows "\<exists>h'. krealloc p s h = Some (p, h') \<and> mem h' = mem h \<and> c + 4 \<le> p + s"
proof -
  obtain l where i: "0 < lo" "tiled lo (ys @ (b, s, False) # (c, t, g) # zs) hi"
    "dseg (mem h) 0 lo (ys @ (b, s, False) # (c, t, g) # zs) l 0" by (rule heap_invE [OF assms(1)])
  obtain k where k: "dseg (mem h) k b ((b, s, False) # (c, t, g) # zs) l 0" "4 \<le> s"
    "tiled (b + 16 + s) ((c, t, g) # zs) hi" by (rule dseg_split [OF i(3,2)])
  have "krealloc p s h = Some (p, unlock_heap (lock_heap h))"
    using k(1,2) assms(2,3) by (simp add: krealloc_def Let_def)
  then show ?thesis using k(3) assms(3) by simp
qed

section \<open>Properties\<close>

text \<open>A heap for the examples: 64 KiB at address 4096, no hooks.\<close>

definition sample_heap :: kmem where
  "sample_heap = kmem_init 4096 65536 \<lparr>mem = (\<lambda>_. 0), head_block = 0, total_heap_bytes = 0,
     kmem_lock_hook = NULL, kmem_unlock_hook = NULL, hook_calls = []\<rparr>"

lemma sample_heap_inv: "heap_inv sample_heap [(4096, 65520, True)] 4096 69632"
  using kmem_init_inv(1) [of 4096 65536] unfolding sample_heap_def by (simp add: ALIGN8_def)

lemma sample_alloc:
  "\<exists>h'. kmalloc 24 sample_heap = Some (4116, h') \<and> heap_inv h' [(4096, 28, False), (4140, 65476, True)] 4096 69632 \<and>
    live h' [(4096, 28, False), (4140, 65476, True)] 4116 24"
proof -
  have r: "request 24 = 28" by (simp add: request_def ALIGN8_def)
  show ?thesis
  proof (rule kmalloc_cases [OF sample_heap_inv, of 24])
    fix h' assume "\<forall>(b, s, f) \<in> set [(4096, 65520, True)]. f \<longrightarrow> s < request 24"
    then show ?thesis using r by simp
  next
    fix ys b s zs h'
    assume a: "[(4096, 65520, True)] = ys @ (b, s, True) # zs" "kmalloc 24 sample_heap = Some (b + 20, h')"
      "heap_inv h' (ys @ taken b s (request 24) @ zs) 4096 69632" "back_ptr (mem h') (b + 20) = b"
    have b: "b = 4096" "s = 65520" "ys = []" "zs = []" using a(1) by (auto simp: Cons_eq_append_conv)
    have "taken 4096 65520 28 = [(4096, 28, False), (4140, 65476, True)]" by (simp add: taken_def)
    then show ?thesis using a(2-4) unfolding b r live_def by auto
  qed simp_all
qed

text \<open>
  C1: the heap is a store of objects.  Whatever sequence of requests, releases and writes a client
  makes on a heap set up by kmem_init, every call returns, and after it every object the client
  holds still has its size and exactly the bytes the client last wrote there, the objects being
  pairwise disjoint blocks.
\<close>
theorem kmem_objects_preserved:
  assumes "0 < lo" "48 \<le> n" "lo + n + 8 < 2 ^ 32"
  shows "\<exists>h' objs. run_client mem kmalloc kfree poke (2 ^ 31) ops (kmem_init lo n h, Map.empty) = Some (h', objs) \<and>
    holds_objects heap_ok heap_owns heap_owner mem h' objs"
proof -
  have "heap_ok (kmem_init lo n h)" using kmem_init_inv(1) [OF assms] unfolding heap_ok_def by blast
  then have "kheap.holds (kmem_init lo n h) Map.empty" by (simp add: holds_objects_def)
  then show ?thesis by (rule kheap.run_client_holds)
qed

theorem kmem_objects_preserved_witness:
  "\<exists>h' objs. run_client mem kmalloc kfree poke (2 ^ 31) [Alloc 24, Alloc 8, Release 4116, Alloc 100]
     (kmem_init 4096 65536 sample_heap, Map.empty) = Some (h', objs) \<and>
     holds_objects heap_ok heap_owns heap_owner mem h' objs"
  by (rule kmem_objects_preserved) simp_all

text \<open>
  C2: kmalloc on a well-formed heap is first fit: it returns NULL exactly when no free block is
  large enough, and otherwise a pointer into the first block of the list that is free and large enough,
  with \<open>sz\<close> bytes of its own, disjoint from everything allocated before; the block list stays well
  formed and no byte outside the region and no payload byte of a used block changes.
\<close>
theorem kmalloc_correct:
  assumes "heap_inv h xs lo hi" "0 < sz" "sz \<le> 2 ^ 31"
  shows "\<exists>p h' ys. kmalloc sz h = Some (p, h') \<and> heap_inv h' ys lo hi \<and>
    p = first_fit (request sz) xs \<and>
    (p = 0 \<longleftrightarrow> (\<forall>(b, s, f) \<in> set xs. f \<longrightarrow> s < request sz)) \<and>
    (p \<noteq> 0 \<longrightarrow> live h' ys p sz \<and>
      (\<forall>q n. live h xs q n \<longrightarrow> live h' ys q n \<and> (q + n \<le> p \<or> p + sz \<le> q))) \<and>
    same_payloads (used_blocks xs) h h' \<and> (\<forall>i. \<not> (lo \<le> i \<and> i < hi) \<longrightarrow> mem h' i = mem h i)"
proof -
  obtain p h' ys where k: "kmalloc sz h = Some (p, h')" "heap_inv h' ys lo hi"
    "p = 0 \<longleftrightarrow> (\<forall>(b, s, f) \<in> set xs. f \<longrightarrow> s < request sz)" "p \<noteq> 0 \<Longrightarrow> live h' ys p sz"
    "\<And>q n. p \<noteq> 0 \<Longrightarrow> live h xs q n \<Longrightarrow> back_ptr (mem h) q \<noteq> back_ptr (mem h') p \<and> (q + n \<le> p \<or> p + sz \<le> q)"
    "same_payloads (used_blocks xs) h h'" "used_blocks xs \<subseteq> used_blocks ys"
    "\<And>i. \<not> (lo \<le> i \<and> i < hi) \<Longrightarrow> mem h' i = mem h i"
    by (rule kmalloc_ok [OF assms]) blast
  have "live h' ys q n" if "live h xs q n" for q n using live_kept(1) [OF assms(1) that k(6,7)] .
  then show ?thesis using k kmalloc_first_fit [OF assms k(1)] by (intro exI [of _ p] exI [of _ h'] exI [of _ ys]) blast
qed

theorem kmalloc_correct_witness:
  "\<exists>p h' ys. kmalloc 24 sample_heap = Some (p, h') \<and> heap_inv h' ys 4096 69632 \<and>
    p = first_fit (request 24) [(4096, 65520, True)] \<and>
    (p = 0 \<longleftrightarrow> (\<forall>(b, s, f) \<in> set [(4096, 65520, True)]. f \<longrightarrow> s < request 24)) \<and>
    (p \<noteq> 0 \<longrightarrow> live h' ys p 24 \<and>
      (\<forall>q n. live sample_heap [(4096, 65520, True)] q n \<longrightarrow> live h' ys q n \<and> (q + n \<le> p \<or> p + 24 \<le> q))) \<and>
    same_payloads (used_blocks [(4096, 65520, True)]) sample_heap h' \<and>
    (\<forall>i. \<not> (4096 \<le> i \<and> i < 69632) \<longrightarrow> mem h' i = mem sample_heap i)"
  using kmalloc_correct [OF sample_heap_inv, of 24] by simp

text \<open>
  C3: kfree of a live pointer coalesces and keeps the heap well formed (with no two free
  neighbours), gives up exactly the block of that pointer, and changes no payload byte of another
  used block and no byte outside the region; kfree of what kmalloc returned restores the block
  list of before.
\<close>
theorem kfree_correct:
  assumes "heap_inv h xs lo hi"
  shows "(\<forall>p n. live h xs p n \<longrightarrow> (\<exists>ys. heap_inv (kfree p h) ys lo hi \<and>
      used_blocks ys = {(b, s) \<in> used_blocks xs. b \<noteq> back_ptr (mem h) p} \<and>
      same_payloads (used_blocks ys) h (kfree p h) \<and>
      (\<forall>i. \<not> (lo \<le> i \<and> i < hi) \<longrightarrow> mem (kfree p h) i = mem h i))) \<and>
    (\<forall>sz p h'. 0 < sz \<and> sz \<le> 2 ^ 31 \<and> kmalloc sz h = Some (p, h') \<and> p \<noteq> 0 \<longrightarrow> heap_inv (kfree p h') xs lo hi)"
proof (intro conjI allI impI)
  fix p n assume l: "live h xs p n"
  obtain ys b s zs where f: "xs = ys @ (b, s, False) # zs" "back_ptr (mem h) p = b"
    "heap_inv (kfree p h) (released ys b s zs) lo hi" "same_payloads (used_blocks (ys @ zs)) h (kfree p h)"
    "\<And>i. \<not> (lo \<le> i \<and> i < hi) \<Longrightarrow> mem (kfree p h) i = mem h i"
    by (rule kfree_ok [OF assms l]) (rule that)
  have t: "tiled lo (ys @ (b, s, False) # zs) hi" using assms f(1) by (auto simp: heap_inv_def)
  have "used_blocks (ys @ zs) = {(c, v) \<in> used_blocks xs. c \<noteq> b}"
  proof -
    obtain k where "tiled lo ys b" "tiled (b + 16 + s) zs hi" using t by (auto simp: tiled_append)
    then have "\<forall>(c, v) \<in> used_blocks (ys @ zs). c \<noteq> b"
      using tiled_in [of lo ys b] tiled_in [of "b + 16 + s" zs hi] by (fastforce simp: used_blocks_def)
    then show ?thesis using f(1) by auto
  qed
  then show "\<exists>ys. heap_inv (kfree p h) ys lo hi \<and>
      used_blocks ys = {(b, s) \<in> used_blocks xs. b \<noteq> back_ptr (mem h) p} \<and>
      same_payloads (used_blocks ys) h (kfree p h) \<and>
      (\<forall>i. \<not> (lo \<le> i \<and> i < hi) \<longrightarrow> mem (kfree p h) i = mem h i)"
    using f(2-5) by (intro exI [of _ "released ys b s zs"]) (simp add: used_blocks_released)
next
  fix sz p h' assume a: "0 < sz \<and> sz \<le> 2 ^ 31 \<and> kmalloc sz h = Some (p, h') \<and> p \<noteq> 0"
  show "heap_inv (kfree p h') xs lo hi" by (rule kmalloc_ok [OF assms]) (use a in auto)
qed

theorem kfree_correct_witness:
  "\<exists>h' ys. kmalloc 24 sample_heap = Some (4116, h') \<and>
     heap_inv (kfree 4116 h') [(4096, 65520, True)] 4096 69632 \<and>
     heap_inv (kfree 4116 h') ys 4096 69632 \<and>
     used_blocks ys = {(b, s) \<in> used_blocks [(4096, 28, False), (4140, 65476, True)]. b \<noteq> back_ptr (mem h') 4116}"
proof -
  obtain h' where a: "kmalloc 24 sample_heap = Some (4116, h')"
    "heap_inv h' [(4096, 28, False), (4140, 65476, True)] 4096 69632"
    "live h' [(4096, 28, False), (4140, 65476, True)] 4116 24" using sample_alloc by blast
  have "heap_inv (kfree 4116 h') [(4096, 65520, True)] 4096 69632"
    by (rule conjunct2 [OF kfree_correct [OF sample_heap_inv], rule_format, of 24]) (simp add: a(1))
  then show ?thesis using conjunct1 [OF kfree_correct [OF a(2)]] a by blast
qed

text \<open>
  kmalloc_aligned returns a multiple of the alignment with \<open>sz\<close> usable bytes inside the block
  it took, or NULL; its back pointer is the block's, so that kfree takes the pointer; earlier
  allocations are untouched.
\<close>
theorem kmalloc_aligned_correct:
  "heap_inv h xs lo hi \<Longrightarrow> 0 < sz \<Longrightarrow> sz + 2 ^ k \<le> 2 ^ 30 \<Longrightarrow>
   \<exists>p h' ys. kmalloc_aligned sz (2 ^ k) h = Some (p, h') \<and> heap_inv h' ys lo hi \<and>
    (p \<noteq> 0 \<longrightarrow> 2 ^ k dvd p \<and> live h' ys p sz \<and>
      (\<forall>q n. live h xs q n \<longrightarrow> back_ptr (mem h) q \<noteq> back_ptr (mem h') p)) \<and>
    (\<forall>q n. live h xs q n \<longrightarrow> live h' ys q n \<and> back_ptr (mem h') q = back_ptr (mem h) q \<and>
      (\<forall>i. q \<le> i \<and> i < q + n \<longrightarrow> mem h' i = mem h i))"
  by (rule kmalloc_aligned_ok)

theorem kmalloc_aligned_correct_witness:
  "\<exists>p h' ys. kmalloc_aligned 100 (2 ^ 6) sample_heap = Some (p, h') \<and> heap_inv h' ys 4096 69632 \<and>
    (p \<noteq> 0 \<longrightarrow> 2 ^ 6 dvd p \<and> live h' ys p 100 \<and>
      (\<forall>q n. live sample_heap [(4096, 65520, True)] q n \<longrightarrow> back_ptr (mem sample_heap) q \<noteq> back_ptr (mem h') p)) \<and>
    (\<forall>q n. live sample_heap [(4096, 65520, True)] q n \<longrightarrow> live h' ys q n \<and>
      back_ptr (mem h') q = back_ptr (mem sample_heap) q \<and>
      (\<forall>i. q \<le> i \<and> i < q + n \<longrightarrow> mem h' i = mem sample_heap i))"
  by (rule kmalloc_aligned_correct [OF sample_heap_inv]) simp_all

text \<open>
  The accounting adds up: on a well-formed heap the free and the used bytes reported and one
  header per block are together exactly the region.
\<close>
theorem kmem_accounting:
  assumes "heap_inv h xs lo hi"
  shows "\<exists>f h1 u h2. kmem_get_free_bytes h = Some (f, h1) \<and> kmem_get_used_bytes h = Some (u, h2) \<and>
    f + u + 16 * length xs = hi - lo \<and> mem h1 = mem h \<and> mem h2 = mem h"
proof -
  obtain l where i: "0 < lo" "hi < 2 ^ 32" "head_block h = lo" "tiled lo xs hi" "dseg (mem h) 0 lo xs l 0"
    by (rule heap_invE [OF assms])
  let ?free = "sum_list (map (\<lambda>(b, s, f). s) (filter (\<lambda>(b, s, f). blk_free (mem h) b \<noteq> 0) xs))"
  let ?used = "sum_list (map (\<lambda>(b, s, f). s) (filter (\<lambda>(b, s, f). \<not> blk_free (mem h) b \<noteq> 0) xs))"
  have s: "?free + ?used + 16 * length xs = hi - lo" using sum_sizes [OF i(4), of "\<lambda>b. blk_free (mem h) b \<noteq> 0"] .
  then have b: "?free < 2 ^ 32" "?used < 2 ^ 32" using i(2) by linarith+
  have "sum_blocks (\<lambda>m b. blk_free m b \<noteq> 0) (mem h) lo 0 = Some ?free"
    using sum_blocks_sum [OF i(5,4), of 0 "\<lambda>m b. blk_free m b \<noteq> 0"] i(1) b(1) by simp
  moreover have "sum_blocks (\<lambda>m b. blk_free m b = 0) (mem h) lo 0 = Some ?used"
    using sum_blocks_sum [OF i(5,4), of 0 "\<lambda>m b. blk_free m b = 0"] i(1) b(2) by simp
  ultimately show ?thesis using s i(3) by (simp add: kmem_get_free_bytes_def kmem_get_used_bytes_def Let_def)
qed

theorem kmem_accounting_witness:
  "\<exists>f h1 u h2. kmem_get_free_bytes sample_heap = Some (f, h1) \<and> kmem_get_used_bytes sample_heap = Some (u, h2) \<and>
    f + u + 16 * length [(4096 :: nat, 65520 :: nat, True)] = 69632 - 4096 \<and> mem h1 = mem sample_heap \<and> mem h2 = mem sample_heap"
  by (rule kmem_accounting [OF sample_heap_inv])

text \<open>
  a request of \<open>2 ^ 32 - 1\<close> bytes succeeds.  Rounding up wraps to 0, and the pointer returned is
  the address of the header of the next block: there is no byte of payload.
\<close>
theorem kmalloc_huge_request_succeeds:
  "heap_inv h [(lo, s, True)] lo hi \<Longrightarrow> 52 \<le> s \<Longrightarrow>
   \<exists>h'. kmalloc (2 ^ 32 - 1) h = Some (lo + 20, h') \<and> heap_inv h' [(lo, 4, False), (lo + 20, s - 20, True)] lo hi"
  by (rule kmalloc_wraps)

theorem kmalloc_huge_request_succeeds_witness:
  "\<exists>h'. kmalloc (2 ^ 32 - 1) sample_heap = Some (4096 + 20, h') \<and>
     heap_inv h' [(4096, 4, False), (4096 + 20, 65520 - 20, True)] 4096 69632"
  by (rule kmalloc_huge_request_succeeds [OF sample_heap_inv]) simp

end
