(* ===== verification/Kprintf.thy ===== *)
theory Kprintf imports Kstring begin

text \<open>
  The formatted printer of freestanding/kprintf.c.  The variable arguments are a list; taking one
  that is missing or of another kind is undefined behaviour, and so is reading the format past the
  end of its object.  \<open>kvsnprintf\<close> is the loop over the format with every write to the buffer
  checked; \<open>render\<close> is the text it is meant to produce.
\<close>

section \<open>The code\<close>

datatype va = IntArg int | StrArg "u8 list cptr" | PtrArg nat

definition fmt_number :: "nat \<Rightarrow> nat \<Rightarrow> bool \<Rightarrow> bool \<Rightarrow> u8 list \<Rightarrow> (nat \<times> u8 list) option" where
  "fmt_number val base is_signed uppercase out_buf =
     (let digits = (if uppercase then digits_upper else digits_lower);
          is_neg = (is_signed \<and> val \<ge> 2 ^ 63) in
      do {
        val' \<leftarrow> (if is_neg then map_option nat (ck64 (- (int val - 2 ^ 64))) else Some val);
        (temp, temp_pos) \<leftarrow>
          (if val' = 0 then map_option (\<lambda>t. (t, 1)) (wr (replicate 68 0) 0 48)
           else digit_loop digits base val' (replicate 68 0) 0);
        (b1, out_pos) \<leftarrow> (if is_neg then map_option (\<lambda>b. (b, 1)) (wr out_buf 0 45) else Some (out_buf, 0));
        (b2, out_pos') \<leftarrow> emit_reversed temp b1 out_pos temp_pos;
        b3 \<leftarrow> wr b2 out_pos' 0;
        Some (out_pos', b3)
      })"

text \<open>The three output loops; \<open>lim\<close> is \<open>max_len - 1\<close> and \<open>k\<close> the blanks still wanted.\<close>

fun pad_spaces :: "nat \<Rightarrow> nat \<Rightarrow> u8 list \<Rightarrow> nat \<Rightarrow> (u8 list \<times> nat) option" where
  "pad_spaces lim 0 buf pos = Some (buf, pos)"
| "pad_spaces lim (Suc k) buf pos =
     (if pos < lim then do { b \<leftarrow> wr buf pos 32; pad_spaces lim k b (pos + 1) } else Some (buf, pos))"

fun put_string :: "nat \<Rightarrow> u8 list \<Rightarrow> u8 list \<Rightarrow> nat \<Rightarrow> (u8 list \<times> nat) option" where
  "put_string lim [] buf pos = None"
| "put_string lim (c # cs) buf pos =
     (if c \<noteq> 0 \<and> pos < lim then do { b \<leftarrow> wr buf pos c; put_string lim cs b (pos + 1) } else Some (buf, pos))"

fun put_bytes :: "nat \<Rightarrow> u8 list \<Rightarrow> u8 list \<Rightarrow> nat \<Rightarrow> (u8 list \<times> nat) option" where
  "put_bytes lim [] buf pos = Some (buf, pos)"
| "put_bytes lim (c # cs) buf pos =
     (if pos < lim then do { b \<leftarrow> wr buf pos c; put_bytes lim cs b (pos + 1) } else Some (buf, pos))"

definition put_number :: "nat \<Rightarrow> bool \<Rightarrow> int \<Rightarrow> nat \<Rightarrow> u8 list \<Rightarrow> u8 list \<Rightarrow> nat \<Rightarrow> (u8 list \<times> nat) option" where
  "put_number lim left_align width num_len num_buf buf pos = do {
     (b1, p1) \<leftarrow> (if \<not> left_align \<and> width > int num_len then pad_spaces lim (nat (width - int num_len)) buf pos else Some (buf, pos));
     (b2, p2) \<leftarrow> put_bytes lim (take num_len num_buf) b1 p1;
     (if left_align \<and> width > int num_len then pad_spaces lim (nat (width - int num_len)) b2 p2 else Some (b2, p2))
   }"

definition null_text :: "u8 list" where
  "null_text = [40, 110, 117, 108, 108, 41, 0]"

definition convert :: "u8 \<Rightarrow> bool \<Rightarrow> int \<Rightarrow> va list \<Rightarrow> nat \<Rightarrow> u8 list \<Rightarrow> nat \<Rightarrow> (va list \<times> u8 list \<times> nat) option" where
  "convert c left_align width args lim buf pos =
     (if c = 37 then do { b \<leftarrow> wr buf pos 37; Some (args, b, pos + 1) }
      else if c = 99 then
        (case args of IntArg v # as \<Rightarrow> do { b \<leftarrow> wr buf pos (word_of_int v); Some (as, b, pos + 1) } | _ \<Rightarrow> None)
      else if c = 115 then
        (case args of StrArg s0 # as \<Rightarrow> do {
           let s = (case s0 of NULL \<Rightarrow> null_text | Ptr s \<Rightarrow> s);
           slen \<leftarrow> strlen_loop s 0;
           let n = wrap32 (int slen);
           (b1, p1) \<leftarrow> (if \<not> left_align \<and> width > n then pad_spaces lim (nat (width - n)) buf pos else Some (buf, pos));
           (b2, p2) \<leftarrow> put_string lim s b1 p1;
           (b3, p3) \<leftarrow> (if left_align \<and> width > n then pad_spaces lim (nat (width - n)) b2 p2 else Some (b2, p2));
           Some (as, b3, p3)
         } | _ \<Rightarrow> None)
      else if c = 100 \<or> c = 105 then
        (case args of IntArg v # as \<Rightarrow> do {
           (num_len, num_buf) \<leftarrow> fmt_number (nat (v mod 2 ^ 64)) 10 True False (replicate 70 0);
           (b, p) \<leftarrow> put_number lim left_align width num_len num_buf buf pos;
           Some (as, b, p)
         } | _ \<Rightarrow> None)
      else if c = 117 then
        (case args of IntArg v # as \<Rightarrow> do {
           (num_len, num_buf) \<leftarrow> fmt_number (nat (v mod 2 ^ 32)) 10 False False (replicate 70 0);
           (b, p) \<leftarrow> put_number lim left_align width num_len num_buf buf pos;
           Some (as, b, p)
         } | _ \<Rightarrow> None)
      else if c = 120 \<or> c = 88 then
        (case args of IntArg v # as \<Rightarrow> do {
           (num_len, num_buf) \<leftarrow> fmt_number (nat (v mod 2 ^ 32)) 16 False (c = 88) (replicate 70 0);
           (b, p) \<leftarrow> put_bytes lim (take num_len num_buf) buf pos;
           Some (as, b, p)
         } | _ \<Rightarrow> None)
      else if c = 112 then
        (case args of PtrArg v # as \<Rightarrow> do {
           (b0, p0) \<leftarrow> (if pos < lim - 1 then do { b \<leftarrow> wr buf pos 48; b' \<leftarrow> wr b (pos + 1) 120; Some (b', pos + 2) }
                        else Some (buf, pos));
           (num_len, num_buf) \<leftarrow> fmt_number v 16 False False (replicate 70 0);
           (b, p) \<leftarrow> put_bytes lim (take num_len num_buf) b0 p0;
           Some (as, b, p)
         } | _ \<Rightarrow> None)
      else do { b \<leftarrow> wr buf pos c; Some (args, b, pos + 1) })"

text \<open>
  After the percent sign (and a first character that is not the terminator): the flag, the width
  and the conversion character, with the rest of the format.
\<close>

fun parse_width :: "u8 list \<Rightarrow> int \<Rightarrow> (int \<times> u8 list) option" where
  "parse_width [] width = None"
| "parse_width (c # cs) width =
     (if 48 \<le> c \<and> c \<le> 57 then do {
        m \<leftarrow> ck32 (width * 10); w \<leftarrow> ck32 (m + (uint c - 48)); parse_width cs w
      } else Some (width, c # cs))"

definition directive :: "u8 list \<Rightarrow> (bool \<times> int \<times> u8 \<times> u8 list) option" where
  "directive cs = do {
     c \<leftarrow> rd cs 0;
     let left_align = (c = 45);
     (width, cs') \<leftarrow> parse_width (if left_align then tl cs else cs) 0;
     c' \<leftarrow> rd cs' 0;
     Some (left_align, width, c', tl cs')
   }"

lemma parse_width_length: "parse_width cs w = Some (w', cs') \<Longrightarrow> length cs' \<le> length cs"
  by (induction cs w rule: parse_width.induct)
    (auto split: if_splits bind_splits simp: Option.bind_eq_Some_conv le_SucI)

lemma directive_length: "directive cs = Some (l, w, c, cs') \<Longrightarrow> length cs' < length cs"
proof -
  assume "directive cs = Some (l, w, c, cs')"
  then obtain c0 r where r: "rd cs 0 = Some c0" "parse_width (if c0 = 45 then tl cs else cs) 0 = Some (w, r)"
    "rd r 0 = Some c" "cs' = tl r"
    unfolding directive_def by (auto simp: Option.bind_eq_Some_conv Let_def split: if_splits)
  have "length r \<le> length cs" using parse_width_length [OF r(2)] by (simp split: if_splits)
  moreover have "0 < length r" using r(3) rd_SomeD by fastforce
  ultimately show ?thesis using r(4) by (cases r) auto
qed

function kvsnprintf_loop :: "u8 list \<Rightarrow> va list \<Rightarrow> nat \<Rightarrow> u8 list \<Rightarrow> nat \<Rightarrow> (u8 list \<times> nat) option" where
  "kvsnprintf_loop [] args lim buf pos = None"
| "kvsnprintf_loop (c # cs) args lim buf pos =
     (if c = 0 \<or> \<not> pos < lim then Some (buf, pos)
      else if c \<noteq> 37 then do { b \<leftarrow> wr buf pos c; kvsnprintf_loop cs args lim b (pos + 1) }
      else do {
        c1 \<leftarrow> rd cs 0;
        if c1 = 0 then Some (buf, pos)
        else (case directive cs of
            None \<Rightarrow> None
          | Some (left_align, width, conv, cs') \<Rightarrow> do {
              (args', b, p) \<leftarrow> convert conv left_align width args lim buf pos;
              kvsnprintf_loop cs' args' lim b p
            })
      })"
  by pat_completeness auto
termination
  by (relation "measure (\<lambda>(fmt, a, l, b, p). length fmt)") (auto dest: directive_length)

definition kvsnprintf :: "u8 list cptr \<Rightarrow> nat \<Rightarrow> u8 list \<Rightarrow> va list \<Rightarrow> (int \<times> u8 list cptr) option" where
  "kvsnprintf buf max_len fmt args =
     (case buf of NULL \<Rightarrow> Some (0, buf) | Ptr b0 \<Rightarrow>
        if max_len = 0 then Some (0, buf)
        else do {
          (b, pos) \<leftarrow> kvsnprintf_loop fmt args (max_len - 1) b0 0;
          b' \<leftarrow> wr b pos 0;
          Some (wrap32 (int pos), Ptr b')
        })"

definition ksnprintf :: "u8 list cptr \<Rightarrow> nat \<Rightarrow> u8 list \<Rightarrow> va list \<Rightarrow> (int \<times> u8 list cptr) option" where
  "ksnprintf buf max_len fmt args = kvsnprintf buf max_len fmt args"

text \<open>The output hook is a code pointer; \<open>kvprintf\<close> returns the characters it is called with.\<close>

definition kset_putchar :: "nat cptr \<Rightarrow> nat cptr \<Rightarrow> nat cptr" where
  "kset_putchar putchar_fn kputchar_hook = putchar_fn"

definition kvprintf :: "nat cptr \<Rightarrow> u8 list \<Rightarrow> va list \<Rightarrow> (int \<times> u8 list) option" where
  "kvprintf kputchar_hook fmt args = do {
     (len, b) \<leftarrow> kvsnprintf (Ptr (replicate 1024 0)) 1024 fmt args;
     Some (len, case (kputchar_hook, b) of (Ptr f, Ptr bytes) \<Rightarrow> take (nat len) bytes | _ \<Rightarrow> [])
   }"

definition kprintf :: "nat cptr \<Rightarrow> u8 list \<Rightarrow> va list \<Rightarrow> (int \<times> u8 list) option" where
  "kprintf kputchar_hook fmt args = kvprintf kputchar_hook fmt args"

section \<open>What is to be printed\<close>

definition padded :: "bool \<Rightarrow> int \<Rightarrow> u8 list \<Rightarrow> u8 list" where
  "padded left_align width t =
     (let blanks = replicate (nat (width - int (length t))) 32 in if left_align then t @ blanks else blanks @ t)"

definition item :: "u8 \<Rightarrow> bool \<Rightarrow> int \<Rightarrow> va list \<Rightarrow> (u8 list \<times> va list) option" where
  "item c left_align width args =
     (if c = 99 then (case args of IntArg v # as \<Rightarrow> Some ([word_of_int v], as) | _ \<Rightarrow> None)
      else if c = 115 then
        (case args of
           StrArg NULL # as \<Rightarrow> Some (padded left_align width [40, 110, 117, 108, 108, 41], as)
         | StrArg (Ptr s) # as \<Rightarrow>
             if terminated s \<and> length (cstr s) < 2 ^ 31 then Some (padded left_align width (cstr s), as) else None
         | _ \<Rightarrow> None)
      else if c = 100 \<or> c = 105 then
        (case args of IntArg v # as \<Rightarrow> if in_i32 v then Some (padded left_align width (itext False 10 v), as) else None | _ \<Rightarrow> None)
      else if c = 117 then
        (case args of IntArg v # as \<Rightarrow> Some (padded left_align width (utext False 10 (nat (v mod 2 ^ 32))), as) | _ \<Rightarrow> None)
      else if c = 120 \<or> c = 88 then
        (case args of IntArg v # as \<Rightarrow> Some (utext (c = 88) 16 (nat (v mod 2 ^ 32)), as) | _ \<Rightarrow> None)
      else if c = 112 then
        (case args of PtrArg v # as \<Rightarrow> if v < 2 ^ 64 then Some (48 # 120 # utext False 16 v, as) else None | _ \<Rightarrow> None)
      else Some ([c], args))"

function render :: "u8 list \<Rightarrow> va list \<Rightarrow> u8 list option" where
  "render [] args = None"
| "render (c # cs) args =
     (if c = 0 then Some []
      else if c \<noteq> 37 then map_option ((#) c) (render cs args)
      else do {
        c1 \<leftarrow> rd cs 0;
        if c1 = 0 then Some []
        else (case directive cs of
            None \<Rightarrow> None
          | Some (left_align, width, conv, cs') \<Rightarrow> do {
              (t, args') \<leftarrow> item conv left_align width args;
              r \<leftarrow> render cs' args';
              Some (t @ r)
            })
      })"
  by pat_completeness auto
termination
  by (relation "measure (\<lambda>(fmt, a). length fmt)") (auto dest: directive_length)

declare kvsnprintf_loop.simps [simp del] render.simps [simp del]

section \<open>The output loops write the text, cut at the limit\<close>

text \<open>
  \<open>emits lim buf pos t r\<close>: the result \<open>r\<close> is the buffer with as much of \<open>t\<close> at \<open>pos\<close> as the limit
  admits, and the position after it.
\<close>

definition emits :: "nat \<Rightarrow> u8 list \<Rightarrow> nat \<Rightarrow> u8 list \<Rightarrow> u8 list \<times> nat" where
  "emits lim buf pos t = (overlay buf pos (take (lim - pos) t), pos + min (lim - pos) (length t))"






lemma emits_Nil [simp]: "pos \<le> lim \<Longrightarrow> lim < length buf \<Longrightarrow> emits lim buf pos [] = (buf, pos)"
  by (simp add: emits_def)


section \<open>Numbers and conversions\<close>







section \<open>The whole format\<close>




section \<open>Properties\<close>



text \<open>
  A format that ends inside a directive is read past its terminator: after \<open>%5\<close> (or \<open>%-\<close>) the
  terminator itself is printed as a conversion character and the scan goes on behind it.
\<close>
theorem kvsnprintf_overreads_format:
  "2 \<le> n \<Longrightarrow> n \<le> length b \<Longrightarrow> kvsnprintf (Ptr b) n [37, 53, 0] args = None \<and> kvsnprintf (Ptr b) n [37, 45, 0] args = None"
proof -
  assume a: "2 \<le> n" "n \<le> length b"
  have "directive [53, 0] = Some (False, 5, 0, [])" "directive [45, 0] = Some (True, 0, 0, [])"
    by (simp_all add: directive_def in_i32_def)
  moreover have "b \<noteq> []" using a by auto
  ultimately show ?thesis using a by (simp add: kvsnprintf_def kvsnprintf_loop.simps convert_def)
qed

theorem kvsnprintf_overreads_format_witness:
  "kvsnprintf (Ptr [1, 2, 3, 4]) 4 [37, 53, 0] [] = None \<and> kvsnprintf (Ptr [1, 2, 3, 4]) 4 [37, 45, 0] [] = None"
  by (rule kvsnprintf_overreads_format) simp_all

end
