(* ===== verification/Kvfs.thy ===== *)
theory Kvfs imports Kmem Kstring begin

text \<open>
  The in-memory file table of freestanding/kvfs.c over the kernel heap of \<open>Kmem\<close>.  A node's path is
  the array inside it; its data pointer is an address in the heap model's memory, where both the
  copies made by \<open>kvfs_write\<close> and the static objects handed to \<open>kvfs_create\<close> live.  The addresses of
  the static objects are chosen by the linker and are a parameter of \<open>kvfs_init\<close>.
\<close>

section \<open>Nodes and the table\<close>

definition KVFS_MAX_NODES :: nat where "KVFS_MAX_NODES = 64"
definition KVFS_MAX_PATH :: nat where "KVFS_MAX_PATH = 128"

datatype kvfs_node_type = KVFS_TYPE_FILE | KVFS_TYPE_DIR | KVFS_TYPE_BIN | KVFS_TYPE_DEV

record kvfs_node =
  path :: "u8 list"
  data :: nat
  fsize :: nat
  ntype :: kvfs_node_type
  fmode :: nat
  is_used :: bool
  is_dynamic :: bool

record vfs =
  vfs_table :: "kvfs_node list"
  vfs_node_count :: nat
  heap :: kmem

text \<open>The bytes of a C string literal.\<close>

definition c_string :: "string \<Rightarrow> u8 list" where
  "c_string s = map of_char s @ [0]"

section \<open>Paths\<close>

fun sanitize_loop :: "u8 list \<Rightarrow> u8 list \<Rightarrow> nat \<Rightarrow> nat \<Rightarrow> (u8 list \<times> nat) option" where
  "sanitize_loop [] out j max_len = None"
| "sanitize_loop (c # cs) out j max_len =
     (if c = 0 \<or> \<not> j < max_len - 1 then Some (out, j)
      else if c = 47 \<and> j > 0 \<and> out ! (j - 1) = 47 then sanitize_loop cs out j max_len
      else do { out' \<leftarrow> wr out j c; sanitize_loop cs out' (j + 1) max_len })"

fun strip_slashes :: "u8 list \<Rightarrow> nat \<Rightarrow> nat" where
  "strip_slashes out 0 = 0"
| "strip_slashes out (Suc j) = (if Suc j > 1 \<and> out ! j = 47 then strip_slashes out j else Suc j)"

definition sanitize_path :: "u8 list cptr \<Rightarrow> u8 list \<Rightarrow> nat \<Rightarrow> u8 list option" where
  "sanitize_path inp out max_len =
     (let root = do { o1 \<leftarrow> wr out 0 47; wr o1 1 0 } in
      case inp of NULL \<Rightarrow> root | Ptr s \<Rightarrow> do {
        c \<leftarrow> rd s 0;
        if c = 0 then root
        else do {
          (o1, j) \<leftarrow> (if c \<noteq> 47 then map_option (\<lambda>b. (b, 1)) (wr out 0 47) else Some (out, 0));
          (o2, j') \<leftarrow> sanitize_loop s o1 j max_len;
          wr o2 (strip_slashes o2 j') 0
        }
      })"

definition clean_path :: "u8 list cptr \<Rightarrow> u8 list option" where
  "clean_path p = sanitize_path p (replicate KVFS_MAX_PATH 0) KVFS_MAX_PATH"

text \<open>The two scans of the table: the first used node with the path, the first free node.\<close>

fun find_path :: "kvfs_node list \<Rightarrow> u8 list \<Rightarrow> nat \<Rightarrow> nat cptr option" where
  "find_path [] p i = Some NULL"
| "find_path (n # ns) p i =
     (if is_used n then do {
        r \<leftarrow> kstrcmp (Ptr (path n)) (Ptr p);
        if r = 0 then Some (Ptr i) else find_path ns p (i + 1)
      } else find_path ns p (i + 1))"

fun find_free :: "kvfs_node list \<Rightarrow> nat \<Rightarrow> nat cptr" where
  "find_free [] i = NULL"
| "find_free (n # ns) i = (if \<not> is_used n then Ptr i else find_free ns (i + 1))"

text \<open>\<open>kstrncpy(node.path, clean_path, sizeof(node.path) - 1)\<close>\<close>

definition copy_path :: "u8 list \<Rightarrow> u8 list \<Rightarrow> u8 list option" where
  "copy_path dest p = do {
     r \<leftarrow> kstrncpy (Ptr dest) (Ptr p) (KVFS_MAX_PATH - 1);
     (case r of Ptr d \<Rightarrow> Some d | NULL \<Rightarrow> None)
   }"

definition free_data :: "kvfs_node \<Rightarrow> kmem \<Rightarrow> kmem" where
  "free_data n h = (if is_dynamic n \<and> data n \<noteq> 0 then kfree (data n) h else h)"

section \<open>Operations\<close>

definition kvfs_create :: "u8 list cptr \<Rightarrow> nat \<Rightarrow> nat \<Rightarrow> kvfs_node_type \<Rightarrow> nat \<Rightarrow> vfs \<Rightarrow> (int \<times> vfs) option" where
  "kvfs_create p dat sz ty mo v =
     (if p = NULL \<or> vfs_node_count v \<ge> KVFS_MAX_NODES then Some (-1, v)
      else do {
        cp \<leftarrow> clean_path p;
        hit \<leftarrow> find_path (vfs_table v) cp 0;
        (case hit of
           Ptr i \<Rightarrow>
             let n = vfs_table v ! i in
             Some (0, v\<lparr>heap := free_data n (heap v),
               vfs_table := (vfs_table v)[i := n\<lparr>data := dat, fsize := sz, ntype := ty, fmode := mo, is_dynamic := False\<rparr>]\<rparr>)
         | NULL \<Rightarrow>
             (case find_free (vfs_table v) 0 of
                Ptr i \<Rightarrow> do {
                  let n = vfs_table v ! i;
                  np \<leftarrow> copy_path (path n) cp;
                  Some (0, v\<lparr>vfs_table := (vfs_table v)[i := n\<lparr>path := np, data := dat, fsize := sz, ntype := ty,
                      fmode := mo, is_used := True, is_dynamic := False\<rparr>],
                    vfs_node_count := w32 (vfs_node_count v + 1)\<rparr>)
                }
              | NULL \<Rightarrow> Some (-1, v)))
      })"

definition kvfs_mkdir :: "u8 list cptr \<Rightarrow> vfs \<Rightarrow> (int \<times> vfs) option" where
  "kvfs_mkdir p v = kvfs_create p 0 0 KVFS_TYPE_DIR 493 v"

definition kvfs_write :: "u8 list cptr \<Rightarrow> nat \<Rightarrow> nat \<Rightarrow> vfs \<Rightarrow> (int \<times> vfs) option" where
  "kvfs_write p dat sz v = do {
     cp \<leftarrow> clean_path p;
     (heap_copy, h1) \<leftarrow> kmalloc (w32 (sz + 1)) (heap v);
     if heap_copy = 0 then Some (-1, v\<lparr>heap := h1\<rparr>)
     else do {
       let m = (if dat \<noteq> 0 then kmemcpy (mem h1) heap_copy dat sz else mem h1);
       let h2 = h1\<lparr>mem := m(heap_copy + sz := 0)\<rparr>;
       hit \<leftarrow> find_path (vfs_table v) cp 0;
       (case hit of
          Ptr i \<Rightarrow>
            let n = vfs_table v ! i in
            Some (0, v\<lparr>heap := free_data n h2,
              vfs_table := (vfs_table v)[i := n\<lparr>data := heap_copy, fsize := sz, is_dynamic := True\<rparr>]\<rparr>)
        | NULL \<Rightarrow>
            (case find_free (vfs_table v) 0 of
               Ptr i \<Rightarrow> do {
                 let n = vfs_table v ! i;
                 np \<leftarrow> copy_path (path n) cp;
                 Some (0, v\<lparr>heap := h2,
                   vfs_table := (vfs_table v)[i := n\<lparr>path := np, data := heap_copy, fsize := sz, ntype := KVFS_TYPE_FILE,
                     fmode := 420, is_used := True, is_dynamic := True\<rparr>],
                   vfs_node_count := w32 (vfs_node_count v + 1)\<rparr>)
               }
             | NULL \<Rightarrow> Some (-1, v\<lparr>heap := kfree heap_copy h2\<rparr>)))
     }
   }"

definition kvfs_delete :: "u8 list cptr \<Rightarrow> vfs \<Rightarrow> (int \<times> vfs) option" where
  "kvfs_delete p v = do {
     cp \<leftarrow> clean_path p;
     hit \<leftarrow> find_path (vfs_table v) cp 0;
     (case hit of
        Ptr i \<Rightarrow>
          let n = vfs_table v ! i in
          Some (0, v\<lparr>heap := free_data n (heap v),
            vfs_table := (vfs_table v)[i := n\<lparr>is_used := False, path := (path n)[0 := 0], data := 0\<rparr>],
            vfs_node_count := (if vfs_node_count v > 0 then vfs_node_count v - 1 else vfs_node_count v)\<rparr>)
      | NULL \<Rightarrow> Some (-1, v))
   }"

text \<open>A pointer to a node is its index.\<close>

definition kvfs_open :: "u8 list cptr \<Rightarrow> vfs \<Rightarrow> nat cptr option" where
  "kvfs_open p v =
     (if p = NULL then Some NULL
      else do { cp \<leftarrow> clean_path p; find_path (vfs_table v) cp 0 })"

definition kvfs_read :: "nat cptr \<Rightarrow> nat \<Rightarrow> nat \<Rightarrow> nat \<Rightarrow> vfs \<Rightarrow> int \<times> vfs" where
  "kvfs_read node buf offset count v =
     (case node of NULL \<Rightarrow> (0, v) | Ptr i \<Rightarrow>
        let n = vfs_table v ! i in
        if buf = 0 \<or> data n = 0 \<or> offset \<ge> fsize n then (0, v)
        else let to_copy = (if w32 (offset + count) > fsize n then fsize n - offset else count) in
          (wrap32 (int to_copy),
           v\<lparr>heap := (heap v)\<lparr>mem := kmemcpy (mem (heap v)) buf (data n + offset) to_copy\<rparr>\<rparr>))"

text \<open>Listing a directory: the arguments the callback is called with, in order.\<close>

type_synonym listing = "u8 list \<times> nat \<times> kvfs_node_type \<times> nat"

definition list_entry :: "u8 list \<Rightarrow> bool \<Rightarrow> nat \<Rightarrow> kvfs_node \<Rightarrow> listing list option" where
  "list_entry target_dir is_root dir_len n =
     (let p = path n; info = (\<lambda>name. [(cstr name, fsize n, ntype n, fmode n)]) in
      if \<not> is_used n then Some []
      else do {
        same \<leftarrow> kstrcmp (Ptr p) (Ptr target_dir);
        if same = 0 then Some []
        else if is_root then do {
          c0 \<leftarrow> rd p 0;
          if c0 \<noteq> 47 then Some []
          else do {
            c1 \<leftarrow> rd p 1;
            if c1 = 0 then Some []
            else do {
              sub \<leftarrow> kstrchr (Ptr (drop 1 p)) 47;
              (case sub of
                 NULL \<Rightarrow> Some (info (drop 1 p))
               | Ptr dlen \<Rightarrow> do {
                   after \<leftarrow> rd (drop 1 p) (dlen + 1);
                   if ntype n = KVFS_TYPE_DIR \<and> after = 0 \<and> dlen < 32 then do {
                     r \<leftarrow> kstrncpy (Ptr (replicate 32 0)) (Ptr (drop 1 p)) dlen;
                     (case r of Ptr dname \<Rightarrow> do { d \<leftarrow> wr dname dlen 0; Some (info d) } | NULL \<Rightarrow> None)
                   } else Some []
                 })
            }
          }
        } else do {
          r \<leftarrow> kstrncmp (Ptr p) (Ptr target_dir) dir_len;
          if r \<noteq> 0 then Some []
          else do {
            c \<leftarrow> rd p dir_len;
            if c \<noteq> 47 then Some []
            else do {
              next_slash \<leftarrow> kstrchr (Ptr (drop (dir_len + 1) p)) 47;
              Some (if next_slash = NULL then info (drop (dir_len + 1) p) else [])
            }
          }
        }
      })"

fun list_nodes :: "u8 list \<Rightarrow> bool \<Rightarrow> nat \<Rightarrow> kvfs_node list \<Rightarrow> listing list option" where
  "list_nodes target_dir is_root dir_len [] = Some []"
| "list_nodes target_dir is_root dir_len (n # ns) = do {
     e \<leftarrow> list_entry target_dir is_root dir_len n;
     es \<leftarrow> list_nodes target_dir is_root dir_len ns;
     Some (e @ es)
   }"

definition kvfs_list_dir :: "u8 list cptr \<Rightarrow> vfs \<Rightarrow> listing list option" where
  "kvfs_list_dir dir_path v = do {
     target_dir \<leftarrow> clean_path (case dir_path of NULL \<Rightarrow> Ptr (c_string ''/'') | Ptr d \<Rightarrow> Ptr d);
     dir_len \<leftarrow> kstrlen (Ptr target_dir);
     r \<leftarrow> kstrcmp (Ptr target_dir) (Ptr (c_string ''/''));
     list_nodes target_dir (r = 0) dir_len (vfs_table v)
   }"

section \<open>Initialisation\<close>

text \<open>The image \<open>generate_sample_bmp\<close> writes: header fields, little endian, then the pixels.\<close>

definition le16 :: "nat \<Rightarrow> u8 list" where
  "le16 x = [word_of_nat x, word_of_nat (x div 256)]"

definition le32 :: "nat \<Rightarrow> u8 list" where
  "le32 x = [word_of_nat x, word_of_nat (x div 256), word_of_nat (x div 65536), word_of_nat (x div 16777216)]"

definition sample_bmp :: "u8 list" where
  "sample_bmp =
     le16 19778 @ le32 3126 @ le16 0 @ le16 0 @ le32 54 @
     le32 40 @ le32 32 @ le32 32 @ le16 1 @ le16 24 @ le32 0 @ le32 3072 @ le32 0 @ le32 0 @ le32 0 @ le32 0 @
     concat (map (\<lambda>y. concat (map (\<lambda>x. [word_of_nat (x * 8), word_of_nat (y * 8), word_of_nat ((x + y) * 4)]) [0..<32])) [0..<32])"

fun store_bytes :: "memory \<Rightarrow> nat \<Rightarrow> u8 list \<Rightarrow> memory" where
  "store_bytes m a [] = m"
| "store_bytes m a (b # bs) = store_bytes (m(a := b)) (a + 1) bs"

definition generate_sample_bmp :: "nat \<Rightarrow> kmem \<Rightarrow> kmem" where
  "generate_sample_bmp sample_bmp_buffer h = h\<lparr>mem := store_bytes (mem h) sample_bmp_buffer sample_bmp\<rparr>"

text \<open>
  The entries \<open>kvfs_init\<close> creates: path, static object, size (for a string its \<open>sizeof\<close> less one),
  type and mode.  The directories are made by \<open>kvfs_mkdir\<close>, without an object.
\<close>

definition init_entries :: "(string \<times> string \<times> nat \<times> kvfs_node_type \<times> nat) list" where
  "init_entries =
    [(''/'', [], 0, KVFS_TYPE_DIR, 493),
     (''/bin'', [], 0, KVFS_TYPE_DIR, 493),
     (''/etc'', [], 0, KVFS_TYPE_DIR, 493),
     (''/dev'', [], 0, KVFS_TYPE_DIR, 493),
     (''/home'', [], 0, KVFS_TYPE_DIR, 493),
     (''/home/user'', [], 0, KVFS_TYPE_DIR, 493),
     (''/readme.txt'', ''readme_root'', 66, KVFS_TYPE_FILE, 420),
     (''/home/logo.bmp'', ''sample_bmp_buffer'', 3126, KVFS_TYPE_FILE, 420),
     (''/bin/ls'', ''bin_ls_help'', 32, KVFS_TYPE_BIN, 493),
     (''/bin/cd'', ''bin_cd_help'', 37, KVFS_TYPE_BIN, 493),
     (''/bin/pwd'', ''bin_pwd_help'', 28, KVFS_TYPE_BIN, 493),
     (''/bin/cat'', ''bin_cat_help'', 33, KVFS_TYPE_BIN, 493),
     (''/bin/view'', ''bin_view_help'', 55, KVFS_TYPE_BIN, 493),
     (''/bin/calc_gui'', ''bin_calc_help'', 46, KVFS_TYPE_BIN, 493),
     (''/bin/snake'', ''bin_snake_help'', 34, KVFS_TYPE_BIN, 493),
     (''/bin/beep'', ''bin_beep_help'', 49, KVFS_TYPE_BIN, 493),
     (''/bin/write'', ''bin_write_help'', 71, KVFS_TYPE_BIN, 493),
     (''/bin/touch'', ''bin_touch_help'', 40, KVFS_TYPE_BIN, 493),
     (''/bin/mkdir'', ''bin_mkdir_help'', 36, KVFS_TYPE_BIN, 493),
     (''/bin/rm'', ''bin_rm_help'', 42, KVFS_TYPE_BIN, 493),
     (''/bin/whoami'', ''bin_whoami_help'', 37, KVFS_TYPE_BIN, 493),
     (''/bin/su'', ''bin_su_help'', 50, KVFS_TYPE_BIN, 493),
     (''/bin/adduser'', ''bin_adduser_help'', 52, KVFS_TYPE_BIN, 493),
     (''/bin/mem'', ''bin_mem_help'', 22, KVFS_TYPE_BIN, 493),
     (''/bin/clear'', ''bin_clear_help'', 25, KVFS_TYPE_BIN, 493),
     (''/bin/ata'', ''bin_ata_help'', 37, KVFS_TYPE_BIN, 493),
     (''/bin/format_disk'', ''bin_format_help'', 46, KVFS_TYPE_BIN, 493),
     (''/bin/exit'', ''bin_exit_help'', 28, KVFS_TYPE_BIN, 493),
     (''/etc/hostname'', ''etc_hostname'', 9, KVFS_TYPE_FILE, 420),
     (''/etc/os-release'', ''etc_os_release'', 47, KVFS_TYPE_FILE, 420),
     (''/etc/passwd'', ''etc_passwd_buf'', 511, KVFS_TYPE_FILE, 420),
     (''/etc/kernel.config'', ''etc_kernel_config'', 62, KVFS_TYPE_FILE, 420),
     (''/etc/motd'', ''etc_motd'', 84, KVFS_TYPE_FILE, 420),
     (''/dev/null'', ''dev_null_info'', 41, KVFS_TYPE_DEV, 438),
     (''/dev/zero'', ''dev_zero_info'', 48, KVFS_TYPE_DEV, 438),
     (''/dev/fb0'', ''dev_fb0_info'', 62, KVFS_TYPE_DEV, 432),
     (''/dev/ps2kbd'', ''dev_ps2kbd_info'', 55, KVFS_TYPE_DEV, 432),
     (''/dev/ps2mouse'', ''dev_ps2mouse_info'', 53, KVFS_TYPE_DEV, 432),
     (''/dev/ata0'', ''dev_ata0_info'', 62, KVFS_TYPE_DEV, 432)]"

fun create_all :: "(string \<Rightarrow> nat) \<Rightarrow> (string \<times> string \<times> nat \<times> kvfs_node_type \<times> nat) list \<Rightarrow> vfs \<Rightarrow> vfs option" where
  "create_all addr [] v = Some v"
| "create_all addr ((p, obj, sz, ty, mo) # es) v = do {
     (r, v') \<leftarrow> (if obj = [] then kvfs_mkdir (Ptr (c_string p)) v
                else kvfs_create (Ptr (c_string p)) (addr obj) sz ty mo v);
     create_all addr es v'
   }"

definition clear_node :: "kvfs_node \<Rightarrow> kvfs_node" where
  "clear_node n = n\<lparr>is_used := False, is_dynamic := False, path := (path n)[0 := 0], data := 0, fsize := 0\<rparr>"

definition kvfs_init :: "(string \<Rightarrow> nat) \<Rightarrow> vfs \<Rightarrow> vfs option" where
  "kvfs_init addr v =
     create_all addr init_entries
       (v\<lparr>heap := generate_sample_bmp (addr ''sample_bmp_buffer'')
            (fold (\<lambda>n h. if is_used n then free_data n h else h) (vfs_table v) (heap v)),
          vfs_table := map clear_node (vfs_table v),
          vfs_node_count := 0\<rparr>)"

section \<open>Canonical paths\<close>

fun squeeze :: "nat \<Rightarrow> u8 list \<Rightarrow> u8 list \<Rightarrow> u8 list" where
  "squeeze k w [] = w"
| "squeeze k w (c # cs) = (if \<not> length w < k then w
     else if c = 47 \<and> w \<noteq> [] \<and> last w = 47 then squeeze k w cs else squeeze k (w @ [c]) cs)"

fun strip_end :: "u8 list \<Rightarrow> u8 list" where
  "strip_end [] = []"
| "strip_end [c] = [c]"
| "strip_end (c # d # cs) = (let r = strip_end (d # cs) in if r = [47] then [c] else c # r)"

definition norm_path :: "u8 list \<Rightarrow> u8 list" where
  "norm_path s = (if s = [] then [47]
     else let w = squeeze 127 (if hd s \<noteq> 47 then [47] else []) s in take (strip_slashes w (length w)) w)"

fun no_double :: "u8 list \<Rightarrow> bool" where
  "no_double (c # d # cs) \<longleftrightarrow> \<not> (c = 47 \<and> d = 47) \<and> no_double (d # cs)"
| "no_double _ \<longleftrightarrow> True"

definition canonical :: "u8 list \<Rightarrow> bool" where
  "canonical p \<longleftrightarrow> p \<noteq> [] \<and> hd p = 47 \<and> no_double p \<and> (1 < length p \<longrightarrow> last p \<noteq> 47) \<and> 0 \<notin> set p \<and> length p \<le> 127"

lemma last_take_nth: "0 < j \<Longrightarrow> j \<le> length xs \<Longrightarrow> last (take j xs) = xs ! (j - 1)"
  by (subst last_conv_nth) auto

lemma sanitize_loop_squeeze:
  "0 \<notin> set cs \<Longrightarrow> k = max_len - 1 \<Longrightarrow> k < length out \<Longrightarrow> j \<le> k \<Longrightarrow>
   \<exists>out' j'. sanitize_loop (cs @ 0 # r) out j max_len = Some (out', j') \<and> length out' = length out \<and>
     j' \<le> k \<and> j \<le> j' \<and> take j' out' = squeeze k (take j out) cs"
proof (induction cs arbitrary: out j)
  case (Cons c cs)
  have len: "length (take j out) = j" using Cons.prems by simp
  have lst: "last (take j out) = out ! (j - 1)" if "0 < j"
    using that Cons.prems by (intro last_take_nth) simp_all
  consider (full) "\<not> j < k" | (dup) "j < k" "c = 47" "0 < j" "out ! (j - 1) = 47"
    | (put) "j < k" "\<not> (c = 47 \<and> 0 < j \<and> out ! (j - 1) = 47)" by blast
  then show ?case
  proof cases
    case full
    then show ?thesis using Cons.prems len by auto
  next
    case dup
    then show ?thesis using Cons lst by auto
  next
    case put
    have t: "take (j + 1) (out[j := c]) = take j out @ [c]"
      using put(1) Cons.prems(3) by (simp add: take_Suc_conv_app_nth)
    have "take j out \<noteq> [] \<longleftrightarrow> 0 < j" using put(1) Cons.prems(3) by auto
    then have sq: "squeeze k (take j out) (c # cs) = squeeze k (take (j + 1) (out[j := c])) cs"
      using put len lst t by auto
    have "\<exists>out' j'. sanitize_loop (cs @ 0 # r) (out[j := c]) (j + 1) max_len = Some (out', j') \<and>
        length out' = length (out[j := c]) \<and> j' \<le> k \<and> j + 1 \<le> j' \<and> take j' out' = squeeze k (take (j + 1) (out[j := c])) cs"
      using Cons.prems put(1) by (intro Cons.IH) auto
    then show ?thesis using put Cons.prems sq by auto
  qed
qed auto

lemma strip_slashes_le: "strip_slashes out j \<le> j"
  by (induction j) auto

lemma strip_slashes_cong: "j \<le> n \<Longrightarrow> take n a = take n b \<Longrightarrow> n \<le> length a \<Longrightarrow> n \<le> length b \<Longrightarrow> strip_slashes a j = strip_slashes b j"
proof (induction j)
  case (Suc j)
  then have "a ! j = b ! j" by (metis Suc_le_lessD nth_take)
  then show ?case using Suc by simp
qed simp

lemma strip_slashes_pos: "0 < j \<Longrightarrow> 0 < strip_slashes out j"
  by (induction j) (auto simp: gr0_conv_Suc)

lemma strip_slashes_last: "1 < strip_slashes out j \<Longrightarrow> out ! (strip_slashes out j - 1) \<noteq> 47"
  by (induction j) (auto split: if_splits)

lemma no_double_snoc: "no_double (w @ [c]) \<longleftrightarrow> no_double w \<and> (w = [] \<or> \<not> (last w = 47 \<and> c = 47))"
  by (induction w rule: no_double.induct) auto

lemma no_double_take: "no_double w \<Longrightarrow> no_double (take n w)"
proof (induction w arbitrary: n rule: no_double.induct)
  case (1 c d cs)
  then show ?case
  proof (cases n)
    case (Suc m)
    then show ?thesis using "1.IH" [of m] "1.prems" by (cases m) auto
  qed simp
qed (auto simp: take_Cons split: nat.splits)

lemma squeeze_facts:
  "no_double w \<Longrightarrow> length w \<le> k \<Longrightarrow> 0 \<notin> set w \<Longrightarrow> 0 \<notin> set cs \<Longrightarrow>
   no_double (squeeze k w cs) \<and> length (squeeze k w cs) \<le> k \<and> 0 \<notin> set (squeeze k w cs) \<and> (\<exists>t. squeeze k w cs = w @ t)"
proof (induction k w cs rule: squeeze.induct)
  case (2 k w c cs)
  show ?case
  proof (cases "\<not> length w < k \<or> c = 47 \<and> w \<noteq> [] \<and> last w = 47")
    case True
    then show ?thesis using 2 by (cases "length w < k") auto
  next
    case False
    then have "no_double (w @ [c])" by (auto simp: no_double_snoc 2)
    moreover have "squeeze k w (c # cs) = squeeze k (w @ [c]) cs" using False by auto
    ultimately show ?thesis using 2 False by auto
  qed
qed simp

lemma norm_path_canonical:
  assumes "0 \<notin> set s"
  shows "canonical (norm_path s)"
proof (cases "s = []")
  case True
  then show ?thesis by (simp add: norm_path_def canonical_def)
next
  case False
  obtain c cs where s: "s = c # cs" using False by (cases s) auto
  let ?w = "squeeze 127 (if hd s \<noteq> 47 then [47] else []) s"
  have f: "no_double ?w" "length ?w \<le> 127" "0 \<notin> set ?w" "\<exists>t. ?w = 47 # t"
  proof -
    have w: "?w = squeeze 127 (if c \<noteq> 47 then [47, c] else [47]) cs" using s by auto
    have "no_double (if c \<noteq> 47 then [47, c] else [47])" "0 \<notin> set (if c \<noteq> 47 then [47, c] else [47])" "0 \<notin> set cs"
      using assms s by auto
    from squeeze_facts [OF this(1) _ this(2,3), of 127]
    show "no_double ?w" "length ?w \<le> 127" "0 \<notin> set ?w" "\<exists>t. ?w = 47 # t" unfolding w by auto
  qed
  let ?j = "strip_slashes ?w (length ?w)"
  have j: "?j \<le> length ?w" "0 < ?j" using strip_slashes_le strip_slashes_pos [of "length ?w"] f(4) by auto
  have n: "norm_path s = take ?j ?w" using False by (simp add: norm_path_def Let_def)
  have "last (take ?j ?w) \<noteq> 47" if "1 < ?j" using strip_slashes_last [OF that] last_take_nth [OF j(2,1)] by (simp only: not_False_eq_True)
  moreover have "hd (take ?j ?w) = 47" using f(4) j by auto
  moreover have "take ?j ?w \<noteq> []" using j f(4) by auto
  moreover have "0 \<notin> set (take ?j ?w)" using f(3) by (meson in_set_takeD)
  ultimately show ?thesis unfolding n canonical_def using no_double_take [OF f(1)] j f(2) by auto
qed

lemma squeeze_idle: "no_double (w @ cs) \<Longrightarrow> length (w @ cs) \<le> k \<Longrightarrow> squeeze k w cs = w @ cs"
proof (induction cs arbitrary: w)
  case (Cons c cs)
  have "no_double ((w @ [c]) @ cs)" using Cons.prems(1) by simp
  moreover have "\<not> (c = 47 \<and> w \<noteq> [] \<and> last w = 47)"
  proof -
    have "no_double (take (length w + 1) (w @ c # cs))" using Cons.prems(1) by (rule no_double_take)
    then show ?thesis by (auto simp: no_double_snoc)
  qed
  ultimately show ?case using Cons by auto
qed simp

lemma norm_path_idle:
  assumes "canonical p"
  shows "norm_path p = p"
proof -
  have c: "p \<noteq> []" "hd p = 47" "no_double p" "length p \<le> 127" "1 < length p \<Longrightarrow> last p \<noteq> 47"
    using assms by (auto simp: canonical_def)
  have "squeeze 127 [] p = p" using squeeze_idle [of "[]" p 127] c by simp
  moreover have "strip_slashes p (length p) = length p"
  proof (cases "length p")
    case (Suc n)
    then show ?thesis using c(1,5) by (auto simp: last_conv_nth)
  qed simp
  ultimately show ?thesis using c(1,2) by (simp add: norm_path_def)
qed

lemma clean_path_norm:
  assumes "terminated s"
  shows "\<exists>out. clean_path (Ptr s) = Some out \<and> length out = 128 \<and> terminated out \<and> cstr out = norm_path (cstr s)"
proof -
  obtain r where s: "s = cstr s @ 0 # r" by (rule terminatedE [OF assms])
  let ?o = "replicate 128 0 :: u8 list"
  show ?thesis
  proof (cases "cstr s")
    case Nil
    then have "rd s 0 = Some 0" using s by (metis append_Nil length_greater_0_conv list.discI nth_Cons_0 rd_in)
    moreover have "length (?o[0 := 47, 1 := 0]) = 128" by simp
    moreover have "?o[0 := 47, 1 := 0] = [47] @ 0 # replicate 126 0" by (simp add: numeral_eq_Suc)
    ultimately show ?thesis using Nil
      by (intro exI [of _ "?o[0 := 47, 1 := 0]"])
        (simp add: clean_path_def sanitize_path_def KVFS_MAX_PATH_def norm_path_def cstr_def terminated_def del: replicate.simps)
  next
    case (Cons c cs)
    then have c0: "c \<noteq> 0" using cstr_no_nul [of s] by auto
    have rd: "rd s 0 = Some c" using s Cons by (metis append_Cons length_greater_0_conv list.discI nth_Cons_0 rd_in)
    define o1 where "o1 = (if c \<noteq> 47 then ?o[0 := 47] else ?o)"
    define j where "j = (if c \<noteq> 47 then 1 else 0 :: nat)"
    note o1j = o1_def j_def
    have st: "(if c \<noteq> 47 then map_option (\<lambda>b. (b, 1)) (wr ?o 0 47) else Some (?o, 0)) = Some (o1, j)"
      by (simp add: o1j del: replicate.simps)
    have l1: "length o1 = 128" by (simp add: o1j)
    have lj: "j \<le> 127" by (simp add: o1j)
    obtain o2 j' where o2: "sanitize_loop (cstr s @ 0 # r) o1 j 128 = Some (o2, j')" "length o2 = 128" "j' \<le> 127" "j \<le> j'"
      "take j' o2 = squeeze 127 (take j o1) (cstr s)"
      using sanitize_loop_squeeze [of "cstr s" 127 128 o1 j r] l1 lj by auto
    have t: "take j o1 = (if hd (cstr s) \<noteq> 47 then [47] else [])"
      by (simp add: o1j Cons numeral_eq_Suc)
    let ?w = "squeeze 127 (if hd (cstr s) \<noteq> 47 then [47] else []) (cstr s)"
    have w1: "take j' o2 = ?w" using o2(5) unfolding t .
    have w: "take j' o2 = ?w" "length ?w = j'" using w1 o2(2,3) unfolding w1 [symmetric] by simp_all
    have ss: "strip_slashes o2 j' = strip_slashes ?w j'"
      by (rule strip_slashes_cong [of j' j']) (use w o2 in auto)
    define k where "k = strip_slashes ?w j'"
    have k: "k \<le> j'" unfolding k_def by (rule strip_slashes_le)
    have np: "norm_path (cstr s) = take k ?w" using Cons w(2) by (simp add: norm_path_def Let_def k_def)
    have "take k (take j' o2) = take k o2" using k by (simp add: min_absorb1)
    then have out: "o2[k := 0] = norm_path (cstr s) @ 0 # drop (k + 1) o2"
      using k o2(2,3) unfolding np w(1) by (simp add: upd_conv_take_nth_drop)
    have "0 \<notin> set (norm_path (cstr s))" using norm_path_canonical [OF cstr_no_nul] by (simp add: canonical_def)
    then have "cstr (o2[k := 0]) = norm_path (cstr s)" "terminated (o2[k := 0])"
      unfolding out by simp_all
    moreover have "clean_path (Ptr s) = Some (o2[k := 0])"
    proof -
      have "sanitize_loop s o1 j 128 = Some (o2, j')" using o2(1) s by simp
      moreover have "wr o2 (strip_slashes o2 j') 0 = Some (o2[k := 0])" using k o2(2,3) ss by (simp add: k_def)
      ultimately show ?thesis using rd c0 st unfolding clean_path_def sanitize_path_def KVFS_MAX_PATH_def Let_def
        by (simp del: replicate.simps)
    qed
    ultimately show ?thesis using o2(2) by auto
  qed
qed

section \<open>The state invariant\<close>

definition node_path :: "kvfs_node \<Rightarrow> u8 list" where
  "node_path n = cstr (path n)"

text \<open>A node's contents: the bytes at its data pointer.\<close>

definition contents :: "memory \<Rightarrow> kvfs_node \<Rightarrow> u8 list" where
  "contents m n = (if data n = 0 then [] else map m [data n..<data n + fsize n])"

text \<open>
  A node in use: a canonical path with its terminator, and data that is either a live object of the
  heap with room for the file and its terminator, or static data outside the heap region.
\<close>

definition node_ok :: "kmem \<Rightarrow> blk list \<Rightarrow> nat \<Rightarrow> nat \<Rightarrow> kvfs_node \<Rightarrow> bool" where
  "node_ok h xs lo hi n \<longleftrightarrow> (is_used n \<longrightarrow> canonical (node_path n) \<and>
     (is_dynamic n \<longrightarrow> live h xs (data n) (fsize n + 1)) \<and>
     (\<not> is_dynamic n \<and> data n \<noteq> 0 \<longrightarrow> data n + fsize n \<le> lo \<or> hi \<le> data n))"

definition table_ok :: "memory \<Rightarrow> kvfs_node list \<Rightarrow> bool" where
  "table_ok m ns \<longleftrightarrow> length ns = 64 \<and> (\<forall>n \<in> set ns. length (path n) = 128 \<and> path n ! 127 = 0) \<and>
     (\<forall>i j. i < 64 \<and> j < 64 \<and> i \<noteq> j \<and> is_used (ns ! i) \<and> is_used (ns ! j) \<longrightarrow>
        node_path (ns ! i) \<noteq> node_path (ns ! j) \<and>
        (is_dynamic (ns ! i) \<and> is_dynamic (ns ! j) \<longrightarrow> back_ptr m (data (ns ! i)) \<noteq> back_ptr m (data (ns ! j))))"

definition used_count :: "kvfs_node list \<Rightarrow> nat" where
  "used_count ns = length (filter is_used ns)"

definition vfs_ok :: "vfs \<Rightarrow> blk list \<Rightarrow> nat \<Rightarrow> nat \<Rightarrow> bool" where
  "vfs_ok v xs lo hi \<longleftrightarrow> heap_inv (heap v) xs lo hi \<and> table_ok (mem (heap v)) (vfs_table v) \<and>
     (\<forall>n \<in> set (vfs_table v). node_ok (heap v) xs lo hi n) \<and> vfs_node_count v = used_count (vfs_table v)"

text \<open>The abstract file system: a finite map from canonical paths to contents.\<close>

definition files :: "vfs \<Rightarrow> u8 list \<rightharpoonup> u8 list" where
  "files v p = map_option (contents (mem (heap v))) (find (\<lambda>n. is_used n \<and> node_path n = p) (vfs_table v))"

lemma find_unique:
  assumes "i < length ns" "P (ns ! i)" "\<And>j. j < length ns \<Longrightarrow> P (ns ! j) \<Longrightarrow> j = i"
  shows "find P ns = Some (ns ! i)"
proof -
  have "\<forall>j<i. \<not> P (ns ! j)" using assms(1,3) by (metis less_trans less_not_refl)
  then show ?thesis unfolding find_Some_iff using assms(1,2) by blast
qed

lemma files_at:
  assumes "table_ok m (vfs_table v)" "i < 64" "is_used (vfs_table v ! i)"
  shows "files v (node_path (vfs_table v ! i)) = Some (contents (mem (heap v)) (vfs_table v ! i))"
proof -
  have "find (\<lambda>n. is_used n \<and> node_path n = node_path (vfs_table v ! i)) (vfs_table v) = Some (vfs_table v ! i)"
    using assms by (intro find_unique) (auto simp: table_ok_def)
  then show ?thesis by (simp add: files_def)
qed

lemma files_none:
  assumes "\<forall>n \<in> set (vfs_table v). is_used n \<longrightarrow> node_path n \<noteq> p"
  shows "files v p = None"
  using assms by (auto simp: files_def find_None_iff)

text \<open>The scans of the table.\<close>

lemma find_path_scan:
  assumes "\<forall>n \<in> set ns. terminated (path n)" "terminated p"
  shows "\<exists>r. find_path ns p k = Some r \<and>
    (case r of NULL \<Rightarrow> \<forall>n \<in> set ns. is_used n \<longrightarrow> node_path n \<noteq> cstr p
     | Ptr j \<Rightarrow> k \<le> j \<and> j - k < length ns \<and> is_used (ns ! (j - k)) \<and> node_path (ns ! (j - k)) = cstr p)"
  using assms(1)
proof (induction ns arbitrary: k)
  case (Cons n ns)
  obtain r where r: "kstrcmp (Ptr (path n)) (Ptr p) = Some r" "r = 0 \<longleftrightarrow> node_path n = cstr p"
    using strcmp_loop_total [of "path n" p] Cons.prems assms(2) by (auto simp: kstrcmp_def node_path_def)
  show ?case
  proof (cases "is_used n \<and> node_path n = cstr p")
    case True
    then show ?thesis using r by simp
  next
    case False
    have "\<exists>r. find_path ns p (k + 1) = Some r \<and>
      (case r of NULL \<Rightarrow> \<forall>n \<in> set ns. is_used n \<longrightarrow> node_path n \<noteq> cstr p
       | Ptr j \<Rightarrow> k + 1 \<le> j \<and> j - (k + 1) < length ns \<and> is_used (ns ! (j - (k + 1))) \<and> node_path (ns ! (j - (k + 1))) = cstr p)"
      using Cons.prems by (intro Cons.IH) simp
    then obtain q where q: "find_path ns p (k + 1) = Some q"
      "case q of NULL \<Rightarrow> \<forall>n \<in> set ns. is_used n \<longrightarrow> node_path n \<noteq> cstr p
       | Ptr j \<Rightarrow> k + 1 \<le> j \<and> j - (k + 1) < length ns \<and> is_used (ns ! (j - (k + 1))) \<and> node_path (ns ! (j - (k + 1))) = cstr p"
      by blast
    have "find_path (n # ns) p k = Some q" using False r q(1) by auto
    moreover have "case q of NULL \<Rightarrow> \<forall>n \<in> set (n # ns). is_used n \<longrightarrow> node_path n \<noteq> cstr p
       | Ptr j \<Rightarrow> k \<le> j \<and> j - k < length (n # ns) \<and> is_used ((n # ns) ! (j - k)) \<and> node_path ((n # ns) ! (j - k)) = cstr p"
    proof (cases q)
      case NULL
      then show ?thesis using q(2) False by auto
    next
      case (Ptr j)
      then have "j - k = Suc (j - (k + 1))" using q(2) by auto
      then show ?thesis using q(2) Ptr by auto
    qed
    ultimately show ?thesis by blast
  qed
qed simp

lemma find_free_scan:
  "case find_free ns k of NULL \<Rightarrow> used_count ns = length ns
   | Ptr j \<Rightarrow> k \<le> j \<and> j - k < length ns \<and> \<not> is_used (ns ! (j - k)) \<and> used_count ns < length ns"
proof (induction ns arbitrary: k)
  case (Cons n ns)
  show ?case
  proof (cases "is_used n")
    case True
    show ?thesis
    proof (cases "find_free ns (k + 1)")
      case NULL
      then show ?thesis using Cons [of "k + 1"] True by (simp add: used_count_def)
    next
      case (Ptr j)
      then have "j - k = Suc (j - (k + 1))" using Cons [of "k + 1"] by auto
      then show ?thesis using Cons [of "k + 1"] True Ptr by (simp add: used_count_def)
    qed
  next
    case False
    then show ?thesis using le_imp_less_Suc [OF length_filter_le [of is_used ns]] by (simp add: used_count_def)
  qed
qed (simp add: used_count_def)

text \<open>A stored path: the first 127 bytes are written, the last stays the terminator.\<close>

lemma terminated_127: "length p = 128 \<Longrightarrow> p ! 127 = 0 \<Longrightarrow> terminated p"
  unfolding terminated_def by (metis nth_mem numeral_less_iff semiring_norm(68) semiring_norm(76) semiring_norm(78) semiring_norm(81))

lemma copy_path_ok:
  assumes "length d = 128" "d ! 127 = 0" "terminated p" "length (cstr p) \<le> 127"
  shows "\<exists>d'. copy_path d p = Some d' \<and> length d' = 128 \<and> d' ! 127 = 0 \<and> cstr d' = cstr p"
proof -
  let ?t = "take 127 (cstr p @ replicate 127 0)"
  have t: "?t = cstr p @ replicate (127 - length (cstr p)) 0" using assms(4) by simp
  let ?d = "overlay d 0 ?t"
  have l: "length ?t = 127" by simp
  have k: "kstrncpy (Ptr d) (Ptr p) 127 = Some (Ptr ?d)" using assms(1,3) by (intro kstrncpy_spec) simp_all
  have "length ?d = 128" using assms(1) by simp
  moreover have e: "?d = ?t @ drop 127 d" unfolding overlay_def l by simp
  have "?d ! 127 = 0" unfolding e nth_append l using assms(1,2) by simp
  moreover have "drop 127 d = [0]" using assms(1,2) Cons_nth_drop_Suc [of 127 d] by simp
  then have "?d = cstr p @ (replicate (127 - length (cstr p)) 0 @ [0])" using e t by simp
  then have "?d = cstr p @ 0 # replicate (127 - length (cstr p)) 0" by (simp add: replicate_append_same)
  then have "cstr ?d = cstr p" by (simp del: take_append)
  ultimately show ?thesis using k by (simp add: copy_path_def KVFS_MAX_PATH_def)
qed

section \<open>Heap operations under the table\<close>

text \<open>
  \<open>keeps D h xs h' xs' lo hi\<close>: going from \<open>h\<close> to \<open>h'\<close>, every live object whose owner is not in \<open>D\<close>
  stays live with its bytes, and nothing outside the region changes.
\<close>

definition keeps :: "nat set \<Rightarrow> kmem \<Rightarrow> blk list \<Rightarrow> kmem \<Rightarrow> blk list \<Rightarrow> nat \<Rightarrow> nat \<Rightarrow> bool" where
  "keeps D h xs h' xs' lo hi \<longleftrightarrow> heap_inv h' xs' lo hi \<and>
     (\<forall>q k. live h xs q k \<and> back_ptr (mem h) q \<notin> D \<longrightarrow> live h' xs' q k \<and> back_ptr (mem h') q = back_ptr (mem h) q \<and>
        (\<forall>i. q \<le> i \<and> i < q + k \<longrightarrow> mem h' i = mem h i)) \<and>
     (\<forall>i. \<not> (lo \<le> i \<and> i < hi) \<longrightarrow> mem h' i = mem h i)"

lemma keeps_refl: "heap_inv h xs lo hi \<Longrightarrow> keeps D h xs h xs lo hi"
  by (simp add: keeps_def)

lemma keeps_trans:
  "keeps D h xs h' xs' lo hi \<Longrightarrow> keeps E h' xs' h'' xs'' lo hi \<Longrightarrow> keeps (D \<union> E) h xs h'' xs'' lo hi"
  unfolding keeps_def by (metis Un_iff)

lemma keeps_free:
  assumes inv: "heap_inv h xs lo hi" and l: "live h xs p n"
  shows "\<exists>ys. keeps {back_ptr (mem h) p} h xs (kfree p h) ys lo hi"
proof -
  obtain ys b s zs where f: "xs = ys @ (b, s, False) # zs" "back_ptr (mem h) p = b"
    "heap_inv (kfree p h) (released ys b s zs) lo hi" "same_payloads (used_blocks (ys @ zs)) h (kfree p h)"
    "\<And>i. \<not> (lo \<le> i \<and> i < hi) \<Longrightarrow> mem (kfree p h) i = mem h i"
    by (rule kfree_ok [OF inv l]) (rule that)
  have u: "used_blocks (ys @ zs) \<subseteq> used_blocks (released ys b s zs)" by (simp add: used_blocks_released)
  have x: "(back_ptr (mem h) q, t) \<in> used_blocks (ys @ zs)"
    if "back_ptr (mem h) q \<notin> {b}" "(back_ptr (mem h) q, t) \<in> used_blocks xs" for q t
    using that f(1) by auto
  show ?thesis unfolding keeps_def f(2)
    using live_kept [OF inv _ f(4) u] x f(3,5) by blast
qed

lemma keeps_write:
  assumes "heap_inv h xs lo hi" "live h xs p n" "\<forall>i. \<not> (p \<le> i \<and> i < p + n) \<longrightarrow> m' i = mem h i"
  shows "keeps {back_ptr (mem h) p} h xs (h\<lparr>mem := m'\<rparr>) xs lo hi"
proof -
  note w = payload_write_ok [OF assms]
  have m: "mem (h\<lparr>mem := m'\<rparr>) = m'" by simp
  show ?thesis unfolding keeps_def m using w by blast
qed

lemma node_keeps:
  assumes k: "keeps D h xs h' xs' lo hi" and n: "node_ok h xs lo hi n" "is_used n"
    and d: "is_dynamic n \<Longrightarrow> back_ptr (mem h) (data n) \<notin> D"
  shows "node_ok h' xs' lo hi n" "contents (mem h') n = contents (mem h) n"
    "is_dynamic n \<Longrightarrow> back_ptr (mem h') (data n) = back_ptr (mem h) (data n)"
proof -
  have dyn: "live h' xs' (data n) (fsize n + 1)" "back_ptr (mem h') (data n) = back_ptr (mem h) (data n)"
    "\<And>i. data n \<le> i \<Longrightarrow> i < data n + (fsize n + 1) \<Longrightarrow> mem h' i = mem h i" if "is_dynamic n"
    using k n d [OF that] that unfolding keeps_def node_ok_def by blast+
  show "node_ok h' xs' lo hi n" using n dyn(1) by (auto simp: node_ok_def)
  show "is_dynamic n \<Longrightarrow> back_ptr (mem h') (data n) = back_ptr (mem h) (data n)" by (rule dyn(2))
  have "mem h' i = mem h i" if "data n \<noteq> 0" "data n \<le> i" "i < data n + fsize n" for i
  proof (cases "is_dynamic n")
    case True
    then show ?thesis using dyn(3) that by simp
  next
    case False
    then have "\<not> (lo \<le> i \<and> i < hi)" using n that by (auto simp: node_ok_def)
    then show ?thesis using k unfolding keeps_def by blast
  qed
  then show "contents (mem h') n = contents (mem h) n" by (simp add: contents_def)
qed

text \<open>
  The general update: node \<open>i\<close> of a well-formed table is replaced and the heap moves on, giving up at
  most the data of the old node.
\<close>

lemma vfs_update:
  assumes v: "vfs_ok v xs lo hi" and i: "i < 64"
    and k: "keeps D (heap v) xs h' xs' lo hi"
    and D: "\<And>j. j < 64 \<Longrightarrow> j \<noteq> i \<Longrightarrow> is_used (vfs_table v ! j) \<Longrightarrow> is_dynamic (vfs_table v ! j) \<Longrightarrow>
      back_ptr (mem (heap v)) (data (vfs_table v ! j)) \<notin> D"
    and n: "length (path n) = 128" "path n ! 127 = 0" "node_ok h' xs' lo hi n"
    and new: "\<And>j. j < 64 \<Longrightarrow> j \<noteq> i \<Longrightarrow> is_used (vfs_table v ! j) \<Longrightarrow> is_used n \<Longrightarrow>
      node_path (vfs_table v ! j) \<noteq> node_path n \<and>
      (is_dynamic (vfs_table v ! j) \<and> is_dynamic n \<longrightarrow> back_ptr (mem (heap v)) (data (vfs_table v ! j)) \<noteq> back_ptr (mem h') (data n))"
    and v': "heap v' = h'" "vfs_table v' = (vfs_table v)[i := n]" "vfs_node_count v' = used_count ((vfs_table v)[i := n])"
  shows "vfs_ok v' xs' lo hi"
    and "\<And>p. files v' p = (if is_used n \<and> p = node_path n then Some (contents (mem h') n)
        else if is_used (vfs_table v ! i) \<and> p = node_path (vfs_table v ! i) then None else files v p)"
proof -
  let ?ns = "vfs_table v" and ?ns' = "(vfs_table v)[i := n]"
  have t: "table_ok (mem (heap v)) ?ns" "length ?ns = 64" and ok: "\<And>j. j < 64 \<Longrightarrow> node_ok (heap v) xs lo hi (?ns ! j)"
    using v by (auto simp: vfs_ok_def table_ok_def)
  have keep: "node_ok h' xs' lo hi (?ns ! j)" "is_used (?ns ! j) \<Longrightarrow> contents (mem h') (?ns ! j) = contents (mem (heap v)) (?ns ! j)"
    "is_used (?ns ! j) \<Longrightarrow> is_dynamic (?ns ! j) \<Longrightarrow> back_ptr (mem h') (data (?ns ! j)) = back_ptr (mem (heap v)) (data (?ns ! j))"
    if "j < 64" "j \<noteq> i" for j
    using node_keeps [OF k ok [OF that(1)]] D [OF that] by (cases "is_used (?ns ! j)"; simp add: node_ok_def)+
  have paths: "\<forall>n \<in> set ?ns. length (path n) = 128 \<and> path n ! 127 = 0" using t(1) by (simp add: table_ok_def)
  have t': "table_ok (mem h') ?ns'"
    unfolding table_ok_def
  proof (intro conjI allI impI)
    show "length ?ns' = 64" using t(2) by simp
    show "\<forall>n \<in> set ?ns'. length (path n) = 128 \<and> path n ! 127 = 0"
      using paths n(1,2) set_update_subset_insert [of ?ns i n] by blast
  next
    fix a b assume ab: "a < 64 \<and> b < 64 \<and> a \<noteq> b \<and> is_used (?ns' ! a) \<and> is_used (?ns' ! b)"
    have old: "node_path (?ns ! c) \<noteq> node_path (?ns ! d) \<and>
        (is_dynamic (?ns ! c) \<and> is_dynamic (?ns ! d) \<longrightarrow> back_ptr (mem (heap v)) (data (?ns ! c)) \<noteq> back_ptr (mem (heap v)) (data (?ns ! d)))"
      if "c < 64" "d < 64" "c \<noteq> d" "is_used (?ns ! c)" "is_used (?ns ! d)" for c d
      using t(1) that unfolding table_ok_def by blast
    show "node_path (?ns' ! a) \<noteq> node_path (?ns' ! b)"
      using ab old [of a b] new [of a] new [of b] t(2) i by (cases "a = i"; cases "b = i") (auto simp: eq_commute)
    show "back_ptr (mem h') (data (?ns' ! a)) \<noteq> back_ptr (mem h') (data (?ns' ! b))"
      if "is_dynamic (?ns' ! a) \<and> is_dynamic (?ns' ! b)"
      using ab that old [of a b] new [of a] new [of b] keep(3) [of a] keep(3) [of b] t(2) i
      by (cases "a = i"; cases "b = i") (auto simp: eq_commute)
  qed
  have nok: "\<forall>n \<in> set ?ns'. node_ok h' xs' lo hi n"
  proof
    fix x assume "x \<in> set ?ns'"
    then obtain j where "j < 64" "x = ?ns' ! j" using t(2) by (metis in_set_conv_nth length_list_update)
    then show "node_ok h' xs' lo hi x" using keep(1) [of j] n(3) t(2) by (cases "j = i") auto
  qed
  show ok': "vfs_ok v' xs' lo hi" using t' nok v' k unfolding vfs_ok_def keeps_def by simp
  show "files v' p = (if is_used n \<and> p = node_path n then Some (contents (mem h') n)
        else if is_used (?ns ! i) \<and> p = node_path (?ns ! i) then None else files v p)" for p
  proof -
    have tv: "table_ok (mem h') (vfs_table v')" using t' v' by simp
    have nth: "vfs_table v' ! i = n" "\<And>j. j \<noteq> i \<Longrightarrow> vfs_table v' ! j = ?ns ! j" "length (vfs_table v') = 64"
      using v'(2) t(2) i by simp_all
    consider (here) "is_used n" "p = node_path n"
      | (other) j where "\<not> (is_used n \<and> p = node_path n)" "j < 64" "j \<noteq> i" "is_used (?ns ! j)" "p = node_path (?ns ! j)"
      | (none) "\<not> (is_used n \<and> p = node_path n)" "\<And>j. j < 64 \<Longrightarrow> j \<noteq> i \<Longrightarrow> is_used (?ns ! j) \<Longrightarrow> p \<noteq> node_path (?ns ! j)"
      by blast
    then show ?thesis
    proof cases
      case here
      then show ?thesis using files_at [OF tv i] nth(1) v'(1) by simp
    next
      case (other j)
      have "\<not> (is_used (?ns ! i) \<and> p = node_path (?ns ! i))"
        using t(1) i other unfolding table_ok_def by auto
      then show ?thesis
        using files_at [OF tv other(2)] files_at [OF t(1) other(2)] nth(2) [OF other(3)] other keep(2) [OF other(2,3)] v'(1) by auto
    next
      case none
      have "files v' p = None"
      proof (rule files_none, intro ballI impI)
        fix x assume x: "x \<in> set (vfs_table v')" "is_used x"
        then obtain j where "j < 64" "x = vfs_table v' ! j" using nth(3) by (metis in_set_conv_nth)
        then show "node_path x \<noteq> p" using none x(2) nth by (cases "j = i") auto
      qed
      moreover have "files v p = None" if "\<not> (is_used (?ns ! i) \<and> p = node_path (?ns ! i))"
      proof (rule files_none, intro ballI impI)
        fix x assume x: "x \<in> set ?ns" "is_used x"
        then obtain j where "j < 64" "x = ?ns ! j" using t(2) by (metis in_set_conv_nth)
        then show "node_path x \<noteq> p" using none(2) x(2) that by (cases "j = i") auto
      qed
      ultimately show ?thesis using none(1) by auto
    qed
  qed
qed

lemma used_count_update:
  "i < length ns \<Longrightarrow> used_count (ns[i := n]) + (if is_used (ns ! i) then 1 else 0) = used_count ns + (if is_used n then 1 else 0)"
proof -
  assume i: "i < length ns"
  have "used_count ns = used_count (take i ns) + (if is_used (ns ! i) then 1 else 0) + used_count (drop (i + 1) ns)"
    by (subst id_take_nth_drop [OF i]) (simp add: used_count_def)
  moreover have "used_count (ns[i := n]) = used_count (take i ns) + (if is_used n then 1 else 0) + used_count (drop (i + 1) ns)"
    using i by (simp add: upd_conv_take_nth_drop used_count_def)
  ultimately show ?thesis by simp
qed

lemma used_count_le: "used_count ns \<le> length ns"
  by (simp add: used_count_def)

text \<open>Releasing the data of a node in use.\<close>

lemma keeps_free_data:
  assumes v: "vfs_ok v xs lo hi" and i: "i < 64" "is_used (vfs_table v ! i)"
    and k: "keeps E (heap v) xs h' xs' lo hi"
    and E: "is_dynamic (vfs_table v ! i) \<longrightarrow> back_ptr (mem (heap v)) (data (vfs_table v ! i)) \<notin> E"
  shows "\<exists>ys D. keeps D h' xs' (free_data (vfs_table v ! i) h') ys lo hi \<and>
    (\<forall>j. j < 64 \<and> j \<noteq> i \<and> is_used (vfs_table v ! j) \<and> is_dynamic (vfs_table v ! j) \<longrightarrow>
       back_ptr (mem (heap v)) (data (vfs_table v ! j)) \<notin> D) \<and> D \<subseteq> {back_ptr (mem (heap v)) (data (vfs_table v ! i))} \<and>
    (is_dynamic (vfs_table v ! i) \<or> D = {})"
proof -
  let ?n = "vfs_table v ! i"
  have t: "table_ok (mem (heap v)) (vfs_table v)" "node_ok (heap v) xs lo hi ?n" "heap_inv (heap v) xs lo hi"
    using v i by (auto simp: vfs_ok_def table_ok_def)
  have inv': "heap_inv h' xs' lo hi" using k t(3) by (auto simp: keeps_def)
  show ?thesis
  proof (cases "is_dynamic ?n \<and> data ?n \<noteq> 0")
    case True
    then have l: "live (heap v) xs (data ?n) (fsize ?n + 1)" using t(2) i(2) by (simp add: node_ok_def)
    then have l': "live h' xs' (data ?n) (fsize ?n + 1)" "back_ptr (mem h') (data ?n) = back_ptr (mem (heap v)) (data ?n)"
      using k E True by (auto simp: keeps_def)
    obtain ys where "keeps {back_ptr (mem h') (data ?n)} h' xs' (kfree (data ?n) h') ys lo hi"
      using keeps_free [OF inv' l'(1)] by blast
    moreover have "back_ptr (mem (heap v)) (data (vfs_table v ! j)) \<noteq> back_ptr (mem (heap v)) (data ?n)"
      if "j < 64" "j \<noteq> i" "is_used (vfs_table v ! j)" "is_dynamic (vfs_table v ! j)" for j
      using t(1) that i True unfolding table_ok_def by blast
    ultimately show ?thesis using True l'(2)
      by (intro exI [of _ ys] exI [of _ "{back_ptr (mem h') (data ?n)}"]) (auto simp: free_data_def)
  next
    case False
    then show ?thesis using keeps_refl [OF inv', of "{}"]
      by (intro exI [of _ xs'] exI [of _ "{}"]) (auto simp: free_data_def)
  qed
qed

section \<open>The operations\<close>

lemma clean_path_valid:
  assumes "terminated s"
  obtains cp where "clean_path (Ptr s) = Some cp" "terminated cp" "cstr cp = norm_path (cstr s)" "length (cstr cp) \<le> 127"
    "canonical (norm_path (cstr s))"
  using clean_path_norm [OF assms] norm_path_canonical [OF cstr_no_nul, of s] that by (auto simp: canonical_def)

lemma vfs_scan:
  assumes v: "vfs_ok v xs lo hi" and cp: "terminated cp"
  obtains (hit) i where "find_path (vfs_table v) cp 0 = Some (Ptr i)" "i < 64" "is_used (vfs_table v ! i)"
      "node_path (vfs_table v ! i) = cstr cp"
  | (miss) "find_path (vfs_table v) cp 0 = Some NULL" "\<And>j. j < 64 \<Longrightarrow> is_used (vfs_table v ! j) \<Longrightarrow> node_path (vfs_table v ! j) \<noteq> cstr cp"
      "files v (cstr cp) = None"
proof -
  have l: "length (vfs_table v) = 64" "\<forall>n \<in> set (vfs_table v). terminated (path n)"
    using v terminated_127 by (auto simp: vfs_ok_def table_ok_def)
  obtain r where r: "find_path (vfs_table v) cp 0 = Some r"
    "case r of NULL \<Rightarrow> \<forall>n \<in> set (vfs_table v). is_used n \<longrightarrow> node_path n \<noteq> cstr cp
     | Ptr j \<Rightarrow> 0 \<le> j \<and> j - 0 < length (vfs_table v) \<and> is_used (vfs_table v ! (j - 0)) \<and> node_path (vfs_table v ! (j - 0)) = cstr cp"
    using find_path_scan [OF l(2) cp, of 0] by blast
  show thesis
  proof (cases r)
    case NULL
    then show thesis using miss r files_none [of v "cstr cp"] l(1) by simp
  next
    case (Ptr j)
    then show thesis using hit r l(1) by simp
  qed
qed

lemma vfs_free_slot:
  assumes v: "vfs_ok v xs lo hi"
  obtains (slot) i where "find_free (vfs_table v) 0 = Ptr i" "i < 64" "\<not> is_used (vfs_table v ! i)" "vfs_node_count v < 64"
  | (full) "find_free (vfs_table v) 0 = NULL" "vfs_node_count v = 64"
proof (cases "find_free (vfs_table v) 0")
  case NULL
  then show thesis using full find_free_scan [of "vfs_table v" 0] v by (simp add: vfs_ok_def table_ok_def)
next
  case (Ptr i)
  then show thesis using slot find_free_scan [of "vfs_table v" 0] v by (simp add: vfs_ok_def table_ok_def)
qed

text \<open>What the table holds of a path, as the files see it.\<close>

lemma files_hit:
  "vfs_ok v xs lo hi \<Longrightarrow> i < 64 \<Longrightarrow> is_used (vfs_table v ! i) \<Longrightarrow>
   files v (node_path (vfs_table v ! i)) = Some (contents (mem (heap v)) (vfs_table v ! i))"
  unfolding vfs_ok_def using files_at by blast

lemma kvfs_delete_ok:
  assumes v: "vfs_ok v xs lo hi" and s: "terminated s"
  shows "\<exists>r v' ys. kvfs_delete (Ptr s) v = Some (r, v') \<and> vfs_ok v' ys lo hi \<and>
    r = (if files v (norm_path (cstr s)) = None then -1 else 0) \<and> files v' = (files v)(norm_path (cstr s) := None) \<and>
    (\<forall>i. \<not> (lo \<le> i \<and> i < hi) \<longrightarrow> mem (heap v') i = mem (heap v) i)"
proof -
  obtain cp where cp: "clean_path (Ptr s) = Some cp" "terminated cp" "cstr cp = norm_path (cstr s)"
    by (rule clean_path_valid [OF s])
  show ?thesis
  proof (rule vfs_scan [OF v cp(2)])
    fix i assume i: "find_path (vfs_table v) cp 0 = Some (Ptr i)" "i < 64" "is_used (vfs_table v ! i)"
      "node_path (vfs_table v ! i) = cstr cp"
    let ?n = "vfs_table v ! i"
    let ?n' = "?n\<lparr>is_used := False, path := (path ?n)[0 := 0], data := 0\<rparr>"
    obtain ys D where k: "keeps D (heap v) xs (free_data ?n (heap v)) ys lo hi"
      "\<forall>j. j < 64 \<and> j \<noteq> i \<and> is_used (vfs_table v ! j) \<and> is_dynamic (vfs_table v ! j) \<longrightarrow>
         back_ptr (mem (heap v)) (data (vfs_table v ! j)) \<notin> D"
      using keeps_free_data [OF v i(2,3) keeps_refl, of "{}"] v by (auto simp: vfs_ok_def)
    define v' where "v' = v\<lparr>heap := free_data ?n (heap v), vfs_table := (vfs_table v)[i := ?n'],
      vfs_node_count := (if vfs_node_count v > 0 then vfs_node_count v - 1 else vfs_node_count v)\<rparr>"
    have l: "length (vfs_table v) = 64" "length (path ?n) = 128" "path ?n ! 127 = 0"
      using v i(2) by (auto simp: vfs_ok_def table_ok_def)
    have c: "vfs_node_count v' = used_count ((vfs_table v)[i := ?n'])"
      using used_count_update [of i "vfs_table v" ?n'] v i(2,3) l(1) by (simp add: v'_def vfs_ok_def)
    note up = vfs_update [OF v i(2) k(1), of ?n' v']
    have "vfs_ok v' ys lo hi" by (rule up(1)) (use k(2) l c in \<open>auto simp: node_ok_def v'_def\<close>)
    moreover have "files v' p = (if is_used ?n' \<and> p = node_path ?n' then Some (contents (mem (free_data ?n (heap v))) ?n')
        else if is_used ?n \<and> p = node_path ?n then None else files v p)" for p
      by (rule up(2)) (use k(2) l c in \<open>auto simp: node_ok_def v'_def\<close>)
    then have "files v' = (files v)(norm_path (cstr s) := None)" using i(3,4) cp(3) by auto
    moreover have "kvfs_delete (Ptr s) v = Some (0, v')"
      using cp(1) i(1) by (simp add: kvfs_delete_def v'_def Let_def)
    moreover have "\<forall>i. \<not> (lo \<le> i \<and> i < hi) \<longrightarrow> mem (heap v') i = mem (heap v) i" using k(1) by (simp add: keeps_def v'_def)
    ultimately show ?thesis using files_hit [OF v i(2,3)] i(4) cp(3) by auto
  next
    assume "find_path (vfs_table v) cp 0 = Some NULL" "files v (cstr cp) = None"
    then show ?thesis using v cp by (auto simp: kvfs_delete_def fun_eq_iff)
  qed
qed

lemma vfs_heap_step:
  assumes v: "vfs_ok v xs lo hi" and k: "keeps D (heap v) xs h' xs' lo hi"
    and D: "\<And>j. j < 64 \<Longrightarrow> is_used (vfs_table v ! j) \<Longrightarrow> is_dynamic (vfs_table v ! j) \<Longrightarrow>
      back_ptr (mem (heap v)) (data (vfs_table v ! j)) \<notin> D"
  shows "vfs_ok (v\<lparr>heap := h'\<rparr>) xs' lo hi" "files (v\<lparr>heap := h'\<rparr>) = files v"
proof -
  have l: "length (vfs_table v) = 64" using v by (simp add: vfs_ok_def table_ok_def)
  then have m: "vfs_table v ! 0 \<in> set (vfs_table v)" by simp
  have n0: "node_ok (heap v) xs lo hi (vfs_table v ! 0)" "length (path (vfs_table v ! 0)) = 128" "path (vfs_table v ! 0) ! 127 = 0"
    using v m by (auto simp: vfs_ok_def table_ok_def)
  have nk: "node_ok h' xs' lo hi (vfs_table v ! 0) \<and>
      (is_used (vfs_table v ! 0) \<longrightarrow> contents (mem h') (vfs_table v ! 0) = contents (mem (heap v)) (vfs_table v ! 0) \<and>
        (is_dynamic (vfs_table v ! 0) \<longrightarrow> back_ptr (mem h') (data (vfs_table v ! 0)) = back_ptr (mem (heap v)) (data (vfs_table v ! 0))))"
    using node_keeps [OF k n0(1)] D [of 0] by (cases "is_used (vfs_table v ! 0)") (auto simp: node_ok_def)
  have tbl: "\<And>j. j < 64 \<Longrightarrow> j \<noteq> 0 \<Longrightarrow> is_used (vfs_table v ! j) \<Longrightarrow> is_used (vfs_table v ! 0) \<Longrightarrow>
      node_path (vfs_table v ! j) \<noteq> node_path (vfs_table v ! 0) \<and>
      (is_dynamic (vfs_table v ! j) \<and> is_dynamic (vfs_table v ! 0) \<longrightarrow>
        back_ptr (mem (heap v)) (data (vfs_table v ! j)) \<noteq> back_ptr (mem h') (data (vfs_table v ! 0)))"
    using v nk unfolding vfs_ok_def table_ok_def by (metis zero_less_numeral)
  have c: "vfs_node_count v = used_count ((vfs_table v)[0 := vfs_table v ! 0])" using v by (simp add: vfs_ok_def)
  note up = vfs_update [where v' = "v\<lparr>heap := h'\<rparr>", OF v _ k D n0(2,3) _ tbl]
  show "vfs_ok (v\<lparr>heap := h'\<rparr>) xs' lo hi" by (rule up(1)) (use nk c in auto)
  have "files (v\<lparr>heap := h'\<rparr>) p = (if is_used (vfs_table v ! 0) \<and> p = node_path (vfs_table v ! 0)
        then Some (contents (mem h') (vfs_table v ! 0))
        else if is_used (vfs_table v ! 0) \<and> p = node_path (vfs_table v ! 0) then None else files v p)" for p
    by (rule up(2)) (use nk c in auto)
  then show "files (v\<lparr>heap := h'\<rparr>) = files v"
    using nk files_hit [OF v, of 0] by (auto simp: fun_eq_iff)
qed

lemma kvfs_create_ok:
  assumes v: "vfs_ok v xs lo hi" and s: "terminated s" and dat: "dat = 0 \<or> dat + sz \<le> lo \<or> hi \<le> dat"
  shows "\<exists>r v' ys. kvfs_create (Ptr s) dat sz ty mo v = Some (r, v') \<and> vfs_ok v' ys lo hi \<and>
    vfs_node_count v' \<le> vfs_node_count v + 1 \<and> (\<forall>i. \<not> (lo \<le> i \<and> i < hi) \<longrightarrow> mem (heap v') i = mem (heap v) i) \<and>
    r = (if vfs_node_count v < 64 then 0 else -1) \<and>
    files v' = (if r = 0 then (files v)(norm_path (cstr s) \<mapsto> (if dat = 0 then [] else map (mem (heap v)) [dat..<dat + sz])) else files v)"
proof (cases "vfs_node_count v < 64")
  case False
  then show ?thesis using v by (auto simp: kvfs_create_def KVFS_MAX_NODES_def)
next
  case True
  obtain cp where cp: "clean_path (Ptr s) = Some cp" "terminated cp" "cstr cp = norm_path (cstr s)" "length (cstr cp) \<le> 127"
    "canonical (norm_path (cstr s))" by (rule clean_path_valid [OF s])
  have inv: "heap_inv (heap v) xs lo hi" using v by (simp add: vfs_ok_def)
  have cont: "contents (mem h') n = (if dat = 0 then [] else map (mem (heap v)) [dat..<dat + sz])"
    if "keeps D (heap v) xs h' ys lo hi" "data n = dat" "fsize n = sz" for D h' ys n
    using that dat unfolding contents_def keeps_def by auto
  show ?thesis
  proof (rule vfs_scan [OF v cp(2)])
    fix i assume i: "find_path (vfs_table v) cp 0 = Some (Ptr i)" "i < 64" "is_used (vfs_table v ! i)"
      "node_path (vfs_table v ! i) = cstr cp"
    let ?n = "vfs_table v ! i"
    let ?n' = "?n\<lparr>data := dat, fsize := sz, ntype := ty, fmode := mo, is_dynamic := False\<rparr>"
    obtain ys D where k: "keeps D (heap v) xs (free_data ?n (heap v)) ys lo hi"
      "\<forall>j. j < 64 \<and> j \<noteq> i \<and> is_used (vfs_table v ! j) \<and> is_dynamic (vfs_table v ! j) \<longrightarrow>
         back_ptr (mem (heap v)) (data (vfs_table v ! j)) \<notin> D"
      using keeps_free_data [OF v i(2,3) keeps_refl [OF inv], of "{}"] by auto
    define v' where "v' = v\<lparr>heap := free_data ?n (heap v), vfs_table := (vfs_table v)[i := ?n']\<rparr>"
    have l: "length (vfs_table v) = 64" "length (path ?n) = 128" "path ?n ! 127 = 0"
      using v i(2) by (auto simp: vfs_ok_def table_ok_def)
    have np: "node_path ?n' = node_path ?n" by (simp add: node_path_def)
    have old: "\<And>j. j < 64 \<Longrightarrow> j \<noteq> i \<Longrightarrow> is_used (vfs_table v ! j) \<Longrightarrow> node_path (vfs_table v ! j) \<noteq> node_path ?n"
      using v i(2,3) unfolding vfs_ok_def table_ok_def by blast
    have c: "vfs_node_count v' = used_count ((vfs_table v)[i := ?n'])"
      using used_count_update [of i "vfs_table v" ?n'] v i(2,3) l(1) by (simp add: v'_def vfs_ok_def)
    have no: "node_ok (free_data ?n (heap v)) ys lo hi ?n'"
      using dat cp(3,5) i(4) np by (auto simp: node_ok_def)
    note up = vfs_update [OF v i(2) k(1), of ?n' v']
    have "vfs_ok v' ys lo hi" by (rule up(1)) (use k(2) l c no old np in \<open>auto simp: v'_def\<close>)
    moreover have "files v' p = (if is_used ?n' \<and> p = node_path ?n' then Some (contents (mem (free_data ?n (heap v))) ?n')
        else if is_used ?n \<and> p = node_path ?n then None else files v p)" for p
      by (rule up(2)) (use k(2) l c no old np in \<open>auto simp: v'_def\<close>)
    then have "files v' = (files v)(norm_path (cstr s) \<mapsto> (if dat = 0 then [] else map (mem (heap v)) [dat..<dat + sz]))"
      using i(3,4) cp(3) np unfolding cont [OF k(1), of ?n', simplified] by (auto simp: fun_eq_iff)
    moreover have "kvfs_create (Ptr s) dat sz ty mo v = Some (0, v')"
      using cp(1) i(1) True by (simp add: kvfs_create_def v'_def Let_def KVFS_MAX_NODES_def)
    moreover have "\<forall>i. \<not> (lo \<le> i \<and> i < hi) \<longrightarrow> mem (heap v') i = mem (heap v) i" using k(1) by (simp add: keeps_def v'_def)
    ultimately show ?thesis using True by (intro exI [of _ 0] exI [of _ v'] exI [of _ ys]) (simp add: v'_def)
  next
    assume m: "find_path (vfs_table v) cp 0 = Some NULL"
      "\<And>j. j < 64 \<Longrightarrow> is_used (vfs_table v ! j) \<Longrightarrow> node_path (vfs_table v ! j) \<noteq> cstr cp"
    show ?thesis
    proof (rule vfs_free_slot [OF v])
      fix i assume i: "find_free (vfs_table v) 0 = Ptr i" "i < 64" "\<not> is_used (vfs_table v ! i)"
      let ?n = "vfs_table v ! i"
      have l: "length (vfs_table v) = 64" "length (path ?n) = 128" "path ?n ! 127 = 0"
        using v i(2) by (auto simp: vfs_ok_def table_ok_def)
      obtain np where np: "copy_path (path ?n) cp = Some np" "length np = 128" "np ! 127 = 0" "cstr np = cstr cp"
        using copy_path_ok [OF l(2,3) cp(2,4)] by blast
      let ?n' = "?n\<lparr>path := np, data := dat, fsize := sz, ntype := ty, fmode := mo, is_used := True, is_dynamic := False\<rparr>"
      define v' where "v' = v\<lparr>vfs_table := (vfs_table v)[i := ?n'], vfs_node_count := w32 (vfs_node_count v + 1)\<rparr>"
      have c: "vfs_node_count v' = used_count ((vfs_table v)[i := ?n'])"
        using used_count_update [of i "vfs_table v" ?n'] v i(2,3) l(1) True by (simp add: v'_def vfs_ok_def)
      have no: "node_ok (heap v) xs lo hi ?n'" "node_path ?n' = cstr cp"
        using dat cp(3,5) np(4) by (auto simp: node_ok_def node_path_def)
      note k = keeps_refl [OF inv, of "{}"]
      note up = vfs_update [OF v i(2) k, of ?n' v']
      have "vfs_ok v' xs lo hi" by (rule up(1)) (use l c no np m(2) in \<open>auto simp: v'_def\<close>)
      moreover have "files v' p = (if is_used ?n' \<and> p = node_path ?n' then Some (contents (mem (heap v)) ?n')
          else if is_used ?n \<and> p = node_path ?n then None else files v p)" for p
        by (rule up(2)) (use l c no np m(2) in \<open>auto simp: v'_def\<close>)
      then have "files v' = (files v)(norm_path (cstr s) \<mapsto> (if dat = 0 then [] else map (mem (heap v)) [dat..<dat + sz]))"
        using i(3) cp(3) no(2) unfolding cont [OF k, of ?n', simplified] by (auto simp: fun_eq_iff)
      moreover have "kvfs_create (Ptr s) dat sz ty mo v = Some (0, v')"
        using cp(1) m(1) i(1) np(1) True by (simp add: kvfs_create_def v'_def Let_def KVFS_MAX_NODES_def)
      ultimately show ?thesis using True by (intro exI [of _ 0] exI [of _ v'] exI [of _ xs]) (simp add: v'_def)
    next
      assume "vfs_node_count v = 64"
      then show ?thesis using True by simp
    qed
  qed
qed

text \<open>The fresh copy \<open>kvfs_write\<close> makes before it looks at the table.\<close>

lemma fresh_copy:
  assumes v: "vfs_ok v xs lo hi" and sz: "sz + 1 \<le> 2 ^ 31" and dat: "dat \<noteq> 0" "dat + sz \<le> lo \<or> hi \<le> dat"
  obtains (none) h1 ys where "kmalloc (w32 (sz + 1)) (heap v) = Some (0, h1)" "keeps {} (heap v) xs h1 ys lo hi"
  | (copy) p h1 h2 ys b where "kmalloc (w32 (sz + 1)) (heap v) = Some (p, h1)" "p \<noteq> 0"
      "h2 = h1\<lparr>mem := (kmemcpy (mem h1) p dat sz)(p + sz := 0)\<rparr>" "keeps {b} (heap v) xs h2 ys lo hi"
      "heap_inv h2 ys lo hi" "live h2 ys p (sz + 1)" "back_ptr (mem h2) p = b"
      "map (mem h2) [p..<p + sz] = map (mem (heap v)) [dat..<dat + sz]"
      "\<And>j. j < 64 \<Longrightarrow> is_used (vfs_table v ! j) \<Longrightarrow> is_dynamic (vfs_table v ! j) \<Longrightarrow>
        back_ptr (mem (heap v)) (data (vfs_table v ! j)) \<noteq> b"
proof -
  have inv: "heap_inv (heap v) xs lo hi" using v by (simp add: vfs_ok_def)
  have w: "w32 (sz + 1) = sz + 1" using sz by simp
  obtain p h1 ys where k: "kmalloc (sz + 1) (heap v) = Some (p, h1)" "heap_inv h1 ys lo hi"
    "p \<noteq> 0 \<Longrightarrow> live h1 ys p (sz + 1)"
    "\<And>q n. p \<noteq> 0 \<Longrightarrow> live (heap v) xs q n \<Longrightarrow> back_ptr (mem (heap v)) q \<noteq> back_ptr (mem h1) p \<and> (q + n \<le> p \<or> p + (sz + 1) \<le> q)"
    "same_payloads (used_blocks xs) (heap v) h1" "used_blocks xs \<subseteq> used_blocks ys"
    "\<And>i. \<not> (lo \<le> i \<and> i < hi) \<Longrightarrow> mem h1 i = mem (heap v) i"
    by (rule kmalloc_ok [OF inv _ sz]) (simp, rule that)
  have k1: "keeps {} (heap v) xs h1 ys lo hi"
    unfolding keeps_def using live_kept [OF inv _ k(5,6)] k(2,7) by blast
  show thesis
  proof (cases "p = 0")
    case True
    then show thesis using none k(1) k1 w by simp
  next
    case False
    define m' where "m' = (kmemcpy (mem h1) p dat sz)(p + sz := 0)"
    let ?b = "back_ptr (mem h1) p"
    note l = k(3) [OF False]
    obtain s where s: "(?b, s, False) \<in> set ys" "?b + 20 \<le> p" "p + (sz + 1) \<le> ?b + 16 + s"
      using l unfolding live_def used_blocks_def by auto
    have "tiled lo ys hi" using k(2) by (simp add: heap_inv_def)
    from tiled_in [OF this s(1)] s have pr: "lo \<le> p" "p + sz < hi" by linarith+
    have cp: "kmemcpy (mem h1) p dat sz = copied (mem h1) (mem h1) p dat sz"
      using dat(2) pr by (intro kmemcpy_copied) linarith
    have out: "\<forall>i. \<not> (p \<le> i \<and> i < p + (sz + 1)) \<longrightarrow> m' i = mem h1 i"
      unfolding m'_def cp copied_def by auto
    note pw = payload_write_ok [where m' = m', OF k(2) l out]
    have "keeps ({} \<union> {?b}) (heap v) xs (h1\<lparr>mem := m'\<rparr>) ys lo hi"
      using keeps_trans [OF k1 keeps_write [where m' = m', OF k(2) l out]] by simp
    moreover have "map (mem (h1\<lparr>mem := m'\<rparr>)) [p..<p + sz] = map (mem (heap v)) [dat..<dat + sz]"
    proof (rule nth_equalityI)
      fix i assume i: "i < length (map (mem (h1\<lparr>mem := m'\<rparr>)) [p..<p + sz])"
      then have "m' (p + i) = mem h1 (dat + i)" unfolding m'_def cp copied_def by simp
      also have "\<dots> = mem (heap v) (dat + i)" using i dat(2) by (intro k(7)) auto
      finally show "map (mem (h1\<lparr>mem := m'\<rparr>)) [p..<p + sz] ! i = map (mem (heap v)) [dat..<dat + sz] ! i"
        using i by simp
    qed simp
    moreover have "back_ptr (mem (heap v)) (data (vfs_table v ! j)) \<noteq> ?b"
      if "j < 64" "is_used (vfs_table v ! j)" "is_dynamic (vfs_table v ! j)" for j
    proof -
      have "vfs_table v ! j \<in> set (vfs_table v)" using v that(1) by (simp add: vfs_ok_def table_ok_def)
      then have "live (heap v) xs (data (vfs_table v ! j)) (fsize (vfs_table v ! j) + 1)"
        using v that(2,3) by (auto simp: vfs_ok_def node_ok_def)
      then show ?thesis using k(4) [OF False] by blast
    qed
    ultimately show thesis
      using copy [of p h1 "h1\<lparr>mem := m'\<rparr>" ?b ys] k(1) w False pw(1) pw(2) [OF l] unfolding m'_def by simp
  qed
qed

lemma kvfs_write_ok:
  assumes v: "vfs_ok v xs lo hi" and s: "terminated s" and sz: "sz + 1 \<le> 2 ^ 31"
    and dat: "dat \<noteq> 0" "dat + sz \<le> lo \<or> hi \<le> dat"
  shows "\<exists>r v' ys. kvfs_write (Ptr s) dat sz v = Some (r, v') \<and> vfs_ok v' ys lo hi \<and> (r = 0 \<or> r = -1) \<and>
    (r = 0 \<longrightarrow> files v' = (files v)(norm_path (cstr s) \<mapsto> map (mem (heap v)) [dat..<dat + sz]) \<and>
      (\<forall>j. j < 64 \<and> is_used (vfs_table v' ! j) \<and> node_path (vfs_table v' ! j) = norm_path (cstr s) \<longrightarrow> is_dynamic (vfs_table v' ! j))) \<and>
    (r = -1 \<longrightarrow> files v' = files v) \<and> (\<forall>i. \<not> (lo \<le> i \<and> i < hi) \<longrightarrow> mem (heap v') i = mem (heap v) i)"
proof -
  obtain cp where cp: "clean_path (Ptr s) = Some cp" "terminated cp" "cstr cp = norm_path (cstr s)" "length (cstr cp) \<le> 127"
    "canonical (norm_path (cstr s))" by (rule clean_path_valid [OF s])
  let ?src = "map (mem (heap v)) [dat..<dat + sz]"
  show ?thesis
  proof (rule fresh_copy [OF v sz dat])
    fix h1 ys assume a: "kmalloc (w32 (sz + 1)) (heap v) = Some (0, h1)" "keeps {} (heap v) xs h1 ys lo hi"
    have "kvfs_write (Ptr s) dat sz v = Some (-1, v\<lparr>heap := h1\<rparr>)" using a(1) cp(1) by (simp add: kvfs_write_def)
    then show ?thesis using vfs_heap_step [OF v a(2)] a(2)
      by (intro exI [of _ "-1"] exI [of _ "v\<lparr>heap := h1\<rparr>"] exI [of _ ys]) (simp add: keeps_def)
  next
    fix p h1 h2 ys b
    assume a: "kmalloc (w32 (sz + 1)) (heap v) = Some (p, h1)" "p \<noteq> 0"
      "h2 = h1\<lparr>mem := (kmemcpy (mem h1) p dat sz)(p + sz := 0)\<rparr>" "keeps {b} (heap v) xs h2 ys lo hi"
      "heap_inv h2 ys lo hi" "live h2 ys p (sz + 1)" "back_ptr (mem h2) p = b"
      "map (mem h2) [p..<p + sz] = ?src"
      "\<And>j. j < 64 \<Longrightarrow> is_used (vfs_table v ! j) \<Longrightarrow> is_dynamic (vfs_table v ! j) \<Longrightarrow>
        back_ptr (mem (heap v)) (data (vfs_table v ! j)) \<noteq> b"
    have cont: "contents (mem h3) n = ?src"
      if "keeps D h2 ys h3 zs lo hi" "b \<notin> D" "data n = p" "fsize n = sz" for D h3 zs n
    proof -
      have "\<forall>i. p \<le> i \<and> i < p + (sz + 1) \<longrightarrow> mem h3 i = mem h2 i" using that(1,2) a(6,7) unfolding keeps_def by blast
      then have "map (mem h3) [p..<p + sz] = map (mem h2) [p..<p + sz]" by simp
      then show ?thesis using that(3,4) a(2,8) by (simp add: contents_def)
    qed
    show ?thesis
    proof (rule vfs_scan [OF v cp(2)])
      fix i assume i: "find_path (vfs_table v) cp 0 = Some (Ptr i)" "i < 64" "is_used (vfs_table v ! i)"
        "node_path (vfs_table v ! i) = cstr cp"
      let ?n = "vfs_table v ! i"
      let ?n' = "?n\<lparr>data := p, fsize := sz, is_dynamic := True\<rparr>"
      have nb: "is_dynamic ?n \<longrightarrow> back_ptr (mem (heap v)) (data ?n) \<notin> {b}" using a(9) [OF i(2,3)] by simp
      obtain zs D where k: "keeps D h2 ys (free_data ?n h2) zs lo hi"
        "\<forall>j. j < 64 \<and> j \<noteq> i \<and> is_used (vfs_table v ! j) \<and> is_dynamic (vfs_table v ! j) \<longrightarrow>
           back_ptr (mem (heap v)) (data (vfs_table v ! j)) \<notin> D" "D \<subseteq> {back_ptr (mem (heap v)) (data ?n)}"
        "is_dynamic ?n \<or> D = {}"
        using keeps_free_data [OF v i(2,3) a(4) nb] by (elim exE conjE)
      have bD: "b \<notin> D" using k(3,4) a(9) [OF i(2,3)] by auto
      note kk = keeps_trans [OF a(4) k(1)]
      have fin: "live (free_data ?n h2) zs p (sz + 1)" "back_ptr (mem (free_data ?n h2)) p = b"
        using k(1) a(6,7) bD unfolding keeps_def by blast+
      define v' where "v' = v\<lparr>heap := free_data ?n h2, vfs_table := (vfs_table v)[i := ?n']\<rparr>"
      have l: "length (vfs_table v) = 64" "length (path ?n) = 128" "path ?n ! 127 = 0"
        using v i(2) by (auto simp: vfs_ok_def table_ok_def)
      have np: "node_path ?n' = node_path ?n" by (simp add: node_path_def)
      have old: "\<And>j. j < 64 \<Longrightarrow> j \<noteq> i \<Longrightarrow> is_used (vfs_table v ! j) \<Longrightarrow> node_path (vfs_table v ! j) \<noteq> node_path ?n"
        using v i(2,3) unfolding vfs_ok_def table_ok_def by blast
      have c: "vfs_node_count v' = used_count ((vfs_table v)[i := ?n'])"
        using used_count_update [of i "vfs_table v" ?n'] v i(2,3) l(1) by (simp add: v'_def vfs_ok_def)
      have no: "node_ok (free_data ?n h2) zs lo hi ?n'"
        using fin(1) cp(3,5) i(4) np by (auto simp: node_ok_def)
      have D': "\<And>j. j < 64 \<Longrightarrow> j \<noteq> i \<Longrightarrow> is_used (vfs_table v ! j) \<Longrightarrow> is_dynamic (vfs_table v ! j) \<Longrightarrow>
        back_ptr (mem (heap v)) (data (vfs_table v ! j)) \<notin> {b} \<union> D" using k(2) a(9) by blast
      note up = vfs_update [where v' = v' and n = ?n', OF v i(2) kk D']
      have "vfs_ok v' zs lo hi" by (rule up(1)) (use l c no old np fin(2) a(9) in \<open>auto simp: v'_def\<close>)
      moreover have "files v' q = (if is_used ?n' \<and> q = node_path ?n' then Some (contents (mem (free_data ?n h2)) ?n')
          else if is_used ?n \<and> q = node_path ?n then None else files v q)" for q
        by (rule up(2)) (use l c no old np fin(2) a(9) in \<open>auto simp: v'_def\<close>)
      then have "files v' = (files v)(norm_path (cstr s) \<mapsto> ?src)"
        using i(3,4) cp(3) np unfolding cont [OF k(1) bD, of ?n', simplified] by (auto simp: fun_eq_iff)
      moreover have "kvfs_write (Ptr s) dat sz v = Some (0, v')"
        using cp(1) i(1) a(1-3) dat(1) by (simp add: kvfs_write_def v'_def Let_def)
      moreover have "\<forall>i. \<not> (lo \<le> i \<and> i < hi) \<longrightarrow> mem (heap v') i = mem (heap v) i" using kk by (simp add: keeps_def v'_def)
      moreover have "is_dynamic (vfs_table v' ! j)"
        if "j < 64" "is_used (vfs_table v' ! j)" "node_path (vfs_table v' ! j) = norm_path (cstr s)" for j
        using that old [of j] i(2,4) cp(3) l(1) by (cases "j = i") (auto simp: v'_def)
      ultimately show ?thesis by (intro exI [of _ 0] exI [of _ v'] exI [of _ zs]) simp
    next
      assume m: "find_path (vfs_table v) cp 0 = Some NULL"
        "\<And>j. j < 64 \<Longrightarrow> is_used (vfs_table v ! j) \<Longrightarrow> node_path (vfs_table v ! j) \<noteq> cstr cp"
      show ?thesis
      proof (rule vfs_free_slot [OF v])
        fix i assume i: "find_free (vfs_table v) 0 = Ptr i" "i < 64" "\<not> is_used (vfs_table v ! i)" "vfs_node_count v < 64"
        let ?n = "vfs_table v ! i"
        have l: "length (vfs_table v) = 64" "length (path ?n) = 128" "path ?n ! 127 = 0"
          using v i(2) by (auto simp: vfs_ok_def table_ok_def)
        obtain np where np: "copy_path (path ?n) cp = Some np" "length np = 128" "np ! 127 = 0" "cstr np = cstr cp"
          using copy_path_ok [OF l(2,3) cp(2,4)] by blast
        let ?n' = "?n\<lparr>path := np, data := p, fsize := sz, ntype := KVFS_TYPE_FILE, fmode := 420, is_used := True, is_dynamic := True\<rparr>"
        define v' where "v' = v\<lparr>heap := h2, vfs_table := (vfs_table v)[i := ?n'], vfs_node_count := w32 (vfs_node_count v + 1)\<rparr>"
        have c: "vfs_node_count v' = used_count ((vfs_table v)[i := ?n'])"
          using used_count_update [of i "vfs_table v" ?n'] v i(2-4) l(1) by (simp add: v'_def vfs_ok_def)
        have no: "node_ok h2 ys lo hi ?n'" "node_path ?n' = cstr cp"
          using a(6) cp(3,5) np(4) by (auto simp: node_ok_def node_path_def)
        have D': "\<And>j. j < 64 \<Longrightarrow> j \<noteq> i \<Longrightarrow> is_used (vfs_table v ! j) \<Longrightarrow> is_dynamic (vfs_table v ! j) \<Longrightarrow>
          back_ptr (mem (heap v)) (data (vfs_table v ! j)) \<notin> {b}" using a(9) by blast
        note up = vfs_update [where v' = v' and n = ?n', OF v i(2) a(4) D']
        have "vfs_ok v' ys lo hi" by (rule up(1)) (use l c no np m(2) a(7,9) in \<open>auto simp: v'_def\<close>)
        moreover have "files v' q = (if is_used ?n' \<and> q = node_path ?n' then Some (contents (mem h2) ?n')
            else if is_used ?n \<and> q = node_path ?n then None else files v q)" for q
          by (rule up(2)) (use l c no np m(2) a(7,9) in \<open>auto simp: v'_def\<close>)
        then have "files v' = (files v)(norm_path (cstr s) \<mapsto> ?src)"
          using i(3) cp(3) no(2) unfolding cont [OF keeps_refl [OF a(5), of "{}"], of ?n', simplified] by (auto simp: fun_eq_iff)
        moreover have "kvfs_write (Ptr s) dat sz v = Some (0, v')"
          using cp(1) m(1) i(1) a(1-3) np(1) dat(1) by (simp add: kvfs_write_def v'_def Let_def)
        moreover have "\<forall>i. \<not> (lo \<le> i \<and> i < hi) \<longrightarrow> mem (heap v') i = mem (heap v) i" using a(4) by (simp add: keeps_def v'_def)
        moreover have "is_dynamic (vfs_table v' ! j)"
          if "j < 64" "is_used (vfs_table v' ! j)" "node_path (vfs_table v' ! j) = norm_path (cstr s)" for j
          using that m(2) [of j] i(2) cp(3) l(1) by (cases "j = i") (auto simp: v'_def)
        ultimately show ?thesis by (intro exI [of _ 0] exI [of _ v'] exI [of _ ys]) simp
      next
        assume f: "find_free (vfs_table v) 0 = NULL"
        obtain zs where z: "keeps {b} h2 ys (kfree p h2) zs lo hi" using keeps_free [OF a(5,6)] a(7) by auto
        note kz = keeps_trans [OF a(4) z]
        have st: "vfs_ok (v\<lparr>heap := kfree p h2\<rparr>) zs lo hi" "files (v\<lparr>heap := kfree p h2\<rparr>) = files v"
          using vfs_heap_step [OF v kz] a(9) by auto
        have "kvfs_write (Ptr s) dat sz v = Some (-1, v\<lparr>heap := kfree p h2\<rparr>)"
          using cp(1) m(1) f a(1-3) dat(1) by (simp add: kvfs_write_def Let_def)
        then show ?thesis using st kz
          by (intro exI [of _ "-1"] exI [of _ "v\<lparr>heap := kfree p h2\<rparr>"] exI [of _ zs]) (simp add: keeps_def)
      qed
    qed
  qed
qed

section \<open>Sequences of operations, opening and reading\<close>

text \<open>
  Client operations and their abstract meaning on the map of files.  The data handed over lies outside
  the heap region; its bytes are those of the memory \<open>m\<close> before the sequence.
\<close>

datatype vfs_op = Create "u8 list" nat nat kvfs_node_type nat | Write "u8 list" nat nat | Delete "u8 list"

fun vfs_step :: "vfs_op \<Rightarrow> vfs \<Rightarrow> (int \<times> vfs) option" where
  "vfs_step (Create p dat sz ty mo) v = kvfs_create (Ptr p) dat sz ty mo v"
| "vfs_step (Write p dat sz) v = kvfs_write (Ptr p) dat sz v"
| "vfs_step (Delete p) v = kvfs_delete (Ptr p) v"

fun legal_op :: "nat \<Rightarrow> nat \<Rightarrow> vfs_op \<Rightarrow> bool" where
  "legal_op lo hi (Create p dat sz ty mo) \<longleftrightarrow> terminated p \<and> (dat = 0 \<or> dat + sz \<le> lo \<or> hi \<le> dat)"
| "legal_op lo hi (Write p dat sz) \<longleftrightarrow> terminated p \<and> sz + 1 \<le> 2 ^ 31 \<and> dat \<noteq> 0 \<and> (dat + sz \<le> lo \<or> hi \<le> dat)"
| "legal_op lo hi (Delete p) \<longleftrightarrow> terminated p"

fun abs_step :: "memory \<Rightarrow> vfs_op \<times> int \<Rightarrow> (u8 list \<rightharpoonup> u8 list) \<Rightarrow> (u8 list \<rightharpoonup> u8 list)" where
  "abs_step m (Create p dat sz ty mo, r) fs =
     (if r = 0 then fs(norm_path (cstr p) \<mapsto> (if dat = 0 then [] else map m [dat..<dat + sz])) else fs)"
| "abs_step m (Write p dat sz, r) fs = (if r = 0 then fs(norm_path (cstr p) \<mapsto> map m [dat..<dat + sz]) else fs)"
| "abs_step m (Delete p, r) fs = (if r = 0 then fs(norm_path (cstr p) := None) else fs)"

fun run_vfs :: "vfs_op list \<Rightarrow> vfs \<Rightarrow> (int list \<times> vfs) option" where
  "run_vfs [] v = Some ([], v)"
| "run_vfs (x # xs) v = do { (r, v') \<leftarrow> vfs_step x v; (rs, v'') \<leftarrow> run_vfs xs v'; Some (r # rs, v'') }"

lemma map_outside:
  fixes m m' :: memory
  assumes "\<forall>i. \<not> (lo \<le> i \<and> i < hi) \<longrightarrow> m' i = m i" "a + n \<le> lo \<or> hi \<le> a"
  shows "map m' [a..<a + n] = map m [a..<a + n]"
  using assms by auto

lemma vfs_step_ok:
  assumes v: "vfs_ok v xs lo hi" and x: "legal_op lo hi x" and m: "\<forall>i. \<not> (lo \<le> i \<and> i < hi) \<longrightarrow> mem (heap v) i = m i"
  shows "\<exists>r v' ys. vfs_step x v = Some (r, v') \<and> vfs_ok v' ys lo hi \<and> (r = 0 \<or> r = -1) \<and>
    files v' = abs_step m (x, r) (files v) \<and> (\<forall>i. \<not> (lo \<le> i \<and> i < hi) \<longrightarrow> mem (heap v') i = m i)"
proof (cases x)
  case (Create p dat sz ty mo)
  then have l: "terminated p" "dat = 0 \<or> dat + sz \<le> lo \<or> hi \<le> dat" using x by auto
  obtain r v' ys where k: "kvfs_create (Ptr p) dat sz ty mo v = Some (r, v')" "vfs_ok v' ys lo hi"
    "\<forall>i. \<not> (lo \<le> i \<and> i < hi) \<longrightarrow> mem (heap v') i = mem (heap v) i" "r = (if vfs_node_count v < 64 then 0 else -1)"
    "files v' = (if r = 0 then (files v)(norm_path (cstr p) \<mapsto> (if dat = 0 then [] else map (mem (heap v)) [dat..<dat + sz])) else files v)"
    using kvfs_create_ok [OF v l, of ty mo] by blast
  have "dat \<noteq> 0 \<Longrightarrow> map (mem (heap v)) [dat..<dat + sz] = map m [dat..<dat + sz]"
    using map_outside [OF m] l(2) by blast
  then have "files v' = abs_step m (x, r) (files v)" using k(5) Create by auto
  then show ?thesis using k(1-4) Create m by (intro exI [of _ r] exI [of _ v'] exI [of _ ys]) auto
next
  case (Write p dat sz)
  then have l: "terminated p" "sz + 1 \<le> 2 ^ 31" "dat \<noteq> 0" "dat + sz \<le> lo \<or> hi \<le> dat" using x by auto
  obtain r v' ys where k: "kvfs_write (Ptr p) dat sz v = Some (r, v')" "vfs_ok v' ys lo hi" "r = 0 \<or> r = -1"
    "r = 0 \<longrightarrow> files v' = (files v)(norm_path (cstr p) \<mapsto> map (mem (heap v)) [dat..<dat + sz])"
    "r = -1 \<longrightarrow> files v' = files v" "\<forall>i. \<not> (lo \<le> i \<and> i < hi) \<longrightarrow> mem (heap v') i = mem (heap v) i"
    using kvfs_write_ok [OF v l] by blast
  have "files v' = abs_step m (x, r) (files v)" using k(3-5) map_outside [OF m l(4)] Write by auto
  then show ?thesis using k(1-3,6) Write m by (intro exI [of _ r] exI [of _ v'] exI [of _ ys]) auto
next
  case (Delete p)
  then have l: "terminated p" using x by auto
  obtain r v' ys where k: "kvfs_delete (Ptr p) v = Some (r, v')" "vfs_ok v' ys lo hi"
    "r = (if files v (norm_path (cstr p)) = None then -1 else 0)" "files v' = (files v)(norm_path (cstr p) := None)"
    "\<forall>i. \<not> (lo \<le> i \<and> i < hi) \<longrightarrow> mem (heap v') i = mem (heap v) i"
    using kvfs_delete_ok [OF v l] by blast
  have "files v' = abs_step m (x, r) (files v)" using k(3,4) Delete by auto
  then show ?thesis using k Delete m by (intro exI [of _ r] exI [of _ v'] exI [of _ ys]) auto
qed

lemma run_vfs_ok:
  "vfs_ok v xs lo hi \<Longrightarrow> \<forall>x \<in> set ops. legal_op lo hi x \<Longrightarrow> \<forall>i. \<not> (lo \<le> i \<and> i < hi) \<longrightarrow> mem (heap v) i = m i \<Longrightarrow>
   \<exists>rs v' ys. run_vfs ops v = Some (rs, v') \<and> vfs_ok v' ys lo hi \<and> length rs = length ops \<and>
     files v' = fold (abs_step m) (zip ops rs) (files v)"
proof (induction ops arbitrary: v xs)
  case (Cons x ops)
  obtain r v1 ys where s: "vfs_step x v = Some (r, v1)" "vfs_ok v1 ys lo hi" "files v1 = abs_step m (x, r) (files v)"
    "\<forall>i. \<not> (lo \<le> i \<and> i < hi) \<longrightarrow> mem (heap v1) i = m i"
    using vfs_step_ok [OF Cons.prems(1) _ Cons.prems(3), of x] Cons.prems(2) by auto
  obtain rs v2 zs where t: "run_vfs ops v1 = Some (rs, v2)" "vfs_ok v2 zs lo hi" "length rs = length ops"
    "files v2 = fold (abs_step m) (zip ops rs) (files v1)"
    using Cons.IH [OF s(2) _ s(4)] Cons.prems(2) by auto
  then show ?case using s by (intro exI [of _ "r # rs"] exI [of _ v2] exI [of _ zs]) simp
qed auto

lemma kvfs_open_ok:
  assumes v: "vfs_ok v xs lo hi" and s: "terminated s"
  shows "\<exists>r. kvfs_open (Ptr s) v = Some r \<and> (case r of NULL \<Rightarrow> files v (norm_path (cstr s)) = None
    | Ptr i \<Rightarrow> i < 64 \<and> is_used (vfs_table v ! i) \<and> node_path (vfs_table v ! i) = norm_path (cstr s) \<and>
        files v (norm_path (cstr s)) = Some (contents (mem (heap v)) (vfs_table v ! i)))"
proof -
  obtain cp where cp: "clean_path (Ptr s) = Some cp" "terminated cp" "cstr cp = norm_path (cstr s)"
    by (rule clean_path_valid [OF s])
  show ?thesis
  proof (rule vfs_scan [OF v cp(2)])
    fix i assume i: "find_path (vfs_table v) cp 0 = Some (Ptr i)" "i < 64" "is_used (vfs_table v ! i)"
      "node_path (vfs_table v ! i) = cstr cp"
    then show ?thesis using cp files_hit [OF v i(2,3)] by (simp add: kvfs_open_def)
  next
    assume "find_path (vfs_table v) cp 0 = Some NULL" "files v (cstr cp) = None"
    then show ?thesis using cp by (simp add: kvfs_open_def)
  qed
qed

lemma kvfs_read_ok:
  assumes "data n = a" "a \<noteq> 0" "buf \<noteq> 0" "fsize n < 2 ^ 31" "off + cnt < 2 ^ 32" "vfs_table v ! i = n"
    and disj: "buf + cnt \<le> a \<or> a + fsize n \<le> buf"
  shows "\<exists>v'. kvfs_read (Ptr i) buf off cnt v = (int (min cnt (fsize n - off)), v') \<and>
    map (mem (heap v')) [buf..<buf + min cnt (fsize n - off)] = take cnt (drop off (contents (mem (heap v)) n)) \<and>
    vfs_table v' = vfs_table v \<and>
    (\<forall>k. \<not> (buf \<le> k \<and> k < buf + min cnt (fsize n - off)) \<longrightarrow> mem (heap v') k = mem (heap v) k)"
proof (cases "fsize n \<le> off")
  case True
  then show ?thesis using assms by (intro exI [of _ v]) (simp add: kvfs_read_def contents_def)
next
  case False
  let ?n = "min cnt (fsize n - off)"
  have c: "(if w32 (off + cnt) > fsize n then fsize n - off else cnt) = ?n" using assms(5) False by auto
  have r: "kvfs_read (Ptr i) buf off cnt v = (wrap32 (int ?n),
      v\<lparr>heap := (heap v)\<lparr>mem := kmemcpy (mem (heap v)) buf (a + off) ?n\<rparr>\<rparr>)"
    using assms(1-3,6) False by (simp add: kvfs_read_def Let_def c)
  have w: "wrap32 (int ?n) = int ?n" using assms(4) by (intro wrap32_in) (simp add: in_i32_def)
  have cp: "kmemcpy (mem (heap v)) buf (a + off) ?n = copied (mem (heap v)) (mem (heap v)) buf (a + off) ?n"
    using disj False by (intro kmemcpy_copied) linarith
  have "map (copied (mem (heap v)) (mem (heap v)) buf (a + off) ?n) [buf..<buf + ?n] = take cnt (drop off (contents (mem (heap v)) n))"
  proof (rule nth_equalityI)
    fix j assume "j < length (map (copied (mem (heap v)) (mem (heap v)) buf (a + off) ?n) [buf..<buf + ?n])"
    then have j: "j < cnt" "off + j < fsize n" "buf + j < buf + ?n" by auto
    then show "map (copied (mem (heap v)) (mem (heap v)) buf (a + off) ?n) [buf..<buf + ?n] ! j =
        take cnt (drop off (contents (mem (heap v)) n)) ! j"
      using assms(1,2) by (simp add: copied_def contents_def add.assoc)
  qed (use assms(1,2) in \<open>simp add: contents_def\<close>)
  then show ?thesis unfolding r w cp using cp by (simp add: copied_def)
qed

lemma c_string_cstr: "0 \<notin> set (map of_char s :: u8 list) \<Longrightarrow> terminated (c_string s) \<and> cstr (c_string s) = map of_char s"
  by (simp add: c_string_def)

lemma store_bytes_frame: "\<not> (a \<le> i \<and> i < a + length bs) \<Longrightarrow> store_bytes m a bs i = m i"
  by (induction m a bs rule: store_bytes.induct) auto

lemma length_sample_bmp: "length sample_bmp = 3126"
  by (simp add: sample_bmp_def le16_def le32_def length_concat comp_def sum_list_triv)

section \<open>Properties\<close>

text \<open>
  C13: the file table over the heap implements a map from canonical paths to contents.  Any sequence
  of kvfs_create, kvfs_write and kvfs_delete calls on a well-formed state ends (no walk of the heap
  loops, no path runs out of its buffer), keeps the state well formed, and changes the map exactly as
  each call's result code says; data already stored is not disturbed by later calls.
\<close>
theorem kvfs_refines_map:
  "vfs_ok v xs lo hi \<Longrightarrow> \<forall>x \<in> set ops. legal_op lo hi x \<Longrightarrow>
   \<exists>rs v' ys. run_vfs ops v = Some (rs, v') \<and> vfs_ok v' ys lo hi \<and> length rs = length ops \<and>
     files v' = fold (abs_step (mem (heap v))) (zip ops rs) (files v)"
  by (rule run_vfs_ok) auto

definition blank_node :: kvfs_node where
  "blank_node = \<lparr>path = replicate 128 0, data = 0, fsize = 0, ntype = KVFS_TYPE_FILE, fmode = 0,
     is_used = False, is_dynamic = False\<rparr>"

definition sample_vfs :: vfs where
  "sample_vfs = \<lparr>vfs_table = replicate 64 blank_node, vfs_node_count = 0, heap = sample_heap\<rparr>"

lemma sample_vfs_ok: "vfs_ok sample_vfs [(4096, 65520, True)] 4096 69632"
  using sample_heap_inv
  by (auto simp: vfs_ok_def table_ok_def node_ok_def sample_vfs_def blank_node_def used_count_def)

theorem kvfs_refines_map_witness:
  "\<exists>rs v' ys. run_vfs [Write [47, 97, 0] 100 8, Create [98, 0] 200 4 KVFS_TYPE_BIN 493, Delete [47, 47, 97, 0]] sample_vfs = Some (rs, v') \<and>
     vfs_ok v' ys 4096 69632 \<and> length rs = length [Write [47, 97, 0] 100 8, Create [98, 0] 200 4 KVFS_TYPE_BIN 493, Delete [47, 47, 97, 0]] \<and>
     files v' = fold (abs_step (mem (heap sample_vfs)))
       (zip [Write [47, 97, 0] 100 8, Create [98, 0] 200 4 KVFS_TYPE_BIN 493, Delete [47, 47, 97, 0]] rs) (files sample_vfs)"
  by (rule kvfs_refines_map [OF sample_vfs_ok]) (simp add: terminated_def)

text \<open>
  C14: sanitize_path always produces a canonical path of at most 127 bytes (it starts with one slash,
  has no empty component and no slash at the end but for the root), leaves a canonical path as it is,
  and is therefore idempotent; it never writes outside its 128 bytes.
\<close>
theorem sanitize_path_canonical:
  "terminated s \<Longrightarrow> \<exists>out. clean_path (Ptr s) = Some out \<and> length out = 128 \<and> terminated out \<and> canonical (cstr out) \<and>
     (canonical (cstr s) \<longrightarrow> cstr out = cstr s) \<and>
     (\<exists>out'. clean_path (Ptr out) = Some out' \<and> cstr out' = cstr out)"
proof -
  assume s: "terminated s"
  obtain out where o: "clean_path (Ptr s) = Some out" "length out = 128" "terminated out" "cstr out = norm_path (cstr s)"
    using clean_path_norm [OF s] by blast
  have c: "canonical (cstr out)" using norm_path_canonical [OF cstr_no_nul] o(4) by simp
  obtain out' where "clean_path (Ptr out) = Some out'" "cstr out' = norm_path (cstr out)"
    using clean_path_norm [OF o(3)] by blast
  then show ?thesis using o c norm_path_idle [OF c] norm_path_idle [of "cstr s"] by auto
qed

theorem sanitize_path_canonical_witness:
  "\<exists>out. clean_path (Ptr [97, 47, 47, 98, 47, 0]) = Some out \<and> length out = 128 \<and> terminated out \<and> canonical (cstr out) \<and>
     (canonical (cstr [97, 47, 47, 98, 47, 0]) \<longrightarrow> cstr out = cstr [97, 47, 47, 98, 47, 0]) \<and>
     (\<exists>out'. clean_path (Ptr out) = Some out' \<and> cstr out' = cstr out)"
  by (rule sanitize_path_canonical) (simp add: terminated_def)

text \<open>
  what was written is what is read.  After a kvfs_write that reports success, kvfs_open of the
  same path finds a node, and kvfs_read through it returns the wanted part of the bytes that were
  written, for every offset and count whose sum does not overflow.
\<close>
theorem kvfs_write_open_read:
  assumes "vfs_ok v xs lo hi" "terminated s" "sz + 1 < 2 ^ 31" "dat \<noteq> 0" "dat + sz \<le> lo \<or> hi \<le> dat"
    and "off + cnt < 2 ^ 32" "buf \<noteq> 0" "buf + cnt \<le> lo \<or> hi \<le> buf" "kvfs_write (Ptr s) dat sz v = Some (0, v')"
  shows "\<exists>i n v''. kvfs_open (Ptr s) v' = Some (Ptr i) \<and> kvfs_read (Ptr i) buf off cnt v' = (int n, v'') \<and>
    map (mem (heap v'')) [buf..<buf + n] = take cnt (drop off (map (mem (heap v)) [dat..<dat + sz]))"
proof -
  obtain ys where w: "vfs_ok v' ys lo hi" "files v' (norm_path (cstr s)) = Some (map (mem (heap v)) [dat..<dat + sz])"
    "\<forall>j. j < 64 \<and> is_used (vfs_table v' ! j) \<and> node_path (vfs_table v' ! j) = norm_path (cstr s) \<longrightarrow> is_dynamic (vfs_table v' ! j)"
    using kvfs_write_ok [OF assms(1,2) _ assms(4,5)] assms(3,9) by auto
  obtain r where r: "kvfs_open (Ptr s) v' = Some r" "case r of NULL \<Rightarrow> files v' (norm_path (cstr s)) = None
    | Ptr i \<Rightarrow> i < 64 \<and> is_used (vfs_table v' ! i) \<and> node_path (vfs_table v' ! i) = norm_path (cstr s) \<and>
        files v' (norm_path (cstr s)) = Some (contents (mem (heap v')) (vfs_table v' ! i))"
    using kvfs_open_ok [OF w(1) assms(2)] by blast
  obtain i where i: "kvfs_open (Ptr s) v' = Some (Ptr i)" "i < 64" "is_used (vfs_table v' ! i)"
    "node_path (vfs_table v' ! i) = norm_path (cstr s)"
    "contents (mem (heap v')) (vfs_table v' ! i) = map (mem (heap v)) [dat..<dat + sz]"
    using r w(2) by (cases r) auto
  let ?n = "vfs_table v' ! i"
  have dyn: "is_dynamic ?n" using w(3) i(2-4) by blast
  have "?n \<in> set (vfs_table v')" using w(1) i(2) by (simp add: vfs_ok_def table_ok_def)
  then have ok: "node_ok (heap v') ys lo hi ?n" "tiled lo ys hi" using w(1) by (auto simp: vfs_ok_def heap_inv_def)
  then obtain b t where b: "(b, t, False) \<in> set ys" "b + 20 \<le> data ?n" "data ?n + fsize ?n + 1 \<le> b + 16 + t"
    using dyn i(3) unfolding node_ok_def live_def used_blocks_def by auto
  have "lo \<le> b" "b + 16 + t \<le> hi" using tiled_in [OF ok(2) b(1)] by auto
  then have disj: "buf + cnt \<le> data ?n \<or> data ?n + fsize ?n \<le> buf" using b assms(8) by linarith
  have d0: "data ?n \<noteq> 0" using b(2) by simp
  have "length (contents (mem (heap v')) ?n) = sz" using i(5) by simp
  then have sz: "fsize ?n = sz" using d0 by (simp add: contents_def)
  then have f31: "fsize ?n < 2 ^ 31" using assms(3) by simp
  obtain v'' where rd: "kvfs_read (Ptr i) buf off cnt v' = (int (min cnt (fsize ?n - off)), v'')"
    "map (mem (heap v'')) [buf..<buf + min cnt (fsize ?n - off)] = take cnt (drop off (contents (mem (heap v')) ?n))"
    using kvfs_read_ok [OF refl d0 assms(7) f31 assms(6) refl disj] by (elim exE conjE)
  show ?thesis
    by (intro exI [of _ i] exI [of _ "min cnt (fsize ?n - off)"] exI [of _ v''] conjI)
      (simp_all only: i(1) rd i(5))
qed

theorem kvfs_write_open_read_witness:
  "\<exists>r v'. kvfs_write (Ptr [47, 97, 0]) 100 8 sample_vfs = Some (r, v') \<and> (r = 0 \<longrightarrow>
     (\<exists>i n v''. kvfs_open (Ptr [47, 97, 0]) v' = Some (Ptr i) \<and> kvfs_read (Ptr i) 200 2 3 v' = (int n, v'') \<and>
       map (mem (heap v'')) [200..<200 + n] = take 3 (drop 2 (map (mem (heap sample_vfs)) [100..<100 + 8]))))"
proof -
  have t: "terminated [47, 97, 0]" by (simp add: terminated_def)
  obtain r v' where w: "kvfs_write (Ptr [47, 97, 0]) 100 8 sample_vfs = Some (r, v')"
    using kvfs_write_ok [OF sample_vfs_ok t, of 8 100] by auto
  then show ?thesis
    using kvfs_write_open_read [OF sample_vfs_ok t, of 8 100 2 3 200 v'] by auto
qed

text \<open>
  kvfs_read computes offset + count in 32 bits: for a count that wraps the sum, more bytes are
  copied than the file has left, so memory behind the file's data is read out.
\<close>
theorem kvfs_read_count_wraps:
  assumes "data n = a" "a \<noteq> 0" "buf \<noteq> 0" "off < fsize n" "fsize n < 2 ^ 31" "cnt = 2 ^ 32 - off" "vfs_table v ! i = n"
  shows "kvfs_read (Ptr i) buf off cnt v =
     (wrap32 (int cnt), v\<lparr>heap := (heap v)\<lparr>mem := kmemcpy (mem (heap v)) buf (a + off) cnt\<rparr>\<rparr>) \<and> fsize n - off < cnt"
proof -
  have "w32 (off + cnt) = 0" using assms(4-6) by (simp add: w32_def)
  then show ?thesis using assms by (simp add: kvfs_read_def Let_def)
qed

theorem kvfs_read_count_wraps_witness:
  "kvfs_read (Ptr 0) 500 1 (2 ^ 32 - 1) (sample_vfs\<lparr>vfs_table := [blank_node\<lparr>data := 100, fsize := 8\<rparr>]\<rparr>) =
     (wrap32 (int (2 ^ 32 - 1)), (sample_vfs\<lparr>vfs_table := [blank_node\<lparr>data := 100, fsize := 8\<rparr>]\<rparr>)
        \<lparr>heap := sample_heap\<lparr>mem := kmemcpy (mem sample_heap) 500 (100 + 1) (2 ^ 32 - 1)\<rparr>\<rparr>) \<and> 8 - 1 < (2 ^ 32 - 1 :: nat)"
  using kvfs_read_count_wraps [of "blank_node\<lparr>data := 100, fsize := 8\<rparr>" 100 500 1 "2 ^ 32 - 1"
      "sample_vfs\<lparr>vfs_table := [blank_node\<lparr>data := 100, fsize := 8\<rparr>]\<rparr>" 0]
  by (simp add: sample_vfs_def)

end
