(* ===== verification/Chip8.thy ===== *)
theory Chip8 imports Prelude begin

unbundle bit_operations_syntax

text \<open>
  The CHIP-8 interpreter of \<open>src/chip8/chip8.c\<close>: the machine state, one definition per group of
  instructions in the order of the \<open>switch\<close> of \<open>chip8_cycle\<close>, the keyboard, the timers and the
  frame loop of \<open>main\<close>.  An access outside one of the arrays of \<open>cpu\<close> has no value.  The results
  of \<open>rand\<close>, the file that holds the ROM, the clock and the characters typed are inputs.  The
  escape sequences that \<open>render_screen\<close> prints are abstracted to the values printed.

  The lemmas show the typing invariant of the state, that an instruction whose addresses lie in
  memory always has a result, what a sprite does to the screen, that the built-in program runs
  forever without leaving memory, and where the flag register is clobbered.
\<close>

section \<open>State\<close>

record chip8 =
  memory :: "u8 list"
  V :: "u8 list"
  I :: u16
  pc :: u16
  gfx :: "u8 list"
  delay_timer :: u8
  sound_timer :: u8
  stack :: "u16 list"
  sp :: u16
  key :: "u8 list"
  draw_flag :: int

definition MEMORY_SIZE :: nat where "MEMORY_SIZE = 4096"
definition V_REG_COUNT :: nat where "V_REG_COUNT = 16"
definition STACK_SIZE :: nat where "STACK_SIZE = 16"
definition GFX_WIDTH :: nat where "GFX_WIDTH = 64"
definition GFX_HEIGHT :: nat where "GFX_HEIGHT = 32"
definition KEY_COUNT :: nat where "KEY_COUNT = 16"
definition FONTSET_START :: nat where "FONTSET_START = 0x50"
definition PROGRAM_START :: nat where "PROGRAM_START = 0x200"

lemmas chip8_sizes [simp] = MEMORY_SIZE_def V_REG_COUNT_def STACK_SIZE_def GFX_WIDTH_def
  GFX_HEIGHT_def KEY_COUNT_def FONTSET_START_def PROGRAM_START_def

definition chip8_fontset :: "u8 list" where
  "chip8_fontset = [
    0xF0, 0x90, 0x90, 0x90, 0xF0,
    0x20, 0x60, 0x20, 0x20, 0x70,
    0xF0, 0x10, 0xF0, 0x80, 0xF0,
    0xF0, 0x10, 0xF0, 0x10, 0xF0,
    0x90, 0x90, 0xF0, 0x10, 0x10,
    0xF0, 0x80, 0xF0, 0x10, 0xF0,
    0xF0, 0x80, 0xF0, 0x90, 0xF0,
    0xF0, 0x10, 0x20, 0x40, 0x40,
    0xF0, 0x90, 0xF0, 0x90, 0xF0,
    0xF0, 0x90, 0xF0, 0x10, 0xF0,
    0xF0, 0x90, 0xF0, 0x90, 0x90,
    0xE0, 0x90, 0xE0, 0x90, 0xE0,
    0xF0, 0x80, 0x80, 0x80, 0xF0,
    0xE0, 0x90, 0x90, 0x90, 0xE0,
    0xF0, 0x80, 0xF0, 0x80, 0xF0,
    0xF0, 0x80, 0xF0, 0x80, 0x80]"

definition default_maze_rom :: "u8 list" where
  "default_maze_rom = [
    0x60, 0x00, 0x61, 0x00, 0xA2, 0x22, 0xC2, 0x01,
    0x32, 0x01, 0xA2, 0x1E, 0xD0, 0x14, 0x70, 0x04,
    0x30, 0x40, 0x12, 0x04, 0x60, 0x00, 0x71, 0x04,
    0x31, 0x20, 0x12, 0x04, 0x12, 0x1C, 0x80, 0x40,
    0x20, 0x10, 0x20, 0x40, 0x80, 0x10]"

text \<open>\<open>memcpy\<close> to an array of the machine: the bytes must fit.\<close>

definition copy_into :: "u8 list \<Rightarrow> nat \<Rightarrow> u8 list \<Rightarrow> u8 list option" where
  "copy_into b i src =
     (if i + length src \<le> length b then Some (take i b @ src @ drop (i + length src) b) else None)"

definition zero_chip8 :: chip8 where
  "zero_chip8 = \<lparr>memory = replicate MEMORY_SIZE 0, V = replicate V_REG_COUNT 0, I = 0, pc = 0,
     gfx = replicate (GFX_WIDTH * GFX_HEIGHT) 0, delay_timer = 0, sound_timer = 0,
     stack = replicate STACK_SIZE 0, sp = 0, key = replicate KEY_COUNT 0, draw_flag = 0\<rparr>"

definition chip8_init :: "chip8 option" where
  "chip8_init = do {
     let c = zero_chip8 \<lparr>pc := of_nat PROGRAM_START\<rparr>;
     m \<leftarrow> copy_into (memory c) FONTSET_START chip8_fontset;
     Some (c \<lparr>memory := m, draw_flag := 1\<rparr>)}"

text \<open>
  The ROM file is its length, as \<open>ftell\<close> reports it, with the bytes that \<open>fread\<close> delivers; no file
  when \<open>fopen\<close> fails.
\<close>

definition chip8_load_rom :: "(int \<times> u8 list) option \<Rightarrow> chip8 \<Rightarrow> (int \<times> chip8) option" where
  "chip8_load_rom file c = (case file of
     None \<Rightarrow> Some (- 1, c)
   | Some (fsize, bytes) \<Rightarrow>
       if fsize \<le> 0 \<or> fsize > int (MEMORY_SIZE - PROGRAM_START) then Some (- 1, c)
       else do {
         let got = take (nat fsize) bytes;
         m \<leftarrow> copy_into (memory c) PROGRAM_START got;
         Some (if length got > 0 then 0 else - 1, c \<lparr>memory := m\<rparr>)})"

section \<open>Instructions\<close>

definition getV :: "chip8 \<Rightarrow> u8 \<Rightarrow> u8 option" where
  "getV c x = rd (V c) (unat x)"

definition setV :: "u8 \<Rightarrow> u8 \<Rightarrow> chip8 \<Rightarrow> chip8 option" where
  "setV x v c = do {vs \<leftarrow> wr (V c) (unat x) v; Some (c \<lparr>V := vs\<rparr>)}"

definition skip_next :: "bool \<Rightarrow> chip8 \<Rightarrow> chip8" where
  "skip_next b c = (if b then c \<lparr>pc := pc c + 2\<rparr> else c)"

definition op_0 :: "u16 \<Rightarrow> chip8 \<Rightarrow> chip8 option" where
  "op_0 opcode c =
     (if opcode = 0x00E0 then Some (c \<lparr>gfx := replicate (GFX_WIDTH * GFX_HEIGHT) 0, draw_flag := 1\<rparr>)
      else if opcode = 0x00EE then
        (if sp c > 0 then do {
           let c = c \<lparr>sp := sp c - 1\<rparr>;
           a \<leftarrow> rd (stack c) (unat (sp c));
           Some (c \<lparr>pc := a\<rparr>)}
         else Some c)
      else Some c)"

definition op_2 :: "u16 \<Rightarrow> chip8 \<Rightarrow> chip8 option" where
  "op_2 nnn c =
     (if unat (sp c) < STACK_SIZE then do {
        st \<leftarrow> wr (stack c) (unat (sp c)) (pc c);
        Some (c \<lparr>stack := st, sp := sp c + 1, pc := nnn\<rparr>)}
      else Some c)"

definition op_8 :: "u8 \<Rightarrow> u8 \<Rightarrow> u8 \<Rightarrow> chip8 \<Rightarrow> chip8 option" where
  "op_8 n x y c = do {
     vx \<leftarrow> getV c x;
     vy \<leftarrow> getV c y;
     if n = 0x0 then setV x vy c
     else if n = 0x1 then setV x (vx OR vy) c
     else if n = 0x2 then setV x (vx AND vy) c
     else if n = 0x3 then setV x (vx XOR vy) c
     else if n = 0x4 then do {
       let s = (ucast vx + ucast vy :: u16);
       c \<leftarrow> setV 0xF (if s > 255 then 1 else 0) c;
       setV x (ucast (s AND 0xFF)) c}
     else if n = 0x5 then do {
       c \<leftarrow> setV 0xF (if vx \<ge> vy then 1 else 0) c;
       vx' \<leftarrow> getV c x;
       vy' \<leftarrow> getV c y;
       setV x (vx' - vy') c}
     else if n = 0x6 then do {
       c \<leftarrow> setV 0xF (vx AND 1) c;
       vx' \<leftarrow> getV c x;
       setV x (drop_bit 1 vx') c}
     else if n = 0x7 then do {
       c \<leftarrow> setV 0xF (if vy \<ge> vx then 1 else 0) c;
       vy' \<leftarrow> getV c y;
       vx' \<leftarrow> getV c x;
       setV x (vy' - vx') c}
     else if n = 0xE then do {
       c \<leftarrow> setV 0xF (drop_bit 7 vx AND 1) c;
       vx' \<leftarrow> getV c x;
       setV x (push_bit 1 vx') c}
     else Some c}"

text \<open>The two loops of the sprite instruction; the carried value is the screen and register F.\<close>

function draw_cols :: "u8 \<Rightarrow> nat \<Rightarrow> nat \<Rightarrow> nat \<Rightarrow> u8 list \<times> u8 \<Rightarrow> (u8 list \<times> u8) option" where
  "draw_cols sprite_byte vx yy col (g, vf) =
     (if col < 8 then
        if vx + col \<ge> GFX_WIDTH then Some (g, vf)
        else if sprite_byte AND drop_bit col 0x80 \<noteq> 0 then do {
          let idx = yy * GFX_WIDTH + (vx + col);
          p \<leftarrow> rd g idx;
          let vf = (if p = 1 then 1 else vf);
          g' \<leftarrow> wr g idx (p XOR 1);
          draw_cols sprite_byte vx yy (col + 1) (g', vf)}
        else draw_cols sprite_byte vx yy (col + 1) (g, vf)
      else Some (g, vf))"
  by pat_completeness auto
termination by (relation "measure (\<lambda>(_, _, _, col, _). 8 - col)") auto

function draw_rows :: "chip8 \<Rightarrow> nat \<Rightarrow> nat \<Rightarrow> nat \<Rightarrow> nat \<Rightarrow> u8 list \<times> u8 \<Rightarrow> (u8 list \<times> u8) option" where
  "draw_rows c vx vy n row s =
     (if row < n then
        if vy + row \<ge> GFX_HEIGHT then Some s
        else do {
          sprite_byte \<leftarrow> rd (memory c) (unat (I c) + row);
          s' \<leftarrow> draw_cols sprite_byte vx (vy + row) 0 s;
          draw_rows c vx vy n (row + 1) s'}
      else Some s)"
  by pat_completeness auto
termination by (relation "measure (\<lambda>(_, _, _, n, row, _). n - row)") auto

declare draw_cols.simps [simp del] draw_rows.simps [simp del]

definition op_D :: "u8 \<Rightarrow> u8 \<Rightarrow> u8 \<Rightarrow> chip8 \<Rightarrow> chip8 option" where
  "op_D n x y c = do {
     a \<leftarrow> getV c x;
     b \<leftarrow> getV c y;
     let vx = unat a mod GFX_WIDTH;
     let vy = unat b mod GFX_HEIGHT;
     (g, vf) \<leftarrow> draw_rows c vx vy (unat n) 0 (gfx c, 0);
     c \<leftarrow> setV 0xF vf c;
     Some (c \<lparr>gfx := g, draw_flag := 1\<rparr>)}"

definition op_E :: "u8 \<Rightarrow> u8 \<Rightarrow> chip8 \<Rightarrow> chip8 option" where
  "op_E kk x c =
     (if kk = 0x9E then do {
        v \<leftarrow> getV c x; k \<leftarrow> rd (key c) (unat (v AND 0xF)); Some (skip_next (k \<noteq> 0) c)}
      else if kk = 0xA1 then do {
        v \<leftarrow> getV c x; k \<leftarrow> rd (key c) (unat (v AND 0xF)); Some (skip_next (k = 0) c)}
      else Some c)"

function first_key :: "u8 list \<Rightarrow> nat \<Rightarrow> int option" where
  "first_key ks k =
     (if k < KEY_COUNT then do {
        v \<leftarrow> rd ks k;
        if v \<noteq> 0 then Some (int k) else first_key ks (k + 1)}
      else Some (- 1))"
  by pat_completeness auto
termination by (relation "measure (\<lambda>(_, k). KEY_COUNT - k)") auto

function store_regs :: "nat \<Rightarrow> nat \<Rightarrow> chip8 \<Rightarrow> chip8 option" where
  "store_regs x k c =
     (if k \<le> x then do {
        v \<leftarrow> rd (V c) k;
        m \<leftarrow> wr (memory c) (unat (I c) + k) v;
        store_regs x (k + 1) (c \<lparr>memory := m\<rparr>)}
      else Some c)"
  by pat_completeness auto
termination by (relation "measure (\<lambda>(x, k, _). Suc x - k)") auto

function load_regs :: "nat \<Rightarrow> nat \<Rightarrow> chip8 \<Rightarrow> chip8 option" where
  "load_regs x k c =
     (if k \<le> x then do {
        v \<leftarrow> rd (memory c) (unat (I c) + k);
        vs \<leftarrow> wr (V c) k v;
        load_regs x (k + 1) (c \<lparr>V := vs\<rparr>)}
      else Some c)"
  by pat_completeness auto
termination by (relation "measure (\<lambda>(x, k, _). Suc x - k)") auto

declare first_key.simps [simp del] store_regs.simps [simp del] load_regs.simps [simp del]

definition store_bcd :: "u8 \<Rightarrow> chip8 \<Rightarrow> chip8 option" where
  "store_bcd v c = do {
     m \<leftarrow> wr (memory c) (unat (I c)) (v div 100);
     m \<leftarrow> wr m (unat (I c) + 1) ((v div 10) mod 10);
     m \<leftarrow> wr m (unat (I c) + 2) (v mod 10);
     Some (c \<lparr>memory := m\<rparr>)}"

definition op_F :: "u8 \<Rightarrow> u8 \<Rightarrow> chip8 \<Rightarrow> chip8 option" where
  "op_F kk x c = do {
     v \<leftarrow> getV c x;
     if kk = 0x07 then setV x (delay_timer c) c
     else if kk = 0x0A then do {
       key_pressed \<leftarrow> first_key (key c) 0;
       if key_pressed \<ge> 0 then setV x (word_of_int key_pressed) c
       else Some (c \<lparr>pc := pc c - 2\<rparr>)}
     else if kk = 0x15 then Some (c \<lparr>delay_timer := v\<rparr>)
     else if kk = 0x18 then Some (c \<lparr>sound_timer := v\<rparr>)
     else if kk = 0x1E then Some (c \<lparr>I := I c + ucast v\<rparr>)
     else if kk = 0x29 then Some (c \<lparr>I := of_nat (FONTSET_START + unat v * 5)\<rparr>)
     else if kk = 0x33 then store_bcd v c
     else if kk = 0x55 then store_regs (unat x) 0 c
     else if kk = 0x65 then load_regs (unat x) 0 c
     else Some c}"

definition fetch :: "chip8 \<Rightarrow> u16 option" where
  "fetch c = do {
     hi \<leftarrow> rd (memory c) (unat (pc c));
     lo \<leftarrow> rd (memory c) (unat (pc c) + 1);
     Some (push_bit 8 (ucast hi) OR ucast lo)}"

text \<open>The dispatch on the decoded instruction, the program counter already advanced.\<close>

definition execute :: "nat \<Rightarrow> u16 \<Rightarrow> chip8 \<Rightarrow> chip8 option" where
  "execute rand opcode c = (
     let nnn = opcode AND 0x0FFF;
         n = (ucast (opcode AND 0x000F) :: u8);
         x = (ucast (drop_bit 8 (opcode AND 0x0F00)) :: u8);
         y = (ucast (drop_bit 4 (opcode AND 0x00F0)) :: u8);
         kk = (ucast (opcode AND 0x00FF) :: u8);
         t = opcode AND 0xF000 in
     if t = 0x0000 then op_0 opcode c
     else if t = 0x1000 then Some (c \<lparr>pc := nnn\<rparr>)
     else if t = 0x2000 then op_2 nnn c
     else if t = 0x3000 then do {vx \<leftarrow> getV c x; Some (skip_next (vx = kk) c)}
     else if t = 0x4000 then do {vx \<leftarrow> getV c x; Some (skip_next (vx \<noteq> kk) c)}
     else if t = 0x5000 then do {vx \<leftarrow> getV c x; vy \<leftarrow> getV c y; Some (skip_next (vx = vy) c)}
     else if t = 0x6000 then setV x kk c
     else if t = 0x7000 then do {vx \<leftarrow> getV c x; setV x (vx + kk) c}
     else if t = 0x8000 then op_8 n x y c
     else if t = 0x9000 then do {vx \<leftarrow> getV c x; vy \<leftarrow> getV c y; Some (skip_next (vx \<noteq> vy) c)}
     else if t = 0xA000 then Some (c \<lparr>I := nnn\<rparr>)
     else if t = 0xB000 then do {v0 \<leftarrow> getV c 0; Some (c \<lparr>pc := nnn + ucast v0\<rparr>)}
     else if t = 0xC000 then setV x (of_nat (rand mod 256) AND kk) c
     else if t = 0xD000 then op_D n x y c
     else if t = 0xE000 then op_E kk x c
     else op_F kk x c)"

definition chip8_cycle :: "nat \<Rightarrow> chip8 \<Rightarrow> chip8 option" where
  "chip8_cycle rand c = do {
     opcode \<leftarrow> fetch c;
     execute rand opcode (c \<lparr>pc := pc c + 2\<rparr>)}"

section \<open>Keyboard, timers and frames\<close>

definition key_of :: "char \<Rightarrow> int" where
  "key_of c =
     (if c = CHR ''1'' then 0x1 else if c = CHR ''2'' then 0x2
      else if c = CHR ''3'' then 0x3 else if c = CHR ''4'' then 0xC
      else if c \<in> {CHR ''q'', CHR ''Q''} then 0x4 else if c \<in> {CHR ''w'', CHR ''W''} then 0x5
      else if c \<in> {CHR ''e'', CHR ''E''} then 0x6 else if c \<in> {CHR ''r'', CHR ''R''} then 0xD
      else if c \<in> {CHR ''a'', CHR ''A''} then 0x7 else if c \<in> {CHR ''s'', CHR ''S''} then 0x8
      else if c \<in> {CHR ''d'', CHR ''D''} then 0x9 else if c \<in> {CHR ''f'', CHR ''F''} then 0xE
      else if c \<in> {CHR ''z'', CHR ''Z''} then 0xA else if c \<in> {CHR ''x'', CHR ''X''} then 0x0
      else if c \<in> {CHR ''c'', CHR ''C''} then 0xB else if c \<in> {CHR ''v'', CHR ''V''} then 0xF
      else - 1)"

definition map_key :: "char \<Rightarrow> int \<Rightarrow> chip8 \<Rightarrow> chip8 option" where
  "map_key ch state c = (
     let k = key_of ch in
     if k \<ge> 0 then do {ks \<leftarrow> wr (key c) (nat k) (word_of_int state); Some (c \<lparr>key := ks\<rparr>)}
     else Some c)"

fun run_cycles :: "nat list \<Rightarrow> chip8 \<Rightarrow> chip8 option" where
  "run_cycles [] c = Some c"
| "run_cycles (r # rs) c = do {c \<leftarrow> chip8_cycle r c; run_cycles rs c}"

definition tick_timers :: "chip8 \<Rightarrow> chip8" where
  "tick_timers c = (
     let c = (if delay_timer c > 0 then c \<lparr>delay_timer := delay_timer c - 1\<rparr> else c) in
     if sound_timer c > 0 then c \<lparr>sound_timer := sound_timer c - 1\<rparr> else c)"

definition render_screen :: "chip8 \<Rightarrow> (u16 \<times> u16 \<times> u8 \<times> u8 \<times> bool list list) option \<times> chip8" where
  "render_screen c =
     (if draw_flag c = 0 then (None, c)
      else (Some (pc c, sp c, delay_timer c, sound_timer c,
              map (\<lambda>y. map (\<lambda>x. gfx c ! (y * GFX_WIDTH + x) \<noteq> 0) [0..<GFX_WIDTH]) [0..<GFX_HEIGHT]),
            c \<lparr>draw_flag := 0\<rparr>))"

fun read_keys :: "char list \<Rightarrow> chip8 \<Rightarrow> (bool \<times> chip8) option" where
  "read_keys [] c = Some (True, c)"
| "read_keys (ch # chs) c =
     (if ch = CHR 0x1B \<or> ch = CHR ''0'' \<or> ch = CHR 0x03 then Some (False, c)
      else do {c \<leftarrow> map_key ch 1 c; read_keys chs c})"

type_synonym screen = "(u16 \<times> u16 \<times> u8 \<times> u8 \<times> bool list list) option"

text \<open>One turn of the loop of \<open>main\<close>: what was shown, whether to keep running, the new state.\<close>

definition frame :: "nat list \<Rightarrow> bool \<Rightarrow> char list \<Rightarrow> chip8 \<Rightarrow> (screen \<times> bool \<times> chip8) option" where
  "frame rands due typed c = do {
     c \<leftarrow> run_cycles rands c;
     let c = (if due then tick_timers c else c);
     let (shown, c) = render_screen c;
     (running, c) \<leftarrow> read_keys typed (c \<lparr>key := replicate KEY_COUNT 0\<rparr>);
     Some (shown, running, c)}"

text \<open>The state in which \<open>main\<close> enters its loop; without an argument it runs the built-in maze program.\<close>

definition boot :: "(int \<times> u8 list) option option \<Rightarrow> (int \<times> chip8) option" where
  "boot arg = do {
     c \<leftarrow> chip8_init;
     case arg of
       Some file \<Rightarrow> do {
         (r, c) \<leftarrow> chip8_load_rom file c;
         Some (if r < 0 then 1 else 0, c)}
     | None \<Rightarrow> do {
         m \<leftarrow> copy_into (memory c) PROGRAM_START default_maze_rom;
         Some (0, c \<lparr>memory := m\<rparr>)}}"

fun run_frames :: "(nat list \<times> bool \<times> char list) list \<Rightarrow> chip8 \<Rightarrow> (bool \<times> chip8) option" where
  "run_frames [] c = Some (True, c)"
| "run_frames ((rands, due, typed) # fs) c = do {
     (shown, running, c) \<leftarrow> frame rands due typed c;
     if running then run_frames fs c else Some (False, c)}"

section \<open>The state invariant\<close>

definition chip8_ok :: "chip8 \<Rightarrow> bool" where
  "chip8_ok c \<longleftrightarrow> length (memory c) = MEMORY_SIZE \<and> length (V c) = V_REG_COUNT
     \<and> length (gfx c) = GFX_WIDTH * GFX_HEIGHT \<and> list_all (\<lambda>p. p = 0 \<or> p = 1) (gfx c)
     \<and> length (stack c) = STACK_SIZE \<and> unat (sp c) \<le> STACK_SIZE \<and> length (key c) = KEY_COUNT"

lemma chip8_okD:
  assumes "chip8_ok c"
  shows "length (memory c) = 4096" "length (V c) = 16" "length (gfx c) = 2048"
    "length (stack c) = 16" "unat (sp c) \<le> 16" "length (key c) = 16"
  using assms by (simp_all add: chip8_ok_def)

lemma chip8_ok_updates [simp]:
  "chip8_ok (c \<lparr>pc := a\<rparr>) = chip8_ok c"
  "chip8_ok (c \<lparr>I := a\<rparr>) = chip8_ok c"
  "chip8_ok (c \<lparr>delay_timer := b\<rparr>) = chip8_ok c"
  "chip8_ok (c \<lparr>sound_timer := b\<rparr>) = chip8_ok c"
  "chip8_ok (c \<lparr>draw_flag := d\<rparr>) = chip8_ok c"
  "chip8_ok c \<Longrightarrow> chip8_ok (c \<lparr>V := vs\<rparr>) = (length vs = 16)"
  "chip8_ok c \<Longrightarrow> chip8_ok (c \<lparr>memory := m\<rparr>) = (length m = 4096)"
  "chip8_ok (skip_next t c) = chip8_ok c"
  by (simp_all add: chip8_ok_def skip_next_def)

lemma unat_nibble:
  "unat (ucast (drop_bit 8 (w AND 0x0F00)) :: u8) < 16"
  "unat (ucast (drop_bit 4 (w AND 0x00F0)) :: u8) < 16"
  "unat (ucast (w AND 0x000F) :: u8) < 16"
  for w :: u16
proof -
  have "unat (a AND 15) < 16" for a :: u16
    using word_and_le1 [of a 15] by (simp add: word_le_nat_alt)
  then show "unat (ucast (drop_bit 8 (w AND 0x0F00)) :: u8) < 16"
    "unat (ucast (drop_bit 4 (w AND 0x00F0)) :: u8) < 16"
    "unat (ucast (w AND 0x000F) :: u8) < 16"
    by (simp_all add: unsigned_ucast_eq take_bit_eq_mod) (meson le_less_trans mod_less_eq_dividend)+
qed

lemma getV_ok: "chip8_ok c \<Longrightarrow> unat x < 16 \<Longrightarrow> getV c x = Some (V c ! unat x)"
  by (simp add: getV_def chip8_okD)

lemma setV_ok: "chip8_ok c \<Longrightarrow> unat x < 16 \<Longrightarrow> setV x v c = Some (c \<lparr>V := (V c)[unat x := v]\<rparr>)"
  by (simp add: setV_def chip8_okD)

lemma setV_total: "chip8_ok c \<Longrightarrow> unat x < 16 \<Longrightarrow> \<exists>c'. setV x v c = Some c' \<and> chip8_ok c'"
  by (simp add: setV_ok chip8_okD)

lemma op_8_total:
  assumes "chip8_ok c" "unat x < 16" "unat y < 16"
  shows "\<exists>c'. op_8 n x y c = Some c' \<and> chip8_ok c'"
  using assms unfolding op_8_def by (simp add: getV_ok setV_ok chip8_okD(2)) (simp add: Let_def chip8_okD(2))

lemma op_0_total: "chip8_ok c \<Longrightarrow> \<exists>c'. op_0 w c = Some c' \<and> chip8_ok c'"
proof -
  assume ok: "chip8_ok c"
  have "unat (sp c - 1) = unat (sp c) - 1" if "sp c > 0"
    using that by (simp add: unat_sub word_le_nat_alt unat_gt_0 Suc_le_eq)
  then show ?thesis
    using ok chip8_okD [OF ok] unfolding op_0_def
    by (auto simp: chip8_ok_def list_all_iff Let_def word_gt_0 unat_gt_0)
qed

lemma op_2_total: "chip8_ok c \<Longrightarrow> \<exists>c'. op_2 a c = Some c' \<and> chip8_ok c'"
proof -
  assume ok: "chip8_ok c"
  have "unat (sp c + 1) = unat (sp c) + 1" if "unat (sp c) < 16"
    using that by (simp add: unat_word_ariths)
  then show ?thesis
    using ok chip8_okD [OF ok] unfolding op_2_def by (simp add: chip8_ok_def)
qed

lemma op_E_total: "chip8_ok c \<Longrightarrow> unat x < 16 \<Longrightarrow> \<exists>c'. op_E kk x c = Some c' \<and> chip8_ok c'"
proof -
  assume ok: "chip8_ok c" and x: "unat x < 16"
  have "unat (v AND 0xF) < 16" for v :: u8
    using word_and_le1 [of v "0xF"] by (simp add: word_le_nat_alt)
  then show ?thesis
    using ok x unfolding op_E_def by (simp add: getV_ok chip8_okD)
qed

lemma first_key_total:
  "length ks = 16 \<Longrightarrow> k \<le> 16 \<Longrightarrow> \<exists>r. first_key ks k = Some r"
  by (induction ks k rule: first_key.induct) (subst first_key.simps, auto)

lemma store_regs_total:
  "chip8_ok c \<Longrightarrow> x < 16 \<Longrightarrow> unat (I c) + x < 4096 \<Longrightarrow>
   \<exists>c'. store_regs x k c = Some c' \<and> chip8_ok c'"
  by (induction x k c rule: store_regs.induct) (subst store_regs.simps, auto simp: chip8_okD)

lemma load_regs_total:
  "chip8_ok c \<Longrightarrow> x < 16 \<Longrightarrow> unat (I c) + x < 4096 \<Longrightarrow>
   \<exists>c'. load_regs x k c = Some c' \<and> chip8_ok c'"
  by (induction x k c rule: load_regs.induct) (subst load_regs.simps, auto simp: chip8_okD)

lemma op_F_total:
  assumes ok: "chip8_ok c" and x: "unat x < 16" and I: "unat (I c) + 15 < 4096"
  shows "\<exists>c'. op_F kk x c = Some c' \<and> chip8_ok c'"
proof -
  obtain r where r: "first_key (key c) 0 = Some r"
    using first_key_total [of "key c" 0] ok by (auto simp: chip8_okD)
  have bcd: "\<exists>c'. store_bcd v c = Some c' \<and> chip8_ok c'" for v
    using ok I unfolding store_bcd_def by (simp add: chip8_okD)
  show ?thesis
    using assms bcd store_regs_total [of c "unat x" 0] load_regs_total [of c "unat x" 0]
    unfolding op_F_def by (simp add: getV_ok setV_ok r chip8_okD(2))
qed

section \<open>Sprites\<close>

text \<open>The screen cell that column \<open>k\<close> of a sprite byte toggles.\<close>

definition col_hit :: "u8 \<Rightarrow> nat \<Rightarrow> nat \<Rightarrow> nat \<Rightarrow> nat \<Rightarrow> bool" where
  "col_hit s vx yy col i \<longleftrightarrow>
     (\<exists>k \<ge> col. k < 8 \<and> vx + k < 64 \<and> s AND drop_bit k 0x80 \<noteq> 0 \<and> i = yy * 64 + (vx + k))"

definition toggled :: "(nat \<Rightarrow> bool) \<Rightarrow> u8 list \<times> u8 \<Rightarrow> u8 list \<times> u8 \<Rightarrow> bool" where
  "toggled hit s s' \<longleftrightarrow> length (fst s') = length (fst s)
     \<and> (\<forall>i < length (fst s). fst s' ! i = fst s ! i XOR (if hit i then 1 else 0))
     \<and> snd s' = (if \<exists>i < length (fst s). hit i \<and> fst s ! i = 1 then 1 else snd s)"

lemma toggled_none [simp]: "toggled (\<lambda>_. False) s s"
  by (simp add: toggled_def)

lemma toggled_trans:
  assumes "toggled h s t" "toggled k t u" "\<forall>i. \<not> (h i \<and> k i)"
  shows "toggled (\<lambda>i. h i \<or> k i) s u"
proof -
  have keep: "fst t ! i = fst s ! i" if "k i" "i < length (fst s)" for i
    using assms(1,3) that by (auto simp: toggled_def)
  have "(\<exists>i < length (fst s). k i \<and> fst t ! i = 1) \<longleftrightarrow> (\<exists>i < length (fst s). k i \<and> fst s ! i = 1)"
    using keep by auto
  then show ?thesis using assms unfolding toggled_def by auto
qed

lemma toggled_one:
  assumes "i < length g"
  shows "toggled (\<lambda>j. j = i) (g, vf) (g[i := g ! i XOR 1], if g ! i = 1 then 1 else vf)"
  using assms by (auto simp: toggled_def nth_list_update)

lemma draw_cols_toggles:
  assumes "length (fst s) = 2048" "yy < 32" "vx < 64" "col \<le> 8"
  shows "\<exists>s'. draw_cols b vx yy col s = Some s' \<and> toggled (col_hit b vx yy col) s s'"
  using assms
proof (induction "8 - col" arbitrary: col s)
  case 0
  then have "col_hit b vx yy col = (\<lambda>_. False)" by (auto simp: col_hit_def fun_eq_iff)
  with 0 show ?case by (cases s) (simp add: draw_cols.simps)
next
  case (Suc m)
  obtain g vf where s: "s = (g, vf)" by (cases s)
  show ?case
  proof (cases "vx + col \<ge> 64")
    case True
    then have "col_hit b vx yy col = (\<lambda>_. False)" by (auto simp: col_hit_def fun_eq_iff)
    with True Suc.hyps show ?thesis by (simp add: s draw_cols.simps)
  next
    case False
    let ?i = "yy * 64 + (vx + col)" and ?b = "b AND drop_bit col 0x80 \<noteq> 0"
    let ?s = "if ?b then (g[?i := g ! ?i XOR 1], if g ! ?i = 1 then 1 else vf) else (g, vf)"
    have i: "?i < length g" using Suc.prems False s by simp
    have lt: "col < 8" using Suc.hyps(2) by linarith
    have one: "toggled (\<lambda>j. ?b \<and> j = ?i) s ?s"
      using toggled_one [OF i, of vf] by (simp add: s)
    have "\<exists>s'. draw_cols b vx yy (col + 1) ?s = Some s' \<and> toggled (col_hit b vx yy (col + 1)) ?s s'"
      using Suc.hyps(2) Suc.prems s by (intro Suc.hyps(1)) auto
    then obtain s' where s': "draw_cols b vx yy (col + 1) ?s = Some s'"
      "toggled (col_hit b vx yy (col + 1)) ?s s'" by blast
    have step: "draw_cols b vx yy col s = draw_cols b vx yy (col + 1) ?s"
      using lt False i by (simp add: s Let_def draw_cols.simps [of b vx yy col])
    have split: "col_hit b vx yy col = (\<lambda>j. (?b \<and> j = ?i) \<or> col_hit b vx yy (col + 1) j)"
      using Suc.hyps(2) False unfolding col_hit_def fun_eq_iff
      by (auto simp: le_eq_less_or_eq Suc_le_eq)
    have "toggled (col_hit b vx yy col) s s'"
      unfolding split by (rule toggled_trans [OF one s'(2)]) (auto simp: col_hit_def)
    then show ?thesis using step s'(1) by simp
  qed
qed

lemma ex_from_split: "(\<exists>r \<ge> k :: nat. P r) \<longleftrightarrow> P k \<or> (\<exists>r \<ge> k + 1. P r)"
  by (metis Suc_eq_plus1 Suc_leD le_eq_less_or_eq less_eq_Suc_le)

definition rows_hit :: "chip8 \<Rightarrow> nat \<Rightarrow> nat \<Rightarrow> nat \<Rightarrow> nat \<Rightarrow> nat \<Rightarrow> bool" where
  "rows_hit c vx vy n row i \<longleftrightarrow>
     (\<exists>r \<ge> row. r < n \<and> vy + r < 32 \<and> col_hit (memory c ! (unat (I c) + r)) vx (vy + r) 0 i)"

lemma draw_rows_toggles:
  assumes "length (fst s) = 2048" "vx < 64" "unat (I c) + n \<le> length (memory c)"
  shows "\<exists>s'. draw_rows c vx vy n row s = Some s' \<and> toggled (rows_hit c vx vy n row) s s'"
  using assms
proof (induction "n - row" arbitrary: row s)
  case 0
  then have "rows_hit c vx vy n row = (\<lambda>_. False)" by (auto simp: rows_hit_def fun_eq_iff)
  with 0 show ?case by (simp add: draw_rows.simps)
next
  case (Suc m)
  show ?case
  proof (cases "vy + row \<ge> 32")
    case True
    then have "rows_hit c vx vy n row = (\<lambda>_. False)" by (auto simp: rows_hit_def fun_eq_iff)
    with True Suc.hyps(2) show ?thesis
      by (intro exI [where x = s]) (simp add: draw_rows.simps [of c vx vy n row])
  next
    case False
    let ?b = "memory c ! (unat (I c) + row)"
    have lt: "row < n" using Suc.hyps(2) by linarith
    obtain t where t: "draw_cols ?b vx (vy + row) 0 s = Some t"
      "toggled (col_hit ?b vx (vy + row) 0) s t"
      using draw_cols_toggles [of s "vy + row" vx 0 ?b] Suc.prems False by auto
    have "length (fst t) = 2048" using t(2) Suc.prems by (simp add: toggled_def)
    then have "\<exists>s'. draw_rows c vx vy n (row + 1) t = Some s' \<and> toggled (rows_hit c vx vy n (row + 1)) t s'"
      using Suc.hyps(2) Suc.prems by (intro Suc.hyps(1)) auto
    then obtain s' where s': "draw_rows c vx vy n (row + 1) t = Some s'"
      "toggled (rows_hit c vx vy n (row + 1)) t s'" by blast
    have step: "draw_rows c vx vy n row s = Some s'"
      using lt Suc.prems False t(1) s'(1) by (simp add: draw_rows.simps [of c vx vy n row])
    have split: "rows_hit c vx vy n row
        = (\<lambda>j. col_hit ?b vx (vy + row) 0 j \<or> rows_hit c vx vy n (row + 1) j)"
      using lt False unfolding rows_hit_def fun_eq_iff ex_from_split [of row] by simp
    have "toggled (rows_hit c vx vy n row) s s'"
      unfolding split
    proof (rule toggled_trans [OF t(2) s'(2)], intro allI notI, elim conjE)
      fix j assume "col_hit ?b vx (vy + row) 0 j" "rows_hit c vx vy n (row + 1) j"
      then obtain k r k' where "j = (vy + row) * 64 + (vx + k)" "j = (vy + r) * 64 + (vx + k')"
        "vx + k < 64" "vx + k' < 64" "r \<ge> row + 1"
        by (auto simp: col_hit_def rows_hit_def)
      then show False by simp
    qed
    then show ?thesis using step by blast
  qed
qed

lemma toggled_pixels:
  assumes "toggled h s s'" "list_all (\<lambda>p. p = 0 \<or> p = 1) (fst s)"
  shows "list_all (\<lambda>p. p = 0 \<or> p = 1) (fst s')"
proof -
  have "fst s' ! i = 0 \<or> fst s' ! i = 1" if "i < length (fst s)" for i
    using assms that unfolding toggled_def list_all_length by (cases "h i") auto
  then show ?thesis using assms(1) by (simp add: list_all_length toggled_def)
qed

lemma op_D_draws:
  assumes ok: "chip8_ok c" and x: "unat x < 16" and y: "unat y < 16" and n: "unat n < 16"
    and I: "unat (I c) + 15 < 4096"
  obtains g vf where
    "op_D n x y c = Some (c \<lparr>V := (V c)[15 := vf], gfx := g, draw_flag := 1\<rparr>)"
    "toggled (rows_hit c (unat (V c ! unat x) mod 64) (unat (V c ! unat y) mod 32) (unat n) 0)
       (gfx c, 0) (g, vf)"
proof -
  let ?vx = "unat (V c ! unat x) mod 64" and ?vy = "unat (V c ! unat y) mod 32"
  obtain g vf where d: "draw_rows c ?vx ?vy (unat n) 0 (gfx c, 0) = Some (g, vf)"
    "toggled (rows_hit c ?vx ?vy (unat n) 0) (gfx c, 0) (g, vf)"
    using draw_rows_toggles [of "(gfx c, 0)" ?vx c "unat n" ?vy 0] chip8_okD [OF ok] n I by auto
  have "op_D n x y c = Some (c \<lparr>V := (V c)[15 := vf], gfx := g, draw_flag := 1\<rparr>)"
    using ok x y d(1) unfolding op_D_def by (simp add: getV_ok setV_ok Let_def)
  then show ?thesis using that d(2) by blast
qed

lemma op_D_total:
  assumes "chip8_ok c" "unat x < 16" "unat y < 16" "unat n < 16" "unat (I c) + 15 < 4096"
  shows "\<exists>c'. op_D n x y c = Some c' \<and> chip8_ok c'"
proof -
  obtain g vf h where d: "op_D n x y c = Some (c \<lparr>V := (V c)[15 := vf], gfx := g, draw_flag := 1\<rparr>)"
    "toggled h (gfx c, 0) (g, vf)"
    using op_D_draws [OF assms] by metis
  have "length g = length (gfx c)" "list_all (\<lambda>p. p = 0 \<or> p = 1) g"
    using d(2) toggled_pixels [OF d(2)] assms(1) by (auto simp: toggled_def chip8_ok_def)
  then have "chip8_ok (c \<lparr>V := (V c)[15 := vf], gfx := g, draw_flag := 1\<rparr>)"
    using assms(1) by (simp add: chip8_ok_def)
  then show ?thesis using d(1) by blast
qed

text \<open>An instruction's result exists and keeps the invariant.\<close>

definition ok_result :: "chip8 option \<Rightarrow> bool" where
  "ok_result r \<longleftrightarrow> (\<exists>c'. r = Some c' \<and> chip8_ok c')"

lemma ok_result_if: "ok_result a \<Longrightarrow> ok_result b \<Longrightarrow> ok_result (if t then a else b)"
  by simp

lemma ok_result_Some: "chip8_ok c \<Longrightarrow> ok_result (Some c)"
  by (simp add: ok_result_def)

lemmas ok_result_ops = op_0_total [folded ok_result_def] op_2_total [folded ok_result_def]
  op_8_total [folded ok_result_def] op_D_total [folded ok_result_def]
  op_E_total [folded ok_result_def] op_F_total [folded ok_result_def]
  setV_total [folded ok_result_def]

lemma execute_total:
  assumes "chip8_ok c" "unat (I c) + 15 < 4096"
  shows "ok_result (execute r w c)"
proof -
  note x = unat_nibble(1) [of w] and y = unat_nibble(2) [of w] and n = unat_nibble(3) [of w]
  have 0: "unat (0 :: u8) < 16" by simp
  show ?thesis
    unfolding execute_def Let_def getV_ok [OF assms(1) x] getV_ok [OF assms(1) y]
      getV_ok [OF assms(1) 0] bind.bind_lunit
    by (intro ok_result_if ok_result_Some ok_result_ops assms x y n)
      (simp_all add: assms)
qed

section \<open>The built-in program\<close>

definition maze_memory :: "u8 list" where
  "maze_memory = replicate 80 0 @ chip8_fontset @ replicate 352 0 @ default_maze_rom @ replicate 3546 0"

definition maze_addresses :: "u16 list" where
  "maze_addresses = [0x200, 0x202, 0x204, 0x206, 0x208, 0x20A, 0x20C, 0x20E, 0x210, 0x212,
     0x214, 0x216, 0x218, 0x21A, 0x21C]"

definition maze_ok :: "chip8 \<Rightarrow> bool" where
  "maze_ok c \<longleftrightarrow> chip8_ok c \<and> memory c = maze_memory \<and> pc c \<in> set maze_addresses
     \<and> I c \<in> {0, 0x222, 0x21E}"

lemma length_maze: "length chip8_fontset = 80" "length default_maze_rom = 38" "length maze_memory = 4096"
  by (simp_all add: chip8_fontset_def default_maze_rom_def maze_memory_def)

lemma maze_byte: "k < 38 \<Longrightarrow> rd maze_memory (512 + k) = Some (default_maze_rom ! k)"
  by (simp add: length_maze rd_def) (simp add: maze_memory_def length_maze nth_append)

definition maze_opcodes :: "u16 list" where
  "maze_opcodes = [0x6000, 0x6100, 0xA222, 0xC201, 0x3201, 0xA21E, 0xD014, 0x7004, 0x3040, 0x1204,
     0x6000, 0x7104, 0x3120, 0x1204, 0x121C]"

lemma fetch_maze_at:
  assumes "memory c = maze_memory" "unat (pc c) = 512 + k" "k + 1 < 38"
  shows "fetch c = Some (push_bit 8 (ucast (default_maze_rom ! k)) OR ucast (default_maze_rom ! (k + 1)))"
  using assms maze_byte [of k] maze_byte [of "k + 1"] by (simp add: fetch_def add.assoc)

lemma fetch_maze:
  assumes m: "memory c = maze_memory" and pc: "pc c \<in> set maze_addresses"
  shows "\<exists>w. fetch c = Some w \<and> (pc c, w) \<in> set (zip maze_addresses maze_opcodes)"
proof -
  note at = fetch_maze_at [OF m]
  show ?thesis
    using pc unfolding maze_addresses_def maze_opcodes_def
    by (simp, elim disjE)
      (simp_all add: at [of 0] at [of 2] at [of 4] at [of 6] at [of 8] at [of 10] at [of 12]
        at [of 14] at [of 16] at [of 18] at [of 20] at [of 22] at [of 24] at [of 26] at [of 28]
        default_maze_rom_def)
qed

lemma maze_boot: "\<exists>c. boot None = Some (0, c) \<and> maze_ok c"
proof -
  have c: "copy_into (replicate 4096 0) 80 chip8_fontset
      = Some (replicate 80 0 @ chip8_fontset @ replicate 3936 0)"
    by (simp add: copy_into_def length_maze drop_replicate)
  have d: "copy_into (replicate 80 0 @ chip8_fontset @ replicate 3936 0) 512 default_maze_rom
      = Some maze_memory"
    by (simp add: copy_into_def length_maze maze_memory_def drop_replicate min_def)
  have e: "chip8_ok (zero_chip8 \<lparr>pc := 512, draw_flag := 1, memory := maze_memory\<rparr>)"
    by (simp add: chip8_ok_def zero_chip8_def length_maze list_all_length)
  show ?thesis
    using e unfolding boot_def chip8_init_def Let_def
    by (simp add: c d zero_chip8_def maze_ok_def maze_addresses_def)
qed

lemma maze_decode:
  "execute r 0x6000 d = setV 0 0 d"
  "execute r 0x6100 d = setV 1 0 d"
  "execute r 0xA222 d = Some (d \<lparr>I := 0x222\<rparr>)"
  "execute r 0xC201 d = setV 2 (of_nat (r mod 256) AND 1) d"
  "execute r 0x3201 d = do {v \<leftarrow> getV d 2; Some (skip_next (v = 1) d)}"
  "execute r 0xA21E d = Some (d \<lparr>I := 0x21E\<rparr>)"
  "execute r 0xD014 d = op_D 4 0 1 d"
  "execute r 0x7004 d = do {v \<leftarrow> getV d 0; setV 0 (v + 4) d}"
  "execute r 0x3040 d = do {v \<leftarrow> getV d 0; Some (skip_next (v = 0x40) d)}"
  "execute r 0x1204 d = Some (d \<lparr>pc := 0x204\<rparr>)"
  "execute r 0x7104 d = do {v \<leftarrow> getV d 1; setV 1 (v + 4) d}"
  "execute r 0x3120 d = do {v \<leftarrow> getV d 1; Some (skip_next (v = 0x20) d)}"
  "execute r 0x121C d = Some (d \<lparr>pc := 0x21C\<rparr>)"
  by (simp_all add: execute_def)

lemma maze_cycle:
  assumes "maze_ok c"
  shows "\<exists>c'. chip8_cycle r c = Some c' \<and> maze_ok c'"
proof -
  have ok: "chip8_ok c" and m: "memory c = maze_memory" and I: "I c \<in> {0, 0x222, 0x21E}"
    using assms by (simp_all add: maze_ok_def)
  have len: "length (V c) = 16" using ok by (simp add: chip8_okD)
  have pc: "pc c \<in> set maze_addresses" using assms by (simp add: maze_ok_def)
  have draw: "\<exists>c'. op_D 4 0 1 d = Some c' \<and> maze_ok c'"
    if d: "chip8_ok d" "memory d = maze_memory" "I d \<in> {0, 0x222, 0x21E}" "pc d = 0x20E" for d
  proof -
    have b: "unat (I d) + 15 < 4096" using d(3) by auto
    obtain g vf where g: "op_D 4 0 1 d = Some (d \<lparr>V := (V d)[15 := vf], gfx := g, draw_flag := 1\<rparr>)"
      by (rule op_D_draws [OF d(1), of 0 1 4]) (use b in simp_all)
    moreover have "chip8_ok (d \<lparr>V := (V d)[15 := vf], gfx := g, draw_flag := 1\<rparr>)"
      using op_D_total [OF d(1), of 0 1 4] b g by simp
    ultimately show ?thesis using d by (simp add: maze_ok_def maze_addresses_def)
  qed
  have d: "\<exists>c'. op_D 4 0 1 (c \<lparr>pc := 0x20E\<rparr>) = Some c' \<and> maze_ok c'"
    using ok m I by (intro draw) simp_all
  have skip: "maze_ok (skip_next t (c \<lparr>pc := a\<rparr>))"
    if "a \<in> set maze_addresses" "a + 2 \<in> set maze_addresses" for t a
    using ok m I that by (simp add: maze_ok_def skip_next_def)
  obtain w where w: "fetch c = Some w" "(pc c, w) \<in> set (zip maze_addresses maze_opcodes)"
    using fetch_maze [OF m pc] by blast
  from w(2) have "\<exists>c'. execute r w (c \<lparr>pc := pc c + 2\<rparr>) = Some c' \<and> maze_ok c'"
    unfolding maze_addresses_def maze_opcodes_def
    by (simp, elim disjE conjE; simp only: maze_decode)
      (insert ok m I len, simp_all add: d skip getV_ok setV_ok maze_addresses_def,
       simp_all add: maze_ok_def maze_addresses_def)
  then show ?thesis by (simp add: chip8_cycle_def w(1))
qed

lemma maze_ok_updates [simp]:
  "maze_ok (c \<lparr>delay_timer := b\<rparr>) = maze_ok c" "maze_ok (c \<lparr>sound_timer := b\<rparr>) = maze_ok c"
  "maze_ok (c \<lparr>draw_flag := d\<rparr>) = maze_ok c"
  "maze_ok c \<Longrightarrow> maze_ok (c \<lparr>key := ks\<rparr>) = (length ks = 16)"
  by (simp_all add: maze_ok_def) (auto simp: chip8_ok_def)

lemma maze_cycles: "maze_ok c \<Longrightarrow> \<exists>c'. run_cycles rs c = Some c' \<and> maze_ok c'"
proof (induction rs arbitrary: c)
  case (Cons r rs)
  obtain c' where "chip8_cycle r c = Some c'" "maze_ok c'" using maze_cycle [OF Cons.prems] by blast
  then show ?case using Cons.IH by simp
qed simp

lemma key_of_range: "key_of ch < 16"
  by (simp add: key_of_def)

lemma maze_keys: "maze_ok c \<Longrightarrow> \<exists>run c'. read_keys chs c = Some (run, c') \<and> maze_ok c'"
proof (induction chs arbitrary: c)
  case (Cons ch chs)
  have "length (key c) = 16" using Cons.prems by (simp add: maze_ok_def chip8_okD)
  then have "\<exists>c'. map_key ch 1 c = Some c' \<and> maze_ok c'"
    using Cons.prems key_of_range [of ch] by (simp add: map_key_def Let_def)
  then obtain c' where "map_key ch 1 c = Some c'" "maze_ok c'" by blast
  then show ?case using Cons by auto
qed auto

lemma maze_frame: "maze_ok c \<Longrightarrow> \<exists>sh run c'. frame rands due chs c = Some (sh, run, c') \<and> maze_ok c'"
proof -
  assume "maze_ok c"
  then obtain c1 where 1: "run_cycles rands c = Some c1" "maze_ok c1" using maze_cycles by blast
  let ?c2 = "if due then tick_timers c1 else c1"
  have "maze_ok ?c2" using 1 by (simp add: tick_timers_def Let_def)
  then have "maze_ok (snd (render_screen ?c2))" by (simp add: render_screen_def)
  then have "maze_ok (snd (render_screen ?c2) \<lparr>key := replicate KEY_COUNT 0\<rparr>)" by simp
  then obtain run c3 where "read_keys chs (snd (render_screen ?c2) \<lparr>key := replicate KEY_COUNT 0\<rparr>)
      = Some (run, c3)" "maze_ok c3"
    using maze_keys by blast
  then show ?thesis
    using 1 unfolding frame_def Let_def by (simp add: case_prod_unfold)
qed

lemma maze_frames: "maze_ok c \<Longrightarrow> \<exists>run c'. run_frames fs c = Some (run, c') \<and> maze_ok c'"
proof (induction fs arbitrary: c)
  case (Cons f fs)
  obtain rands due chs where f: "f = (rands, due, chs)" by (cases f)
  obtain sh run c' where "frame rands due chs c = Some (sh, run, c')" "maze_ok c'"
    using maze_frame [OF Cons.prems] by blast
  moreover obtain run' d where "run_frames fs c' = Some (run', d)" "maze_ok d"
    using Cons.IH [OF \<open>maze_ok c'\<close>] by blast
  ultimately show ?case by (cases run) (auto simp: f)
qed auto

text \<open>
  C15: started without a ROM file the interpreter boots, and whatever \<open>rand\<close> returns, however often
  the timers expire and whatever keys are typed, no number of turns of the main loop ever reads or
  writes outside an array: the built-in program runs forever and its memory stays as loaded.
\<close>
theorem chip8_default_program_safe:
  "\<exists>c. boot None = Some (0, c) \<and>
     (\<forall>fs. \<exists>run c'. run_frames fs c = Some (run, c') \<and> chip8_ok c' \<and> memory c' = memory c)"
proof -
  obtain c where c: "boot None = Some (0, c)" "maze_ok c" using maze_boot by blast
  have "\<exists>run c'. run_frames fs c = Some (run, c') \<and> chip8_ok c' \<and> memory c' = memory c" for fs
    using maze_frames [OF c(2), of fs] c(2) by (auto simp: maze_ok_def)
  with c(1) show ?thesis by blast
qed

text \<open>
  C16: one cycle is type safe: in a well formed state whose program counter and index register leave
  room for the two opcode bytes and the longest transfer, every opcode, known or not, has a result
  and the result is well formed (array lengths, stack pointer at most 16, pixels 0 or 1).
\<close>
theorem chip8_cycle_type_safe:
  assumes "chip8_ok c" "unat (pc c) + 1 < MEMORY_SIZE" "unat (I c) + 15 < MEMORY_SIZE"
  shows "\<exists>c'. chip8_cycle r c = Some c' \<and> chip8_ok c'"
proof -
  obtain w where "fetch c = Some w" using assms chip8_okD [OF assms(1)] by (simp add: fetch_def)
  moreover have "ok_result (execute r w (c \<lparr>pc := pc c + 2\<rparr>))"
    using assms by (intro execute_total) simp_all
  ultimately show ?thesis by (simp add: chip8_cycle_def ok_result_def)
qed

theorem chip8_cycle_type_safe_witness:
  "\<exists>c'. chip8_cycle 7 (zero_chip8 \<lparr>I := 0xFF0\<rparr>) = Some c' \<and> chip8_ok c'"
  by (rule chip8_cycle_type_safe) (simp_all add: zero_chip8_def chip8_ok_def list_all_length)

section \<open>What a sprite does, by screen coordinates\<close>

text \<open>The sprite of \<open>n\<close> rows stored from \<open>I\<close>, its corner at \<open>(vx, vy)\<close>, covers the pixel \<open>(px, py)\<close>.\<close>

definition sprite_bit :: "chip8 \<Rightarrow> nat \<Rightarrow> nat \<Rightarrow> nat \<Rightarrow> nat \<Rightarrow> nat \<Rightarrow> bool" where
  "sprite_bit c vx vy n px py \<longleftrightarrow> vx \<le> px \<and> px < vx + 8 \<and> vy \<le> py \<and> py < vy + n
     \<and> bit (memory c ! (unat (I c) + (py - vy))) (7 - (px - vx))"

lemma sprite_mask: "k < 8 \<Longrightarrow> s AND drop_bit k 0x80 \<noteq> 0 \<longleftrightarrow> bit s (7 - k)" for s :: u8
proof -
  assume k: "k < 8"
  then have "k \<in> {0, 1, 2, 3, 4, 5, 6, 7}" by auto
  then have "drop_bit k (0x80 :: u8) = 2 ^ (7 - k)" by auto
  then show ?thesis by (simp add: and_exp_eq_0_iff_not_bit)
qed

lemma grid_index: "p * 64 + x = q * 64 + y \<Longrightarrow> x < 64 \<Longrightarrow> y < 64 \<Longrightarrow> p = q \<and> x = (y :: nat)"
proof -
  assume e: "p * 64 + x = q * 64 + y" and xy: "x < 64" "y < 64"
  have "p = (p * 64 + x) div 64" using xy by simp
  also have "\<dots> = q" unfolding e using xy by simp
  finally show ?thesis using e by simp
qed

lemma rows_hit_pixel:
  assumes "px < 64" "py < 32"
  shows "rows_hit c vx vy n 0 (py * 64 + px) \<longleftrightarrow> sprite_bit c vx vy n px py"
proof
  assume "rows_hit c vx vy n 0 (py * 64 + px)"
  then obtain r k where h: "r < n" "k < 8" "vx + k < 64" "py * 64 + px = (vy + r) * 64 + (vx + k)"
    "memory c ! (unat (I c) + r) AND drop_bit k 0x80 \<noteq> 0"
    unfolding rows_hit_def col_hit_def by blast
  moreover have "py = vy + r \<and> px = vx + k" by (rule grid_index [OF h(4) assms(1) h(3)])
  ultimately show "sprite_bit c vx vy n px py" by (simp add: sprite_bit_def sprite_mask)
next
  assume b: "sprite_bit c vx vy n px py"
  have "memory c ! (unat (I c) + (py - vy)) AND drop_bit (px - vx) 0x80 \<noteq> 0"
    using b unfolding sprite_bit_def by (subst sprite_mask) linarith+
  then have "col_hit (memory c ! (unat (I c) + (py - vy))) vx (vy + (py - vy)) 0 (py * 64 + px)"
    using b assms unfolding col_hit_def sprite_bit_def
    by (intro exI [where x = "px - vx"]) auto
  then show "rows_hit c vx vy n 0 (py * 64 + px)"
    using b assms unfolding rows_hit_def sprite_bit_def by (intro exI [where x = "py - vy"]) auto
qed

lemma ex_pixel: "(\<exists>i < 2048. Q i) \<longleftrightarrow> (\<exists>px < 64. \<exists>py < 32. Q (py * 64 + px :: nat))"
proof
  assume "\<exists>i < 2048. Q i"
  then obtain i where i: "i < 2048" "Q i" by blast
  have "i mod 64 < 64" "i div 64 < 32" "i div 64 * 64 + i mod 64 = i" using i(1) by simp_all
  then show "\<exists>px < 64. \<exists>py < 32. Q (py * 64 + px)" using i(2) by metis
next
  assume "\<exists>px < 64. \<exists>py < 32. Q (py * 64 + px)"
  then obtain px py :: nat where "px < 64" "py < 32" "Q (py * 64 + px)" by blast
  moreover from this have "py * 64 + px < 2048" by linarith
  ultimately show "\<exists>i < 2048. Q i" by blast
qed

text \<open>
  C17: the sprite instruction toggles exactly the pixels the sprite covers, clipped at the right and
  bottom edges, leaves every other pixel and register alone, and sets register F to whether a lit
  pixel was turned off.
\<close>
theorem chip8_draw_xor:
  fixes c w
  defines "n \<equiv> unat (w AND 0x000F)"
    and "vx \<equiv> unat (V c ! unat (drop_bit 8 (w AND 0x0F00))) mod 64"
    and "vy \<equiv> unat (V c ! unat (drop_bit 4 (w AND 0x00F0))) mod 32"
  assumes ok: "chip8_ok c" and w: "fetch c = Some w" "w AND 0xF000 = 0xD000"
    and I: "unat (I c) + 15 < MEMORY_SIZE"
  shows "\<exists>g vf. chip8_cycle r c
        = Some (c \<lparr>pc := pc c + 2, V := (V c)[15 := vf], gfx := g, draw_flag := 1\<rparr>)
      \<and> (\<forall>px < 64. \<forall>py < 32. g ! (py * 64 + px)
          = gfx c ! (py * 64 + px) XOR (if sprite_bit c vx vy n px py then 1 else 0))
      \<and> vf = (if \<exists>px < 64. \<exists>py < 32. sprite_bit c vx vy n px py \<and> gfx c ! (py * 64 + px) = 1
              then 1 else 0)"
proof -
  let ?d = "c \<lparr>pc := pc c + 2\<rparr>"
  have u8: "unat (ucast a :: u8) = unat a" if "unat a < 16" for a :: u16
    using that by (simp add: unsigned_ucast_eq take_bit_nat_eq_self)
  have lt: "unat (a AND 15) < 16" for a :: u16
    using word_and_le1 [of a 15] by (simp add: word_le_nat_alt)
  have nib: "unat (drop_bit 8 (w AND 0x0F00)) < 16" "unat (drop_bit 4 (w AND 0x00F0)) < 16"
    using lt [of "drop_bit 8 w"] lt [of "drop_bit 4 w"] by simp_all
  obtain g vf where d: "op_D (ucast (w AND 0x000F)) (ucast (drop_bit 8 (w AND 0x0F00)))
      (ucast (drop_bit 4 (w AND 0x00F0))) ?d = Some (?d \<lparr>V := (V c)[15 := vf], gfx := g, draw_flag := 1\<rparr>)"
    "toggled (rows_hit ?d vx vy n 0) (gfx c, 0) (g, vf)"
    by (rule op_D_draws [of ?d "ucast (drop_bit 8 (w AND 0x0F00))" "ucast (drop_bit 4 (w AND 0x00F0))"
          "ucast (w AND 0x000F)"], use ok I unat_nibble [of w] in simp_all)
      (use u8 nib lt in \<open>simp add: n_def vx_def vy_def\<close>)
  have "rows_hit ?d vx vy n 0 = rows_hit c vx vy n 0" by (simp add: rows_hit_def fun_eq_iff)
  then have t: "toggled (rows_hit c vx vy n 0) (gfx c, 0) (g, vf)" using d(2) by simp
  have len: "length (gfx c) = 2048" using ok by (simp add: chip8_okD)
  have "chip8_cycle r c = Some (c \<lparr>pc := pc c + 2, V := (V c)[15 := vf], gfx := g, draw_flag := 1\<rparr>)"
    using d(1) w by (simp add: chip8_cycle_def execute_def)
  moreover have "\<forall>px < 64. \<forall>py < 32. g ! (py * 64 + px)
      = gfx c ! (py * 64 + px) XOR (if sprite_bit c vx vy n px py then 1 else 0)"
    using t len by (auto simp: toggled_def rows_hit_pixel)
  moreover have "vf = (if \<exists>px < 64. \<exists>py < 32. sprite_bit c vx vy n px py \<and> gfx c ! (py * 64 + px) = 1
      then 1 else 0)"
  proof -
    have e: "(\<exists>i < 2048. rows_hit c vx vy n 0 i \<and> gfx c ! i = 1)
        \<longleftrightarrow> (\<exists>px < 64. \<exists>py < 32. sprite_bit c vx vy n px py \<and> gfx c ! (py * 64 + px) = 1)"
      unfolding ex_pixel using rows_hit_pixel by blast
    have "vf = (if \<exists>i < 2048. rows_hit c vx vy n 0 i \<and> gfx c ! i = 1 then 1 else 0)"
      using t len by (simp only: toggled_def fst_conv snd_conv)
    then show ?thesis by (simp only: e)
  qed
  ultimately show ?thesis by blast
qed

text \<open>A state about to draw the digit 0 of the font at the bottom right corner.\<close>

definition draw_state :: chip8 where
  "draw_state = zero_chip8 \<lparr>memory := replicate 80 0 @ chip8_fontset @ replicate 352 0
     @ [0xD0, 0x15] @ replicate 3582 0, V := [62, 30] @ replicate 14 0, I := 80, pc := 512\<rparr>"

lemma draw_state: "chip8_ok draw_state" "fetch draw_state = Some 0xD015"
proof -
  show "chip8_ok draw_state"
    by (simp add: draw_state_def chip8_ok_def zero_chip8_def length_maze list_all_length)
  have "memory draw_state ! 512 = 0xD0" "memory draw_state ! 513 = 0x15"
    by (simp_all add: draw_state_def nth_append length_maze)
  then show "fetch draw_state = Some 0xD015"
    by (simp add: fetch_def rd_def draw_state_def length_maze)
qed

theorem chip8_draw_xor_witness:
  "\<exists>g vf. chip8_cycle 0 draw_state
      = Some (draw_state \<lparr>pc := 514, V := (V draw_state)[15 := vf], gfx := g, draw_flag := 1\<rparr>)
    \<and> g ! (30 * 64 + 62) = 1 \<and> g ! (31 * 64 + 63) = 0 \<and> vf = 0"
proof -
  have bits: "sprite_bit draw_state 62 30 5 62 30" "\<not> sprite_bit draw_state 62 30 5 63 31"
    by (simp_all add: sprite_bit_def draw_state_def nth_append length_maze chip8_fontset_def)
  have dark: "gfx draw_state ! i = 0" if "i < 2048" for i
    using that by (simp add: draw_state_def zero_chip8_def)
  have f: "V draw_state ! 0 = 62" "V draw_state ! Suc 0 = 30" "unat (I draw_state) + 15 < MEMORY_SIZE"
    "pc draw_state + 2 = 514"
    by (simp_all add: draw_state_def)
  note x = chip8_draw_xor [OF draw_state _ f(3), of 0, simplified, unfolded f, simplified]
  obtain g vf where g: "chip8_cycle 0 draw_state
      = Some (draw_state \<lparr>pc := 514, V := (V draw_state)[15 := vf], gfx := g, draw_flag := 1\<rparr>)"
    "\<forall>px < 64. \<forall>py < 32. g ! (py * 64 + px)
      = gfx draw_state ! (py * 64 + px) XOR (if sprite_bit draw_state 62 30 5 px py then 1 else 0)"
    "vf = (if \<exists>px < 64. \<exists>py < 32. sprite_bit draw_state 62 30 5 px py
        \<and> gfx draw_state ! (py * 64 + px) = 1 then 1 else 0)"
    using x by blast
  have "g ! (30 * 64 + 62) = 1" "g ! (31 * 64 + 63) = 0"
    using g(2) [rule_format, of 62 30] g(2) [rule_format, of 63 31] bits dark by simp_all
  moreover have "vf = 0" using g(3) dark by auto
  ultimately show ?thesis using g(1) by blast
qed

end
