(* ===== verification/Kport.thy ===== *)
theory Kport imports Prelude begin

text \<open>
  Port input and output.  The devices behind the ports are outside the repository: a bus is what an
  \<open>in\<close> or \<open>out\<close> instruction does to their state, and every driver takes the bus as an argument.
\<close>

record 'd bus =
  inb :: "u16 \<Rightarrow> 'd \<Rightarrow> u8 \<times> 'd"
  outb :: "u16 \<Rightarrow> u8 \<Rightarrow> 'd \<Rightarrow> 'd"
  inw :: "u16 \<Rightarrow> 'd \<Rightarrow> u16 \<times> 'd"
  outw :: "u16 \<Rightarrow> u16 \<Rightarrow> 'd \<Rightarrow> 'd"

text \<open>A fixed sequence of byte writes.\<close>

fun outbs :: "('d, 'more) bus_scheme \<Rightarrow> (u16 \<times> u8) list \<Rightarrow> 'd \<Rightarrow> 'd" where
  "outbs io [] d = d"
| "outbs io ((port, v) # ws) d = outbs io ws (outb io port v d)"

lemma outbs_append [simp]: "outbs io (xs @ ys) d = outbs io ys (outbs io xs d)"
  by (induction io xs d rule: outbs.induct) simp_all

text \<open>\<open>rep insw\<close> and \<open>rep outsw\<close>: that many 16-bit transfers on one port.\<close>

fun insw :: "'d bus \<Rightarrow> u16 \<Rightarrow> nat \<Rightarrow> 'd \<Rightarrow> u16 list \<times> 'd" where
  "insw io port 0 d = ([], d)"
| "insw io port (Suc n) d = (let (w, d) = inw io port d; (ws, d) = insw io port n d in (w # ws, d))"

fun outsw :: "'d bus \<Rightarrow> u16 \<Rightarrow> u16 list \<Rightarrow> 'd \<Rightarrow> 'd" where
  "outsw io port [] d = d"
| "outsw io port (w # ws) d = outsw io port ws (outw io port w d)"

lemma length_insw [simp]: "length (fst (insw io port n d)) = n"
  by (induction io port n d rule: insw.induct) (auto simp: Let_def split: prod.splits)

end
