(* ===== verification/Kgfx.thy ===== *)
theory Kgfx imports Kport begin

unbundle bit_operations_syntax

text \<open>
  The drawing library \<open>freestanding/kgfx.c\<close>: pixels, lines, rectangles, circles, triangles, text
  in the 8x8 font, blitting, the double buffer with its dirty rectangles, the mouse cursor, the
  VGA text screen and the serial port.  A frame buffer holds the array its pointer points to;
  pixel indices are computed in 32 bits as on the i386 target, so the address of a row may start
  left of the array as long as no such pixel is accessed.

  The lemmas say which pixels an operation paints (\<open>paints\<close>), that the line and circle loops end,
  and what flushing dirty rectangles copies.
\<close>

section \<open>Counted loops\<close>

text \<open>\<open>for (int i = lo; i < hi; i++)\<close> and \<open>for (int i = lo; i <= hi; i++)\<close>.\<close>

function for_range :: "int \<Rightarrow> int \<Rightarrow> (int \<Rightarrow> 's \<Rightarrow> 's option) \<Rightarrow> 's \<Rightarrow> 's option" where
  "for_range lo hi f s = (if lo < hi then do {s \<leftarrow> f lo s; for_range (lo + 1) hi f s} else Some s)"
  by pat_completeness auto
termination by (relation "measure (\<lambda>(lo, hi, _). nat (hi - lo))") auto

declare for_range.simps [simp del]

definition for_upto :: "int \<Rightarrow> int \<Rightarrow> (int \<Rightarrow> 's \<Rightarrow> 's option) \<Rightarrow> 's \<Rightarrow> 's option" where
  "for_upto lo hi f s = (if lo \<le> hi \<and> \<not> in_i32 (hi + 1) then None else for_range lo (hi + 1) f s)"

section \<open>Frame buffers\<close>

record kgfx_fb =
  buffer :: "u32 list cptr"
  width :: u32
  height :: u32
  pitch :: u32

definition kgfx_argb :: "u8 \<Rightarrow> u8 \<Rightarrow> u8 \<Rightarrow> u8 \<Rightarrow> u32" where
  "kgfx_argb a r g b = push_bit 24 (ucast a) OR push_bit 16 (ucast r) OR push_bit 8 (ucast g) OR ucast b"

definition kgfx_font8x8 :: "u8 list list" where
  "kgfx_font8x8 = [
    [0x00, 0x00, 0x00, 0x00, 0x00, 0x00, 0x00, 0x00],
    [0x18, 0x3C, 0x3C, 0x18, 0x18, 0x00, 0x18, 0x00],
    [0x36, 0x36, 0x00, 0x00, 0x00, 0x00, 0x00, 0x00],
    [0x36, 0x36, 0x7F, 0x36, 0x7F, 0x36, 0x36, 0x00],
    [0x18, 0x3E, 0x60, 0x3C, 0x06, 0x7C, 0x18, 0x00],
    [0x00, 0x63, 0x66, 0x0C, 0x18, 0x33, 0x63, 0x00],
    [0x1C, 0x36, 0x1C, 0x3B, 0x6E, 0x66, 0x3B, 0x00],
    [0x18, 0x18, 0x30, 0x00, 0x00, 0x00, 0x00, 0x00],
    [0x0C, 0x18, 0x30, 0x30, 0x30, 0x18, 0x0C, 0x00],
    [0x30, 0x18, 0x0C, 0x0C, 0x0C, 0x18, 0x30, 0x00],
    [0x00, 0x18, 0x7E, 0x3C, 0x7E, 0x18, 0x00, 0x00],
    [0x00, 0x18, 0x18, 0x7E, 0x18, 0x18, 0x00, 0x00],
    [0x00, 0x00, 0x00, 0x00, 0x00, 0x18, 0x18, 0x30],
    [0x00, 0x00, 0x00, 0x7E, 0x00, 0x00, 0x00, 0x00],
    [0x00, 0x00, 0x00, 0x00, 0x00, 0x18, 0x18, 0x00],
    [0x00, 0x03, 0x06, 0x0C, 0x18, 0x30, 0x60, 0x00],
    [0x3C, 0x66, 0x6E, 0x7E, 0x76, 0x66, 0x3C, 0x00],
    [0x18, 0x38, 0x18, 0x18, 0x18, 0x18, 0x7E, 0x00],
    [0x3C, 0x66, 0x0C, 0x18, 0x30, 0x60, 0x7E, 0x00],
    [0x3C, 0x66, 0x0C, 0x1C, 0x0C, 0x66, 0x3C, 0x00],
    [0x0C, 0x1C, 0x3C, 0x6C, 0x7E, 0x0C, 0x0C, 0x00],
    [0x7E, 0x60, 0x7C, 0x06, 0x06, 0x66, 0x3C, 0x00],
    [0x3C, 0x66, 0x60, 0x7C, 0x66, 0x66, 0x3C, 0x00],
    [0x7E, 0x06, 0x0C, 0x18, 0x30, 0x30, 0x30, 0x00],
    [0x3C, 0x66, 0x66, 0x3C, 0x66, 0x66, 0x3C, 0x00],
    [0x3C, 0x66, 0x66, 0x3E, 0x06, 0x66, 0x3C, 0x00],
    [0x00, 0x18, 0x18, 0x00, 0x00, 0x18, 0x18, 0x00],
    [0x00, 0x18, 0x18, 0x00, 0x00, 0x18, 0x18, 0x30],
    [0x0C, 0x18, 0x30, 0x60, 0x30, 0x18, 0x0C, 0x00],
    [0x00, 0x00, 0x7E, 0x00, 0x7E, 0x00, 0x00, 0x00],
    [0x30, 0x18, 0x0C, 0x06, 0x0C, 0x18, 0x30, 0x00],
    [0x3C, 0x66, 0x0C, 0x18, 0x18, 0x00, 0x18, 0x00],
    [0x3C, 0x66, 0x6E, 0x6E, 0x60, 0x3E, 0x00, 0x00],
    [0x3C, 0x66, 0x66, 0x7E, 0x66, 0x66, 0x66, 0x00],
    [0x7C, 0x66, 0x66, 0x7C, 0x66, 0x66, 0x7C, 0x00],
    [0x3C, 0x66, 0x60, 0x60, 0x60, 0x66, 0x3C, 0x00],
    [0x78, 0x6C, 0x66, 0x66, 0x66, 0x6C, 0x78, 0x00],
    [0x7E, 0x60, 0x60, 0x7C, 0x60, 0x60, 0x7E, 0x00],
    [0x7E, 0x60, 0x60, 0x7C, 0x60, 0x60, 0x60, 0x00],
    [0x3C, 0x66, 0x60, 0x6E, 0x66, 0x66, 0x3C, 0x00],
    [0x66, 0x66, 0x66, 0x7E, 0x66, 0x66, 0x66, 0x00],
    [0x3C, 0x18, 0x18, 0x18, 0x18, 0x18, 0x3C, 0x00],
    [0x1E, 0x0C, 0x0C, 0x0C, 0x0C, 0x6C, 0x38, 0x00],
    [0x66, 0x6C, 0x78, 0x70, 0x78, 0x6C, 0x66, 0x00],
    [0x60, 0x60, 0x60, 0x60, 0x60, 0x60, 0x7E, 0x00],
    [0x63, 0x77, 0x7F, 0x6B, 0x63, 0x63, 0x63, 0x00],
    [0x66, 0x76, 0x7E, 0x7E, 0x6E, 0x66, 0x66, 0x00],
    [0x3C, 0x66, 0x66, 0x66, 0x66, 0x66, 0x3C, 0x00],
    [0x7C, 0x66, 0x66, 0x7C, 0x60, 0x60, 0x60, 0x00],
    [0x3C, 0x66, 0x66, 0x66, 0x6E, 0x3C, 0x0E, 0x00],
    [0x7C, 0x66, 0x66, 0x7C, 0x70, 0x68, 0x66, 0x00],
    [0x3C, 0x66, 0x60, 0x3C, 0x06, 0x66, 0x3C, 0x00],
    [0x7E, 0x18, 0x18, 0x18, 0x18, 0x18, 0x18, 0x00],
    [0x66, 0x66, 0x66, 0x66, 0x66, 0x66, 0x3C, 0x00],
    [0x66, 0x66, 0x66, 0x66, 0x66, 0x3C, 0x18, 0x00],
    [0x63, 0x63, 0x63, 0x6B, 0x7F, 0x3E, 0x36, 0x00],
    [0x66, 0x66, 0x3C, 0x18, 0x3C, 0x66, 0x66, 0x00],
    [0x66, 0x66, 0x66, 0x3C, 0x18, 0x18, 0x18, 0x00],
    [0x7E, 0x06, 0x0C, 0x18, 0x30, 0x60, 0x7E, 0x00],
    [0x3C, 0x30, 0x30, 0x30, 0x30, 0x30, 0x3C, 0x00],
    [0x00, 0x60, 0x30, 0x18, 0x0C, 0x06, 0x03, 0x00],
    [0x3C, 0x0C, 0x0C, 0x0C, 0x0C, 0x0C, 0x3C, 0x00],
    [0x18, 0x3C, 0x66, 0x00, 0x00, 0x00, 0x00, 0x00],
    [0x00, 0x00, 0x00, 0x00, 0x00, 0x00, 0x00, 0xFF],
    [0x30, 0x18, 0x0C, 0x00, 0x00, 0x00, 0x00, 0x00],
    [0x00, 0x00, 0x3C, 0x06, 0x3E, 0x66, 0x3E, 0x00],
    [0x60, 0x60, 0x7C, 0x66, 0x66, 0x66, 0x7C, 0x00],
    [0x00, 0x00, 0x3C, 0x60, 0x60, 0x66, 0x3C, 0x00],
    [0x06, 0x06, 0x3E, 0x66, 0x66, 0x66, 0x3E, 0x00],
    [0x00, 0x00, 0x3C, 0x66, 0x7E, 0x60, 0x3C, 0x00],
    [0x1C, 0x30, 0x7C, 0x30, 0x30, 0x30, 0x30, 0x00],
    [0x00, 0x00, 0x3E, 0x66, 0x66, 0x3E, 0x06, 0x7C],
    [0x60, 0x60, 0x7C, 0x66, 0x66, 0x66, 0x66, 0x00],
    [0x18, 0x00, 0x38, 0x18, 0x18, 0x18, 0x3C, 0x00],
    [0x06, 0x00, 0x0E, 0x06, 0x06, 0x66, 0x3C, 0x00],
    [0x60, 0x60, 0x66, 0x6C, 0x78, 0x6C, 0x66, 0x00],
    [0x38, 0x18, 0x18, 0x18, 0x18, 0x18, 0x3C, 0x00],
    [0x00, 0x00, 0x66, 0x7F, 0x7F, 0x6B, 0x63, 0x00],
    [0x00, 0x00, 0x7C, 0x66, 0x66, 0x66, 0x66, 0x00],
    [0x00, 0x00, 0x3C, 0x66, 0x66, 0x66, 0x3C, 0x00],
    [0x00, 0x00, 0x7C, 0x66, 0x66, 0x7C, 0x60, 0x60],
    [0x00, 0x00, 0x3E, 0x66, 0x66, 0x3E, 0x06, 0x06],
    [0x00, 0x00, 0x7C, 0x66, 0x60, 0x60, 0x60, 0x00],
    [0x00, 0x00, 0x3E, 0x60, 0x3C, 0x06, 0x7C, 0x00],
    [0x18, 0x18, 0x7E, 0x18, 0x18, 0x18, 0x0E, 0x00],
    [0x00, 0x00, 0x66, 0x66, 0x66, 0x66, 0x3E, 0x00],
    [0x00, 0x00, 0x66, 0x66, 0x66, 0x3C, 0x18, 0x00],
    [0x00, 0x00, 0x63, 0x6B, 0x7F, 0x3E, 0x36, 0x00],
    [0x00, 0x00, 0x66, 0x3C, 0x18, 0x3C, 0x66, 0x00],
    [0x00, 0x00, 0x66, 0x66, 0x66, 0x3E, 0x0C, 0x78],
    [0x00, 0x00, 0x7E, 0x0C, 0x18, 0x30, 0x7E, 0x00],
    [0x0E, 0x18, 0x18, 0x70, 0x18, 0x18, 0x0E, 0x00],
    [0x18, 0x18, 0x18, 0x00, 0x18, 0x18, 0x18, 0x00],
    [0x70, 0x18, 0x18, 0x0E, 0x18, 0x18, 0x70, 0x00],
    [0x3B, 0x6E, 0x00, 0x00, 0x00, 0x00, 0x00, 0x00]]"

definition cursor_arrow :: "u16 list" where
  "cursor_arrow = [0x800, 0xC00, 0xE00, 0xF00, 0xF80, 0xFC0, 0xFE0, 0xFF0, 0xF80, 0xDC0, 0x8E0, 0x070, 0x030, 0x000]"

definition cursor_hand :: "u16 list" where
  "cursor_hand = [0x300, 0x300, 0x300, 0x360, 0x36C, 0x76D, 0x7FF, 0x7FF, 0x3FF, 0x1FE, 0x0FC, 0x07C, 0x000, 0x000]"

definition cursor_beam :: "u16 list" where
  "cursor_beam = [0x7C0, 0x100, 0x100, 0x100, 0x100, 0x100, 0x100, 0x100, 0x100, 0x100, 0x100, 0x100, 0x7C0, 0x000]"

definition KGFX_WHITE :: u32 where "KGFX_WHITE = 0xFFFFFFFF"

definition deref :: "'a cptr \<Rightarrow> 'a option" where
  "deref p = (case p of NULL \<Rightarrow> None | Ptr a \<Rightarrow> Some a)"

text \<open>\<open>fb->buffer[i]\<close> read and written.\<close>

definition load_px :: "kgfx_fb \<Rightarrow> u32 \<Rightarrow> u32 option" where
  "load_px f i = do {b \<leftarrow> deref (buffer f); rd b (unat i)}"

definition store_px :: "kgfx_fb \<Rightarrow> u32 \<Rightarrow> u32 \<Rightarrow> kgfx_fb cptr option" where
  "store_px f i c = do {
     b \<leftarrow> deref (buffer f);
     b' \<leftarrow> wr b (unat i) c;
     Some (Ptr (f \<lparr>buffer := Ptr b'\<rparr>))}"

definition kgfx_init :: "kgfx_fb cptr \<Rightarrow> u32 list cptr \<Rightarrow> u32 \<Rightarrow> u32 \<Rightarrow> kgfx_fb cptr" where
  "kgfx_init fb buf w h = (case fb of NULL \<Rightarrow> NULL | Ptr f \<Rightarrow>
     if buf = NULL then Ptr f else Ptr \<lparr>buffer = buf, width = w, height = h, pitch = w\<rparr>)"

definition kgfx_clear :: "kgfx_fb cptr \<Rightarrow> u32 \<Rightarrow> kgfx_fb cptr option" where
  "kgfx_clear fb color = (case fb of NULL \<Rightarrow> Some NULL | Ptr f \<Rightarrow>
     if buffer f = NULL then Some fb
     else for_range 0 (uint (width f * height f))
       (\<lambda>i fb. do {f \<leftarrow> deref fb; store_px f (word_of_int i) color}) fb)"

definition blend_channel :: "u8 \<Rightarrow> u8 \<Rightarrow> u8 \<Rightarrow> u8" where
  "blend_channel fg bg a = word_of_int ((uint fg * uint a + uint bg * (255 - uint a)) div 255)"

definition kgfx_blend_colors :: "u32 \<Rightarrow> u32 \<Rightarrow> u32" where
  "kgfx_blend_colors bg fg = (
     let a = (ucast (drop_bit 24 fg AND 0xFF) :: u8) in
     if a = 255 then fg
     else if a = 0 then bg
     else
       let fg_r = ucast (drop_bit 16 fg AND 0xFF); fg_g = ucast (drop_bit 8 fg AND 0xFF);
           fg_b = ucast (fg AND 0xFF);
           bg_r = ucast (drop_bit 16 bg AND 0xFF); bg_g = ucast (drop_bit 8 bg AND 0xFF);
           bg_b = ucast (bg AND 0xFF);
           out_r = blend_channel fg_r bg_r a; out_g = blend_channel fg_g bg_g a;
           out_b = blend_channel fg_b bg_b a in
       0xFF000000 OR push_bit 16 (ucast out_r) OR push_bit 8 (ucast out_g) OR ucast out_b)"

definition off_screen :: "kgfx_fb \<Rightarrow> int \<Rightarrow> int \<Rightarrow> bool" where
  "off_screen f x y \<longleftrightarrow> x < 0 \<or> word_of_int x \<ge> width f \<or> y < 0 \<or> word_of_int y \<ge> height f"

definition kgfx_draw_pixel :: "kgfx_fb cptr \<Rightarrow> int \<Rightarrow> int \<Rightarrow> u32 \<Rightarrow> kgfx_fb cptr option" where
  "kgfx_draw_pixel fb x y color = (case fb of NULL \<Rightarrow> Some NULL | Ptr f \<Rightarrow>
     if buffer f = NULL then Some fb
     else if off_screen f x y then Some fb
     else store_px f (word_of_int y * pitch f + word_of_int x) color)"

definition kgfx_draw_pixel_alpha :: "kgfx_fb cptr \<Rightarrow> int \<Rightarrow> int \<Rightarrow> u32 \<Rightarrow> kgfx_fb cptr option" where
  "kgfx_draw_pixel_alpha fb x y color = (case fb of NULL \<Rightarrow> Some NULL | Ptr f \<Rightarrow>
     if buffer f = NULL then Some fb
     else if off_screen f x y then Some fb
     else do {
       let idx = word_of_int y * pitch f + word_of_int x;
       old \<leftarrow> load_px f idx;
       store_px f idx (kgfx_blend_colors old color)})"

section \<open>Lines, rectangles, circles, triangles\<close>

partial_function (option) line_loop ::
  "kgfx_fb cptr \<Rightarrow> int \<Rightarrow> int \<Rightarrow> int \<Rightarrow> int \<Rightarrow> u32 \<Rightarrow> int \<Rightarrow> int \<Rightarrow> int \<Rightarrow> int \<Rightarrow> int \<Rightarrow> kgfx_fb cptr option" where
  "line_loop fb x0 y0 x1 y1 color dx sx dy sy err = do {
     fb \<leftarrow> kgfx_draw_pixel fb x0 y0 color;
     if x0 = x1 \<and> y0 = y1 then Some fb
     else do {
       e2 \<leftarrow> ck32 (2 * err);
       (err, x0) \<leftarrow> (if e2 \<ge> dy then do {e \<leftarrow> ck32 (err + dy); x \<leftarrow> ck32 (x0 + sx); Some (e, x)}
                     else Some (err, x0));
       (err, y0) \<leftarrow> (if e2 \<le> dx then do {e \<leftarrow> ck32 (err + dx); y \<leftarrow> ck32 (y0 + sy); Some (e, y)}
                     else Some (err, y0));
       line_loop fb x0 y0 x1 y1 color dx sx dy sy err}}"

definition kgfx_draw_line :: "kgfx_fb cptr \<Rightarrow> int \<Rightarrow> int \<Rightarrow> int \<Rightarrow> int \<Rightarrow> u32 \<Rightarrow> kgfx_fb cptr option" where
  "kgfx_draw_line fb x0 y0 x1 y1 color = do {
     dx \<leftarrow> (if x1 > x0 then ck32 (x1 - x0) else ck32 (x0 - x1));
     let sx = (if x0 < x1 then 1 else - 1);
     dy \<leftarrow> (if y1 > y0 then ck32 (y0 - y1) else ck32 (y1 - y0));
     let sy = (if y0 < y1 then 1 else - 1);
     err \<leftarrow> ck32 (dx + dy);
     line_loop fb x0 y0 x1 y1 color dx sx dy sy err}"

definition last_of :: "int \<Rightarrow> int \<Rightarrow> int option" where
  "last_of a len = do {e \<leftarrow> ck32 (a + len); ck32 (e - 1)}"

definition fill_row :: "int \<Rightarrow> int \<Rightarrow> u32 \<Rightarrow> int \<Rightarrow> kgfx_fb cptr \<Rightarrow> kgfx_fb cptr option" where
  "fill_row x w color py fb = (if py < 0 then Some fb else do {
     f \<leftarrow> deref fb;
     if word_of_int py \<ge> height f then Some fb
     else do {
       let row = word_of_int py * pitch f + word_of_int x;
       for_range 0 w (\<lambda>px fb. do {
         f \<leftarrow> deref fb;
         xx \<leftarrow> ck32 (x + px);
         if xx \<ge> 0 \<and> word_of_int xx < width f then store_px f (row + word_of_int px) color
         else Some fb}) fb}})"

definition kgfx_draw_rect ::
  "kgfx_fb cptr \<Rightarrow> int \<Rightarrow> int \<Rightarrow> int \<Rightarrow> int \<Rightarrow> u32 \<Rightarrow> bool \<Rightarrow> kgfx_fb cptr option" where
  "kgfx_draw_rect fb x y w h color fill =
     (if w \<le> 0 \<or> h \<le> 0 then Some fb
      else if fill then do {
        bottom \<leftarrow> ck32 (y + h);
        for_range y bottom (fill_row x w color) fb}
      else do {
        right \<leftarrow> last_of x w;
        fb \<leftarrow> kgfx_draw_line fb x y right y color;
        bottom \<leftarrow> last_of y h;
        fb \<leftarrow> kgfx_draw_line fb x bottom right bottom color;
        fb \<leftarrow> kgfx_draw_line fb x y x bottom color;
        kgfx_draw_line fb right y right bottom color})"

definition kgfx_draw_rect_alpha ::
  "kgfx_fb cptr \<Rightarrow> int \<Rightarrow> int \<Rightarrow> int \<Rightarrow> int \<Rightarrow> u32 \<Rightarrow> kgfx_fb cptr option" where
  "kgfx_draw_rect_alpha fb x y w h color =
     (if w \<le> 0 \<or> h \<le> 0 then Some fb
      else do {
        bottom \<leftarrow> ck32 (y + h);
        for_range y bottom (\<lambda>py fb. do {
          right \<leftarrow> ck32 (x + w);
          for_range x right (\<lambda>px fb. kgfx_draw_pixel_alpha fb px py color) fb}) fb})"

definition plot :: "int \<Rightarrow> int \<Rightarrow> u32 \<Rightarrow> kgfx_fb cptr \<Rightarrow> kgfx_fb cptr option" where
  "plot x y color fb = do {px \<leftarrow> ck32 x; py \<leftarrow> ck32 y; kgfx_draw_pixel fb px py color}"

function circle_loop :: "kgfx_fb cptr \<Rightarrow> int \<Rightarrow> int \<Rightarrow> int \<Rightarrow> int \<Rightarrow> int \<Rightarrow> u32 \<Rightarrow> kgfx_fb cptr option" where
  "circle_loop fb cx cy x y d color =
     (if y \<ge> x then do {
        fb \<leftarrow> plot (cx + x) (cy + y) color fb;
        fb \<leftarrow> plot (cx - x) (cy + y) color fb;
        fb \<leftarrow> plot (cx + x) (cy - y) color fb;
        fb \<leftarrow> plot (cx - x) (cy - y) color fb;
        fb \<leftarrow> plot (cx + y) (cy + x) color fb;
        fb \<leftarrow> plot (cx - y) (cy + x) color fb;
        fb \<leftarrow> plot (cx + y) (cy - x) color fb;
        fb \<leftarrow> plot (cx - y) (cy - x) color fb;
        x' \<leftarrow> ck32 (x + 1);
        if d > 0 then do {
          y' \<leftarrow> ck32 (y - 1);
          t \<leftarrow> ck32 (x' - y');
          t \<leftarrow> ck32 (4 * t);
          t \<leftarrow> ck32 (d + t);
          d' \<leftarrow> ck32 (t + 10);
          circle_loop fb cx cy x' y' d' color}
        else do {
          t \<leftarrow> ck32 (4 * x');
          t \<leftarrow> ck32 (d + t);
          d' \<leftarrow> ck32 (t + 6);
          circle_loop fb cx cy x' y d' color}}
      else Some fb)"
  by pat_completeness auto
termination
  by (relation "measure (\<lambda>(_, _, _, x, y, _, _). nat (y - x + 1))") (auto simp: ck32_def split: if_splits)

declare circle_loop.simps [simp del]

definition kgfx_draw_circle :: "kgfx_fb cptr \<Rightarrow> int \<Rightarrow> int \<Rightarrow> int \<Rightarrow> u32 \<Rightarrow> kgfx_fb cptr option" where
  "kgfx_draw_circle fb cx cy r color = do {
     t \<leftarrow> ck32 (2 * r);
     d \<leftarrow> ck32 (3 - t);
     circle_loop fb cx cy 0 r d color}"

definition kgfx_draw_filled_circle :: "kgfx_fb cptr \<Rightarrow> int \<Rightarrow> int \<Rightarrow> int \<Rightarrow> u32 \<Rightarrow> kgfx_fb cptr option" where
  "kgfx_draw_filled_circle fb cx cy r color = do {
     lo \<leftarrow> ck32 (- r);
     for_upto lo r (\<lambda>y fb. for_upto lo r (\<lambda>x fb. do {
       xx \<leftarrow> ck32 (x * x);
       yy \<leftarrow> ck32 (y * y);
       l \<leftarrow> ck32 (xx + yy);
       rr \<leftarrow> ck32 (r * r);
       if l \<le> rr then plot (cx + x) (cy + y) color fb else Some fb}) fb) fb}"

definition kgfx_draw_rounded_rect ::
  "kgfx_fb cptr \<Rightarrow> int \<Rightarrow> int \<Rightarrow> int \<Rightarrow> int \<Rightarrow> int \<Rightarrow> u32 \<Rightarrow> bool \<Rightarrow> kgfx_fb cptr option" where
  "kgfx_draw_rounded_rect fb x y w h r color fill =
     (if r \<le> 0 then kgfx_draw_rect fb x y w h color fill
      else if fill then do {
        xr \<leftarrow> ck32 (x + r);
        r2 \<leftarrow> ck32 (2 * r);
        w2 \<leftarrow> ck32 (w - r2);
        fb \<leftarrow> kgfx_draw_rect fb xr y w2 h color True;
        yr \<leftarrow> ck32 (y + r);
        h2 \<leftarrow> ck32 (h - r2);
        fb \<leftarrow> kgfx_draw_rect fb x yr r h2 color True;
        xw \<leftarrow> ck32 (x + w);
        xwr \<leftarrow> ck32 (xw - r);
        fb \<leftarrow> kgfx_draw_rect fb xwr yr r h2 color True;
        fb \<leftarrow> kgfx_draw_filled_circle fb xr yr r color;
        xl \<leftarrow> ck32 (xwr - 1);
        fb \<leftarrow> kgfx_draw_filled_circle fb xl yr r color;
        yh \<leftarrow> ck32 (y + h);
        yhr \<leftarrow> ck32 (yh - r);
        yl \<leftarrow> ck32 (yhr - 1);
        fb \<leftarrow> kgfx_draw_filled_circle fb xr yl r color;
        kgfx_draw_filled_circle fb xl yl r color}
      else do {
        xr \<leftarrow> ck32 (x + r);
        xw \<leftarrow> ck32 (x + w);
        xwr \<leftarrow> ck32 (xw - r);
        fb \<leftarrow> kgfx_draw_line fb xr y xwr y color;
        bottom \<leftarrow> last_of y h;
        fb \<leftarrow> kgfx_draw_line fb xr bottom xwr bottom color;
        yr \<leftarrow> ck32 (y + r);
        yh \<leftarrow> ck32 (y + h);
        yhr \<leftarrow> ck32 (yh - r);
        fb \<leftarrow> kgfx_draw_line fb x yr x yhr color;
        right \<leftarrow> last_of x w;
        kgfx_draw_line fb right yr right yhr color})"

definition edge :: "int \<Rightarrow> int \<Rightarrow> int \<Rightarrow> int \<Rightarrow> int \<Rightarrow> int \<Rightarrow> int option" where
  "edge ax ay bx by' x y = do {
     a \<leftarrow> ck32 (bx - ax);
     b \<leftarrow> ck32 (y - ay);
     p \<leftarrow> ck32 (a * b);
     c \<leftarrow> ck32 (by' - ay);
     d \<leftarrow> ck32 (x - ax);
     q \<leftarrow> ck32 (c * d);
     ck32 (p - q)}"

definition kgfx_draw_triangle ::
  "kgfx_fb cptr \<Rightarrow> int \<Rightarrow> int \<Rightarrow> int \<Rightarrow> int \<Rightarrow> int \<Rightarrow> int \<Rightarrow> u32 \<Rightarrow> bool \<Rightarrow> kgfx_fb cptr option" where
  "kgfx_draw_triangle fb x0 y0 x1 y1 x2 y2 color fill =
     (if \<not> fill then do {
        fb \<leftarrow> kgfx_draw_line fb x0 y0 x1 y1 color;
        fb \<leftarrow> kgfx_draw_line fb x1 y1 x2 y2 color;
        kgfx_draw_line fb x2 y2 x0 y0 color}
      else
        let min_x = (if x0 < x1 then (if x0 < x2 then x0 else x2) else (if x1 < x2 then x1 else x2));
            max_x = (if x0 > x1 then (if x0 > x2 then x0 else x2) else (if x1 > x2 then x1 else x2));
            min_y = (if y0 < y1 then (if y0 < y2 then y0 else y2) else (if y1 < y2 then y1 else y2));
            max_y = (if y0 > y1 then (if y0 > y2 then y0 else y2) else (if y1 > y2 then y1 else y2)) in
        for_upto min_y max_y (\<lambda>y fb. for_upto min_x max_x (\<lambda>x fb. do {
          w0 \<leftarrow> edge x0 y0 x1 y1 x y;
          w1 \<leftarrow> edge x1 y1 x2 y2 x y;
          w2 \<leftarrow> edge x2 y2 x0 y0 x y;
          if (w0 \<ge> 0 \<and> w1 \<ge> 0 \<and> w2 \<ge> 0) \<or> (w0 \<le> 0 \<and> w1 \<le> 0 \<and> w2 \<le> 0)
          then kgfx_draw_pixel fb x y color else Some fb}) fb) fb)"

section \<open>Text\<close>

definition glyph_of :: "u8 \<Rightarrow> u8 list option" where
  "glyph_of c = (let c = (if c < 32 \<or> c > 126 then 63 else c) in rd kgfx_font8x8 (unat (c - 32)))"

definition kgfx_draw_char ::
  "kgfx_fb cptr \<Rightarrow> int \<Rightarrow> int \<Rightarrow> u8 \<Rightarrow> u32 \<Rightarrow> u32 \<Rightarrow> kgfx_fb cptr option" where
  "kgfx_draw_char fb x y c fg bg = do {
     glyph \<leftarrow> glyph_of c;
     f0 \<leftarrow> deref fb;
     for_range 0 8 (\<lambda>row fb. do {
       py \<leftarrow> ck32 (y + row);
       f \<leftarrow> deref fb;
       if py < 0 \<or> word_of_int py \<ge> height f then Some fb
       else do {
         let line = word_of_int py * pitch f0 + word_of_int x;
         bits \<leftarrow> rd glyph (nat row);
         for_range 0 8 (\<lambda>col fb. do {
           px \<leftarrow> ck32 (x + col);
           f \<leftarrow> deref fb;
           if px < 0 \<or> word_of_int px \<ge> width f then Some fb
           else if bits AND push_bit (nat (7 - col)) 1 \<noteq> 0 then store_px f (line + word_of_int col) fg
           else if bg \<noteq> 0 then store_px f (line + word_of_int col) bg
           else Some fb}) fb}}) fb}"

definition kgfx_draw_char_scaled ::
  "kgfx_fb cptr \<Rightarrow> int \<Rightarrow> int \<Rightarrow> u8 \<Rightarrow> u32 \<Rightarrow> u32 \<Rightarrow> int \<Rightarrow> kgfx_fb cptr option" where
  "kgfx_draw_char_scaled fb x y c fg bg scale =
     (if scale \<le> 1 then kgfx_draw_char fb x y c fg bg
      else do {
        glyph \<leftarrow> glyph_of c;
        for_range 0 8 (\<lambda>row fb. do {
          bits \<leftarrow> rd glyph (nat row);
          for_range 0 8 (\<lambda>col fb. do {
            let col_val = (if bits AND push_bit (nat (7 - col)) 1 \<noteq> 0 then fg else bg);
            if col_val \<noteq> 0 then do {
              dx \<leftarrow> ck32 (col * scale);
              px \<leftarrow> ck32 (x + dx);
              dy \<leftarrow> ck32 (row * scale);
              py \<leftarrow> ck32 (y + dy);
              kgfx_draw_rect fb px py scale scale col_val True}
            else Some fb}) fb}) fb})"

text \<open>The character loop of both string functions: \<open>draw\<close> draws one character.\<close>

fun string_loop ::
  "(kgfx_fb cptr \<Rightarrow> int \<Rightarrow> int \<Rightarrow> u8 \<Rightarrow> kgfx_fb cptr option) \<Rightarrow> int \<Rightarrow> int \<Rightarrow> int \<Rightarrow> u8 list \<Rightarrow>
   kgfx_fb cptr \<Rightarrow> int \<Rightarrow> int \<Rightarrow> kgfx_fb cptr option" where
  "string_loop draw x stepx stepy [] fb cx cy = None"
| "string_loop draw x stepx stepy (ch # str) fb cx cy =
     (if ch = 0 then Some fb
      else if ch = 10 then do {
        dy \<leftarrow> ck32 stepy;
        cy' \<leftarrow> ck32 (cy + dy);
        string_loop draw x stepx stepy str fb x cy'}
      else do {
        fb \<leftarrow> draw fb cx cy ch;
        dx \<leftarrow> ck32 stepx;
        cx' \<leftarrow> ck32 (cx + dx);
        string_loop draw x stepx stepy str fb cx' cy})"

definition kgfx_draw_string ::
  "kgfx_fb cptr \<Rightarrow> int \<Rightarrow> int \<Rightarrow> u8 list cptr \<Rightarrow> u32 \<Rightarrow> u32 \<Rightarrow> kgfx_fb cptr option" where
  "kgfx_draw_string fb x y str fg bg = (case str of NULL \<Rightarrow> Some fb | Ptr s \<Rightarrow>
     string_loop (\<lambda>fb cx cy ch. kgfx_draw_char fb cx cy ch fg bg) x 8 14 s fb x y)"

definition kgfx_draw_string_scaled ::
  "kgfx_fb cptr \<Rightarrow> int \<Rightarrow> int \<Rightarrow> u8 list cptr \<Rightarrow> u32 \<Rightarrow> u32 \<Rightarrow> int \<Rightarrow> kgfx_fb cptr option" where
  "kgfx_draw_string_scaled fb x y str fg bg scale =
     (if scale \<le> 1 then kgfx_draw_string fb x y str fg bg
      else case str of NULL \<Rightarrow> Some fb | Ptr s \<Rightarrow>
        string_loop (\<lambda>fb cx cy ch. kgfx_draw_char_scaled fb cx cy ch fg bg scale)
          x (8 * scale) (14 * scale) s fb x y)"

section \<open>Blitting and the double buffer\<close>

definition kgfx_blit ::
  "kgfx_fb cptr \<Rightarrow> int \<Rightarrow> int \<Rightarrow> u32 list cptr \<Rightarrow> int \<Rightarrow> int \<Rightarrow> u32 \<Rightarrow> kgfx_fb cptr option" where
  "kgfx_blit dest dx dy src_buf sw sh chroma_key =
     (if dest = NULL \<or> src_buf = NULL \<or> sw \<le> 0 \<or> sh \<le> 0 then Some dest
      else for_range 0 sh (\<lambda>y fb. for_range 0 sw (\<lambda>x fb. do {
        s \<leftarrow> deref src_buf;
        a \<leftarrow> ck32 (y * sw);
        i \<leftarrow> ck32 (a + x);
        pixel \<leftarrow> rd s (nat i);
        if pixel \<noteq> chroma_key then plot (dx + x) (dy + y) pixel fb else Some fb}) fb) dest)"

record kgfx_double_buffer =
  front_buffer :: "u32 list cptr"
  back_buffer :: "u32 list cptr"
  db_width :: u32
  db_height :: u32

definition kgfx_double_buffer_init ::
  "kgfx_double_buffer cptr \<Rightarrow> u32 list cptr \<Rightarrow> u32 list cptr \<Rightarrow> u32 \<Rightarrow> u32 \<Rightarrow> kgfx_double_buffer cptr" where
  "kgfx_double_buffer_init db front back w h = (case db of NULL \<Rightarrow> NULL | Ptr d \<Rightarrow>
     Ptr \<lparr>front_buffer = front, back_buffer = back, db_width = w, db_height = h\<rparr>)"

text \<open>\<open>kmemcpy\<close> between two different pixel arrays, of a byte count that is a multiple of 4.\<close>

definition copy_pixels :: "u32 list \<Rightarrow> nat \<Rightarrow> u32 list \<Rightarrow> nat \<Rightarrow> u32 \<Rightarrow> u32 list option" where
  "copy_pixels dst i src j bytes = (
     let n = unat bytes div 4 in
     if n = 0 then Some dst
     else if i + n \<le> length dst \<and> j + n \<le> length src
     then Some (take i dst @ take n (drop j src) @ drop (i + n) dst) else None)"

definition kgfx_swap_buffers :: "kgfx_double_buffer cptr \<Rightarrow> kgfx_double_buffer cptr option" where
  "kgfx_swap_buffers db = (case db of NULL \<Rightarrow> Some NULL | Ptr d \<Rightarrow>
     (case (front_buffer d, back_buffer d) of
        (Ptr front, Ptr back) \<Rightarrow> do {
          front' \<leftarrow> copy_pixels front 0 back 0 (db_width d * db_height d * 4);
          Some (Ptr (d \<lparr>front_buffer := Ptr front'\<rparr>))}
      | _ \<Rightarrow> Some db))"

record kgfx_rect = rect_x :: int rect_y :: int rect_w :: int rect_h :: int

record kgfx_dirty_list =
  rects :: "kgfx_rect list"
  dirty_count :: nat

definition KGFX_MAX_DIRTY_RECTS :: nat where "KGFX_MAX_DIRTY_RECTS = 16"

definition kgfx_dirty_clear :: "kgfx_dirty_list cptr \<Rightarrow> kgfx_dirty_list cptr" where
  "kgfx_dirty_clear list = (case list of NULL \<Rightarrow> NULL | Ptr l \<Rightarrow> Ptr (l \<lparr>dirty_count := 0\<rparr>))"

definition kgfx_add_dirty_rect ::
  "kgfx_dirty_list cptr \<Rightarrow> int \<Rightarrow> int \<Rightarrow> int \<Rightarrow> int \<Rightarrow> kgfx_dirty_list cptr option" where
  "kgfx_add_dirty_rect list x y w h = (case list of NULL \<Rightarrow> Some NULL | Ptr l \<Rightarrow>
     if dirty_count l \<ge> KGFX_MAX_DIRTY_RECTS then Some list
     else do {
       rs \<leftarrow> wr (rects l) (dirty_count l) \<lparr>rect_x = x, rect_y = y, rect_w = w, rect_h = h\<rparr>;
       Some (Ptr (l \<lparr>rects := rs, dirty_count := dirty_count l + 1\<rparr>))})"

definition clip_rect :: "kgfx_double_buffer \<Rightarrow> kgfx_rect \<Rightarrow> kgfx_rect option" where
  "clip_rect d r = do {
     let r = (if rect_x r < 0 then r \<lparr>rect_x := 0\<rparr> else r);
     let r = (if rect_y r < 0 then r \<lparr>rect_y := 0\<rparr> else r);
     right \<leftarrow> ck32 (rect_x r + rect_w r);
     let r = (if word_of_int right > db_width d
              then r \<lparr>rect_w := sint (db_width d - word_of_int (rect_x r))\<rparr> else r);
     bottom \<leftarrow> ck32 (rect_y r + rect_h r);
     Some (if word_of_int bottom > db_height d
           then r \<lparr>rect_h := sint (db_height d - word_of_int (rect_y r))\<rparr> else r)}"

definition flush_rect :: "kgfx_rect \<Rightarrow> kgfx_double_buffer \<Rightarrow> kgfx_double_buffer option" where
  "flush_rect rect d = do {
     r \<leftarrow> clip_rect d rect;
     bottom \<leftarrow> ck32 (rect_y r + rect_h r);
     for_range (rect_y r) bottom (\<lambda>py d. do {
       let offset = unat (word_of_int py * db_width d + word_of_int (rect_x r));
       front \<leftarrow> deref (front_buffer d);
       back \<leftarrow> deref (back_buffer d);
       front' \<leftarrow> copy_pixels front offset back offset (word_of_int (rect_w r) * 4);
       Some (d \<lparr>front_buffer := Ptr front'\<rparr>)}) d}"

definition kgfx_flush_dirty ::
  "kgfx_double_buffer cptr \<Rightarrow> kgfx_dirty_list cptr \<Rightarrow> (kgfx_double_buffer cptr \<times> kgfx_dirty_list cptr) option" where
  "kgfx_flush_dirty db list = (case (db, list) of
     (Ptr d, Ptr l) \<Rightarrow>
       if front_buffer d = NULL \<or> back_buffer d = NULL then Some (db, list)
       else do {
         d' \<leftarrow> for_range 0 (int (dirty_count l)) (\<lambda>i d. do {
           r \<leftarrow> rd (rects l) (nat i);
           flush_rect r d}) d;
         Some (Ptr d', Ptr (l \<lparr>dirty_count := 0\<rparr>))}
   | _ \<Rightarrow> Some (db, list))"

section \<open>Cursor, hit test, VGA text screen, serial port\<close>

datatype kgfx_cursor_type = KGFX_CURSOR_NORMAL | KGFX_CURSOR_CLICKABLE | KGFX_CURSOR_TEXT

record kgfx_mouse =
  mouse_x :: int
  mouse_y :: int
  mouse_buttons :: u8
  mouse_type :: kgfx_cursor_type

definition kgfx_draw_cursor :: "kgfx_fb cptr \<Rightarrow> kgfx_mouse cptr \<Rightarrow> kgfx_fb cptr option" where
  "kgfx_draw_cursor fb mouse = (case (fb, mouse) of
     (Ptr _, Ptr m) \<Rightarrow>
       let sprite = (if mouse_type m = KGFX_CURSOR_CLICKABLE then cursor_hand
                     else if mouse_type m = KGFX_CURSOR_TEXT then cursor_beam else cursor_arrow) in
       for_range 0 14 (\<lambda>row fb. do {
         bits \<leftarrow> rd sprite (nat row);
         for_range 0 12 (\<lambda>col fb.
           if bits AND push_bit (nat (11 - col)) 1 \<noteq> 0
           then plot (mouse_x m + col) (mouse_y m + row) KGFX_WHITE fb
           else Some fb) fb}) fb
   | _ \<Rightarrow> Some fb)"

definition kgfx_rect_contains :: "kgfx_rect cptr \<Rightarrow> int \<Rightarrow> int \<Rightarrow> bool option" where
  "kgfx_rect_contains rect x y = (case rect of NULL \<Rightarrow> Some False | Ptr r \<Rightarrow>
     if \<not> x \<ge> rect_x r then Some False
     else do {
       right \<leftarrow> ck32 (rect_x r + rect_w r);
       if \<not> x < right then Some False
       else if \<not> y \<ge> rect_y r then Some False
       else do {
         bottom \<leftarrow> ck32 (rect_y r + rect_h r);
         Some (y < bottom)}})"

text \<open>A cell of the text screen is its character and its attribute.\<close>

type_synonym vga_cell = "u8 \<times> u8"

definition kgfx_vga3h_putc :: "int \<Rightarrow> int \<Rightarrow> u8 \<Rightarrow> u8 \<Rightarrow> u8 \<Rightarrow> vga_cell list \<Rightarrow> vga_cell list option" where
  "kgfx_vga3h_putc col row c fg bg mem =
     (if col < 0 \<or> col \<ge> 80 \<or> row < 0 \<or> row \<ge> 25 then Some mem
      else wr mem (nat (row * 80 + col)) (c, push_bit 4 bg OR (fg AND 0x0F)))"

fun kgfx_vga3h_print :: "int \<Rightarrow> int \<Rightarrow> u8 list \<Rightarrow> u8 \<Rightarrow> u8 \<Rightarrow> vga_cell list \<Rightarrow> vga_cell list option" where
  "kgfx_vga3h_print col row [] fg bg mem = None"
| "kgfx_vga3h_print col row (ch # str) fg bg mem =
     (if ch = 0 then Some mem
      else do {
        mem \<leftarrow> kgfx_vga3h_putc col row ch fg bg mem;
        col \<leftarrow> ck32 (col + 1);
        if col \<ge> 80 then do {row \<leftarrow> ck32 (row + 1); kgfx_vga3h_print 0 row str fg bg mem}
        else kgfx_vga3h_print col row str fg bg mem})"

definition kgfx_vga3h_clear :: "u8 \<Rightarrow> vga_cell list \<Rightarrow> vga_cell list option" where
  "kgfx_vga3h_clear bg mem =
     for_range 0 25 (\<lambda>r mem. for_range 0 80 (\<lambda>c mem. kgfx_vga3h_putc c r 32 0x0F bg mem) mem) mem"

definition COM1_PORT :: u16 where "COM1_PORT = 0x3F8"

definition kgfx_serial_init :: "'d bus \<Rightarrow> 'd \<Rightarrow> 'd" where
  "kgfx_serial_init io = outbs io [(COM1_PORT + 1, 0x00), (COM1_PORT + 3, 0x80), (COM1_PORT + 0, 0x03),
     (COM1_PORT + 1, 0x00), (COM1_PORT + 3, 0x03), (COM1_PORT + 2, 0xC7), (COM1_PORT + 4, 0x0B)]"

partial_function (option) serial_wait :: "'d bus \<Rightarrow> 'd \<Rightarrow> 'd option" where
  "serial_wait io d = (
     let (s, d') = inb io (COM1_PORT + 5) d in
     if s AND 0x20 = 0 then serial_wait io d' else Some d')"

definition kgfx_serial_putc :: "'d bus \<Rightarrow> u8 \<Rightarrow> 'd \<Rightarrow> 'd option" where
  "kgfx_serial_putc io c d = do {
     d \<leftarrow> serial_wait io d;
     Some (outb io COM1_PORT c d)}"

fun kgfx_serial_print :: "'d bus \<Rightarrow> u8 list \<Rightarrow> 'd \<Rightarrow> 'd option" where
  "kgfx_serial_print io [] d = None"
| "kgfx_serial_print io (ch # str) d =
     (if ch = 0 then Some d else do {d \<leftarrow> kgfx_serial_putc io ch d; kgfx_serial_print io str d})"

section \<open>Which pixels are painted\<close>

text \<open>The array index \<open>i\<close> is the pixel \<open>(x, y)\<close> of the screen.\<close>

definition cell :: "kgfx_fb \<Rightarrow> int \<Rightarrow> int \<Rightarrow> nat \<Rightarrow> bool" where
  "cell f x y i \<longleftrightarrow> 0 \<le> x \<and> x < uint (width f) \<and> 0 \<le> y \<and> y < uint (height f)
     \<and> int i = y * uint (pitch f) + x"

text \<open>\<open>g\<close> is \<open>f\<close> with the pixels of \<open>P\<close> that are on the screen set to \<open>c\<close>, nothing else changed.\<close>

definition paints :: "kgfx_fb \<Rightarrow> (int \<Rightarrow> int \<Rightarrow> bool) \<Rightarrow> u32 \<Rightarrow> kgfx_fb \<Rightarrow> bool" where
  "paints f P c g \<longleftrightarrow> (\<exists>b b'. buffer f = Ptr b \<and> g = f \<lparr>buffer := Ptr b'\<rparr> \<and> length b' = length b
     \<and> (\<forall>i < length b. b' ! i = (if \<exists>x y. cell f x y i \<and> P x y then c else b ! i)))"

definition fb_ok :: "kgfx_fb \<Rightarrow> bool" where
  "fb_ok f \<longleftrightarrow> (\<exists>b. buffer f = Ptr b \<and> uint (pitch f) * uint (height f) \<le> int (length b)
     \<and> length b < 2 ^ 32) \<and> width f \<le> pitch f"

lemma cell_buffer [simp]: "cell (f \<lparr>buffer := b\<rparr>) = cell f"
  by (simp add: cell_def fun_eq_iff)

lemma paints_ok: "paints f P c g \<Longrightarrow> fb_ok f \<Longrightarrow> fb_ok g"
  by (auto simp: paints_def fb_ok_def)

lemma paints_dims: "paints f P c g \<Longrightarrow> width g = width f \<and> height g = height f \<and> pitch g = pitch f"
  by (auto simp: paints_def)

lemma paints_none: "fb_ok f \<Longrightarrow> (\<And>x y i. cell f x y i \<Longrightarrow> \<not> P x y) \<Longrightarrow> paints f P c f"
  by (force simp: paints_def fb_ok_def)

lemma paints_trans:
  assumes "paints f P c g" "paints g Q c h"
  shows "paints f (\<lambda>x y. P x y \<or> Q x y) c h"
proof -
  obtain b b1 where 1: "buffer f = Ptr b" "g = f \<lparr>buffer := Ptr b1\<rparr>" "length b1 = length b"
    "\<forall>i < length b. b1 ! i = (if \<exists>x y. cell f x y i \<and> P x y then c else b ! i)"
    using assms(1) unfolding paints_def by blast
  obtain b2 where 2: "h = g \<lparr>buffer := Ptr b2\<rparr>" "length b2 = length b1"
    "\<forall>i < length b1. b2 ! i = (if \<exists>x y. cell g x y i \<and> Q x y then c else b1 ! i)"
    using assms(2) 1(2) unfolding paints_def by auto
  have "b2 ! i = (if \<exists>x y. cell f x y i \<and> (P x y \<or> Q x y) then c else b ! i)" if "i < length b" for i
    using that 1(2-4) 2(2,3) by auto
  then show ?thesis
    unfolding paints_def using 1(1-3) 2(1,2)
    by (intro exI [where x = b] exI [where x = b2] conjI allI impI) simp_all
qed

lemma paints_cong: "paints f P c g \<Longrightarrow> (\<And>x y. P x y = Q x y) \<Longrightarrow> paints f Q c g"
  by (simp add: paints_def)

text \<open>A pixel on the screen is one array element, below the array's end.\<close>

lemma cell_index:
  assumes "fb_ok f" "cell f x y i" "buffer f = Ptr b"
  shows "i < length b" "unat (word_of_int y * pitch f + word_of_int x) = i"
proof -
  have w: "x < uint (pitch f)" using assms(1,2) by (simp add: fb_ok_def cell_def word_le_def)
  have "y * uint (pitch f) + x < y * uint (pitch f) + uint (pitch f)" using w by simp
  also have "\<dots> = uint (pitch f) * (y + 1)" by (simp add: algebra_simps)
  also have "\<dots> \<le> uint (pitch f) * uint (height f)"
    using assms(2) by (intro mult_left_mono) (simp_all add: cell_def)
  finally have lt: "int i < int (length b)" and len: "length b < 2 ^ 32"
    using assms by (auto simp: fb_ok_def cell_def)
  then show "i < length b" by simp
  have "(word_of_int y * pitch f + word_of_int x :: u32) = word_of_int (int i)"
    using assms(2) by (simp add: cell_def)
  then have "unat (word_of_int y * pitch f + word_of_int x :: u32) = unat (of_nat i :: u32)" by simp
  also have "\<dots> = i" using lt len by (simp add: unat_of_nat take_bit_nat_eq_self)
  finally show "unat (word_of_int y * pitch f + word_of_int x) = i" .
qed

lemma store_paints:
  assumes "fb_ok f" "cell f x y i" "k = word_of_int y * pitch f + word_of_int x"
  shows "\<exists>g. store_px f k c = Some (Ptr g) \<and> paints f (\<lambda>u v. u = x \<and> v = y) c g"
proof -
  obtain b where b: "buffer f = Ptr b" using assms(1) by (auto simp: fb_ok_def)
  note ix = cell_index [OF assms(1,2) b]
  have "store_px f k c = Some (Ptr (f \<lparr>buffer := Ptr (b[i := c])\<rparr>))"
    using ix unfolding assms(3) store_px_def by (simp add: deref_def b)
  moreover have "b[i := c] ! j = (if cell f x y j then c else b ! j)" if "j < length b" for j
    using that assms(2) by (auto simp: cell_def nth_list_update)
  ultimately show ?thesis using b by (auto simp: paints_def)
qed

lemma off_screen_iff:
  assumes "in_i32 x" "in_i32 y"
  shows "off_screen f x y \<longleftrightarrow> \<not> (0 \<le> x \<and> x < uint (width f) \<and> 0 \<le> y \<and> y < uint (height f))"
proof -
  have u: "uint (word_of_int z :: u32) = z" if "in_i32 z" "0 \<le> z" for z
    using that by (intro uint_word_of_int_in) (simp_all add: in_i32_def)
  show ?thesis
    using u [OF assms(1)] u [OF assms(2)]
    by (cases "x < 0"; cases "y < 0") (simp_all add: off_screen_def word_le_def not_less not_le)
qed

lemma off_screen_cell: "in_i32 x \<Longrightarrow> in_i32 y \<Longrightarrow> off_screen f x y \<Longrightarrow> \<not> cell f x y i"
  by (simp only: off_screen_iff cell_def) blast

lemma on_screen_cell:
  "in_i32 x \<Longrightarrow> in_i32 y \<Longrightarrow> \<not> off_screen f x y \<Longrightarrow> cell f x y (nat (y * uint (pitch f) + x))"
  by (simp add: off_screen_iff cell_def)

lemma draw_pixel_paints:
  assumes "fb_ok f" "in_i32 x" "in_i32 y"
  shows "\<exists>g. kgfx_draw_pixel (Ptr f) x y c = Some (Ptr g) \<and> paints f (\<lambda>u v. u = x \<and> v = y) c g"
proof (cases "off_screen f x y")
  case True
  note off_screen_cell [OF assms(2,3) True]
  then have "paints f (\<lambda>u v. u = x \<and> v = y) c f" by (intro paints_none assms) auto
  then show ?thesis using True assms(1) by (auto simp: kgfx_draw_pixel_def fb_ok_def)
next
  case False
  then have "cell f x y (nat (y * uint (pitch f) + x))" by (rule on_screen_cell [OF assms(2,3)])
  from store_paints [OF assms(1) this refl] show ?thesis
    using False assms(1) by (auto simp: kgfx_draw_pixel_def fb_ok_def)
qed

lemma plot_paints:
  assumes "fb_ok f" "in_i32 x" "in_i32 y"
  shows "\<exists>g. plot x y c (Ptr f) = Some (Ptr g) \<and> paints f (\<lambda>u v. u = x \<and> v = y) c g"
  using draw_pixel_paints [OF assms] assms by (simp add: plot_def)

lemma for_range_paints:
  assumes "fb_ok f"
    and "\<forall>i g. lo \<le> i \<and> i < hi \<and> fb_ok g \<and> (\<exists>b. g = f \<lparr>buffer := b\<rparr>) \<longrightarrow>
           (\<exists>h. body i (Ptr g) = Some (Ptr h) \<and> paints g (P i) c h)"
  shows "\<exists>g. for_range lo hi body (Ptr f) = Some (Ptr g)
    \<and> paints f (\<lambda>x y. \<exists>i. lo \<le> i \<and> i < hi \<and> P i x y) c g"
  using assms
proof (induction "nat (hi - lo)" arbitrary: lo f)
  case 0
  then show ?case by (intro exI [where x = f]) (auto simp: for_range.simps intro!: paints_none)
next
  case (Suc n)
  have lt: "lo < hi" using Suc.hyps(2) by linarith
  obtain g where g: "body lo (Ptr f) = Some (Ptr g)" "paints f (P lo) c g"
  proof -
    have "\<exists>b. f = f \<lparr>buffer := b\<rparr>" by (rule exI [where x = "buffer f"]) simp
    then show ?thesis using Suc.prems(2) [rule_format, of lo f] Suc.prems(1) lt that by blast
  qed
  obtain b where b: "g = f \<lparr>buffer := b\<rparr>" using g(2) by (auto simp: paints_def)
  have "\<exists>h. for_range (lo + 1) hi body (Ptr g) = Some (Ptr h)
      \<and> paints g (\<lambda>x y. \<exists>i. lo + 1 \<le> i \<and> i < hi \<and> P i x y) c h"
  proof (rule Suc.hyps(1))
    show "n = nat (hi - (lo + 1))" using Suc.hyps(2) by simp
    show "fb_ok g" by (rule paints_ok [OF g(2) Suc.prems(1)])
    show "\<forall>i h. lo + 1 \<le> i \<and> i < hi \<and> fb_ok h \<and> (\<exists>b. h = g \<lparr>buffer := b\<rparr>) \<longrightarrow>
        (\<exists>k. body i (Ptr h) = Some (Ptr k) \<and> paints h (P i) c k)"
      using Suc.prems(2) b by auto
  qed
  then obtain h where h: "for_range (lo + 1) hi body (Ptr g) = Some (Ptr h)"
    "paints g (\<lambda>x y. \<exists>i. lo + 1 \<le> i \<and> i < hi \<and> P i x y) c h" by blast
  have "for_range lo hi body (Ptr f) = Some (Ptr h)" using lt g(1) h(1) by (simp add: for_range.simps [of lo])
  moreover have "paints f (\<lambda>x y. \<exists>i. lo \<le> i \<and> i < hi \<and> P i x y) c h"
  proof (rule paints_cong [OF paints_trans [OF g(2) h(2)]])
    fix x y
    show "(P lo x y \<or> (\<exists>i. lo + 1 \<le> i \<and> i < hi \<and> P i x y)) = (\<exists>i. lo \<le> i \<and> i < hi \<and> P i x y)"
    proof -
      have "lo \<le> i \<longleftrightarrow> i = lo \<or> lo + 1 \<le> i" for i by linarith
      then show ?thesis using lt by auto
    qed
  qed
  ultimately show ?case by blast
qed

lemma for_upto_paints:
  assumes "fb_ok f" "in_i32 (hi + 1)"
    and "\<forall>i g. lo \<le> i \<and> i \<le> hi \<and> fb_ok g \<and> (\<exists>b. g = f \<lparr>buffer := b\<rparr>) \<longrightarrow>
           (\<exists>h. body i (Ptr g) = Some (Ptr h) \<and> paints g (P i) c h)"
  shows "\<exists>g. for_upto lo hi body (Ptr f) = Some (Ptr g)
    \<and> paints f (\<lambda>x y. \<exists>i. lo \<le> i \<and> i \<le> hi \<and> P i x y) c g"
  using for_range_paints [OF assms(1), where lo = lo and hi = "hi + 1" and body = body and P = P and c = c]
    assms(2,3) by (simp add: for_upto_def)

lemma paints_nothing: "fb_ok f \<Longrightarrow> paints f (\<lambda>x y. False) c f"
  by (rule paints_none) simp_all

lemma paints_if:
  assumes "t \<Longrightarrow> \<exists>h. a = Some (Ptr h) \<and> paints g P c h" "fb_ok g"
  shows "\<exists>h. (if t then a else Some (Ptr g)) = Some (Ptr h) \<and> paints g (\<lambda>x y. t \<and> P x y) c h"
  using assms paints_nothing [OF assms(2), of c] by (cases t) auto

section \<open>Filled shapes\<close>

lemma fill_row_paints:
  assumes ok: "fb_ok f" and x: "in_i32 x" "in_i32 (x + w)" and py: "in_i32 py" and w: "0 < w"
  shows "\<exists>g. fill_row x w c py (Ptr f) = Some (Ptr g)
    \<and> paints f (\<lambda>u v. v = py \<and> x \<le> u \<and> u < x + w) c g"
proof (cases "py < 0 \<or> word_of_int py \<ge> height f")
  case True
  have off: "\<not> cell f u py i" for u i
  proof (cases "py < 0")
    case False
    then have "uint (word_of_int py :: u32) = py" using py by (intro uint_word_of_int_in) (simp_all add: in_i32_def)
    then show ?thesis using True False by (simp add: cell_def word_le_def)
  qed (simp add: cell_def)
  then have "paints f (\<lambda>u v. v = py \<and> x \<le> u \<and> u < x + w) c f" by (intro paints_none ok) auto
  then show ?thesis using True by (auto simp: fill_row_def deref_def)
next
  case False
  let ?body = "\<lambda>px fb. do {
     f' \<leftarrow> deref fb;
     xx \<leftarrow> ck32 (x + px);
     if xx \<ge> 0 \<and> word_of_int xx < width f'
     then store_px f' (word_of_int py * pitch f + word_of_int x + word_of_int px) c else Some fb}"
  have body: "\<exists>h. ?body i (Ptr g) = Some (Ptr h) \<and> paints g (\<lambda>u v. u = x + i \<and> v = py) c h"
    if "0 \<le> i" "i < w" "fb_ok g" "g = f \<lparr>buffer := b\<rparr>" for i g b
  proof -
    have xi: "in_i32 (x + i)" using that x by (simp add: in_i32_def)
    show ?thesis
    proof (cases "0 \<le> x + i \<and> word_of_int (x + i) < width g")
      case True
      then have "\<not> off_screen g (x + i) py" using False that(4) by (simp add: off_screen_def not_le)
      then have "cell g (x + i) py (nat (py * uint (pitch g) + (x + i)))"
        by (rule on_screen_cell [OF xi py])
      from store_paints [OF that(3) this, of "word_of_int py * pitch f + word_of_int x + word_of_int i" c]
      show ?thesis using True that(4) xi by (simp add: deref_def add.assoc)
    next
      case off: False
      then have "off_screen g (x + i) py" by (auto simp: off_screen_def not_less not_le)
      note off_screen_cell [OF xi py this]
      then have "paints g (\<lambda>u v. u = x + i \<and> v = py) c g" by (intro paints_none that(3)) auto
      then show ?thesis using off xi by (auto simp: deref_def)
    qed
  qed
  have "\<exists>g. for_range 0 w ?body (Ptr f) = Some (Ptr g)
      \<and> paints f (\<lambda>u v. \<exists>i. 0 \<le> i \<and> i < w \<and> (u = x + i \<and> v = py)) c g"
    by (rule for_range_paints [OF ok]) (use body in blast)
  moreover have "(\<exists>i. 0 \<le> i \<and> i < w \<and> (u = x + i \<and> v = py)) \<longleftrightarrow> v = py \<and> x \<le> u \<and> u < x + w" for u v
    by (auto intro: exI [where x = "u - x"])
  ultimately show ?thesis using False by (simp add: fill_row_def deref_def)
qed

lemma fill_rect_paints:
  assumes "fb_ok f" "in_i32 x" "in_i32 y" "in_i32 (x + w)" "in_i32 (y + h)"
  shows "\<exists>g. kgfx_draw_rect (Ptr f) x y w h c True = Some (Ptr g)
    \<and> paints f (\<lambda>u v. x \<le> u \<and> u < x + w \<and> y \<le> v \<and> v < y + h) c g"
proof (cases "w \<le> 0 \<or> h \<le> 0")
  case True
  then have "paints f (\<lambda>u v. x \<le> u \<and> u < x + w \<and> y \<le> v \<and> v < y + h) c f"
    by (intro paints_none assms(1)) auto
  then show ?thesis using True by (auto simp: kgfx_draw_rect_def)
next
  case False
  have "\<exists>g. for_range y (y + h) (fill_row x w c) (Ptr f) = Some (Ptr g)
      \<and> paints f (\<lambda>u v. \<exists>i. y \<le> i \<and> i < y + h \<and> (v = i \<and> x \<le> u \<and> u < x + w)) c g"
    using assms(2-5) False
    by (intro for_range_paints [OF assms(1)] allI impI, elim conjE, intro fill_row_paints)
      (simp_all add: in_i32_def)
  moreover have "(\<exists>i. y \<le> i \<and> i < y + h \<and> (v = i \<and> x \<le> u \<and> u < x + w))
      \<longleftrightarrow> x \<le> u \<and> u < x + w \<and> y \<le> v \<and> v < y + h" for u v
    by auto
  ultimately show ?thesis using False assms by (simp add: kgfx_draw_rect_def)
qed

lemma square_bound: "\<bar>a\<bar> \<le> m \<Longrightarrow> a * a \<le> m * m" for a m :: int
  using mult_mono [of "\<bar>a\<bar>" m "\<bar>a\<bar>" m] by simp

lemma in_i32_nonneg: "0 \<le> a \<Longrightarrow> a < 2147483648 \<Longrightarrow> in_i32 a"
  by (simp add: in_i32_def)

lemma small_square: "\<bar>a\<bar> \<le> 32767 \<Longrightarrow> a * a \<le> 1073676289" for a :: int
  using square_bound [of a 32767] by simp

lemma filled_circle_paints:
  assumes ok: "fb_ok f" and r: "0 \<le> r" "r \<le> 2 ^ 15 - 1" and c: "\<bar>cx\<bar> \<le> 2 ^ 30" "\<bar>cy\<bar> \<le> 2 ^ 30"
  shows "\<exists>g. kgfx_draw_filled_circle (Ptr f) cx cy r c = Some (Ptr g)
    \<and> paints f (\<lambda>u v. (u - cx) * (u - cx) + (v - cy) * (v - cy) \<le> r * r) c g"
proof -
  let ?px = "\<lambda>y x fb. do {
       xx \<leftarrow> ck32 (x * x);
       yy \<leftarrow> ck32 (y * y);
       l \<leftarrow> ck32 (xx + yy);
       rr \<leftarrow> ck32 (r * r);
       if l \<le> rr then plot (cx + x) (cy + y) c fb else Some fb}"
  have px: "\<exists>h. ?px y x (Ptr g) = Some (Ptr h)
      \<and> paints g (\<lambda>u v. x * x + y * y \<le> r * r \<and> (u = cx + x \<and> v = cy + y)) c h"
    if "- r \<le> x" "x \<le> r" "- r \<le> y" "y \<le> r" "fb_ok g" for x y g
  proof -
    have "x * x \<le> 1073676289" "y * y \<le> 1073676289" "r * r \<le> 1073676289"
      by (rule small_square, use that r in simp)+
    moreover have "0 \<le> x * x" "0 \<le> y * y" "0 \<le> r * r" by simp_all
    ultimately have "in_i32 (x * x)" "in_i32 (y * y)" "in_i32 (x * x + y * y)" "in_i32 (r * r)"
      by - (rule in_i32_nonneg, linarith, linarith)+
    moreover have "in_i32 (cx + x)" "in_i32 (cy + y)" using that r c by (auto simp: in_i32_def)
    ultimately show ?thesis using that(5) by (simp add: paints_if plot_paints)
  qed
  have row: "\<exists>h. for_upto (- r) r (?px y) (Ptr g) = Some (Ptr h)
      \<and> paints g (\<lambda>u v. \<exists>x. - r \<le> x \<and> x \<le> r \<and> x * x + y * y \<le> r * r \<and> (u = cx + x \<and> v = cy + y)) c h"
    if "- r \<le> y" "y \<le> r" "fb_ok g" for y g
    by (rule for_upto_paints) (use that px r in \<open>auto simp: in_i32_def\<close>)
  have "\<exists>g. for_upto (- r) r (\<lambda>y. for_upto (- r) r (?px y)) (Ptr f) = Some (Ptr g)
      \<and> paints f (\<lambda>u v. \<exists>y. - r \<le> y \<and> y \<le> r \<and>
          (\<exists>x. - r \<le> x \<and> x \<le> r \<and> x * x + y * y \<le> r * r \<and> (u = cx + x \<and> v = cy + y))) c g"
    by (rule for_upto_paints) (use ok row r in \<open>auto simp: in_i32_def\<close>)
  then obtain g where g: "for_upto (- r) r (\<lambda>y. for_upto (- r) r (?px y)) (Ptr f) = Some (Ptr g)"
    "paints f (\<lambda>u v. \<exists>y. - r \<le> y \<and> y \<le> r \<and>
          (\<exists>x. - r \<le> x \<and> x \<le> r \<and> x * x + y * y \<le> r * r \<and> (u = cx + x \<and> v = cy + y))) c g"
    by blast
  have abs: "\<bar>a\<bar> \<le> r" if "a * a + b * b \<le> r * r" for a b
  proof (rule ccontr)
    assume "\<not> \<bar>a\<bar> \<le> r"
    then have "r * r < \<bar>a\<bar> * \<bar>a\<bar>" using r(1) by (intro mult_strict_mono') auto
    moreover have "0 \<le> b * b" by simp
    ultimately show False using that by simp
  qed
  have "paints f (\<lambda>u v. (u - cx) * (u - cx) + (v - cy) * (v - cy) \<le> r * r) c g"
  proof (rule paints_cong [OF g(2)])
    fix u v
    show "(\<exists>y. - r \<le> y \<and> y \<le> r \<and>
          (\<exists>x. - r \<le> x \<and> x \<le> r \<and> x * x + y * y \<le> r * r \<and> (u = cx + x \<and> v = cy + y)))
        = ((u - cx) * (u - cx) + (v - cy) * (v - cy) \<le> r * r)" (is "?l = ?r")
    proof
      assume ?r
      then have "\<bar>u - cx\<bar> \<le> r" "\<bar>v - cy\<bar> \<le> r" using abs by (blast, metis abs add.commute)
      then show ?l using \<open>?r\<close> by (intro exI [where x = "v - cy"] conjI exI [where x = "u - cx"]) auto
    qed auto
  qed
  moreover have "kgfx_draw_filled_circle (Ptr f) cx cy r c = Some (Ptr g)"
    using g(1) r by (simp add: kgfx_draw_filled_circle_def in_i32_def)
  ultimately show ?thesis by blast
qed

section \<open>Lines\<close>

text \<open>
  The loop seen from its end: \<open>a\<close> and \<open>b\<close> steps are left in the two directions, and the error term is a
  function of them.  A direction with no steps left is never taken, and one of the two always is.
\<close>

definition line_err :: "int \<Rightarrow> int \<Rightarrow> int \<Rightarrow> int \<Rightarrow> int" where
  "line_err dx n a b = dx * (1 - b) + n * (a - 1)"

lemma line_err_step:
  "line_err dx n (a - 1) b = line_err dx n a b - n"
  "line_err dx n a (b - 1) = line_err dx n a b + dx"
  by (simp_all add: line_err_def algebra_simps)

lemma line_err_choice:
  assumes "0 \<le> a" "a \<le> dx" "0 \<le> b" "b \<le> n" "0 < a + b" and e: "e = line_err dx n a b"
  shows "2 * e \<ge> - n \<Longrightarrow> 0 < a" "2 * e \<le> dx \<Longrightarrow> 0 < b" "2 * e \<ge> - n \<or> 2 * e \<le> dx"
proof -
  show "0 < a" if "2 * e \<ge> - n"
  proof (rule ccontr)
    assume "\<not> 0 < a"
    then have "a = 0" "0 < b" using assms by auto
    moreover from this have "dx * (1 - b) \<le> 0" using assms by (intro mult_nonneg_nonpos) auto
    ultimately have "e \<le> - n" "0 < n" using e assms by (auto simp: line_err_def)
    then show False using that by linarith
  qed
  show "0 < b" if "2 * e \<le> dx"
  proof (rule ccontr)
    assume "\<not> 0 < b"
    then have "b = 0" "0 < a" using assms by auto
    moreover from this have "0 \<le> n * (a - 1)" using assms by (intro mult_nonneg_nonneg) auto
    ultimately have "dx \<le> e" "0 < dx" using e assms by (auto simp: line_err_def)
    then show False using that by linarith
  qed
  show "2 * e \<ge> - n \<or> 2 * e \<le> dx" using assms by linarith
qed

text \<open>The points between two corners.\<close>

definition in_box :: "int \<Rightarrow> int \<Rightarrow> int \<Rightarrow> int \<Rightarrow> int \<Rightarrow> int \<Rightarrow> bool" where
  "in_box x0 y0 x1 y1 u v \<longleftrightarrow> min x0 x1 \<le> u \<and> u \<le> max x0 x1 \<and> min y0 y1 \<le> v \<and> v \<le> max y0 y1"

lemma span_shrinks:
  fixes x1 :: int
  assumes "sx = 1 \<or> sx = - 1" "0 \<le> a'" "a' \<le> a"
    "min (x1 - sx * a') x1 \<le> u" "u \<le> max (x1 - sx * a') x1"
  shows "min (x1 - sx * a) x1 \<le> u \<and> u \<le> max (x1 - sx * a) x1"
  using assms by (elim disjE) auto

lemma line_loop_step:
  fixes x y e dx dy sx sy :: int
  defines "X \<equiv> 2 * e \<ge> dy" and "Y \<equiv> 2 * e \<le> dx"
  assumes px: "kgfx_draw_pixel fb x y c = Some fb'" and ne: "\<not> (x = x1 \<and> y = y1)"
    and "in_i32 (2 * e)"
    and "in_i32 (e + (if X then dy else 0))" "in_i32 (e + (if X then dy else 0) + (if Y then dx else 0))"
    and "in_i32 (x + (if X then sx else 0))" "in_i32 (y + (if Y then sy else 0))"
  shows "line_loop fb x y x1 y1 c dx sx dy sy e
    = line_loop fb' (x + (if X then sx else 0)) (y + (if Y then sy else 0)) x1 y1 c dx sx dy sy
        (e + (if X then dy else 0) + (if Y then dx else 0))"
  unfolding line_loop.simps [of fb x y] px bind.bind_lunit if_not_P [OF ne]
  using assms(5-) by (cases X; cases Y) (simp_all add: X_def [symmetric] Y_def [symmetric])

lemma line_loop_paints:
  assumes "fb_ok f" "0 \<le> a" "a \<le> dx" "0 \<le> b" "b \<le> n" "dx \<le> 2 ^ 28" "n \<le> 2 ^ 28"
    and s: "sx = 1 \<or> sx = - 1" "sy = 1 \<or> sy = - 1" "\<bar>x1\<bar> \<le> 2 ^ 28" "\<bar>y1\<bar> \<le> 2 ^ 28"
    and e: "e = line_err dx n a b" "- 2 * n \<le> e" "e \<le> 2 * dx"
  shows "\<exists>g P. line_loop (Ptr f) (x1 - sx * a) (y1 - sy * b) x1 y1 c dx sx (- n) sy e = Some (Ptr g)
    \<and> paints f P c g \<and> P (x1 - sx * a) (y1 - sy * b) \<and> P x1 y1
    \<and> (\<forall>u v. P u v \<longrightarrow> in_box (x1 - sx * a) (y1 - sy * b) x1 y1 u v)"
  using assms(1-5) e
proof (induction "nat (a + b)" arbitrary: f a b e rule: less_induct)
  case less
  let ?x = "x1 - sx * a" and ?y = "y1 - sy * b"
  have xy: "in_i32 ?x" "in_i32 ?y" using s less.prems assms(6,7) by (auto simp: in_i32_def)
  obtain g where g: "kgfx_draw_pixel (Ptr f) ?x ?y c = Some (Ptr g)"
    "paints f (\<lambda>u v. u = ?x \<and> v = ?y) c g"
    using draw_pixel_paints [OF less.prems(1) xy] by blast
  show ?case
  proof (cases "a = 0 \<and> b = 0")
    case True
    then show ?thesis
      using g by (intro exI [where x = g] exI [where x = "\<lambda>u v. u = ?x \<and> v = ?y"])
        (simp add: line_loop.simps in_box_def)
  next
    case False
    then have pos: "0 < a + b" using less.prems by linarith
    note choice = line_err_choice [OF less.prems(2-5) pos less.prems(6)]
    let ?X = "2 * e \<ge> - n" and ?Y = "2 * e \<le> dx"
    let ?a = "if ?X then a - 1 else a" and ?b = "if ?Y then b - 1 else b"
    let ?e1 = "e + (if ?X then - n else 0)" and ?e2 = "e + (if ?X then - n else 0) + (if ?Y then dx else 0)"
    have e2: "?e2 = line_err dx n ?a ?b"
      using less.prems(6) by (simp add: line_err_step)
    have bounds: "- 2 * n \<le> ?e2" "?e2 \<le> 2 * dx" "in_i32 (2 * e)" "in_i32 ?e1" "in_i32 ?e2"
      using less.prems assms(6,7) by (auto simp: in_i32_def)
    have pt: "?x + (if ?X then sx else 0) = x1 - sx * ?a" "?y + (if ?Y then sy else 0) = y1 - sy * ?b"
      by (simp_all add: algebra_simps)
    have pti: "in_i32 (x1 - sx * ?a)" "in_i32 (y1 - sy * ?b)"
      using s less.prems assms(6,7) choice by (auto simp: in_i32_def)
    have "\<exists>h P. line_loop (Ptr g) (x1 - sx * ?a) (y1 - sy * ?b) x1 y1 c dx sx (- n) sy ?e2 = Some (Ptr h)
        \<and> paints g P c h \<and> P (x1 - sx * ?a) (y1 - sy * ?b) \<and> P x1 y1
        \<and> (\<forall>u v. P u v \<longrightarrow> in_box (x1 - sx * ?a) (y1 - sy * ?b) x1 y1 u v)"
    proof (rule less.hyps [OF _ paints_ok [OF g(2) less.prems(1)]])
      show "nat (?a + ?b) < nat (a + b)" using choice pos by auto
    qed (use less.prems choice e2 bounds in auto)
    then obtain h P where h: "line_loop (Ptr g) (x1 - sx * ?a) (y1 - sy * ?b) x1 y1 c dx sx (- n) sy ?e2
        = Some (Ptr h)" "paints g P c h" "P x1 y1"
      "\<forall>u v. P u v \<longrightarrow> in_box (x1 - sx * ?a) (y1 - sy * ?b) x1 y1 u v" by blast
    have ne: "\<not> (?x = x1 \<and> ?y = y1)" using False s(1,2) by auto
    have step: "line_loop (Ptr f) ?x ?y x1 y1 c dx sx (- n) sy e
        = line_loop (Ptr g) (x1 - sx * ?a) (y1 - sy * ?b) x1 y1 c dx sx (- n) sy ?e2"
      using line_loop_step [OF g(1) ne bounds(3-5), of sx sy] pti unfolding pt .
    have box: "in_box (x1 - sx * ?a) (y1 - sy * ?b) x1 y1 u v \<Longrightarrow> in_box ?x ?y x1 y1 u v" for u v
    proof -
      assume i: "in_box (x1 - sx * ?a) (y1 - sy * ?b) x1 y1 u v"
      have "0 \<le> ?a" "?a \<le> a" "0 \<le> ?b" "?b \<le> b" using less.prems choice by auto
      with i show ?thesis unfolding in_box_def by (blast dest: span_shrinks [OF s(1)] span_shrinks [OF s(2)])
    qed
    let ?Q = "\<lambda>u v. (u = ?x \<and> v = ?y) \<or> P u v"
    have "in_box ?x ?y x1 y1 ?x ?y" by (simp add: in_box_def)
    then have Q: "\<forall>u v. ?Q u v \<longrightarrow> in_box ?x ?y x1 y1 u v" using h(4) box by blast
    have "line_loop (Ptr f) ?x ?y x1 y1 c dx sx (- n) sy e = Some (Ptr h)" unfolding step by (rule h(1))
    moreover have "?Q ?x ?y" "?Q x1 y1" using h(3) by simp_all
    ultimately show ?thesis using paints_trans [OF g(2) h(2)] Q by (intro exI [where x = h] exI [where x = ?Q] conjI)
  qed
qed

section \<open>Flushing dirty rectangles\<close>

lemma for_range_inv:
  assumes "Q lo s" "lo \<le> hi"
    and "\<forall>i s. lo \<le> i \<and> i < hi \<and> Q i s \<longrightarrow> (\<exists>s'. f i s = Some s' \<and> Q (i + 1) s')"
  shows "\<exists>s'. for_range lo hi f s = Some s' \<and> Q hi s'"
  using assms
proof (induction "nat (hi - lo)" arbitrary: lo s)
  case 0
  then have "lo = hi" by simp
  with 0 show ?case by (simp add: for_range.simps)
next
  case (Suc n)
  have lt: "lo < hi" using Suc.hyps(2) by linarith
  obtain t where t: "f lo s = Some t" "Q (lo + 1) t" using Suc.prems lt by auto
  have "\<exists>s'. for_range (lo + 1) hi f t = Some s' \<and> Q hi s'"
    using Suc.hyps(2) Suc.prems lt by (intro Suc.hyps(1) [OF _ t(2)]) auto
  then show ?case using lt t(1) by (simp add: for_range.simps [of lo])
qed

definition db_ok :: "kgfx_double_buffer \<Rightarrow> u32 list \<Rightarrow> u32 list \<Rightarrow> bool" where
  "db_ok d front back \<longleftrightarrow> front_buffer d = Ptr front \<and> back_buffer d = Ptr back
     \<and> length front = length back \<and> uint (db_width d) * uint (db_height d) \<le> int (length front)
     \<and> length front < 2 ^ 29 \<and> uint (db_width d) < 2 ^ 29 \<and> uint (db_height d) < 2 ^ 29"

definition db_cell :: "kgfx_double_buffer \<Rightarrow> int \<Rightarrow> int \<Rightarrow> nat \<Rightarrow> bool" where
  "db_cell d u v i \<longleftrightarrow> 0 \<le> u \<and> u < uint (db_width d) \<and> 0 \<le> v \<and> v < uint (db_height d)
     \<and> int i = v * uint (db_width d) + u"

text \<open>The double buffer \<open>d\<close> with the screen pixels of \<open>S\<close> copied to the front.\<close>

definition flushed :: "kgfx_double_buffer \<Rightarrow> (int \<Rightarrow> int \<Rightarrow> bool) \<Rightarrow> kgfx_double_buffer \<Rightarrow> bool" where
  "flushed d S d' \<longleftrightarrow> (\<exists>front front' back. front_buffer d = Ptr front \<and> back_buffer d = Ptr back
     \<and> d' = d \<lparr>front_buffer := Ptr front'\<rparr> \<and> length front' = length front
     \<and> (\<forall>i < length front. front' ! i =
          (if \<exists>u v. db_cell d u v i \<and> S u v then back ! i else front ! i)))"

lemma db_cell_front [simp]: "db_cell (d \<lparr>front_buffer := b\<rparr>) = db_cell d"
  by (simp add: db_cell_def fun_eq_iff)

lemma flushed_refl: "db_ok d front back \<Longrightarrow> (\<And>u v. \<not> S u v) \<Longrightarrow> flushed d S d"
  unfolding flushed_def db_ok_def by (intro exI [of _ front] exI [of _ "back"]) simp

lemma flushed_cong: "flushed d S e \<Longrightarrow> (\<And>u v. S u v = T u v) \<Longrightarrow> flushed d T e"
  by (simp add: flushed_def)

lemma flushed_ok: "flushed d S e \<Longrightarrow> db_ok d front back \<Longrightarrow> \<exists>front'. db_ok e front' back"
  by (auto simp: flushed_def db_ok_def)

lemma flushed_trans:
  assumes "flushed d S e" "flushed e T f"
  shows "flushed d (\<lambda>u v. S u v \<or> T u v) f"
proof -
  obtain F F1 B where 1: "front_buffer d = Ptr F" "back_buffer d = Ptr B" "e = d \<lparr>front_buffer := Ptr F1\<rparr>"
    "length F1 = length F"
    "\<forall>i < length F. F1 ! i = (if \<exists>u v. db_cell d u v i \<and> S u v then B ! i else F ! i)"
    using assms(1) unfolding flushed_def by blast
  obtain F2 where 2: "f = e \<lparr>front_buffer := Ptr F2\<rparr>" "length F2 = length F1"
    "\<forall>i < length F1. F2 ! i = (if \<exists>u v. db_cell e u v i \<and> T u v then B ! i else F1 ! i)"
    using assms(2) 1(2,3) unfolding flushed_def by auto
  have "F2 ! i = (if \<exists>u v. db_cell d u v i \<and> (S u v \<or> T u v) then B ! i else F ! i)"
    if "i < length F" for i
    using that 1(3-5) 2(3) by auto
  then show ?thesis
    unfolding flushed_def using 1(1-4) 2(1,2)
    by (intro exI [where x = F] exI [where x = F2] exI [where x = B]) simp
qed

text \<open>One row of a rectangle inside the screen.\<close>

lemma copy_row:
  assumes ok: "db_ok d front back" and x: "0 \<le> x" "0 \<le> w" "x + w \<le> uint (db_width d)"
    and y: "0 \<le> y" "y < uint (db_height d)"
    and off: "off = unat (word_of_int y * db_width d + word_of_int x :: u32)"
  shows "\<exists>front'. copy_pixels front off back off (word_of_int w * 4) = Some front'
    \<and> flushed d (\<lambda>u v. v = y \<and> x \<le> u \<and> u < x + w) (d \<lparr>front_buffer := Ptr front'\<rparr>)"
proof -
  let ?W = "uint (db_width d)" and ?k = "nat (y * uint (db_width d) + x)"
  have "?W * (y + 1) \<le> ?W * uint (db_height d)" using y by (intro mult_left_mono) simp_all
  moreover have "?W * (y + 1) = y * ?W + ?W" by (simp add: algebra_simps)
  ultimately have fit: "y * ?W + x + w \<le> int (length front)"
    using ok x unfolding db_ok_def by linarith
  have len: "length front < 536870912" "length back = length front" using ok by (simp_all add: db_ok_def)
  have nn: "0 \<le> y * ?W" using y by simp
  have kw: "?k + nat w \<le> length front" using fit x nn by linarith
  have "(word_of_int y * db_width d + word_of_int x :: u32) = of_nat ?k"
    using nn x by (simp add: of_nat_nat)
  then have "off = unat (of_nat ?k :: u32)" unfolding off by (rule arg_cong)
  moreover have "?k < 2 ^ 32" using kw len by simp
  ultimately have k: "off = ?k" by (simp add: unat_of_nat take_bit_nat_eq_self)
  have "(word_of_int w * 4 :: u32) = of_nat (nat w * 4)" using x by simp
  moreover have "nat w * 4 < 2 ^ 32" using kw len by simp
  ultimately have n: "unat (word_of_int w * 4 :: u32) div 4 = nat w"
    by (simp only: unat_of_nat take_bit_nat_eq_self) simp
  let ?F = "take ?k front @ take (nat w) (drop ?k back) @ drop (?k + nat w) front"
  have copy: "copy_pixels front off back off (word_of_int w * 4) = Some ?F"
    unfolding copy_pixels_def n k using kw len by (simp add: Let_def)
  have lenF: "length ?F = length front" using kw len by simp
  have nth: "?F ! i = (if ?k \<le> i \<and> i < ?k + nat w then back ! i else front ! i)" if "i < length front" for i
    using that kw len by (auto simp: nth_append min_def)
  have "(?k \<le> i \<and> i < ?k + nat w)
      = (\<exists>u v. db_cell d u v i \<and> (v = y \<and> x \<le> u \<and> u < x + w))" for i
  proof
    assume k: "?k \<le> i \<and> i < ?k + nat w"
    have "db_cell d (int i - y * ?W) y i \<and> (y = y \<and> x \<le> int i - y * ?W \<and> int i - y * ?W < x + w)"
      using k nn x y unfolding db_cell_def by linarith
    then show "\<exists>u v. db_cell d u v i \<and> (v = y \<and> x \<le> u \<and> u < x + w)" by blast
  next
    assume "\<exists>u v. db_cell d u v i \<and> (v = y \<and> x \<le> u \<and> u < x + w)"
    then show "?k \<le> i \<and> i < ?k + nat w" using nn x unfolding db_cell_def by auto
  qed
  then have "flushed d (\<lambda>u v. v = y \<and> x \<le> u \<and> u < x + w) (d \<lparr>front_buffer := Ptr ?F\<rparr>)"
    unfolding flushed_def using ok lenF nth
    by (intro exI [where x = front] exI [where x = ?F] exI [where x = "back"]) (simp add: db_ok_def)
  then show ?thesis using copy by blast
qed

definition in_rect :: "kgfx_rect \<Rightarrow> int \<Rightarrow> int \<Rightarrow> bool" where
  "in_rect r u v \<longleftrightarrow> rect_x r \<le> u \<and> u < rect_x r + rect_w r \<and> rect_y r \<le> v \<and> v < rect_y r + rect_h r"

definition rect_fits :: "kgfx_double_buffer \<Rightarrow> kgfx_rect \<Rightarrow> bool" where
  "rect_fits d r \<longleftrightarrow> 0 \<le> rect_x r \<and> 0 \<le> rect_w r \<and> rect_x r + rect_w r \<le> uint (db_width d)
     \<and> 0 \<le> rect_y r \<and> 0 \<le> rect_h r \<and> rect_y r + rect_h r \<le> uint (db_height d)"

lemma word_of_int_le:
  fixes w :: u32
  assumes "0 \<le> a" "a \<le> uint w"
  shows "\<not> word_of_int a > w"
proof -
  have "a < 2 ^ LENGTH(32)" using assms uint_lt2p [of w] by linarith
  then show ?thesis using assms by (simp add: word_less_def uint_word_of_int_in not_less)
qed

lemma clip_rect_fits:
  assumes "db_ok d front back" "rect_fits d r"
  shows "clip_rect d r = Some r"
proof -
  have "in_i32 (rect_x r + rect_w r)" "in_i32 (rect_y r + rect_h r)"
    using assms by (simp_all add: db_ok_def rect_fits_def in_i32_def)
  moreover have "\<not> word_of_int (rect_x r + rect_w r) > db_width d"
    "\<not> word_of_int (rect_y r + rect_h r) > db_height d"
    using assms(2) by (intro word_of_int_le; simp add: rect_fits_def)+
  ultimately show ?thesis using assms(2) by (simp add: clip_rect_def rect_fits_def Let_def del: of_int_add)
qed

lemma flush_rect_copies:
  assumes ok: "db_ok d front back" and fits: "rect_fits d r"
  shows "\<exists>e. flush_rect r d = Some e \<and> flushed d (in_rect r) e"
proof -
  let ?x = "rect_x r" and ?w = "rect_w r" and ?y = "rect_y r" and ?h = "rect_h r"
  let ?Q = "\<lambda>i. flushed d (\<lambda>u v. ?y \<le> v \<and> v < i \<and> ?x \<le> u \<and> u < ?x + ?w)"
  let ?row = "\<lambda>py d. do {
     let offset = unat (word_of_int py * db_width d + word_of_int ?x);
     front \<leftarrow> deref (front_buffer d);
     back \<leftarrow> deref (back_buffer d);
     front' \<leftarrow> copy_pixels front offset back offset (word_of_int ?w * 4);
     Some (d \<lparr>front_buffer := Ptr front'\<rparr>)}"
  have row: "\<exists>e'. ?row i e = Some e' \<and> ?Q (i + 1) e'" if i: "?y \<le> i" "i < ?y + ?h" "?Q i e" for i e
  proof -
    obtain fr where e: "db_ok e fr back" using flushed_ok [OF i(3) ok] by blast
    have dims: "db_width e = db_width d" "db_height e = db_height d" using i(3) by (auto simp: flushed_def)
    obtain fr' where c: "copy_pixels fr (unat (word_of_int i * db_width e + word_of_int ?x :: u32)) back
        (unat (word_of_int i * db_width e + word_of_int ?x :: u32)) (word_of_int ?w * 4) = Some fr'"
      "flushed e (\<lambda>u v. v = i \<and> ?x \<le> u \<and> u < ?x + ?w) (e \<lparr>front_buffer := Ptr fr'\<rparr>)"
      using copy_row [OF e, of ?x ?w i] fits i(1,2) unfolding dims rect_fits_def by auto
    have "?Q (i + 1) (e \<lparr>front_buffer := Ptr fr'\<rparr>)"
      by (rule flushed_cong [OF flushed_trans [OF i(3) c(2)]]) (use i(1) in auto)
    then show ?thesis using e c(1) by (simp add: db_ok_def deref_def Let_def)
  qed
  have "\<exists>e. for_range ?y (?y + ?h) ?row d = Some e \<and> ?Q (?y + ?h) e"
    by (rule for_range_inv) (use row fits in \<open>auto simp: rect_fits_def intro!: flushed_refl [OF ok]\<close>)
  then obtain e where e: "for_range ?y (?y + ?h) ?row d = Some e" "?Q (?y + ?h) e" by blast
  have "in_i32 (?y + ?h)" using ok fits by (simp add: db_ok_def rect_fits_def in_i32_def)
  then have "flush_rect r d = Some e"
    unfolding flush_rect_def clip_rect_fits [OF ok fits] using e(1) by simp
  moreover have "flushed d (in_rect r) e"
    by (rule flushed_cong [OF e(2)]) (auto simp: in_rect_def)
  ultimately show ?thesis by blast
qed

lemma flush_dirty_copies:
  assumes ok: "db_ok d front back" and n: "dirty_count l \<le> length (rects l)"
    and fits: "\<forall>r \<in> set (take (dirty_count l) (rects l)). rect_fits d r"
  shows "\<exists>e. kgfx_flush_dirty (Ptr d) (Ptr l) = Some (Ptr e, Ptr (l \<lparr>dirty_count := 0\<rparr>))
    \<and> flushed d (\<lambda>u v. \<exists>r \<in> set (take (dirty_count l) (rects l)). in_rect r u v) e"
proof -
  let ?Q = "\<lambda>i. flushed d (\<lambda>u v. \<exists>r \<in> set (take (nat i) (rects l)). in_rect r u v)"
  have step: "\<exists>e'. do {r \<leftarrow> rd (rects l) (nat i); flush_rect r e} = Some e' \<and> ?Q (i + 1) e'"
    if i: "0 \<le> i" "i < int (dirty_count l)" "?Q i e" for i e
  proof -
    let ?r = "rects l ! nat i"
    have lt: "nat i < length (rects l)" using i n by linarith
    obtain fr where e: "db_ok e fr back" using flushed_ok [OF i(3) ok] by blast
    have "?r \<in> set (take (dirty_count l) (rects l))" using i lt by (auto simp: in_set_conv_nth)
    then have "rect_fits d ?r" using fits by blast
    then have "rect_fits e ?r" using i(3) by (auto simp: flushed_def rect_fits_def)
    then obtain e' where e': "flush_rect ?r e = Some e'" "flushed e (in_rect ?r) e'"
      using flush_rect_copies [OF e] by blast
    have t: "take (nat (i + 1)) (rects l) = take (nat i) (rects l) @ [?r]"
      using i(1) lt by (simp add: nat_add_distrib take_Suc_conv_app_nth)
    have "?Q (i + 1) e'" unfolding t
      by (rule flushed_cong [OF flushed_trans [OF i(3) e'(2)]]) auto
    then show ?thesis using e'(1) lt by simp
  qed
  have "\<exists>e. for_range 0 (int (dirty_count l)) (\<lambda>i d. do {r \<leftarrow> rd (rects l) (nat i); flush_rect r d}) d
      = Some e \<and> ?Q (int (dirty_count l)) e"
    by (rule for_range_inv) (use step in \<open>auto intro!: flushed_refl [OF ok]\<close>)
  then show ?thesis using ok by (auto simp: kgfx_flush_dirty_def db_ok_def)
qed

section \<open>Properties\<close>

definition small_fb :: kgfx_fb where
  "small_fb = \<lparr>buffer = Ptr (replicate 20 0), width = 4, height = 4, pitch = 5\<rparr>"

lemma small_fb_ok: "fb_ok small_fb"
  by (simp add: fb_ok_def small_fb_def)

text \<open>
  C18: filled rectangles and filled circles, wherever they lie relative to the screen, have a result,
  and it differs from the frame buffer before exactly in the on-screen pixels of the shape, which
  have the colour; nothing outside the visible rows, the row padding included, is written.
\<close>
theorem kgfx_filled_shapes_exact:
  assumes "fb_ok f" "in_i32 x" "in_i32 y" "in_i32 (x + w)" "in_i32 (y + h)"
    and "0 \<le> r" "r \<le> 32767" "\<bar>cx\<bar> \<le> 2 ^ 30" "\<bar>cy\<bar> \<le> 2 ^ 30"
  shows "(\<exists>g. kgfx_draw_rect (Ptr f) x y w h c True = Some (Ptr g)
        \<and> paints f (\<lambda>u v. x \<le> u \<and> u < x + w \<and> y \<le> v \<and> v < y + h) c g)
    \<and> (\<exists>g. kgfx_draw_filled_circle (Ptr f) cx cy r c = Some (Ptr g)
        \<and> paints f (\<lambda>u v. (u - cx)\<^sup>2 + (v - cy)\<^sup>2 \<le> r\<^sup>2) c g)"
proof (rule conjI)
  show "\<exists>g. kgfx_draw_rect (Ptr f) x y w h c True = Some (Ptr g)
      \<and> paints f (\<lambda>u v. x \<le> u \<and> u < x + w \<and> y \<le> v \<and> v < y + h) c g"
    by (rule fill_rect_paints [OF assms(1-5)])
  have "r \<le> 2 ^ 15 - 1" using assms(7) by simp
  then show "\<exists>g. kgfx_draw_filled_circle (Ptr f) cx cy r c = Some (Ptr g)
      \<and> paints f (\<lambda>u v. (u - cx)\<^sup>2 + (v - cy)\<^sup>2 \<le> r\<^sup>2) c g"
    unfolding power2_eq_square using assms by (intro filled_circle_paints)
qed

theorem kgfx_filled_shapes_exact_witness:
  "(\<exists>g. kgfx_draw_rect (Ptr small_fb) (- 1) 2 3 9 7 True = Some (Ptr g)
      \<and> paints small_fb (\<lambda>u v. - 1 \<le> u \<and> u < - 1 + 3 \<and> 2 \<le> v \<and> v < 2 + 9) 7 g)
    \<and> (\<exists>g. kgfx_draw_filled_circle (Ptr small_fb) 1 1 1 7 = Some (Ptr g)
      \<and> paints small_fb (\<lambda>u v. (u - 1)\<^sup>2 + (v - 1)\<^sup>2 \<le> 1\<^sup>2) 7 g)"
  by (rule kgfx_filled_shapes_exact [OF small_fb_ok]) (simp_all add: in_i32_def)

text \<open>
  C19: the line loop ends, without overflow, for all end points within 2^26 of the origin, on or off
  the screen, in every direction; it paints only pixels in the box spanned by the end points, and
  both end points that are on the screen.
\<close>
theorem kgfx_draw_line_terminates:
  assumes "fb_ok f" "\<bar>x0\<bar> \<le> 2 ^ 26" "\<bar>y0\<bar> \<le> 2 ^ 26" "\<bar>x1\<bar> \<le> 2 ^ 26" "\<bar>y1\<bar> \<le> 2 ^ 26"
  shows "\<exists>g P. kgfx_draw_line (Ptr f) x0 y0 x1 y1 c = Some (Ptr g) \<and> paints f P c g
    \<and> P x0 y0 \<and> P x1 y1 \<and> (\<forall>u v. P u v \<longrightarrow> in_box x0 y0 x1 y1 u v)"
proof -
  let ?dx = "\<bar>x1 - x0\<bar>" and ?n = "\<bar>y1 - y0\<bar>"
  let ?sx = "if x0 < x1 then 1 else - 1 :: int" and ?sy = "if y0 < y1 then 1 else - 1 :: int"
  have start: "x1 - ?sx * ?dx = x0" "y1 - ?sy * ?n = y0" by auto
  have err: "?dx - ?n = line_err ?dx ?n ?dx ?n" by (simp add: line_err_def algebra_simps)
  have call: "kgfx_draw_line (Ptr f) x0 y0 x1 y1 c
      = line_loop (Ptr f) x0 y0 x1 y1 c ?dx ?sx (- ?n) ?sy (?dx - ?n)"
  proof -
    have "(if x1 > x0 then ck32 (x1 - x0) else ck32 (x0 - x1)) = Some ?dx"
      "(if y1 > y0 then ck32 (y0 - y1) else ck32 (y1 - y0)) = Some (- ?n)"
      using assms by (auto simp: ck32_def in_i32_def)
    moreover have "ck32 (?dx + - ?n) = Some (?dx - ?n)"
      using assms by (auto simp: ck32_def in_i32_def)
    ultimately show ?thesis unfolding kgfx_draw_line_def Let_def by simp
  qed
  have "\<exists>g P. line_loop (Ptr f) (x1 - ?sx * ?dx) (y1 - ?sy * ?n) x1 y1 c ?dx ?sx (- ?n) ?sy (?dx - ?n)
      = Some (Ptr g) \<and> paints f P c g \<and> P (x1 - ?sx * ?dx) (y1 - ?sy * ?n) \<and> P x1 y1
      \<and> (\<forall>u v. P u v \<longrightarrow> in_box (x1 - ?sx * ?dx) (y1 - ?sy * ?n) x1 y1 u v)"
  proof (rule line_loop_paints)
    show "?dx - ?n = line_err ?dx ?n ?dx ?n" by (rule err)
  qed (use assms in \<open>auto\<close>)
  then show ?thesis unfolding start call .
qed

theorem kgfx_draw_line_terminates_witness:
  "\<exists>g P. kgfx_draw_line (Ptr small_fb) (- 3) 1 9 2 5 = Some (Ptr g) \<and> paints small_fb P 5 g
    \<and> P (- 3) 1 \<and> P 9 2 \<and> (\<forall>u v. P u v \<longrightarrow> in_box (- 3) 1 9 2 u v)"
  by (rule kgfx_draw_line_terminates [OF small_fb_ok]) simp_all

definition small_db :: kgfx_double_buffer where
  "small_db = \<lparr>front_buffer = Ptr (replicate 12 0), back_buffer = Ptr (replicate 12 9),
     db_width = 4, db_height = 3\<rparr>"

lemma small_db_ok: "db_ok small_db (replicate 12 0) (replicate 12 9)"
  by (simp add: db_ok_def small_db_def)

lemma clip_bound: "0 \<le> a \<Longrightarrow> b < 536870912 \<Longrightarrow> - 4294967296 \<le> (a - b) * 4" for a b :: int
  by simp

lemma clip_count: "0 \<le> a \<Longrightarrow> b < 536870912 \<Longrightarrow> 536870912 < nat (a - b + 2 ^ 30)" for a b :: int
  by simp

lemma uint_word_negative:
  assumes "- (2 ^ 32) \<le> k" "k < 0"
  shows "uint (word_of_int k :: u32) = k + 2 ^ 32"
proof -
  have "uint (word_of_int k :: u32) = k mod 2 ^ 32" by (simp add: uint_word_of_int)
  also have "\<dots> = (k + 2 ^ 32) mod 2 ^ 32" by (rule mod_add_self2 [symmetric])
  also have "\<dots> = k + 2 ^ 32" using assms by (intro mod_pos_pos_trivial) simp_all
  finally show ?thesis .
qed

definition dirty_of :: "kgfx_rect \<Rightarrow> kgfx_dirty_list" where
  "dirty_of r = \<lparr>rects = [r], dirty_count = 1\<rparr>"

text \<open>
  flushing a list of rectangles that lie on the screen copies exactly the pixels covered by at
  least one of them from the back to the front buffer, and empties the list.
\<close>
theorem kgfx_flush_dirty_exact:
  assumes "db_ok d front back" "dirty_count l \<le> length (rects l)"
    and "\<forall>r \<in> set (take (dirty_count l) (rects l)). rect_fits d r"
  shows "\<exists>e. kgfx_flush_dirty (Ptr d) (Ptr l) = Some (Ptr e, Ptr (l \<lparr>dirty_count := 0\<rparr>))
    \<and> flushed d (\<lambda>u v. \<exists>r \<in> set (take (dirty_count l) (rects l)). in_rect r u v) e"
  using assms by (rule flush_dirty_copies)

theorem kgfx_flush_dirty_exact_witness:
  "\<exists>e. kgfx_flush_dirty (Ptr small_db) (Ptr (dirty_of \<lparr>rect_x = 1, rect_y = 0, rect_w = 2, rect_h = 3\<rparr>))
      = Some (Ptr e, Ptr ((dirty_of \<lparr>rect_x = 1, rect_y = 0, rect_w = 2, rect_h = 3\<rparr>) \<lparr>dirty_count := 0\<rparr>))
    \<and> flushed small_db (\<lambda>u v. \<exists>r \<in> set (take 1 [\<lparr>rect_x = 1, rect_y = 0, rect_w = 2, rect_h = 3\<rparr>]).
        in_rect r u v) e"
  using kgfx_flush_dirty_exact
    [OF small_db_ok, of "dirty_of \<lparr>rect_x = 1, rect_y = 0, rect_w = 2, rect_h = 3\<rparr>"]
  by (simp add: dirty_of_def rect_fits_def small_db_def)

text \<open>
  a dirty rectangle that starts right of the screen gets a negative width when it is clipped,
  which becomes a byte count of almost 2^32: flushing it copies outside both buffers.
\<close>
theorem kgfx_flush_dirty_offscreen_faults:
  assumes ok: "db_ok d front back" and l: "dirty_count l = 1" "rects l = r # rs"
    and x: "uint (db_width d) < rect_x r" "rect_x r < 2 ^ 29" "0 \<le> rect_w r" "rect_w r < 2 ^ 29"
    and y: "0 \<le> rect_y r" "0 < rect_h r" "rect_y r + rect_h r \<le> uint (db_height d)"
  shows "kgfx_flush_dirty (Ptr d) (Ptr l) = None"
proof -
  let ?W = "uint (db_width d)"
  have W: "0 \<le> ?W" "?W < 2 ^ 29" "length front < 2 ^ 29" "uint (db_height d) < 2 ^ 29"
    using ok by (simp_all add: db_ok_def)
  have s0: "0 \<le> rect_x r + rect_w r" using x(1,3) W(1) by linarith
  have right: "in_i32 (rect_x r + rect_w r)" by (rule in_i32_nonneg [OF s0]) (use x in simp)
  have bottom_ok: "in_i32 (rect_y r + rect_h r)" using y W(4) by (simp add: in_i32_def)
  have "uint (word_of_int (rect_x r + rect_w r) :: u32) = rect_x r + rect_w r"
    by (rule uint_word_of_int_in [OF s0]) (use x in simp)
  then have big: "word_of_int (rect_x r + rect_w r) > db_width d" using x by (simp add: word_less_def)
  have bottom: "\<not> word_of_int (rect_y r + rect_h r) > db_height d"
    using y by (intro word_of_int_le) simp_all
  have nx: "\<not> rect_x r < 0" using x(1) W(1) by linarith
  let ?w = "sint (db_width d - word_of_int (rect_x r))"
  have clip: "clip_rect d r = Some (r \<lparr>rect_w := ?w\<rparr>)"
    using right bottom_ok big bottom y(1) unfolding clip_rect_def by (simp add: nx Let_def del: of_int_add)
  have "(word_of_int ?w :: u32) = word_of_int (?W - rect_x r)" by simp
  then have "(word_of_int ?w * 4 :: u32) = word_of_int ((?W - rect_x r) * 4)" by simp
  moreover have "uint (word_of_int ((?W - rect_x r) * 4) :: u32) = (?W - rect_x r) * 4 + 2 ^ 32"
  proof (rule uint_word_negative)
    have "rect_x r < 536870912" using x(2) by simp
    then have "- 4294967296 \<le> (?W - rect_x r) * 4" by (rule clip_bound [OF W(1)])
    then show "- (2 ^ 32) \<le> (?W - rect_x r) * 4" by simp
    show "(?W - rect_x r) * 4 < 0" using x by simp
  qed
  ultimately have bytes: "unat (word_of_int ?w * 4 :: u32) div 4 = nat (?W - rect_x r + 2 ^ 30)"
    by (simp add: unat_eq_nat_uint nat_div_distrib)
  have fault: "copy_pixels front i back j (word_of_int ?w * 4) = None" for i j
  proof -
    have "rect_x r < 536870912" using x(2) by simp
    note n = clip_count [OF W(1) this]
    have "length front < 536870912" using W(3) by simp
    with n have "\<not> i + nat (?W - rect_x r + 2 ^ 30) \<le> length front" "nat (?W - rect_x r + 2 ^ 30) \<noteq> 0"
      by linarith+
    then show ?thesis unfolding copy_pixels_def bytes Let_def by (simp only: if_False simp_thms)
  qed
  have "flush_rect r d = None"
    using y ok bottom_ok unfolding flush_rect_def clip
    by (subst for_range.simps) (simp add: db_ok_def deref_def fault [simplified] Let_def)
  then show ?thesis
    using ok l by (simp add: kgfx_flush_dirty_def db_ok_def for_range.simps)
qed

theorem kgfx_flush_dirty_offscreen_faults_witness:
  "kgfx_flush_dirty (Ptr small_db) (Ptr (dirty_of \<lparr>rect_x = 6, rect_y = 0, rect_w = 2, rect_h = 1\<rparr>)) = None"
  by (rule kgfx_flush_dirty_offscreen_faults [OF small_db_ok,
        where r = "\<lparr>rect_x = 6, rect_y = 0, rect_w = 2, rect_h = 1\<rparr>" and rs = "[]"])
    (simp_all add: dirty_of_def small_db_def)

end
