(* ===== verification/Kata.thy ===== *)
theory Kata imports Kport begin

unbundle bit_operations_syntax

text \<open>
  The ATA disk driver \<open>freestanding/kata.c\<close>: detection, and reading and writing one sector by
  programmed input and output.  The controller is the bus.  \<open>ata_protocol\<close> collects the PIO commands of
  the ATA standard for a drive that is present and whose commands succeed: it may be busy after
  every command and every sector, for as long as the driver is willing to poll.  Under it a sector
  written is the sector read back.
\<close>

section \<open>Registers\<close>

definition ATA_SECTOR_SIZE :: nat where "ATA_SECTOR_SIZE = 512"
definition ATA_PRIMARY_IO_BASE :: u16 where "ATA_PRIMARY_IO_BASE = 0x1F0"
definition ATA_PRIMARY_CTRL_BASE :: u16 where "ATA_PRIMARY_CTRL_BASE = 0x3F6"

definition ATA_REG_DATA :: u16 where "ATA_REG_DATA = 0x00"
definition ATA_REG_SEC_COUNT :: u16 where "ATA_REG_SEC_COUNT = 0x02"
definition ATA_REG_LBA_LOW :: u16 where "ATA_REG_LBA_LOW = 0x03"
definition ATA_REG_LBA_MID :: u16 where "ATA_REG_LBA_MID = 0x04"
definition ATA_REG_LBA_HIGH :: u16 where "ATA_REG_LBA_HIGH = 0x05"
definition ATA_REG_DRIVE_HEAD :: u16 where "ATA_REG_DRIVE_HEAD = 0x06"
definition ATA_REG_STATUS :: u16 where "ATA_REG_STATUS = 0x07"
definition ATA_REG_COMMAND :: u16 where "ATA_REG_COMMAND = 0x07"

definition ATA_CMD_READ_PIO :: u8 where "ATA_CMD_READ_PIO = 0x20"
definition ATA_CMD_WRITE_PIO :: u8 where "ATA_CMD_WRITE_PIO = 0x30"
definition ATA_CMD_IDENTIFY :: u8 where "ATA_CMD_IDENTIFY = 0xEC"

definition ATA_SR_ERR :: u8 where "ATA_SR_ERR = 0x01"
definition ATA_SR_DRQ :: u8 where "ATA_SR_DRQ = 0x08"
definition ATA_SR_BSY :: u8 where "ATA_SR_BSY = 0x80"

lemmas ata_regs = ATA_PRIMARY_IO_BASE_def ATA_PRIMARY_CTRL_BASE_def ATA_REG_DATA_def
  ATA_REG_SEC_COUNT_def ATA_REG_LBA_LOW_def ATA_REG_LBA_MID_def ATA_REG_LBA_HIGH_def
  ATA_REG_DRIVE_HEAD_def ATA_REG_STATUS_def ATA_REG_COMMAND_def ATA_CMD_READ_PIO_def
  ATA_CMD_WRITE_PIO_def ATA_CMD_IDENTIFY_def ATA_SR_ERR_def ATA_SR_DRQ_def ATA_SR_BSY_def

record kata_drive_info =
  drive_present :: int
  model :: "u8 list"
  serial :: "u8 list"
  total_sectors :: u32
  size_mb :: u32

section \<open>Waiting\<close>

definition kata_wait_400ns :: "'d bus \<Rightarrow> 'd \<Rightarrow> 'd" where
  "kata_wait_400ns io d = (
     let d = snd (inb io ATA_PRIMARY_CTRL_BASE d);
         d = snd (inb io ATA_PRIMARY_CTRL_BASE d);
         d = snd (inb io ATA_PRIMARY_CTRL_BASE d) in
     snd (inb io ATA_PRIMARY_CTRL_BASE d))"

text \<open>The polling loops, with the number of attempts left.\<close>

fun poll_ready :: "'d bus \<Rightarrow> nat \<Rightarrow> 'd \<Rightarrow> int \<times> 'd" where
  "poll_ready io 0 d = (- 1, d)"
| "poll_ready io (Suc timeout) d = (
     let (status, d) = inb io (ATA_PRIMARY_IO_BASE + ATA_REG_STATUS) d in
     if status AND ATA_SR_BSY = 0 then (if status AND ATA_SR_ERR \<noteq> 0 then - 1 else 0, d)
     else poll_ready io timeout d)"

definition kata_wait_ready :: "'d bus \<Rightarrow> 'd \<Rightarrow> int \<times> 'd" where
  "kata_wait_ready io d = poll_ready io 100000 (kata_wait_400ns io d)"

fun poll_drq :: "'d bus \<Rightarrow> nat \<Rightarrow> 'd \<Rightarrow> int \<times> 'd" where
  "poll_drq io 0 d = (- 1, d)"
| "poll_drq io (Suc timeout) d = (
     let (status, d) = inb io (ATA_PRIMARY_IO_BASE + ATA_REG_STATUS) d in
     if status AND ATA_SR_ERR \<noteq> 0 then (- 1, d)
     else if status AND ATA_SR_DRQ \<noteq> 0 \<and> status AND ATA_SR_BSY = 0 then (0, d)
     else poll_drq io timeout d)"

definition kata_wait_drq :: "'d bus \<Rightarrow> 'd \<Rightarrow> int \<times> 'd" where
  "kata_wait_drq io d = poll_drq io 100000 (kata_wait_400ns io d)"

section \<open>Detection\<close>

partial_function (option) wait_not_busy :: "'d bus \<Rightarrow> u8 \<Rightarrow> 'd \<Rightarrow> 'd option" where
  "wait_not_busy io status d =
     (if status AND ATA_SR_BSY \<noteq> 0 then
        (let (status, d) = inb io (ATA_PRIMARY_IO_BASE + ATA_REG_STATUS) d in wait_not_busy io status d)
      else Some d)"

text \<open>The identification strings hold two characters in each word, the first in the high byte.\<close>

definition id_string :: "u16 list \<Rightarrow> nat \<Rightarrow> nat \<Rightarrow> u8 list" where
  "id_string id_buf lo hi =
     concat (map (\<lambda>i. [ucast (drop_bit 8 (id_buf ! i)), ucast (id_buf ! i AND 0xFF)]) [lo..<Suc hi]) @ [0]"

definition kata_init :: "'d bus \<Rightarrow> kata_drive_info \<Rightarrow> 'd \<Rightarrow> (int \<times> kata_drive_info \<times> 'd) option" where
  "kata_init io info d = (
     let info = info \<lparr>drive_present := 0\<rparr>;
         d = outb io (ATA_PRIMARY_IO_BASE + ATA_REG_DRIVE_HEAD) 0xA0 d;
         d = kata_wait_400ns io d;
         d = outbs io [(ATA_PRIMARY_IO_BASE + ATA_REG_SEC_COUNT, 0), (ATA_PRIMARY_IO_BASE + ATA_REG_LBA_LOW, 0),
               (ATA_PRIMARY_IO_BASE + ATA_REG_LBA_MID, 0), (ATA_PRIMARY_IO_BASE + ATA_REG_LBA_HIGH, 0),
               (ATA_PRIMARY_IO_BASE + ATA_REG_COMMAND, ATA_CMD_IDENTIFY)] d;
         d = kata_wait_400ns io d;
         (status, d) = inb io (ATA_PRIMARY_IO_BASE + ATA_REG_STATUS) d in
     if status = 0 then Some (- 1, info, d)
     else do {
       d \<leftarrow> wait_not_busy io status d;
       let (mid, d) = inb io (ATA_PRIMARY_IO_BASE + ATA_REG_LBA_MID) d;
       let (high, d) = inb io (ATA_PRIMARY_IO_BASE + ATA_REG_LBA_HIGH) d;
       if mid \<noteq> 0 \<or> high \<noteq> 0 then Some (- 1, info, d)
       else
         let (r, d) = kata_wait_drq io d in
         if r < 0 then Some (- 1, info, d)
         else
           let (id_buf, d) = insw io (ATA_PRIMARY_IO_BASE + ATA_REG_DATA) 256 d;
               total = push_bit 16 (ucast (id_buf ! 61)) OR ucast (id_buf ! 60) in
           Some (0, \<lparr>drive_present = 1, model = id_string id_buf 27 46, serial = id_string id_buf 10 19,
                    total_sectors = total, size_mb = total div 2048\<rparr>, d)})"

section \<open>Sectors\<close>

text \<open>The task file of a command on sector \<open>lba\<close>.\<close>

definition ata_command :: "u8 \<Rightarrow> u32 \<Rightarrow> (u16 \<times> u8) list" where
  "ata_command cmd lba =
     [(ATA_PRIMARY_IO_BASE + ATA_REG_DRIVE_HEAD, 0xE0 OR ucast (drop_bit 24 lba AND 0x0F)),
      (ATA_PRIMARY_IO_BASE + ATA_REG_SEC_COUNT, 1),
      (ATA_PRIMARY_IO_BASE + ATA_REG_LBA_LOW, ucast lba),
      (ATA_PRIMARY_IO_BASE + ATA_REG_LBA_MID, ucast (drop_bit 8 lba)),
      (ATA_PRIMARY_IO_BASE + ATA_REG_LBA_HIGH, ucast (drop_bit 16 lba)),
      (ATA_PRIMARY_IO_BASE + ATA_REG_COMMAND, cmd)]"

text \<open>A 16-bit transfer moves the low byte first.\<close>

definition bytes_of_words :: "u16 list \<Rightarrow> u8 list" where
  "bytes_of_words ws = concat (map (\<lambda>w. [ucast w, ucast (drop_bit 8 w)]) ws)"

fun words_of_bytes :: "u8 list \<Rightarrow> u16 list" where
  "words_of_bytes (a # b # bs) = (ucast a OR push_bit 8 (ucast b)) # words_of_bytes bs"
| "words_of_bytes bs = []"

text \<open>The buffer is the object its pointer points into, from there on; it must hold a sector.\<close>

definition kata_read_sector :: "'d bus \<Rightarrow> u32 \<Rightarrow> u8 list cptr \<Rightarrow> 'd \<Rightarrow> (int \<times> u8 list cptr \<times> 'd) option" where
  "kata_read_sector io lba buffer d = (case buffer of
     NULL \<Rightarrow> Some (- 1, NULL, d)
   | Ptr buf \<Rightarrow>
       let (r, d) = kata_wait_ready io d in
       if r < 0 then Some (- 1, buffer, d)
       else
         let d = outbs io (ata_command ATA_CMD_READ_PIO lba) d;
             (r, d) = kata_wait_drq io d in
         if r < 0 then Some (- 1, buffer, d)
         else if length buf < ATA_SECTOR_SIZE then None
         else
           let (ws, d) = insw io (ATA_PRIMARY_IO_BASE + ATA_REG_DATA) 256 d in
           Some (0, Ptr (bytes_of_words ws @ drop ATA_SECTOR_SIZE buf), d))"

definition kata_write_sector :: "'d bus \<Rightarrow> u32 \<Rightarrow> u8 list cptr \<Rightarrow> 'd \<Rightarrow> (int \<times> 'd) option" where
  "kata_write_sector io lba buffer d = (case buffer of
     NULL \<Rightarrow> Some (- 1, d)
   | Ptr buf \<Rightarrow>
       let (r, d) = kata_wait_ready io d in
       if r < 0 then Some (- 1, d)
       else
         let d = outbs io (ata_command ATA_CMD_WRITE_PIO lba) d;
             (r, d) = kata_wait_drq io d in
         if r < 0 then Some (- 1, d)
         else if length buf < ATA_SECTOR_SIZE then None
         else
           let d = outsw io (ATA_PRIMARY_IO_BASE + ATA_REG_DATA) (words_of_bytes (take ATA_SECTOR_SIZE buf)) d;
               d = outb io (ATA_PRIMARY_IO_BASE + ATA_REG_COMMAND) 0xE7 d;
               (r, d) = kata_wait_ready io d in
           Some (0, d))"

text \<open>The loop over the sectors \<open>i\<close>, ..., \<open>count - 1\<close>; sector \<open>i\<close> goes to \<open>buffer + i * 512\<close>.\<close>

function read_sectors_loop ::
  "'d bus \<Rightarrow> u32 \<Rightarrow> nat \<Rightarrow> nat \<Rightarrow> u8 list \<Rightarrow> 'd \<Rightarrow> (int \<times> u8 list \<times> 'd) option" where
  "read_sectors_loop io lba count i buf d =
     (if i < count then
        if length buf < i * ATA_SECTOR_SIZE then None
        else do {
          (r, rest, d) \<leftarrow> kata_read_sector io (lba + of_nat i) (Ptr (drop (i * ATA_SECTOR_SIZE) buf)) d;
          let buf = (case rest of Ptr bs \<Rightarrow> take (i * ATA_SECTOR_SIZE) buf @ bs | NULL \<Rightarrow> buf);
          if r < 0 then Some (- 1, buf, d) else read_sectors_loop io lba count (i + 1) buf d}
      else Some (0, buf, d))"
  by pat_completeness auto
termination by (relation "measure (\<lambda>(_, _, count, i, _). count - i)") auto

definition kata_read_sectors :: "'d bus \<Rightarrow> u32 \<Rightarrow> u8 \<Rightarrow> u8 list \<Rightarrow> 'd \<Rightarrow> (int \<times> u8 list \<times> 'd) option" where
  "kata_read_sectors io lba count buf d = read_sectors_loop io lba (unat count) 0 buf d"

section \<open>What the driver relies on\<close>

datatype ata_phase = Idle | Sending "u16 list" | Receiving u32 "u16 list"

text \<open>
  \<open>phase\<close>, \<open>busy\<close> and \<open>content\<close> read the state of the controller: between commands, part of the words of a
  sector still to be read, or some words of a sector received; how many reads of a status register
  find the drive busy at most; and the words of each sector.  While BSY is set the other bits mean nothing.
\<close>

definition ata_status_ok ::
  "'d bus \<Rightarrow> ('d \<Rightarrow> ata_phase) \<Rightarrow> ('d \<Rightarrow> nat) \<Rightarrow> ('d \<Rightarrow> u32 \<Rightarrow> u16 list) \<Rightarrow> bool" where
  "ata_status_ok io phase busy content \<longleftrightarrow>
     (\<forall>d. \<forall>port \<in> {0x1F7, 0x3F6}. let (s, d') = inb io port d in
        phase d' = phase d \<and> content d' = content d
        \<and> (if busy d = 0
           then busy d' = 0 \<and> s AND ATA_SR_BSY = 0 \<and> s AND ATA_SR_ERR = 0 \<and> (s AND ATA_SR_DRQ \<noteq> 0 \<longleftrightarrow> phase d \<noteq> Idle)
           else busy d' < busy d \<and> s AND ATA_SR_BSY \<noteq> 0))"

text \<open>The registers of a 28-bit command: drive and bits 24 to 27, one sector, the three low bytes, the command.\<close>

definition pio_command :: "u8 \<Rightarrow> u8 \<Rightarrow> u8 \<Rightarrow> u8 \<Rightarrow> u8 \<Rightarrow> (u16 \<times> u8) list" where
  "pio_command cmd drive low mid high =
     [(0x1F6, drive), (0x1F2, 1), (0x1F3, low), (0x1F4, mid), (0x1F5, high), (0x1F7, cmd)]"

definition lba28 :: "u8 \<Rightarrow> u8 \<Rightarrow> u8 \<Rightarrow> u8 \<Rightarrow> u32" where
  "lba28 drive low mid high =
     push_bit 24 (ucast (drive AND 0x0F)) OR push_bit 16 (ucast high) OR push_bit 8 (ucast mid) OR ucast low"

text \<open>
  The commands READ SECTORS (0x20), WRITE SECTORS (0x30) and FLUSH CACHE (0xE7).  A command is accepted
  by a drive that is not busy; after it, and after the last word of a sector, the drive is busy for a
  time that the laws leave open, below the driver's limit of 100000 polls.  A command register written
  while the drive is busy is ignored: the flush changes neither phase nor sectors in either case.
\<close>

definition ata_protocol ::
  "'d bus \<Rightarrow> ('d \<Rightarrow> ata_phase) \<Rightarrow> ('d \<Rightarrow> nat) \<Rightarrow> ('d \<Rightarrow> u32 \<Rightarrow> u16 list) \<Rightarrow> bool" where
  "ata_protocol io phase busy content \<longleftrightarrow>
     ata_status_ok io phase busy content
   \<and> (\<forall>d. busy d < 100000)
   \<and> (\<forall>d lba. length (content d lba) = 256)
   \<and> (\<forall>d drive low mid high. phase d = Idle \<and> busy d = 0 \<and> drive AND 0xF0 = 0xE0 \<longrightarrow>
        phase (outbs io (pio_command 0x20 drive low mid high) d) = Sending (content d (lba28 drive low mid high))
        \<and> content (outbs io (pio_command 0x20 drive low mid high) d) = content d)
   \<and> (\<forall>d drive low mid high. phase d = Idle \<and> busy d = 0 \<and> drive AND 0xF0 = 0xE0 \<longrightarrow>
        phase (outbs io (pio_command 0x30 drive low mid high) d) = Receiving (lba28 drive low mid high) []
        \<and> content (outbs io (pio_command 0x30 drive low mid high) d) = content d)
   \<and> (\<forall>d w ws. phase d = Sending (w # ws) \<and> busy d = 0 \<longrightarrow>
        fst (inw io 0x1F0 d) = w \<and> content (snd (inw io 0x1F0 d)) = content d
        \<and> phase (snd (inw io 0x1F0 d)) = (if ws = [] then Idle else Sending ws)
        \<and> (ws \<noteq> [] \<longrightarrow> busy (snd (inw io 0x1F0 d)) = 0))
   \<and> (\<forall>d lba ws w. phase d = Receiving lba ws \<and> busy d = 0 \<and> length ws < 255 \<longrightarrow>
        phase (outw io 0x1F0 w d) = Receiving lba (ws @ [w]) \<and> content (outw io 0x1F0 w d) = content d
        \<and> busy (outw io 0x1F0 w d) = 0)
   \<and> (\<forall>d lba ws w. phase d = Receiving lba ws \<and> busy d = 0 \<and> length ws = 255 \<longrightarrow>
        phase (outw io 0x1F0 w d) = Idle \<and> content (outw io 0x1F0 w d) = (content d)(lba := ws @ [w]))
   \<and> (\<forall>d. phase d = Idle \<longrightarrow>
        phase (outb io 0x1F7 0xE7 d) = Idle \<and> content (outb io 0x1F7 0xE7 d) = content d)"

text \<open>
  \<open>kata_wait_drq\<close> looks at ERR before it looks at BSY, where the standard gives ERR no meaning.  What it relies
  on is that the drive clears ERR when it accepts a command and leaves it clear while it works.
\<close>

definition err_clear_while_busy :: "'d bus \<Rightarrow> ('d \<Rightarrow> nat) \<Rightarrow> bool" where
  "err_clear_while_busy io busy \<longleftrightarrow> (\<forall>d. busy d > 0 \<longrightarrow> fst (inb io 0x1F7 d) AND ATA_SR_ERR = 0)"

definition ata_drive ::
  "'d bus \<Rightarrow> ('d \<Rightarrow> ata_phase) \<Rightarrow> ('d \<Rightarrow> nat) \<Rightarrow> ('d \<Rightarrow> u32 \<Rightarrow> u16 list) \<Rightarrow> bool" where
  "ata_drive io phase busy content \<longleftrightarrow> ata_protocol io phase busy content \<and> err_clear_while_busy io busy"

section \<open>Reading and writing under the protocol\<close>

lemma lba_registers:
  fixes lba :: u32
  assumes "lba < 2 ^ 28"
  shows "push_bit 24 (ucast ((0xE0 OR ucast (drop_bit 24 lba AND 0x0F) :: u8) AND 0x0F))
     OR push_bit 16 (ucast (ucast (drop_bit 16 lba) :: u8))
     OR push_bit 8 (ucast (ucast (drop_bit 8 lba) :: u8)) OR ucast (ucast lba :: u8) = lba" (is "?l = _")
proof -
  have m: "lba = take_bit 28 lba"
  proof -
    have "unat lba < 2 ^ 28" using assms by (simp add: word_less_nat_alt)
    then have "unat lba = unat (take_bit 28 lba)"
      by (simp only: unsigned_take_bit_eq take_bit_nat_eq_self)
    then show ?thesis by (rule unsigned_word_eqI)
  qed
  have n: "(0x0F :: u8) = mask 4" "(0x0F :: u32) = mask 4" by (simp_all add: mask_eq_exp_minus_1)
  have e: "((0xE0 OR a :: u8) AND mask 4) = a AND mask 4" for a
    by (simp add: mask_eq_exp_minus_1 bit.conj_disj_distrib2)
  have h: "bit lba n \<Longrightarrow> \<not> bit lba (16 + (n - 16)) \<Longrightarrow> n - 8 < 8" for n by (cases "n < 16") auto
  show ?thesis
    unfolding n e by (subst (5) m, rule bit_word_eqI) (auto simp: bit_simps dest: h)
qed

lemma command_registers:
  assumes "lba < 2 ^ 28"
  shows "\<exists>drive low mid high. ata_command cmd lba = pio_command cmd drive low mid high
    \<and> drive AND 0xF0 = 0xE0 \<and> lba28 drive low mid high = lba"
proof (intro exI conjI)
  show "ata_command cmd lba = pio_command cmd (0xE0 OR ucast (drop_bit 24 lba AND 0x0F))
      (ucast lba) (ucast (drop_bit 8 lba)) (ucast (drop_bit 16 lba))"
    by (simp add: ata_command_def pio_command_def ata_regs)
  have n: "(0x0F :: u32) = mask 4" by (simp add: mask_eq_exp_minus_1)
  have f: "(0xF0 :: u8) = push_bit 4 (mask 4)" "(0xE0 :: u8) = push_bit 5 (mask 3)"
    by (simp_all add: mask_eq_exp_minus_1 push_bit_eq_mult)
  show "(0xE0 OR ucast (drop_bit 24 lba AND 0x0F) :: u8) AND 0xF0 = 0xE0"
    unfolding n f by (rule bit_word_eqI) (auto simp: bit_simps)
  show "lba28 (0xE0 OR ucast (drop_bit 24 lba AND 0x0F)) (ucast lba) (ucast (drop_bit 8 lba)) (ucast (drop_bit 16 lba)) = lba"
    unfolding lba28_def by (rule lba_registers [OF assms])
qed

lemma status_read:
  assumes "ata_status_ok io phase busy content" "port = 0x1F7 \<or> port = 0x3F6"
  shows "phase (snd (inb io port d)) = phase d" "content (snd (inb io port d)) = content d"
    "busy d = 0 \<Longrightarrow> busy (snd (inb io port d)) = 0 \<and> fst (inb io port d) AND ATA_SR_BSY = 0
       \<and> fst (inb io port d) AND ATA_SR_ERR = 0 \<and> (fst (inb io port d) AND ATA_SR_DRQ \<noteq> 0 \<longleftrightarrow> phase d \<noteq> Idle)"
    "busy d \<noteq> 0 \<Longrightarrow> busy (snd (inb io port d)) < busy d \<and> fst (inb io port d) AND ATA_SR_BSY \<noteq> 0"
proof -
  have law: "phase (snd (inb io port d)) = phase d \<and> content (snd (inb io port d)) = content d
      \<and> (if busy d = 0
         then busy (snd (inb io port d)) = 0 \<and> fst (inb io port d) AND ATA_SR_BSY = 0
           \<and> fst (inb io port d) AND ATA_SR_ERR = 0 \<and> (fst (inb io port d) AND ATA_SR_DRQ \<noteq> 0 \<longleftrightarrow> phase d \<noteq> Idle)
         else busy (snd (inb io port d)) < busy d \<and> fst (inb io port d) AND ATA_SR_BSY \<noteq> 0)" for d
    using assms unfolding ata_status_ok_def Let_def case_prod_unfold by blast
  show "phase (snd (inb io port d)) = phase d" "content (snd (inb io port d)) = content d"
    "busy d = 0 \<Longrightarrow> busy (snd (inb io port d)) = 0 \<and> fst (inb io port d) AND ATA_SR_BSY = 0
       \<and> fst (inb io port d) AND ATA_SR_ERR = 0 \<and> (fst (inb io port d) AND ATA_SR_DRQ \<noteq> 0 \<longleftrightarrow> phase d \<noteq> Idle)"
    "busy d \<noteq> 0 \<Longrightarrow> busy (snd (inb io port d)) < busy d \<and> fst (inb io port d) AND ATA_SR_BSY \<noteq> 0"
    using law [of d] by presburger+
qed

lemma status_port: "ATA_PRIMARY_IO_BASE + ATA_REG_STATUS = 0x1F7"
  by (simp add: ata_regs)

lemma wait_400ns_keeps:
  assumes "ata_status_ok io phase busy content"
  shows "phase (kata_wait_400ns io d) = phase d" "content (kata_wait_400ns io d) = content d"
  using status_read(1,2) [OF assms] by (simp_all add: kata_wait_400ns_def ata_regs)

text \<open>A loop that polls more often than the drive is busy ends with the drive ready.\<close>

lemma poll_ready_ends:
  assumes "ata_status_ok io phase busy content"
  shows "busy d < n \<Longrightarrow> \<exists>d'. poll_ready io n d = (0, d') \<and> phase d' = phase d \<and> content d' = content d \<and> busy d' = 0"
proof (induction n arbitrary: d)
  case (Suc n)
  have port: "(0x1F7 :: u16) = 0x1F7 \<or> (0x1F7 :: u16) = 0x3F6" by simp
  obtain s e where i: "inb io 0x1F7 d = (s, e)" by (cases "inb io 0x1F7 d")
  note st = status_read [OF assms port, of d, unfolded i fst_conv snd_conv]
  show ?case
  proof (cases "busy d = 0")
    case True
    then show ?thesis using st by (simp add: status_port i)
  next
    case False
    then have "busy e < n" using st(4) Suc.prems by simp
    from Suc.IH [OF this] show ?thesis using False st by (simp add: status_port i)
  qed
qed simp

lemma poll_drq_ends:
  assumes "ata_status_ok io phase busy content" "err_clear_while_busy io busy"
  shows "busy d < n \<Longrightarrow> phase d \<noteq> Idle \<Longrightarrow>
    \<exists>d'. poll_drq io n d = (0, d') \<and> phase d' = phase d \<and> content d' = content d \<and> busy d' = 0"
proof (induction n arbitrary: d)
  case (Suc n)
  have port: "(0x1F7 :: u16) = 0x1F7 \<or> (0x1F7 :: u16) = 0x3F6" by simp
  obtain s e where i: "inb io 0x1F7 d = (s, e)" by (cases "inb io 0x1F7 d")
  note st = status_read [OF assms(1) port, of d, unfolded i fst_conv snd_conv]
  show ?case
  proof (cases "busy d = 0")
    case True
    then show ?thesis using st Suc.prems(2) by (simp add: status_port i)
  next
    case False
    then have "busy e < n" "phase e \<noteq> Idle" using st(1,4) Suc.prems by simp_all
    moreover have "s AND ATA_SR_ERR = 0" using assms(2) False i unfolding err_clear_while_busy_def by (metis fst_conv gr0I)
    ultimately show ?thesis using Suc.IH [of e] False st by (simp add: status_port i)
  qed
qed simp

lemma ata_driveD:
  assumes "ata_drive io phase busy content"
  shows "ata_status_ok io phase busy content" "err_clear_while_busy io busy" "busy d < 100000"
  using assms by (auto simp: ata_drive_def ata_protocol_def)

lemma wait_ready_ok:
  assumes "ata_drive io phase busy content"
  shows "\<exists>d'. kata_wait_ready io d = (0, d') \<and> phase d' = phase d \<and> content d' = content d \<and> busy d' = 0"
  using poll_ready_ends [OF ata_driveD(1,3) [OF assms], of "kata_wait_400ns io d"]
  by (simp add: kata_wait_ready_def wait_400ns_keeps [OF ata_driveD(1) [OF assms]])

lemma wait_drq_ok:
  assumes "ata_drive io phase busy content" "phase d \<noteq> Idle"
  shows "\<exists>d'. kata_wait_drq io d = (0, d') \<and> phase d' = phase d \<and> content d' = content d \<and> busy d' = 0"
  using poll_drq_ends [OF ata_driveD [OF assms(1)], of "kata_wait_400ns io d"] assms(2)
  by (simp add: kata_wait_drq_def wait_400ns_keeps [OF ata_driveD(1) [OF assms(1)]])

lemma ata_protocolD:
  assumes "ata_drive io phase busy content"
  shows "length (content d lba) = 256"
    "phase d = Idle \<Longrightarrow> busy d = 0 \<Longrightarrow> lba < 2 ^ 28 \<Longrightarrow>
       phase (outbs io (ata_command ATA_CMD_READ_PIO lba) d) = Sending (content d lba)
       \<and> content (outbs io (ata_command ATA_CMD_READ_PIO lba) d) = content d"
    "phase d = Idle \<Longrightarrow> busy d = 0 \<Longrightarrow> lba < 2 ^ 28 \<Longrightarrow>
       phase (outbs io (ata_command ATA_CMD_WRITE_PIO lba) d) = Receiving lba []
       \<and> content (outbs io (ata_command ATA_CMD_WRITE_PIO lba) d) = content d"
    "phase d = Sending (w # ws) \<Longrightarrow> busy d = 0 \<Longrightarrow> fst (inw io 0x1F0 d) = w \<and> content (snd (inw io 0x1F0 d)) = content d
       \<and> phase (snd (inw io 0x1F0 d)) = (if ws = [] then Idle else Sending ws)
       \<and> (ws \<noteq> [] \<longrightarrow> busy (snd (inw io 0x1F0 d)) = 0)"
    "phase d = Receiving lba ws \<Longrightarrow> busy d = 0 \<Longrightarrow> length ws < 255 \<Longrightarrow>
       phase (outw io 0x1F0 w d) = Receiving lba (ws @ [w]) \<and> content (outw io 0x1F0 w d) = content d
       \<and> busy (outw io 0x1F0 w d) = 0"
    "phase d = Receiving lba ws \<Longrightarrow> busy d = 0 \<Longrightarrow> length ws = 255 \<Longrightarrow>
       phase (outw io 0x1F0 w d) = Idle \<and> content (outw io 0x1F0 w d) = (content d)(lba := ws @ [w])"
    "phase d = Idle \<Longrightarrow> phase (outb io 0x1F7 0xE7 d) = Idle \<and> content (outb io 0x1F7 0xE7 d) = content d"
proof -
  note law = conjunct1 [OF assms [unfolded ata_drive_def], unfolded ata_protocol_def]
  show "length (content d lba) = 256" using law by (elim conjE) blast
  show "phase (outbs io (ata_command ATA_CMD_READ_PIO lba) d) = Sending (content d lba)
       \<and> content (outbs io (ata_command ATA_CMD_READ_PIO lba) d) = content d"
    if "phase d = Idle" "busy d = 0" "lba < 2 ^ 28"
    using command_registers [OF that(3), where cmd = "0x20"] law that(1,2) unfolding ATA_CMD_READ_PIO_def by metis
  show "phase (outbs io (ata_command ATA_CMD_WRITE_PIO lba) d) = Receiving lba []
       \<and> content (outbs io (ata_command ATA_CMD_WRITE_PIO lba) d) = content d"
    if "phase d = Idle" "busy d = 0" "lba < 2 ^ 28"
    using command_registers [OF that(3), where cmd = "0x30"] law that(1,2) unfolding ATA_CMD_WRITE_PIO_def by metis
  show "phase d = Sending (w # ws) \<Longrightarrow> busy d = 0 \<Longrightarrow> fst (inw io 0x1F0 d) = w \<and> content (snd (inw io 0x1F0 d)) = content d
       \<and> phase (snd (inw io 0x1F0 d)) = (if ws = [] then Idle else Sending ws)
       \<and> (ws \<noteq> [] \<longrightarrow> busy (snd (inw io 0x1F0 d)) = 0)"
    "phase d = Receiving lba ws \<Longrightarrow> busy d = 0 \<Longrightarrow> length ws < 255 \<Longrightarrow>
       phase (outw io 0x1F0 w d) = Receiving lba (ws @ [w]) \<and> content (outw io 0x1F0 w d) = content d
       \<and> busy (outw io 0x1F0 w d) = 0"
    "phase d = Receiving lba ws \<Longrightarrow> busy d = 0 \<Longrightarrow> length ws = 255 \<Longrightarrow>
       phase (outw io 0x1F0 w d) = Idle \<and> content (outw io 0x1F0 w d) = (content d)(lba := ws @ [w])"
    "phase d = Idle \<Longrightarrow> phase (outb io 0x1F7 0xE7 d) = Idle \<and> content (outb io 0x1F7 0xE7 d) = content d"
    using law by blast+
qed

lemma insw_sends:
  assumes "ata_drive io phase busy content" "phase d = Sending ws" "busy d = 0" "ws \<noteq> []"
  shows "\<exists>d'. insw io 0x1F0 (length ws) d = (ws, d') \<and> phase d' = Idle \<and> content d' = content d"
  using assms(2-)
proof (induction ws arbitrary: d)
  case (Cons w ws)
  obtain w' e where e: "inw io 0x1F0 d = (w', e)" by (cases "inw io 0x1F0 d")
  note s = ata_protocolD(4) [OF assms(1) Cons.prems(1,2), unfolded e fst_conv snd_conv]
  show ?case
  proof (cases "ws = []")
    case True
    then show ?thesis using s e by simp
  next
    case False
    then obtain d' where "insw io 0x1F0 (length ws) e = (ws, d')" "phase d' = Idle" "content d' = content e"
      using Cons.IH [of e] s by auto
    then show ?thesis using s e by simp
  qed
qed simp

lemma outsw_receives:
  assumes "ata_drive io phase busy content" "phase d = Receiving lba ws" "busy d = 0" "us \<noteq> []"
    "length ws + length us = 256"
  shows "phase (outsw io 0x1F0 us d) = Idle
    \<and> content (outsw io 0x1F0 us d) = (content d)(lba := ws @ us)"
  using assms(2-)
proof (induction us arbitrary: d ws)
  case (Cons u us)
  show ?case
  proof (cases "us = []")
    case True
    then show ?thesis using ata_protocolD(6) [OF assms(1) Cons.prems(1,2)] Cons.prems by simp
  next
    case False
    then have "length ws < 255" using Cons.prems(4) by (cases us) auto
    note s = ata_protocolD(5) [OF assms(1) Cons.prems(1,2) this, of u]
    show ?thesis using Cons.IH [of "outw io 0x1F0 u d" "ws @ [u]"] s False Cons.prems(4) by simp
  qed
qed simp

lemma length_bytes_of_words [simp]: "length (bytes_of_words ws) = 2 * length ws"
  by (induction ws) (simp_all add: bytes_of_words_def)

lemma length_words_of_bytes: "length (words_of_bytes bs) = length bs div 2"
  by (induction bs rule: words_of_bytes.induct) simp_all

lemma split_word:
  "ucast (ucast a OR push_bit 8 (ucast b) :: u16) = a"
  "ucast (drop_bit 8 (ucast a OR push_bit 8 (ucast b) :: u16)) = b"
  for a b :: u8
proof -
  show "ucast (ucast a OR push_bit 8 (ucast b) :: u16) = a"
    by (rule bit_word_eqI) (auto simp: bit_simps)
  have "\<not> bit a (8 + n)" for n using bit_imp_le_length [of a "8 + n"] by auto
  then show "ucast (drop_bit 8 (ucast a OR push_bit 8 (ucast b) :: u16)) = b"
    by (intro bit_word_eqI) (auto simp: bit_simps)
qed

lemma bytes_words_bytes: "even (length bs) \<Longrightarrow> bytes_of_words (words_of_bytes bs) = bs"
proof (induction bs rule: words_of_bytes.induct)
  case (1 a b bs)
  then show ?case by (simp only: bytes_of_words_def words_of_bytes.simps list.map concat.simps split_word) simp
qed (simp_all add: bytes_of_words_def)

lemma kata_read_ok:
  assumes p: "ata_drive io phase busy content" and i: "phase d = Idle" and l: "lba < 2 ^ 28"
    and b: "length buf \<ge> ATA_SECTOR_SIZE"
  shows "\<exists>d'. kata_read_sector io lba (Ptr buf) d
      = Some (0, Ptr (bytes_of_words (content d lba) @ drop ATA_SECTOR_SIZE buf), d')
    \<and> phase d' = Idle \<and> content d' = content d"
proof -
  obtain d1 where 1: "kata_wait_ready io d = (0, d1)" "phase d1 = Idle" "content d1 = content d" "busy d1 = 0"
    using wait_ready_ok [OF p, of d] i by auto
  let ?d2 = "outbs io (ata_command ATA_CMD_READ_PIO lba) d1"
  have 2: "phase ?d2 = Sending (content d lba)" "content ?d2 = content d"
    using ata_protocolD(2) [OF p 1(2,4) l] 1(3) by simp_all
  obtain d3 where 3: "kata_wait_drq io ?d2 = (0, d3)" "phase d3 = Sending (content d lba)" "content d3 = content d"
    "busy d3 = 0"
    using wait_drq_ok [OF p, of ?d2] 2 by auto
  have len: "length (content d lba) = 256" by (rule ata_protocolD(1) [OF p])
  then have "content d lba \<noteq> []" by auto
  then obtain d4 where "insw io 0x1F0 256 d3 = (content d lba, d4)" "phase d4 = Idle" "content d4 = content d"
    using insw_sends [OF p 3(2,4)] len 3(3) by auto
  then show ?thesis using 1 3 b by (simp add: kata_read_sector_def ata_regs)
qed

lemma kata_write_ok:
  assumes p: "ata_drive io phase busy content" and i: "phase d = Idle" and l: "lba < 2 ^ 28"
    and b: "length buf \<ge> ATA_SECTOR_SIZE"
  shows "\<exists>d'. kata_write_sector io lba (Ptr buf) d = Some (0, d') \<and> phase d' = Idle
    \<and> content d' = (content d)(lba := words_of_bytes (take ATA_SECTOR_SIZE buf))"
proof -
  let ?ws = "words_of_bytes (take ATA_SECTOR_SIZE buf)"
  obtain d1 where 1: "kata_wait_ready io d = (0, d1)" "phase d1 = Idle" "content d1 = content d" "busy d1 = 0"
    using wait_ready_ok [OF p, of d] i by auto
  let ?d2 = "outbs io (ata_command ATA_CMD_WRITE_PIO lba) d1"
  have 2: "phase ?d2 = Receiving lba []" "content ?d2 = content d"
    using ata_protocolD(3) [OF p 1(2,4) l] 1(3) by simp_all
  obtain d3 where 3: "kata_wait_drq io ?d2 = (0, d3)" "phase d3 = Receiving lba []" "content d3 = content d" "busy d3 = 0"
    using wait_drq_ok [OF p, of ?d2] 2 by auto
  have len: "length ?ws = 256" using b by (simp add: length_words_of_bytes ATA_SECTOR_SIZE_def)
  then have "?ws \<noteq> []" by auto
  then have 4: "phase (outsw io 0x1F0 ?ws d3) = Idle"
    "content (outsw io 0x1F0 ?ws d3) = (content d)(lba := ?ws)"
    using outsw_receives [OF p 3(2,4)] len 3(3) by simp_all
  note 5 = ata_protocolD(7) [OF p 4(1)]
  obtain d6 where 6: "kata_wait_ready io (outb io 0x1F7 0xE7 (outsw io 0x1F0 ?ws d3)) = (0, d6)"
    "phase d6 = Idle" "content d6 = (content d)(lba := ?ws)"
    using wait_ready_ok [OF p] 5 4(2) by metis
  then show ?thesis using 1 3 b by (simp add: kata_write_sector_def ata_regs)
qed

text \<open>A set ERR bit makes the driver give up, even when the drive is still busy and the bit means nothing.\<close>

lemma wait_drq_err_while_busy:
  assumes "fst (inb io 0x1F7 d) = 0x81"
  shows "fst (poll_drq io (Suc n) d) = - 1"
  using assms by (cases "inb io 0x1F7 d") (simp add: status_port ATA_SR_ERR_def)

section \<open>Properties\<close>

text \<open>
  C20: on every drive that keeps the ATA protocol, however often its status shows it busy before it is
  ready, a sector written is the sector read back, byte for byte, and every other sector still reads
  as before.  Both of the driver's polling loops end, because they poll longer than the drive is busy.
\<close>
theorem kata_sector_roundtrip:
  assumes p: "ata_drive io phase busy content" and i: "phase d = Idle" and l: "lba < 2 ^ 28"
    and b: "length buf = ATA_SECTOR_SIZE"
  shows "\<exists>d1. kata_write_sector io lba (Ptr buf) d = Some (0, d1)
    \<and> (\<forall>lba' < 2 ^ 28. \<forall>old. length old = ATA_SECTOR_SIZE \<longrightarrow>
         (\<exists>d2. kata_read_sector io lba' (Ptr old) d1
            = Some (0, Ptr (if lba' = lba then buf else bytes_of_words (content d lba')), d2)))"
proof -
  obtain d1 where 1: "kata_write_sector io lba (Ptr buf) d = Some (0, d1)" "phase d1 = Idle"
    "content d1 = (content d)(lba := words_of_bytes buf)"
    using kata_write_ok [OF p i l, of buf] b by auto
  have "\<exists>d2. kata_read_sector io lba' (Ptr old) d1
      = Some (0, Ptr (if lba' = lba then buf else bytes_of_words (content d lba')), d2)"
    if "lba' < 2 ^ 28" "length old = ATA_SECTOR_SIZE" for lba' old
    using kata_read_ok [OF p 1(2) that(1), of old] that(2) b 1(3)
    by (auto simp: bytes_words_bytes ATA_SECTOR_SIZE_def)
  then show ?thesis using 1(1) by blast
qed

text \<open>
  A disk that follows the protocol: its phase, its sectors and the task file registers.  It stays busy for
  nine status reads after every command and after the last word of a sector; while it is busy every
  bit but ERR is set, and it ignores commands.
\<close>

record sample_disk =
  disk_phase :: ata_phase
  disk_busy :: nat
  disk_words :: "u32 \<Rightarrow> u16 list"
  disk_regs :: "u16 \<Rightarrow> u8"

definition disk_wait :: "sample_disk \<Rightarrow> nat" where
  "disk_wait d = min (disk_busy d) 9"

definition disk_lba :: "sample_disk \<Rightarrow> u32" where
  "disk_lba d = push_bit 24 (ucast (disk_regs d 0x1F6 AND 0x0F)) OR push_bit 16 (ucast (disk_regs d 0x1F5))
     OR push_bit 8 (ucast (disk_regs d 0x1F4)) OR ucast (disk_regs d 0x1F3)"

definition disk_content :: "sample_disk \<Rightarrow> u32 \<Rightarrow> u16 list" where
  "disk_content d lba = take 256 (disk_words d lba @ replicate 256 0)"

definition sample_ata :: "sample_disk bus" where
  "sample_ata = \<lparr>
     inb = (\<lambda>port d. if disk_wait d = 0 then (if disk_phase d = Idle then 0x40 else 0x48, d)
       else (0xFE, d \<lparr>disk_busy := disk_wait d - 1\<rparr>)),
     outb = (\<lambda>port v d.
       if disk_wait d \<noteq> 0 then d
       else if port = 0x1F7 then
         (if v = 0x20 then d \<lparr>disk_phase := Sending (disk_content d (disk_lba d)), disk_busy := 9\<rparr>
          else if v = 0x30 then d \<lparr>disk_phase := Receiving (disk_lba d) [], disk_busy := 9\<rparr>
          else if v = 0xE7 then d \<lparr>disk_busy := 9\<rparr> else d)
       else d \<lparr>disk_regs := (disk_regs d)(port := v)\<rparr>),
     inw = (\<lambda>port d. case disk_phase d of
         Sending (w # ws) \<Rightarrow> (w, if ws = [] then d \<lparr>disk_phase := Idle, disk_busy := 9\<rparr> else d \<lparr>disk_phase := Sending ws\<rparr>)
       | _ \<Rightarrow> (0, d)),
     outw = (\<lambda>port w d. case disk_phase d of
         Receiving lba ws \<Rightarrow>
           if length ws < 255 then d \<lparr>disk_phase := Receiving lba (ws @ [w])\<rparr>
           else d \<lparr>disk_phase := Idle, disk_busy := 9, disk_words := (disk_words d)(lba := ws @ [w])\<rparr>
       | _ \<Rightarrow> d)\<rparr>"

lemma disk_wait_update [simp]:
  "disk_wait (d \<lparr>disk_regs := r\<rparr>) = disk_wait d" "disk_wait (d \<lparr>disk_phase := p\<rparr>) = disk_wait d"
  by (simp_all add: disk_wait_def)

lemma sample_status: "ata_status_ok sample_ata disk_phase disk_wait disk_content"
  by (auto simp: ata_status_ok_def sample_ata_def ata_regs disk_wait_def disk_content_def [abs_def] fun_eq_iff)

lemma sample_command:
  assumes "disk_phase d = Idle \<and> disk_wait d = 0 \<and> drive AND 0xF0 = 0xE0"
  shows "outbs sample_ata (pio_command cmd drive low mid high) d = outb sample_ata 0x1F7 cmd
      (d \<lparr>disk_regs := (disk_regs d)(0x1F6 := drive, 0x1F2 := 1, 0x1F3 := low, 0x1F4 := mid, 0x1F5 := high)\<rparr>)"
  using assms by (simp add: pio_command_def sample_ata_def)

lemma sample_ata_drive: "ata_drive sample_ata disk_phase disk_wait disk_content"
  unfolding ata_drive_def ata_protocol_def
proof (intro conjI allI impI sample_status, goal_cases)
  case (3 d drive low mid high)
  show ?case unfolding sample_command [OF 3] using 3 by (simp add: sample_ata_def lba28_def disk_lba_def disk_content_def)
next
  case (4 d drive low mid high)
  show ?case unfolding sample_command [OF 4] using 4 by (simp add: sample_ata_def disk_content_def [abs_def])
next
  case (5 d drive low mid high)
  show ?case unfolding sample_command [OF 5] using 5 by (simp add: sample_ata_def lba28_def disk_lba_def)
next
  case (6 d drive low mid high)
  show ?case unfolding sample_command [OF 6] using 6 by (simp add: sample_ata_def disk_content_def [abs_def])
qed (simp_all add: sample_ata_def disk_wait_def disk_content_def [abs_def] fun_eq_iff err_clear_while_busy_def ata_regs)

definition blank_disk :: sample_disk where
  "blank_disk = \<lparr>disk_phase = Idle, disk_busy = 9, disk_words = (\<lambda>_. []), disk_regs = (\<lambda>_. 0)\<rparr>"

theorem kata_sector_roundtrip_witness:
  "\<exists>d1. kata_write_sector sample_ata 7 (Ptr (replicate 512 42)) blank_disk = Some (0, d1)
    \<and> (\<exists>d2. kata_read_sector sample_ata 7 (Ptr (replicate 512 0)) d1
          = Some (0, Ptr (replicate 512 42), d2))"
proof -
  have "disk_phase blank_disk = Idle" by (simp add: blank_disk_def)
  moreover have "(7 :: u32) < 2 ^ 28" by simp
  moreover have len: "length (replicate 512 (b :: u8)) = ATA_SECTOR_SIZE" for b
    by (simp add: ATA_SECTOR_SIZE_def)
  ultimately obtain d1 where d1: "kata_write_sector sample_ata 7 (Ptr (replicate 512 42)) blank_disk = Some (0, d1)"
    "\<forall>lba' < 2 ^ 28. \<forall>old. length old = ATA_SECTOR_SIZE \<longrightarrow>
       (\<exists>d2. kata_read_sector sample_ata lba' (Ptr old) d1 = Some (0, Ptr (if lba' = 7
          then replicate 512 42 else bytes_of_words (disk_content blank_disk lba')), d2))"
    using kata_sector_roundtrip [OF sample_ata_drive] by blast
  have "\<exists>d2. kata_read_sector sample_ata 7 (Ptr (replicate 512 0)) d1 = Some (0, Ptr (replicate 512 42), d2)"
    using d1(2) [rule_format, of 7, OF _ len [of 0]] by simp
  with d1(1) show ?thesis by blast
qed

end
