(* ===== verification/Kdiskfs.thy ===== *)
theory Kdiskfs imports Kata Kvfs begin

text \<open>
  The persistent file table of \<open>freestanding/kdiskfs.c\<close>: a super block in sector 1, the table of
  entries from sector 2, file data from sector 6 on.  The packed super block (16 bytes) and the
  entries (32 of 80 bytes) are kept as the byte arrays the code copies to and from sectors, with the
  offsets of the packed structures.  Data to be saved lies in the memory of \<open>Kmem\<close>; mounting fills
  the file table of \<open>Kvfs\<close>.

  The lemmas show what a save writes to the disk and what a later mount reads back.
\<close>

section \<open>Layout\<close>

definition KDISKFS_MAGIC :: nat where "KDISKFS_MAGIC = 0x5346534B"
definition KDISKFS_MAX_FILES :: nat where "KDISKFS_MAX_FILES = 32"
definition KDISKFS_SUPER_LBA :: u32 where "KDISKFS_SUPER_LBA = 1"
definition KDISKFS_TABLE_LBA :: u32 where "KDISKFS_TABLE_LBA = 2"
definition KDISKFS_DATA_LBA :: nat where "KDISKFS_DATA_LBA = 6"

lemmas kdiskfs_consts = KDISKFS_MAGIC_def KDISKFS_MAX_FILES_def KDISKFS_SUPER_LBA_def
  KDISKFS_TABLE_LBA_def KDISKFS_DATA_LBA_def ATA_SECTOR_SIZE_def

record kdiskfs =
  super_block :: "u8 list"
  disk_entries :: "u8 list"

text \<open>Little-endian fields of a packed structure.\<close>

definition get8 :: "u8 list \<Rightarrow> nat \<Rightarrow> nat" where
  "get8 b off = unat (b ! off)"

definition get16 :: "u8 list \<Rightarrow> nat \<Rightarrow> nat" where
  "get16 b off = get8 b off + 256 * get8 b (off + 1)"

definition get32 :: "u8 list \<Rightarrow> nat \<Rightarrow> nat" where
  "get32 b off = get16 b off + 65536 * get16 b (off + 2)"

text \<open>The super block's fields, by offset.\<close>

definition SB_MAGIC :: nat where "SB_MAGIC = 0"
definition SB_NUM_FILES :: nat where "SB_NUM_FILES = 4"
definition SB_NEXT_FREE :: nat where "SB_NEXT_FREE = 8"

text \<open>Entry \<open>i\<close> starts at byte \<open>80 * i\<close>: 64 bytes of path, then the fields.\<close>

definition ENTRY_SIZE :: nat where "ENTRY_SIZE = 80"

definition ent_path :: "u8 list \<Rightarrow> nat \<Rightarrow> u8 list" where "ent_path es i = drop (ENTRY_SIZE * i) es"
definition ent_size :: "u8 list \<Rightarrow> nat \<Rightarrow> nat" where "ent_size es i = get32 es (ENTRY_SIZE * i + 64)"
definition ent_start_lba :: "u8 list \<Rightarrow> nat \<Rightarrow> nat" where "ent_start_lba es i = get32 es (ENTRY_SIZE * i + 68)"
definition ent_sector_count :: "u8 list \<Rightarrow> nat \<Rightarrow> nat" where "ent_sector_count es i = get32 es (ENTRY_SIZE * i + 72)"
definition ent_type :: "u8 list \<Rightarrow> nat \<Rightarrow> nat" where "ent_type es i = get8 es (ENTRY_SIZE * i + 76)"
definition ent_used :: "u8 list \<Rightarrow> nat \<Rightarrow> bool" where "ent_used es i \<longleftrightarrow> get8 es (ENTRY_SIZE * i + 77) \<noteq> 0"
definition ent_mode :: "u8 list \<Rightarrow> nat \<Rightarrow> nat" where "ent_mode es i = get16 es (ENTRY_SIZE * i + 78)"

section \<open>Writing the table\<close>

definition table_sector :: "u8 list \<Rightarrow> nat \<Rightarrow> u8 list" where
  "table_sector es i = take ATA_SECTOR_SIZE (drop (i * ATA_SECTOR_SIZE) es)"

definition super_sector :: "u8 list \<Rightarrow> u8 list" where
  "super_sector sb = overlay (replicate ATA_SECTOR_SIZE 0) 0 sb"

fun write_table :: "'d bus \<Rightarrow> u8 list \<Rightarrow> nat list \<Rightarrow> 'd \<Rightarrow> 'd option" where
  "write_table io es [] d = Some d"
| "write_table io es (i # is) d = do {
     (r, d) \<leftarrow> kata_write_sector io (KDISKFS_TABLE_LBA + of_nat i) (Ptr (table_sector es i)) d;
     write_table io es is d}"

definition sync_table_to_disk :: "'d bus \<Rightarrow> kdiskfs \<Rightarrow> 'd \<Rightarrow> 'd option" where
  "sync_table_to_disk io k d = do {
     d \<leftarrow> write_table io (disk_entries k) [0, 1, 2, 3] d;
     (r, d) \<leftarrow> kata_write_sector io KDISKFS_SUPER_LBA (Ptr (super_sector (super_block k))) d;
     Some d}"

definition kdiskfs_format :: "'d bus \<Rightarrow> kata_drive_info \<Rightarrow> kdiskfs \<Rightarrow> 'd \<Rightarrow> (int \<times> kdiskfs \<times> 'd) option" where
  "kdiskfs_format io info k d =
     (if drive_present info = 0 then Some (- 1, k, d)
      else do {
        let sb = le32 KDISKFS_MAGIC @ le32 0 @ le32 KDISKFS_DATA_LBA @ le32 ATA_SECTOR_SIZE;
        let k = k \<lparr>super_block := sb\<rparr>;
        (r, d) \<leftarrow> kata_write_sector io KDISKFS_SUPER_LBA (Ptr (super_sector sb)) d;
        if r < 0 then Some (- 1, k, d)
        else do {
          let es = replicate (KDISKFS_MAX_FILES * ENTRY_SIZE) 0;
          d \<leftarrow> write_table io es [0, 1, 2, 3] d;
          Some (0, k \<lparr>disk_entries := es\<rparr>, d)}})"

section \<open>Mounting\<close>

text \<open>\<open>n\<close> bytes of memory as an array.\<close>

definition load_bytes :: "memory \<Rightarrow> nat \<Rightarrow> nat \<Rightarrow> u8 list" where
  "load_bytes m a n = map (\<lambda>i. m (a + i)) [0..<n]"

fun read_table :: "'d bus \<Rightarrow> nat list \<Rightarrow> u8 list \<Rightarrow> u8 list \<Rightarrow> 'd \<Rightarrow> (u8 list \<times> 'd) option" where
  "read_table io [] buf es d = Some (es, d)"
| "read_table io (i # is) buf es d = do {
     (r, p, d) \<leftarrow> kata_read_sector io (KDISKFS_TABLE_LBA + of_nat i) (Ptr buf) d;
     let buf = (case p of Ptr b \<Rightarrow> b | NULL \<Rightarrow> buf);
     read_table io is buf (overlay es (i * ATA_SECTOR_SIZE) buf) d}"

fun read_data :: "'d bus \<Rightarrow> nat \<Rightarrow> nat list \<Rightarrow> nat \<Rightarrow> memory \<Rightarrow> 'd \<Rightarrow> (memory \<times> 'd) option" where
  "read_data io start [] p m d = Some (m, d)"
| "read_data io start (s # ss) p m d = do {
     let a = w32 (p + w32 (s * ATA_SECTOR_SIZE));
     (r, q, d) \<leftarrow> kata_read_sector io (of_nat (start + s)) (Ptr (load_bytes m a ATA_SECTOR_SIZE)) d;
     let bs = (case q of Ptr b \<Rightarrow> b | NULL \<Rightarrow> load_bytes m a ATA_SECTOR_SIZE);
     read_data io start ss p (store_bytes m a bs) d}"

text \<open>The enumerator a stored type byte stands for; \<open>kdiskfs_save_file\<close> stores only these.\<close>

definition node_type_of :: "nat \<Rightarrow> kvfs_node_type option" where
  "node_type_of t = (if t = 0 then Some KVFS_TYPE_FILE else if t = 1 then Some KVFS_TYPE_DIR
     else if t = 2 then Some KVFS_TYPE_BIN else if t = 3 then Some KVFS_TYPE_DEV else None)"

definition mount_entry ::
  "'d bus \<Rightarrow> nat \<Rightarrow> u8 list \<Rightarrow> nat \<Rightarrow> vfs \<Rightarrow> 'd \<Rightarrow> (vfs \<times> 'd) option" where
  "mount_entry io empty_string es i v d =
     (if \<not> ent_used es i then Some (v, d)
      else do {
        ty \<leftarrow> node_type_of (ent_type es i);
        if ty = KVFS_TYPE_DIR then do {
          (r, v) \<leftarrow> kvfs_mkdir (Ptr (ent_path es i)) v;
          Some (v, d)}
        else if ent_size es i > 0 then do {
          (p, h) \<leftarrow> kmalloc (w32 (ent_sector_count es i * ATA_SECTOR_SIZE + 1)) (heap v);
          if p = 0 then Some (v \<lparr>heap := h\<rparr>, d)
          else do {
            (m, d) \<leftarrow> read_data io (ent_start_lba es i) [0..<ent_sector_count es i] p (mem h) d;
            let m = m(w32 (p + ent_size es i) := 0);
            (r, v) \<leftarrow> kvfs_write (Ptr (ent_path es i)) p (ent_size es i) (v \<lparr>heap := h \<lparr>mem := m\<rparr>\<rparr>);
            Some (v, d)}}
        else do {
          (r, v) \<leftarrow> kvfs_create (Ptr (ent_path es i)) empty_string 0 ty (ent_mode es i) v;
          Some (v, d)}})"

fun mount_entries ::
  "'d bus \<Rightarrow> nat \<Rightarrow> u8 list \<Rightarrow> nat list \<Rightarrow> vfs \<Rightarrow> 'd \<Rightarrow> (vfs \<times> 'd) option" where
  "mount_entries io empty_string es [] v d = Some (v, d)"
| "mount_entries io empty_string es (i # is) v d = do {
     (v, d) \<leftarrow> mount_entry io empty_string es i v d;
     mount_entries io empty_string es is v d}"

text \<open>\<open>empty_string\<close> is the address of the literal handed to \<open>kvfs_create\<close>; \<open>junk\<close> the uninitialised buffer.\<close>

definition kdiskfs_mount ::
  "'d bus \<Rightarrow> kata_drive_info \<Rightarrow> nat \<Rightarrow> u8 list \<Rightarrow> kdiskfs \<Rightarrow> vfs \<Rightarrow> 'd \<Rightarrow>
   (int \<times> kdiskfs \<times> vfs \<times> 'd) option" where
  "kdiskfs_mount io info empty_string junk k v d =
     (if drive_present info = 0 then Some (- 1, k, v, d)
      else do {
        (r, p, d) \<leftarrow> kata_read_sector io KDISKFS_SUPER_LBA (Ptr junk) d;
        if r < 0 then Some (- 1, k, v, d)
        else do {
          let buf = (case p of Ptr b \<Rightarrow> b | NULL \<Rightarrow> junk);
          let k = k \<lparr>super_block := take 16 buf\<rparr>;
          if get32 (super_block k) SB_MAGIC \<noteq> KDISKFS_MAGIC then do {
            (r, k, d) \<leftarrow> kdiskfs_format io info k d;
            Some (r, k, v, d)}
          else do {
            (es, d) \<leftarrow> read_table io [0, 1, 2, 3] buf (disk_entries k) d;
            let k = k \<lparr>disk_entries := es\<rparr>;
            (v, d) \<leftarrow> mount_entries io empty_string es [0..<KDISKFS_MAX_FILES] v d;
            Some (0, k, v, d)}}})"

section \<open>Saving and deleting\<close>

fun find_entry :: "u8 list \<Rightarrow> u8 list cptr \<Rightarrow> nat list \<Rightarrow> nat cptr option" where
  "find_entry es name [] = Some NULL"
| "find_entry es name (i # is) =
     (if ent_used es i then do {
        r \<leftarrow> kstrcmp (Ptr (ent_path es i)) name;
        if r = 0 then Some (Ptr i) else find_entry es name is}
      else find_entry es name is)"

fun find_unused :: "u8 list \<Rightarrow> nat list \<Rightarrow> nat cptr" where
  "find_unused es [] = NULL"
| "find_unused es (i # is) = (if \<not> ent_used es i then Ptr i else find_unused es is)"

text \<open>The bytes written to sector \<open>s\<close> of a file: its part of the data, padded with zeros.\<close>

definition data_sector :: "memory \<Rightarrow> nat \<Rightarrow> nat \<Rightarrow> nat \<Rightarrow> u8 list" where
  "data_sector m src len s = (
     let n = (if len > s * ATA_SECTOR_SIZE then len - s * ATA_SECTOR_SIZE else 0);
         n = (if n > ATA_SECTOR_SIZE then ATA_SECTOR_SIZE else n) in
     if src \<noteq> 0 \<and> n > 0
     then overlay (replicate ATA_SECTOR_SIZE 0) 0 (load_bytes m (src + s * ATA_SECTOR_SIZE) n)
     else replicate ATA_SECTOR_SIZE 0)"

fun write_data :: "'d bus \<Rightarrow> memory \<Rightarrow> nat \<Rightarrow> nat \<Rightarrow> nat \<Rightarrow> nat list \<Rightarrow> 'd \<Rightarrow> 'd option" where
  "write_data io m src len start [] d = Some d"
| "write_data io m src len start (s # ss) d = do {
     (r, d) \<leftarrow> kata_write_sector io (of_nat (start + s)) (Ptr (data_sector m src len s)) d;
     write_data io m src len start ss d}"

definition sectors_for :: "nat \<Rightarrow> nat" where
  "sectors_for len = (let n = w32 (len + ATA_SECTOR_SIZE - 1) div ATA_SECTOR_SIZE in if n = 0 then 1 else n)"

definition kdiskfs_save_file ::
  "'d bus \<Rightarrow> kata_drive_info \<Rightarrow> u8 list cptr \<Rightarrow> nat \<Rightarrow> nat \<Rightarrow> u8 \<Rightarrow> nat \<Rightarrow> memory \<Rightarrow> kdiskfs \<Rightarrow> 'd \<Rightarrow>
   (int \<times> kdiskfs \<times> 'd) option" where
  "kdiskfs_save_file io info name src len ty mode m k d =
     (if drive_present info = 0 then Some (- 1, k, d)
      else do {
        let es = disk_entries k;
        hit \<leftarrow> find_entry es name [0..<KDISKFS_MAX_FILES];
        let entry_idx = (case hit of Ptr i \<Rightarrow> Ptr i | NULL \<Rightarrow> find_unused es [0..<KDISKFS_MAX_FILES]);
        (case entry_idx of
           NULL \<Rightarrow> Some (- 1, k, d)
         | Ptr e \<Rightarrow> do {
             let sectors_needed = sectors_for len;
             let sb = super_block k;
             let start_lba = (if ent_used es e then ent_start_lba es e else get32 sb SB_NEXT_FREE);
             let sb = (if \<not> ent_used es e
                       then overlay (overlay sb SB_NEXT_FREE (le32 (w32 (get32 sb SB_NEXT_FREE + sectors_needed))))
                              SB_NUM_FILES (le32 (w32 (get32 sb SB_NUM_FILES + 1)))
                       else sb);
             d \<leftarrow> write_data io m src len start_lba [0..<sectors_needed] d;
             p \<leftarrow> kstrncpy (Ptr (ent_path es e)) name 63;
             let es = take (ENTRY_SIZE * e) es @ (case p of Ptr b \<Rightarrow> b | NULL \<Rightarrow> ent_path es e);
             let es = overlay es (ENTRY_SIZE * e + 64)
                        (le32 len @ le32 start_lba @ le32 sectors_needed @ [ty, 1] @ le16 mode);
             let k = \<lparr>super_block = sb, disk_entries = es\<rparr>;
             d \<leftarrow> sync_table_to_disk io k d;
             Some (0, k, d)})})"

definition kdiskfs_delete_file :: "'d bus \<Rightarrow> u8 list cptr \<Rightarrow> kdiskfs \<Rightarrow> 'd \<Rightarrow> (int \<times> kdiskfs \<times> 'd) option" where
  "kdiskfs_delete_file io name k d = do {
     hit \<leftarrow> find_entry (disk_entries k) name [0..<KDISKFS_MAX_FILES];
     (case hit of
        NULL \<Rightarrow> Some (- 1, k, d)
      | Ptr i \<Rightarrow> do {
          let es = (disk_entries k)[ENTRY_SIZE * i + 77 := 0];
          let n = get32 (super_block k) SB_NUM_FILES;
          let sb = (if n > 0 then overlay (super_block k) SB_NUM_FILES (le32 (n - 1)) else super_block k);
          let k = \<lparr>super_block = sb, disk_entries = es\<rparr>;
          d \<leftarrow> sync_table_to_disk io k d;
          Some (0, k, d)})}"

section \<open>What reaches the disk\<close>

lemma write_ok:
  assumes "ata_drive io phase busy content" "phase d = Idle" "lba < 2 ^ 28" "length bs = 512"
  shows "\<exists>d'. kata_write_sector io lba (Ptr bs) d = Some (0, d') \<and> phase d' = Idle
    \<and> content d' = (content d)(lba := words_of_bytes bs)"
  using kata_write_ok [OF assms(1-3), of bs] assms(4) by (simp add: ATA_SECTOR_SIZE_def)

lemma read_ok:
  assumes "ata_drive io phase busy content" "phase d = Idle" "lba < 2 ^ 28" "length buf = 512"
  shows "\<exists>d'. kata_read_sector io lba (Ptr buf) d = Some (0, Ptr (bytes_of_words (content d lba)), d')
    \<and> phase d' = Idle \<and> content d' = content d"
  using kata_read_ok [OF assms(1-3), of buf] assms(4) by (simp add: ATA_SECTOR_SIZE_def)

definition table_lba :: "nat \<Rightarrow> u32" where
  "table_lba i = KDISKFS_TABLE_LBA + of_nat i"

lemma unat_table_lba: "i < 4 \<Longrightarrow> unat (table_lba i) = 2 + i"
proof -
  assume "i < 4"
  then have "i = 0 \<or> i = 1 \<or> i = 2 \<or> i = 3" by auto
  then show ?thesis by (elim disjE) (simp_all add: table_lba_def KDISKFS_TABLE_LBA_def)
qed

lemma table_lba: "i < 4 \<Longrightarrow> table_lba i < 2 ^ 28" "i < 4 \<Longrightarrow> table_lba i \<noteq> 1"
  "i < 4 \<Longrightarrow> j < 4 \<Longrightarrow> table_lba i = table_lba j \<longleftrightarrow> i = j"
  subgoal using unat_table_lba [of i] by (simp add: word_less_nat_alt)
  subgoal using unat_table_lba [of i] by auto
  subgoal using unat_table_lba [of i] unat_table_lba [of j] by (metis add_left_cancel)
  done

lemma table_lbas: "table_lba ` {..<4} = {2, 3, 4, 5}"
proof -
  have "{..<4 :: nat} = {0, 1, 2, 3}" by (simp add: lessThan_nat_numeral lessThan_Suc insert_commute eval_nat_numeral)
  then show ?thesis by (simp add: table_lba_def KDISKFS_TABLE_LBA_def)
qed

lemma length_table_sector: "length es = 2560 \<Longrightarrow> i < 4 \<Longrightarrow> length (table_sector es i) = 512"
  by (simp add: table_sector_def ATA_SECTOR_SIZE_def)

lemma write_table_ok:
  assumes p: "ata_drive io phase busy content" and es: "length es = 2560"
    and "phase d = Idle" "\<forall>i \<in> set is. i < 4"
  shows "\<exists>d'. write_table io es is d = Some d' \<and> phase d' = Idle
    \<and> (\<forall>i \<in> set is. content d' (table_lba i) = words_of_bytes (table_sector es i))
    \<and> (\<forall>lba. lba \<notin> table_lba ` set is \<longrightarrow> content d' lba = content d lba)"
  using assms(3,4)
proof (induction "is" arbitrary: d)
  case (Cons i "is")
  have i: "i < 4" using Cons.prems by simp
  obtain d1 where 1: "kata_write_sector io (table_lba i) (Ptr (table_sector es i)) d = Some (0, d1)"
    "phase d1 = Idle" "content d1 = (content d)(table_lba i := words_of_bytes (table_sector es i))"
    using write_ok [OF p Cons.prems(1) table_lba(1) [OF i] length_table_sector [OF es i]] by blast
  obtain d2 where 2: "write_table io es is d1 = Some d2" "phase d2 = Idle"
    "\<forall>i \<in> set is. content d2 (table_lba i) = words_of_bytes (table_sector es i)"
    "\<forall>lba. lba \<notin> table_lba ` set is \<longrightarrow> content d2 lba = content d1 lba"
    using Cons.IH [OF 1(2)] Cons.prems(2) by auto
  have "i \<notin> set is \<Longrightarrow> table_lba i \<notin> table_lba ` set is"
    using Cons.prems(2) by (auto simp: table_lba(3))
  then have "content d2 (table_lba i) = words_of_bytes (table_sector es i)"
    using 1(3) 2(3,4) by (cases "i \<in> set is") simp_all
  moreover have "content d2 lba = content d lba" if "lba \<notin> table_lba ` set (i # is)" for lba
    using that 1(3) 2(4) by simp
  moreover have "write_table io es (i # is) d = Some d2"
    using 1(1) 2(1) by (simp add: table_lba_def)
  ultimately show ?case using 2(2,3) by (intro exI [of _ d2]) simp
qed simp

lemma sync_table_ok:
  assumes p: "ata_drive io phase busy content" and i: "phase d = Idle"
    and len: "length (super_block k) = 16" "length (disk_entries k) = 2560"
  shows "\<exists>d'. sync_table_to_disk io k d = Some d' \<and> phase d' = Idle
    \<and> (\<forall>i < 4. content d' (table_lba i) = words_of_bytes (table_sector (disk_entries k) i))
    \<and> content d' 1 = words_of_bytes (super_sector (super_block k))
    \<and> (\<forall>lba. lba \<notin> {1, 2, 3, 4, 5} \<longrightarrow> content d' lba = content d lba)"
proof -
  have "set [0, 1, 2, 3] = {..<4 :: nat}" by (simp add: lessThan_nat_numeral lessThan_Suc insert_commute eval_nat_numeral)
  then obtain d1 where 1: "write_table io (disk_entries k) [0, 1, 2, 3] d = Some d1" "phase d1 = Idle"
    "\<forall>i < 4. content d1 (table_lba i) = words_of_bytes (table_sector (disk_entries k) i)"
    "\<forall>lba. lba \<notin> table_lba ` {..<4} \<longrightarrow> content d1 lba = content d lba"
    using write_table_ok [OF p len(2) i, of "[0, 1, 2, 3]"] by (metis lessThan_iff)
  have "length (super_sector (super_block k)) = 512"
    using len(1) by (simp add: super_sector_def ATA_SECTOR_SIZE_def)
  then obtain d2 where 2: "kata_write_sector io 1 (Ptr (super_sector (super_block k))) d1 = Some (0, d2)"
    "phase d2 = Idle" "content d2 = (content d1)(1 := words_of_bytes (super_sector (super_block k)))"
    using write_ok [OF p 1(2), of 1] by auto
  have "\<forall>lba. lba \<notin> {1, 2, 3, 4, 5} \<longrightarrow> content d2 lba = content d lba"
    using 1(4) 2(3) unfolding table_lbas by simp
  moreover have "\<forall>i < 4. content d2 (table_lba i) = words_of_bytes (table_sector (disk_entries k) i)"
    using 1(3) 2(3) table_lba(2) by simp
  moreover have "sync_table_to_disk io k d = Some d2"
    using 1(1) 2(1) by (simp add: sync_table_to_disk_def KDISKFS_SUPER_LBA_def)
  ultimately show ?thesis using 2(2,3) by auto
qed

lemma read_table_ok:
  assumes p: "ata_drive io phase busy content" and E: "length E = 2560"
    and "phase d = Idle" "\<forall>i \<in> set is. i < 4" "length buf = 512"
    and "\<forall>i < 4. content d (table_lba i) = words_of_bytes (table_sector E i)"
  shows "\<exists>d'. read_table io is buf es d
      = Some (fold (\<lambda>i es. overlay es (i * 512) (table_sector E i)) is es, d')
    \<and> phase d' = Idle \<and> content d' = content d"
  using assms(3-6)
proof (induction "is" arbitrary: d buf es)
  case (Cons i "is")
  have i: "i < 4" using Cons.prems by simp
  have "even (length (table_sector E i))" using length_table_sector [OF E i] by simp
  then have b: "bytes_of_words (content d (table_lba i)) = table_sector E i"
    using Cons.prems(4) i by (simp add: bytes_words_bytes)
  obtain d1 where 1: "kata_read_sector io (table_lba i) (Ptr buf) d = Some (0, Ptr (table_sector E i), d1)"
    "phase d1 = Idle" "content d1 = content d"
    using read_ok [OF p Cons.prems(1) table_lba(1) [OF i] Cons.prems(3)] unfolding b by blast
  obtain d2 where 2: "read_table io is (table_sector E i) (overlay es (i * 512) (table_sector E i)) d1
      = Some (fold (\<lambda>i es. overlay es (i * 512) (table_sector E i)) is (overlay es (i * 512) (table_sector E i)), d2)"
    "phase d2 = Idle" "content d2 = content d1"
    using Cons.IH [OF 1(2) _ length_table_sector [OF E i], of "overlay es (i * 512) (table_sector E i)"]
      Cons.prems(2,4) 1(3) by auto
  have "read_table io (i # is) buf es d = Some (fold (\<lambda>i es. overlay es (i * 512) (table_sector E i)) (i # is) es, d2)"
    using 1(1) 2(1) by (simp add: table_lba_def ATA_SECTOR_SIZE_def)
  then show ?case using 1(3) 2(2,3) by simp
qed simp

lemma overlay_table:
  assumes "length E = 2560" "length es = 2560"
  shows "fold (\<lambda>i es. overlay es (i * 512) (table_sector E i)) [0, 1, 2, 3] es = take 2048 E @ drop 2048 es"
proof -
  note len = length_table_sector [OF assms(1)]
  let ?s = "table_sector E"
  have "overlay (overlay (overlay (overlay es 0 (?s 0)) 512 (?s 1)) 1024 (?s 2)) 1536 (?s 3)
      = overlay es 0 (?s 0 @ ?s 1 @ ?s 2 @ ?s 3)"
    using overlay_overlay [of 0 "?s 0" es "?s 1"] overlay_overlay [of 0 "?s 0 @ ?s 1" es "?s 2"]
      overlay_overlay [of 0 "?s 0 @ ?s 1 @ ?s 2" es "?s 3"] assms(2) len
    by simp
  moreover have "?s 0 @ ?s 1 @ ?s 2 @ ?s 3 = take 2048 E"
  proof -
    have "take 512 (drop n E) @ take k (drop (n + 512) E) = take (512 + k) (drop n E)" for n k
      using take_add [of 512 k "drop n E"] by (simp only: drop_drop add.commute)
    from this [of 0 1536] this [of 512 1024] this [of 1024 512] show ?thesis
      by (simp add: table_sector_def ATA_SECTOR_SIZE_def)
  qed
  ultimately have "fold (\<lambda>i es. overlay es (i * 512) (?s i)) [0, 1, 2, 3] es = overlay es 0 (take 2048 E)"
    by simp
  moreover have "length (take 2048 E) = 2048" using assms by simp
  ultimately show ?thesis by (simp only: overlay_def take_0 append_Nil add_0)
qed

lemma le_digit:
  assumes "x < 2 ^ 32"
  shows "x mod 256 + 256 * (x div 256 mod 256) + 65536 * (x div 65536 mod 256 + 256 * (x div 16777216 mod 256)) = (x :: nat)"
proof -
  have "x div 16777216 < 256" using assms by (simp add: less_mult_imp_div_less)
  then have top: "x div 16777216 mod 256 = x div 16777216" by (rule mod_less)
  have two: "y mod 256 + 256 * (y div 256) = y" for y :: nat by simp
  have q: "x div 65536 = x div 256 div 256" "x div 16777216 = x div 65536 div 256"
    by (simp_all only: flip: div_mult2_eq) simp_all
  have "x div 65536 mod 256 + 256 * (x div 16777216 mod 256) = x div 65536"
    using two [of "x div 65536"] top unfolding q(2) by simp
  moreover have "x mod 256 + 256 * (x div 256 mod 256) + 65536 * (x div 65536) = x"
    using two [of x] two [of "x div 256"] unfolding q(1) by (simp only: distrib_left flip: mult.assoc)
  ultimately show ?thesis by simp
qed

lemma unat_byte: "unat (of_nat x :: u8) = x mod 256"
  by (simp add: unat_of_nat take_bit_eq_mod)

text \<open>A field just written reads back; a field elsewhere keeps its value.\<close>

lemma get32_written:
  assumes "x < 2 ^ 32" "take 4 (drop off b) = le32 x"
  shows "get32 b off = x"
proof -
  have "b ! (off + j) = le32 x ! j" if "j < 4" for j
  proof -
    have "length (take 4 (drop off b)) = 4" using assms(2) by (simp add: le32_def)
    then have "b ! (off + j) = take 4 (drop off b) ! j" using that by simp
    then show ?thesis using assms(2) by simp
  qed
  from this [of 0] this [of 1] this [of 2] this [of 3]
  have "b ! off = of_nat x" "b ! (off + 1) = of_nat (x div 256)" "b ! (off + 2) = of_nat (x div 65536)"
    "b ! (off + 2 + 1) = of_nat (x div 16777216)"
    by (simp_all add: le32_def numeral_2_eq_2 numeral_3_eq_3)
  then have "get32 b off = x mod 256 + 256 * (x div 256 mod 256) + 65536 * (x div 65536 mod 256 + 256 * (x div 16777216 mod 256))"
    by (simp only: get32_def get16_def get8_def unat_byte)
  then show ?thesis unfolding le_digit [OF assms(1)] .
qed

lemma length_le [simp]: "length (le32 x) = 4" "length (le16 x) = 2"
  by (simp_all add: le32_def le16_def)

text \<open>
  The table a synchronisation wrote is the table a later mount reads, but only as far as the
  four table sectors go: bytes 2048 to 2559 of the table (the end of entry 25, and entries 26 to 31)
  keep whatever was in memory before the mount.
\<close>
lemma kdiskfs_table_survives:
  assumes p: "ata_drive io phase busy content" and i: "phase d = Idle"
    and k: "length (super_block k) = 16" "length (disk_entries k) = 2560"
    and magic: "get32 (super_block k) SB_MAGIC = KDISKFS_MAGIC"
    and info: "drive_present info \<noteq> 0" and k0: "length (disk_entries k0) = 2560" "length junk = 512"
  defines "T \<equiv> take 2048 (disk_entries k) @ drop 2048 (disk_entries k0)"
  shows "\<exists>d1 d2. sync_table_to_disk io k d = Some d1 \<and> content d2 = content d1 \<and> phase d2 = Idle
    \<and> kdiskfs_mount io info empty_string junk k0 v d1
        = do {(v', d3) \<leftarrow> mount_entries io empty_string T [0..<KDISKFS_MAX_FILES] v d2;
              Some (0, \<lparr>super_block = super_block k, disk_entries = T\<rparr>, v', d3)}"
proof -
  let ?S = "super_sector (super_block k)"
  obtain d1 where 1: "sync_table_to_disk io k d = Some d1" "phase d1 = Idle"
    "\<forall>i < 4. content d1 (table_lba i) = words_of_bytes (table_sector (disk_entries k) i)"
    "content d1 1 = words_of_bytes ?S"
    using sync_table_ok [OF p i k] by blast
  have S: "length ?S = 512" "take 16 ?S = super_block k"
    using k(1) by (simp_all add: super_sector_def ATA_SECTOR_SIZE_def overlay_def)
  have "bytes_of_words (content d1 1) = ?S" using S(1) 1(4) by (simp add: bytes_words_bytes)
  then obtain e where e: "kata_read_sector io 1 (Ptr junk) d1 = Some (0, Ptr ?S, e)" "phase e = Idle"
    "content e = content d1"
    using read_ok [OF p 1(2) _ k0(2), of 1] by auto
  obtain d2 where d2: "read_table io [0, 1, 2, 3] ?S (disk_entries k0) e
      = Some (fold (\<lambda>i es. overlay es (i * 512) (table_sector (disk_entries k) i)) [0, 1, 2, 3] (disk_entries k0), d2)"
    "phase d2 = Idle" "content d2 = content e"
    using read_table_ok [OF p k(2) e(2), of "[0, 1, 2, 3]" ?S "disk_entries k0"] 1(3) e(3) S(1)
    by auto
  have "fold (\<lambda>i es. overlay es (i * 512) (table_sector (disk_entries k) i)) [0, 1, 2, 3] (disk_entries k0) = T"
    unfolding T_def by (rule overlay_table [OF k(2) k0(1)])
  then have "kdiskfs_mount io info empty_string junk k0 v d1
      = do {(v', d3) \<leftarrow> mount_entries io empty_string T [0..<KDISKFS_MAX_FILES] v d2;
            Some (0, k0 \<lparr>super_block := super_block k, disk_entries := T\<rparr>, v', d3)}"
    using info e(1) d2(1) S(2) magic
    by (simp add: kdiskfs_mount_def KDISKFS_SUPER_LBA_def Let_def split_def del: fold.simps read_table.simps)
  moreover have up: "k0 \<lparr>super_block := a, disk_entries := b\<rparr> = \<lparr>super_block = a, disk_entries = b\<rparr>" for a b
    by simp
  ultimately show ?thesis using 1(1) d2(2,3) e(3) unfolding up by metis
qed

section \<open>What a save writes\<close>

text \<open>The sectors of a file: its bytes, padded with zeros to whole sectors.\<close>

definition file_image :: "memory \<Rightarrow> nat \<Rightarrow> nat \<Rightarrow> u8 list" where
  "file_image m src len = load_bytes m src len @ replicate (512 * sectors_for len - len) 0"

lemma sectors_for_bounds:
  assumes "len + 511 < 2 ^ 32"
  shows "len \<le> 512 * sectors_for len" "s < sectors_for len \<Longrightarrow> len > 0 \<Longrightarrow> 512 * s < len"
proof -
  have "w32 (len + ATA_SECTOR_SIZE - 1) = len + 511" using assms by (simp add: w32_def ATA_SECTOR_SIZE_def)
  then have "sectors_for len = (if (len + 511) div 512 = 0 then 1 else (len + 511) div 512)"
    by (simp add: sectors_for_def ATA_SECTOR_SIZE_def)
  then show "len \<le> 512 * sectors_for len" "s < sectors_for len \<Longrightarrow> len > 0 \<Longrightarrow> 512 * s < len"
    by (auto split: if_splits)
qed

lemma length_file_image: "len + 511 < 2 ^ 32 \<Longrightarrow> length (file_image m src len) = 512 * sectors_for len"
  using sectors_for_bounds(1) [of len] by (simp add: file_image_def load_bytes_def)

lemma data_sector_chunk:
  assumes len: "len + 511 < 2 ^ 32" and s: "s < sectors_for len" and src: "src \<noteq> 0"
  shows "data_sector m src len s = take 512 (drop (512 * s) (file_image m src len))"
proof (cases "len = 0")
  case True
  then have "sectors_for len = 1" by (simp add: sectors_for_def w32_def ATA_SECTOR_SIZE_def)
  then show ?thesis using s True by (simp add: data_sector_def file_image_def load_bytes_def ATA_SECTOR_SIZE_def)
next
  case False
  then have lt: "512 * s < len" using sectors_for_bounds(2) [OF len s] by simp
  have ge: "512 * s + 512 \<le> 512 * sectors_for len" using s by simp
  define n where "n = min 512 (len - 512 * s)"
  have "data_sector m src len s = overlay (replicate 512 0) 0 (load_bytes m (src + s * 512) n)"
    using lt src by (auto simp: data_sector_def ATA_SECTOR_SIZE_def n_def min_def Let_def mult.commute)
  also have "\<dots> = load_bytes m (src + s * 512) n @ replicate (512 - n) 0"
    by (simp add: overlay_def load_bytes_def n_def)
  also have "load_bytes m (src + s * 512) n = take 512 (drop (512 * s) (load_bytes m src len))"
    by (rule nth_equalityI) (auto simp: load_bytes_def n_def ac_simps)
  also have "\<dots> @ replicate (512 - n) 0 = take 512 (drop (512 * s) (file_image m src len))"
    using lt ge by (auto simp: file_image_def load_bytes_def n_def min_def)
  finally show ?thesis .
qed

lemma concat_chunks: "concat (map (\<lambda>s. take k (drop (k * s) xs)) [0..<n]) = take (k * n) xs"
proof (induction n)
  case (Suc n)
  have "take (k * n + k) xs = take (k * n) xs @ take k (drop (k * n) xs)" by (rule take_add)
  then show ?case using Suc by (simp del: take_add add: add.commute)
qed simp

lemma length_data_sector:
  "len + 511 < 2 ^ 32 \<Longrightarrow> s < sectors_for len \<Longrightarrow> src \<noteq> 0 \<Longrightarrow> length (data_sector m src len s) = 512"
  using data_sector_chunk [of len s src m] length_file_image [of len m src] by simp

lemma lba_inj: "start + n \<le> 2 ^ 28 \<Longrightarrow> s < n \<Longrightarrow> unat (of_nat (start + s) :: u32) = start + s"
  by (simp add: unat_of_nat take_bit_eq_mod del: of_nat_add)

lemma write_data_ok:
  assumes p: "ata_drive io phase busy content" and len: "len + 511 < 2 ^ 32" and src: "src \<noteq> 0"
    and fits: "start + n \<le> 2 ^ 28" and "phase d = Idle" "\<forall>s \<in> set ss. s < n \<and> s < sectors_for len"
  shows "\<exists>d'. write_data io m src len start ss d = Some d' \<and> phase d' = Idle
    \<and> (\<forall>s \<in> set ss. content d' (of_nat (start + s)) = words_of_bytes (data_sector m src len s))
    \<and> (\<forall>lba. unat lba \<notin> (\<lambda>s. start + s) ` set ss \<longrightarrow> content d' lba = content d lba)"
  using assms(5,6)
proof (induction ss arbitrary: d)
  case (Cons s ss)
  have s: "s < n" "s < sectors_for len" using Cons.prems by simp_all
  have u: "unat (of_nat (start + s) :: u32) = start + s" using lba_inj [OF fits s(1)] .
  have lba: "(of_nat (start + s) :: u32) < 2 ^ 28" using u fits s(1) by (simp add: word_less_nat_alt)
  obtain d1 where 1: "kata_write_sector io (of_nat (start + s)) (Ptr (data_sector m src len s)) d = Some (0, d1)"
    "phase d1 = Idle" "content d1 = (content d)(of_nat (start + s) := words_of_bytes (data_sector m src len s))"
    using write_ok [OF p Cons.prems(1) lba length_data_sector [OF len s(2) src]] by blast
  obtain d2 where 2: "write_data io m src len start ss d1 = Some d2" "phase d2 = Idle"
    "\<forall>s \<in> set ss. content d2 (of_nat (start + s)) = words_of_bytes (data_sector m src len s)"
    "\<forall>lba. unat lba \<notin> (\<lambda>s. start + s) ` set ss \<longrightarrow> content d2 lba = content d1 lba"
    using Cons.IH [OF 1(2)] Cons.prems(2) by auto
  have old: "s \<notin> set ss \<Longrightarrow> unat w = start + s \<Longrightarrow> content d2 w = content d1 w" for w
  proof -
    assume s: "s \<notin> set ss" "unat w = start + s"
    then have "unat w \<notin> (\<lambda>s. start + s) ` set ss" by (simp add: inj_image_mem_iff)
    with 2(4) show ?thesis by blast
  qed
  have "content d2 (of_nat (start + s)) = words_of_bytes (data_sector m src len s)"
  proof (cases "s \<in> set ss")
    case False
    show ?thesis using old [OF False u] 1(3) by simp
  qed (use 2(3) in blast)
  moreover have "content d2 lba = content d lba" if "unat lba \<notin> (\<lambda>s. start + s) ` set (s # ss)" for lba
  proof -
    have "lba \<noteq> of_nat (start + s)" using that u by auto
    then show ?thesis using that 2(4) 1(3) by simp
  qed
  moreover have "write_data io m src len start (s # ss) d = Some d2" using 1(1) 2(1) by simp
  ultimately show ?case using 2(2,3) by (intro exI [of _ d2]) simp
qed simp

text \<open>The entry a save uses: the one in use under that name, or else the first that is free.\<close>

definition save_slot :: "u8 list \<Rightarrow> u8 list \<Rightarrow> nat option" where
  "save_slot es name =
     (case List.find (\<lambda>i. ent_used es i \<and> cstr (ent_path es i) = cstr name) [0..<KDISKFS_MAX_FILES] of
        Some i \<Rightarrow> Some i
      | None \<Rightarrow> List.find (\<lambda>i. \<not> ent_used es i) [0..<KDISKFS_MAX_FILES])"

definition cptr_of :: "'a option \<Rightarrow> 'a cptr" where
  "cptr_of x = (case x of None \<Rightarrow> NULL | Some a \<Rightarrow> Ptr a)"

lemma cptr_of_simps [simp]: "cptr_of None = NULL" "cptr_of (Some a) = Ptr a"
  by (simp_all add: cptr_of_def)

lemma find_entry_eq:
  assumes "terminated name" "\<forall>i \<in> set is. ent_used es i \<longrightarrow> terminated (ent_path es i)"
  shows "find_entry es (Ptr name) is
    = Some (cptr_of (List.find (\<lambda>i. ent_used es i \<and> cstr (ent_path es i) = cstr name) is))"
  using assms(2)
proof (induction "is")
  case (Cons i "is")
  show ?case
  proof (cases "ent_used es i")
    case True
    then have t: "terminated (ent_path es i)" using Cons.prems by simp
    obtain r where r: "kstrcmp (Ptr (ent_path es i)) (Ptr name) = Some r"
      "r = 0 \<longleftrightarrow> cstr (ent_path es i) = cstr name"
      using strcmp_loop_total [OF t assms(1)] by (auto simp: kstrcmp_def)
    show ?thesis using True r Cons by simp
  qed (use Cons in simp)
qed simp

lemma find_unused_eq: "find_unused es is = cptr_of (List.find (\<lambda>i. \<not> ent_used es i) is)"
  by (induction "is") simp_all

lemma save_slot_bound: "save_slot es name = Some e \<Longrightarrow> e < 32"
  by (auto simp: save_slot_def find_Some_iff KDISKFS_MAX_FILES_def split: option.splits)

text \<open>The table after a save in entry \<open>e\<close>.\<close>

definition saved_table :: "u8 list \<Rightarrow> nat \<Rightarrow> u8 list \<Rightarrow> nat \<Rightarrow> nat \<Rightarrow> nat \<Rightarrow> u8 \<Rightarrow> nat \<Rightarrow> u8 list" where
  "saved_table es e name len start n ty mode =
     overlay (take (80 * e) es @ overlay (drop (80 * e) es) 0 (take 63 (cstr name @ replicate 63 0)))
       (80 * e + 64) (le32 len @ le32 start @ le32 n @ [ty, 1] @ le16 mode)"

lemma length_le16_entry: "length (le32 a @ le32 b @ le32 c @ [ty, 1] @ le16 mode) = 16"
  by simp

lemma length_saved_table:
  "length es = 2560 \<Longrightarrow> e < 32 \<Longrightarrow> length (saved_table es e name len start n ty mode) = 2560"
  by (simp add: saved_table_def)

lemma take_drop_overlay:
  assumes "i + length xs \<le> length b" "xs = us @ vs @ ws" "off = i + length us" "n = length vs"
  shows "take n (drop off (overlay b i xs)) = vs"
  using assms by (simp add: overlay_def)

lemma saved_entry:
  assumes "length es = 2560" "e < 32" "len < 2 ^ 32" "start < 2 ^ 32" "n < 2 ^ 32"
    and es': "es' = saved_table es e name len start n ty mode"
  shows "ent_size es' e = len" "ent_start_lba es' e = start" "ent_sector_count es' e = n" "ent_used es' e"
proof -
  let ?b = "take (80 * e) es @ overlay (drop (80 * e) es) 0 (take 63 (cstr name @ replicate 63 0))"
  let ?xs = "le32 len @ le32 start @ le32 n @ [ty, 1] @ le16 mode"
  have b: "80 * e + 64 + length ?xs \<le> length ?b" using assms(1,2) by simp
  have "take 4 (drop (80 * e + 64) es') = le32 len"
    unfolding es' saved_table_def
    by (rule take_drop_overlay [OF b, of "[]" "le32 len" "le32 start @ le32 n @ [ty, 1] @ le16 mode"]) simp_all
  then show "ent_size es' e = len" using get32_written [OF assms(3)] by (simp add: ent_size_def ENTRY_SIZE_def)
  have "take 4 (drop (80 * e + 68) es') = le32 start"
    unfolding es' saved_table_def
    by (rule take_drop_overlay [OF b, of "le32 len" "le32 start" "le32 n @ [ty, 1] @ le16 mode"]) simp_all
  then show "ent_start_lba es' e = start"
    using get32_written [OF assms(4)] by (simp add: ent_start_lba_def ENTRY_SIZE_def)
  have "take 4 (drop (80 * e + 72) es') = le32 n"
    unfolding es' saved_table_def
    by (rule take_drop_overlay [OF b, of "le32 len @ le32 start" "le32 n" "[ty, 1] @ le16 mode"]) simp_all
  then show "ent_sector_count es' e = n"
    using get32_written [OF assms(5)] by (simp add: ent_sector_count_def ENTRY_SIZE_def)
  have "80 * e + 77 < length ?b" using b by simp
  then have "es' ! (80 * e + 77) = ?xs ! 13"
    unfolding es' saved_table_def by (subst nth_overlay [OF b]) simp_all
  also have "\<dots> = 1" by (simp add: nth_append)
  finally show "ent_used es' e" by (simp add: ent_used_def ENTRY_SIZE_def get8_def)
qed

text \<open>The super block after a new entry took \<open>n\<close> sectors.\<close>

definition grown_super :: "u8 list \<Rightarrow> nat \<Rightarrow> u8 list" where
  "grown_super sb n = overlay (overlay sb 8 (le32 (w32 (get32 sb 8 + n)))) 4 (le32 (w32 (get32 sb 4 + 1)))"

lemma save_file_steps:
  assumes "drive_present info \<noteq> 0" "terminated name" "length (disk_entries k) = 2560"
    and paths: "\<forall>i < 32. ent_used (disk_entries k) i \<longrightarrow> terminated (ent_path (disk_entries k) i)"
    and slot: "save_slot (disk_entries k) name = Some e"
    and start: "start = (if ent_used (disk_entries k) e then ent_start_lba (disk_entries k) e else get32 (super_block k) 8)"
    and n: "n = sectors_for len"
    and k': "k' = \<lparr>super_block = (if ent_used (disk_entries k) e then super_block k else grown_super (super_block k) n),
    disk_entries = saved_table (disk_entries k) e name len start n ty mode\<rparr>"
  shows "kdiskfs_save_file io info (Ptr name) src len ty mode m k d
    = do {d \<leftarrow> write_data io m src len start [0..<n] d;
          d \<leftarrow> sync_table_to_disk io k' d;
          Some (0, k', d)}"
proof -
  have e: "e < 32" by (rule save_slot_bound [OF slot])
  have f: "find_entry (disk_entries k) (Ptr name) [0..<KDISKFS_MAX_FILES]
      = Some (cptr_of (List.find (\<lambda>i. ent_used (disk_entries k) i \<and> cstr (ent_path (disk_entries k) i) = cstr name)
          [0..<KDISKFS_MAX_FILES]))"
    by (rule find_entry_eq [OF assms(2)]) (simp add: paths KDISKFS_MAX_FILES_def)
  have "63 \<le> length (ent_path (disk_entries k) e)" using e assms(3) by (simp add: ent_path_def ENTRY_SIZE_def)
  then have cp: "kstrncpy (Ptr (ent_path (disk_entries k) e)) (Ptr name) 63
      = Some (Ptr (overlay (ent_path (disk_entries k) e) 0 (take 63 (cstr name @ replicate 63 0))))"
    by (rule kstrncpy_spec [OF assms(2)])
  show ?thesis
    using slot assms(1)
    by (simp add: kdiskfs_save_file_def Let_def f find_unused_eq save_slot_def cp cp [unfolded ent_path_def ENTRY_SIZE_def] k' saved_table_def grown_super_def start n SB_NEXT_FREE_def
        SB_NUM_FILES_def ent_path_def ENTRY_SIZE_def split: option.splits cong: option.case_cong if_cong)
qed

lemma grown_super_fields:
  assumes "length sb = 16"
  shows "grown_super sb n = take 4 sb @ le32 (w32 (get32 sb 4 + 1)) @ le32 (w32 (get32 sb 8 + n)) @ drop 12 sb"
proof -
  have "overlay sb 8 xs = take 4 sb @ take 4 (drop 4 sb) @ xs @ drop 12 sb" if "length xs = 4" for xs
    using that take_add [of 4 4 sb] by (simp add: overlay_def)
  moreover have "overlay (take 4 sb @ take 4 (drop 4 sb) @ xs @ drop 12 sb) 4 ys = take 4 sb @ ys @ xs @ drop 12 sb"
    if "length xs = 4" "length ys = 4" for xs ys
    using that assms by (simp add: overlay_def)
  ultimately show ?thesis by (simp add: grown_super_def)
qed

text \<open>The rest of the entry, and the other entries.\<close>

lemma saved_table_parts:
  assumes "length es = 2560" "e < 32" "es' = saved_table es e name len start n ty mode"
  shows "es' = take (80 * e) es @ take 63 (cstr name @ replicate 63 0) @ [es ! (80 * e + 63)]
    @ (le32 len @ le32 start @ le32 n @ [ty, 1] @ le16 mode) @ drop (80 * e + 80) es"
proof -
  let ?A = "take (80 * e) es" and ?c = "es ! (80 * e + 63)"
  define P where "P = take 63 (cstr name @ replicate 63 0)"
  define X where "X = le32 len @ le32 start @ le32 n @ [ty, 1] @ le16 mode"
  have l: "length P = 63" "length X = 16" "length ?A = 80 * e" using assms(1,2) by (simp_all add: P_def X_def)
  have "drop (80 * e + 63) es = ?c # drop (80 * e + 64) es"
    using Cons_nth_drop_Suc [of "80 * e + 63" es] assms(1,2) by (simp add: add.commute)
  moreover have "overlay (drop (80 * e) es) 0 P = P @ drop (80 * e + 63) es"
    using l(1) by (simp add: overlay_def add.commute)
  ultimately have "overlay (drop (80 * e) es) 0 P = P @ ?c # drop (80 * e + 64) es" by simp
  moreover have "overlay (B @ Y) (length B) X = B @ X @ drop 16 Y" for B Y
    using l(2) by (simp add: overlay_def)
  from this [of "?A @ P @ [?c]" "drop (80 * e + 64) es"]
  have "overlay (?A @ P @ ?c # drop (80 * e + 64) es) (80 * e + 64) X = ?A @ P @ [?c] @ X @ drop (80 * e + 80) es"
    using l by (simp add: ac_simps)
  ultimately show ?thesis unfolding assms(3) saved_table_def P_def [symmetric] X_def [symmetric] by simp
qed

lemma saved_entry_name:
  assumes "length es = 2560" "e < 32" and es': "es' = saved_table es e name len start n ty mode"
  shows "take 63 (ent_path es' e) = take 63 (cstr name @ replicate 63 0)" "ent_type es' e = unat ty"
    "ent_mode es' e = mode mod 2 ^ 16"
proof -
  let ?p = "take 63 (cstr name @ replicate 63 0)" and ?xs = "le32 len @ le32 start @ le32 n @ [ty, 1] @ le16 mode"
  note parts = saved_table_parts [OF assms]
  have A: "length (take (80 * e) es) = 80 * e" "length ?p = 63" using assms(1,2) by simp_all
  show "take 63 (ent_path es' e) = ?p"
    unfolding parts ent_path_def ENTRY_SIZE_def using A by simp
  have f: "es' ! (80 * e + 64 + j) = ?xs ! j" if "j < 16" for j
  proof -
    have "(A @ P @ [c] @ X @ D) ! (length A + length P + 1 + j) = X ! j" if "j < length X"
      for A P X D :: "u8 list" and c
      using that by (simp add: nth_append)
    from this [of ?xs "take (80 * e) es" ?p "es ! (80 * e + 63)" "drop (80 * e + 80) es"]
    show ?thesis unfolding parts A using that by (simp only: length_le16_entry add.assoc) simp
  qed
  show "ent_type es' e = unat ty" using f [of 12] by (simp add: ent_type_def ENTRY_SIZE_def get8_def nth_append ac_simps)
  have m: "es' ! (80 * e + 78) = of_nat mode" "es' ! (80 * e + 79) = of_nat (mode div 256)"
    using f [of 14] f [of 15] by (simp_all add: nth_append le16_def ac_simps)
  have "mode mod 256 + 256 * (mode div 256 mod 256) = mode mod 2 ^ 16"
    using mod_mult2_eq [of mode 256 256] by simp
  moreover have "80 * e + 78 + 1 = 80 * e + 79" by simp
  ultimately show "ent_mode es' e = mode mod 2 ^ 16"
    using m by (simp only: ent_mode_def ENTRY_SIZE_def get16_def get8_def unat_byte)
qed

lemma saved_entry_others:
  assumes "length es = 2560" "e < 32" "i < 32" "i \<noteq> e" and es': "es' = saved_table es e name len start n ty mode"
  shows "take 80 (ent_path es' i) = take 80 (ent_path es i)"
proof -
  let ?p = "take 63 (cstr name @ replicate 63 0)" and ?xs = "le32 len @ le32 start @ le32 n @ [ty, 1] @ le16 mode"
  note parts = saved_table_parts [OF assms(1,2) es']
  show ?thesis
  proof (cases "i < e")
    case True
    then have "80 * i + 80 \<le> 80 * e" by simp
    then have "take 80 (drop (80 * i) (take (80 * e) es @ Y)) = take 80 (drop (80 * i) es)" for Y
      using assms(1,2) by (simp add: take_drop min_def)
    then show ?thesis unfolding parts ent_path_def ENTRY_SIZE_def .
  next
    case False
    then have i: "80 * e + 80 \<le> 80 * i" using assms(4) by simp
    have "length (take (80 * e) es @ ?p @ [es ! (80 * e + 63)] @ ?xs) = 80 * e + 80"
      using assms(1,2) by simp
    moreover have "drop k (Z @ D) = drop (k - length Z) D" if "length Z \<le> k" for k and Z D :: "u8 list"
      using that by simp
    ultimately have "drop (80 * i) ((take (80 * e) es @ ?p @ [es ! (80 * e + 63)] @ ?xs) @ drop (80 * e + 80) es)
        = drop (80 * i - (80 * e + 80)) (drop (80 * e + 80) es)" using i by metis
    then show ?thesis unfolding parts ent_path_def ENTRY_SIZE_def using i by (simp only: append_assoc drop_drop) simp
  qed
qed

lemma super_sector_bytes: "length sb = 16 \<Longrightarrow> bytes_of_words (words_of_bytes (super_sector sb)) = sb @ replicate 496 0"
  by (subst bytes_words_bytes) (simp_all add: super_sector_def overlay_def ATA_SECTOR_SIZE_def)

lemma length_grown_super: "length sb = 16 \<Longrightarrow> length (grown_super sb n) = 16"
  by (simp add: grown_super_def)

lemma get32_bound: "get32 b off < 2 ^ 32"
proof -
  have "unat (b ! i) < 256" for i using unsigned_less [of "b ! i"] by simp
  from this [of off] this [of "off + 1"] this [of "off + 2"] this [of "off + 2 + 1"] show ?thesis
    unfolding get32_def get16_def get8_def by simp
qed

lemma file_readback:
  assumes len: "len + 511 < 2 ^ 32" and src: "src \<noteq> 0"
    and "\<forall>s < sectors_for len. f s = words_of_bytes (data_sector m src len s)"
  shows "concat (map (\<lambda>s. bytes_of_words (f s)) [0..<sectors_for len]) = file_image m src len"
proof -
  have "bytes_of_words (f s) = take 512 (drop (512 * s) (file_image m src len))" if "s < sectors_for len" for s
    using assms(3) that length_data_sector [OF len that src, of m] data_sector_chunk [OF len that src, of m]
    by (simp add: bytes_words_bytes)
  then have "concat (map (\<lambda>s. bytes_of_words (f s)) [0..<sectors_for len])
      = concat (map (\<lambda>s. take 512 (drop (512 * s) (file_image m src len))) [0..<sectors_for len])"
    by (intro arg_cong [of _ _ concat] map_cong) simp_all
  then show ?thesis by (simp only: concat_chunks) (simp add: length_file_image [OF len])
qed

text \<open>
  C21: saving a file writes its bytes, padded with zeros, to consecutive sectors, then the table and
  the super block, and no other sector of the disk changes.  The entry it used (the one already under
  that name, or the first free one) then holds the first 63 bytes of the name, where the file is, how
  long it is, its type and its mode; the other entries are as before.  The super block counts a new file
  and moves its next free sector behind the new data; its other fields stay.  The first sector is the
  entry's old one when the name was already in use, whatever the new length.
\<close>
theorem kdiskfs_save_file_exact:
  assumes p: "ata_drive io phase busy content" and i: "phase d = Idle"
    and info: "drive_present info \<noteq> 0" and name: "terminated name"
    and sizes: "length (super_block k) = 16" "length (disk_entries k) = 2560"
    and paths: "\<forall>i < 32. ent_used (disk_entries k) i \<longrightarrow> terminated (ent_path (disk_entries k) i)"
    and slot: "save_slot (disk_entries k) name = Some e"
    and start: "start = (if ent_used (disk_entries k) e then ent_start_lba (disk_entries k) e
      else get32 (super_block k) 8)"
    and fits: "6 \<le> start" "start + sectors_for len \<le> 2 ^ 28" and len: "len + 511 < 2 ^ 32" and src: "src \<noteq> 0"
  shows "\<exists>k' d'. kdiskfs_save_file io info (Ptr name) src len ty mode m k d = Some (0, k', d')
    \<and> concat (map (\<lambda>s. bytes_of_words (content d' (of_nat (start + s)))) [0..<sectors_for len]) = file_image m src len
    \<and> (\<forall>lba. lba \<notin> {1, 2, 3, 4, 5} \<and> unat lba \<notin> {start..<start + sectors_for len} \<longrightarrow> content d' lba = content d lba)
    \<and> (\<forall>i < 4. content d' (table_lba i) = words_of_bytes (table_sector (disk_entries k') i))
    \<and> bytes_of_words (content d' 1) = super_block k' @ replicate 496 0
    \<and> super_block k' = (if ent_used (disk_entries k) e then super_block k
        else take 4 (super_block k) @ le32 (w32 (get32 (super_block k) 4 + 1))
          @ le32 (w32 (get32 (super_block k) 8 + sectors_for len)) @ drop 12 (super_block k))
    \<and> ent_used (disk_entries k') e \<and> ent_size (disk_entries k') e = len
    \<and> ent_start_lba (disk_entries k') e = start \<and> ent_sector_count (disk_entries k') e = sectors_for len
    \<and> take 63 (ent_path (disk_entries k') e) = take 63 (cstr name @ replicate 63 0)
    \<and> ent_type (disk_entries k') e = unat ty \<and> ent_mode (disk_entries k') e = mode mod 2 ^ 16
    \<and> (\<forall>i < 32. i \<noteq> e \<longrightarrow> take 80 (ent_path (disk_entries k') i) = take 80 (ent_path (disk_entries k) i))"
proof -
  let ?n = "sectors_for len"
  define k' where "k' = \<lparr>super_block = (if ent_used (disk_entries k) e then super_block k else grown_super (super_block k) ?n),
    disk_entries = saved_table (disk_entries k) e name len start ?n ty mode\<rparr>"
  note e = save_slot_bound [OF slot]
  have k': "length (super_block k') = 16" "length (disk_entries k') = 2560"
    using sizes e by (simp_all add: k'_def length_grown_super length_saved_table)
  obtain d1 where 1: "write_data io m src len start [0..<?n] d = Some d1" "phase d1 = Idle"
    "\<forall>s < ?n. content d1 (of_nat (start + s)) = words_of_bytes (data_sector m src len s)"
    "\<forall>lba. unat lba \<notin> (\<lambda>s. start + s) ` {..<?n} \<longrightarrow> content d1 lba = content d lba"
    using write_data_ok [OF p len src fits(2) i, of "[0..<?n]" m] by (auto simp: atLeast0LessThan)
  obtain d2 where 2: "sync_table_to_disk io k' d1 = Some d2" "phase d2 = Idle"
    "\<forall>i < 4. content d2 (table_lba i) = words_of_bytes (table_sector (disk_entries k') i)"
    "\<forall>lba. lba \<notin> {1, 2, 3, 4, 5} \<longrightarrow> content d2 lba = content d1 lba"
    "content d2 1 = words_of_bytes (super_sector (super_block k'))"
    using sync_table_ok [OF p 1(2) k'] by blast
  have "kdiskfs_save_file io info (Ptr name) src len ty mode m k d = Some (0, k', d2)"
    by (simp add: save_file_steps [OF info name sizes(2) paths slot start refl k'_def] 1(1) 2(1))
  moreover have "content d2 (of_nat (start + s)) = words_of_bytes (data_sector m src len s)" if "s < ?n" for s
  proof -
    have u: "unat (of_nat (start + s) :: u32) = start + s" by (rule lba_inj [OF fits(2) that])
    have "content d2 w = content d1 w" if "6 \<le> unat w" for w
    proof -
      have "w \<notin> {1, 2, 3, 4, 5}" using that by auto
      with 2(4) show ?thesis by blast
    qed
    moreover have "6 \<le> unat (of_nat (start + s) :: u32)" unfolding u using fits(1) by simp
    ultimately have "content d2 (of_nat (start + s)) = content d1 (of_nat (start + s))" by blast
    then show ?thesis using 1(3) that by simp
  qed
  moreover have "content d2 lba = content d lba"
    if "lba \<notin> {1, 2, 3, 4, 5} \<and> unat lba \<notin> {start..<start + ?n}" for lba
  proof -
    have "unat lba \<notin> (\<lambda>s. start + s) ` {..<?n}" using that by auto
    then show ?thesis using that 1(4) 2(4) by simp
  qed
  moreover have "len < 2 ^ 32" "start < 2 ^ 32" "?n < 2 ^ 32" using len fits by simp_all
  moreover have "bytes_of_words (content d2 1) = super_block k' @ replicate 496 0"
    using super_sector_bytes [OF k'(1)] 2(5) by simp
  moreover have "super_block k' = (if ent_used (disk_entries k) e then super_block k
        else take 4 (super_block k) @ le32 (w32 (get32 (super_block k) 4 + 1))
          @ le32 (w32 (get32 (super_block k) 8 + ?n)) @ drop 12 (super_block k))"
    using grown_super_fields [OF sizes(1)] by (simp add: k'_def)
  moreover have "disk_entries k' = saved_table (disk_entries k) e name len start ?n ty mode" by (simp add: k'_def)
  ultimately show ?thesis
    using saved_entry [OF sizes(2) e, of len start ?n "disk_entries k'" name ty mode]
      saved_entry_name [OF sizes(2) e, of "disk_entries k'" name len start ?n ty mode]
      saved_entry_others [OF sizes(2) e, of _ "disk_entries k'" name len start ?n ty mode]
      file_readback [OF len src, of "\<lambda>s. content d2 (of_nat (start + s))" m] 2(3)
    by (intro exI [of _ k'] exI [of _ d2]) (simp only: simp_thms, blast)
qed

definition sample_fs :: kdiskfs where
  "sample_fs = \<lparr>super_block = le32 KDISKFS_MAGIC @ le32 0 @ le32 KDISKFS_DATA_LBA @ le32 ATA_SECTOR_SIZE,
     disk_entries = replicate 2560 0\<rparr>"

definition sample_info :: kata_drive_info where
  "sample_info = \<lparr>drive_present = 1, model = [], serial = [], total_sectors = 0, size_mb = 0\<rparr>"

lemma sample_fs_ok:
  "length (super_block sample_fs) = 16" "length (disk_entries sample_fs) = 2560"
  "get32 (super_block sample_fs) SB_MAGIC = KDISKFS_MAGIC"
  by (simp_all add: sample_fs_def le32_def get32_def get16_def get8_def SB_MAGIC_def kdiskfs_consts)

theorem kdiskfs_save_file_exact_witness:
  "\<exists>k' d'. kdiskfs_save_file sample_ata sample_info (Ptr [97, 0]) 4096 3 0 0 (\<lambda>_. 7) sample_fs blank_disk = Some (0, k', d')
    \<and> concat (map (\<lambda>s. bytes_of_words (disk_content d' (of_nat (6 + s)))) [0..<sectors_for 3]) = file_image (\<lambda>_. 7) 4096 3
    \<and> ent_size (disk_entries k') 0 = 3 \<and> ent_start_lba (disk_entries k') 0 = 6"
proof -
  have unused: "\<not> ent_used (disk_entries sample_fs) i" if "i < 32" for i
    using that by (simp add: ent_used_def get8_def sample_fs_def ENTRY_SIZE_def)
  then have "save_slot (disk_entries sample_fs) [97, 0] = Some 0"
    by (simp add: save_slot_def KDISKFS_MAX_FILES_def upt_conv_Cons)
  note slot = this
  have start: "6 = (if ent_used (disk_entries sample_fs) 0 then ent_start_lba (disk_entries sample_fs) 0
      else get32 (super_block sample_fs) 8)"
    using unused [of 0] by (simp add: sample_fs_def le32_def get32_def get16_def get8_def kdiskfs_consts)
  have n: "sectors_for 3 = 1" by (simp add: sectors_for_def w32_def ATA_SECTOR_SIZE_def)
  have i: "disk_phase blank_disk = Idle" and info: "drive_present sample_info \<noteq> 0"
    and name: "terminated [97, 0]"
    by (simp_all add: blank_disk_def sample_info_def terminated_def)
  have paths: "\<forall>i < 32. ent_used (disk_entries sample_fs) i \<longrightarrow> terminated (ent_path (disk_entries sample_fs) i)"
    using unused by blast
  have bounds: "6 \<le> (6 :: nat)" "6 + sectors_for 3 \<le> 2 ^ 28" "3 + 511 < (2 :: nat) ^ 32" "(4096 :: nat) \<noteq> 0"
    by (simp_all add: n)
  show ?thesis
    using kdiskfs_save_file_exact [OF sample_ata_drive i info name sample_fs_ok(1,2) paths slot start bounds,
        of 0 0 "\<lambda>_. 7"] by blast
qed

end
