(* ===== verification/Krtc.thy ===== *)
theory Krtc imports Kport Kstring begin

unbundle bit_operations_syntax

text \<open>
  The real-time clock \<open>freestanding/krtc.c\<close> (CMOS registers behind ports 0x70 and 0x71) and its
  text formats.  The port bus is a parameter.

  The lemmas say what time a clock that shows a given time is read as, in each of the register
  formats, and what the formatting functions write.
\<close>

section \<open>Reading the clock\<close>

definition CMOS_PORT_INDEX :: u16 where "CMOS_PORT_INDEX = 0x70"
definition CMOS_PORT_DATA :: u16 where "CMOS_PORT_DATA = 0x71"

record krtc_time =
  second :: u8
  minute :: u8
  hour :: u8
  day :: u8
  month :: u8
  year :: u16

definition cmos_read :: "'d bus \<Rightarrow> u8 \<Rightarrow> 'd \<Rightarrow> u8 \<times> 'd" where
  "cmos_read io reg d = inb io CMOS_PORT_DATA (outb io CMOS_PORT_INDEX (reg OR 0x80) d)"

definition cmos_is_updating :: "'d bus \<Rightarrow> 'd \<Rightarrow> u8 \<times> 'd" where
  "cmos_is_updating io d = (let (v, d) = cmos_read io 0x0A d in (v AND 0x80, d))"

definition BCD_TO_BIN :: "u8 \<Rightarrow> u8" where
  "BCD_TO_BIN val = (val AND 0x0F) + drop_bit 4 val * 10"

definition BCD_HOUR :: "u8 \<Rightarrow> u8" where
  "BCD_HOUR hr = ((hr AND 0x0F) + drop_bit 4 (hr AND 0x70) * 10) OR (hr AND 0x80)"

text \<open>\<open>while (timeout-- && cmos_is_updating())\<close>: at most that many reads.\<close>

fun wait_update :: "'d bus \<Rightarrow> nat \<Rightarrow> 'd \<Rightarrow> 'd" where
  "wait_update io 0 d = d"
| "wait_update io (Suc timeout) d =
     (let (v, d) = cmos_is_updating io d in if v \<noteq> 0 then wait_update io timeout d else d)"

definition krtc_get_time :: "'d bus \<Rightarrow> krtc_time cptr \<Rightarrow> 'd \<Rightarrow> krtc_time cptr \<times> 'd" where
  "krtc_get_time io t d =
     (if t = NULL then (NULL, d)
      else
        let d = wait_update io 10000 d;
            (sec, d) = cmos_read io 0x00 d;
            (mi, d) = cmos_read io 0x02 d;
            (hr, d) = cmos_read io 0x04 d;
            (dy, d) = cmos_read io 0x07 d;
            (mo, d) = cmos_read io 0x08 d;
            (yr, d) = cmos_read io 0x09 d;
            (reg_b, d) = cmos_read io 0x0B d;
            bcd = (reg_b AND 0x04 = 0);
            sec = (if bcd then BCD_TO_BIN sec else sec);
            mi = (if bcd then BCD_TO_BIN mi else mi);
            hr = (if bcd then BCD_HOUR hr else hr);
            dy = (if bcd then BCD_TO_BIN dy else dy);
            mo = (if bcd then BCD_TO_BIN mo else mo);
            yr = (if bcd then BCD_TO_BIN yr else yr);
            hr = (if reg_b AND 0x02 = 0 \<and> hr AND 0x80 \<noteq> 0
                  then of_nat ((unat (hr AND 0x7F) + 12) mod 24) else hr)
        in (Ptr \<lparr>second = sec, minute = mi, hour = hr, day = dy, month = mo,
                  year = of_nat (2000 + unat yr)\<rparr>, d))"

section \<open>Formatting\<close>

text \<open>\<open>(char)('0' + v / 10)\<close> and \<open>(char)('0' + v % 10)\<close>.\<close>

definition tens :: "nat \<Rightarrow> u8" where "tens v = of_nat (48 + v div 10)"
definition ones :: "nat \<Rightarrow> u8" where "ones v = of_nat (48 + v mod 10)"

definition krtc_format_time :: "krtc_time cptr \<Rightarrow> u8 list cptr \<Rightarrow> nat \<Rightarrow> u8 list cptr option" where
  "krtc_format_time t buf max_len =
     (case (t, buf) of
        (Ptr t, Ptr b) \<Rightarrow>
          if max_len < 9 then Some buf
          else map_option Ptr (wr_seq b 0
            [tens (unat (hour t)), ones (unat (hour t)), 58,
             tens (unat (minute t)), ones (unat (minute t)), 58,
             tens (unat (second t)), ones (unat (second t)), 0])
      | _ \<Rightarrow> Some buf)"

definition krtc_format_date :: "krtc_time cptr \<Rightarrow> u8 list cptr \<Rightarrow> nat \<Rightarrow> u8 list cptr option" where
  "krtc_format_date t buf max_len =
     (case (t, buf) of
        (Ptr t, Ptr b) \<Rightarrow>
          if max_len < 11 then Some buf
          else let y = unat (year t) mod 100 in
            map_option Ptr (wr_seq b 0
              [tens (unat (day t)), ones (unat (day t)), 47,
               tens (unat (month t)), ones (unat (month t)), 47, 50, 48, tens y, ones y, 0])
      | _ \<Rightarrow> Some buf)"

text \<open>\<open>for (i = 0; s[i] && pos < max_len - 1; i++) buf[pos++] = s[i]\<close>\<close>

fun append_text :: "u8 list \<Rightarrow> u8 list \<Rightarrow> nat \<Rightarrow> nat \<Rightarrow> (u8 list \<times> nat) option" where
  "append_text [] buf pos max_len = None"
| "append_text (c # s) buf pos max_len =
     (if c \<noteq> 0 \<and> pos < max_len - 1
      then do {buf \<leftarrow> wr buf pos c; append_text s buf (pos + 1) max_len}
      else Some (buf, pos))"

text \<open>\<open>junk_d\<close> and \<open>junk_h\<close> are the uninitialised local arrays of 12 and 10 bytes.\<close>

definition krtc_format_datetime ::
  "u8 list \<Rightarrow> u8 list \<Rightarrow> krtc_time cptr \<Rightarrow> u8 list cptr \<Rightarrow> nat \<Rightarrow> u8 list cptr option" where
  "krtc_format_datetime junk_d junk_h t buf max_len =
     (case (t, buf) of
        (Ptr _, Ptr b) \<Rightarrow>
          if max_len < 22 then Some buf
          else do {
            d \<leftarrow> krtc_format_date t (Ptr junk_d) 12;
            h \<leftarrow> krtc_format_time t (Ptr junk_h) 10;
            (case (d, h) of
               (Ptr d, Ptr h) \<Rightarrow> do {
                 (b, pos) \<leftarrow> append_text d b 0 max_len;
                 (b, pos) \<leftarrow> (if pos < max_len - 3
                   then do {b \<leftarrow> wr_seq b pos [32, 124, 32]; Some (b, pos + 3)} else Some (b, pos));
                 (b, pos) \<leftarrow> append_text h b pos max_len;
                 b \<leftarrow> wr b pos 0;
                 Some (Ptr b)}
             | _ \<Rightarrow> None)}
      | _ \<Rightarrow> Some buf)"

lemma append_text_overlay:
  assumes "0 \<notin> set s" "pos + length s < max_len" "pos + length s \<le> length b"
  shows "append_text (s @ 0 # r) b pos max_len = Some (overlay b pos s, pos + length s)"
  using assms
proof (induction s arbitrary: b pos)
  case (Cons c s)
  then show ?case using Cons.IH [of "pos + 1" "b[pos := c]"] by (simp add: overlay_step)
qed simp

section \<open>What the clock shows\<close>

text \<open>A clock that shows the registers \<open>r\<close> at every read and is not being updated.\<close>

definition steady_clock :: "'d bus \<Rightarrow> (u8 \<Rightarrow> u8) \<Rightarrow> bool" where
  "steady_clock io r \<longleftrightarrow> (\<forall>reg < 0x80. \<forall>d. fst (cmos_read io reg d) = r reg) \<and> r 0x0A AND 0x80 = 0"

text \<open>The byte that stands for a number below 100, and for an hour, in a register.\<close>

definition bcd_of :: "nat \<Rightarrow> u8" where
  "bcd_of n = of_nat (16 * (n div 10) + n mod 10)"

definition reg_num :: "bool \<Rightarrow> nat \<Rightarrow> u8" where
  "reg_num bcd n = (if bcd then bcd_of n else of_nat n)"

definition reg_hour :: "bool \<Rightarrow> bool \<Rightarrow> nat \<Rightarrow> u8" where
  "reg_hour bcd h24 n =
     (if h24 then reg_num bcd n
      else reg_num bcd (if n mod 12 = 0 then 12 else n mod 12) OR (if n < 12 then 0 else 0x80))"

definition shows_time :: "(u8 \<Rightarrow> u8) \<Rightarrow> bool \<Rightarrow> bool \<Rightarrow> nat \<Rightarrow> nat \<Rightarrow> nat \<Rightarrow> nat \<Rightarrow> nat \<Rightarrow> nat \<Rightarrow> bool" where
  "shows_time r bcd h24 Y M D h mi s \<longleftrightarrow>
     r 0 = reg_num bcd s \<and> r 2 = reg_num bcd mi \<and> r 4 = reg_hour bcd h24 h \<and>
     r 7 = reg_num bcd D \<and> r 8 = reg_num bcd M \<and> r 9 = reg_num bcd Y \<and>
     (r 0x0B AND 0x04 = 0 \<longleftrightarrow> bcd) \<and> (r 0x0B AND 0x02 = 0 \<longleftrightarrow> \<not> h24)"

text \<open>A fact about each number below a bound, checked by evaluation.\<close>

lemma all_below: "list_all P [0..<n] \<Longrightarrow> i < n \<Longrightarrow> P i"
  by (simp add: list_all_iff)

lemma bcd_roundtrip: "n < 100 \<Longrightarrow> BCD_TO_BIN (bcd_of n) = of_nat n"
  by (rule all_below [where n = 100]) code_simp

lemma reg_roundtrip: "n < 100 \<Longrightarrow> (if bcd then BCD_TO_BIN (reg_num bcd n) else reg_num bcd n) = of_nat n"
  by (simp add: reg_num_def bcd_roundtrip)

definition hour_seen :: "bool \<Rightarrow> nat \<Rightarrow> nat" where
  "hour_seen h24 h = (if h24 then h else if h = 0 then 12 else if h = 12 then 0 else h)"

lemma hours_24: "list_all (\<lambda>h. BCD_HOUR (bcd_of h) = of_nat h) [0..<24]"
  by code_simp

definition to_24 :: "u8 \<Rightarrow> u8" where
  "to_24 x = (if x AND 0x80 \<noteq> 0 then of_nat ((unat (x AND 0x7F) + 12) mod 24) else x)"

lemma hours_12:
  "list_all (\<lambda>h. to_24 (BCD_HOUR (reg_hour True False h)) = of_nat (hour_seen False h)) [0..<24]"
  "list_all (\<lambda>h. to_24 (reg_hour False False h) = of_nat (hour_seen False h)) [0..<24]"
  by code_simp+

lemma hour_roundtrip_24: "h < 24 \<Longrightarrow> (if bcd then BCD_HOUR (reg_hour bcd True h) else reg_hour bcd True h) = of_nat h"
  using all_below [OF hours_24] by (cases bcd) (simp_all add: reg_hour_def reg_num_def)

lemma hour_roundtrip_12:
  "h < 24 \<Longrightarrow> to_24 (if bcd then BCD_HOUR (reg_hour bcd False h) else reg_hour bcd False h) = of_nat (hour_seen False h)"
  using all_below [OF hours_12(1)] all_below [OF hours_12(2)] by (cases bcd) simp_all

lemma steady_read: "steady_clock io r \<Longrightarrow> reg < 0x80 \<Longrightarrow> fst (cmos_read io reg d) = r reg"
  by (simp add: steady_clock_def)

lemma get_time_fields:
  assumes c: "steady_clock io r"
  shows "fst (krtc_get_time io (Ptr t) d) =
    (let f = (\<lambda>x. if r 0x0B AND 0x04 = 0 then BCD_TO_BIN x else x);
         hr = (if r 0x0B AND 0x04 = 0 then BCD_HOUR (r 4) else r 4) in
     Ptr \<lparr>second = f (r 0), minute = f (r 2), hour = (if r 0x0B AND 0x02 = 0 then to_24 hr else hr),
       day = f (r 7), month = f (r 8), year = of_nat (2000 + unat (f (r 9)))\<rparr>)"
  unfolding krtc_get_time_def Let_def split_def to_24_def
  by (simp only: cptr.distinct if_False fst_conv snd_conv) (simp add: steady_read [OF c])

text \<open>
  read from a clock that shows a time, in either encoding (BCD or binary) and either hour format,
  krtc_get_time delivers exactly that time, except that a 12-hour clock's midnight is read as 12 and
  its noon as 0.
\<close>
theorem krtc_get_time_decodes:
  assumes c: "steady_clock io r" and t: "shows_time r bcd h24 Y M D h mi s"
    and b: "Y < 100" "M < 100" "D < 100" "h < 24" "mi < 100" "s < 100"
  shows "fst (krtc_get_time io (Ptr t0) d)
    = Ptr \<lparr>second = of_nat s, minute = of_nat mi, hour = of_nat (if h24 then h else if h = 0 then 12
            else if h = 12 then 0 else h), day = of_nat D, month = of_nat M, year = of_nat (2000 + Y)\<rparr>"
proof -
  have bcd: "(r 0x0B AND 0x04 = 0) = bcd" and h24: "(r 0x0B AND 0x02 = 0) = (\<not> h24)"
    using t by (simp_all add: shows_time_def)
  have f: "(if bcd then BCD_TO_BIN (reg_num bcd n) else reg_num bcd n) = of_nat n" if "n < 100" for n
    using reg_roundtrip [OF that] .
  have u: "unat (of_nat Y :: u8) = Y" using b(1) by (simp add: unat_of_nat take_bit_eq_mod)
  have h: "(if \<not> h24 then to_24 (if bcd then BCD_HOUR (reg_hour bcd h24 h) else reg_hour bcd h24 h)
      else (if bcd then BCD_HOUR (reg_hour bcd h24 h) else reg_hour bcd h24 h)) = of_nat (hour_seen h24 h)"
    using hour_roundtrip_24 [OF b(4), of bcd] hour_roundtrip_12 [OF b(4), of bcd]
    by (cases h24) (simp_all only: hour_seen_def if_True if_False simp_thms)
  have regs: "r 0 = reg_num bcd s" "r 2 = reg_num bcd mi" "r 4 = reg_hour bcd h24 h" "r 7 = reg_num bcd D"
    "r 8 = reg_num bcd M" "r 9 = reg_num bcd Y"
    using t by (simp_all add: shows_time_def)
  show ?thesis
    unfolding get_time_fields [OF c] bcd h24 regs Let_def h
    by (simp only: f b u hour_seen_def)
qed

text \<open>A clock at 00:15:30 on 31/12/2026, in BCD and the 12-hour format.\<close>

definition midnight_regs :: "u8 \<Rightarrow> u8" where
  "midnight_regs reg = (if reg = 0 then 0x30 else if reg = 2 then 0x15 else if reg = 4 then 0x12
     else if reg = 7 then 0x31 else if reg = 8 then 0x12 else if reg = 9 then 0x26 else 0)"

definition sample_cmos :: "u8 bus" where
  "sample_cmos = \<lparr>inb = (\<lambda>_ i. (midnight_regs (i AND 0x7F), i)), outb = (\<lambda>_ v _. v),
     inw = (\<lambda>_ i. (0, i)), outw = (\<lambda>_ _ i. i)\<rparr>"

lemma sample_cmos_steady: "steady_clock sample_cmos midnight_regs"
proof -
  have "midnight_regs ((reg OR 0x80) AND 0x7F) = midnight_regs reg" if "reg < 0x80" for reg
  proof -
    have "unat reg < 128" using that by (simp add: word_less_nat_alt)
    moreover have "list_all (\<lambda>n. midnight_regs ((of_nat n OR 0x80) AND 0x7F) = midnight_regs (of_nat n)) [0..<128]"
      by code_simp
    ultimately show ?thesis
      using all_below [of "\<lambda>n. midnight_regs ((of_nat n OR 0x80) AND 0x7F) = midnight_regs (of_nat n)" 128 "unat reg"]
      by simp
  qed
  moreover have "midnight_regs 0x0A AND 0x80 = 0" by (simp add: midnight_regs_def)
  ultimately show ?thesis by (simp add: steady_clock_def cmos_read_def sample_cmos_def)
qed

theorem krtc_get_time_decodes_witness:
  "fst (krtc_get_time sample_cmos (Ptr \<lparr>second = 0, minute = 0, hour = 0, day = 0, month = 0, year = 0\<rparr>) 0)
    = Ptr \<lparr>second = 30, minute = 15, hour = 12, day = 31, month = 12, year = 2026\<rparr>"
proof -
  have "shows_time midnight_regs True False 26 12 31 0 15 30"
    by (simp add: shows_time_def midnight_regs_def reg_num_def reg_hour_def bcd_of_def)
  from krtc_get_time_decodes [OF sample_cmos_steady this] show ?thesis by simp
qed

section \<open>What is printed\<close>

text \<open>The text of a date and time: \<open>DD/MM/20YY | HH:MM:SS\<close>.\<close>

definition datetime_text :: "krtc_time \<Rightarrow> u8 list" where
  "datetime_text t =
     [tens (unat (day t)), ones (unat (day t)), 47, tens (unat (month t)), ones (unat (month t)), 47, 50, 48,
      tens (unat (year t) mod 100), ones (unat (year t) mod 100), 32, 124, 32,
      tens (unat (hour t)), ones (unat (hour t)), 58, tens (unat (minute t)), ones (unat (minute t)), 58,
      tens (unat (second t)), ones (unat (second t))]"

lemma digit_nonzero: "v < 256 \<Longrightarrow> tens v \<noteq> 0" "ones v \<noteq> 0"
proof -
  show "ones v \<noteq> 0"
  proof -
    have "v mod 10 < 10" by simp
    then have "unat (ones v) = 48 + v mod 10" unfolding ones_def unat_of_nat take_bit_eq_mod by simp
    then show ?thesis by auto
  qed
  assume "v < 256"
  then have "v div 10 < 26" by simp
  then have "unat (tens v) = 48 + v div 10" unfolding tens_def unat_of_nat take_bit_eq_mod by simp
  then show "tens v \<noteq> 0" by auto
qed

lemma krtc_format_datetime_writes:
  assumes b: "length buf \<ge> 22" "max_len \<ge> 22" and junk: "length junk_d = 12" "length junk_h = 10"
  shows "krtc_format_datetime junk_d junk_h (Ptr t) (Ptr buf) max_len
    = Some (Ptr (overlay buf 0 (datetime_text t @ [0])))"
proof -
  let ?d = "[tens (unat (day t)), ones (unat (day t)), 47, tens (unat (month t)), ones (unat (month t)), 47, 50, 48,
      tens (unat (year t) mod 100), ones (unat (year t) mod 100)]"
  let ?h = "[tens (unat (hour t)), ones (unat (hour t)), 58, tens (unat (minute t)), ones (unat (minute t)), 58,
      tens (unat (second t)), ones (unat (second t))]"
  have lt: "unat (x :: u8) < 256" for x using unsigned_less [of x] by simp
  have "unat (year t) mod 100 < 100" by simp
  then have y: "unat (year t) mod 100 < 256" by linarith
  have nz: "0 \<notin> set ?d" "0 \<notin> set ?h"
    using digit_nonzero(1) [OF lt, THEN not_sym] digit_nonzero(1) [OF y, THEN not_sym]
      digit_nonzero(2) [THEN not_sym] by simp_all
  obtain rd where d: "krtc_format_date (Ptr t) (Ptr junk_d) 12 = Some (Ptr (?d @ 0 # rd))"
    using junk by (simp add: krtc_format_date_def Let_def wr_seq_overlay overlay_def del: wr_seq.simps)
  obtain rh where h: "krtc_format_time (Ptr t) (Ptr junk_h) 10 = Some (Ptr (?h @ 0 # rh))"
    using junk by (simp add: krtc_format_time_def wr_seq_overlay overlay_def del: wr_seq.simps)
  have s1: "append_text (?d @ 0 # r) buf 0 max_len = Some (overlay buf 0 ?d, 10)" for r
    using append_text_overlay [OF nz(1), of 0 max_len buf r] b by simp
  have s2: "wr_seq (overlay buf 0 ?d) 10 [32, 124, 32] = Some (overlay buf 0 (?d @ [32, 124, 32]))"
  proof -
    have "overlay (overlay buf 0 ?d) (0 + length ?d) [32, 124, 32] = overlay buf 0 (?d @ [32, 124, 32])"
      using b by (intro overlay_overlay) simp
    moreover have "0 + length ?d = 10" by simp
    ultimately show ?thesis using b by (subst wr_seq_overlay) (simp_all only: length_overlay, simp_all)
  qed
  have len: "length (overlay buf 0 (?d @ [32, 124, 32])) = length buf" using b by (intro length_overlay) simp
  have s3: "append_text (?h @ 0 # r) (overlay buf 0 (?d @ [32, 124, 32])) 13 max_len
      = Some (overlay buf 0 (?d @ [32, 124, 32] @ ?h), 21)" for r
  proof -
    have "13 + length ?h < max_len" "13 + length ?h \<le> length (overlay buf 0 (?d @ [32, 124, 32]))"
      using b unfolding len by simp_all
    note append_text_overlay [OF nz(2) this, of r]
    moreover have "overlay (overlay buf 0 (?d @ [32, 124, 32])) (0 + length (?d @ [32, 124, 32])) ?h
        = overlay buf 0 ((?d @ [32, 124, 32]) @ ?h)"
      using b by (intro overlay_overlay) simp
    moreover have "0 + length (?d @ [32, 124, 32]) = 13" "13 + length ?h = 21" by simp_all
    ultimately show ?thesis by (simp only: append_assoc)
  qed
  have s4: "wr (overlay buf 0 (?d @ [32, 124, 32] @ ?h)) 21 0 = Some (overlay buf 0 (datetime_text t @ [0]))"
  proof -
    let ?x = "?d @ [32, 124, 32] @ ?h"
    have len: "length ?x = 21" by simp
    have "wr (overlay buf 0 ?x) 21 0 = Some ((overlay buf 0 ?x)[21 := 0])"
      using b len by (intro wr_in) (simp only: length_overlay)
    also have "(overlay buf 0 ?x)[21 := 0] = overlay (overlay buf 0 ?x) (0 + length ?x) [0]"
      using b len by (subst overlay_update) (simp_all only: length_overlay add_0)
    also have "\<dots> = overlay buf 0 (?x @ [0])" using b len by (intro overlay_overlay) simp
    finally have "wr (overlay buf 0 ?x) 21 0 = Some (overlay buf 0 (?x @ [0]))" .
    moreover have x: "?x = datetime_text t" by (simp add: datetime_text_def)
    ultimately show ?thesis by (simp only: x)
  qed
  define D where "D = ?d"
  define H where "H = ?h"
  note folded = d [folded D_def H_def] h [folded D_def H_def] s1 [folded D_def H_def] s2 [folded D_def H_def]
    s3 [folded D_def H_def]
  have "10 < max_len - 3" using b by simp
  then show ?thesis
    using b s4 [folded D_def H_def]
    by (simp add: krtc_format_datetime_def folded del: wr_seq.simps append_text.simps)
qed

end
