(* ===== verification/Ksound.thy ===== *)
theory Ksound imports Kport begin

unbundle bit_operations_syntax

text \<open>
  The PC speaker \<open>freestanding/ksound.c\<close>: channel 2 of the interval timer (ports 0x42 and 0x43),
  the gate in port 0x61, and the tick at which the sound stops.  The port bus is a parameter.

  The lemmas say when a beep is switched off again.
\<close>

record ksound =
  sound_stop_tick :: u32
  sound_playing :: int

definition ksound_stop :: "'d bus \<Rightarrow> ksound \<Rightarrow> 'd \<Rightarrow> ksound \<times> 'd" where
  "ksound_stop io k d =
     (let (v, d) = inb io 0x61 d; d = outb io 0x61 (v AND 0xFC) d in (k \<lparr>sound_playing := 0\<rparr>, d))"

definition ksound_init :: "'d bus \<Rightarrow> ksound \<Rightarrow> 'd \<Rightarrow> ksound \<times> 'd" where
  "ksound_init io k d = ksound_stop io k d"

definition ksound_play :: "'d bus \<Rightarrow> u32 \<Rightarrow> ksound \<Rightarrow> 'd \<Rightarrow> ksound \<times> 'd" where
  "ksound_play io freq_hz k d =
     (if freq_hz = 0 then ksound_stop io k d
      else
        let divisor = 1193180 div freq_hz;
            d = outbs io [(0x43, 0xB6), (0x42, ucast (divisor AND 0xFF)),
                  (0x42, ucast (drop_bit 8 divisor AND 0xFF))] d;
            (tmp, d) = inb io 0x61 d;
            d = (if tmp AND 3 \<noteq> 3 then outb io 0x61 (tmp OR 3) d else d)
        in (k \<lparr>sound_playing := 1\<rparr>, d))"

definition ksound_beep :: "'d bus \<Rightarrow> u32 \<Rightarrow> u32 \<Rightarrow> u32 \<Rightarrow> ksound \<Rightarrow> 'd \<Rightarrow> ksound \<times> 'd" where
  "ksound_beep io freq_hz duration_ticks current_tick k d =
     (let (k, d) = ksound_play io freq_hz k d
      in (k \<lparr>sound_stop_tick := current_tick + duration_ticks\<rparr>, d))"

definition ksound_update :: "'d bus \<Rightarrow> u32 \<Rightarrow> ksound \<Rightarrow> 'd \<Rightarrow> ksound \<times> 'd" where
  "ksound_update io current_tick k d =
     (if sound_playing k \<noteq> 0 \<and> sound_stop_tick k > 0 \<and> current_tick \<ge> sound_stop_tick k
      then let (k, d) = ksound_stop io k d in (k \<lparr>sound_stop_tick := 0\<rparr>, d)
      else (k, d))"

lemma beep_state:
  "fst (ksound_beep io f dur t k d) = \<lparr>sound_stop_tick = t + dur, sound_playing = (if f = 0 then 0 else 1)\<rparr>"
  by (simp add: ksound_beep_def ksound_play_def ksound_stop_def Let_def split: prod.splits)

text \<open>
  A beep whose end does not wrap around goes on until exactly its last tick.  One whose end is tick
  0 is never switched off.
\<close>

lemma beep_stops:
  assumes "f \<noteq> 0" "0 < dur" "unat t + unat dur < 2 ^ 32" "k = fst (ksound_beep io f dur t k0 d0)" "t \<le> now"
  shows "sound_playing (fst (ksound_update io now k d)) = (if now < t + dur then 1 else 0)"
proof -
  have "unat (t + dur) = unat t + unat dur" using assms(3) by (simp add: unat_word_ariths)
  moreover have "unat dur \<noteq> 0" using assms(2) by (metis unat_eq_zero word_neq_0_conv)
  ultimately have "t + dur \<noteq> 0" by (metis add_is_0 unat_0)
  then have "0 < t + dur" by (simp add: word_neq_0_conv)
  then show ?thesis
    using assms(1) unfolding assms(4) beep_state
    by (auto simp: ksound_update_def ksound_stop_def beep_state Let_def split: prod.splits)
qed

lemma beep_at_zero_never_stops:
  assumes "f \<noteq> 0" "t + dur = 0" "k = fst (ksound_beep io f dur t k0 d0)"
  shows "ksound_update io now k d = (k, d)"
  using assms by (simp add: ksound_update_def beep_state)

end
