(* ===== verification/Kfixed.thy ===== *)
theory Kfixed imports Prelude begin

text \<open>
  The 16.16 fixed-point arithmetic of \<open>freestanding/kfixed.c\<close>.  A \<open>fp32_t\<close> is an \<^typ>\<open>int\<close> in
  the range of \<open>int32_t\<close>; products and quotients go through 64 bits and are cut to 32 bits; a signed
  right shift is the floor division the supported compilers make it, a left shift a multiplication.

  The lemmas bound the Newton iteration of the square root, and show that the range reduction of the
  sine ends and that no step of it overflows.
\<close>

definition FP32_SHIFT :: nat where "FP32_SHIFT = 16"
definition FP32_ONE :: int where "FP32_ONE = 2 ^ FP32_SHIFT"
definition FP32_HALF :: int where "FP32_HALF = 2 ^ (FP32_SHIFT - 1)"

definition fp32_from_int :: "int \<Rightarrow> int option" where
  "fp32_from_int i = ck32 (i * 2 ^ FP32_SHIFT)"

definition fp32_to_int :: "int \<Rightarrow> int" where
  "fp32_to_int fp = fp div 2 ^ FP32_SHIFT"

definition fp32_add :: "int \<Rightarrow> int \<Rightarrow> int option" where
  "fp32_add a b = ck32 (a + b)"

definition fp32_sub :: "int \<Rightarrow> int \<Rightarrow> int option" where
  "fp32_sub a b = ck32 (a - b)"

definition fp32_mul :: "int \<Rightarrow> int \<Rightarrow> int" where
  "fp32_mul a b = wrap32 (a * b div 2 ^ FP32_SHIFT)"

definition fp32_div :: "int \<Rightarrow> int \<Rightarrow> int" where
  "fp32_div a b = (if b = 0 then 0 else wrap32 (cdiv (a * 2 ^ FP32_SHIFT) b))"

definition fp32_abs :: "int \<Rightarrow> int option" where
  "fp32_abs a = (if a < 0 then ck32 (- a) else Some a)"

fun sqrt_loop :: "nat \<Rightarrow> int \<Rightarrow> int \<Rightarrow> int option" where
  "sqrt_loop 0 a root = Some root"
| "sqrt_loop (Suc i) a root = do {
     s \<leftarrow> ck32 (root + fp32_div a root);
     sqrt_loop i a (s div 2)}"

definition fp32_sqrt :: "int \<Rightarrow> int option" where
  "fp32_sqrt a = (if a \<le> 0 then Some 0 else sqrt_loop 8 a a)"

text \<open>The two loops of the range reduction.\<close>

function reduce_down :: "int \<Rightarrow> int option" where
  "reduce_down rad = (if rad > 205887 then ck32 (rad - 411774) \<bind> reduce_down else Some rad)"
  by pat_completeness auto
termination by (relation "measure nat") (auto simp: ck32_def split: if_splits)

function reduce_up :: "int \<Rightarrow> int option" where
  "reduce_up rad = (if rad < - 205887 then ck32 (rad + 411774) \<bind> reduce_up else Some rad)"
  by pat_completeness auto
termination by (relation "measure (\<lambda>rad. nat (- rad))") (auto simp: ck32_def split: if_splits)

declare reduce_down.simps [simp del] reduce_up.simps [simp del]

definition fp32_sin :: "int \<Rightarrow> int option" where
  "fp32_sin rad = do {
     rad \<leftarrow> reduce_down rad;
     rad \<leftarrow> reduce_up rad;
     let x2 = fp32_mul rad rad;
     let x3 = fp32_mul rad x2;
     let x5 = fp32_mul x3 x2;
     six \<leftarrow> fp32_from_int 6;
     let term3 = fp32_div x3 six;
     c120 \<leftarrow> fp32_from_int 120;
     let term5 = fp32_div x5 c120;
     s \<leftarrow> fp32_add rad term5;
     fp32_sub s term3}"

definition fp32_cos :: "int \<Rightarrow> int option" where
  "fp32_cos rad = ck32 (rad + 102943) \<bind> fp32_sin"

section \<open>Printing\<close>

text \<open>\<open>while (n > 0) { temp[temp_pos++] = '0' + (n % 10); n /= 10; }\<close>\<close>

function int_digits :: "u8 list \<Rightarrow> nat \<Rightarrow> int \<Rightarrow> (u8 list \<times> nat) option" where
  "int_digits temp pos n =
     (if n > 0 then do {
        temp \<leftarrow> wr temp pos (of_int (48 + n mod 10));
        int_digits temp (pos + 1) (n div 10)}
      else Some (temp, pos))"
  by pat_completeness auto
termination by (relation "measure (\<lambda>(temp, pos, n). nat n)") (auto simp: wr_def split: if_splits)

declare int_digits.simps [simp del]

text \<open>\<open>for (i = temp_pos - 1; i >= 0 && pos < max_len - 1; i--) buf[pos++] = temp[i]\<close>\<close>

fun emit_digits :: "u8 list \<Rightarrow> nat \<Rightarrow> u8 list \<Rightarrow> nat \<Rightarrow> nat \<Rightarrow> (u8 list \<times> nat) option" where
  "emit_digits temp 0 buf pos max_len = Some (buf, pos)"
| "emit_digits temp (Suc i) buf pos max_len =
     (if pos < max_len - 1 then do {
        c \<leftarrow> rd temp i;
        buf \<leftarrow> wr buf pos c;
        emit_digits temp i buf (pos + 1) max_len}
      else Some (buf, pos))"

text \<open>The loop over the decimals; \<open>frac\<close> is below \<open>2 ^ 16\<close>, so ten times it does not wrap.\<close>

fun emit_frac :: "nat \<Rightarrow> nat \<Rightarrow> u8 list \<Rightarrow> nat \<Rightarrow> nat \<Rightarrow> (u8 list \<times> nat) option" where
  "emit_frac 0 frac buf pos max_len = Some (buf, pos)"
| "emit_frac (Suc i) frac buf pos max_len =
     (if pos < max_len - 1 then do {
        let frac = (frac * 10) mod 2 ^ 32;
        let digit = frac div 2 ^ FP32_SHIFT;
        buf \<leftarrow> wr buf pos (of_nat (48 + digit mod 10));
        emit_frac i (frac mod 2 ^ FP32_SHIFT) buf (pos + 1) max_len}
      else Some (buf, pos))"

text \<open>\<open>junk\<close> is the uninitialised \<open>temp[16]\<close>.\<close>

definition fp32_to_str :: "u8 list \<Rightarrow> int \<Rightarrow> u8 list \<Rightarrow> nat \<Rightarrow> int \<Rightarrow> (u8 list \<times> nat) option" where
  "fp32_to_str junk fp buf max_len decimals =
     (if max_len < 10 then Some (buf, 0)
      else do {
        (buf, pos, fp) \<leftarrow> (if fp < 0 then do {
            buf \<leftarrow> wr buf 0 45;
            fp \<leftarrow> ck32 (- fp);
            Some (buf, 1, fp)} else Some (buf, 0, fp));
        let int_part = fp32_to_int fp;
        let frac_part = nat (fp mod FP32_ONE);
        (temp, temp_pos) \<leftarrow> (if int_part = 0 then do {temp \<leftarrow> wr junk 0 48; Some (temp, 1)}
            else int_digits junk 0 int_part);
        (buf, pos) \<leftarrow> emit_digits temp temp_pos buf pos max_len;
        (buf, pos) \<leftarrow> (if decimals > 0 \<and> pos < max_len - 2 then do {
            buf \<leftarrow> wr buf pos 46;
            emit_frac (nat decimals) frac_part buf (pos + 1) max_len} else Some (buf, pos));
        buf \<leftarrow> wr buf pos 0;
        Some (buf, pos)})"

section \<open>The square root\<close>

text \<open>One Newton step never falls below the root, and halves the distance to it.\<close>

lemma div_lt: "0 < s \<Longrightarrow> n < k * s \<Longrightarrow> n div s < (k :: int)"
proof (rule ccontr)
  assume a: "0 < s" "n < k * s" "\<not> n div s < k"
  then have "k * s \<le> n div s * s" by (intro mult_right_mono) simp_all
  moreover have "n div s * s \<le> n" using pos_mod_sign [OF a(1), of n] div_mult_mod_eq [of n s] by linarith
  ultimately show False using a(2) by simp
qed

lemma newton_ge:
  fixes r s n :: int
  assumes "0 < r" "s * s \<le> n"
  shows "s \<le> (r + n div r) div 2"
proof -
  let ?q = "n div r"
  have "n < r * (?q + 1)"
    using pos_mod_bound [OF assms(1), of n] mult_div_mod_eq [of r n] unfolding distrib_left by linarith
  then have lt: "s * s < r * (?q + 1)" using assms(2) by simp
  have "2 * s \<le> r + ?q"
  proof (rule ccontr)
    assume "\<not> ?thesis"
    then have "?q + 1 \<le> 2 * s - r" by simp
    then have "r * (?q + 1) \<le> r * (2 * s - r)" using assms(1) by (intro mult_left_mono) simp_all
    with lt have "s * s < r * (2 * s - r)" by simp
    then have "(s - r) * (s - r) < 0" by (simp add: algebra_simps)
    then show False using zero_le_square [of "s - r"] by linarith
  qed
  then show ?thesis by simp
qed

lemma newton_le:
  fixes r s n :: int
  assumes "0 < s" "s \<le> r" "n < (s + 1) * (s + 1)"
  shows "(r + n div r) div 2 - s \<le> max 1 ((r - s) div 2)"
proof (cases "r = s")
  case True
  have "n < (s + 3) * s \<or> s < 1" using assms(1,3) by (simp add: algebra_simps)
  then have "n < (s + 3) * s" using assms(1) by simp
  then have "n div s < s + 3" using assms(1) by (intro div_lt) simp_all
  then show ?thesis using True by simp
next
  case False
  then have "s + 1 \<le> r" using assms(2) by simp
  then have "(s + 1) * (s + 1) \<le> (s + 1) * r" using assms(1) by (intro mult_left_mono) simp_all
  then have "n < (s + 1) * r" using assms(3) by simp
  then have "n div r < s + 1" using assms(1,2) by (intro div_lt) simp_all
  then have "n div r \<le> s" by simp
  then have "(r + n div r) div 2 \<le> (r + s) div 2" by (intro zdiv_mono1) simp_all
  moreover have "(r + s) div 2 - s = (r - s) div 2"
    using div_mult_self1 [of 2 "r - s" s] by (simp add: algebra_simps)
  ultimately show ?thesis by simp
qed

lemma sqrt_step:
  assumes "0 < a" "a < 2 ^ 31" "0 < r" "r < 2 ^ 31" "a * 65536 div r < 2 ^ 31 - r"
  shows "ck32 (r + fp32_div a r) = Some (r + a * 65536 div r)"
proof -
  have "0 \<le> a * 65536 div r" using assms(1,3) by (simp add: pos_imp_zdiv_nonneg_iff)
  moreover have "cdiv (a * 65536) r = a * 65536 div r" using assms by (intro cdiv_nonneg) simp_all
  ultimately show ?thesis
    using assms by (simp add: fp32_div_def FP32_SHIFT_def ck32_def in_i32_def wrap32_in)
qed

lemma sqrt_loop_bounds:
  fixes s :: int
  assumes s: "256 \<le> s" "s * s \<le> a * 65536" "a * 65536 < (s + 1) * (s + 1)" and a: "0 < a" "a < 2 ^ 31"
    and "s \<le> r" "r < 2 ^ 30" and s24: "s < 2 ^ 24"
  shows "\<exists>r'. sqrt_loop k a r = Some r' \<and> s \<le> r' \<and> r' - s \<le> max 1 ((r - s) div 2 ^ k)"
  using assms(6,7)
proof (induction k arbitrary: r)
  case (Suc k)
  let ?q = "a * 65536 div r"
  let ?r = "(r + ?q) div 2"
  have r: "0 < r" using Suc.prems s(1) by simp
  have q: "?q \<le> s + 2"
  proof -
    have "(s + 1) * (s + 1) \<le> (s + 3) * s" using s(1) by (simp add: algebra_simps)
    also have "\<dots> \<le> (s + 3) * r" using Suc.prems(1) s(1) by (intro mult_left_mono) simp_all
    finally have "a * 65536 < (s + 3) * r" using s(3) by simp
    from div_lt [OF r this] show ?thesis by simp
  qed
  have ge: "s \<le> ?r" by (rule newton_ge [OF r s(2)])
  have le: "?r - s \<le> max 1 ((r - s) div 2)" using newton_le [OF _ Suc.prems(1) s(3)] s(1) by simp
  have small: "?r < 2 ^ 30" using q Suc.prems s24 by simp
  have step: "ck32 (r + fp32_div a r) = Some (r + ?q)"
    using q Suc.prems s24 by (intro sqrt_step [OF a r]) simp_all
  obtain r' where r': "sqrt_loop k a ?r = Some r'" "s \<le> r'" "r' - s \<le> max 1 ((?r - s) div 2 ^ k)"
    using Suc.IH [OF ge small] by blast
  have "(?r - s) div 2 ^ k \<le> max 1 ((r - s) div 2 ^ Suc k)"
  proof (cases "?r - s \<le> 1")
    case True
    then have "(?r - s) div 2 ^ k \<le> 1 div 2 ^ k" by (intro zdiv_mono1) simp_all
    also have "\<dots> \<le> 1" using zdiv_mono2 [of 1 1 "2 ^ k"] by simp
    finally show ?thesis by simp
  next
    case False
    then have "?r - s \<le> (r - s) div 2" using le by simp
    then have "(?r - s) div 2 ^ k \<le> (r - s) div 2 div 2 ^ k" by (intro zdiv_mono1) simp_all
    also have "\<dots> = (r - s) div 2 ^ Suc k" by (simp add: zdiv_zmult2_eq)
    finally show ?thesis by simp
  qed
  then show ?case using r' step by (intro exI [of _ r']) simp
qed simp

text \<open>
  C23: the square root of a positive number below 32767 does not overflow; the result is never below
  the true root, and the eight Newton steps, the first of which starts from the number itself, bring
  it within one unit or a 128th of the distance the first step leaves.
\<close>
theorem fp32_sqrt_bounds:
  assumes a: "0 < a" "a < 32767 * FP32_ONE"
    and s: "0 \<le> s" "s * s \<le> a * FP32_ONE" "a * FP32_ONE < (s + 1) * (s + 1)"
  shows "\<exists>r. fp32_sqrt a = Some r \<and> s \<le> r \<and> r - s \<le> max 1 (((a + FP32_ONE) div 2 - s) div 128)"
proof -
  have one: "FP32_ONE = 65536" by (simp add: FP32_ONE_def FP32_SHIFT_def)
  note a = a [unfolded one] and s = s [unfolded one]
  have a31: "a < 2 ^ 31" using a by simp
  have s256: "256 \<le> s"
  proof (rule ccontr)
    assume "\<not> 256 \<le> s"
    then have "(s + 1) * (s + 1) \<le> 256 * 256" using s(1) by (intro mult_mono) simp_all
    then show False using s(3) a(1) by simp
  qed
  have s24: "s < 2 ^ 24"
  proof (rule ccontr)
    assume "\<not> s < 2 ^ 24"
    then have "2 ^ 24 * 2 ^ 24 \<le> s * s" by (intro mult_mono) simp_all
    then show False using s(2) a31 by simp
  qed
  let ?r = "(a + a * 65536 div a) div 2"
  have d: "a * 65536 div a = 65536" using a(1) by simp
  have ge: "s \<le> ?r" by (rule newton_ge [OF a(1) s(2)])
  have small: "?r < 2 ^ 30" using a unfolding d by simp
  obtain r where r: "sqrt_loop 7 a ?r = Some r" "s \<le> r" "r - s \<le> max 1 ((?r - s) div 2 ^ 7)"
    using sqrt_loop_bounds [OF s256 s(2,3) a(1) a31 ge small s24, of 7] by blast
  have "ck32 (a + fp32_div a a) = Some (a + 65536)"
    using sqrt_step [OF a(1) a31 a(1) a31] a unfolding d by simp
  moreover have "sqrt_loop (Suc 7) a a = do {s \<leftarrow> ck32 (a + fp32_div a a); sqrt_loop 7 a (s div 2)}"
    by (rule sqrt_loop.simps)
  moreover have "Suc 7 = 8" by simp
  ultimately have "fp32_sqrt a = sqrt_loop 7 a ?r"
    unfolding fp32_sqrt_def d using a(1) by simp
  then show ?thesis using r unfolding d one by simp
qed

theorem fp32_sqrt_bounds_witness:
  "\<exists>r. fp32_sqrt 131072 = Some r \<and> 92681 \<le> r \<and> r - 92681 \<le> max 1 (((131072 + FP32_ONE) div 2 - 92681) div 128)"
  by (rule fp32_sqrt_bounds) (simp_all add: FP32_ONE_def FP32_SHIFT_def)

section \<open>The sine\<close>

lemma reduce_down_ok:
  "in_i32 x \<Longrightarrow> \<exists>y. reduce_down x = Some y \<and> y \<le> 205887 \<and> in_i32 y \<and> (y < - 205887 \<longrightarrow> y = x)"
proof (induction x rule: reduce_down.induct)
  case (1 x)
  show ?case
  proof (cases "x > 205887")
    case True
    then have i: "in_i32 (x - 411774)" using 1(2) by (simp add: in_i32_def)
    then obtain y where "reduce_down (x - 411774) = Some y" "y \<le> 205887" "in_i32 y"
      "y < - 205887 \<longrightarrow> y = x - 411774"
      using 1(1) [OF True, of "x - 411774"] by auto
    then show ?thesis using True i by (subst reduce_down.simps) auto
  next
    case False
    then show ?thesis using 1(2) by (subst reduce_down.simps) auto
  qed
qed

lemma reduce_up_ok:
  "in_i32 x \<Longrightarrow> x \<le> 205887 \<Longrightarrow> \<exists>y. reduce_up x = Some y \<and> \<bar>y\<bar> \<le> 205887 \<and> (y - x) mod 411774 = 0"
proof (induction x rule: reduce_up.induct)
  case (1 x)
  show ?case
  proof (cases "x < - 205887")
    case True
    then have i: "in_i32 (x + 411774)" using 1(2) by (simp add: in_i32_def)
    then obtain y where y: "reduce_up (x + 411774) = Some y" "\<bar>y\<bar> \<le> 205887" "(y - (x + 411774)) mod 411774 = 0"
      using 1(1) [OF True, of "x + 411774"] True by auto
    have "(y - x) mod 411774 = (y - (x + 411774) + 411774) mod 411774" by simp
    also have "\<dots> = 0" using y(3) by (simp only: mod_add_self2)
    finally show ?thesis using y(1,2) True i by (subst reduce_up.simps) auto
  next
    case False
    then show ?thesis using 1(2,3) by (subst reduce_up.simps) auto
  qed
qed

lemma mul_bound:
  assumes "\<bar>a\<bar> \<le> m" "\<bar>b\<bar> \<le> n" "m * n \<le> k * 65536" "k < 2 ^ 31"
  shows "\<bar>fp32_mul a b\<bar> \<le> k" "0 \<le> a * b \<Longrightarrow> 0 \<le> fp32_mul a b"
proof -
  have "\<bar>a * b\<bar> \<le> m * n" unfolding abs_mult using assms(1,2) by (intro mult_mono) simp_all
  then have ab: "\<bar>a * b\<bar> \<le> k * 65536" using assms(3) by simp
  then have "a * b div 65536 \<le> k * 65536 div 65536" "- k * 65536 div 65536 \<le> a * b div 65536"
    by (intro zdiv_mono1; simp)+
  then have b: "\<bar>a * b div 65536\<bar> \<le> k" by simp
  then have "in_i32 (a * b div 65536)" using assms(4) by (simp add: in_i32_def abs_le_iff)
  then have e: "fp32_mul a b = a * b div 65536" by (simp add: fp32_mul_def FP32_SHIFT_def)
  show "\<bar>fp32_mul a b\<bar> \<le> k" unfolding e by (rule b)
  show "0 \<le> a * b \<Longrightarrow> 0 \<le> fp32_mul a b" unfolding e by simp
qed

lemma div_bound:
  assumes "\<bar>a\<bar> \<le> k" "k < 2 ^ 31" "1 \<le> c"
  shows "\<bar>fp32_div a (c * 65536)\<bar> \<le> k"
proof -
  have "cdiv (a * 65536) (c * 65536) = sgn a * (\<bar>a\<bar> div c)"
    using assms(3) by (simp add: cdiv_def sgn_mult abs_mult)
  moreover have "\<bar>a\<bar> div c \<le> \<bar>a\<bar>" using zdiv_mono2 [of "\<bar>a\<bar>" 1 c] assms(3) by simp
  moreover have "0 \<le> \<bar>a\<bar> div c" using assms(3) by (simp add: pos_imp_zdiv_nonneg_iff)
  ultimately have "\<bar>cdiv (a * 65536) (c * 65536)\<bar> \<le> k"
    using assms(1) by (cases "a = 0") (simp_all add: abs_mult abs_sgn_eq)
  moreover then have "in_i32 (cdiv (a * 65536) (c * 65536))" using assms(2) by (simp add: in_i32_def abs_le_iff)
  ultimately show ?thesis using assms(3) by (simp add: fp32_div_def FP32_SHIFT_def)
qed

text \<open>The sine of every \<open>fp32_t\<close> has a value: the range reduction ends and no sum overflows.\<close>

lemma fp32_sin_total:
  assumes "in_i32 rad"
  shows "\<exists>r. fp32_sin rad = Some r"
proof -
  obtain y where y: "reduce_down rad = Some y" "y \<le> 205887" "in_i32 y" using reduce_down_ok [OF assms] by blast
  obtain x where x: "reduce_up y = Some x" "\<bar>x\<bar> \<le> 205887" using reduce_up_ok [OF y(3,2)] by blast
  have x2: "\<bar>fp32_mul x x\<bar> \<le> 646816" by (rule mul_bound [OF x(2) x(2)]) simp_all
  have x3: "\<bar>fp32_mul x (fp32_mul x x)\<bar> \<le> 2032034" by (rule mul_bound [OF x(2) x2]) simp_all
  have x5: "\<bar>fp32_mul (fp32_mul x (fp32_mul x x)) (fp32_mul x x)\<bar> \<le> 20055603" by (rule mul_bound [OF x3 x2]) simp_all
  have t3: "\<bar>fp32_div (fp32_mul x (fp32_mul x x)) 393216\<bar> \<le> 2032034"
    using div_bound [OF x3, of 6] by simp
  have t5: "\<bar>fp32_div (fp32_mul (fp32_mul x (fp32_mul x x)) (fp32_mul x x)) 7864320\<bar> \<le> 20055603"
    using div_bound [OF x5, of 120] by simp
  have c: "fp32_from_int 6 = Some 393216" "fp32_from_int 120 = Some 7864320"
    by (simp_all add: fp32_from_int_def FP32_SHIFT_def ck32_def in_i32_def)
  have add: "fp32_add x b = Some (x + b)" if "\<bar>b\<bar> \<le> 20055603" for b
    using that x(2) by (simp add: fp32_add_def ck32_def in_i32_def abs_le_iff)
  have sub: "fp32_sub (x + b) a = Some (x + b - a)" if "\<bar>b\<bar> \<le> 20055603" "\<bar>a\<bar> \<le> 2032034" for a b
    using that x(2) by (simp add: fp32_sub_def ck32_def in_i32_def abs_le_iff)
  show ?thesis
    by (simp add: fp32_sin_def y(1) x(1) c Let_def add [OF t5] sub [OF t5 t3])
qed

text \<open>The cosine adds to its argument first, and that sum overflows near the top of the range.\<close>

lemma fp32_cos_overflows: "in_i32 rad \<Longrightarrow> fp32_cos rad = None \<longleftrightarrow> 2 ^ 31 - 102943 \<le> rad"
  using fp32_sin_total [of "rad + 102943"] by (auto simp: fp32_cos_def ck32_def in_i32_def)

end
