(* ===== verification/Kbmp.thy ===== *)
theory Kbmp imports Kgfx begin

unbundle bit_operations_syntax

text \<open>
  The bitmap renderer \<open>freestanding/kbmp.c\<close>.  The file is the list of bytes behind \<open>bmp_data\<close>; the
  packed header is read at its byte offsets, and every read outside the list has no value.

  The lemmas say that a file as long as its header promises is rendered without a fault, and that
  the length the caller passes protects only the header.
\<close>

definition read16 :: "u8 list \<Rightarrow> nat \<Rightarrow> u16 option" where
  "read16 b i = do {lo \<leftarrow> rd b i; hi \<leftarrow> rd b (i + 1); Some (ucast lo OR push_bit 8 (ucast hi))}"

definition read32 :: "u8 list \<Rightarrow> nat \<Rightarrow> u32 option" where
  "read32 b i = do {lo \<leftarrow> read16 b i; hi \<leftarrow> read16 b (i + 2); Some (ucast lo OR push_bit 16 (ucast hi))}"

record kbmp_header =
  bmp_type :: u16
  bmp_offset :: u32
  bmp_width :: int
  bmp_height :: int
  bmp_bpp :: u16

text \<open>The fields the code reads, at their offsets in the 54-byte header.\<close>

definition read_header :: "u8 list \<Rightarrow> kbmp_header option" where
  "read_header b = do {
     t \<leftarrow> read16 b 0;
     off \<leftarrow> read32 b 10;
     w \<leftarrow> read32 b 18;
     h \<leftarrow> read32 b 22;
     n \<leftarrow> read16 b 28;
     Some \<lparr>bmp_type = t, bmp_offset = off, bmp_width = sint w, bmp_height = sint h, bmp_bpp = n\<rparr>}"

definition bmp_pixel :: "u8 list \<Rightarrow> nat \<Rightarrow> int \<Rightarrow> int \<Rightarrow> u32 option" where
  "bmp_pixel b row x bpp =
     (if bpp = 24 then do {
        let i = row + nat (x * 3);
        bl \<leftarrow> rd b i; g \<leftarrow> rd b (i + 1); r \<leftarrow> rd b (i + 2);
        Some (0xFF000000 OR push_bit 16 (ucast r) OR push_bit 8 (ucast g) OR ucast bl)}
      else if bpp = 32 then do {
        let i = row + nat (x * 4);
        bl \<leftarrow> rd b i; g \<leftarrow> rd b (i + 1); r \<leftarrow> rd b (i + 2); a \<leftarrow> rd b (i + 3);
        Some (push_bit 24 (ucast a) OR push_bit 16 (ucast r) OR push_bit 8 (ucast g) OR ucast bl)}
      else Some 0)"

definition bmp_row ::
  "u8 list \<Rightarrow> nat \<Rightarrow> int \<Rightarrow> int \<Rightarrow> int \<Rightarrow> int \<Rightarrow> int \<Rightarrow> kgfx_fb cptr \<Rightarrow> kgfx_fb cptr option" where
  "bmp_row b row w bpp dest_x dest_y y fb =
     for_range 0 w (\<lambda>x fb. do {
       color \<leftarrow> bmp_pixel b row x bpp;
       px \<leftarrow> ck32 (dest_x + x);
       py \<leftarrow> ck32 (dest_y + y);
       kgfx_draw_pixel fb px py color}) fb"

definition kbmp_render ::
  "kgfx_fb cptr \<Rightarrow> int \<Rightarrow> int \<Rightarrow> u8 list cptr \<Rightarrow> nat \<Rightarrow> (int \<times> kgfx_fb cptr) option" where
  "kbmp_render fb dest_x dest_y bmp_data data_len =
     (case (fb, bmp_data) of
        (Ptr _, Ptr b) \<Rightarrow>
          if data_len < 54 then Some (- 1, fb)
          else do {
            hdr \<leftarrow> read_header b;
            let w = bmp_width hdr;
            let h = bmp_height hdr;
            let bpp = uint (bmp_bpp hdr);
            if bmp_type hdr \<noteq> 0x4D42 then Some (- 1, fb)
            else if w \<le> 0 \<or> h = 0 \<or> (bpp \<noteq> 24 \<and> bpp \<noteq> 32) then Some (- 1, fb)
            else do {
              let is_bottom_up = (h \<ge> 0);
              h \<leftarrow> (if h < 0 then ck32 (- h) else Some h);
              s \<leftarrow> ck32 (w * (bpp div 8));
              s \<leftarrow> ck32 (s + 3);
              let row_stride = s div 4 * 4;
              fb \<leftarrow> for_range 0 h (\<lambda>y fb. do {
                let src_y = (if is_bottom_up then h - 1 - y else y);
                off \<leftarrow> ck32 (src_y * row_stride);
                bmp_row b (unat (bmp_offset hdr) + nat off) w bpp dest_x dest_y y fb}) fb;
              Some (0, fb)}}
      | _ \<Rightarrow> Some (- 1, fb))"

section \<open>Faults\<close>

lemma bmp_pixel_ok:
  assumes "bpp = 24 \<or> bpp = 32" "0 \<le> x" "row + nat ((x + 1) * (bpp div 8)) \<le> length b"
  shows "\<exists>c. bmp_pixel b row x bpp = Some c"
proof -
  have "nat ((x + 1) * 3) = nat (x * 3) + 3" "nat ((x + 1) * 4) = nat (x * 4) + 4"
    using assms(2) by simp_all
  then show ?thesis using assms(1,3) by (auto simp: bmp_pixel_def Let_def)
qed

lemma bmp_row_ok:
  assumes "fb_ok f" "bpp = 24 \<or> bpp = 32" "0 < w" "row + nat (w * (bpp div 8)) \<le> length b"
    and "in_i32 (dest_y + y)" "in_i32 dest_x" "in_i32 (dest_x + w)"
  shows "\<exists>g. bmp_row b row w bpp dest_x dest_y y (Ptr f) = Some (Ptr g) \<and> fb_ok g"
proof -
  let ?Q = "\<lambda>i s. \<exists>g. s = Ptr g \<and> fb_ok g"
  have "\<exists>s'. bmp_row b row w bpp dest_x dest_y y (Ptr f) = Some s' \<and> ?Q w s'"
    unfolding bmp_row_def
  proof (rule for_range_inv)
    show "?Q 0 (Ptr f)" using assms(1) by simp
    show "0 \<le> w" using assms(3) by simp
    show "\<forall>i s. 0 \<le> i \<and> i < w \<and> ?Q i s \<longrightarrow> (\<exists>s'. (do {color \<leftarrow> bmp_pixel b row i bpp;
       px \<leftarrow> ck32 (dest_x + i); py \<leftarrow> ck32 (dest_y + y); kgfx_draw_pixel s px py color}) = Some s' \<and> ?Q (i + 1) s')"
    proof (intro allI impI)
      fix i s
      assume a: "0 \<le> i \<and> i < w \<and> ?Q i s"
      then obtain g where g: "s = Ptr g" "fb_ok g" by blast
      have "(i + 1) * (bpp div 8) \<le> w * (bpp div 8)" using a assms(2) by (intro mult_right_mono) auto
      then have "row + nat ((i + 1) * (bpp div 8)) \<le> length b" using assms(4) by linarith
      then obtain c where c: "bmp_pixel b row i bpp = Some c" using bmp_pixel_ok [OF assms(2)] a by blast
      have x: "in_i32 (dest_x + i)" using a assms(6,7) by (simp add: in_i32_def)
      obtain h where "kgfx_draw_pixel (Ptr g) (dest_x + i) (dest_y + y) c = Some (Ptr h)"
        "paints g (\<lambda>u v. u = dest_x + i \<and> v = dest_y + y) c h"
        using draw_pixel_paints [OF g(2) x assms(5)] by blast
      then show "\<exists>s'. (do {color \<leftarrow> bmp_pixel b row i bpp;
         px \<leftarrow> ck32 (dest_x + i); py \<leftarrow> ck32 (dest_y + y); kgfx_draw_pixel s px py color}) = Some s' \<and> ?Q (i + 1) s'"
        using c x assms(5) g paints_ok [OF _ g(2)] by auto
    qed
  qed
  then show ?thesis by blast
qed

text \<open>The bytes of one row, padded to a multiple of four.\<close>

definition bmp_stride :: "kbmp_header \<Rightarrow> int" where
  "bmp_stride hdr = (bmp_width hdr * (uint (bmp_bpp hdr) div 8) + 3) div 4 * 4"

definition bmp_valid :: "kbmp_header \<Rightarrow> nat \<Rightarrow> bool" where
  "bmp_valid hdr len \<longleftrightarrow> bmp_type hdr = 0x4D42 \<and> 0 < bmp_width hdr \<and> bmp_height hdr \<noteq> 0
     \<and> bmp_bpp hdr \<in> {24, 32} \<and> bmp_width hdr * (uint (bmp_bpp hdr) div 8) + 3 < 2 ^ 31
     \<and> \<bar>bmp_height hdr\<bar> * bmp_stride hdr < 2 ^ 31
     \<and> int (unat (bmp_offset hdr)) + \<bar>bmp_height hdr\<bar> * bmp_stride hdr \<le> int len"

lemma bmp_row_inside:
  assumes v: "bmp_valid hdr len" and y: "0 \<le> y" "y < \<bar>bmp_height hdr\<bar>"
  shows "in_i32 (y * bmp_stride hdr)"
    and "unat (bmp_offset hdr) + nat (y * bmp_stride hdr) + nat (bmp_width hdr * (uint (bmp_bpp hdr) div 8)) \<le> len"
proof -
  let ?s = "bmp_stride hdr" and ?n = "bmp_width hdr * (uint (bmp_bpp hdr) div 8)"
  have n: "0 \<le> ?n" using v by (auto simp: bmp_valid_def)
  then have s: "?n \<le> ?s" "0 \<le> ?s" by (simp_all add: bmp_stride_def)
  have "(y + 1) * ?s \<le> \<bar>bmp_height hdr\<bar> * ?s" using y s by (intro mult_right_mono) simp_all
  then have le: "y * ?s + ?s \<le> \<bar>bmp_height hdr\<bar> * ?s" by (simp add: distrib_right)
  have p: "0 \<le> y * ?s" using y s by simp
  have lim: "\<bar>bmp_height hdr\<bar> * ?s < 2 ^ 31" "int (unat (bmp_offset hdr)) + \<bar>bmp_height hdr\<bar> * ?s \<le> int len"
    using v unfolding bmp_valid_def by blast+
  show "in_i32 (y * ?s)" unfolding in_i32_def using p le s lim(1) by linarith
  show "unat (bmp_offset hdr) + nat (y * ?s) + nat ?n \<le> len" using p le s lim(2) n by linarith
qed

text \<open>A file as long as its header promises is rendered without a fault.\<close>

lemma kbmp_render_ok:
  assumes f: "fb_ok f" and hdr: "read_header b = Some hdr" and v: "bmp_valid hdr (length b)"
    and len: "54 \<le> data_len" and x: "in_i32 dest_x" "in_i32 (dest_x + bmp_width hdr)"
    and y: "in_i32 dest_y" "in_i32 (dest_y + \<bar>bmp_height hdr\<bar>)"
  shows "\<exists>g. kbmp_render (Ptr f) dest_x dest_y (Ptr b) data_len = Some (0, Ptr g) \<and> fb_ok g"
proof -
  let ?w = "bmp_width hdr" and ?bpp = "uint (bmp_bpp hdr)"
  define H where "H = \<bar>bmp_height hdr\<bar>"
  have bpp: "?bpp = 24 \<or> ?bpp = 32" using v by (auto simp: bmp_valid_def)
  have w: "0 < ?w" "0 < H" using v by (simp_all add: bmp_valid_def H_def)
  have s1: "0 \<le> ?w * (?bpp div 8)" "?w * (?bpp div 8) + 3 < 2 ^ 31" using v w bpp by (auto simp: bmp_valid_def)
  then have ck: "ck32 (?w * (?bpp div 8)) = Some (?w * (?bpp div 8))"
    "ck32 (?w * (?bpp div 8) + 3) = Some (?w * (?bpp div 8) + 3)"
    by (simp_all add: ck32_def in_i32_def)
  let ?row = "\<lambda>y s. do {off \<leftarrow> ck32 ((if bmp_height hdr \<ge> 0 then H - 1 - y else y) * bmp_stride hdr);
                bmp_row b (unat (bmp_offset hdr) + nat off) ?w ?bpp dest_x dest_y y s}"
  let ?Q = "\<lambda>i s. \<exists>g. s = Ptr g \<and> fb_ok g"
  have "\<exists>s'. for_range 0 H ?row (Ptr f) = Some s' \<and> ?Q H s'"
  proof (rule for_range_inv)
    show "?Q 0 (Ptr f)" using f by simp
    show "0 \<le> H" using w by simp
    show "\<forall>i s. 0 \<le> i \<and> i < H \<and> ?Q i s \<longrightarrow> (\<exists>s'. ?row i s = Some s' \<and> ?Q (i + 1) s')"
    proof (intro allI impI)
      fix i s
      assume a: "0 \<le> i \<and> i < H \<and> ?Q i s"
      then obtain g where g: "s = Ptr g" "fb_ok g" by blast
      define r where "r = (if bmp_height hdr \<ge> 0 then H - 1 - i else i)"
      have r: "0 \<le> r" "r < \<bar>bmp_height hdr\<bar>" using a by (auto simp: r_def H_def)
      note ins = bmp_row_inside [OF v r]
      have yi: "in_i32 (dest_y + i)" using a y unfolding H_def [symmetric] in_i32_def by linarith
      from bmp_row_ok [OF g(2) bpp w(1) ins(2) yi x]
      show "\<exists>s'. ?row i s = Some s' \<and> ?Q (i + 1) s'"
        using ins(1) g(1) unfolding r_def [symmetric] by auto
    qed
  qed
  then obtain g where g: "for_range 0 H ?row (Ptr f) = Some (Ptr g)" "fb_ok g" by blast
  have sb: "- (2 ^ 31) \<le> bmp_height hdr" "bmp_height hdr \<noteq> - (2 ^ 31)"
  proof -
    have "H * 1 \<le> H * bmp_stride hdr"
      using w s1 v bpp by (intro mult_left_mono) (auto simp: bmp_stride_def)
    moreover have "H * bmp_stride hdr < 2 ^ 31" using v unfolding bmp_valid_def H_def by blast
    ultimately have "H < 2 ^ 31" by linarith
    then show "- (2 ^ 31) \<le> bmp_height hdr" "bmp_height hdr \<noteq> - (2 ^ 31)" unfolding H_def by linarith+
  qed
  have neg: "bmp_height hdr < 0 \<Longrightarrow> ck32 (- bmp_height hdr) = Some H"
    using sb by (simp add: ck32_def in_i32_def H_def)
  have pos: "\<not> bmp_height hdr < 0 \<Longrightarrow> bmp_height hdr = H" by (simp add: H_def)
  have "kbmp_render (Ptr f) dest_x dest_y (Ptr b) data_len = do {fb \<leftarrow> for_range 0 H ?row (Ptr f); Some (0, fb)}"
  proof -
    have t: "bmp_type hdr = 0x4D42" "bmp_height hdr \<noteq> 0" using v by (simp_all add: bmp_valid_def)
    show ?thesis
    proof (cases "bmp_height hdr < 0")
      case True
      then show ?thesis using bpp w len ck
        by (elim disjE) (simp_all add: kbmp_render_def hdr Let_def t ck neg bmp_stride_def)
    next
      case False
      then have "bmp_height hdr = H" "H \<noteq> 0" using pos w(2) by simp_all
      then show ?thesis using bpp w(1) len False ck
        by (elim disjE) (simp_all add: kbmp_render_def hdr Let_def t ck bmp_stride_def)
    qed
  qed
  then show ?thesis using g by simp
qed

text \<open>A header alone, which the length test accepts, is read past its end.\<close>

lemma kbmp_render_overreads:
  "kbmp_render (Ptr \<lparr>buffer = Ptr [0], width = 1, height = 1, pitch = 1\<rparr>) 0 0
     (Ptr ([0x42, 0x4D] @ replicate 8 0 @ [54, 0, 0, 0] @ replicate 4 0 @ [1, 0, 0, 0] @ [1, 0, 0, 0]
       @ [1, 0] @ [24, 0] @ replicate 24 0)) 54 = None"
  by code_simp

end
