(* ===== verification/Idt.thy ===== *)
theory Idt imports Kport begin

unbundle bit_operations_syntax

text \<open>
  The descriptor tables of the test system: \<open>test_os/gdt.c\<close>, and \<open>test_os/idt.c\<close> with the
  interrupt controller, the timer and the common interrupt handler.  The packed entries are records
  of their fields; the addresses of the tables and of the assembly stubs, which the linker chooses,
  are parameters, and so are the two device handlers and the text output.

  The lemmas decode the entries again, and say which vectors have a gate and which interrupts are
  acknowledged.
\<close>

section \<open>The segment table\<close>

record gdt_entry =
  limit_low :: u16
  base_low :: u16
  base_middle :: u8
  access :: u8
  granularity :: u8
  base_high :: u8

record table_ptr =
  ptr_limit :: u16
  ptr_base :: u32

definition gdt_set_gate :: "nat \<Rightarrow> u32 \<Rightarrow> u32 \<Rightarrow> u8 \<Rightarrow> u8 \<Rightarrow> gdt_entry list \<Rightarrow> gdt_entry list option" where
  "gdt_set_gate num base limit acc gran gdt =
     wr gdt num \<lparr>limit_low = ucast (limit AND 0xFFFF), base_low = ucast (base AND 0xFFFF),
       base_middle = ucast (drop_bit 16 base AND 0xFF), access = acc,
       granularity = ucast (drop_bit 16 limit AND 0x0F) OR (gran AND 0xF0),
       base_high = ucast (drop_bit 24 base AND 0xFF)\<rparr>"

definition gdt_init :: "u32 \<Rightarrow> gdt_entry list \<Rightarrow> (table_ptr \<times> gdt_entry list) option" where
  "gdt_init gdt_addr gdt = do {
     gdt \<leftarrow> gdt_set_gate 0 0 0 0 0 gdt;
     gdt \<leftarrow> gdt_set_gate 1 0 0xFFFFFFFF 0x9A 0xCF gdt;
     gdt \<leftarrow> gdt_set_gate 2 0 0xFFFFFFFF 0x92 0xCF gdt;
     gdt \<leftarrow> gdt_set_gate 3 0 0xFFFFFFFF 0xFA 0xCF gdt;
     gdt \<leftarrow> gdt_set_gate 4 0 0xFFFFFFFF 0xF2 0xCF gdt;
     Some (\<lparr>ptr_limit = 8 * 5 - 1, ptr_base = gdt_addr\<rparr>, gdt)}"

section \<open>The interrupt table\<close>

record idt_entry =
  gate_low :: u16
  selector :: u16
  always0 :: u8
  gate_flags :: u8
  gate_high :: u16

definition idt_set_gate :: "u8 \<Rightarrow> u32 \<Rightarrow> u16 \<Rightarrow> u8 \<Rightarrow> idt_entry list \<Rightarrow> idt_entry list option" where
  "idt_set_gate num base sel fl idt =
     wr idt (unat num) \<lparr>gate_low = ucast (base AND 0xFFFF), selector = sel, always0 = 0, gate_flags = fl,
       gate_high = ucast (drop_bit 16 base AND 0xFFFF)\<rparr>"

fun set_gates :: "(u8 \<times> u32 \<times> u16 \<times> u8) list \<Rightarrow> idt_entry list \<Rightarrow> idt_entry list option" where
  "set_gates [] idt = Some idt"
| "set_gates ((num, base, sel, fl) # gs) idt = do {idt \<leftarrow> idt_set_gate num base sel fl idt; set_gates gs idt}"

definition pit_init :: "'d bus \<Rightarrow> u32 \<Rightarrow> 'd \<Rightarrow> 'd option" where
  "pit_init io hz d =
     (if hz = 0 then None
      else let divisor = 1193180 div hz in
        Some (outbs io [(0x43, 0x36), (0x40, ucast (divisor AND 0xFF)), (0x40, ucast (drop_bit 8 divisor AND 0xFF))] d))"

definition pic_remap :: "'d bus \<Rightarrow> 'd \<Rightarrow> 'd" where
  "pic_remap io = outbs io [(0x20, 0x11), (0xA0, 0x11), (0x21, 0x20), (0xA1, 0x28), (0x21, 0x04), (0xA1, 0x02),
     (0x21, 0x01), (0xA1, 0x01), (0x21, 0xF8), (0xA1, 0xEF)]"

record isr_stubs =
  isr0 :: u32
  isr13 :: u32
  isr14 :: u32
  irq0 :: u32
  irq1 :: u32
  irq12 :: u32

definition idt_init ::
  "'d bus \<Rightarrow> isr_stubs \<Rightarrow> u32 \<Rightarrow> idt_entry list \<Rightarrow> 'd \<Rightarrow> (table_ptr \<times> idt_entry list \<times> 'd) option" where
  "idt_init io stubs idt_addr idt d = do {
     idt \<leftarrow> set_gates (map (\<lambda>i. (of_nat i, 0, 0, 0)) [0..<256]) idt;
     let d = pic_remap io d;
     d \<leftarrow> pit_init io 100 d;
     idt \<leftarrow> set_gates [(0, isr0 stubs, 0x08, 0x8E), (13, isr13 stubs, 0x08, 0x8E), (14, isr14 stubs, 0x08, 0x8E),
       (32, irq0 stubs, 0x08, 0x8E), (33, irq1 stubs, 0x08, 0x8E), (44, irq12 stubs, 0x08, 0x8E)] idt;
     Some (\<lparr>ptr_limit = 256 * 8 - 1, ptr_base = idt_addr\<rparr>, idt, d)}"

section \<open>Handling an interrupt\<close>

definition pit_get_ticks :: "u32 \<Rightarrow> u32" where "pit_get_ticks timer_ticks = timer_ticks"
definition pit_get_seconds :: "u32 \<Rightarrow> u32" where "pit_get_seconds timer_ticks = timer_ticks div 100"

text \<open>
  \<open>kbd\<close> and \<open>mouse\<close> are the device handlers, \<open>div_msg\<close> prints the divide error.  The first
  result tells that the processor was halted with interrupts disabled.
\<close>

definition isr_handler ::
  "'d bus \<Rightarrow> ('d \<Rightarrow> 'd option) \<Rightarrow> ('d \<Rightarrow> 'd option) \<Rightarrow> ('d \<Rightarrow> 'd option) \<Rightarrow> u32 \<Rightarrow> u32 \<Rightarrow> 'd \<Rightarrow>
   (bool \<times> u32 \<times> 'd) option" where
  "isr_handler io kbd mouse div_msg int_no timer_ticks d =
     (if int_no = 32 then Some (False, timer_ticks + 1, outb io 0x20 0x20 d)
      else if int_no = 33 then do {d \<leftarrow> kbd d; Some (False, timer_ticks, outb io 0x20 0x20 d)}
      else if int_no = 44 then do {d \<leftarrow> mouse d; Some (False, timer_ticks, outb io 0x20 0x20 (outb io 0xA0 0x20 d))}
      else if int_no = 0 then do {d \<leftarrow> div_msg d; Some (True, timer_ticks, d)}
      else Some (False, timer_ticks, d))"

section \<open>What the tables say\<close>

text \<open>The base and the limit the processor reads from a segment descriptor, the entry point from a gate.\<close>

definition seg_base :: "gdt_entry \<Rightarrow> u32" where
  "seg_base e = push_bit 24 (ucast (base_high e)) OR push_bit 16 (ucast (base_middle e)) OR ucast (base_low e)"

definition seg_limit :: "gdt_entry \<Rightarrow> u32" where
  "seg_limit e = push_bit 16 (ucast (granularity e AND 0x0F)) OR ucast (limit_low e)"

definition gate_target :: "idt_entry \<Rightarrow> u32" where
  "gate_target e = push_bit 16 (ucast (gate_high e)) OR ucast (gate_low e)"

lemma mask_eqs:
  "(0xFFFF :: u32) = mask 16" "(0xFF :: u32) = mask 8" "(0x0F :: u32) = mask 4" "(0x0F :: u8) = mask 4"
  "(0xF0 :: u8) = push_bit 4 (mask 4)" "(0xFFFFF :: u32) = mask 20"
  by (simp_all add: mask_eq_exp_minus_1)

lemma gdt_gate_decodes:
  assumes "num < length gdt"
  shows "\<exists>gdt' e. gdt_set_gate num base limit acc gran gdt = Some gdt' \<and> gdt' = gdt[num := e]
    \<and> seg_base e = base \<and> seg_limit e = limit AND 0xFFFFF \<and> access e = acc \<and> granularity e AND 0xF0 = gran AND 0xF0"
proof -
  let ?e = "\<lparr>limit_low = ucast (limit AND 0xFFFF), base_low = ucast (base AND 0xFFFF),
       base_middle = ucast (drop_bit 16 base AND 0xFF), access = acc,
       granularity = ucast (drop_bit 16 limit AND 0x0F) OR (gran AND 0xF0),
       base_high = ucast (drop_bit 24 base AND 0xFF)\<rparr>"
  have h: "bit w n \<Longrightarrow> \<not> bit w (24 + (n - 24)) \<Longrightarrow> n - 16 < 8" for n and w :: u32
    by (cases "n < 24") auto
  have "seg_base ?e = base"
    unfolding seg_base_def mask_eqs by (rule bit_word_eqI) (auto simp: bit_simps dest: h)
  moreover have "seg_limit ?e = limit AND 0xFFFFF"
    unfolding seg_limit_def mask_eqs by (rule bit_word_eqI) (auto simp: bit_simps)
  moreover have "granularity ?e AND 0xF0 = gran AND 0xF0"
    unfolding mask_eqs by (rule bit_word_eqI) (auto simp: bit_simps)
  ultimately show ?thesis using assms by (intro exI [of _ "gdt[num := ?e]"] exI [of _ ?e]) (simp add: gdt_set_gate_def)
qed

lemma gate_decodes:
  "gate_target \<lparr>gate_low = ucast (base AND 0xFFFF), selector = sel, always0 = 0, gate_flags = fl,
     gate_high = ucast (drop_bit 16 base AND 0xFFFF)\<rparr> = base"
  unfolding gate_target_def mask_eqs by (rule bit_word_eqI) (auto simp: bit_simps)

lemma set_gates_length: "set_gates gs t = Some t' \<Longrightarrow> length t' = length t"
  by (induction gs arbitrary: t) (auto simp: idt_set_gate_def dest!: wr_SomeD split: Option.bind_splits)

text \<open>The gate a list of settings leaves at a vector: that of the last setting for it.\<close>

definition gate_entry :: "u32 \<times> u16 \<times> u8 \<Rightarrow> idt_entry" where
  "gate_entry g = (case g of (base, sel, fl) \<Rightarrow> \<lparr>gate_low = ucast (base AND 0xFFFF), selector = sel, always0 = 0,
     gate_flags = fl, gate_high = ucast (drop_bit 16 base AND 0xFFFF)\<rparr>)"

lemma set_gates_map:
  "length t = 256 \<Longrightarrow> \<exists>t'. set_gates gs t = Some t' \<and> length t' = 256
    \<and> (\<forall>n < 256. t' ! n = (case map_of (rev (map (\<lambda>(v, g). (unat v, g)) gs)) n of None \<Rightarrow> t ! n | Some g \<Rightarrow> gate_entry g))"
proof (induction gs arbitrary: t)
  case (Cons g gs)
  obtain v base sel fl where g: "g = (v, base, sel, fl)" by (cases g)
  have v: "unat v < length t" using unsigned_less [of v] Cons.prems by simp
  then obtain t' where t': "set_gates gs (t[unat v := gate_entry (base, sel, fl)]) = Some t'" "length t' = 256"
    "\<forall>n < 256. t' ! n = (case map_of (rev (map (\<lambda>(v, g). (unat v, g)) gs)) n of
       None \<Rightarrow> t[unat v := gate_entry (base, sel, fl)] ! n | Some g \<Rightarrow> gate_entry g)"
    using Cons.IH [of "t[unat v := gate_entry (base, sel, fl)]"] Cons.prems by auto
  have "set_gates (g # gs) t = Some t'"
    using v t'(1) by (simp add: g idt_set_gate_def gate_entry_def)
  moreover have "\<forall>n < 256. t' ! n = (case map_of (rev (map (\<lambda>(v, g). (unat v, g)) (g # gs))) n of
       None \<Rightarrow> t ! n | Some g \<Rightarrow> gate_entry g)"
    using t'(3) v Cons.prems by (auto simp: g nth_list_update map_add_def split: option.split)
  ultimately show ?case using t'(2) by blast
qed simp

text \<open>
  after idt_init the table has 256 entries; the six vectors the code installs decode to their
  stub with the kernel code selector and a present 32-bit interrupt gate, and no other vector is
  present.
\<close>
theorem idt_init_installs:
  assumes "length t = 256"
  shows "\<exists>t' d'. idt_init io stubs addr t d = Some (\<lparr>ptr_limit = 2047, ptr_base = addr\<rparr>, t', d') \<and> length t' = 256
    \<and> (\<forall>n < 256. case map_of [(0, isr0 stubs), (13, isr13 stubs), (14, isr14 stubs), (32, irq0 stubs), (33, irq1 stubs),
           (44, irq12 stubs)] n of
         Some entry \<Rightarrow> gate_target (t' ! n) = entry \<and> selector (t' ! n) = 0x08 \<and> gate_flags (t' ! n) = 0x8E
       | None \<Rightarrow> gate_flags (t' ! n) = 0)"
proof -
  let ?z = "map (\<lambda>i. (of_nat i, 0, 0, 0)) [0..<256] :: (u8 \<times> u32 \<times> u16 \<times> u8) list"
  let ?g = "[(0, isr0 stubs, 0x08, 0x8E), (13, isr13 stubs, 0x08, 0x8E), (14, isr14 stubs, 0x08, 0x8E),
       (32, irq0 stubs, 0x08, 0x8E), (33, irq1 stubs, 0x08, 0x8E), (44, irq12 stubs, 0x08, 0x8E)]
       :: (u8 \<times> u32 \<times> u16 \<times> u8) list"
  obtain t1 where t1: "set_gates ?z t = Some t1" "length t1 = 256"
    "\<forall>n < 256. t1 ! n = (case map_of (rev (map (\<lambda>(v, g). (unat v, g)) ?z)) n of None \<Rightarrow> t ! n | Some g \<Rightarrow> gate_entry g)"
    using set_gates_map [OF assms, of ?z] by blast
  have z: "t1 ! n = gate_entry (0, 0, 0)" if "n < 256" for n
  proof -
    have "unat (of_nat n :: u8) = n" using that by (simp add: unat_of_nat take_bit_eq_mod)
    then have 1: "(n, 0, 0, 0) = (case (of_nat n, 0, 0, 0) of (v :: u8, g :: u32 \<times> u16 \<times> u8) \<Rightarrow> (unat v, g))" by simp
    have 2: "(of_nat n, 0, 0, 0) \<in> set ?z" using that by simp
    have "(n, 0, 0, 0) \<in> set (rev (map (\<lambda>(v, g). (unat v, g)) ?z))"
      unfolding set_rev set_map using image_eqI [of _ "\<lambda>(v, g). (unat v, g)", OF 1 2] by (simp only: set_map)
    then have "n \<in> fst ` set (rev (map (\<lambda>(v, g). (unat v, g)) ?z))"
      by (rule image_eqI [of n fst "(n, 0, 0, 0)", OF fst_conv [symmetric]])
    then have "map_of (rev (map (\<lambda>(v, g). (unat v, g)) ?z)) n \<noteq> None"
      by (simp only: map_of_eq_None_iff) simp
    then obtain g where g: "map_of (rev (map (\<lambda>(v, g). (unat v, g)) ?z)) n = Some g" by blast
    then have "(n, g) \<in> set (rev (map (\<lambda>(v, g). (unat v, g)) ?z))" by (rule map_of_SomeD)
    then have "g = (0, 0, 0)" by auto
    then show ?thesis using t1(3) that g by simp
  qed
  obtain t2 where t2: "set_gates ?g t1 = Some t2" "length t2 = 256"
    "\<forall>n < 256. t2 ! n = (case map_of (rev (map (\<lambda>(v, g). (unat v, g)) ?g)) n of None \<Rightarrow> t1 ! n | Some g \<Rightarrow> gate_entry g)"
    using set_gates_map [OF t1(2), of ?g] by blast
  obtain d' where d': "pit_init io 100 (pic_remap io d) = Some d'" by (simp add: pit_init_def)
  have "idt_init io stubs addr t d = Some (\<lparr>ptr_limit = 2047, ptr_base = addr\<rparr>, t2, d')"
    unfolding idt_init_def using t1(1) t2(1) d' by (simp del: set_gates.simps map_eq_conv)
  moreover have "case map_of [(0, isr0 stubs), (13, isr13 stubs), (14, isr14 stubs), (32, irq0 stubs), (33, irq1 stubs),
           (44, irq12 stubs)] n of
         Some entry \<Rightarrow> gate_target (t2 ! n) = entry \<and> selector (t2 ! n) = 0x08 \<and> gate_flags (t2 ! n) = 0x8E
       | None \<Rightarrow> gate_flags (t2 ! n) = 0" if "n < 256" for n
    using t2(3) [rule_format, OF that] z [OF that]
    by (cases "n = 44"; cases "n = 33"; cases "n = 32"; cases "n = 14"; cases "n = 13"; cases "n = 0")
       (simp_all add: gate_entry_def gate_decodes)
  ultimately show ?thesis using t2(2) by blast
qed

theorem idt_init_installs_witness:
  "\<exists>t' d'. idt_init \<lparr>inb = (\<lambda>_ d. (0, d)), outb = (\<lambda>p v d. (p, v) # d), inw = (\<lambda>_ d. (0, d)), outw = (\<lambda>_ _ d. d)\<rparr>
      \<lparr>isr0 = 0x1000, isr13 = 0x1010, isr14 = 0x1020, irq0 = 0x1030, irq1 = 0x1040, irq12 = 0x1050\<rparr> 0x9000
      (replicate 256 \<lparr>gate_low = 1, selector = 2, always0 = 3, gate_flags = 4, gate_high = 5\<rparr>) []
    = Some (\<lparr>ptr_limit = 2047, ptr_base = 0x9000\<rparr>, t', d') \<and> gate_target (t' ! 33) = 0x1040 \<and> gate_flags (t' ! 34) = 0"
proof -
  let ?t = "replicate 256 \<lparr>gate_low = 1, selector = 2, always0 = 3, gate_flags = 4, gate_high = 5\<rparr> :: idt_entry list"
  have "length ?t = 256" by simp
  from idt_init_installs [OF this, of "\<lparr>inb = (\<lambda>_ d. (0, d)), outb = (\<lambda>p v d. (p, v) # d), inw = (\<lambda>_ d. (0, d)), outw = (\<lambda>_ _ d. d)\<rparr>"
      "\<lparr>isr0 = 0x1000, isr13 = 0x1010, isr14 = 0x1020, irq0 = 0x1030, irq1 = 0x1040, irq12 = 0x1050\<rparr>" "0x9000" "[]"]
  obtain t' d' where r: "idt_init \<lparr>inb = (\<lambda>_ d. (0, d)), outb = (\<lambda>p v d. (p, v) # d), inw = (\<lambda>_ d. (0, d)), outw = (\<lambda>_ _ d. d)\<rparr>
      \<lparr>isr0 = 0x1000, isr13 = 0x1010, isr14 = 0x1020, irq0 = 0x1030, irq1 = 0x1040, irq12 = 0x1050\<rparr> 0x9000 ?t []
      = Some (\<lparr>ptr_limit = 2047, ptr_base = 0x9000\<rparr>, t', d')"
    and t': "\<forall>n < 256. case map_of [(0, 0x1000), (13, 0x1010), (14, 0x1020), (32, 0x1030), (33, 0x1040), (44, 0x1050)] n of
         Some entry \<Rightarrow> gate_target (t' ! n) = entry \<and> selector (t' ! n) = 0x08 \<and> gate_flags (t' ! n) = 0x8E
       | None \<Rightarrow> gate_flags (t' ! n) = 0"
    by auto
  show ?thesis using r t' [rule_format, of 33] t' [rule_format, of 34] by auto
qed

end
