(* ===== verification/Ps2.thy ===== *)
theory Ps2 imports Kgfx begin

unbundle bit_operations_syntax

text \<open>
  The keyboard and mouse driver \<open>test_os/ps2.c\<close>.  The controller's ports are a bus parameter; the
  two functions of the kernel the keyboard handler calls, \<open>os_handle_keypress\<close> and
  \<open>os_toggle_cli_mode\<close>, are arguments that act on the same world.

  The lemmas show that the pointer stays on the screen whatever bytes arrive, and how three bytes
  of a packet move it.
\<close>

section \<open>The controller\<close>

fun ps2_wait :: "'d bus \<Rightarrow> (u8 \<Rightarrow> bool) \<Rightarrow> nat \<Rightarrow> 'd \<Rightarrow> 'd" where
  "ps2_wait io busy 0 d = d"
| "ps2_wait io busy (Suc timeout) d =
     (let (s, d) = inb io 0x64 d in if busy s then ps2_wait io busy timeout d else d)"

definition ps2_wait_write :: "'d bus \<Rightarrow> 'd \<Rightarrow> 'd" where
  "ps2_wait_write io d = ps2_wait io (\<lambda>s. s AND 2 \<noteq> 0) 100000 d"

definition ps2_wait_read :: "'d bus \<Rightarrow> 'd \<Rightarrow> 'd" where
  "ps2_wait_read io d = ps2_wait io (\<lambda>s. s AND 1 = 0) 100000 d"

text \<open>\<open>ps2_wait_write(); outb(port, v);\<close>\<close>

definition ps2_send :: "'d bus \<Rightarrow> u16 \<Rightarrow> u8 \<Rightarrow> 'd \<Rightarrow> 'd" where
  "ps2_send io port v d = outb io port v (ps2_wait_write io d)"

text \<open>\<open>ps2_wait_read(); inb(0x60)\<close>\<close>

definition ps2_receive :: "'d bus \<Rightarrow> 'd \<Rightarrow> u8 \<times> 'd" where
  "ps2_receive io d = inb io 0x60 (ps2_wait_read io d)"

text \<open>\<open>while (inb(0x64) & 1) inb(0x60);\<close>, which ends only if the controller runs out of bytes.\<close>

partial_function (option) ps2_drain :: "'d bus \<Rightarrow> 'd \<Rightarrow> 'd option" where
  "ps2_drain io d = (
     let (s, d') = inb io 0x64 d in
     if s AND 1 \<noteq> 0 then ps2_drain io (snd (inb io 0x60 d')) else Some d')"

definition ps2_init :: "'d bus \<Rightarrow> 'd \<Rightarrow> 'd option" where
  "ps2_init io d = do {
     let d = ps2_send io 0x64 0xAD d;
     let d = ps2_send io 0x64 0xA7 d;
     d \<leftarrow> ps2_drain io d;
     let d = ps2_send io 0x64 0x20 d;
     let (status, d) = ps2_receive io d;
     let status = (status OR 0x47) AND NOT 0x30;
     let d = ps2_send io 0x64 0x60 d;
     let d = ps2_send io 0x60 status d;
     let d = ps2_send io 0x64 0xAE d;
     let d = ps2_send io 0x64 0xA8 d;
     let d = ps2_send io 0x60 0xF4 d;
     let (ack, d) = ps2_receive io d;
     let d = ps2_send io 0x64 0xD4 d;
     let d = ps2_send io 0x60 0xF6 d;
     let (ack, d) = ps2_receive io d;
     let d = ps2_send io 0x64 0xD4 d;
     let d = ps2_send io 0x60 0xF4 d;
     let (ack, d) = ps2_receive io d;
     Some d}"

section \<open>The keyboard\<close>

definition scancode_ascii :: "u8 list" where
  "scancode_ascii = [0, 27, 49, 50, 51, 52, 53, 54, 55, 56, 57, 48, 45, 61, 8,
     9, 113, 119, 101, 114, 116, 121, 117, 105, 111, 112, 91, 93, 10,
     0, 97, 115, 100, 102, 103, 104, 106, 107, 108, 59, 39, 96, 0,
     92, 122, 120, 99, 118, 98, 110, 109, 44, 46, 47, 0, 42, 0, 32] @ replicate 70 0"

definition scancode_ascii_shift :: "u8 list" where
  "scancode_ascii_shift = [0, 27, 33, 64, 35, 36, 37, 94, 38, 42, 40, 41, 95, 43, 8,
     9, 81, 87, 69, 82, 84, 89, 85, 73, 79, 80, 123, 125, 10,
     0, 65, 83, 68, 70, 71, 72, 74, 75, 76, 58, 34, 126, 0,
     124, 90, 88, 67, 86, 66, 78, 77, 60, 62, 63, 0, 42, 0, 32] @ replicate 70 0"

record ps2 =
  mouse_state :: kgfx_mouse
  mouse_cycle :: u8
  mouse_packet :: "u8 list"
  ctrl_pressed :: bool
  shift_pressed :: bool

definition ps2_reset :: ps2 where
  "ps2_reset = \<lparr>mouse_state = \<lparr>mouse_x = 400, mouse_y = 300, mouse_buttons = 0, mouse_type = KGFX_CURSOR_NORMAL\<rparr>,
     mouse_cycle = 0, mouse_packet = [0, 0, 0], ctrl_pressed = False, shift_pressed = False\<rparr>"

definition ps2_keyboard_handler ::
  "'d bus \<Rightarrow> (u8 \<Rightarrow> 'd \<Rightarrow> 'd option) \<Rightarrow> ('d \<Rightarrow> 'd option) \<Rightarrow> ps2 \<Rightarrow> 'd \<Rightarrow> (ps2 \<times> 'd) option" where
  "ps2_keyboard_handler io os_handle_keypress os_toggle_cli_mode k d = do {
     let (s, d) = inb io 0x64 d;
     if s AND 1 = 0 then Some (k, d)
     else do {
       let (scancode, d) = inb io 0x60 d;
       if scancode = 0x2A \<or> scancode = 0x36 then Some (k \<lparr>shift_pressed := True\<rparr>, d)
       else if scancode = 0xAA \<or> scancode = 0xB6 then Some (k \<lparr>shift_pressed := False\<rparr>, d)
       else if scancode = 0x1D then Some (k \<lparr>ctrl_pressed := True\<rparr>, d)
       else if scancode = 0x9D then Some (k \<lparr>ctrl_pressed := False\<rparr>, d)
       else if scancode AND 0x80 = 0 then
         (if scancode = 0x01 \<or> scancode = 0x3B \<or> scancode = 0x0F \<or> (ctrl_pressed k \<and> scancode = 0x2F)
          then do {d \<leftarrow> os_toggle_cli_mode d; Some (k, d)}
          else do {
            c \<leftarrow> rd (if shift_pressed k then scancode_ascii_shift else scancode_ascii) (unat scancode);
            if c \<noteq> 0 then do {d \<leftarrow> os_handle_keypress c d; Some (k, d)} else Some (k, d)})
       else Some (k, d)}}"

section \<open>The mouse\<close>

text \<open>\<open>rel |= 0xFFFFFF00\<close> on the 32 bits of an \<open>int\<close>.\<close>

definition extend_sign :: "int \<Rightarrow> int" where
  "extend_sign rel = sint ((word_of_int rel :: u32) OR 0xFFFFFF00)"

definition clamp :: "int \<Rightarrow> int \<Rightarrow> int" where
  "clamp limit v = (let v = (if v < 0 then 0 else v) in if v \<ge> limit then limit - 1 else v)"

definition mouse_move :: "u8 list \<Rightarrow> kgfx_mouse \<Rightarrow> kgfx_mouse option" where
  "mouse_move packet m = do {
     p0 \<leftarrow> rd packet 0; p1 \<leftarrow> rd packet 1; p2 \<leftarrow> rd packet 2;
     let flags = p0;
     let rel_x = sint p1;
     let rel_y = sint p2;
     let rel_x = (if flags AND 0x10 \<noteq> 0 then extend_sign rel_x else rel_x);
     let rel_y = (if flags AND 0x20 \<noteq> 0 then extend_sign rel_y else rel_y);
     if flags AND 0xC0 \<noteq> 0 then Some m
     else do {
       let buttons = flags AND 0x07;
       x \<leftarrow> ck32 (mouse_x m + rel_x);
       y \<leftarrow> ck32 (mouse_y m - rel_y);
       Some \<lparr>mouse_x = clamp 800 x, mouse_y = clamp 600 y, mouse_buttons = buttons,
         mouse_type = (if buttons AND 1 \<noteq> 0 then KGFX_CURSOR_CLICKABLE else KGFX_CURSOR_NORMAL)\<rparr>}}"

definition mouse_byte :: "u8 \<Rightarrow> ps2 \<Rightarrow> ps2 option" where
  "mouse_byte b k =
     (if mouse_cycle k = 0 then
        (if b AND 0x08 \<noteq> 0 then do {
           p \<leftarrow> wr (mouse_packet k) 0 b;
           Some (k \<lparr>mouse_packet := p, mouse_cycle := 1\<rparr>)}
         else Some k)
      else if mouse_cycle k = 1 then do {
        p \<leftarrow> wr (mouse_packet k) 1 b;
        Some (k \<lparr>mouse_packet := p, mouse_cycle := 2\<rparr>)}
      else if mouse_cycle k = 2 then do {
        p \<leftarrow> wr (mouse_packet k) 2 b;
        m \<leftarrow> mouse_move p (mouse_state k);
        Some (k \<lparr>mouse_packet := p, mouse_cycle := 0, mouse_state := m\<rparr>)}
      else Some k)"

definition ps2_mouse_handler :: "'d bus \<Rightarrow> ps2 \<Rightarrow> 'd \<Rightarrow> (ps2 \<times> 'd) option" where
  "ps2_mouse_handler io k d = do {
     let (s, d) = inb io 0x64 d;
     if s AND 1 = 0 then Some (k, d)
     else do {
       let (b, d) = inb io 0x60 d;
       k \<leftarrow> mouse_byte b k;
       Some (k, d)}}"

definition ps2_get_mouse_state :: "ps2 \<Rightarrow> kgfx_mouse" where
  "ps2_get_mouse_state k = mouse_state k"

section \<open>The pointer stays on the screen\<close>

definition ps2_ok :: "ps2 \<Rightarrow> bool" where
  "ps2_ok k \<longleftrightarrow> length (mouse_packet k) = 3 \<and> mouse_cycle k \<le> 2
     \<and> 0 \<le> mouse_x (mouse_state k) \<and> mouse_x (mouse_state k) < 800
     \<and> 0 \<le> mouse_y (mouse_state k) \<and> mouse_y (mouse_state k) < 600"

text \<open>The displacement a packet's sign bit and byte give.\<close>

definition rel_of :: "bool \<Rightarrow> u8 \<Rightarrow> int" where
  "rel_of neg b = (if neg then uint b - 256 else sint b)"

lemma sint8: "sint (b :: u8) = (if uint b < 128 then uint b else uint b - 256)"
  using sint_small [of b] sint_big [of b] by simp

lemma extend_sign_byte: "extend_sign (sint b) = uint b - 256" for b :: u8
proof -
  have e: "(word_of_int (sint b) :: u32) OR 0xFFFFFF00 = ucast b OR 0xFFFFFF00"
  proof (rule bit_word_eqI)
    fix n
    assume "n < LENGTH(32)"
    have m: "(0xFFFFFF00 :: u32) = push_bit 8 (mask 24)" by (simp add: mask_eq_exp_minus_1)
    show "bit ((word_of_int (sint b) :: u32) OR 0xFFFFFF00) n = bit (ucast b OR (0xFFFFFF00 :: u32)) n"
      unfolding m using \<open>n < LENGTH(32)\<close> by (cases "n < 8"; cases "n = 7") (auto simp: bit_simps min_def)
  qed
  have lt: "unat b < 256" using unsigned_less [of b] by simp
  have u: "unat (ucast b :: u32) = unat b"
    using lt by (simp add: unsigned_ucast_eq take_bit_nat_eq_self)
  have "unat (0xFFFFFF00 OR (ucast b :: u32)) = unat (0xFFFFFF00 :: u32) + unat (ucast b :: u32)"
    using lt by (intro unat_or_aligned [where n = 8]) (simp_all only: u, simp_all)
  then have "unat (ucast b OR (0xFFFFFF00 :: u32)) = 0xFFFFFF00 + unat b" by (simp only: u or.commute) simp
  then have "uint (ucast b OR (0xFFFFFF00 :: u32)) = 0xFFFFFF00 + uint b"
    by (simp only: uint_nat)
  then show ?thesis unfolding extend_sign_def e using sint_big [of "ucast b OR (0xFFFFFF00 :: u32)"] by simp
qed

lemma rel_bounds: "- 256 \<le> rel_of neg b" "rel_of neg b < 128"
proof -
  obtain u where u: "uint b = u" "0 \<le> u" "u < 256" using uint_lt2p [of b] uint_ge_0 [of b] by simp
  show "- 256 \<le> rel_of neg b" "rel_of neg b < 128" unfolding rel_of_def sint8 u(1) using u(2,3) by auto
qed

lemma clamp_bounds: "0 < limit \<Longrightarrow> 0 \<le> clamp limit v \<and> clamp limit v < limit"
  by (simp add: clamp_def)

definition moved :: "u8 \<Rightarrow> u8 \<Rightarrow> u8 \<Rightarrow> kgfx_mouse \<Rightarrow> kgfx_mouse" where
  "moved b0 b1 b2 m =
     (if b0 AND 0xC0 \<noteq> 0 then m
      else \<lparr>mouse_x = clamp 800 (mouse_x m + rel_of (b0 AND 0x10 \<noteq> 0) b1),
        mouse_y = clamp 600 (mouse_y m - rel_of (b0 AND 0x20 \<noteq> 0) b2), mouse_buttons = b0 AND 0x07,
        mouse_type = (if (b0 AND 0x07) AND 1 \<noteq> 0 then KGFX_CURSOR_CLICKABLE else KGFX_CURSOR_NORMAL)\<rparr>)"

lemma mouse_move_moved:
  assumes "length p = 3" "0 \<le> mouse_x m" "mouse_x m < 800" "0 \<le> mouse_y m" "mouse_y m < 600"
  shows "mouse_move p m = Some (moved (p ! 0) (p ! 1) (p ! 2) m)"
proof -
  have r: "(if c then extend_sign (sint b) else sint b) = rel_of c b" for c b
    by (simp add: rel_of_def extend_sign_byte)
  have x: "in_i32 (mouse_x m + rel_of c b)" "in_i32 (mouse_y m - rel_of c b)" for c b
    using assms(2-5) rel_bounds [of c b] by (simp_all add: in_i32_def)
  show ?thesis using assms(1) by (simp add: mouse_move_def moved_def Let_def r x)
qed

lemma mouse_byte_ok: "ps2_ok k \<Longrightarrow> \<exists>k'. mouse_byte b k = Some k' \<and> ps2_ok k'"
proof -
  assume ok: "ps2_ok k"
  then have len: "length (mouse_packet k) = 3" and c: "mouse_cycle k \<le> 2"
    and m: "0 \<le> mouse_x (mouse_state k)" "mouse_x (mouse_state k) < 800" "0 \<le> mouse_y (mouse_state k)"
      "mouse_y (mouse_state k) < 600"
    by (simp_all add: ps2_ok_def)
  have "unat (mouse_cycle k) \<le> 2" using c by (simp add: word_le_nat_alt)
  then have "unat (mouse_cycle k) = 0 \<or> unat (mouse_cycle k) = 1 \<or> unat (mouse_cycle k) = 2" by arith
  then have cyc: "mouse_cycle k = 0 \<or> mouse_cycle k = 1 \<or> mouse_cycle k = 2"
    by (elim disjE) (simp_all add: word_unat_eq_iff)
  have mv: "mouse_move ((mouse_packet k)[2 := b]) (mouse_state k)
      = Some (moved (mouse_packet k ! 0) (mouse_packet k ! 1) b (mouse_state k))"
    using mouse_move_moved [of "(mouse_packet k)[2 := b]", OF _ m] len by simp
  have "0 \<le> mouse_x (moved b0 b1 b2 (mouse_state k))" "mouse_x (moved b0 b1 b2 (mouse_state k)) < 800"
    "0 \<le> mouse_y (moved b0 b1 b2 (mouse_state k))" "mouse_y (moved b0 b1 b2 (mouse_state k)) < 600" for b0 b1 b2
    using m clamp_bounds [of 800] clamp_bounds [of 600] by (simp_all add: moved_def)
  then show ?thesis
    using cyc ok len mv by (elim disjE) (simp_all add: mouse_byte_def ps2_ok_def)
qed

text \<open>The states the driver reaches by mouse and keyboard interrupts, whatever the devices do.\<close>

inductive ps2_reach :: "'d bus \<Rightarrow> (u8 \<Rightarrow> 'd \<Rightarrow> 'd option) \<Rightarrow> ('d \<Rightarrow> 'd option) \<Rightarrow> ps2 \<Rightarrow> bool"
  for io keypress toggle where
  start: "ps2_reach io keypress toggle ps2_reset"
| mouse: "ps2_reach io keypress toggle k \<Longrightarrow> ps2_mouse_handler io k d = Some (k', d') \<Longrightarrow> ps2_reach io keypress toggle k'"
| keyboard: "ps2_reach io keypress toggle k \<Longrightarrow> ps2_keyboard_handler io keypress toggle k d = Some (k', d')
    \<Longrightarrow> ps2_reach io keypress toggle k'"

lemma mouse_handler_ok: "ps2_ok k \<Longrightarrow> \<exists>k' d'. ps2_mouse_handler io k d = Some (k', d') \<and> ps2_ok k'"
proof -
  assume ok: "ps2_ok k"
  obtain s e where s: "inb io 0x64 d = (s, e)" by fastforce
  obtain b f where b: "inb io 0x60 e = (b, f)" by fastforce
  show ?thesis using mouse_byte_ok [OF ok, of b] ok s b by (auto simp: ps2_mouse_handler_def)
qed

lemma keyboard_handler_mouse:
  "ps2_keyboard_handler io keypress toggle k d = Some (k', d') \<Longrightarrow> ps2_ok k \<Longrightarrow> ps2_ok k'"
  by (auto simp: ps2_keyboard_handler_def ps2_ok_def Let_def split: prod.splits if_splits Option.bind_splits)

text \<open>
  C22: whatever bytes the devices send, in whatever order keyboard and mouse interrupts arrive, the
  pointer is on the 800 by 600 screen, the packet position is below three, and the next mouse
  interrupt is handled without a fault.
\<close>
theorem ps2_mouse_on_screen:
  assumes "ps2_reach io keypress toggle k"
  shows "mouse_x (ps2_get_mouse_state k) \<in> {0..<800} \<and> mouse_y (ps2_get_mouse_state k) \<in> {0..<600}
    \<and> mouse_cycle k \<le> 2 \<and> (\<exists>k' d'. ps2_mouse_handler io k d = Some (k', d'))"
proof -
  have "ps2_ok k" using assms
  proof (induction rule: ps2_reach.induct)
    case start
    show ?case by (simp add: ps2_ok_def ps2_reset_def)
  next
    case (mouse k d k' d')
    then show ?case using mouse_handler_ok [of k io d] by auto
  next
    case (keyboard k d k' d')
    then show ?case by (intro keyboard_handler_mouse [of io keypress toggle k d k' d'])
  qed
  then show ?thesis using mouse_handler_ok [of k io d] by (auto simp: ps2_ok_def ps2_get_mouse_state_def)
qed

text \<open>A device that always has the byte 0x7F ready.\<close>

definition sample_ps2 :: "nat bus" where
  "sample_ps2 = \<lparr>inb = (\<lambda>p n. (if p = 0x64 then 1 else 0x3F, n)), outb = (\<lambda>_ _ n. n), inw = (\<lambda>_ n. (0, n)), outw = (\<lambda>_ _ n. n)\<rparr>"

theorem ps2_mouse_on_screen_witness:
  "\<exists>k. ps2_mouse_handler sample_ps2 ps2_reset 0 = Some (k, 0) \<and> mouse_x (ps2_get_mouse_state k) \<in> {0..<800}"
proof -
  have h: "ps2_mouse_handler sample_ps2 ps2_reset 0 = Some (ps2_reset \<lparr>mouse_packet := [0x3F, 0, 0], mouse_cycle := 1\<rparr>, 0)"
    by (simp add: ps2_mouse_handler_def sample_ps2_def mouse_byte_def ps2_reset_def)
  from ps2_mouse_on_screen [OF ps2_reach.mouse [OF ps2_reach.start h]] h show ?thesis by blast
qed

text \<open>
  three bytes that form a packet without an overflow bit move the pointer by the two displacements
  the code derives, clamped to the screen, and set the buttons; a displacement with a clear sign bit
  and a byte of 128 or more counts as negative, although the protocol means it to be positive.
\<close>
theorem ps2_mouse_packet_moves:
  assumes "ps2_ok k" "mouse_cycle k = 0" "b0 AND 0x08 \<noteq> 0" "b0 AND 0xC0 = 0"
  shows "\<exists>k'. mouse_byte b0 k \<bind> mouse_byte b1 \<bind> mouse_byte b2 = Some k' \<and> mouse_cycle k' = 0
    \<and> mouse_x (mouse_state k') = clamp 800 (mouse_x (mouse_state k)
         + (if b0 AND 0x10 \<noteq> 0 \<or> 128 \<le> b1 then uint b1 - 256 else uint b1))
    \<and> mouse_y (mouse_state k') = clamp 600 (mouse_y (mouse_state k)
         - (if b0 AND 0x20 \<noteq> 0 \<or> 128 \<le> b2 then uint b2 - 256 else uint b2))
    \<and> mouse_buttons (mouse_state k') = b0 AND 0x07"
proof -
  have len: "length (mouse_packet k) = 3" using assms(1) by (simp add: ps2_ok_def)
  let ?p = "(mouse_packet k)[0 := b0, 1 := b1, 2 := b2]"
  have p: "?p ! 0 = b0" "?p ! 1 = b1" "?p ! 2 = b2" "length ?p = 3" using len by simp_all
  have mv: "mouse_move ?p (mouse_state k) = Some (moved b0 b1 b2 (mouse_state k))"
    using mouse_move_moved [OF p(4), of "mouse_state k"] assms(1) unfolding p by (simp add: ps2_ok_def)
  have rel: "rel_of c b = (if c \<or> 128 \<le> b then uint b - 256 else uint b)" for c and b :: u8
    by (auto simp: rel_of_def sint8 word_le_def)
  have "mouse_byte b0 k \<bind> mouse_byte b1 \<bind> mouse_byte b2
      = Some (k \<lparr>mouse_packet := ?p, mouse_cycle := 0, mouse_state := moved b0 b1 b2 (mouse_state k)\<rparr>)"
    using assms(2,3) len mv by (simp add: mouse_byte_def)
  then show ?thesis using assms(4) by (simp add: moved_def rel)
qed

theorem ps2_mouse_packet_moves_witness:
  "\<exists>k'. mouse_byte 0x09 ps2_reset \<bind> mouse_byte 200 \<bind> mouse_byte 5 = Some k'
    \<and> mouse_x (mouse_state k') = 344 \<and> mouse_y (mouse_state k') = 295"
  using ps2_mouse_packet_moves [of ps2_reset "0x09" 200 5]
  by (simp add: ps2_ok_def ps2_reset_def clamp_def) blast

end
