(* ===== verification/Zpack.thy ===== *)
theory Zpack imports Kstring begin

unbundle bit_operations_syntax

text \<open>
  The compressor of the archiver \<open>src/zpack/zpack.c\<close>: the CRC, the LZ77 encoder with its hash table
  of 4-byte prefixes, the decoder, and the decoder of the old format.  A buffer is a list; the
  size the caller passes is a separate argument, and a write past the buffer has no value.  Sizes
  are 64 bits wide and stay far below that bound for buffers that fit in memory, so they are
  natural numbers; the table keeps \<open>int32_t\<close> positions, which wrap.

  The lemmas go through the list of sequences (literals, distance, match length) the encoder finds:
  its output is their encoding, they expand to the source, and the decoder expands any encoding.
\<close>

section \<open>Checksum and helpers\<close>

definition crc_bit :: "u32 \<Rightarrow> u32" where
  "crc_bit crc = drop_bit 1 crc XOR (0xEDB88320 AND (- (crc AND 1)))"

definition crc_byte :: "u32 \<Rightarrow> u8 \<Rightarrow> u32" where
  "crc_byte crc b = (crc_bit ^^ 8) (crc XOR ucast b)"

definition calc_crc32 :: "u8 list \<Rightarrow> u32 \<Rightarrow> u32" where
  "calc_crc32 data current_crc = NOT (foldl crc_byte (NOT current_crc) data)"

definition HASH_BITS :: nat where "HASH_BITS = 14"
definition HASH_SIZE :: nat where "HASH_SIZE = 2 ^ HASH_BITS"
definition MAX_DISTANCE :: nat where "MAX_DISTANCE = 65535"

text \<open>\<open>read32(src + i)\<close>, little-endian.\<close>

definition read32 :: "u8 list \<Rightarrow> nat \<Rightarrow> u32 option" where
  "read32 src i = do {
     a \<leftarrow> rd src i; b \<leftarrow> rd src (i + 1); c \<leftarrow> rd src (i + 2); d \<leftarrow> rd src (i + 3);
     Some (ucast a OR push_bit 8 (ucast b) OR push_bit 16 (ucast c) OR push_bit 24 (ucast d))}"

definition hash4 :: "u32 \<Rightarrow> u32" where
  "hash4 val = drop_bit (32 - HASH_BITS) (val * 2654435761)"

section \<open>The encoder\<close>

text \<open>The output buffer and \<open>out_pos\<close>; \<open>dst[out_pos++] = b\<close>.\<close>

type_synonym zout = "u8 list \<times> nat"

fun zput :: "u8 \<Rightarrow> zout \<Rightarrow> zout option" where
  "zput b (dst, pos) = do {dst \<leftarrow> wr dst pos b; Some (dst, pos + 1)}"

text \<open>\<open>while (rem >= 255) { dst[out_pos++] = 255; rem -= 255; } dst[out_pos++] = rem\<close>\<close>

fun zput_len :: "nat \<Rightarrow> zout \<Rightarrow> zout option" where
  "zput_len rem out =
     (if rem \<ge> 255 then zput 255 out \<bind> zput_len (rem - 255) else zput (of_nat rem) out)"

declare zput_len.simps [simp del]

text \<open>\<open>memcpy(dst + out_pos, src + from, n); out_pos += n\<close>\<close>

fun zput_copy :: "u8 list \<Rightarrow> nat \<Rightarrow> nat \<Rightarrow> zout \<Rightarrow> zout option" where
  "zput_copy src from n (dst, pos) =
     (if from + n \<le> length src \<and> pos + n \<le> length dst
      then Some (overlay dst pos (take n (drop from src)), pos + n) else None)"

function match_extend :: "u8 list \<Rightarrow> nat \<Rightarrow> nat \<Rightarrow> nat \<Rightarrow> nat" where
  "match_extend src ref in_pos m =
     (if in_pos + m < length src \<and> src ! (ref + m) = src ! (in_pos + m)
      then match_extend src ref in_pos (m + 1) else m)"
  by pat_completeness auto
termination by (relation "measure (\<lambda>(src, ref, in_pos, m). length src - (in_pos + m))") auto

declare match_extend.simps [simp del]

lemma match_extend_ge: "m \<le> match_extend src ref in_pos m"
proof (induction src ref in_pos m rule: match_extend.induct)
  case (1 src ref in_pos m)
  then show ?case by (subst match_extend.simps) (auto dest: Suc_leD)
qed

lemma match_progress:
  "in_pos + 4 \<le> length src \<Longrightarrow> length src - (in_pos + match_extend src ref in_pos 4) < length src - in_pos"
  using match_extend_ge [of 4 src ref in_pos] by linarith

text \<open>Token, literals, distance and match length of one sequence.\<close>

definition emit_seq :: "u8 list \<Rightarrow> nat \<Rightarrow> nat \<Rightarrow> u16 \<Rightarrow> nat \<Rightarrow> zout \<Rightarrow> zout option" where
  "emit_seq src anchor lit_len offset match_len out = do {
     let token = (if lit_len < 15 then push_bit 4 (of_nat lit_len) else push_bit 4 15);
     let m_token = match_len - 4;
     let token = (if m_token < 15 then token OR of_nat m_token else token OR 15);
     out \<leftarrow> zput token out;
     out \<leftarrow> (if lit_len \<ge> 15 then zput_len (lit_len - 15) out else Some out);
     out \<leftarrow> (if lit_len > 0 then zput_copy src anchor lit_len out else Some out);
     out \<leftarrow> zput (ucast (offset AND 0xFF)) out;
     out \<leftarrow> zput (ucast (drop_bit 8 offset)) out;
     if m_token \<ge> 15 then zput_len (m_token - 15) out else Some out}"

definition emit_last :: "u8 list \<Rightarrow> nat \<Rightarrow> zout \<Rightarrow> zout option" where
  "emit_last src anchor out = (
     let lit_len = length src - anchor in
     if lit_len > 0 then do {
       let token = (if lit_len < 15 then push_bit 4 (of_nat lit_len) else push_bit 4 15);
       out \<leftarrow> zput token out;
       out \<leftarrow> (if lit_len \<ge> 15 then zput_len (lit_len - 15) out else Some out);
       zput_copy src anchor lit_len out}
     else Some out)"

text \<open>
  The table read and the test for a usable earlier position: \<open>Some (Ptr ref)\<close> when the window at
  \<open>ref\<close> is in reach and agrees.  The subtraction is unsigned, so a wrapped entry is out of reach.
\<close>

definition match_at :: "u8 list \<Rightarrow> int \<Rightarrow> nat \<Rightarrow> u32 \<Rightarrow> nat cptr option" where
  "match_at src ref in_pos here =
     (if ref \<noteq> - 1 \<and> (int in_pos - ref) mod 2 ^ 64 \<le> int MAX_DISTANCE
      then if ref < 0 then None
        else do {
          there \<leftarrow> read32 src (nat ref);
          Some (if there = here then Ptr (nat ref) else NULL)}
      else Some NULL)"

function (sequential) compress_loop ::
  "u8 list \<Rightarrow> nat \<Rightarrow> int list \<Rightarrow> nat \<Rightarrow> nat \<Rightarrow> zout \<Rightarrow> (nat \<times> zout) option" where
  "compress_loop src dst_max table in_pos anchor (dst, out_pos) =
     (if in_pos + 4 \<le> length src \<and> out_pos + 32 < dst_max then do {
        here \<leftarrow> read32 src in_pos;
        let h = unat (hash4 here);
        ref \<leftarrow> rd table h;
        let table = table[h := wrap32 (int in_pos)];
        m \<leftarrow> match_at src ref in_pos here;
        (case m of
           Ptr ref \<Rightarrow> do {
             let match_len = match_extend src ref in_pos 4;
             out \<leftarrow> emit_seq src anchor (in_pos - anchor) (of_nat (in_pos - ref)) match_len (dst, out_pos);
             compress_loop src dst_max table (in_pos + match_len) (in_pos + match_len) out}
         | NULL \<Rightarrow> compress_loop src dst_max table (in_pos + 1) anchor (dst, out_pos))}
      else Some (anchor, dst, out_pos))"
  by pat_completeness auto

termination
  by (relation "measure (\<lambda>(src, dst_max, table, in_pos, anchor, out). length src - in_pos)")
     (auto intro: match_progress)

declare compress_loop.simps [simp del]

text \<open>Arguments: \<open>src\<close> (its length is \<open>src_len\<close>), the buffer \<open>dst\<close> and \<open>dst_max\<close>.\<close>

definition zpack2_compress :: "u8 list cptr \<Rightarrow> u8 list cptr \<Rightarrow> nat \<Rightarrow> (u8 list cptr \<times> nat) option" where
  "zpack2_compress src dst dst_max =
     (case (src, dst) of
        (Ptr s, Ptr b) \<Rightarrow>
          if s = [] \<or> dst_max < length s + 64 then Some (dst, 0)
          else do {
            (anchor, out) \<leftarrow> compress_loop s dst_max (replicate HASH_SIZE (- 1)) 0 0 (b, 0);
            (b, out_pos) \<leftarrow> emit_last s anchor out;
            Some (Ptr b, out_pos)}
      | _ \<Rightarrow> Some (dst, 0))"

section \<open>The decoder\<close>

text \<open>The loop that adds length bytes while they are 255; \<open>NULL\<close> when the input ends in it.\<close>

function read_len :: "u8 list \<Rightarrow> nat \<Rightarrow> nat \<Rightarrow> (nat \<times> nat) cptr" where
  "read_len src in_pos n =
     (if in_pos \<ge> length src then NULL
      else let s = src ! in_pos; n = n + unat s in
        if s = 255 then read_len src (in_pos + 1) n else Ptr (n, in_pos + 1))"
  by pat_completeness auto
termination by (relation "measure (\<lambda>(src, in_pos, n). length src - in_pos)") auto

declare read_len.simps [simp del]

text \<open>\<open>for (i = 0; i < n; i++) { dst[out_pos] = dst[out_pos - offset]; out_pos++; }\<close>\<close>

fun copy_match :: "nat \<Rightarrow> nat \<Rightarrow> u8 list \<Rightarrow> nat \<Rightarrow> u8 list option" where
  "copy_match offset 0 dst out_pos = Some dst"
| "copy_match offset (Suc n) dst out_pos = do {
     b \<leftarrow> (if offset \<le> out_pos then rd dst (out_pos - offset) else None);
     dst \<leftarrow> wr dst out_pos b;
     copy_match offset n dst (out_pos + 1)}"

text \<open>One round of the loop: the early return of 0, the \<open>break\<close>, or the next round's input position.\<close>

datatype zstep = ZFail "u8 list" | ZBreak zout | ZNext nat zout

definition decode_match :: "u8 list \<Rightarrow> nat \<Rightarrow> u8 \<Rightarrow> nat \<Rightarrow> zout \<Rightarrow> zstep option" where
  "decode_match src dst_max token in_pos out = (case out of (dst, out_pos) \<Rightarrow>
     if in_pos + 2 > length src then Some (ZFail dst)
     else do {
       lo \<leftarrow> rd src in_pos;
       hi \<leftarrow> rd src (in_pos + 1);
       let offset = unat lo + 256 * unat hi;
       let in_pos = in_pos + 2;
       if offset = 0 \<or> offset > out_pos then Some (ZFail dst)
       else do {
         let match_len = unat (token AND 0x0F);
         (case (if match_len = 15 then read_len src in_pos match_len else Ptr (match_len, in_pos)) of
            NULL \<Rightarrow> Some (ZFail dst)
          | Ptr (match_len, in_pos) \<Rightarrow> do {
              let match_len = match_len + 4;
              if out_pos + match_len > dst_max then Some (ZFail dst)
              else do {
                dst \<leftarrow> copy_match offset match_len dst out_pos;
                Some (ZNext in_pos (dst, out_pos + match_len))}})}})"

definition decode_step :: "u8 list \<Rightarrow> nat \<Rightarrow> nat \<Rightarrow> zout \<Rightarrow> zstep option" where
  "decode_step src dst_max in_pos out = (case out of (dst, out_pos) \<Rightarrow> do {
     token \<leftarrow> rd src in_pos;
     let in_pos = in_pos + 1;
     let lit_len = unat (drop_bit 4 token);
     (case (if lit_len = 15 then read_len src in_pos lit_len else Ptr (lit_len, in_pos)) of
        NULL \<Rightarrow> Some (ZFail dst)
      | Ptr (lit_len, in_pos) \<Rightarrow>
          if out_pos + lit_len > dst_max \<or> in_pos + lit_len > length src then Some (ZFail dst)
          else do {
            out \<leftarrow> zput_copy src in_pos lit_len (dst, out_pos);
            let in_pos = in_pos + lit_len;
            if in_pos \<ge> length src then Some (ZBreak out)
            else decode_match src dst_max token in_pos out})})"

lemma read_len_progress: "read_len src i n = Ptr (m, j) \<Longrightarrow> i < j"
proof (induction src i n rule: read_len.induct)
  case (1 src i n)
  then show ?case by (subst (asm) (2) read_len.simps) (auto simp: Let_def split: if_splits)
qed

lemma decode_step_progress: "decode_step src dst_max i out = Some (ZNext j out') \<Longrightarrow> i < j \<and> i < length src"
  by (auto simp: decode_step_def decode_match_def Let_def dest!: read_len_progress rd_SomeD
      split: prod.splits cptr.splits if_splits Option.bind_splits)

function decompress_loop :: "u8 list \<Rightarrow> nat \<Rightarrow> nat \<Rightarrow> zout \<Rightarrow> zout option" where
  "decompress_loop src dst_max in_pos out =
     (if in_pos < length src \<and> snd out < dst_max then
        (case decode_step src dst_max in_pos out of
           None \<Rightarrow> None
         | Some (ZFail dst) \<Rightarrow> Some (dst, 0)
         | Some (ZBreak out) \<Rightarrow> Some out
         | Some (ZNext in_pos out) \<Rightarrow> decompress_loop src dst_max in_pos out)
      else Some out)"
  by pat_completeness auto
termination
  by (relation "measure (\<lambda>(src, dst_max, in_pos, out). length src - in_pos)")
     (auto dest: decode_step_progress intro: diff_less_mono2)

declare decompress_loop.simps [simp del]

definition zpack2_decompress :: "u8 list cptr \<Rightarrow> u8 list cptr \<Rightarrow> nat \<Rightarrow> (u8 list cptr \<times> nat) option" where
  "zpack2_decompress src dst dst_max =
     (case (src, dst) of
        (Ptr s, Ptr b) \<Rightarrow> map_option (\<lambda>(b, n). (Ptr b, n)) (decompress_loop s dst_max 0 (b, 0))
      | _ \<Rightarrow> Some (dst, 0))"

text \<open>The old format: groups of eight items with a flag byte.  The inner loop over the bits.\<close>

fun lzss_bits :: "u8 list \<Rightarrow> nat \<Rightarrow> u8 \<Rightarrow> nat \<Rightarrow> nat \<Rightarrow> nat \<Rightarrow> zout \<Rightarrow> (nat \<times> zout) option" where
  "lzss_bits src dst_max flags 0 b in_pos out = Some (in_pos, out)"
| "lzss_bits src dst_max flags (Suc k) b in_pos (dst, out_pos) =
     (if in_pos < length src \<and> out_pos < dst_max then
        (if bit flags b then
           (if in_pos + 1 \<ge> length src then Some (in_pos, dst, out_pos)
            else do {
              hi \<leftarrow> rd src in_pos;
              lo \<leftarrow> rd src (in_pos + 1);
              let in_pos = in_pos + 2;
              let token = 256 * unat hi + unat lo;
              let dist = token div 16;
              let len = token mod 16 + 3;
              if int dist > wrap32 (int out_pos) \<or> out_pos + len > dst_max then Some (in_pos, dst, out_pos)
              else do {
                dst \<leftarrow> copy_match dist len dst out_pos;
                lzss_bits src dst_max flags k (b + 1) in_pos (dst, out_pos + len)}})
         else do {
           v \<leftarrow> rd src in_pos;
           out \<leftarrow> zput v (dst, out_pos);
           lzss_bits src dst_max flags k (b + 1) (in_pos + 1) out})
      else Some (in_pos, dst, out_pos))"

lemma lzss_bits_progress: "lzss_bits src dst_max flags k b i out = Some (j, out') \<Longrightarrow> i \<le> j"
proof (induction k arbitrary: b i out)
  case (Suc k)
  obtain dst pos where "out = (dst, pos)" by (cases out)
  then show ?case
    using Suc.prems by (auto simp: Let_def split: if_splits Option.bind_splits dest!: Suc.IH)
qed simp

function lzss_loop :: "u8 list \<Rightarrow> nat \<Rightarrow> nat \<Rightarrow> zout \<Rightarrow> zout option" where
  "lzss_loop src dst_max in_pos out =
     (if in_pos < length src \<and> snd out < dst_max then
        (case lzss_bits src dst_max (src ! in_pos) 8 0 (in_pos + 1) out of
           None \<Rightarrow> None
         | Some (in_pos, out) \<Rightarrow> lzss_loop src dst_max in_pos out)
      else Some out)"
  by pat_completeness auto
termination
  by (relation "measure (\<lambda>(src, dst_max, in_pos, out). length src - in_pos)")
     (auto dest!: lzss_bits_progress)

declare lzss_loop.simps [simp del]

definition lzss1_decompress :: "u8 list \<Rightarrow> u8 list \<Rightarrow> nat \<Rightarrow> (u8 list \<times> nat) option" where
  "lzss1_decompress src dst dst_max = lzss_loop src dst_max 0 (dst, 0)"

section \<open>Sequences\<close>

text \<open>What the encoder appends to its output, in one piece.\<close>

fun zemit :: "u8 list \<Rightarrow> zout \<Rightarrow> zout option" where
  "zemit bs (dst, pos) =
     (if bs = [] \<or> pos + length bs \<le> length dst then Some (overlay dst pos bs, pos + length bs) else None)"

lemma overlay_empty [simp]: "overlay b i [] = b"
  by (simp add: overlay_def)

lemma zemit_append: "zemit xs out \<bind> zemit ys = zemit (xs @ ys) out"
  by (cases out; cases "xs = []"; cases "ys = []") (auto simp: overlay_overlay)

lemma zemit_bind: "zemit xs out \<bind> (\<lambda>out. zemit ys out \<bind> f) = zemit (xs @ ys) out \<bind> f"
  by (simp flip: zemit_append)

lemma zput_zemit: "zput b = zemit [b]"
  by (rule ext) (auto simp: overlay_update)

fun ext255 :: "nat \<Rightarrow> u8 list" where
  "ext255 r = (if r \<ge> 255 then 255 # ext255 (r - 255) else [of_nat r])"

declare ext255.simps [simp del]

lemma zput_len_zemit: "zput_len r = zemit (ext255 r)"
proof (rule ext)
  show "zput_len r out = zemit (ext255 r) out" for out
  proof (induction r arbitrary: out rule: ext255.induct)
    case (1 r)
    show ?case
    proof (cases "r \<ge> 255")
      case True
      then have "zput_len r out = zemit [255] out \<bind> zemit (ext255 (r - 255))"
        using ext [of "zput_len (r - 255)" "zemit (ext255 (r - 255))", OF 1 [OF True]]
        by (subst zput_len.simps) (simp add: zput_zemit)
      then show ?thesis using True unfolding zemit_append by (subst ext255.simps) simp
    next
      case False
      then show ?thesis by (subst zput_len.simps, subst ext255.simps) (simp add: zput_zemit)
    qed
  qed
qed

lemma zput_copy_zemit: "0 < n \<Longrightarrow> from + n \<le> length src \<Longrightarrow> zput_copy src from n = zemit (take n (drop from src))"
  by (rule ext) auto

type_synonym zseq = "u8 list \<times> nat \<times> nat"

definition ztoken :: "nat \<Rightarrow> nat \<Rightarrow> u8" where
  "ztoken l m = push_bit 4 (of_nat (min l 15)) OR of_nat (min m 15)"

definition zext :: "nat \<Rightarrow> u8 list" where
  "zext n = (if n \<ge> 15 then ext255 (n - 15) else [])"

definition encode_seq :: "zseq \<Rightarrow> u8 list" where
  "encode_seq s = (case s of (l, off, m) \<Rightarrow>
     ztoken (length l) (m - 4) # zext (length l) @ l @ [of_nat (off mod 256), of_nat (off div 256)] @ zext (m - 4))"

definition encode_last :: "u8 list \<Rightarrow> u8 list" where
  "encode_last l = (if l = [] then [] else ztoken (length l) 0 # zext (length l) @ l)"

lemma token_eq:
  "(if l < 15 then push_bit 4 (of_nat l) else push_bit 4 15) = (push_bit 4 (of_nat (min l 15)) :: u8)"
  by (simp add: min_def)

lemma token_or_eq: "(if m < 15 then x OR of_nat m else x OR 15) = (x OR of_nat (min m 15) :: u8)"
  by (simp add: min_def)

lemma offset_bytes:
  "ucast ((off :: u16) AND 0xFF) = (of_nat (unat off mod 256) :: u8)"
  "ucast (drop_bit 8 (off :: u16)) = (of_nat (unat off div 256) :: u8)"
proof -
  have m: "(0xFF :: u16) = mask 8" by (simp add: mask_eq_exp_minus_1)
  have "unat (off AND mask 8) = unat off mod 256" using unat_and_mask [of off 8] by simp
  then show "ucast (off AND 0xFF) = (of_nat (unat off mod 256) :: u8)"
    unfolding m by (metis of_nat_unat)
  have "unat (drop_bit 8 off) = unat off div 256" using unat_drop_bit [of 8 off] by simp
  then show "ucast (drop_bit 8 off) = (of_nat (unat off div 256) :: u8)"
    by (metis of_nat_unat)
qed

lemma emit_seq_encode:
  assumes "anchor + lit \<le> length src"
  shows "emit_seq src anchor lit off m = zemit (encode_seq (take lit (drop anchor src), unat off, m))"
proof (rule ext)
  fix out
  have c: "(if lit > 0 then zput_copy src anchor lit out else Some out) = zemit (take lit (drop anchor src)) out" for out
    using assms by (cases out) (auto simp: zput_copy_zemit)
  have e: "(if n \<ge> 15 then zput_len (n - 15) out else Some out) = zemit (zext n) out" for n out
    by (cases out) (simp add: zext_def zput_len_zemit)
  show "emit_seq src anchor lit off m out = zemit (encode_seq (take lit (drop anchor src), unat off, m)) out"
    unfolding emit_seq_def Let_def token_eq token_or_eq c e zput_zemit zemit_bind zemit_append offset_bytes
    using assms by (simp add: encode_seq_def ztoken_def)
qed

lemma emit_last_encode: "emit_last src anchor = zemit (encode_last (drop anchor src))"
proof (rule ext)
  fix out
  have e: "(if n \<ge> 15 then zput_len (n - 15) out else Some out) = zemit (zext n) out" for n out
    by (cases out) (simp add: zext_def zput_len_zemit)
  show "emit_last src anchor out = zemit (encode_last (drop anchor src)) out"
  proof (cases "anchor < length src")
    case True
    then have c: "zput_copy src anchor (length src - anchor) = zemit (drop anchor src)"
      by (subst zput_copy_zemit) simp_all
    show ?thesis
      unfolding emit_last_def Let_def token_eq c e zput_zemit zemit_bind zemit_append
      using True by (simp add: encode_last_def ztoken_def)
  next
    case False
    then show ?thesis by (cases out) (simp add: emit_last_def encode_last_def)
  qed
qed

text \<open>What a sequence stands for.\<close>

fun lz_copy :: "nat \<Rightarrow> nat \<Rightarrow> u8 list \<Rightarrow> u8 list" where
  "lz_copy off 0 out = out"
| "lz_copy off (Suc n) out = lz_copy off n (out @ [out ! (length out - off)])"

fun expand :: "u8 list \<Rightarrow> zseq list \<Rightarrow> u8 list" where
  "expand out [] = out"
| "expand out ((l, off, m) # ss) = expand (lz_copy off m (out @ l)) ss"

fun seqs_ok :: "u8 list \<Rightarrow> zseq list \<Rightarrow> bool" where
  "seqs_ok out [] = True"
| "seqs_ok out ((l, off, m) # ss) \<longleftrightarrow> 0 < off \<and> off < 65536 \<and> off \<le> length out + length l \<and> 4 \<le> m
     \<and> seqs_ok (lz_copy off m (out @ l)) ss"

lemma length_lz_copy [simp]: "length (lz_copy off n out) = length out + n"
  by (induction n arbitrary: out) simp_all

lemma lz_copy_take:
  "r < p \<Longrightarrow> p + n \<le> length src \<Longrightarrow> \<forall>i < n. src ! (r + i) = src ! (p + i)
   \<Longrightarrow> lz_copy (p - r) n (take p src) = take (p + n) src"
proof (induction n arbitrary: p r)
  case (Suc n)
  have "take p src ! (length (take p src) - (p - r)) = src ! p"
    using Suc.prems by (simp add: Suc.prems(3) [rule_format, of 0, simplified])
  then have "take p src @ [take p src ! (length (take p src) - (p - r))] = take (Suc p) src"
    using Suc.prems(2) by (simp add: take_Suc_conv_app_nth)
  moreover have "lz_copy (Suc p - Suc r) n (take (Suc p) src) = take (Suc p + n) src"
    using Suc.prems(1,2) by (intro Suc.IH) (simp_all add: Suc.prems(3) [rule_format, of "Suc _", simplified])
  ultimately show ?case by simp
qed simp

section \<open>What the encoder finds\<close>

lemma pack32_byte:
  fixes a b c d :: u8
  defines "w \<equiv> (ucast a OR push_bit 8 (ucast b) OR push_bit 16 (ucast c) OR push_bit 24 (ucast d) :: u32)"
  shows "ucast w = a" "ucast (drop_bit 8 w) = b" "ucast (drop_bit 16 w) = c" "ucast (drop_bit 24 w) = d"
  unfolding w_def by (rule bit_word_eqI, auto simp: bit_simps dest: bit_imp_le_length)+

lemma read32_Some: "i + 4 \<le> length src \<Longrightarrow> read32 src i
  = Some (ucast (src ! i) OR push_bit 8 (ucast (src ! (i + 1))) OR push_bit 16 (ucast (src ! (i + 2)))
      OR push_bit 24 (ucast (src ! (i + 3))))"
  by (simp add: read32_def)

lemma read32_length: "read32 src i = Some w \<Longrightarrow> i + 4 \<le> length src"
  by (auto simp: read32_def dest!: rd_SomeD split: Option.bind_splits)

lemma read32_agree:
  assumes "read32 src i = Some w" "read32 src j = Some w" "k < 4"
  shows "src ! (i + k) = src ! (j + k)"
proof -
  have len: "i + 4 \<le> length src" "j + 4 \<le> length src" using assms(1,2) by (simp_all add: read32_length)
  let ?p = "\<lambda>i. ucast (src ! i) OR push_bit 8 (ucast (src ! (i + 1))) OR push_bit 16 (ucast (src ! (i + 2)))
      OR push_bit 24 (ucast (src ! (i + 3))) :: u32"
  have w: "?p i = w" "?p j = w"
    using assms(1,2) unfolding read32_Some [OF len(1)] read32_Some [OF len(2)] by simp_all
  have "src ! i = src ! j" "src ! (i + 1) = src ! (j + 1)" "src ! (i + 2) = src ! (j + 2)" "src ! (i + 3) = src ! (j + 3)"
    by (metis w pack32_byte(1)) (metis w pack32_byte(2), metis w pack32_byte(3), metis w pack32_byte(4))
  moreover have "k = 0 \<or> k = 1 \<or> k = 2 \<or> k = 3" using assms(3) by auto
  ultimately show ?thesis by auto
qed

lemma match_extend_agrees:
  "p + m \<le> length src \<Longrightarrow> \<forall>i < m. src ! (r + i) = src ! (p + i) \<Longrightarrow>
   p + match_extend src r p m \<le> length src \<and> (\<forall>i < match_extend src r p m. src ! (r + i) = src ! (p + i))"
proof (induction src r p m rule: match_extend.induct)
  case (1 src r p m)
  show ?case
  proof (cases "p + m < length src \<and> src ! (r + m) = src ! (p + m)")
    case True
    have "\<forall>i < m + 1. src ! (r + i) = src ! (p + i)" using True 1(3) by (simp add: less_Suc_eq)
    moreover have "match_extend src r p m = match_extend src r p (m + 1)"
      by (subst match_extend.simps) (simp add: True)
    ultimately show ?thesis using 1(1) [OF True] True by simp
  next
    case False
    have "match_extend src r p m = m" by (subst match_extend.simps) (simp only: False if_False)
    then show ?thesis using 1(2,3) by simp
  qed
qed

lemma match_at_Ptr:
  assumes "match_at src ref p here = Some (Ptr r)" "read32 src p = Some here" "ref < int p" "p < 2 ^ 63"
  shows "r < p" "p - r \<le> 65535" "\<forall>i < 4. src ! (r + i) = src ! (p + i)"
proof -
  have a: "ref \<noteq> - 1" "(int p - ref) mod 2 ^ 64 \<le> 65535" "0 \<le> ref" "r = nat ref" "read32 src r = Some here"
    using assms(1) by (auto simp: match_at_def MAX_DISTANCE_def split: if_splits Option.bind_splits)
  have "(int p - ref) mod 2 ^ 64 = int p - ref" using a(3) assms(3,4) by (intro mod_pos_pos_trivial) simp_all
  then show "r < p" "p - r \<le> 65535" using a assms(3) by simp_all
  show "\<forall>i < 4. src ! (r + i) = src ! (p + i)" using read32_agree [OF a(5) assms(2)] by blast
qed

lemma wrap32_le: "0 \<le> x \<Longrightarrow> wrap32 x \<le> x"
proof -
  assume "0 \<le> x"
  then have "(x + 2 ^ 31) mod 2 ^ 32 \<le> x + 2 ^ 31" by (intro zmod_le_nonneg_dividend) simp
  then show ?thesis by (simp add: wrap32_def)
qed

lemma compress_loop_seqs:
  assumes "compress_loop src dst_max table p anchor out = Some (anchor', out')"
    and "\<forall>e \<in> set table. e < int p" "anchor \<le> p" "p \<le> length src" "length src < 2 ^ 63"
  shows "\<exists>ss. zemit (concat (map encode_seq ss)) out = Some out' \<and> seqs_ok (take anchor src) ss
    \<and> expand (take anchor src) ss = take anchor' src \<and> anchor' \<le> length src"
  using assms
proof (induction src dst_max table p anchor out rule: compress_loop.induct)
  case (1 src dst_max table p anchor dst pos)
  show ?case
  proof (cases "p + 4 \<le> length src \<and> pos + 32 < dst_max")
    case False
    have "compress_loop src dst_max table p anchor (dst, pos) = Some (anchor, dst, pos)"
      by (subst compress_loop.simps) (simp only: False if_False)
    then have "anchor' = anchor" "out' = (dst, pos)" using 1(3) by simp_all
    then show ?thesis using 1(5,6) by (intro exI [of _ "[]"]) simp
  next
    case True
    obtain here where here: "read32 src p = Some here" using True read32_Some by blast
    define h where "h = unat (hash4 here)"
    have step: "rd table h \<bind> (\<lambda>ref. match_at src ref p here \<bind> (\<lambda>m. case m of
         Ptr r \<Rightarrow> emit_seq src anchor (p - anchor) (of_nat (p - r)) (match_extend src r p 4) (dst, pos) \<bind>
           compress_loop src dst_max (table[h := wrap32 (int p)]) (p + match_extend src r p 4) (p + match_extend src r p 4)
       | NULL \<Rightarrow> compress_loop src dst_max (table[h := wrap32 (int p)]) (Suc p) anchor (dst, pos))) = Some (anchor', out')"
      using 1(3) unfolding h_def by (subst (asm) compress_loop.simps) (simp add: True here Let_def)
    obtain ref where ref: "rd table h = Some ref" "ref \<in> set table"
      using step by (auto dest: rd_SomeD split: Option.bind_splits)
    define table' where "table' = table[h := wrap32 (int p)]"
    have tab: "\<forall>e \<in> set table'. e < int p + k" if "k > 0" for k
    proof
      fix e
      assume "e \<in> set table'"
      then have "e \<in> insert (wrap32 (int p)) (set table)"
        unfolding table'_def using set_update_subset_insert by fastforce
      then show "e < int p + k" using 1(4) wrap32_le [of "int p"] that by fastforce
    qed
    obtain m where m: "match_at src ref p here = Some m"
      using step ref(1) by (auto split: Option.bind_splits)
    show ?thesis
    proof (cases m)
      case NULL
      have "compress_loop src dst_max table' (p + 1) anchor (dst, pos) = Some (anchor', out')"
        using step ref(1) m NULL by (simp add: table'_def)
      moreover have "\<forall>e \<in> set table'. e < int (p + 1)" using tab [of 1] by (auto simp: add.commute)
      ultimately show ?thesis
        using 1(1) [OF True here h_def ref(1) table'_def m NULL] 1(5,7) True by simp
    next
      case (Ptr r)
      define n where "n = match_extend src r p 4"
      have r: "r < p" "p - r \<le> 65535" "\<forall>i < 4. src ! (r + i) = src ! (p + i)"
        using match_at_Ptr [OF m [unfolded Ptr] here] 1(4,6,7) ref(2) by auto
      have n: "p + n \<le> length src" "\<forall>i < n. src ! (r + i) = src ! (p + i)" "4 \<le> n"
        using match_extend_agrees [of p 4 src r] r(3) True match_extend_ge [of 4 src r p] unfolding n_def by simp_all
      define l where "l = take (p - anchor) (drop anchor src)"
      have u: "unat (of_nat (p - r) :: u16) = p - r" using r(2) by (simp add: unat_of_nat take_bit_eq_mod)
      have emit: "emit_seq src anchor (p - anchor) (of_nat (p - r)) n = zemit (encode_seq (l, p - r, n))"
        using emit_seq_encode [of anchor "p - anchor" src "of_nat (p - r)" n] 1(5,6) unfolding l_def u by simp
      obtain o1 where o1: "zemit (encode_seq (l, p - r, n)) (dst, pos) = Some o1"
        "compress_loop src dst_max table' (p + n) (p + n) o1 = Some (anchor', out')"
        using step ref(1) m Ptr by (auto simp: table'_def emit n_def [symmetric] split: Option.bind_splits)
      have "\<forall>e \<in> set table'. e < int (p + n)" using tab [of "int n"] n(3) by simp
      then obtain ss where ss: "zemit (concat (map encode_seq ss)) o1 = Some out'" "seqs_ok (take (p + n) src) ss"
        "expand (take (p + n) src) ss = take anchor' src" "anchor' \<le> length src"
        using 1(2) [OF True here h_def ref(1) table'_def m Ptr n_def _ o1(2)] o1(1) emit n(1) 1(7) by auto
      have app: "take anchor src @ l = take p src"
        unfolding l_def using 1(5) take_add [of anchor "p - anchor" src] by simp
      have copy: "lz_copy (p - r) n (take p src) = take (p + n) src" by (rule lz_copy_take [OF r(1) n(1,2)])
      have "zemit (concat (map encode_seq ((l, p - r, n) # ss))) (dst, pos) = Some out'"
        using o1(1) ss(1) zemit_append [of "encode_seq (l, p - r, n)" "(dst, pos)" "concat (map encode_seq ss)"] by simp
      moreover have "length (take anchor src) + length l = p" using arg_cong [OF app, of length] 1(6) by simp
      ultimately show ?thesis
        using ss(2-4) r n(3) app copy by (intro exI [of _ "(l, p - r, n) # ss"]) simp
    qed
  qed
qed

section \<open>What the decoder expands\<close>

lemma token_nibbles:
  "unat (drop_bit 4 (ztoken l m)) = min l 15" "unat (ztoken l m AND 0x0F) = min m 15"
proof -
  have all: "list_all (\<lambda>a. list_all (\<lambda>b. unat (drop_bit 4 (push_bit 4 (of_nat a) OR of_nat b :: u8)) = a
      \<and> unat ((push_bit 4 (of_nat a) OR of_nat b :: u8) AND 0x0F) = b) [0..<16]) [0..<16]"
    by code_simp
  have "min l 15 < 16" "min m 15 < 16" by simp_all
  then show "unat (drop_bit 4 (ztoken l m)) = min l 15" "unat (ztoken l m AND 0x0F) = min m 15"
    using all [unfolded list_all_iff, rule_format, of "min l 15" "min m 15"] unfolding ztoken_def by simp_all
qed

lemma read_len_ext:
  "src = pre @ ext255 r @ rest \<Longrightarrow> read_len src (length pre) n = Ptr (n + r, length pre + length (ext255 r))"
proof (induction r arbitrary: pre n rule: ext255.induct)
  case (1 r)
  show ?case
  proof (cases "r \<ge> 255")
    case True
    then have e: "ext255 r = 255 # ext255 (r - 255)" by (subst ext255.simps) simp
    have "read_len src (length (pre @ [255])) (n + 255) = Ptr (n + 255 + (r - 255), length (pre @ [255]) + length (ext255 (r - 255)))"
      using 1(2) by (intro 1(1) [OF True]) (simp add: e)
    moreover have "read_len src (length pre) n = read_len src (length (pre @ [255])) (n + 255)"
      using 1(2) by (subst read_len.simps) (simp add: e)
    ultimately show ?thesis using True by (simp add: e)
  next
    case False
    then have e: "ext255 r = [of_nat r]" by (subst ext255.simps) simp
    have u: "unat (of_nat r :: u8) = r" using False by (simp add: unat_of_nat take_bit_eq_mod)
    have "(of_nat r :: u8) \<noteq> 255"
    proof
      assume "(of_nat r :: u8) = 255"
      with u have "unat (255 :: u8) = r" by simp
      with False show False by simp
    qed
    then show ?thesis using 1(2) u by (subst read_len.simps) (simp add: e)
  qed
qed

lemma copy_match_lz:
  "take pos dst = o1 \<Longrightarrow> length o1 = pos \<Longrightarrow> pos + m \<le> length dst \<Longrightarrow> 0 < off \<Longrightarrow> off \<le> pos \<Longrightarrow>
   \<exists>dst'. copy_match off m dst pos = Some dst' \<and> take (pos + m) dst' = lz_copy off m o1 \<and> length dst' = length dst"
proof (induction m arbitrary: dst pos o1)
  case (Suc m)
  let ?b = "dst ! (pos - off)"
  have b: "?b = o1 ! (length o1 - off)" using Suc.prems by (metis diff_less nth_take order_less_le_trans)
  have "take (Suc pos) (dst[pos := ?b]) = o1 @ [?b]"
    using Suc.prems(1,3) by (simp add: take_Suc_conv_app_nth)
  then obtain dst' where "copy_match off m (dst[pos := ?b]) (Suc pos) = Some dst'"
    "take (Suc pos + m) dst' = lz_copy off m (o1 @ [?b])" "length dst' = length dst"
    using Suc.IH [of "Suc pos" "dst[pos := ?b]" "o1 @ [?b]"] Suc.prems by auto
  then show ?case using Suc.prems b by simp
qed simp

lemma nibble_len:
  assumes "src = pre @ zext n @ rest" "i = length pre"
  shows "(if min n 15 = 15 then read_len src i (min n 15) else Ptr (min n 15, i)) = Ptr (n, i + length (zext n))"
proof (cases "n \<ge> 15")
  case True
  then have "read_len src (length pre) 15 = Ptr (15 + (n - 15), length pre + length (ext255 (n - 15)))"
    using assms(1) by (intro read_len_ext [of _ _ _ rest]) (simp add: zext_def)
  then show ?thesis using True assms(2) by (simp add: zext_def)
next
  case False
  then show ?thesis by (simp add: zext_def)
qed

lemma zput_copy_at:
  assumes "src = pre @ l @ rest" "take pos dst = o1" "length o1 = pos" "pos + length l \<le> length dst"
  shows "\<exists>dst'. zput_copy src (length pre) (length l) (dst, pos) = Some (dst', pos + length l)
    \<and> take (pos + length l) dst' = o1 @ l \<and> length dst' = length dst"
  using assms by (simp add: overlay_def)

lemma decode_match_ok:
  assumes src: "src = pre @ [of_nat (off mod 256), of_nat (off div 256)] @ zext (m - 4) @ rest"
    and tok: "unat (tok AND 0x0F) = min (m - 4) 15"
    and dst: "take pos dst = o1" "length o1 = pos" "pos + m \<le> dst_max" "dst_max \<le> length dst"
    and off: "0 < off" "off < 65536" "off \<le> pos" and m: "4 \<le> m"
  shows "\<exists>dst'. decode_match src dst_max tok (length pre) (dst, pos)
      = Some (ZNext (length pre + 2 + length (zext (m - 4))) (dst', pos + m))
    \<and> take (pos + m) dst' = lz_copy off m o1 \<and> length dst' = length dst"
proof -
  have bytes: "unat (src ! length pre) = off mod 256" "unat (src ! Suc (length pre)) = off div 256"
    using off(2) unfolding src by (simp_all add: nth_append unat_of_nat take_bit_eq_mod)
  have offset: "unat (src ! length pre) + 256 * unat (src ! Suc (length pre)) = off" unfolding bytes by simp
  have len: "(if min (m - 4) 15 = 15 then read_len src (length pre + 2) (min (m - 4) 15) else Ptr (min (m - 4) 15, length pre + 2))
      = Ptr (m - 4, length pre + 2 + length (zext (m - 4)))"
    by (rule nibble_len [of _ "pre @ [of_nat (off mod 256), of_nat (off div 256)]" _ rest]) (simp_all add: src)
  obtain dst' where "copy_match off m dst pos = Some dst'" "take (pos + m) dst' = lz_copy off m o1" "length dst' = length dst"
    using copy_match_lz [OF dst(1,2), of m off] dst(3,4) off by auto
  moreover have "rd src (length pre) = Some (src ! length pre)" "rd src (length pre + 1) = Some (src ! Suc (length pre))"
    unfolding src by (subst rd_in; simp)+
  moreover have "\<not> length pre + 2 > length src" unfolding src by simp
  moreover have "\<not> (off = 0 \<or> off > pos)" "\<not> pos + (m - 4 + 4) > dst_max" "m - 4 + 4 = m" using off dst(3) m by simp_all
  ultimately show ?thesis
    unfolding decode_match_def
    by (simp only: prod.case if_False bind.bind_lunit Let_def offset tok len cptr.case) blast
qed

lemma decode_step_head:
  assumes src: "src = pre @ ztoken (length l) k # zext (length l) @ l @ rest"
    and dst: "take pos dst = o1" "length o1 = pos" "pos + length l \<le> dst_max" "dst_max \<le> length dst"
  shows "\<exists>dst'. take (pos + length l) dst' = o1 @ l \<and> length dst' = length dst
    \<and> decode_step src dst_max (length pre) (dst, pos)
      = (if rest = [] then Some (ZBreak (dst', pos + length l))
         else decode_match src dst_max (ztoken (length l) k) (length pre + 1 + length (zext (length l)) + length l)
           (dst', pos + length l))"
proof -
  let ?tok = "ztoken (length l) k"
  have t: "rd src (length pre) = Some ?tok" unfolding src by (simp add: nth_append)
  have len: "(if min (length l) 15 = 15 then read_len src (length pre + 1) (min (length l) 15)
       else Ptr (min (length l) 15, length pre + 1)) = Ptr (length l, length pre + 1 + length (zext (length l)))"
    by (rule nibble_len [of _ "pre @ [?tok]" _ "l @ rest"]) (simp_all add: src)
  obtain dst' where c: "zput_copy src (length pre + 1 + length (zext (length l))) (length l) (dst, pos) = Some (dst', pos + length l)"
    "take (pos + length l) dst' = o1 @ l" "length dst' = length dst"
    using zput_copy_at [of src "pre @ ?tok # zext (length l)" l rest, OF _ dst(1,2)] dst(3,4) src by auto
  have slen: "length src = length pre + 1 + length (zext (length l)) + length l + length rest" unfolding src by simp
  have "decode_step src dst_max (length pre) (dst, pos)
      = (if rest = [] then Some (ZBreak (dst', pos + length l))
         else decode_match src dst_max ?tok (length pre + 1 + length (zext (length l)) + length l) (dst', pos + length l))"
    using dst(3) unfolding decode_step_def
    by (simp only: prod.case t Let_def token_nibbles len cptr.case slen c(1) bind.bind_lunit) simp
  then show ?thesis using c(2,3) by blast
qed

lemma length_expand: "length out \<le> length (expand out ss)"
proof (induction out ss rule: expand.induct)
  case (2 out l off m ss)
  then show ?case by simp
qed simp

lemma decode_seq:
  assumes src: "src = pre @ encode_seq (l, off, m) @ rest"
    and dst: "take pos dst = o1" "length o1 = pos" "pos + length l + m \<le> dst_max" "dst_max \<le> length dst"
    and off: "0 < off" "off < 65536" "off \<le> pos + length l" and m: "4 \<le> m"
  shows "\<exists>dst'. decode_step src dst_max (length pre) (dst, pos)
      = Some (ZNext (length (pre @ encode_seq (l, off, m))) (dst', pos + length l + m))
    \<and> take (pos + length l + m) dst' = lz_copy off m (o1 @ l) \<and> length dst' = length dst"
proof -
  let ?tail = "[of_nat (off mod 256), of_nat (off div 256)] @ zext (m - 4) @ rest"
  let ?head = "pre @ ztoken (length l) (m - 4) # zext (length l) @ l"
  have "src = pre @ ztoken (length l) (m - 4) # zext (length l) @ l @ ?tail"
    using src by (simp add: encode_seq_def)
  from decode_step_head [OF this dst(1,2) _ dst(4)] dst(3)
  obtain d1 where d1: "take (pos + length l) d1 = o1 @ l" "length d1 = length dst"
    "decode_step src dst_max (length pre) (dst, pos)
      = decode_match src dst_max (ztoken (length l) (m - 4)) (length ?head) (d1, pos + length l)"
    by (auto simp: add.assoc)
  have src2: "src = ?head @ [of_nat (off mod 256), of_nat (off div 256)] @ zext (m - 4) @ rest"
    using src by (simp add: encode_seq_def)
  obtain d2 where d2: "decode_match src dst_max (ztoken (length l) (m - 4)) (length ?head) (d1, pos + length l)
      = Some (ZNext (length ?head + 2 + length (zext (m - 4))) (d2, pos + length l + m))"
    "take (pos + length l + m) d2 = lz_copy off m (o1 @ l)" "length d2 = length d1"
    using decode_match_ok [OF src2 token_nibbles(2) d1(1) _ _ _ off(1,2,3) m, of dst_max] dst(2,3,4) d1(2) by auto
  have "length ?head + 2 + length (zext (m - 4)) = length (pre @ encode_seq (l, off, m))"
    by (simp add: encode_seq_def)
  then show ?thesis using d1(2,3) d2 by simp
qed

lemma decompress_expands:
  assumes "src = pre @ concat (map encode_seq ss) @ encode_last l" "seqs_ok o1 ss"
    and "take pos dst = o1" "length o1 = pos" "length (expand o1 ss) + length l \<le> dst_max" "dst_max \<le> length dst"
  shows "\<exists>dst'. decompress_loop src dst_max (length pre) (dst, pos) = Some (dst', length (expand o1 ss) + length l)
    \<and> take (length (expand o1 ss) + length l) dst' = expand o1 ss @ l \<and> length dst' = length dst"
  using assms
proof (induction ss arbitrary: pre o1 pos dst)
  case Nil
  show ?case
  proof (cases "l = []")
    case True
    then have "decompress_loop src dst_max (length pre) (dst, pos) = Some (dst, pos)"
      using Nil(1) by (subst decompress_loop.simps) (simp add: encode_last_def)
    then show ?thesis using True Nil by simp
  next
    case False
    then have src: "src = pre @ ztoken (length l) 0 # zext (length l) @ l @ []"
      using Nil(1) by (simp add: encode_last_def)
    obtain d1 where "take (pos + length l) d1 = o1 @ l" "length d1 = length dst"
      "decode_step src dst_max (length pre) (dst, pos) = Some (ZBreak (d1, pos + length l))"
      using decode_step_head [OF src Nil(3,4), of dst_max] Nil(4,5,6) by auto
    moreover have "length pre < length src" unfolding src by simp
    moreover have "pos < dst_max" using Nil(4,5) False by (cases l) simp_all
    ultimately show ?thesis using Nil(4) by (subst decompress_loop.simps) simp
  qed
next
  case (Cons s ss)
  obtain l1 off m where s: "s = (l1, off, m)" by (cases s)
  have ok: "0 < off" "off < 65536" "off \<le> pos + length l1" "4 \<le> m" "seqs_ok (lz_copy off m (o1 @ l1)) ss"
    using Cons.prems(2,4) by (simp_all add: s)
  let ?o = "lz_copy off m (o1 @ l1)"
  have lo: "length ?o = pos + length l1 + m" using Cons.prems(4) by simp
  have le: "pos + length l1 + m \<le> length (expand ?o ss)" using length_expand [of ?o ss] lo by simp
  have ex: "expand o1 (s # ss) = expand ?o ss" by (simp add: s)
  have src: "src = pre @ encode_seq (l1, off, m) @ concat (map encode_seq ss) @ encode_last l"
    using Cons.prems(1) by (simp add: s)
  have fit: "pos + length l1 + m \<le> dst_max" using le Cons.prems(5) unfolding ex by simp
  obtain d1 where d1: "decode_step src dst_max (length pre) (dst, pos)
      = Some (ZNext (length (pre @ encode_seq (l1, off, m))) (d1, pos + length l1 + m))"
    "take (pos + length l1 + m) d1 = ?o" "length d1 = length dst"
    using decode_seq [OF src Cons.prems(3,4) fit Cons.prems(6) ok(1-4)] by blast
  have "length pre < length src" unfolding src by (simp add: encode_seq_def)
  moreover have "pos < dst_max" using fit ok(4) by simp
  ultimately have "decompress_loop src dst_max (length pre) (dst, pos)
      = decompress_loop src dst_max (length (pre @ encode_seq (l1, off, m))) (d1, pos + length l1 + m)"
    using d1(1) by (subst decompress_loop.simps) simp
  moreover have "src = (pre @ encode_seq (l1, off, m)) @ concat (map encode_seq ss) @ encode_last l"
    using src by simp
  ultimately show ?case
    using Cons.IH [OF _ ok(5) d1(2) lo, of "pre @ encode_seq (l1, off, m)"] Cons.prems(5,6) d1(3) unfolding ex by simp
qed

text \<open>
  C24: whatever the encoder produces for a source, the decoder turns back into exactly that source,
  and it reports its length.
\<close>
theorem zpack2_roundtrip:
  assumes "src \<noteq> []" "length src < 2 ^ 63"
    and c: "zpack2_compress (Ptr src) (Ptr buf) dst_max = Some (Ptr packed, n)" and n: "0 < n"
    and out: "length src \<le> length out"
  shows "\<exists>out'. zpack2_decompress (Ptr (take n packed)) (Ptr out) (length src) = Some (Ptr out', length src)
    \<and> take (length src) out' = src \<and> length out' = length out"
proof -
  obtain anchor o1 where o1: "compress_loop src dst_max (replicate HASH_SIZE (- 1)) 0 0 (buf, 0) = Some (anchor, o1)"
    "emit_last src anchor o1 = Some (packed, n)"
    using c n assms(1) by (auto simp: zpack2_compress_def split: if_splits Option.bind_splits)
  obtain ss where ss: "zemit (concat (map encode_seq ss)) (buf, 0) = Some o1" "seqs_ok [] ss"
    "expand [] ss = take anchor src" "anchor \<le> length src"
    using compress_loop_seqs [OF o1(1)] assms(2) by auto
  let ?bytes = "concat (map encode_seq ss) @ encode_last (drop anchor src)"
  have "zemit ?bytes (buf, 0) = Some (packed, n)"
    unfolding zemit_append [symmetric] using ss(1) o1(2) by (simp only: bind.bind_lunit emit_last_encode)
  then have packed: "take n packed = ?bytes"
    using n by (auto simp: overlay_def split: if_splits)
  have len: "length (expand [] ss) + length (drop anchor src) = length src" using ss(3,4) by simp
  obtain out' where out': "decompress_loop ?bytes (length src) 0 (out, 0) = Some (out', length src)"
    "take (length src) out' = expand [] ss @ drop anchor src" "length out' = length out"
    using decompress_expands [of ?bytes "[]" ss "drop anchor src" "[]" 0 out "length src"] ss(2) out unfolding len by auto
  moreover have "expand [] ss @ drop anchor src = src" using ss(3) by simp
  ultimately show ?thesis unfolding packed by (simp add: zpack2_decompress_def)
qed

section \<open>Sources without repetitions\<close>

text \<open>No two windows of four bytes within reach of each other agree.\<close>

definition no_repeats :: "u8 list \<Rightarrow> bool" where
  "no_repeats src \<longleftrightarrow> (\<forall>j i. i < j \<and> j + 4 \<le> length src \<and> j - i \<le> MAX_DISTANCE \<longrightarrow>
     (\<exists>k < 4. src ! (i + k) \<noteq> src ! (j + k)))"

lemma hash4_bound: "unat (hash4 v) < HASH_SIZE"
proof -
  have "unat (drop_bit 18 (v * 2654435761)) = unat (v * 2654435761) div 2 ^ 18" by (rule unat_drop_bit)
  moreover have "unat (v * 2654435761) < 2 ^ 32" using unsigned_less [of "v * 2654435761"] by simp
  ultimately show ?thesis by (simp add: hash4_def HASH_SIZE_def HASH_BITS_def less_mult_imp_div_less)
qed

lemma compress_loop_no_repeats:
  assumes "no_repeats src" "length src < 2 ^ 31"
    and "length table = HASH_SIZE" "\<forall>e \<in> set table. e = - 1 \<or> (\<exists>q < p. e = int q)"
  shows "compress_loop src dst_max table p anchor (dst, pos) = Some (anchor, dst, pos)"
  using assms(3,4)
proof (induction "length src - p" arbitrary: p table rule: less_induct)
  case less
  show ?case
  proof (cases "p + 4 \<le> length src \<and> pos + 32 < dst_max")
    case False
    then show ?thesis by (subst compress_loop.simps) (simp only: False if_False)
  next
    case True
    obtain here where here: "read32 src p = Some here" using True read32_Some by blast
    let ?h = "unat (hash4 here)"
    have h: "?h < length table" using hash4_bound less(2) by simp
    have w: "wrap32 (int p) = int p" using True assms(2) by (intro wrap32_in) (simp add: in_i32_def)
    have e: "table ! ?h = - 1 \<or> (\<exists>q < p. table ! ?h = int q)" using less(3) h by simp
    have m: "match_at src (table ! ?h) p here = Some NULL"
    proof (cases "table ! ?h = - 1")
      case True
      then show ?thesis by (simp add: match_at_def)
    next
      case False
      then obtain q where q: "q < p" "table ! ?h = int q" using e by blast
      show ?thesis
      proof (cases "(int p - int q) mod 2 ^ 64 \<le> int MAX_DISTANCE")
        case True
        have "(int p - int q) mod 2 ^ 64 = int p - int q"
          using q(1) \<open>p + 4 \<le> length src \<and> _\<close> assms(2) by (intro mod_pos_pos_trivial) simp_all
        then have d: "p - q \<le> MAX_DISTANCE" using True q(1) by simp
        have "q + 4 \<le> length src" using q(1) \<open>p + 4 \<le> length src \<and> _\<close> by simp
        then obtain there where there: "read32 src q = Some there" using read32_Some by blast
        have "there \<noteq> here"
          using assms(1) q(1) d \<open>p + 4 \<le> length src \<and> _\<close> read32_agree [OF there] here
          unfolding no_repeats_def by metis
        then show ?thesis using q(2) there by (simp add: match_at_def)
      next
        case False
        then show ?thesis using q(2) by (simp add: match_at_def)
      qed
    qed
    have "\<forall>e \<in> set (table[?h := int p]). e = - 1 \<or> (\<exists>q < Suc p. e = int q)"
    proof
      fix e
      assume "e \<in> set (table[?h := int p])"
      then have "e \<in> insert (int p) (set table)" using set_update_subset_insert by fastforce
      then show "e = - 1 \<or> (\<exists>q < Suc p. e = int q)" using less(3) less_SucI by blast
    qed
    then have "compress_loop src dst_max (table[?h := int p]) (Suc p) anchor (dst, pos) = Some (anchor, dst, pos)"
    proof (intro less(1))
      show "length src - Suc p < length src - p" using True by linarith
    qed (simp_all add: less(2))
    then show ?thesis
      using True here h m w by (subst compress_loop.simps) (simp add: Let_def)
  qed
qed

lemma length_ext255: "length (ext255 r) = r div 255 + 1"
proof (induction r rule: ext255.induct)
  case (1 r)
  then show ?case by (subst ext255.simps) (simp add: le_div_geq)
qed

text \<open>
  C26: a source of at least 15 bytes without repetitions is emitted as one run of literals, which is
  longer than the source by two bytes and one more for every 255; in a buffer that passes the
  test at the start of zpack2_compress but is shorter than that, the copy runs past the end.
  create_archive and pack_recursive provide 2048 bytes of slack, too few above half a megabyte.
\<close>
theorem zpack2_compress_overflows:
  assumes "no_repeats src" "15 \<le> length src" "length src < 2 ^ 31"
    and "length src + 64 \<le> length buf" "length buf < length src + 2 + (length src - 15) div 255"
  shows "zpack2_compress (Ptr src) (Ptr buf) (length buf) = None"
proof -
  have "compress_loop src (length buf) (replicate HASH_SIZE (- 1)) 0 0 (buf, 0) = Some (0, buf, 0)"
    using assms(1,3) by (intro compress_loop_no_repeats) simp_all
  moreover have "length (encode_last src) = length src + 2 + (length src - 15) div 255"
    using assms(2) by (auto simp: encode_last_def zext_def length_ext255)
  then have "emit_last src 0 (buf, 0) = None"
    using assms(2,5) by (auto simp: emit_last_encode)
  ultimately show ?thesis using assms(2,4) by (auto simp: zpack2_compress_def)
qed

text \<open>Blocks of a marker and the two digits of the block number.\<close>

definition sample_byte :: "nat \<Rightarrow> nat" where
  "sample_byte p = (if p mod 3 = 0 then 255 else if p mod 3 = 1 then p div 3 div 200 else p div 3 mod 200)"

definition sample_source :: "u8 list" where
  "sample_source = map (\<lambda>p. of_nat (sample_byte p)) [0..<18000]"

lemma sample_byte_less: "p < 18000 \<Longrightarrow> sample_byte p < 256" "p < 18000 \<Longrightarrow> sample_byte p = 255 \<longleftrightarrow> p mod 3 = 0"
proof -
  assume "p < 18000"
  then have "p div 3 < 6000" by (simp add: less_mult_imp_div_less)
  then have d: "p div 3 div 200 < 30" by (simp add: less_mult_imp_div_less)
  have m: "p div 3 mod 200 < 200" by simp
  show "sample_byte p < 256" "sample_byte p = 255 \<longleftrightarrow> p mod 3 = 0" using d m unfolding sample_byte_def by auto
qed

lemma same_block:
  assumes "sample_byte (3 * q + 1) = sample_byte (3 * q' + 1)" "sample_byte (3 * q + 2) = sample_byte (3 * q' + 2)"
  shows "q = q'"
proof -
  have "(3 * q + 1) mod 3 = 1" "(3 * q + 1) div 3 = q" "(3 * q + 2) mod 3 = 2" "(3 * q + 2) div 3 = q" for q :: nat
    by presburger+
  then have "sample_byte (3 * q + 1) = q div 200" "sample_byte (3 * q + 2) = q mod 200" for q
    unfolding sample_byte_def by simp_all
  then have "q div 200 = q' div 200" "q mod 200 = q' mod 200" using assms by simp_all
  then show ?thesis by (metis div_mult_mod_eq)
qed

lemma sample_no_repeats: "no_repeats sample_source"
  unfolding no_repeats_def
proof (intro allI impI, rule ccontr)
  fix j i
  assume a: "i < j \<and> j + 4 \<le> length sample_source \<and> j - i \<le> MAX_DISTANCE"
    and "\<not> (\<exists>k < 4. sample_source ! (i + k) \<noteq> sample_source ! (j + k))"
  then have eq: "sample_source ! (i + k) = sample_source ! (j + k)" if "k < 4" for k using that by blast
  have lim: "i + k < 18000" "j + k < 18000" if "k < 4" for k using a that by (simp_all add: sample_source_def)
  have s: "sample_byte (i + k) = sample_byte (j + k)" if "k < 4" for k
  proof -
    have "(of_nat (sample_byte (i + k)) :: u8) = of_nat (sample_byte (j + k))"
      using eq [OF that] lim [OF that] by (simp add: sample_source_def)
    then have "unat (of_nat (sample_byte (i + k)) :: u8) = unat (of_nat (sample_byte (j + k)) :: u8)" by (rule arg_cong)
    then show ?thesis using sample_byte_less(1) [OF lim(1) [OF that]] sample_byte_less(1) [OF lim(2) [OF that]]
      by (simp add: unat_of_nat take_bit_eq_mod)
  qed
  have z: "(i + k) mod 3 = 0 \<longleftrightarrow> (j + k) mod 3 = 0" if "k < 4" for k
    using s [OF that] sample_byte_less(2) lim [OF that] by metis
  have r: "i mod 3 = j mod 3" using z [of 0] z [of 1] z [of 2] by simp presburger
  define k where "k = (if i mod 3 = 0 then 1 else if i mod 3 = 1 then 0 else 2 :: nat)"
  have k: "k + 1 < 4" by (simp add: k_def)
  have one: "(i + k) mod 3 = 1" "(j + k) mod 3 = 1" using r unfolding k_def by (auto split: if_splits) presburger+
  have d: "i + k = 3 * ((i + k) div 3) + 1" "j + k = 3 * ((j + k) div 3) + 1"
    using one mult_div_mod_eq [of 3 "i + k"] mult_div_mod_eq [of 3 "j + k"] by linarith+
  have "(i + k) div 3 = (j + k) div 3"
  proof (rule same_block)
    show "sample_byte (3 * ((i + k) div 3) + 1) = sample_byte (3 * ((j + k) div 3) + 1)"
      using s [of k] k unfolding d [symmetric] by simp
    have "i + (k + 1) = 3 * ((i + k) div 3) + 2" "j + (k + 1) = 3 * ((j + k) div 3) + 2" using d by linarith+
    then show "sample_byte (3 * ((i + k) div 3) + 2) = sample_byte (3 * ((j + k) div 3) + 2)"
      using s [OF k] by simp
  qed
  then have "i = j" using d by linarith
  then show False using a by simp
qed

theorem zpack2_compress_overflows_witness:
  "zpack2_compress (Ptr sample_source) (Ptr (replicate 18064 0)) 18064 = None"
proof -
  have "length sample_source = 18000" by (simp add: sample_source_def)
  then show ?thesis
    using zpack2_compress_overflows [OF sample_no_repeats, of "replicate 18064 0"] by simp
qed

theorem zpack2_roundtrip_witness:
  "\<exists>packed n out'. zpack2_compress (Ptr [7, 7, 7]) (Ptr (replicate 67 0)) 67 = Some (Ptr packed, n)
    \<and> zpack2_decompress (Ptr (take n packed)) (Ptr [0, 0, 0]) 3 = Some (Ptr out', 3) \<and> take 3 out' = [7, 7, 7]"
proof -
  have "compress_loop [7, 7, 7] 67 (replicate HASH_SIZE (- 1)) 0 0 (replicate 67 0, 0) = Some (0, replicate 67 0, 0)"
    by (subst compress_loop.simps) simp
  then have c: "zpack2_compress (Ptr [7, 7, 7]) (Ptr (replicate 67 0)) 67
      = Some (Ptr (overlay (replicate 67 0) 0 (encode_last [7, 7, 7])), 4)"
    by (simp add: zpack2_compress_def emit_last_encode encode_last_def zext_def)
  have l: "length [7, 7, 7 :: u8] = 3" by simp
  have "\<exists>out'. zpack2_decompress (Ptr (take 4 (overlay (replicate 67 0) 0 (encode_last [7, 7, 7])))) (Ptr [0, 0, 0]) 3
      = Some (Ptr out', 3) \<and> take 3 out' = [7, 7, 7] \<and> length out' = length [0, 0, 0 :: u8]"
    by (rule zpack2_roundtrip [OF _ _ c, of "[0, 0, 0]", unfolded l]) simp_all
  then show ?thesis unfolding c by blast
qed

end
