(* ===== verification/Zarchive.thy ===== *)
theory Zarchive imports Zpack begin

unbundle bit_operations_syntax

text \<open>
  The archive format of \<open>src/zpack/zpack.c\<close>: writing the entries of a file or of a directory tree,
  extracting, listing and testing an archive, and the command line.  The file system is outside
  the program: what \<open>lstat\<close>, \<open>readdir\<close> and \<open>read\<close> deliver is a tree (\<open>fnode\<close>), an archive is
  the list of bytes of its file, and what extraction does to the disk is a list of actions.
  \<open>alloc n\<close> is what \<open>malloc(n)\<close> returns, with its unspecified contents.  Reads and writes transfer
  all the bytes there are, and the text printed on the way is left out.

  The lemmas parse the bytes of each entry again and show that extracting an archive restores what
  was packed.
\<close>

section \<open>Files and headers\<close>

datatype fnode = FDir nat "(u8 list \<times> fnode) list" | FFile nat "u8 list" | FOther nat "u8 list"

definition le_bytes :: "nat \<Rightarrow> nat \<Rightarrow> u8 list" where
  "le_bytes k n = map (\<lambda>i. of_nat (n div 256 ^ i)) [0..<k]"

definition le_value :: "u8 list \<Rightarrow> nat" where
  "le_value bs = foldr (\<lambda>b n. unat b + 256 * n) bs 0"

definition ZPACK_MAGIC_V1 :: "u8 list" where "ZPACK_MAGIC_V1 = [90, 80, 65, 67, 75, 48, 49, 0]"
definition ZPACK_MAGIC_V2 :: "u8 list" where "ZPACK_MAGIC_V2 = [90, 80, 65, 67, 75, 48, 50, 0]"

text \<open>The packed headers, 32 and 27 bytes.\<close>

record zarchive_header =
  magic :: "u8 list"
  num_entries :: nat
  total_orig_sz :: nat
  total_comp_sz :: nat
  archive_crc :: nat

record zentry_header =
  path_len :: nat
  is_dir :: nat
  mode :: nat
  orig_size :: nat
  comp_size :: nat
  file_crc :: nat

definition archive_header_bytes :: "zarchive_header \<Rightarrow> u8 list" where
  "archive_header_bytes h = magic h @ le_bytes 4 (num_entries h) @ le_bytes 8 (total_orig_sz h)
     @ le_bytes 8 (total_comp_sz h) @ le_bytes 4 (archive_crc h)"

definition entry_header_bytes :: "zentry_header \<Rightarrow> u8 list" where
  "entry_header_bytes e = le_bytes 2 (path_len e) @ le_bytes 1 (is_dir e) @ le_bytes 4 (mode e)
     @ le_bytes 8 (orig_size e) @ le_bytes 8 (comp_size e) @ le_bytes 4 (file_crc e)"

definition parse_archive_header :: "u8 list \<Rightarrow> zarchive_header" where
  "parse_archive_header b = \<lparr>magic = take 8 b, num_entries = le_value (take 4 (drop 8 b)),
     total_orig_sz = le_value (take 8 (drop 12 b)), total_comp_sz = le_value (take 8 (drop 20 b)),
     archive_crc = le_value (take 4 (drop 28 b))\<rparr>"

definition parse_entry_header :: "u8 list \<Rightarrow> zentry_header" where
  "parse_entry_header b = \<lparr>path_len = le_value (take 2 b), is_dir = le_value (take 1 (drop 2 b)),
     mode = le_value (take 4 (drop 3 b)), orig_size = le_value (take 8 (drop 7 b)),
     comp_size = le_value (take 8 (drop 15 b)), file_crc = le_value (take 4 (drop 23 b))\<rparr>"

section \<open>Packing\<close>

record zpack_out =
  out_bytes :: "u8 list"
  entry_counter :: u32
  total_orig :: u64
  total_comp :: u64

text \<open>The header, the path and the data of a regular file; \<open>None\<close> is a write past the buffer.\<close>

definition pack_file :: "(nat \<Rightarrow> u8 list cptr) \<Rightarrow> u8 list \<Rightarrow> nat \<Rightarrow> u8 list \<Rightarrow> zpack_out \<Rightarrow> zpack_out option" where
  "pack_file alloc rel md content st = (
     let n = length content;
         plen = length rel mod 2 ^ 16;
         st = st \<lparr>total_orig := total_orig st + of_nat n\<rparr> in
     case (alloc (n + 64), alloc (n + 2048)) of
       (Ptr _, Ptr comp_buf) \<Rightarrow> do {
         let eh = \<lparr>path_len = plen, is_dir = 0, mode = md, orig_size = n, comp_size = 0,
           file_crc = unat (calc_crc32 content 0)\<rparr>;
         (packed, c_size) \<leftarrow> zpack2_compress (Ptr content) (Ptr comp_buf) (n + 2048);
         let data = (if c_size = 0 \<or> c_size \<ge> n then content
           else take c_size (case packed of Ptr b \<Rightarrow> b | NULL \<Rightarrow> []));
         Some (st \<lparr>out_bytes := out_bytes st @ entry_header_bytes (eh \<lparr>comp_size := length data\<rparr>)
             @ take plen rel @ data,
           total_comp := total_comp st + of_nat (length data)\<rparr>)}
     | _ \<Rightarrow> Some st)"

text \<open>\<open>snprintf(rel_path, 2048, ...)\<close>\<close>

definition rel_path :: "u8 list \<Rightarrow> u8 list \<Rightarrow> u8 list" where
  "rel_path rel_prefix name = take 2047 (if length rel_prefix > 0 then rel_prefix @ [47] @ name else name)"

definition dir_entry :: "u8 list \<Rightarrow> nat \<Rightarrow> u8 list" where
  "dir_entry rel md = (
     let plen = length rel mod 2 ^ 16 in
     entry_header_bytes \<lparr>path_len = plen, is_dir = 1, mode = md, orig_size = 0, comp_size = 0, file_crc = 0\<rparr>
       @ take plen rel)"

fun pack_recursive ::
  "(nat \<Rightarrow> u8 list cptr) \<Rightarrow> u8 list \<Rightarrow> (u8 list \<times> fnode) list \<Rightarrow> zpack_out \<Rightarrow> zpack_out option" where
  "pack_recursive alloc rel_prefix [] st = Some st"
| "pack_recursive alloc rel_prefix ((name, node) # es) st =
     (if name = [46] \<or> name = [46, 46] then pack_recursive alloc rel_prefix es st
      else do {
        let rel = rel_path rel_prefix name;
        st \<leftarrow> (case node of
            FDir md kids \<Rightarrow>
              pack_recursive alloc rel kids
                (st \<lparr>out_bytes := out_bytes st @ dir_entry rel md, entry_counter := entry_counter st + 1\<rparr>)
          | FFile md content \<Rightarrow> do {
              st \<leftarrow> pack_file alloc rel md content st;
              Some (st \<lparr>entry_counter := entry_counter st + 1\<rparr>)}
          | FOther md content \<Rightarrow> Some st);
        pack_recursive alloc rel_prefix es st})"

text \<open>\<open>strrchr(target, '/') + 1\<close>, or the whole name.\<close>

definition base_name :: "u8 list \<Rightarrow> u8 list" where
  "base_name target = rev (takeWhile (\<lambda>c. c \<noteq> 47) (rev target))"

text \<open>\<open>node\<close> is what \<open>lstat\<close> finds under \<open>target\<close>; the result is the status and the archive written.\<close>

definition create_archive ::
  "(nat \<Rightarrow> u8 list cptr) \<Rightarrow> u8 list \<Rightarrow> fnode option \<Rightarrow> (int \<times> u8 list) option" where
  "create_archive alloc target node =
     (case node of
        None \<Rightarrow> Some (- 1, [])
      | Some nd \<Rightarrow> do {
          let st = \<lparr>out_bytes = [], entry_counter = 0, total_orig = 0, total_comp = 0\<rparr>;
          st \<leftarrow> (case nd of
              FDir md kids \<Rightarrow> pack_recursive alloc [] kids st
            | FFile md content \<Rightarrow> do {
                st \<leftarrow> pack_file alloc (base_name target) md content st;
                Some (st \<lparr>entry_counter := 1\<rparr>)}
            | FOther md content \<Rightarrow> do {
                st \<leftarrow> pack_file alloc (base_name target) md content st;
                Some (st \<lparr>entry_counter := 1\<rparr>)});
          let hdr = \<lparr>magic = ZPACK_MAGIC_V2, num_entries = unat (entry_counter st),
            total_orig_sz = unat (total_orig st), total_comp_sz = unat (total_comp st), archive_crc = 0\<rparr>;
          let crc = calc_crc32 (take 28 (archive_header_bytes hdr)) 0;
          Some (0, archive_header_bytes (hdr \<lparr>archive_crc := unat crc\<rparr>) @ out_bytes st)})"

section \<open>Extracting\<close>

text \<open>What an extraction does to the disk; the flag of a file is the CRC result that is printed.\<close>

text \<open>\<open>can_open\<close> tells which files can be created; one that cannot is counted but not written.\<close>

datatype faction = MkDir "u8 list" nat | WriteFile "u8 list" nat "u8 list" bool

text \<open>The directories above a path, outermost first.\<close>

definition make_parent_dirs :: "u8 list \<Rightarrow> faction list" where
  "make_parent_dirs filepath = (
     let temp = take 1023 filepath in
     map (\<lambda>i. MkDir (take i temp) 0x1ED) (filter (\<lambda>i. temp ! i = 47) [1..<length temp]))"

text \<open>
  The path of an entry: read into \<open>rel_path[1024]\<close> (contents \<open>junk\<close> before), terminated at
  \<open>path_len\<close>; no value when that lies outside the array.
\<close>

definition read_path :: "u8 list \<Rightarrow> nat \<Rightarrow> u8 list \<Rightarrow> (u8 list \<times> u8 list) option" where
  "read_path junk plen rest = (
     if plen < length junk
     then Some (cstr ((overlay junk 0 (take plen rest))[plen := 0]), drop plen rest)
     else None)"

text \<open>The two buffers, the stored bytes and the decoding; \<open>NULL\<close> when a \<open>malloc\<close> fails.\<close>

definition unpack_data ::
  "(nat \<Rightarrow> u8 list cptr) \<Rightarrow> bool \<Rightarrow> zentry_header \<Rightarrow> u8 list \<Rightarrow> (u8 list cptr \<times> u8 list) option" where
  "unpack_data alloc is_v2 eh rest =
     (case (alloc ((comp_size eh + 64) mod 2 ^ 64), alloc ((orig_size eh + 64) mod 2 ^ 64)) of
        (Ptr c, Ptr b) \<Rightarrow>
          if comp_size eh > length c \<or> orig_size eh > length b then None
          else do {
            let c = overlay c 0 (take (comp_size eh) rest);
            let rest = drop (comp_size eh) rest;
            if comp_size eh = orig_size eh then Some (Ptr (take (orig_size eh) c), rest)
            else if is_v2 then do {
              (out, n) \<leftarrow> zpack2_decompress (Ptr (take (comp_size eh) c)) (Ptr b) (orig_size eh);
              Some (case out of Ptr o' \<Rightarrow> Ptr (take (orig_size eh) o') | NULL \<Rightarrow> NULL, rest)}
            else do {
              (out, n) \<leftarrow> lzss1_decompress (take (comp_size eh) c) b (orig_size eh);
              Some (Ptr (take (orig_size eh) out), rest)}}
      | _ \<Rightarrow> Some (NULL, rest))"

definition full_dest :: "u8 list \<Rightarrow> u8 list \<Rightarrow> u8 list" where
  "full_dest dest_dir rel = take 2047 (if dest_dir = [46] then rel else dest_dir @ [47] @ rel)"

definition extract_entry ::
  "(nat \<Rightarrow> u8 list cptr) \<Rightarrow> (u8 list \<Rightarrow> bool) \<Rightarrow> u8 list \<Rightarrow> u8 list \<Rightarrow> bool \<Rightarrow> u8 list \<Rightarrow> (faction list \<times> u32 \<times> u8 list) option" where
  "extract_entry alloc can_open junk dest_dir is_v2 bs = do {
     let eh = parse_entry_header (take 27 bs);
     (rel, rest) \<leftarrow> read_path junk (path_len eh) (drop 27 bs);
     let dest = full_dest dest_dir rel;
     if is_dir eh \<noteq> 0 then Some ([MkDir dest (mode eh)], 1, rest)
     else do {
       let dirs = make_parent_dirs dest;
       (data, rest) \<leftarrow> unpack_data alloc is_v2 eh rest;
       (case data of
          NULL \<Rightarrow> Some (dirs, 0, rest)
        | Ptr d \<Rightarrow> Some (dirs @ (if can_open dest then [WriteFile dest (mode eh) d (unat (calc_crc32 d 0) = file_crc eh)] else []), 1, rest))}}"

lemma extract_entry_progress:
  "extract_entry alloc can_open junk dest_dir is_v2 bs = Some (acts, n, rest) \<Longrightarrow> length rest \<le> length bs - 27"
  by (auto simp: extract_entry_def read_path_def unpack_data_def Let_def
      split: if_splits cptr.splits Option.bind_splits prod.splits)

function extract_loop ::
  "(nat \<Rightarrow> u8 list cptr) \<Rightarrow> (u8 list \<Rightarrow> bool) \<Rightarrow> u8 list \<Rightarrow> u8 list \<Rightarrow> bool \<Rightarrow> u8 list \<Rightarrow> (faction list \<times> u32) option" where
  "extract_loop alloc can_open junk dest_dir is_v2 bs =
     (if length bs < 27 then Some ([], 0)
      else do {
        (acts, n, rest) \<leftarrow> extract_entry alloc can_open junk dest_dir is_v2 bs;
        (acts', n') \<leftarrow> extract_loop alloc can_open junk dest_dir is_v2 rest;
        Some (acts @ acts', n + n')})"
  by pat_completeness auto
termination
  by (relation "measure (\<lambda>(alloc, can_open, junk, dest_dir, is_v2, bs). length bs)")
     (auto dest!: extract_entry_progress)

declare extract_loop.simps [simp del]

text \<open>The status, the actions and the number of items restored.\<close>

definition extract_archive ::
  "(nat \<Rightarrow> u8 list cptr) \<Rightarrow> (u8 list \<Rightarrow> bool) \<Rightarrow> u8 list \<Rightarrow> u8 list option \<Rightarrow> u8 list \<Rightarrow> (int \<times> faction list \<times> u32) option" where
  "extract_archive alloc can_open junk in_archive dest_dir =
     (case in_archive of
        None \<Rightarrow> Some (- 1, [], 0)
      | Some f \<Rightarrow>
          if length f < 32 then Some (- 1, [], 0)
          else do {
            let hdr = parse_archive_header (take 32 f);
            let is_v2 = (magic hdr = ZPACK_MAGIC_V2);
            let is_v1 = (magic hdr = ZPACK_MAGIC_V1);
            if \<not> is_v1 \<and> \<not> is_v2 then Some (- 1, [], 0)
            else do {
              (acts, n) \<leftarrow> extract_loop alloc can_open junk dest_dir is_v2 (drop 32 f);
              Some (0, MkDir dest_dir 0x1ED # acts, n)}})"

section \<open>Listing and testing\<close>

definition mode_to_str :: "nat \<Rightarrow> u8 list" where
  "mode_to_str md = (
     let c = (if md AND 0xF000 = 0x4000 then 100 else if md AND 0xF000 = 0xA000 then 108 else 45) in
     c # map (\<lambda>(m, ch). if md AND m \<noteq> 0 then ch else 45)
       [(0x100, 114), (0x80, 119), (0x40, 120), (0x20, 114), (0x10, 119), (0x08, 120),
        (0x04, 114), (0x02, 119), (0x01, 120)])"

record zrow =
  row_perm :: "u8 list"
  row_dir :: bool
  row_orig :: nat
  row_comp :: nat
  row_path :: "u8 list"

text \<open>\<open>lseek(fd, off, SEEK_CUR)\<close> with the 64 bits of \<open>comp_size\<close> as a signed offset.\<close>

definition lseek_cur :: "nat \<Rightarrow> nat \<Rightarrow> nat" where
  "lseek_cur pos off = (let p = int pos + wrap64 (int off) in if p < 0 then pos else nat p)"

definition zlist_entry ::
  "(nat \<Rightarrow> u8 list cptr) \<Rightarrow> u8 list \<Rightarrow> bool \<Rightarrow> bool \<Rightarrow> u8 list \<Rightarrow> nat \<Rightarrow> (zrow \<times> nat \<times> int) option" where
  "zlist_entry alloc junk is_v2 test_only f pos = do {
     let eh = parse_entry_header (take 27 (drop pos f));
     let pos = pos + 27;
     (rel, rest) \<leftarrow> read_path junk (path_len eh) (drop pos f);
     let pos = min (length f) (pos + path_len eh);
     let row = \<lparr>row_perm = mode_to_str (mode eh), row_dir = (is_dir eh \<noteq> 0), row_orig = orig_size eh,
       row_comp = comp_size eh, row_path = rel\<rparr>;
     if is_dir eh \<noteq> 0 then Some (row, pos, 0)
     else if test_only then do {
       (data, rest) \<leftarrow> unpack_data alloc is_v2 eh (drop pos f);
       (case data of
          NULL \<Rightarrow> Some (row, pos, 0)
        | Ptr d \<Rightarrow> Some (row, min (length f) (pos + comp_size eh),
            if unat (calc_crc32 d 0) = file_crc eh then 0 else 1))}
     else Some (row, lseek_cur pos (comp_size eh), 0)}"

partial_function (option) list_loop ::
  "(nat \<Rightarrow> u8 list cptr) \<Rightarrow> u8 list \<Rightarrow> bool \<Rightarrow> bool \<Rightarrow> u8 list \<Rightarrow> nat \<Rightarrow> zrow list \<Rightarrow> int \<Rightarrow> (zrow list \<times> int) option" where
  "list_loop alloc junk is_v2 test_only f pos rows errors =
     (if length f < pos + 27 then Some (rows, errors)
      else do {
        (row, pos, e) \<leftarrow> zlist_entry alloc junk is_v2 test_only f pos;
        list_loop alloc junk is_v2 test_only f pos (rows @ [row]) (errors + e)})"

definition list_archive ::
  "(nat \<Rightarrow> u8 list cptr) \<Rightarrow> u8 list \<Rightarrow> u8 list option \<Rightarrow> bool \<Rightarrow> (int \<times> zrow list) option" where
  "list_archive alloc junk in_archive test_only =
     (case in_archive of
        None \<Rightarrow> Some (- 1, [])
      | Some f \<Rightarrow>
          if length f < 32 then Some (- 1, [])
          else do {
            let hdr = parse_archive_header (take 32 f);
            let is_v2 = (magic hdr = ZPACK_MAGIC_V2);
            let is_v1 = (magic hdr = ZPACK_MAGIC_V1);
            if \<not> is_v1 \<and> \<not> is_v2 then Some (- 1, [])
            else do {
              (rows, errors) \<leftarrow> list_loop alloc junk is_v2 test_only f 32 [] 0;
              Some (if errors \<noteq> 0 then 1 else 0, rows)}})"

section \<open>The command line\<close>

record zpack_opts =
  opt_compress :: bool
  opt_extract :: bool
  opt_list :: bool
  opt_test :: bool
  opt_target :: "u8 list option"
  opt_out :: "u8 list"

definition starts_dash :: "u8 list \<Rightarrow> bool" where
  "starts_dash a \<longleftrightarrow> a \<noteq> [] \<and> hd a = 45"

text \<open>An argument that is not an option follows the mode switch.\<close>

definition take_target :: "u8 list list \<Rightarrow> zpack_opts \<Rightarrow> zpack_opts \<times> nat" where
  "take_target rest opt =
     (case rest of
        b # _ \<Rightarrow> if \<not> starts_dash b then (opt \<lparr>opt_target := Some b\<rparr>, 1) else (opt, 0)
      | [] \<Rightarrow> (opt, 0))"

definition parse_arg :: "u8 list \<Rightarrow> u8 list list \<Rightarrow> zpack_opts \<Rightarrow> zpack_opts \<times> nat" where
  "parse_arg a rest opt =
     (if a = ascii ''-c'' \<or> a = ascii ''--compress'' then take_target rest (opt \<lparr>opt_compress := True\<rparr>)
      else if a = ascii ''-x'' \<or> a = ascii ''--extract'' then take_target rest (opt \<lparr>opt_extract := True\<rparr>)
      else if a = ascii ''-l'' \<or> a = ascii ''--list'' then take_target rest (opt \<lparr>opt_list := True\<rparr>)
      else if a = ascii ''-t'' \<or> a = ascii ''--test'' then take_target rest (opt \<lparr>opt_test := True\<rparr>)
      else if (a = ascii ''-o'' \<or> a = ascii ''--output'') \<and> rest \<noteq> []
        then (opt \<lparr>opt_out := take 511 (hd rest)\<rparr>, 1)
      else if opt_target opt = None \<and> \<not> starts_dash a then (opt \<lparr>opt_target := Some a\<rparr>, 0)
      else (opt, 0))"

function parse_args :: "u8 list list \<Rightarrow> zpack_opts \<Rightarrow> zpack_opts" where
  "parse_args [] opt = opt"
| "parse_args (a # rest) opt = (let (opt, k) = parse_arg a rest opt in parse_args (drop k rest) opt)"
  by pat_completeness auto
termination by (relation "measure (\<lambda>(args, opt). length args)") auto

datatype zpack_cmd = ZHelp int | ZCreate "u8 list" "u8 list" | ZExtract "u8 list" "u8 list" | ZList "u8 list" bool

fun strip_slash :: "u8 list \<Rightarrow> u8 list" where
  "strip_slash s = (if length s > 1 \<and> last s = 47 then strip_slash (butlast s) else s)"

declare strip_slash.simps [simp del]

text \<open>The arguments after the program's name; \<open>None\<close> when \<open>clean\<close> is left without a terminator.\<close>

definition zpack_main :: "u8 list list \<Rightarrow> zpack_cmd option" where
  "zpack_main args =
     (case args of
        [] \<Rightarrow> Some (ZHelp 0)
      | a # _ \<Rightarrow>
          if a = ascii ''--help'' \<or> a = ascii ''-h'' then Some (ZHelp 0)
          else
            let opt = parse_args args \<lparr>opt_compress = False, opt_extract = False, opt_list = False, opt_test = False,
              opt_target = None, opt_out = []\<rparr> in
            (case opt_target opt of
               None \<Rightarrow> Some (ZHelp 1)
             | Some target \<Rightarrow>
                 if opt_compress opt then
                   (if opt_out opt = [] then
                      (if length target < 511
                       then Some (ZCreate target (take 511 (strip_slash target @ ascii ''.zp''))) else None)
                    else Some (ZCreate target (opt_out opt)))
                 else if opt_extract opt then Some (ZExtract target (if opt_out opt = [] then [46] else opt_out opt))
                 else if opt_list opt then Some (ZList target False)
                 else if opt_test opt then Some (ZList target True)
                 else Some (ZHelp 1)))"

section \<open>Headers parse back\<close>

lemma length_le_bytes [simp]: "length (le_bytes k n) = k"
  by (simp add: le_bytes_def)

lemma le_value_bytes: "le_value (le_bytes k n) = n mod 256 ^ k"
proof (induction k arbitrary: n)
  case 0
  show ?case by (simp add: le_value_def le_bytes_def)
next
  case (Suc k)
  have "le_bytes (Suc k) n = of_nat n # le_bytes k (n div 256)"
    unfolding le_bytes_def by (simp add: upt_conv_Cons map_Suc_upt [symmetric] div_mult2_eq del: upt_Suc)
  then have "le_value (le_bytes (Suc k) n) = n mod 256 + 256 * (n div 256 mod 256 ^ k)"
    using Suc.IH [of "n div 256"] by (simp add: le_value_def unat_of_nat take_bit_eq_mod)
  also have "\<dots> = n mod 256 ^ Suc k" using mod_mult2_eq [of n 256 "256 ^ k"] by simp
  finally show ?case .
qed

lemma le_value_small: "n < 256 ^ k \<Longrightarrow> le_value (le_bytes k n) = n"
  by (simp add: le_value_bytes)

definition header_ok :: "zentry_header \<Rightarrow> bool" where
  "header_ok e \<longleftrightarrow> path_len e < 2 ^ 16 \<and> is_dir e < 2 ^ 8 \<and> mode e < 2 ^ 32 \<and> orig_size e < 2 ^ 64
     \<and> comp_size e < 2 ^ 64 \<and> file_crc e < 2 ^ 32"

lemma length_entry_header [simp]: "length (entry_header_bytes e) = 27"
  by (simp add: entry_header_bytes_def)

lemma entry_header_roundtrip: "header_ok e \<Longrightarrow> parse_entry_header (entry_header_bytes e) = e"
  by (simp add: parse_entry_header_def entry_header_bytes_def header_ok_def le_value_small)

lemma length_archive_header: "length (magic h) = 8 \<Longrightarrow> length (archive_header_bytes h) = 32"
  by (simp add: archive_header_bytes_def)

section \<open>Entries\<close>

lemma zpack2_compress_length:
  "zpack2_compress (Ptr src) (Ptr buf) k = Some (p, n) \<Longrightarrow> length src < 2 ^ 63 \<Longrightarrow> 0 < n \<Longrightarrow>
   \<exists>b. p = Ptr b \<and> n \<le> length b \<and> src \<noteq> []"
proof -
  assume c: "zpack2_compress (Ptr src) (Ptr buf) k = Some (p, n)" "length src < 2 ^ 63" "0 < n"
  then obtain anchor o1 b where o1: "emit_last src anchor o1 = Some (b, n)" "p = Ptr b" "src \<noteq> []"
    "compress_loop src k (replicate HASH_SIZE (- 1)) 0 0 (buf, 0) = Some (anchor, o1)"
    by (auto simp: zpack2_compress_def split: if_splits Option.bind_splits)
  obtain ss where "zemit (concat (map encode_seq ss)) (buf, 0) = Some o1"
    using compress_loop_seqs [OF o1(4)] c(2) by auto
  then have "zemit (concat (map encode_seq ss) @ encode_last (drop anchor src)) (buf, 0) = Some (b, n)"
    unfolding zemit_append [symmetric] using o1(1) by (simp only: bind.bind_lunit emit_last_encode)
  then have "n \<le> length b" using c(3) by (auto split: if_splits)
  then show ?thesis using o1(2,3) by blast
qed

text \<open>The stored form of a content: what \<open>pack_file\<close> writes and \<open>unpack_data\<close> reads.\<close>

definition stored :: "u8 list \<Rightarrow> u8 list \<Rightarrow> bool" where
  "stored content data \<longleftrightarrow> length data \<le> length content \<and> (data = content
     \<or> (length data < length content \<and> (\<exists>buf packed. zpack2_compress (Ptr content) (Ptr buf) (length content + 2048)
          = Some (Ptr packed, length data) \<and> data = take (length data) packed \<and> 0 < length data)))"

lemma unpack_stored:
  assumes "malloc_ok alloc" "stored content data" "length content < 2 ^ 63"
    and "comp_size eh = length data" "orig_size eh = length content"
  shows "unpack_data alloc True eh (data @ rest) = Some (Ptr content, rest)"
proof -
  have le: "length data \<le> length content" using assms(2) by (simp add: stored_def)
  have m: "(length data + 64) mod 2 ^ 64 = length data + 64" "(length content + 64) mod 2 ^ 64 = length content + 64"
    using assms(3) le by (intro mod_less; simp)+
  obtain c b where c: "alloc (length data + 64) = Ptr c" "length c = length data + 64"
    and b: "alloc (length content + 64) = Ptr b" "length b = length content + 64"
    using assms(1) unfolding malloc_ok_def by meson
  have tk: "take (length data) (overlay c 0 data) = data" using c(2) by (simp add: overlay_def)
  show ?thesis
  proof (cases "length data = length content")
    case True
    then have "data = content" using assms(2) by (auto simp: stored_def)
    then show ?thesis using assms(4,5) m c b tk by (simp add: unpack_data_def Let_def)
  next
    case False
    then obtain buf packed where p: "zpack2_compress (Ptr content) (Ptr buf) (length content + 2048) = Some (Ptr packed, length data)"
      "data = take (length data) packed" "0 < length data"
      using assms(2) unfolding stored_def by blast
    have "content \<noteq> []" using le p(3) by auto
    from zpack2_roundtrip [OF this assms(3) p(1,3), of b]
    obtain out' where "zpack2_decompress (Ptr data) (Ptr b) (length content) = Some (Ptr out', length content)"
      "take (length content) out' = content"
      using b(2) p(2) by auto
    then show ?thesis using False assms(4,5) m c b tk by (simp add: unpack_data_def Let_def)
  qed
qed

section \<open>What is packed and what is restored\<close>

text \<open>The entries of a tree in the order they are written; a directory stands for itself only.\<close>

fun tree_items :: "u8 list \<Rightarrow> (u8 list \<times> fnode) list \<Rightarrow> (u8 list \<times> fnode) list" where
  "tree_items p [] = []"
| "tree_items p ((name, node) # es) =
     (if name = [46] \<or> name = [46, 46] then tree_items p es
      else (case node of
          FDir md kids \<Rightarrow> (rel_path p name, FDir md []) # tree_items (rel_path p name) kids
        | FFile md content \<Rightarrow> [(rel_path p name, node)]
        | FOther md content \<Rightarrow> []) @ tree_items p es)"

fun item_ok :: "u8 list \<times> fnode \<Rightarrow> bool" where
  "item_ok (rel, FDir md kids) \<longleftrightarrow> length rel < 1024 \<and> 0 \<notin> set rel \<and> md < 2 ^ 32"
| "item_ok (rel, FFile md content) \<longleftrightarrow> length rel < 1024 \<and> 0 \<notin> set rel \<and> md < 2 ^ 32 \<and> length content < 2 ^ 63"
| "item_ok (rel, FOther md content) \<longleftrightarrow> length rel < 1024 \<and> 0 \<notin> set rel \<and> md < 2 ^ 32 \<and> length content < 2 ^ 63"

fun restores :: "(u8 list \<Rightarrow> bool) \<Rightarrow> u8 list \<times> fnode \<Rightarrow> faction list" where
  "restores can_open (rel, FDir md kids) = [MkDir rel md]"
| "restores can_open (rel, FFile md content) =
     make_parent_dirs rel @ (if can_open rel then [WriteFile rel md content True] else [])"
| "restores can_open (rel, FOther md content) =
     make_parent_dirs rel @ (if can_open rel then [WriteFile rel md content True] else [])"

definition file_bytes :: "u8 list \<Rightarrow> nat \<Rightarrow> u8 list \<Rightarrow> u8 list \<Rightarrow> u8 list" where
  "file_bytes rel md content data =
     entry_header_bytes \<lparr>path_len = length rel, is_dir = 0, mode = md, orig_size = length content,
       comp_size = length data, file_crc = unat (calc_crc32 content 0)\<rparr> @ rel @ data"

fun item_bytes :: "u8 list \<times> fnode \<Rightarrow> u8 list \<Rightarrow> bool" where
  "item_bytes (rel, FDir md kids) bs \<longleftrightarrow> bs = dir_entry rel md"
| "item_bytes (rel, FFile md content) bs \<longleftrightarrow> (\<exists>data. stored content data \<and> bs = file_bytes rel md content data)"
| "item_bytes (rel, FOther md content) bs \<longleftrightarrow> (\<exists>data. stored content data \<and> bs = file_bytes rel md content data)"

lemma pack_file_bytes:
  assumes "pack_file alloc rel md content st = Some st'" "malloc_ok alloc"
    and len: "length content < 2 ^ 63" and rel: "length rel < 1024"
  shows "\<exists>data. stored content data \<and> out_bytes st' = out_bytes st @ file_bytes rel md content data
    \<and> entry_counter st' = entry_counter st"
proof -
  let ?n = "length content"
  obtain o1 c where a: "alloc (?n + 64) = Ptr o1" "alloc (?n + 2048) = Ptr c"
    using assms(2) unfolding malloc_ok_def by meson
  have plen: "length rel mod 2 ^ 16 = length rel" using rel by simp
  obtain packed n where c: "zpack2_compress (Ptr content) (Ptr c) (?n + 2048) = Some (packed, n)"
    using assms(1) a by (auto simp: pack_file_def Let_def split: Option.bind_splits)
  define data where "data = (if n = 0 \<or> n \<ge> ?n then content else take n (case packed of Ptr b \<Rightarrow> b | NULL \<Rightarrow> []))"
  have st': "out_bytes st' = out_bytes st @ file_bytes rel md content data" "entry_counter st' = entry_counter st"
    using assms(1) a c plen by (auto simp: pack_file_def Let_def file_bytes_def data_def [symmetric])
  have "stored content data"
  proof (cases "n = 0 \<or> n \<ge> ?n")
    case True
    then show ?thesis by (simp add: data_def stored_def)
  next
    case False
    then obtain b where b: "packed = Ptr b" "n \<le> length b"
      using zpack2_compress_length [OF c len] by auto
    then have "data = take n b" "length data = n" using False by (simp_all add: data_def)
    then show ?thesis using False c b(1) unfolding stored_def by auto
  qed
  then show ?thesis using st' by blast
qed

lemma pack_recursive_items:
  assumes "pack_recursive alloc p kids st = Some st'" "malloc_ok alloc" "\<forall>it \<in> set (tree_items p kids). item_ok it"
  shows "\<exists>bss. out_bytes st' = out_bytes st @ concat bss \<and> list_all2 item_bytes (tree_items p kids) bss
    \<and> entry_counter st' = entry_counter st + of_nat (length bss)"
  using assms
proof (induction alloc p kids st arbitrary: st' rule: pack_recursive.induct)
  case (1 alloc p st)
  then show ?case by (intro exI [of _ "[]"]) simp
next
  case (2 alloc p name node es st)
  show ?case
  proof (cases "name = [46] \<or> name = [46, 46]")
    case True
    then show ?thesis using 2 by simp
  next
    case False
    let ?rel = "rel_path p name"
    obtain s1 where s1: "(case node of
          FDir md kids \<Rightarrow> pack_recursive alloc ?rel kids
            (st \<lparr>out_bytes := out_bytes st @ dir_entry ?rel md, entry_counter := entry_counter st + 1\<rparr>)
        | FFile md content \<Rightarrow> do {st \<leftarrow> pack_file alloc ?rel md content st; Some (st \<lparr>entry_counter := entry_counter st + 1\<rparr>)}
        | FOther md content \<Rightarrow> Some st) = Some s1" "pack_recursive alloc p es s1 = Some st'"
      using 2(4) False by (auto simp: Let_def split: Option.bind_splits)
    have ok: "\<forall>it \<in> set (tree_items p es). item_ok it" using 2(6) False by simp
    obtain bss2 where b2: "out_bytes st' = out_bytes s1 @ concat bss2" "list_all2 item_bytes (tree_items p es) bss2"
      "entry_counter st' = entry_counter s1 + of_nat (length bss2)"
      using 2(3) [OF False refl s1(1,2) 2(5) ok] by blast
    have "\<exists>bss1. out_bytes s1 = out_bytes st @ concat bss1 \<and> entry_counter s1 = entry_counter st + of_nat (length bss1)
        \<and> list_all2 item_bytes (case node of
          FDir md kids \<Rightarrow> (?rel, FDir md []) # tree_items ?rel kids
        | FFile md content \<Rightarrow> [(?rel, node)] | FOther md content \<Rightarrow> []) bss1"
    proof (cases node)
      case (FDir md kids)
      then obtain bss where "out_bytes s1 = (out_bytes st @ dir_entry ?rel md) @ concat bss"
        "list_all2 item_bytes (tree_items ?rel kids) bss" "entry_counter s1 = entry_counter st + 1 + of_nat (length bss)"
        using 2(2) [OF False refl FDir, of s1] s1(1) 2(5,6) False by auto
      then show ?thesis using FDir by (intro exI [of _ "dir_entry ?rel md # bss"]) simp
    next
      case (FFile md content)
      then obtain s0 where s0: "pack_file alloc ?rel md content st = Some s0" "s1 = s0 \<lparr>entry_counter := entry_counter s0 + 1\<rparr>"
        using s1(1) by (auto split: Option.bind_splits)
      have "length content < 2 ^ 63" "length ?rel < 1024" using 2(6) FFile False by simp_all
      from pack_file_bytes [OF s0(1) 2(5) this] obtain data where "stored content data"
        "out_bytes s0 = out_bytes st @ file_bytes ?rel md content data" "entry_counter s0 = entry_counter st"
        by blast
      then show ?thesis using FFile s0(2) by (intro exI [of _ "[file_bytes ?rel md content data]"]) auto
    next
      case (FOther md content)
      then show ?thesis using s1(1) by (intro exI [of _ "[]"]) simp
    qed
    then obtain bss1 where "out_bytes s1 = out_bytes st @ concat bss1" "entry_counter s1 = entry_counter st + of_nat (length bss1)"
      "list_all2 item_bytes (case node of
          FDir md kids \<Rightarrow> (?rel, FDir md []) # tree_items ?rel kids
        | FFile md content \<Rightarrow> [(?rel, node)] | FOther md content \<Rightarrow> []) bss1"
      by blast
    then show ?thesis using b2 False
      by (intro exI [of _ "bss1 @ bss2"]) (auto intro: list_all2_appendI)
  qed
qed

lemma read_path_ok:
  assumes "length junk = 1024" "length rel < 1024" "0 \<notin> set rel"
  shows "read_path junk (length rel) (rel @ rest) = Some (rel, rest)"
proof -
  have "(overlay junk 0 rel)[length rel := 0] = rel @ 0 # drop (length rel + 1) junk"
    using assms(1,2) by (simp add: overlay_def list_update_append Cons_nth_drop_Suc [symmetric])
  then show ?thesis using assms by (simp add: read_path_def)
qed

lemma extract_item:
  assumes m: "malloc_ok alloc" and j: "length junk = 1024" and ok: "item_ok it" and b: "item_bytes it bs"
  shows "extract_entry alloc can_open junk [46] True (bs @ rest) = Some (restores can_open it, 1, rest)"
proof -
  obtain rel nd where it: "it = (rel, nd)" by (cases it)
  have rel: "length rel < 1024" "0 \<notin> set rel" using ok unfolding it by (cases nd; simp)+
  have dest: "full_dest [46] rel = rel" using rel by (simp add: full_dest_def)
  have fl: "extract_entry alloc can_open junk [46] True (file_bytes rel md content data @ rest)
      = Some (make_parent_dirs rel @ (if can_open rel then [WriteFile rel md content True] else []), 1, rest)"
    if "md < 2 ^ 32" "length content < 2 ^ 63" "stored content data" for md content data
  proof -
    define e where "e = \<lparr>path_len = length rel, is_dir = 0, mode = md, orig_size = length content,
       comp_size = length data, file_crc = unat (calc_crc32 content 0)\<rparr>"
    have "length data \<le> length content" using that(3) by (simp add: stored_def)
    moreover have "unat (calc_crc32 content 0) < 2 ^ 32" using unsigned_less [of "calc_crc32 content 0"] by simp
    ultimately have "header_ok e" using rel that(1,2) by (simp add: header_ok_def e_def)
    then have p: "parse_entry_header (entry_header_bytes e) = e" by (rule entry_header_roundtrip)
    have "unpack_data alloc True e (data @ rest) = Some (Ptr content, rest)"
      by (rule unpack_stored [OF m that(3,2)]) (simp_all add: e_def)
    then show ?thesis
      using read_path_ok [OF j rel, of "data @ rest"] dest p
      unfolding extract_entry_def file_bytes_def e_def [symmetric] by (simp add: Let_def) (simp add: e_def)
  qed
  show ?thesis
  proof (cases nd)
    case (FDir md kids)
    define e where "e = \<lparr>path_len = length rel, is_dir = 1, mode = md, orig_size = 0, comp_size = 0, file_crc = 0\<rparr>"
    have "header_ok e" using rel ok FDir by (simp add: header_ok_def e_def it)
    then have p: "parse_entry_header (entry_header_bytes e) = e" by (rule entry_header_roundtrip)
    have bs: "bs = entry_header_bytes e @ rel" using b rel FDir by (simp add: it dir_entry_def Let_def e_def)
    show ?thesis
      using read_path_ok [OF j rel, of rest] dest p FDir
      unfolding extract_entry_def bs it by (simp add: Let_def) (simp add: e_def)
  next
    case (FFile md content)
    then show ?thesis using ok b fl by (auto simp: it)
  next
    case (FOther md content)
    then show ?thesis using ok b fl by (auto simp: it)
  qed
qed


lemma item_bytes_length: "item_bytes it bs \<Longrightarrow> 27 \<le> length bs"
  by (cases "(it, bs)" rule: item_bytes.cases) (auto simp: dir_entry_def file_bytes_def Let_def)

lemma extract_items:
  assumes m: "malloc_ok alloc" and j: "length junk = 1024"
    and "list_all2 item_bytes items bss" and "\<forall>it \<in> set items. item_ok it"
  shows "extract_loop alloc can_open junk [46] True (concat bss) = Some (concat (map (restores can_open) items), of_nat (length items))"
  using assms(3,4)
proof (induction rule: list_all2_induct)
  case Nil
  then show ?case by (subst extract_loop.simps) simp
next
  case (Cons it its bs bss)
  have "27 \<le> length bs" by (rule item_bytes_length [OF Cons(1)])
  moreover have "extract_entry alloc can_open junk [46] True (bs @ concat bss) = Some (restores can_open it, 1, concat bss)"
    by (rule extract_item [OF m j _ Cons(1)]) (use Cons(4) in simp)
  ultimately show ?case using Cons(3,4) by (subst extract_loop.simps) simp
qed

text \<open>The entries a run of \<open>create_archive\<close> writes for the node it was given.\<close>

definition target_items :: "u8 list \<Rightarrow> fnode \<Rightarrow> (u8 list \<times> fnode) list" where
  "target_items target nd =
     (case nd of FDir md kids \<Rightarrow> tree_items [] kids | _ \<Rightarrow> [(base_name target, nd)])"

lemma create_archive_items:
  assumes "create_archive alloc target (Some nd) = Some (0, f)" "malloc_ok alloc"
    and ok: "\<forall>it \<in> set (target_items target nd). item_ok it"
  obtains h bss where "f = archive_header_bytes h @ concat bss" "magic h = ZPACK_MAGIC_V2"
    "list_all2 item_bytes (target_items target nd) bss"
proof -
  define st0 where "st0 = \<lparr>out_bytes = [], entry_counter = 0, total_orig = 0, total_comp = 0\<rparr>"
  obtain st where st: "(case nd of
              FDir md kids \<Rightarrow> pack_recursive alloc [] kids st0
            | FFile md content \<Rightarrow> do {
                st \<leftarrow> pack_file alloc (base_name target) md content st0;
                Some (st \<lparr>entry_counter := 1\<rparr>)}
            | FOther md content \<Rightarrow> do {
                st \<leftarrow> pack_file alloc (base_name target) md content st0;
                Some (st \<lparr>entry_counter := 1\<rparr>)}) = Some st"
    and f: "\<exists>h. magic h = ZPACK_MAGIC_V2 \<and> f = archive_header_bytes h @ out_bytes st"
    using assms(1) unfolding create_archive_def option.case(2) st0_def [symmetric]
    by (auto simp: Let_def split: Option.bind_splits)
      (erule meta_mp, rule exI, rule conjI [rotated], rule refl, simp)
  have "\<exists>bss. out_bytes st = concat bss \<and> list_all2 item_bytes (target_items target nd) bss"
  proof (cases nd)
    case (FDir md kids)
    then show ?thesis
      using pack_recursive_items [of alloc "[]" kids st0 st] st assms(2) ok
      by (auto simp: target_items_def st0_def)
  next
    case (FFile md content)
    then obtain s where s: "pack_file alloc (base_name target) md content st0 = Some s" "out_bytes st = out_bytes s"
      using st by (auto split: Option.bind_splits)
    obtain data where "stored content data" "out_bytes s = file_bytes (base_name target) md content data"
      using pack_file_bytes [OF s(1) assms(2)] ok FFile by (auto simp: target_items_def st0_def)
    then show ?thesis using FFile s(2)
      by (intro exI [of _ "[file_bytes (base_name target) md content data]"]) (auto simp: target_items_def)
  next
    case (FOther md content)
    then obtain s where s: "pack_file alloc (base_name target) md content st0 = Some s" "out_bytes st = out_bytes s"
      using st by (auto split: Option.bind_splits)
    obtain data where "stored content data" "out_bytes s = file_bytes (base_name target) md content data"
      using pack_file_bytes [OF s(1) assms(2)] ok FOther by (auto simp: target_items_def st0_def)
    then show ?thesis using FOther s(2)
      by (intro exI [of _ "[file_bytes (base_name target) md content data]"]) (auto simp: target_items_def)
  qed
  then show ?thesis using f that by metis
qed

text \<open>
  C25: Extracting, in the current directory, an archive that \<open>zpack\<close> created restores exactly what was
  packed: the directories and files in the order of the walk, each with its path, mode and content and
  a matching checksum, and as many items as were written; only the files that cannot be created are left
  out, and they are counted all the same.  The archive may hold compressed and stored
  entries; the allocator gives every block that is asked for, the paths fit \<open>rel_path[1024]\<close>.
\<close>

theorem zpack_archive_roundtrip:
  assumes "malloc_ok alloc" "length junk = 1024"
    and "\<forall>it \<in> set (target_items target nd). item_ok it"
    and "create_archive alloc target (Some nd) = Some (0, f)"
  shows "extract_archive alloc can_open junk (Some f) [46]
    = Some (0, MkDir [46] 0x1ED # concat (map (restores can_open) (target_items target nd)),
        of_nat (length (target_items target nd)))"
proof -
  obtain h bss where f: "f = archive_header_bytes h @ concat bss" and h: "magic h = ZPACK_MAGIC_V2"
    and b: "list_all2 item_bytes (target_items target nd) bss"
    by (rule create_archive_items [OF assms(4,1,3)])
  have l: "length (archive_header_bytes h) = 32" by (rule length_archive_header) (simp add: h ZPACK_MAGIC_V2_def)
  have m: "magic (parse_archive_header (archive_header_bytes h)) = ZPACK_MAGIC_V2"
    by (simp add: parse_archive_header_def archive_header_bytes_def h ZPACK_MAGIC_V2_def)
  show ?thesis
    using extract_items [OF assms(1,2) b assms(3)] m
    by (simp add: extract_archive_def f l Let_def)
qed

theorem zpack_archive_roundtrip_witness:
  "\<exists>f. create_archive (\<lambda>n. Ptr (replicate n 0)) [100] (Some (FDir 0x1ED
         [([97], FFile 0x1A4 [1, 2, 3]), ([98], FDir 0x1C0 [([99], FFile 0x180 [])])])) = Some (0, f)
     \<and> extract_archive (\<lambda>n. Ptr (replicate n 0)) (\<lambda>_. True) (replicate 1024 0) (Some f) [46]
       = Some (0, [MkDir [46] 0x1ED, WriteFile [97] 0x1A4 [1, 2, 3] True, MkDir [98] 0x1C0,
           MkDir [98] 0x1ED, WriteFile [98, 47, 99] 0x180 [] True], 3)"
proof -
  let ?alloc = "\<lambda>n. Ptr (replicate n 0) :: u8 list cptr"
  let ?nd = "FDir 0x1ED [([97], FFile 0x1A4 [1, 2, 3]), ([98], FDir 0x1C0 [([99], FFile 0x180 [])])]"
  have l: "compress_loop [1, 2, 3] k t 0 0 (d, i) = Some (0, d, i)" for k t d i
    by (subst compress_loop.simps) simp
  have "zpack2_compress (Ptr [1, 2, 3]) (Ptr (replicate 2051 0)) 2051
      = Some (Ptr (overlay (replicate 2051 0) 0 (encode_last [1, 2, 3])), 4)"
    by (simp add: zpack2_compress_def l emit_last_encode encode_last_def zext_def)
  moreover have "zpack2_compress (Ptr []) (Ptr (replicate 2048 0)) 2048 = Some (Ptr (replicate 2048 0), 0)"
    by (simp add: zpack2_compress_def)
  ultimately obtain f where f: "create_archive ?alloc [100] (Some ?nd) = Some (0, f)"
    by (simp add: create_archive_def pack_file_def rel_path_def Let_def)
  have m: "malloc_ok ?alloc" by (simp add: malloc_ok_def)
  have ok: "\<forall>it \<in> set (target_items [100] ?nd). item_ok it" by (simp add: target_items_def rel_path_def)
  have it: "target_items [100] ?nd = [([97], FFile 0x1A4 [1, 2, 3]), ([98], FDir 0x1C0 []), ([98, 47, 99], FFile 0x180 [])]"
    by (simp add: target_items_def rel_path_def)
  have r: "concat (map (restores (\<lambda>_. True)) (target_items [100] ?nd)) = [WriteFile [97] 0x1A4 [1, 2, 3] True, MkDir [98] 0x1C0,
           MkDir [98] 0x1ED, WriteFile [98, 47, 99] 0x180 [] True]"
    unfolding it by (simp add: make_parent_dirs_def upt_conv_Cons)
  have n: "of_nat (length (target_items [100] ?nd)) = (3 :: u32)" unfolding it by simp
  have "length (replicate 1024 0 :: u8 list) = 1024" by (rule length_replicate)
  from zpack_archive_roundtrip [OF m this ok f, of "\<lambda>_. True"] show ?thesis
    unfolding r n using f by (intro exI [of _ f] conjI)
qed

end
