(* ===== verification/B64.thy ===== *)
theory B64 imports Kstring begin

text \<open>
  The Base64 and Base32 codecs of \<open>src/b64/b64.c\<close> and the program around them.  A codec takes the
  bytes of a buffer and yields the block it allocates with its length; \<open>NULL\<close> stands for a failed
  allocation or a rejected input.  The two codecs meet one contract, the locale \<open>text_codec\<close>.
\<close>

section \<open>Tables\<close>

definition b64_table :: "u8 list" where
  "b64_table = ascii ''ABCDEFGHIJKLMNOPQRSTUVWXYZabcdefghijklmnopqrstuvwxyz0123456789+/''"

definition b32_table :: "u8 list" where
  "b32_table = ascii ''ABCDEFGHIJKLMNOPQRSTUVWXYZ234567''"

definition pad :: u8 where "pad = 61"

text \<open>\<open>memset(d_table, 0x80, ...)\<close> sets every byte of an entry.\<close>

definition d_table :: "u32 list" where
  "d_table = fold (\<lambda>i t. t[unat (b64_table ! i) := of_nat i]) [0..<64] (replicate 256 0x80808080)"

definition tolower :: "u8 \<Rightarrow> u8" where
  "tolower c = (if 65 \<le> c \<and> c \<le> 90 then c + 32 else c)"

definition d32 :: "int list" where
  "d32 = fold (\<lambda>i t. t[unat (b32_table ! i) := int i, unat (tolower (b32_table ! i)) := int i]) [0..<32]
     (replicate 256 (- 1))"

section \<open>Base64\<close>

text \<open>\<open>(i < len) ? data[i++] : 0\<close>\<close>

definition next_octet :: "u8 list \<Rightarrow> nat \<Rightarrow> u32 \<times> nat" where
  "next_octet dat i = (if i < length dat then (ucast (dat ! i), i + 1) else (0, i))"

function (sequential) encode64_loop :: "u8 list \<Rightarrow> nat \<Rightarrow> u8 list \<Rightarrow> nat \<Rightarrow> u8 list option" where
  "encode64_loop dat i out j =
     (if i < length dat then
        let (oct_a, i1) = next_octet dat i;
            (oct_b, i2) = next_octet dat i1;
            (oct_c, i3) = next_octet dat i2;
            triple = push_bit 16 oct_a OR push_bit 8 oct_b OR oct_c in
        wr_seq out j [b64_table ! unat (drop_bit 18 triple AND 0x3F), b64_table ! unat (drop_bit 12 triple AND 0x3F),
          b64_table ! unat (drop_bit 6 triple AND 0x3F), b64_table ! unat (triple AND 0x3F)]
          \<bind> (\<lambda>out. encode64_loop dat i3 out (j + 4))
      else Some out)"
  by pat_completeness auto
termination
  by (relation "measure (\<lambda>(dat, i, out, j). length dat - i)") (auto simp: next_octet_def split: if_splits)

declare encode64_loop.simps [simp del]

definition base64_encode :: "(nat \<Rightarrow> u8 list cptr) \<Rightarrow> u8 list \<Rightarrow> (u8 list cptr \<times> nat) option" where
  "base64_encode alloc dat = (
     let out_len = 4 * ((length dat + 2) div 3) in
     case alloc (out_len + 1) of
       NULL \<Rightarrow> Some (NULL, out_len)
     | Ptr out \<Rightarrow> do {
         out \<leftarrow> encode64_loop dat 0 out 0;
         let m = length dat mod 3;
         out \<leftarrow> (if m = 1 then do {out \<leftarrow> wr out (out_len - 1) pad; wr out (out_len - 2) pad}
                 else if m = 2 then wr out (out_len - 1) pad else Some out);
         out \<leftarrow> wr out out_len 0;
         Some (Ptr out, out_len)})"

text \<open>The white space at the end is not part of the text.\<close>

fun trimmed :: "u8 list \<Rightarrow> nat \<Rightarrow> nat" where
  "trimmed dat 0 = 0"
| "trimmed dat (Suc n) =
     (if dat ! n = 13 \<or> dat ! n = 10 \<or> dat ! n = 32 then trimmed dat n else Suc n)"

definition sextet :: "u8 \<Rightarrow> u32" where
  "sextet c = (if c = pad then 0 else d_table ! unat c)"

text \<open>\<open>if (j < *out_len) out[j++] = v\<close>\<close>

fun put_below :: "nat \<Rightarrow> u8 list \<Rightarrow> nat \<Rightarrow> u8 list \<Rightarrow> (u8 list \<times> nat) option" where
  "put_below k out j [] = Some (out, j)"
| "put_below k out j (v # vs) =
     (if j < k then do {out \<leftarrow> wr out j v; put_below k out (j + 1) vs} else put_below k out j vs)"

function (sequential) decode64_loop :: "u8 list \<Rightarrow> nat \<Rightarrow> nat \<Rightarrow> nat \<Rightarrow> u8 list \<Rightarrow> nat \<Rightarrow> u8 list option" where
  "decode64_loop dat len out_len i out j =
     (if i < len then do {
        a \<leftarrow> rd dat i; b \<leftarrow> rd dat (i + 1); c \<leftarrow> rd dat (i + 2); d \<leftarrow> rd dat (i + 3);
        let triple = push_bit 18 (sextet a) OR push_bit 12 (sextet b) OR push_bit 6 (sextet c) OR sextet d;
        (out, j) \<leftarrow> put_below out_len out j [ucast (drop_bit 16 triple AND 0xFF), ucast (drop_bit 8 triple AND 0xFF),
          ucast (triple AND 0xFF)];
        decode64_loop dat len out_len (i + 4) out j}
      else Some out)"
  by pat_completeness auto
termination by (relation "measure (\<lambda>(dat, len, out_len, i, out, j). len - i)") auto

declare decode64_loop.simps [simp del]

definition base64_decode :: "(nat \<Rightarrow> u8 list cptr) \<Rightarrow> u8 list \<Rightarrow> (u8 list cptr \<times> nat) option" where
  "base64_decode alloc dat = (
     let len = trimmed dat (length dat) in
     if len mod 4 \<noteq> 0 then Some (NULL, 0)
     else
       let out_len = len div 4 * 3;
           out_len = (if len > 0 \<and> dat ! (len - 1) = pad then out_len - 1 else out_len);
           out_len = (if len > 1 \<and> dat ! (len - 2) = pad then out_len - 1 else out_len) in
       case alloc (out_len + 1) of
         NULL \<Rightarrow> Some (NULL, out_len)
       | Ptr out \<Rightarrow> do {
           out \<leftarrow> decode64_loop dat len out_len 0 out 0;
           out \<leftarrow> wr out out_len 0;
           Some (Ptr out, out_len)})"

section \<open>Base32\<close>

text \<open>The five bytes of a block in one 40-bit number, and its eight digits, most significant first.\<close>

definition block40 :: "u8 list \<Rightarrow> nat \<Rightarrow> nat \<Rightarrow> u64" where
  "block40 dat i chunk_len =
     foldl (\<lambda>b k. push_bit 8 b OR (if k < chunk_len then ucast (dat ! (i + k)) else 0)) 0 [0..<5]"

definition digits32 :: "u64 \<Rightarrow> u8 list" where
  "digits32 b = map (\<lambda>k. b32_table ! unat (ucast (drop_bit (k * 5) b AND 0x1F) :: u8)) [7, 6, 5, 4, 3, 2, 1, 0]"

definition pad_count_of :: "nat \<Rightarrow> nat" where
  "pad_count_of chunk_len =
     (if chunk_len = 1 then 6 else if chunk_len = 2 then 4 else if chunk_len = 3 then 3
      else if chunk_len = 4 then 1 else 0)"

function (sequential) encode32_loop :: "u8 list \<Rightarrow> nat \<Rightarrow> u8 list \<Rightarrow> nat \<Rightarrow> (u8 list \<times> nat) option" where
  "encode32_loop dat i out o' =
     (if i < length dat then do {
        let chunk_len = (if length dat - i > 5 then 5 else length dat - i);
        out \<leftarrow> wr_seq out o' (digits32 (block40 dat i chunk_len));
        let o' = o' + 8;
        out \<leftarrow> wr_seq out (o' - pad_count_of chunk_len) (replicate (pad_count_of chunk_len) pad);
        encode32_loop dat (i + 5) out o'}
      else Some (out, o'))"
  by pat_completeness auto
termination by (relation "measure (\<lambda>(dat, i, out, o'). length dat - i)") auto

declare encode32_loop.simps [simp del]

definition base32_encode :: "(nat \<Rightarrow> u8 list cptr) \<Rightarrow> u8 list \<Rightarrow> (u8 list cptr \<times> nat) option" where
  "base32_encode alloc dat = (
     let out_len = (length dat + 4) div 5 * 8 in
     case alloc (out_len + 1) of
       NULL \<Rightarrow> Some (NULL, out_len)
     | Ptr out \<Rightarrow> do {
         (out, o') \<leftarrow> encode32_loop dat 0 out 0;
         out \<leftarrow> wr out o' 0;
         Some (Ptr out, out_len)})"

text \<open>How many of the last six characters are padding.\<close>

definition pad_run :: "u8 list \<Rightarrow> nat \<Rightarrow> nat" where
  "pad_run dat len = length (takeWhile (\<lambda>k. k \<le> len \<and> dat ! (len - k) = pad) [1, 2, 3, 4, 5, 6])"

fun block32 :: "u8 list \<Rightarrow> nat \<Rightarrow> nat \<Rightarrow> u64 \<Rightarrow> u64 cptr option" where
  "block32 dat i 0 b = Some (Ptr b)"
| "block32 dat i (Suc n) b = do {
     c \<leftarrow> rd dat i;
     let val = (if c = pad then 0 else d32 ! unat c);
     if val < 0 then Some NULL else block32 dat (i + 1) n (push_bit 5 b OR word_of_int val)}"

function (sequential) decode32_loop :: "u8 list \<Rightarrow> nat \<Rightarrow> nat \<Rightarrow> nat \<Rightarrow> u8 list \<Rightarrow> nat \<Rightarrow> u8 list cptr option" where
  "decode32_loop dat len out_len i out o' =
     (if i < len then
        (case block32 dat i 8 0 of
           None \<Rightarrow> None
         | Some NULL \<Rightarrow> Some NULL
         | Some (Ptr b) \<Rightarrow>
             put_below out_len out o' (map (\<lambda>k. ucast (drop_bit (k * 8) b AND 0xFF)) [4, 3, 2, 1, 0])
               \<bind> (\<lambda>(out, o'). decode32_loop dat len out_len (i + 8) out o'))
      else Some (Ptr out))"
  by pat_completeness auto
termination by (relation "measure (\<lambda>(dat, len, out_len, i, out, o'). len - i)") auto

declare decode32_loop.simps [simp del]

definition base32_decode :: "(nat \<Rightarrow> u8 list cptr) \<Rightarrow> u8 list \<Rightarrow> (u8 list cptr \<times> nat) option" where
  "base32_decode alloc dat = (
     let len = trimmed dat (length dat) in
     if len mod 8 \<noteq> 0 then Some (NULL, 0)
     else
       let pad_count = pad_run dat len;
           out_len = len div 8 * 5;
           out_len = (if pad_count = 6 then out_len - 4 else if pad_count = 4 then out_len - 3
             else if pad_count = 3 then out_len - 2 else if pad_count = 1 then out_len - 1 else out_len) in
       case alloc (out_len + 1) of
         NULL \<Rightarrow> Some (NULL, out_len)
       | Ptr out \<Rightarrow> do {
           out \<leftarrow> decode32_loop dat len out_len 0 out 0;
           (case out of
              NULL \<Rightarrow> Some (NULL, out_len)
            | Ptr out \<Rightarrow> do {out \<leftarrow> wr out out_len 0; Some (Ptr out, out_len)})})"

section \<open>The program\<close>

record b64_opts =
  mode_encode :: bool
  use_base32 :: bool
  input_file :: "u8 list option"
  raw_str :: "u8 list option"

text \<open>One argument with those after it, and how many of these it takes; no value for the help.\<close>

definition b64_arg :: "u8 list \<Rightarrow> u8 list list \<Rightarrow> b64_opts \<Rightarrow> (b64_opts \<times> nat) option" where
  "b64_arg a rest opt =
     (if a = ascii ''-h'' \<or> a = ascii ''--help'' then None
      else Some
       (if a = ascii ''-e'' \<or> a = ascii ''--encode'' then (opt \<lparr>mode_encode := True\<rparr>, 0)
        else if a = ascii ''-d'' \<or> a = ascii ''--decode'' then (opt \<lparr>mode_encode := False\<rparr>, 0)
        else if a = ascii ''-32'' \<or> a = ascii ''--b32'' \<or> a = ascii ''--base32'' then (opt \<lparr>use_base32 := True\<rparr>, 0)
        else if a = ascii ''-64'' \<or> a = ascii ''--b64'' \<or> a = ascii ''--base64'' then (opt \<lparr>use_base32 := False\<rparr>, 0)
        else if a = ascii ''-f'' \<and> rest \<noteq> [] then (opt \<lparr>input_file := Some (hd rest)\<rparr>, 1)
        else if a = ascii ''-s'' \<and> rest \<noteq> [] then (opt \<lparr>raw_str := Some (hd rest)\<rparr>, 1)
        else if raw_str opt = None \<and> (a = [] \<or> hd a \<noteq> 45) then (opt \<lparr>raw_str := Some a\<rparr>, 0)
        else (opt, 0)))"

function b64_args :: "u8 list list \<Rightarrow> b64_opts \<Rightarrow> b64_opts option" where
  "b64_args [] opt = Some opt"
| "b64_args (a # rest) opt = b64_arg a rest opt \<bind> (\<lambda>(opt, k). b64_args (drop k rest) opt)"
  by pat_completeness auto
termination by (relation "measure (\<lambda>(args, opt). length args)") auto

text \<open>
  Standard input into a block that doubles when two more bytes do not fit; \<open>regrow\<close> is
  \<open>realloc\<close>, and a failed allocation is dereferenced.
\<close>

fun read_stdin :: "(nat \<Rightarrow> u8 list \<Rightarrow> u8 list cptr) \<Rightarrow> u8 list \<Rightarrow> u8 list \<Rightarrow> nat \<Rightarrow> nat \<Rightarrow> (u8 list \<times> nat) option" where
  "read_stdin regrow [] data_in n cap = do {data_in \<leftarrow> wr data_in n 0; Some (data_in, n)}"
| "read_stdin regrow (ch # input) data_in n cap =
     (case (if n + 2 \<ge> cap then regrow (cap * 2) data_in else Ptr data_in) of
        NULL \<Rightarrow> None
      | Ptr data_in \<Rightarrow> do {
          data_in \<leftarrow> wr data_in n ch;
          read_stdin regrow input data_in (n + 1) (if n + 2 \<ge> cap then cap * 2 else cap)})"

record b64_world =
  allocate :: "nat \<Rightarrow> u8 list cptr"
  reallocate :: "nat \<Rightarrow> u8 list \<Rightarrow> u8 list cptr"
  contents :: "u8 list \<Rightarrow> u8 list option"
  stdin_bytes :: "u8 list"
  stdin_tty :: bool

datatype b64_out = BHelp | BOpenFailed | BNothing | BEncoded bool nat nat "u8 list" | BDecoded bool nat "u8 list" | BInvalid bool

text \<open>Where the data comes from: the early return, or the block (\<open>NULL\<close> without memory) and its length.\<close>

definition b64_input :: "b64_world \<Rightarrow> b64_opts \<Rightarrow> ((int \<times> b64_out) + u8 list cptr \<times> nat) option" where
  "b64_input w opt =
     (case input_file opt of
        Some path \<Rightarrow>
          (case contents w path of
             None \<Rightarrow> Some (Inl (1, BOpenFailed))
           | Some bytes \<Rightarrow>
               (case allocate w (length bytes + 1) of
                  NULL \<Rightarrow> Some (Inr (NULL, 0))
                | Ptr b \<Rightarrow> do {
                    b \<leftarrow> wr_seq b 0 bytes;
                    b \<leftarrow> wr b (length bytes) 0;
                    Some (Inr (Ptr b, length bytes))}))
      | None \<Rightarrow>
          (case raw_str opt of
             Some t \<Rightarrow>
               (case allocate w (length t + 1) of
                  NULL \<Rightarrow> Some (Inr (NULL, length t))
                | Ptr b \<Rightarrow> do {b \<leftarrow> wr_seq b 0 (t @ [0]); Some (Inr (Ptr b, length t))})
           | None \<Rightarrow>
               if stdin_tty w then Some (Inl (0, BHelp))
               else (case allocate w 4096 of
                  NULL \<Rightarrow> None
                | Ptr b \<Rightarrow> do {
                    (b, n) \<leftarrow> read_stdin (reallocate w) (stdin_bytes w) b 0 4096;
                    Some (Inr (Ptr b, n))})))"

definition codec_encode :: "bool \<Rightarrow> (nat \<Rightarrow> u8 list cptr) \<Rightarrow> u8 list \<Rightarrow> (u8 list cptr \<times> nat) option" where
  "codec_encode use32 = (if use32 then base32_encode else base64_encode)"

definition codec_decode :: "bool \<Rightarrow> (nat \<Rightarrow> u8 list cptr) \<Rightarrow> u8 list \<Rightarrow> (u8 list cptr \<times> nat) option" where
  "codec_decode use32 = (if use32 then base32_decode else base64_decode)"

text \<open>The exit status and what is printed; \<open>%s\<close> prints a result up to its first NUL.\<close>

definition b64_main :: "b64_world \<Rightarrow> u8 list list \<Rightarrow> (int \<times> b64_out) option" where
  "b64_main w args =
     (if args = [] then Some (1, BHelp)
      else case b64_args args \<lparr>mode_encode = True, use_base32 = False, input_file = None, raw_str = None\<rparr> of
        None \<Rightarrow> Some (0, BHelp)
      | Some opt \<Rightarrow> do {
          inp \<leftarrow> b64_input w opt;
          (case inp of
             Inl r \<Rightarrow> Some r
           | Inr (NULL, n) \<Rightarrow> Some (0, BNothing)
           | Inr (Ptr b, n) \<Rightarrow>
               if n = 0 then Some (0, BNothing)
               else if mode_encode opt then do {
                 (res, out_len) \<leftarrow> codec_encode (use_base32 opt) (allocate w) (take n b);
                 Some (0, case res of NULL \<Rightarrow> BNothing | Ptr t \<Rightarrow> BEncoded (use_base32 opt) n out_len (cstr t))}
               else do {
                 (res, out_len) \<leftarrow> codec_decode (use_base32 opt) (allocate w) (take n b);
                 Some (0, case res of NULL \<Rightarrow> BInvalid (use_base32 opt) | Ptr t \<Rightarrow> BDecoded (use_base32 opt) out_len (cstr t))})})"

section \<open>The text of a Base64 encoding\<close>

definition chars64 :: "u32 \<Rightarrow> u8 list" where
  "chars64 t = [b64_table ! unat (drop_bit 18 t AND 0x3F), b64_table ! unat (drop_bit 12 t AND 0x3F),
     b64_table ! unat (drop_bit 6 t AND 0x3F), b64_table ! unat (t AND 0x3F)]"

definition triple :: "u8 \<Rightarrow> u8 \<Rightarrow> u8 \<Rightarrow> u32" where
  "triple a b c = push_bit 16 (ucast a) OR push_bit 8 (ucast b) OR ucast c"

fun raw64 :: "u8 list \<Rightarrow> u8 list" where
  "raw64 [] = []"
| "raw64 [a] = chars64 (triple a 0 0)"
| "raw64 [a, b] = chars64 (triple a b 0)"
| "raw64 (a # b # c # dat) = chars64 (triple a b c) @ raw64 dat"

definition pads64 :: "nat \<Rightarrow> nat" where
  "pads64 n = (if n mod 3 = 1 then 2 else if n mod 3 = 2 then 1 else 0)"

definition enc64 :: "u8 list \<Rightarrow> u8 list" where
  "enc64 dat = take (length (raw64 dat) - pads64 (length dat)) (raw64 dat) @ replicate (pads64 (length dat)) pad"

lemma length_chars64 [simp]: "length (chars64 t) = 4"
  by (simp add: chars64_def)

lemma length_raw64: "length (raw64 dat) = 4 * ((length dat + 2) div 3)"
proof (induction dat rule: raw64.induct)
  case (4 a b c dat)
  then show ?case using div_add_self2 [of 3 "length dat + 2"] by (simp add: ac_simps)
qed simp_all

lemma pads64_le: "pads64 (length dat) \<le> length (raw64 dat)"
  unfolding length_raw64 pads64_def by (cases "length dat") auto

lemma length_enc64: "length (enc64 dat) = 4 * ((length dat + 2) div 3)"
  using pads64_le [of dat] by (simp add: enc64_def length_raw64)

lemma encode64_unfold:
  "i < length dat \<Longrightarrow> encode64_loop dat i out j =
     (let (oct_a, i1) = next_octet dat i; (oct_b, i2) = next_octet dat i1; (oct_c, i3) = next_octet dat i2 in
      wr_seq out j (chars64 (push_bit 16 oct_a OR push_bit 8 oct_b OR oct_c)) \<bind> (\<lambda>out. encode64_loop dat i3 out (j + 4)))"
  by (subst encode64_loop.simps) (simp add: chars64_def Let_def del: wr_seq.simps)

lemma next_octet_simps:
  "i < length dat \<Longrightarrow> next_octet dat i = (ucast (dat ! i), i + 1)"
  "\<not> i < length dat \<Longrightarrow> next_octet dat i = (0, i)"
  by (simp_all add: next_octet_def)

lemma drop_unfold: "i < length xs \<Longrightarrow> drop i xs = xs ! i # drop (i + 1) xs"
  by (simp add: Cons_nth_drop_Suc)

lemma encode64_step:
  assumes "i < length dat"
  shows "encode64_loop dat i out j = wr_seq out j (take 4 (raw64 (drop i dat)))
    \<bind> (\<lambda>out. encode64_loop dat (min (i + 3) (length dat)) out (j + 4))
    \<and> raw64 (drop i dat) = take 4 (raw64 (drop i dat)) @ raw64 (drop (min (i + 3) (length dat)) dat)"
proof -
  note u = encode64_unfold [OF assms] next_octet_simps(1) [OF assms]
  consider "length dat = i + 1" | "length dat = i + 1 + 1" | "i + 1 + 1 < length dat" using assms by linarith
  then show ?thesis
  proof cases
    case 1
    then have d: "drop i dat = [dat ! i]" and m: "min (i + 3) (length dat) = i + 1" and n: "\<not> i + 1 < length dat"
      using assms by (simp_all add: drop_unfold)
    show ?thesis unfolding u next_octet_simps(2) [OF n] d m Let_def prod.case using 1
      by (simp add: triple_def del: wr_seq.simps)
  next
    case 2
    then have d: "drop i dat = [dat ! i, dat ! (i + 1)]" and m: "min (i + 3) (length dat) = i + 1 + 1"
      and n: "i + 1 < length dat" "\<not> i + 1 + 1 < length dat"
      using assms by (simp_all add: drop_unfold)
    show ?thesis unfolding u next_octet_simps(1) [OF n(1)] next_octet_simps(2) [OF n(2)] d m Let_def prod.case using 2
      by (simp add: triple_def del: wr_seq.simps)
  next
    case 3
    then have n: "i + 1 < length dat" by simp
    have m: "min (i + 3) (length dat) = i + 1 + 1 + 1" using 3 by simp
    have d: "drop i dat = dat ! i # dat ! (i + 1) # dat ! (i + 1 + 1) # drop (i + 1 + 1 + 1) dat"
      unfolding drop_unfold [OF assms] drop_unfold [OF n] drop_unfold [OF 3] ..
    show ?thesis unfolding u next_octet_simps(1) [OF n] next_octet_simps(1) [OF 3] d m Let_def prod.case
      by (simp add: triple_def del: wr_seq.simps)
  qed
qed

lemma encode64_loop_raw:
  "j + length (raw64 (drop i dat)) \<le> length out \<Longrightarrow>
   encode64_loop dat i out j = Some (overlay out j (raw64 (drop i dat)))"
proof (induction "length dat - i" arbitrary: i out j rule: less_induct)
  case less
  show ?case
  proof (cases "i < length dat")
    case True
    define r where "r = take 4 (raw64 (drop i dat))"
    let ?i = "min (i + 3) (length dat)"
    note step = encode64_step [OF True, of out j, folded r_def]
    have l: "length (raw64 (drop i dat)) = length r + length (raw64 (drop ?i dat))"
      by (subst step [THEN conjunct2]) simp
    moreover have "4 \<le> length (raw64 (drop i dat))" using True unfolding length_raw64 by simp
    ultimately have r: "length r = 4" by (simp add: r_def)
    have "encode64_loop dat ?i (overlay out j r) (j + 4) = Some (overlay (overlay out j r) (j + 4) (raw64 (drop ?i dat)))"
      using less(2) l r True by (intro less(1)) auto
    also have "overlay (overlay out j r) (j + 4) (raw64 (drop ?i dat)) = overlay out j (raw64 (drop i dat))"
      using overlay_overlay [of j r out "raw64 (drop ?i dat)"] less(2) l r by (subst step [THEN conjunct2]) simp
    finally show ?thesis using step [THEN conjunct1] less(2) l r by (simp add: wr_seq_overlay)
  next
    case False
    then show ?thesis using less(2) by (subst encode64_loop.simps) simp
  qed
qed

lemma overlay_all: "length b = length xs + 1 \<Longrightarrow> \<exists>x. overlay b 0 xs = xs @ [x]"
  by (cases b rule: rev_cases) (auto simp: overlay_def)

lemma malloc_okD:
  assumes "malloc_ok alloc"
  obtains b where "alloc n = Ptr b" "length b = n"
  using assms unfolding malloc_ok_def by blast

lemma pad_last:
  "2 \<le> n \<Longrightarrow> length r = n \<Longrightarrow> (r @ [x])[n - 1 := p, n - 2 := p] = take (n - 2) r @ [p, p, x]"
  "1 \<le> n \<Longrightarrow> length r = n \<Longrightarrow> (r @ [x])[n - 1 := p] = take (n - 1) r @ [p, x]"
  by (auto intro!: nth_equalityI simp: nth_append nth_list_update nth_Cons' min_def)

lemma base64_encode_text:
  assumes "malloc_ok alloc"
  shows "base64_encode alloc dat = Some (Ptr (enc64 dat @ [0]), length (enc64 dat))"
proof -
  let ?n = "4 * ((length dat + 2) div 3)"
  obtain out where out: "alloc (?n + 1) = Ptr out" "length out = ?n + 1" by (rule malloc_okD [OF assms])
  obtain x where x: "encode64_loop dat 0 out 0 = Some (raw64 dat @ [x])"
    using encode64_loop_raw [of 0 0 dat out] overlay_all [of out "raw64 dat"] out(2) by (auto simp: length_raw64)
  have n: "length (raw64 dat) = ?n" by (rule length_raw64)
  consider "length dat mod 3 = 0" | "length dat mod 3 = 1" "2 \<le> ?n" | "length dat mod 3 = 2" "1 \<le> ?n"
  proof -
    have "length dat mod 3 = 0 \<or> length dat mod 3 = 1 \<or> length dat mod 3 = 2" by presburger
    moreover have "length dat mod 3 \<noteq> 0 \<Longrightarrow> 4 \<le> ?n" by (cases "length dat") auto
    ultimately show ?thesis using that by auto
  qed
  then show ?thesis
  proof cases
    case 1
    then show ?thesis using out x n
      by (simp add: base64_encode_def Let_def enc64_def pads64_def list_update_append)
  next
    case 2
    then have "(raw64 dat @ [x])[?n - 1 := pad, ?n - 2 := pad] = take (?n - 2) (raw64 dat) @ [pad, pad, x]"
      using n by (intro pad_last(1))
    then show ?thesis using out x n 2
      by (simp add: base64_encode_def Let_def enc64_def pads64_def list_update_append numeral_2_eq_2) arith
  next
    case 3
    then have "(raw64 dat @ [x])[?n - 1 := pad] = take (?n - 1) (raw64 dat) @ [pad, x]"
      using n by (intro pad_last(2))
    then show ?thesis using out x n 3
      by (simp add: base64_encode_def Let_def enc64_def pads64_def list_update_append) arith
  qed
qed

section \<open>The text of a decoding\<close>

lemma put_below_overlay:
  "j \<le> k \<Longrightarrow> k \<le> length out \<Longrightarrow> put_below k out j vs = Some (overlay out j (take (k - j) vs), j + min (k - j) (length vs))"
proof (induction vs arbitrary: out j)
  case (Cons v vs)
  then show ?case using Cons.IH [of "j + 1" "out[j := v]"] Cons.IH [of j out]
    by (cases "j < k") (auto simp: overlay_step take_Cons' diff_Suc split: nat.splits)
qed simp

definition join4 :: "u32 \<Rightarrow> u32 \<Rightarrow> u32 \<Rightarrow> u32 \<Rightarrow> u32" where
  "join4 a b c d = push_bit 18 a OR push_bit 12 b OR push_bit 6 c OR d"

definition bytes3 :: "u32 \<Rightarrow> u8 list" where
  "bytes3 t = [ucast (drop_bit 16 t AND 0xFF), ucast (drop_bit 8 t AND 0xFF), ucast (t AND 0xFF)]"

fun dec64 :: "u32 list \<Rightarrow> u8 list" where
  "dec64 (a # b # c # d # ss) = bytes3 (join4 a b c d) @ dec64 ss"
| "dec64 _ = []"

lemma list_of_4:
  assumes "i + 4 \<le> length xs"
  obtains a b c d where "drop i xs = a # b # c # d # drop (i + 4) xs" "rd xs i = Some a" "rd xs (i + 1) = Some b"
    "rd xs (i + 2) = Some c" "rd xs (i + 3) = Some d"
proof -
  have l: "i < length xs" "i + 1 < length xs" "i + 1 + 1 < length xs" "i + 1 + 1 + 1 < length xs" using assms by simp_all
  have "drop i xs = xs ! i # xs ! (i + 1) # xs ! (i + 1 + 1) # xs ! (i + 1 + 1 + 1) # drop (i + 1 + 1 + 1 + 1) xs"
    unfolding drop_unfold [OF l(1)] drop_unfold [OF l(2)] drop_unfold [OF l(3)] drop_unfold [OF l(4)] ..
  moreover have "i + 1 + 1 = i + 2" "i + 2 + 1 = i + 3" "i + 3 + 1 = i + 4" by simp_all
  ultimately show ?thesis
    using assms by (intro that [of "xs ! i" "xs ! (i + 1)" "xs ! (i + 2)" "xs ! (i + 3)"]) (simp_all only: rd_in)
qed

lemma decode64_unfold:
  "decode64_loop dat len n i out j =
     (if i < len then do {
        a \<leftarrow> rd dat i; b \<leftarrow> rd dat (i + 1); c \<leftarrow> rd dat (i + 2); d \<leftarrow> rd dat (i + 3);
        (out, j) \<leftarrow> put_below n out j (bytes3 (join4 (sextet a) (sextet b) (sextet c) (sextet d)));
        decode64_loop dat len n (i + 4) out j}
      else Some out)"
  by (subst decode64_loop.simps) (simp only: bytes3_def join4_def Let_def)

lemma decode64_loop_dec:
  assumes "length dat mod 4 = 0"
  shows "\<lbrakk>i mod 4 = 0; i \<le> length dat; j \<le> n; n \<le> length out\<rbrakk> \<Longrightarrow>
    decode64_loop (dat @ r) (length dat) n i out j = Some (overlay out j (take (n - j) (dec64 (map sextet (drop i dat)))))"
proof (induction "length dat - i" arbitrary: i out j rule: less_induct)
  case less
  show ?case
  proof (cases "i < length dat")
    case True
    then have i4: "i + 4 \<le> length dat" using less(2) assms by presburger
    from list_of_4 [OF i4] obtain a b c d where l: "drop i dat = a # b # c # d # drop (i + 4) dat"
      "rd dat i = Some a" "rd dat (i + 1) = Some b" "rd dat (i + 2) = Some c" "rd dat (i + 3) = Some d" by blast
    then have rd4: "rd (dat @ r) i = Some a" "rd (dat @ r) (i + 1) = Some b" "rd (dat @ r) (i + 2) = Some c"
      "rd (dat @ r) (i + 3) = Some d"
      using i4 by (auto simp: rd_def nth_append split: if_splits)
    define v where "v = bytes3 (join4 (sextet a) (sextet b) (sextet c) (sextet d))"
    let ?m = "min (n - j) (length v)" and ?o = "overlay out j (take (n - j) v)"
    have lo: "length ?o = length out" using less(4,5) by (intro length_overlay) simp
    have "decode64_loop (dat @ r) (length dat) n (i + 4) ?o (j + ?m)
        = Some (overlay ?o (j + ?m) (take (n - (j + ?m)) (dec64 (map sextet (drop (i + 4) dat)))))"
      using True less(2-5) i4 lo by (intro less(1)) (simp_all add: mod_add_left_eq [symmetric])
    also have "overlay ?o (j + ?m) (take (n - (j + ?m)) (dec64 (map sextet (drop (i + 4) dat))))
        = overlay out j (take (n - j) (v @ dec64 (map sextet (drop (i + 4) dat))))"
      using overlay_overlay [of j "take (n - j) v" out "take (n - (j + ?m)) (dec64 (map sextet (drop (i + 4) dat)))"] less(4,5)
      by (simp add: min.commute) (simp add: min_def)
    finally show ?thesis using True rd4 l(1) put_below_overlay [OF less(4,5), of v]
      by (subst decode64_unfold) (simp add: v_def [symmetric])
  next
    case False
    then show ?thesis using less by (subst decode64_loop.simps) simp
  qed
qed

section \<open>Base64 is invertible\<close>

text \<open>A table filled entry by entry holds a value at the keys where the entries agree on it.\<close>

lemma fold_updates_other:
  "\<forall>p \<in> set ps. fst p \<noteq> k \<Longrightarrow> fold (\<lambda>(i, v) t. t[i := v]) ps t ! k = t ! k"
  by (induction ps arbitrary: t) (auto split: prod.splits)

lemma fold_updates:
  "(k, v) \<in> set ps \<Longrightarrow> \<forall>p \<in> set ps. fst p = k \<longrightarrow> snd p = v \<Longrightarrow> k < length t \<Longrightarrow>
   fold (\<lambda>(i, v) t. t[i := v]) ps t ! k = v"
proof (induction ps arbitrary: t)
  case (Cons p ps)
  show ?case
  proof (cases "(k, v) \<in> set ps")
    case True
    then show ?thesis using Cons by (simp add: case_prod_unfold)
  next
    case False
    then have "p = (k, v)" "\<forall>q \<in> set ps. fst q \<noteq> k" using Cons.prems(1,2) by force+
    then show ?thesis using fold_updates_other [of ps k "t[k := v]"] Cons.prems(3) by simp
  qed
qed simp

lemma fold_steps: "fold (\<lambda>i. fold f (g i)) xs t = fold f (concat (map g xs)) t"
  by (induction xs arbitrary: t) simp_all

lemma b64_table_eq: "b64_table =
    [65, 66, 67, 68, 69, 70, 71, 72, 73, 74, 75, 76, 77, 78, 79, 80, 81, 82, 83, 84, 85, 86,
     87, 88, 89, 90, 97, 98, 99, 100, 101, 102, 103, 104, 105, 106, 107, 108, 109, 110,
     111, 112, 113, 114, 115, 116, 117, 118, 119, 120, 121, 122, 48, 49, 50, 51, 52, 53,
     54, 55, 56, 57, 43, 47]"
  by (simp add: b64_table_def ascii_def of_char_def)

lemma b64_table_inverse:
  assumes "n < 64"
  shows "sextet (b64_table ! n) = of_nat n" "b64_table ! n \<notin> {0, pad, 13, 10, 32}"
proof -
  have l: "length b64_table = 64" and d: "distinct b64_table"
    and z: "list_all (\<lambda>c. c \<notin> {0, pad, 13, 10, 32}) b64_table"
    unfolding b64_table_eq pad_def by simp_all
  show c: "b64_table ! n \<notin> {0, pad, 13, 10, 32}" using z l assms by (simp add: list_all_length)
  have t: "d_table = fold (\<lambda>(i, v) t. t[i := v])
      (concat (map (\<lambda>i. [(unat (b64_table ! i), of_nat i)]) [0..<64])) (replicate 256 0x80808080)"
    unfolding d_table_def fold_steps [symmetric] by simp
  have "d_table ! unat (b64_table ! n) = of_nat n"
    unfolding t
  proof (rule fold_updates)
    have inj: "i = n" if "unat (b64_table ! i) = unat (b64_table ! n)" "i < 64" for i
      using nth_eq_iff_index_eq [OF d, of i n] unsigned_word_eqI [OF that(1)] that(2) l assms by simp
    then show "\<forall>p \<in> set (concat (map (\<lambda>i. [(unat (b64_table ! i), of_nat i)]) [0..<64])).
        fst p = unat (b64_table ! n) \<longrightarrow> snd p = (of_nat n :: u32)"
      by (auto intro!: arg_cong [where f = of_nat] inj)
  qed (use assms unsigned_less [of "b64_table ! n"] in auto)
  then show "sextet (b64_table ! n) = of_nat n" using c by (simp add: sextet_def)
qed

lemma sextet_pad [simp]: "sextet pad = 0"
  by (simp add: sextet_def)

lemma and_63: "unat (x AND 0x3F :: u32) < 64" "of_nat (unat (x AND 0x3F :: u32)) = x AND 0x3F"
proof -
  have "(x AND 0x3F) = x AND mask 6" by (simp add: mask_eq_exp_minus_1)
  then show "unat (x AND 0x3F) < 64" using unat_and_mask [of x 6] by simp
  show "of_nat (unat (x AND 0x3F)) = x AND 0x3F" by simp
qed

lemma sextets_chars64:
  "map sextet (chars64 t) = [drop_bit 18 t AND 0x3F, drop_bit 12 t AND 0x3F, drop_bit 6 t AND 0x3F, t AND 0x3F]"
  by (simp add: chars64_def b64_table_inverse(1) [OF and_63(1)] and_63(2))

lemma bytes3_sextets:
  "bytes3 (join4 (drop_bit 18 t AND 0x3F) (drop_bit 12 t AND 0x3F) (drop_bit 6 t AND 0x3F) (t AND 0x3F)) = bytes3 t"
proof -
  have m: "(0x3F :: u32) = mask 6" "(0xFF :: u32) = mask 8" by (simp_all add: mask_eq_exp_minus_1)
  show ?thesis
    unfolding bytes3_def join4_def m list.inject
    by (intro conjI refl) (rule bit_word_eqI, auto simp: bit_simps)+
qed

lemma bytes3_triple: "bytes3 (triple a b c) = [a, b, c]"
proof -
  have m: "(0xFF :: u32) = mask 8" by (simp add: mask_eq_exp_minus_1)
  show ?thesis
    unfolding bytes3_def triple_def m list.inject
    by (intro conjI refl) (rule bit_word_eqI, auto simp: bit_simps dest: bit_imp_le_length)+
qed

lemma dec64_chars64: "dec64 (map sextet (chars64 (triple a b c)) @ ss) = [a, b, c] @ dec64 ss"
  unfolding sextets_chars64 append_Cons append_Nil dec64.simps bytes3_sextets bytes3_triple ..

lemma dec64_raw64: "dec64 (map sextet (raw64 dat)) = dat @ replicate (pads64 (length dat)) 0"
proof (induction dat rule: raw64.induct)
  case (2 a)
  show ?case using dec64_chars64 [of a 0 0 "[]"] by (simp add: pads64_def numeral_2_eq_2)
next
  case (3 a b)
  show ?case using dec64_chars64 [of a b 0 "[]"] by (simp add: pads64_def)
next
  case (4 a b c dat)
  have "pads64 (length (a # b # c # dat)) = pads64 (length dat)" by (simp add: pads64_def mod_Suc_eq_mod_add3)
  then show ?case using 4 by (simp add: dec64_chars64)
qed (simp add: pads64_def)

lemma length_pads64: "pads64 (length (a # b # c # dat)) = pads64 (length dat)"
  by (simp add: pads64_def)

lemma drop_raw64: "drop (length (raw64 dat) - pads64 (length dat)) (raw64 dat) = replicate (pads64 (length dat)) (b64_table ! 0)"
proof (induction dat rule: raw64.induct)
  case (2 a)
  have "triple a 0 0 AND 0x3F = 0" "drop_bit 6 (triple a 0 0) AND 0x3F = 0"
  proof -
    have m: "(0x3F :: u32) = mask 6" by (simp add: mask_eq_exp_minus_1)
    show "triple a 0 0 AND 0x3F = 0" "drop_bit 6 (triple a 0 0) AND 0x3F = 0"
      unfolding m triple_def by (rule bit_word_eqI, auto simp: bit_simps)+
  qed
  then show ?case by (simp add: pads64_def chars64_def numeral_2_eq_2)
next
  case (3 a b)
  have "triple a b 0 AND 0x3F = 0"
  proof -
    have m: "(0x3F :: u32) = mask 6" by (simp add: mask_eq_exp_minus_1)
    show ?thesis unfolding m triple_def by (rule bit_word_eqI) (auto simp: bit_simps)
  qed
  then show ?case by (simp add: pads64_def chars64_def numeral_2_eq_2)
next
  case (4 a b c dat)
  then show ?case using pads64_le [of dat] unfolding length_pads64 by (simp add: Suc_diff_le)
qed (simp add: pads64_def)

lemma sextets_enc64: "map sextet (enc64 dat) = map sextet (raw64 dat)"
proof -
  let ?k = "length (raw64 dat) - pads64 (length dat)"
  have "sextet (b64_table ! 0) = 0" using b64_table_inverse(1) [of 0] by simp
  then have "map sextet (enc64 dat) = map sextet (take ?k (raw64 dat) @ drop ?k (raw64 dat))"
    unfolding drop_raw64 by (simp add: enc64_def)
  then show ?thesis by simp
qed

text \<open>White space after a text is trimmed, and only that.\<close>

lemma trimmed_text:
  assumes "set ws \<subseteq> {13, 10, 32}" "t = [] \<or> last t \<notin> {13, 10, 32}"
  shows "trimmed (t @ ws @ r) (length t + length ws) = length t"
  using assms(1)
proof (induction ws arbitrary: r rule: rev_induct)
  case Nil
  then show ?case using assms(2) by (cases t rule: rev_cases) (auto simp: nth_append)
next
  case (snoc w ws)
  have "(t @ (ws @ [w]) @ r) ! (length t + length ws) = w" by (simp add: nth_append)
  then show ?case using snoc by simp
qed

lemma raw64_not_special: "c \<in> set (raw64 dat) \<Longrightarrow> c \<notin> {0, pad, 13, 10, 32}"
proof (induction dat rule: raw64.induct)
  case (4 a b c dat)
  then show ?case using b64_table_inverse(2) [OF and_63(1)] by (auto simp: chars64_def)
qed (use b64_table_inverse(2) [OF and_63(1)] in \<open>auto simp: chars64_def\<close>)

lemma enc64_last: "enc64 dat = [] \<or> last (enc64 dat) \<notin> {13, 10, 32}"
proof -
  have "set (enc64 dat) \<inter> {13, 10, 32} = {}"
    using raw64_not_special by (auto simp: enc64_def pad_def dest!: in_set_takeD split: if_splits)
  then show ?thesis by (meson disjoint_iff last_in_set)
qed

lemma enc64_pads:
  assumes "dat \<noteq> []"
  shows "enc64 dat ! (length (enc64 dat) - 1) = pad \<longleftrightarrow> 1 \<le> pads64 (length dat)"
    "enc64 dat ! (length (enc64 dat) - 2) = pad \<longleftrightarrow> 2 \<le> pads64 (length dat)"
proof -
  have l: "4 \<le> length (raw64 dat)" using assms unfolding length_raw64 by (cases dat) simp_all
  have n: "k < length (raw64 dat) \<Longrightarrow> raw64 dat ! k \<noteq> pad" for k
    using raw64_not_special [OF nth_mem] by blast
  have e: "length (enc64 dat) = length (raw64 dat)" by (simp add: length_enc64 length_raw64)
  have p: "pads64 (length dat) \<in> {0, 1, 2}" by (simp add: pads64_def)
  show "enc64 dat ! (length (enc64 dat) - 1) = pad \<longleftrightarrow> 1 \<le> pads64 (length dat)"
    "enc64 dat ! (length (enc64 dat) - 2) = pad \<longleftrightarrow> 2 \<le> pads64 (length dat)"
    unfolding e unfolding enc64_def using l n p by (auto simp: nth_append)
qed

lemma pads64_length: "length dat + pads64 (length dat) = length (raw64 dat) div 4 * 3"
  unfolding length_raw64 pads64_def by simp presburger

lemma base64_decode_enc:
  assumes "malloc_ok alloc" and ws: "set ws \<subseteq> {13, 10, 32}"
  shows "base64_decode alloc (enc64 dat @ ws) = Some (Ptr (dat @ [0]), length dat)"
proof -
  have t: "trimmed (enc64 dat @ ws) (length (enc64 dat @ ws)) = length (enc64 dat)"
    using trimmed_text [OF ws enc64_last [of dat], of "[]"] by simp
  have e: "length (enc64 dat) = length (raw64 dat)" by (simp add: length_enc64 length_raw64)
  have m4: "length (enc64 dat) mod 4 = 0" unfolding length_enc64 by simp
  obtain out where out: "alloc (length dat + 1) = Ptr out" "length out = length dat + 1" by (rule malloc_okD [OF assms(1)])
  have "take (length dat) (dec64 (map sextet (enc64 dat))) = dat" by (simp add: sextets_enc64 dec64_raw64)
  then have d: "decode64_loop (enc64 dat @ ws) (length (enc64 dat)) (length dat) 0 out 0 = Some (overlay out 0 dat)"
    using decode64_loop_dec [OF m4, of 0 0 "length dat" out ws] out(2) by simp
  obtain x where x: "overlay out 0 dat = dat @ [x]" using overlay_all [OF out(2)] by blast
  show ?thesis
  proof (cases "dat = []")
    case True
    then have "enc64 dat = []" by (simp add: enc64_def pads64_def)
    then show ?thesis using t True d x out by (simp add: base64_decode_def Let_def)
  next
    case False
    have l: "4 \<le> length (enc64 dat)" using False unfolding length_enc64 by (cases dat) simp_all
    have n: "(enc64 dat @ ws) ! (length (enc64 dat) - 1) = enc64 dat ! (length (enc64 dat) - 1)"
      "(enc64 dat @ ws) ! (length (enc64 dat) - 2) = enc64 dat ! (length (enc64 dat) - 2)"
      using l by (auto simp: nth_append)
    have q: "length (enc64 dat) div 4 * 3 = length dat + pads64 (length dat)"
      using pads64_length [of dat] unfolding e by simp
    consider "pads64 (length dat) = 0" | "pads64 (length dat) = 1" | "pads64 (length dat) = 2"
      unfolding pads64_def by presburger
    then show ?thesis
      using l d x out enc64_pads [OF False] m4 unfolding base64_decode_def Let_def t n q
      by cases (simp_all add: list_update_append, (cases "enc64 dat = []"; simp)+)
  qed
qed

section \<open>The text of a Base32 encoding\<close>

definition byte_at :: "u8 list \<Rightarrow> nat \<Rightarrow> u8" where
  "byte_at dat k = (if k < length dat then dat ! k else 0)"

definition w40 :: "u8 \<Rightarrow> u8 \<Rightarrow> u8 \<Rightarrow> u8 \<Rightarrow> u8 \<Rightarrow> u64" where
  "w40 a b c d e = push_bit 8 (push_bit 8 (push_bit 8 (push_bit 8 (ucast a) OR ucast b) OR ucast c) OR ucast d) OR ucast e"

definition chunk40 :: "u8 list \<Rightarrow> u64" where
  "chunk40 dat = w40 (byte_at dat 0) (byte_at dat 1) (byte_at dat 2) (byte_at dat 3) (byte_at dat 4)"

definition pads32 :: "u8 list \<Rightarrow> nat" where
  "pads32 dat = pad_count_of (min 5 (length dat))"

fun enc32 :: "u8 list \<Rightarrow> u8 list" where
  "enc32 dat = (if dat = [] then []
     else take (8 - pads32 dat) (digits32 (chunk40 dat)) @ replicate (pads32 dat) pad @ enc32 (drop 5 dat))"

declare enc32.simps [simp del]

lemma length_digits32 [simp]: "length (digits32 b) = 8"
  by (simp add: digits32_def)

lemma pad_count_le: "pad_count_of n \<le> 6"
  by (simp add: pad_count_of_def)

lemma block40_chunk: "block40 dat i (if length dat - i > 5 then 5 else length dat - i) = chunk40 (drop i dat)"
proof -
  have u: "[0..<5] = [0, 1, 2, 3, 4 :: nat]" by (simp add: upt_rec)
  have b: "(if k < (if length dat - i > 5 then 5 else length dat - i) then ucast (dat ! (i + k)) else 0) =
      (ucast (byte_at (drop i dat) k) :: u64)" if "k < 5" for k
    using that by (auto simp: byte_at_def)
  show ?thesis
    unfolding block40_def chunk40_def w40_def u foldl.simps using b [of 0] b [of 1] b [of 2] b [of 3] b [of 4]
    by (simp only: zero_less_numeral one_less_numeral_iff numeral_less_iff semiring_norm push_bit_of_0 or.left_neutral simp_thms)
qed

lemma overlay_end:
  "length xs = n \<Longrightarrow> p \<le> n \<Longrightarrow> j + n \<le> length out \<Longrightarrow> length ys = p \<Longrightarrow>
   overlay (overlay out j xs) (j + n - p) ys = overlay out j (take (n - p) xs @ ys)"
  by (rule nth_equalityI) (auto simp: nth_overlay nth_append)

lemma encode32_loop_text:
  "o' + length (enc32 (drop i dat)) \<le> length out \<Longrightarrow>
   encode32_loop dat i out o' = Some (overlay out o' (enc32 (drop i dat)), o' + length (enc32 (drop i dat)))"
proof (induction "length dat - i" arbitrary: i out o' rule: less_induct)
  case less
  show ?case
  proof (cases "i < length dat")
    case True
    let ?c = "if length dat - i > 5 then 5 else length dat - i"
    let ?p = "pads32 (drop i dat)" and ?d = "digits32 (chunk40 (drop i dat))"
    define g where "g = take (8 - ?p) ?d @ replicate ?p pad"
    have p: "pad_count_of ?c = ?p" by (simp add: pads32_def min_def)
    have p8: "?p \<le> 8" using pad_count_le [of "min 5 (length (drop i dat))"] by (simp add: pads32_def)
    have e: "enc32 (drop i dat) = g @ enc32 (drop (i + 5) dat)"
      using True by (subst enc32.simps) (simp add: g_def ac_simps)
    have g: "length g = 8" using p8 by (simp add: g_def)
    have o8: "o' + 8 + length (enc32 (drop (i + 5) dat)) \<le> length out" using less(2) e g by simp
    have w: "overlay (overlay out o' ?d) (o' + 8 - ?p) (replicate ?p pad) = overlay out o' g"
      unfolding g_def by (rule overlay_end) (use p8 o8 in simp_all)
    have "encode32_loop dat (i + 5) (overlay out o' g) (o' + 8)
        = Some (overlay (overlay out o' g) (o' + 8) (enc32 (drop (i + 5) dat)), o' + 8 + length (enc32 (drop (i + 5) dat)))"
      using True o8 g by (intro less(1)) simp_all
    also have "overlay (overlay out o' g) (o' + 8) (enc32 (drop (i + 5) dat)) = overlay out o' (enc32 (drop i dat))"
      unfolding e using overlay_overlay [of o' g out "enc32 (drop (i + 5) dat)"] g o8 by simp
    finally show ?thesis
      using True o8 p8 w e g unfolding encode32_loop.simps [of dat i] block40_chunk p Let_def
      by (simp add: wr_seq_overlay del: wr_seq.simps)
  next
    case False
    then have "enc32 (drop i dat) = []" by (subst enc32.simps) simp
    then show ?thesis using False less(2) by (subst encode32_loop.simps) simp
  qed
qed

lemma length_enc32: "length (enc32 dat) = (length dat + 4) div 5 * 8"
proof (induction dat rule: enc32.induct)
  case (1 dat)
  show ?case
  proof (cases "dat = []")
    case False
    have "pads32 dat \<le> 8" using pad_count_le [of "min 5 (length dat)"] by (simp add: pads32_def)
    moreover have "(length dat + 4) div 5 = Suc ((length dat - 5 + 4) div 5)"
    proof -
      have "(n + 4) div 5 = Suc ((n - 5 + 4) div 5)" if "n > 0" for n :: nat
      proof (cases "n \<le> 5")
        case True
        then have "n \<in> {1, 2, 3, 4, 5}" using that by auto
        then show ?thesis by auto
      next
        case False
        then show ?thesis using div_add_self2 [of 5 "n - 5 + 4"] by simp
      qed
      then show ?thesis using False by simp
    qed
    ultimately show ?thesis using 1 False by (subst enc32.simps) simp
  qed (subst enc32.simps, simp)
qed

lemma base32_encode_text:
  assumes "malloc_ok alloc"
  shows "base32_encode alloc dat = Some (Ptr (enc32 dat @ [0]), length (enc32 dat))"
proof -
  obtain out where out: "alloc (length (enc32 dat) + 1) = Ptr out" "length out = length (enc32 dat) + 1"
    by (rule malloc_okD [OF assms])
  obtain x where "overlay out 0 (enc32 dat) = enc32 dat @ [x]" using overlay_all [OF out(2)] by blast
  then show ?thesis
    using encode32_loop_text [of 0 0 dat out] out length_enc32 [of dat, symmetric]
    by (simp add: base32_encode_def Let_def)
qed

section \<open>Base32 is invertible\<close>

definition val32 :: "u8 \<Rightarrow> int" where
  "val32 c = (if c = pad then 0 else d32 ! unat c)"

lemma b32_table_eq: "b32_table =
    [65, 66, 67, 68, 69, 70, 71, 72, 73, 74, 75, 76, 77, 78, 79, 80, 81, 82, 83, 84, 85, 86,
     87, 88, 89, 90, 50, 51, 52, 53, 54, 55]"
  by (simp add: b32_table_def ascii_def of_char_def)

lemma b32_table_inverse:
  assumes "n < 32"
  shows "val32 (b32_table ! n) = int n" "b32_table ! n \<notin> {0, pad, 13, 10, 32}"
proof -
  have l: "length b32_table = 32" and d: "distinct (map tolower b32_table)"
    and z: "list_all (\<lambda>c. c \<notin> {0, pad, 13, 10, 32}) b32_table"
    unfolding b32_table_eq pad_def by (simp_all add: tolower_def)
  show c: "b32_table ! n \<notin> {0, pad, 13, 10, 32}" using z l assms by (simp add: list_all_length)
  let ?ps = "concat (map (\<lambda>i. [(unat (b32_table ! i), int i), (unat (tolower (b32_table ! i)), int i)]) [0..<32])"
  have t: "d32 = fold (\<lambda>(i, v) t. t[i := v]) ?ps (replicate 256 (- 1))"
    unfolding d32_def fold_steps [symmetric] by (simp add: comp_def)
  have lower: "tolower (tolower c) = tolower c" for c
    by (auto simp: tolower_def word_le_nat_alt unat_word_ariths)
  have inj: "i = n" if "tolower (b32_table ! i) = tolower (b32_table ! n)" "i < 32" for i
    using nth_eq_iff_index_eq [OF d, of i n] that l assms by simp
  have "d32 ! unat (b32_table ! n) = int n"
    unfolding t
  proof (rule fold_updates)
    have "i = n" if "unat (b32_table ! i) = unat (b32_table ! n) \<or> unat (tolower (b32_table ! i)) = unat (b32_table ! n)"
      "i < 32" for i
    proof (rule inj)
      have "b32_table ! i = b32_table ! n \<or> tolower (b32_table ! i) = b32_table ! n"
        using that(1) unsigned_word_eqI by blast
      then show "tolower (b32_table ! i) = tolower (b32_table ! n)" using lower by metis
    qed (rule that(2))
    then show "\<forall>p \<in> set ?ps. fst p = unat (b32_table ! n) \<longrightarrow> snd p = int n" by auto
  qed (use assms unsigned_less [of "b32_table ! n"] in auto)
  then show "val32 (b32_table ! n) = int n" using c by (simp add: val32_def)
qed

lemma val32_pad [simp]: "val32 pad = 0"
  by (simp add: val32_def)

lemma and_31: "unat (ucast (x AND 0x1F :: u64) :: u8) < 32" "word_of_int (int (unat (ucast (x AND 0x1F :: u64) :: u8))) = x AND 0x1F"
proof -
  have m: "x AND 0x1F = take_bit 5 x" by (simp add: take_bit_eq_mask mask_eq_exp_minus_1)
  have u: "ucast (take_bit 5 x) = (take_bit 5 (ucast x) :: u8)" by (rule bit_word_eqI) (auto simp: bit_simps)
  show "unat (ucast (x AND 0x1F) :: u8) < 32" unfolding m u using take_bit_nat_less_exp [of 5] by (simp add: unsigned_take_bit_eq)
  have "word_of_int (int (unat (ucast (x AND 0x1F) :: u8))) = (ucast (ucast (x AND 0x1F) :: u8) :: u64)" by simp
  also have "\<dots> = x AND 0x1F" unfolding m by (rule bit_word_eqI) (auto simp: bit_simps)
  finally show "word_of_int (int (unat (ucast (x AND 0x1F) :: u8))) = x AND 0x1F" .
qed

lemma digit_step: "push_bit 5 (drop_bit (5 * Suc k) x) OR (drop_bit (k * 5) x AND 0x1F) = drop_bit (5 * k) (x :: u64)"
proof -
  have m: "(0x1F :: int) = mask 5" by (simp add: mask_eq_exp_minus_1)
  have b: "bit (0x1F :: int) n \<longleftrightarrow> n < 5" for n unfolding m bit_mask_iff by auto
  show ?thesis
    by (rule bit_word_eqI, rename_tac n, case_tac "n < 5") (auto simp: bit_simps b ac_simps)
qed

text \<open>Eight characters are read back as the number their values spell.\<close>

lemma block32_digits:
  "i + n \<le> length txt \<Longrightarrow> \<forall>k < n. val32 (txt ! (i + (n - 1 - k))) = int (unat (ucast (drop_bit (k * 5) x AND 0x1F) :: u8)) \<Longrightarrow>
   block32 txt i n (drop_bit (5 * n) x) = Some (Ptr x)"
proof (induction n arbitrary: i)
  case (Suc n)
  have v: "val32 (txt ! i) = int (unat (ucast (drop_bit (n * 5) x AND 0x1F) :: u8))" using Suc.prems(2) by auto
  have "block32 txt (i + 1) n (drop_bit (5 * n) x) = Some (Ptr x)"
  proof (rule Suc.IH)
    show "\<forall>k < n. val32 (txt ! (i + 1 + (n - 1 - k))) = int (unat (ucast (drop_bit (k * 5) x AND 0x1F) :: u8))"
    proof (intro allI impI)
      fix k assume "k < n"
      then have "i + 1 + (n - 1 - k) = i + (Suc n - 1 - k)" by simp
      then show "val32 (txt ! (i + 1 + (n - 1 - k))) = int (unat (ucast (drop_bit (k * 5) x AND 0x1F) :: u8))"
        using Suc.prems(2) \<open>k < n\<close> by (metis less_SucI)
    qed
  qed (use Suc.prems(1) in simp)
  then show ?case
    using Suc.prems(1) v and_31(2) [of "drop_bit (n * 5) x"] digit_step [of n x]
    by (simp add: val32_def [symmetric] del: mult_Suc_right of_int_of_nat_eq)
qed simp

lemma w40_bits:
  "bit (w40 a b c d e) n \<longleftrightarrow>
     (if n < 8 then bit e n else if n < 16 then bit d (n - 8) else if n < 24 then bit c (n - 16)
      else if n < 32 then bit b (n - 24) else bit a (n - 32))"
  unfolding w40_def by (auto simp: bit_simps dest: bit_imp_le_length)

lemma w40_top: "drop_bit 40 (w40 a b c d e) = 0"
  by (rule bit_word_eqI) (auto simp: bit_drop_bit_eq w40_bits dest: bit_imp_le_length)

lemma w40_bytes:
  "map (\<lambda>k. ucast (drop_bit (k * 8) (w40 a b c d e) AND 0xFF) :: u8) [4, 3, 2, 1, 0] = [a, b, c, d, e]"
proof -
  have m: "(0xFF :: u64) = mask 8" by (simp add: mask_eq_exp_minus_1)
  show ?thesis
    unfolding m list.map list.inject
    by (intro conjI refl) (rule bit_word_eqI, simp add: bit_unsigned_iff bit_and_iff bit_mask_iff bit_drop_bit_eq w40_bits)+
qed

lemma w40_low:
  assumes "\<forall>n < 5 * p. \<not> bit x n" "k < p"
  shows "drop_bit (k * 5) x AND 0x1F = (0 :: u64)"
proof -
  have m: "(0x1F :: u64) = mask 5" by (simp add: mask_eq_exp_minus_1)
  have "\<not> bit x (k * 5 + n)" if "n < 5" for n using assms that by (intro assms(1) [rule_format]) linarith
  then show ?thesis unfolding m by (intro bit_word_eqI) (auto simp: bit_and_iff bit_mask_iff bit_drop_bit_eq)
qed

lemma chunk40_low: "dat \<noteq> [] \<Longrightarrow> n < 5 * pads32 dat \<Longrightarrow> \<not> bit (chunk40 dat) n"
  unfolding chunk40_def w40_bits pads32_def pad_count_of_def
  by (cases dat; cases "tl dat"; cases "tl (tl dat)"; cases "tl (tl (tl dat))"; cases "tl (tl (tl (tl dat)))") (auto simp: byte_at_def split: if_splits)

text \<open>The characters of a chunk have the values of its digits, padding included.\<close>

lemma chunk_values:
  assumes "dat \<noteq> []" "k < 8"
  shows "val32 ((take (8 - pads32 dat) (digits32 (chunk40 dat)) @ replicate (pads32 dat) pad) ! (7 - k))
    = int (unat (ucast (drop_bit (k * 5) (chunk40 dat) AND 0x1F) :: u8))"
proof (cases "k < pads32 dat")
  case True
  have "drop_bit (k * 5) (chunk40 dat) AND 0x1F = 0"
    using chunk40_low [OF assms(1)] True by (intro w40_low [of "pads32 dat"]) auto
  moreover have "pads32 dat \<le> 6" unfolding pads32_def by (rule pad_count_le)
  moreover have "\<not> 7 - k < 8 - pads32 dat" using True calculation(2) by linarith
  ultimately show ?thesis using True assms(2) by (simp add: nth_append)
next
  case False
  have "digits32 x ! (7 - k) = b32_table ! unat (ucast (drop_bit (k * 5) x AND 0x1F) :: u8)" for x
  proof -
    have "k \<in> {0, 1, 2, 3, 4, 5, 6, 7}" using assms(2) by auto
    then show ?thesis unfolding digits32_def by auto
  qed
  then show ?thesis using False assms(2) b32_table_inverse(1) [OF and_31(1)] by (simp add: nth_append)
qed

text \<open>The bytes of the chunks, the last one filled up with zeros.\<close>

fun filled5 :: "u8 list \<Rightarrow> u8 list" where
  "filled5 dat = (if dat = [] then [] else map (byte_at dat) [0, 1, 2, 3, 4] @ filled5 (drop 5 dat))"

declare filled5.simps [simp del]

lemma take_filled5: "take (length dat) (filled5 dat) = dat"
proof (induction dat rule: filled5.induct)
  case (1 dat)
  show ?case
  proof (cases "dat = []")
    case False
    define v where "v = map (byte_at dat) [0..<5]"
    have u: "map (byte_at dat) [0, 1, 2, 3, 4] = v" unfolding v_def by (simp add: upt_rec eval_nat_numeral)
    have b: "take (length dat) v = take 5 dat" unfolding v_def
      by (rule nth_equalityI) (simp_all add: byte_at_def del: upt_rec_numeral)
    have l: "length v = 5" by (simp add: v_def)
    have "take (length dat) (filled5 dat) = take 5 dat @ take (length dat - 5) (filled5 (drop 5 dat))"
      unfolding filled5.simps [of dat] u using False b l by simp
    also have "take (length dat - 5) (filled5 (drop 5 dat)) = drop 5 dat" using 1 [OF False] by simp
    finally show ?thesis by simp
  qed (simp add: filled5.simps)
qed

lemma decode32_loop_text:
  "\<lbrakk>drop i txt = enc32 dat @ ws; len = i + length (enc32 dat); i \<le> length txt; o' \<le> n; n \<le> length out\<rbrakk> \<Longrightarrow>
   decode32_loop txt len n i out o' = Some (Ptr (overlay out o' (take (n - o') (filled5 dat))))"
proof (induction dat arbitrary: i out o' rule: enc32.induct)
  case (1 dat)
  show ?case
  proof (cases "dat = []")
    case True
    then have "enc32 dat = []" "filled5 dat = []" by (simp_all add: enc32.simps filled5.simps)
    then show ?thesis using 1 by (subst decode32_loop.simps) simp
  next
    case False
    define g where "g = take (8 - pads32 dat) (digits32 (chunk40 dat)) @ replicate (pads32 dat) pad"
    have "pads32 dat \<le> 6" unfolding pads32_def by (rule pad_count_le)
    then have g: "length g = 8" by (simp add: g_def)
    have e: "enc32 dat = g @ enc32 (drop 5 dat)" using False by (subst enc32.simps) (simp add: g_def)
    have tx: "drop i txt = g @ enc32 (drop 5 dat) @ ws" using 1(2) e by simp
    have "length (drop i txt) = length (g @ enc32 (drop 5 dat) @ ws)" by (simp only: tx)
    then have l8: "i + 8 \<le> length txt" using g 1(4) unfolding length_drop length_append by linarith
    have gi: "txt ! (i + j) = g ! j" if "j < 8" for j
      using arg_cong [OF tx, of "\<lambda>l. l ! j"] that g 1(4) by (simp add: nth_append)
    have "val32 (txt ! (i + (8 - 1 - k))) = int (unat (ucast (drop_bit (k * 5) (chunk40 dat) AND 0x1F) :: u8))" if "k < 8" for k
    proof -
      have "txt ! (i + (8 - 1 - k)) = g ! (7 - k)" using gi [of "7 - k"] by simp
      then show ?thesis using chunk_values [OF False that] by (simp only: g_def)
    qed
    then have "block32 txt i 8 (drop_bit (5 * 8) (chunk40 dat)) = Some (Ptr (chunk40 dat))"
      by (intro block32_digits allI impI l8)
    then have b: "block32 txt i 8 0 = Some (Ptr (chunk40 dat))" using w40_top by (simp add: chunk40_def)
    define v where "v = map (byte_at dat) [0, 1, 2, 3, 4]"
    have f: "filled5 dat = v @ filled5 (drop 5 dat)" using False by (subst filled5.simps) (simp add: v_def)
    have w: "map (\<lambda>k. ucast (drop_bit (k * 8) (chunk40 dat) AND 0xFF)) [4, 3, 2, 1, 0] = v"
      unfolding chunk40_def w40_bytes by (simp add: v_def)
    let ?m = "min (n - o') (length v)" and ?o = "overlay out o' (take (n - o') v)"
    have lo: "length ?o = length out" using 1(5,6) by (intro length_overlay) simp
    have d8: "drop (i + 8) txt = enc32 (drop 5 dat) @ ws" using arg_cong [OF tx, of "drop 8"] g by (simp add: add.commute)
    have "decode32_loop txt len n (i + 8) ?o (o' + ?m)
        = Some (Ptr (overlay ?o (o' + ?m) (take (n - (o' + ?m)) (filled5 (drop 5 dat)))))"
      using 1(3,5,6) e g l8 lo by (intro 1(1) [OF False d8]) simp_all
    also have "overlay ?o (o' + ?m) (take (n - (o' + ?m)) (filled5 (drop 5 dat))) = overlay out o' (take (n - o') (filled5 dat))"
      using overlay_overlay [of o' "take (n - o') v" out "take (n - (o' + ?m)) (filled5 (drop 5 dat))"] 1(5,6) False
      unfolding f by (simp add: min.commute) (simp add: min_def)
    finally show ?thesis
      using 1(3) e g put_below_overlay [OF 1(5,6), of v] b
      unfolding decode32_loop.simps [of "txt" len n i] b option.case cptr.case w by simp
  qed
qed

text \<open>How an encoding ends: the last character that is not padding, and the padding.\<close>

definition last_pads :: "u8 list \<Rightarrow> nat" where
  "last_pads dat = pad_count_of ((length dat - 1) mod 5 + 1)"

lemma enc32_end:
  "dat \<noteq> [] \<Longrightarrow> \<exists>u. enc32 dat = u @ replicate (last_pads dat) pad \<and> 2 \<le> length u \<and> last u \<notin> {0, pad, 13, 10, 32}"
proof (induction dat rule: enc32.induct)
  case (1 dat)
  define g where "g = take (8 - pads32 dat) (digits32 (chunk40 dat))"
  have p: "pads32 dat \<le> 6" unfolding pads32_def by (rule pad_count_le)
  have e: "enc32 dat = g @ replicate (pads32 dat) pad @ enc32 (drop 5 dat)"
    using 1(2) by (subst enc32.simps) (simp add: g_def)
  show ?case
  proof (cases "drop 5 dat = []")
    case True
    then have l: "length dat \<le> 5" by simp
    have "(length dat - 1) mod 5 + 1 = min 5 (length dat)" using l 1(2) by (cases dat) (auto simp: min_def)
    then have "last_pads dat = pads32 dat" by (simp add: last_pads_def pads32_def)
    moreover have "enc32 (drop 5 dat) = []" using True by (simp add: enc32.simps)
    moreover have g2: "2 \<le> length g" using p by (simp add: g_def)
    moreover have "last g \<notin> {0, pad, 13, 10, 32}"
    proof -
      have "last g \<in> set g" using g2 by (intro last_in_set) auto
      then have "last g \<in> set (digits32 (chunk40 dat))" unfolding g_def by (rule in_set_takeD)
      then obtain k where "last g = b32_table ! unat (ucast (drop_bit (k * 5) (chunk40 dat) AND 0x1F) :: u8)"
        unfolding digits32_def set_map by blast
      then show ?thesis using b32_table_inverse(2) [OF and_31(1), of "drop_bit (k * 5) (chunk40 dat)"]
        by (simp only: not_False_eq_True)
    qed
    ultimately show ?thesis using e by (intro exI [of _ g]) simp
  next
    case False
    from 1(1) [OF 1(2) False] obtain u where
      u: "enc32 (drop 5 dat) = u @ replicate (last_pads (drop 5 dat)) pad" "2 \<le> length u" "last u \<notin> {0, pad, 13, 10, 32}"
      by blast
    have "(length dat - 5 - 1) mod 5 = (length dat - 1) mod 5"
      using False le_mod_geq [of 5 "length dat - 1"] by simp
    then have "last_pads (drop 5 dat) = last_pads dat" by (simp add: last_pads_def)
    then show ?thesis using e u
      by (intro exI [of _ "g @ replicate (pads32 dat) pad @ u"]) (auto simp: last_append)
  qed
qed

lemma takeWhile_run:
  "\<forall>k. 1 \<le> k \<and> k \<le> p \<longrightarrow> Q k \<Longrightarrow> \<not> Q (p + 1) \<Longrightarrow> p \<in> {0, 1, 3, 4, 6} \<Longrightarrow>
   length (takeWhile Q [1, 2, 3, 4, 5, 6 :: nat]) = p"
  by (elim insertE emptyE) (simp_all add: numeral_2_eq_2)

lemma pad_run_text:
  assumes "2 \<le> length u" "last u \<noteq> pad" "p \<in> {0, 1, 3, 4, 6}"
  shows "pad_run (u @ replicate p pad @ ws) (length u + p) = p"
proof -
  have r: "(u @ replicate p pad @ ws) ! (length u + p - k) = pad" if "1 \<le> k" "k \<le> p" for k
    using that by (auto simp: nth_append)
  have l: "(u @ replicate p pad @ ws) ! (length u + p - (p + 1)) \<noteq> pad"
  proof -
    have "u \<noteq> []" "length u + p - (p + 1) = length u - 1" "length u - 1 < length u" using assms(1) by auto
    then show ?thesis using assms(2) unfolding nth_append by (simp only: if_True) (metis last_conv_nth)
  qed
  show ?thesis
    unfolding pad_run_def
  proof (rule takeWhile_run)
    show "\<forall>k. 1 \<le> k \<and> k \<le> p \<longrightarrow> k \<le> length u + p \<and> (u @ replicate p pad @ ws) ! (length u + p - k) = pad"
      using r by simp
  qed (use l assms(3) in simp_all)
qed

lemma base32_decode_enc:
  assumes "malloc_ok alloc" and ws: "set ws \<subseteq> {13, 10, 32}"
  shows "base32_decode alloc (enc32 dat @ ws) = Some (Ptr (dat @ [0]), length dat)"
proof -
  obtain out where out: "alloc (length dat + 1) = Ptr out" "length out = length dat + 1" by (rule malloc_okD [OF assms(1)])
  have d: "decode32_loop (enc32 dat @ ws) (length (enc32 dat)) (length dat) 0 out 0 = Some (Ptr (overlay out 0 dat))"
    using decode32_loop_text [of 0 "enc32 dat @ ws" dat ws "length (enc32 dat)" 0 "length dat" out] out(2)
    by (simp add: take_filled5)
  obtain x where x: "overlay out 0 dat = dat @ [x]" using overlay_all [OF out(2)] by blast
  have m8: "length (enc32 dat) mod 8 = 0" unfolding length_enc32 by simp
  show ?thesis
  proof (cases "dat = []")
    case True
    then have e: "enc32 dat = []" by (simp add: enc32.simps)
    have "trimmed ws (length ws) = 0" using trimmed_text [OF ws, of "[]" "[]"] by simp
    moreover have "pad_run ws 0 = 0" by (simp add: pad_run_def)
    ultimately show ?thesis using True e d x out by (simp add: base32_decode_def Let_def)
  next
    case False
    from enc32_end [OF this] obtain u where u: "enc32 dat = u @ replicate (last_pads dat) pad" "2 \<le> length u"
      "last u \<notin> {0, pad, 13, 10, 32}" by blast
    have p: "last_pads dat \<in> {0, 1, 3, 4, 6}" unfolding last_pads_def pad_count_of_def by simp
    have "last (enc32 dat) \<notin> {13, 10, 32}"
      using u by (cases "last_pads dat = 0") (auto simp: pad_def last_append)
    then have t: "trimmed (enc32 dat @ ws) (length (enc32 dat @ ws)) = length (enc32 dat)"
      using trimmed_text [OF ws, of "enc32 dat" "[]"] by simp
    have r: "pad_run (enc32 dat @ ws) (length (enc32 dat)) = last_pads dat"
      using pad_run_text [OF u(2) _ p, of ws] u(1,3) by simp
    obtain n where n: "length dat = Suc n" using False by (cases dat) auto
    have q: "length (enc32 dat) div 8 * 5 = length dat + (4 - n mod 5)"
      unfolding length_enc32 n by simp presburger
    have m: "n mod 5 \<in> {0, 1, 2, 3, 4}" using mod_less_divisor [of 5 n] by (simp only: insert_iff empty_iff) linarith
    show ?thesis
      using d x out m n unfolding base32_decode_def Let_def t r q last_pads_def n
      by (auto simp: pad_count_of_def m8 n list_update_append)
  qed
qed

section \<open>The contract of a codec\<close>

text \<open>
  Encoding yields a C string, and decoding it, with any white space behind it, the bytes.  What the
  program relies on: an encoding can be printed with \<open>%s\<close>, and distinct inputs have distinct texts.
\<close>

locale text_codec =
  fixes encode decode :: "(nat \<Rightarrow> u8 list cptr) \<Rightarrow> u8 list \<Rightarrow> (u8 list cptr \<times> nat) option"
    and text_of :: "u8 list \<Rightarrow> u8 list"
  assumes encode_text: "malloc_ok alloc \<Longrightarrow> encode alloc dat = Some (Ptr (text_of dat @ [0]), length (text_of dat))"
    and text_no_nul: "0 \<notin> set (text_of dat)"
    and decode_text: "malloc_ok alloc \<Longrightarrow> set ws \<subseteq> {13, 10, 32} \<Longrightarrow>
      decode alloc (text_of dat @ ws) = Some (Ptr (dat @ [0]), length dat)"
begin

lemma printed: "malloc_ok alloc \<Longrightarrow> \<exists>t n. encode alloc dat = Some (Ptr t, n) \<and> cstr t = text_of dat \<and> n = length (cstr t)"
  using text_no_nul by (auto simp: encode_text cstr_no_nul)

lemma text_inj: "text_of dat = text_of dat' \<longleftrightarrow> dat = dat'"
proof
  assume e: "text_of dat = text_of dat'"
  have m: "malloc_ok (\<lambda>n. Ptr (replicate n 0))" by (simp add: malloc_ok_def)
  have "decode (\<lambda>n. Ptr (replicate n 0)) (text_of dat @ []) = Some (Ptr (dat @ [0]), length dat)"
    by (rule decode_text [OF m]) simp
  moreover have "decode (\<lambda>n. Ptr (replicate n 0)) (text_of dat' @ []) = Some (Ptr (dat' @ [0]), length dat')"
    by (rule decode_text [OF m]) simp
  ultimately show "dat = dat'" using e by simp
qed simp

lemma round_trip:
  assumes "malloc_ok alloc" "set ws \<subseteq> {13, 10, 32}"
  shows "\<exists>t n. encode alloc dat = Some (Ptr t, n) \<and> length (cstr t) = n
    \<and> decode alloc (cstr t @ ws) = Some (Ptr (dat @ [0]), length dat)"
  using printed [OF assms(1), of dat] decode_text [OF assms] by metis

end

lemma enc64_no_nul: "0 \<notin> set (enc64 dat)"
  using raw64_not_special by (auto simp: enc64_def pad_def dest!: in_set_takeD split: if_splits)

lemma enc32_no_nul: "0 \<notin> set (enc32 dat)"
proof (induction dat rule: enc32.induct)
  case (1 dat)
  have "b32_table ! unat (ucast (x AND 0x1F :: u64) :: u8) \<noteq> 0" for x
    using b32_table_inverse(2) [OF and_31(1), of x] by (simp only: insert_iff de_Morgan_disj not_False_eq_True)
  then have "0 \<notin> set (digits32 b)" for b unfolding digits32_def set_map
    by (auto simp only: image_iff) (metis (no_types))
  then show ?case using 1 by (subst enc32.simps) (auto simp: pad_def dest: in_set_takeD)
qed

interpretation b64: text_codec base64_encode base64_decode enc64
  by unfold_locales (rule base64_encode_text enc64_no_nul base64_decode_enc; assumption)+

interpretation b32: text_codec base32_encode base32_decode enc32
  by unfold_locales (rule base32_encode_text enc32_no_nul base32_decode_enc; assumption)+

lemma codec_round_trip:
  "malloc_ok alloc \<Longrightarrow> set ws \<subseteq> {13, 10, 32} \<Longrightarrow>
   \<exists>t n. codec_encode use32 alloc dat = Some (Ptr t, n) \<and> length (cstr t) = n
    \<and> codec_decode use32 alloc (cstr t @ ws) = Some (Ptr (dat @ [0]), length dat)"
  unfolding codec_encode_def codec_decode_def using b64.round_trip b32.round_trip by simp

text \<open>Reading standard input never leaves the block, however long the input.\<close>

lemma read_stdin_ok:
  assumes "\<forall>n b. \<exists>b'. regrow n b = Ptr b' \<and> length b' = n \<and> take (length b) b' = take n b"
  shows "\<lbrakk>take n b = seen; length b = cap; n + 1 < cap\<rbrakk> \<Longrightarrow>
    \<exists>b'. read_stdin regrow input b n cap = Some (b', n + length input) \<and> take (n + length input) b' = seen @ input"
proof (induction input arbitrary: b n cap seen)
  case Nil
  then show ?case by simp
next
  case (Cons ch input)
  let ?cap = "if n + 2 \<ge> cap then cap * 2 else cap"
  obtain b1 where b1: "(if n + 2 \<ge> cap then regrow (cap * 2) b else Ptr b) = Ptr b1" "length b1 = ?cap" "take cap b1 = b"
  proof (cases "n + 2 \<ge> cap")
    case True
    obtain b' where "regrow (cap * 2) b = Ptr b'" "length b' = cap * 2" "take (length b) b' = take (cap * 2) b"
      using assms by blast
    then show ?thesis using that [of b'] Cons.prems(2) True by simp
  next
    case False
    then show ?thesis using that [of b] Cons.prems(2) by simp
  qed
  have "take n b1 = take n (take cap b1)" using Cons.prems(3) by (simp add: min_def)
  then have t: "take n b1 = seen" using Cons.prems(1) b1(3) by simp
  have "take (n + 1) (b1[n := ch]) = seen @ [ch]"
    using t b1(2) Cons.prems(3) by (simp add: take_Suc_conv_app_nth)
  moreover have "n + 1 + 1 < ?cap" using Cons.prems(3) by simp
  ultimately have "\<exists>b'. read_stdin regrow input (b1[n := ch]) (n + 1) ?cap = Some (b', n + 1 + length input)
      \<and> take (n + 1 + length input) b' = (seen @ [ch]) @ input"
    using b1(2) by (intro Cons.IH) simp_all
  moreover have "wr b1 n ch = Some (b1[n := ch])" using b1(2) Cons.prems(3) by simp
  ultimately show ?case unfolding read_stdin.simps b1(1) cptr.case by simp
qed

section \<open>Properties\<close>

text \<open>
  C27: Whatever the bytes and whichever of the two codecs the options choose, encoding yields a C string
  of the announced length, and decoding that string, also with white space after it, yields the bytes
  and their number.
\<close>

theorem b64_codecs_roundtrip:
  assumes "malloc_ok alloc" "set ws \<subseteq> {13, 10, 32}"
  shows "\<exists>t n. codec_encode use32 alloc dat = Some (Ptr t, n) \<and> length (cstr t) = n
    \<and> codec_decode use32 alloc (cstr t @ ws) = Some (Ptr (dat @ [0]), length dat)"
  by (rule codec_round_trip [OF assms])

theorem b64_codecs_roundtrip_witness:
  "\<exists>t n. codec_encode True (\<lambda>n. Ptr (replicate n 0)) [1, 0, 255, 7] = Some (Ptr t, n) \<and> length (cstr t) = n
    \<and> codec_decode True (\<lambda>n. Ptr (replicate n 0)) (cstr t @ [10]) = Some (Ptr ([1, 0, 255, 7] @ [0]), length [1, 0, 255, 7 :: u8])"
  by (rule b64_codecs_roundtrip) (simp_all add: malloc_ok_def)

end
