(* ===== verification/Hashcalc.thy ===== *)
theory Hashcalc imports Kstring Zpack begin

text \<open>
  The checksums of \<open>src/hashcalc/hashcalc.c\<close>: CRC-32, FNV-1a and SHA-256, over a string or over the
  chunks in which a file is read.  The contract of a checksum that is computed chunk by chunk is the
  locale \<open>stream_hash\<close>; SHA-256 is related to the padded message cut into blocks.
  The CRC is the same code as in the archiver, \<^const>\<open>calc_crc32\<close>.
\<close>

section \<open>CRC-32 and FNV-1a\<close>

definition crc32 :: "u8 list \<Rightarrow> u32 \<Rightarrow> u32" where
  "crc32 dat current_crc =
     NOT (foldl (\<lambda>crc b. ((\<lambda>crc. drop_bit 1 crc XOR (0xEDB88320 AND (- (crc AND 1)))) ^^ 8) (crc XOR ucast b))
       (NOT current_crc) dat)"

definition fnv1a_32 :: "u8 list \<Rightarrow> u32 \<Rightarrow> u32" where
  "fnv1a_32 dat current_hash = foldl (\<lambda>h b. (h XOR ucast b) * 16777619) current_hash dat"

section \<open>SHA-256\<close>

record sha256_ctx =
  ctx_data :: "u8 list"
  datalen :: nat
  bitlen :: u64
  ctx_state :: "u32 list"

text \<open>The constants of the source, in decimal.\<close>

definition K :: "u32 list" where
  "K = [
    1116352408, 1899447441, 3049323471, 3921009573, 961987163, 1508970993, 2453635748, 2870763221,
    3624381080, 310598401, 607225278, 1426881987, 1925078388, 2162078206, 2614888103,
    3248222580, 3835390401, 4022224774, 264347078, 604807628, 770255983, 1249150122, 1555081692,
    1996064986, 2554220882, 2821834349, 2952996808, 3210313671, 3336571891, 3584528711,
    113926993, 338241895, 666307205, 773529912, 1294757372, 1396182291, 1695183700, 1986661051,
    2177026350, 2456956037, 2730485921, 2820302411, 3259730800, 3345764771, 3516065817,
    3600352804, 4094571909, 275423344, 430227734, 506948616, 659060556, 883997877, 958139571,
    1322822218, 1537002063, 1747873779, 1955562222, 2024104815, 2227730452, 2361852424,
    2428436474, 2756734187, 3203703799, 3329325298]"

definition ROTRIGHT :: "u32 \<Rightarrow> nat \<Rightarrow> u32" where
  "ROTRIGHT a b = drop_bit b a OR push_bit (32 - b) a"

definition CH :: "u32 \<Rightarrow> u32 \<Rightarrow> u32 \<Rightarrow> u32" where
  "CH x y z = (x AND y) XOR (NOT x AND z)"

definition MAJ :: "u32 \<Rightarrow> u32 \<Rightarrow> u32 \<Rightarrow> u32" where
  "MAJ x y z = (x AND y) XOR (x AND z) XOR (y AND z)"

definition EP0 :: "u32 \<Rightarrow> u32" where
  "EP0 x = ROTRIGHT x 2 XOR ROTRIGHT x 13 XOR ROTRIGHT x 22"

definition EP1 :: "u32 \<Rightarrow> u32" where
  "EP1 x = ROTRIGHT x 6 XOR ROTRIGHT x 11 XOR ROTRIGHT x 25"

definition SIG0 :: "u32 \<Rightarrow> u32" where
  "SIG0 x = ROTRIGHT x 7 XOR ROTRIGHT x 18 XOR drop_bit 3 x"

definition SIG1 :: "u32 \<Rightarrow> u32" where
  "SIG1 x = ROTRIGHT x 17 XOR ROTRIGHT x 19 XOR drop_bit 10 x"

text \<open>The sixteen big-endian words of a block, and the message schedule.\<close>

definition block_words :: "u8 list \<Rightarrow> u32 list" where
  "block_words dat = map (\<lambda>i. push_bit 24 (ucast (dat ! (4 * i))) OR push_bit 16 (ucast (dat ! (4 * i + 1)))
     OR push_bit 8 (ucast (dat ! (4 * i + 2))) OR ucast (dat ! (4 * i + 3))) [0..<16]"

definition schedule :: "u8 list \<Rightarrow> u32 list" where
  "schedule dat = foldl (\<lambda>m i. m @ [SIG1 (m ! (i - 2)) + m ! (i - 7) + SIG0 (m ! (i - 15)) + m ! (i - 16)])
     (block_words dat) [16..<64]"

type_synonym sha_regs = "u32 \<times> u32 \<times> u32 \<times> u32 \<times> u32 \<times> u32 \<times> u32 \<times> u32"

definition sha_round :: "u32 list \<Rightarrow> sha_regs \<Rightarrow> nat \<Rightarrow> sha_regs" where
  "sha_round m = (\<lambda>(a, b, c, d, e, f, g, h) i.
     let t1 = h + EP1 e + CH e f g + K ! i + m ! i;
         t2 = EP0 a + MAJ a b c
     in (t1 + t2, a, b, c, d + t1, e, f, g))"

definition compress_block :: "u32 list \<Rightarrow> u8 list \<Rightarrow> u32 list" where
  "compress_block s dat =
     (let m = schedule dat;
          (a, b, c, d, e, f, g, h) =
            foldl (sha_round m) (s ! 0, s ! 1, s ! 2, s ! 3, s ! 4, s ! 5, s ! 6, s ! 7) [0..<64]
      in [s ! 0 + a, s ! 1 + b, s ! 2 + c, s ! 3 + d, s ! 4 + e, s ! 5 + f, s ! 6 + g, s ! 7 + h])"

definition sha256_transform :: "sha256_ctx \<Rightarrow> u8 list \<Rightarrow> sha256_ctx" where
  "sha256_transform ctx dat = ctx \<lparr>ctx_state := compress_block (ctx_state ctx) dat\<rparr>"

definition sha256_init :: "sha256_ctx \<Rightarrow> sha256_ctx" where
  "sha256_init ctx = ctx \<lparr>datalen := 0, bitlen := 0,
     ctx_state := [0x6a09e667, 0xbb67ae85, 0x3c6ef372, 0xa54ff53a, 0x510e527f, 0x9b05688c, 0x1f83d9ab, 0x5be0cd19]\<rparr>"

definition update_byte :: "u8 \<Rightarrow> sha256_ctx \<Rightarrow> sha256_ctx option" where
  "update_byte b ctx = do {
     d \<leftarrow> wr (ctx_data ctx) (datalen ctx) b;
     let ctx = ctx \<lparr>ctx_data := d, datalen := datalen ctx + 1\<rparr>;
     if datalen ctx = 64
     then (let ctx = sha256_transform ctx (ctx_data ctx) in Some (ctx \<lparr>bitlen := bitlen ctx + 512, datalen := 0\<rparr>))
     else Some ctx}"

fun sha256_update :: "sha256_ctx \<Rightarrow> u8 list \<Rightarrow> sha256_ctx option" where
  "sha256_update ctx [] = Some ctx"
| "sha256_update ctx (b # dat) = do {ctx \<leftarrow> update_byte b ctx; sha256_update ctx dat}"

text \<open>\<open>while (i < n) ctx->data[i++] = 0x00;\<close>\<close>

definition fill_zero :: "u8 list \<Rightarrow> nat \<Rightarrow> nat \<Rightarrow> u8 list option" where
  "fill_zero d i n = wr_seq d i (replicate (n - i) 0)"

text \<open>The eight bytes of a length and the digest bytes, most significant first.\<close>

definition be64 :: "u64 \<Rightarrow> u8 list" where
  "be64 x = map (\<lambda>k. ucast (drop_bit k x AND 0xFF)) [56, 48, 40, 32, 24, 16, 8, 0]"

definition be32 :: "u32 \<Rightarrow> u8 list" where
  "be32 x = map (\<lambda>i. ucast (drop_bit (24 - i * 8) x AND 0xFF)) [0, 1, 2, 3]"

definition sha256_final :: "sha256_ctx \<Rightarrow> (sha256_ctx \<times> u8 list) option" where
  "sha256_final ctx = do {
     let i = datalen ctx;
     ctx \<leftarrow> (if datalen ctx < 56 then do {
          d \<leftarrow> wr (ctx_data ctx) i 0x80;
          d \<leftarrow> fill_zero d (i + 1) 56;
          Some (ctx \<lparr>ctx_data := d\<rparr>)}
        else do {
          d \<leftarrow> wr (ctx_data ctx) i 0x80;
          d \<leftarrow> fill_zero d (i + 1) 64;
          let ctx = sha256_transform (ctx \<lparr>ctx_data := d\<rparr>) d;
          d \<leftarrow> wr_seq (ctx_data ctx) 0 (replicate 56 0);
          Some (ctx \<lparr>ctx_data := d\<rparr>)});
     let ctx = ctx \<lparr>bitlen := bitlen ctx + of_nat (datalen ctx) * 8\<rparr>;
     d \<leftarrow> wr_seq (ctx_data ctx) 56 (be64 (bitlen ctx));
     let ctx = sha256_transform (ctx \<lparr>ctx_data := d\<rparr>) d;
     Some (ctx, concat (map be32 (ctx_state ctx)))}"

section \<open>The program\<close>

record digests =
  out_crc32 :: u32
  out_fnv1a :: u32
  out_sha256 :: "u8 list"

text \<open>
  \<open>chunks\<close> are the pieces \<open>fread\<close> delivers, \<open>junk\<close> the context before its initialisation.
\<close>

fun hash_loop :: "u8 list list \<Rightarrow> u32 \<times> u32 \<times> sha256_ctx \<Rightarrow> (u32 \<times> u32 \<times> sha256_ctx) option" where
  "hash_loop [] s = Some s"
| "hash_loop (buffer # chunks) (c32, fnv, ctx) = do {
     ctx' \<leftarrow> sha256_update ctx buffer;
     hash_loop chunks (crc32 buffer c32, fnv1a_32 buffer fnv, ctx')}"

definition hash_file_stream :: "sha256_ctx \<Rightarrow> u8 list list option \<Rightarrow> digests cptr option" where
  "hash_file_stream junk chunks =
     (case chunks of
        None \<Rightarrow> Some NULL
      | Some cs \<Rightarrow> do {
          (c32, fnv, ctx) \<leftarrow> hash_loop cs (0, 2166136261, sha256_init junk);
          (ctx, sha) \<leftarrow> sha256_final ctx;
          Some (Ptr \<lparr>out_crc32 = c32, out_fnv1a = fnv, out_sha256 = sha\<rparr>)})"

definition hash_string :: "sha256_ctx \<Rightarrow> u8 list \<Rightarrow> digests cptr option" where
  "hash_string junk dat = do {
     ctx \<leftarrow> sha256_update (sha256_init junk) dat;
     (ctx, sha) \<leftarrow> sha256_final ctx;
     Some (Ptr \<lparr>out_crc32 = crc32 dat 0, out_fnv1a = fnv1a_32 dat 2166136261, out_sha256 = sha\<rparr>)}"

text \<open>\<open>reads path\<close> are the chunks of a file that can be opened.  The exit status and the digests.\<close>

definition hashcalc_main :: "sha256_ctx \<Rightarrow> (u8 list \<Rightarrow> u8 list list option) \<Rightarrow> u8 list list \<Rightarrow> (int \<times> digests cptr) option" where
  "hashcalc_main junk reads args =
     (case args of
        [] \<Rightarrow> Some (1, NULL)
      | a # rest \<Rightarrow>
          if a = ascii ''-f'' \<and> rest \<noteq> [] then map_option (Pair 0) (hash_file_stream junk (reads (hd rest)))
          else if a = ascii ''-s'' \<and> rest \<noteq> [] then map_option (Pair 0) (hash_string junk (hd rest))
          else map_option (Pair 0) (hash_file_stream junk (reads a)))"

section \<open>Checksums computed in chunks\<close>

text \<open>Absorbing two pieces one after the other is absorbing them joined.\<close>

locale stream_hash =
  fixes absorb :: "'s \<Rightarrow> u8 list \<Rightarrow> 's option"
  assumes absorb_nil: "absorb s [] = Some s"
    and absorb_append: "absorb s (xs @ ys) = absorb s xs \<bind> (\<lambda>s. absorb s ys)"
begin

fun absorb_all :: "'s \<Rightarrow> u8 list list \<Rightarrow> 's option" where
  "absorb_all s [] = Some s"
| "absorb_all s (c # cs) = absorb s c \<bind> (\<lambda>s. absorb_all s cs)"

lemma absorb_all_concat: "absorb_all s cs = absorb s (concat cs)"
  by (induction cs arbitrary: s) (simp_all add: absorb_nil absorb_append)

end

text \<open>A checksum: the state after a message determines the value of the message.\<close>

locale checksum = stream_hash absorb for absorb :: "'s \<Rightarrow> u8 list \<Rightarrow> 's option" +
  fixes start :: 's and digest :: "'s \<Rightarrow> 'd option" and checksum_of :: "u8 list \<Rightarrow> 'd"
  assumes digest_start: "absorb start m \<bind> digest = Some (checksum_of m)"
begin

lemma digest_chunks: "absorb_all start cs \<bind> digest = Some (checksum_of (concat cs))"
  by (simp add: absorb_all_concat digest_start)

lemma absorbs: "\<exists>s. absorb start m = Some s \<and> digest s = Some (checksum_of m)"
  using digest_start [of m] by (cases "absorb start m") auto

end

section \<open>SHA-256 of a message\<close>

text \<open>The padded message: a one bit, zeros up to 56 modulo 64 bytes, the length in bits.\<close>

definition sha_pad :: "u8 list \<Rightarrow> u8 list" where
  "sha_pad m = m @ 0x80 # replicate ((119 - length m mod 64) mod 64) 0 @ be64 (of_nat (8 * length m))"

fun sha_blocks :: "u32 list \<Rightarrow> u8 list \<Rightarrow> u32 list" where
  "sha_blocks s bs = (if length bs < 64 then s else sha_blocks (compress_block s (take 64 bs)) (drop 64 bs))"

declare sha_blocks.simps [simp del]

definition sha_start :: "u32 list" where
  "sha_start = [0x6a09e667, 0xbb67ae85, 0x3c6ef372, 0xa54ff53a, 0x510e527f, 0x9b05688c, 0x1f83d9ab, 0x5be0cd19]"

definition sha256 :: "u8 list \<Rightarrow> u8 list" where
  "sha256 m = concat (map be32 (sha_blocks sha_start (sha_pad m)))"

lemma length_be64 [simp]: "length (be64 x) = 8"
  by (simp add: be64_def)

lemma sha_blocks_short: "length bs < 64 \<Longrightarrow> sha_blocks s bs = s"
  by (simp add: sha_blocks.simps)

lemma sha_blocks_append:
  "64 dvd length xs \<Longrightarrow> sha_blocks s (xs @ ys) = sha_blocks (sha_blocks s xs) ys"
proof (induction s xs rule: sha_blocks.induct)
  case (1 s xs)
  show ?case
  proof (cases "length xs < 64")
    case True
    then have "xs = []" using 1(2) by (auto dest: dvd_imp_le)
    then show ?thesis by (simp add: sha_blocks_short)
  next
    case False
    have "sha_blocks s (xs @ ys) = sha_blocks (compress_block s (take 64 xs)) (drop 64 xs @ ys)"
      using False by (subst sha_blocks.simps) simp
    also have "\<dots> = sha_blocks (sha_blocks (compress_block s (take 64 xs)) (drop 64 xs)) ys"
      using False 1(2) by (intro 1(1)) auto
    also have "sha_blocks (compress_block s (take 64 xs)) (drop 64 xs) = sha_blocks s xs"
      using False by (subst (2) sha_blocks.simps) simp
    finally show ?thesis .
  qed
qed

lemma sha_blocks_one: "length b = 64 \<Longrightarrow> sha_blocks s b = compress_block s b"
  by (subst sha_blocks.simps) (simp add: sha_blocks_short)

text \<open>The context after a message: the full blocks are absorbed, the rest is in the buffer.\<close>

definition full_part :: "u8 list \<Rightarrow> nat" where
  "full_part m = 64 * (length m div 64)"

lemma full_part_le: "full_part m \<le> length m"
  by (simp add: full_part_def)

lemma full_part_dvd: "64 dvd length (take (full_part m) m)"
proof -
  have "length (take (full_part m) m) = full_part m" using full_part_le [of m] by simp
  then show ?thesis by (simp add: full_part_def)
qed

definition absorbed :: "u8 list \<Rightarrow> sha256_ctx \<Rightarrow> bool" where
  "absorbed m ctx \<longleftrightarrow> length (ctx_data ctx) = 64 \<and> datalen ctx = length m mod 64
     \<and> take (datalen ctx) (ctx_data ctx) = drop (full_part m) m
     \<and> bitlen ctx = of_nat (8 * full_part m) \<and> ctx_state ctx = sha_blocks sha_start (take (full_part m) m)"

lemma absorbed_init: "length (ctx_data junk) = 64 \<Longrightarrow> absorbed [] (sha256_init junk)"
  by (simp add: absorbed_def sha256_init_def full_part_def sha_blocks_short sha_start_def)

lemma update_byte_absorbed:
  assumes "absorbed m ctx"
  shows "\<exists>ctx'. update_byte b ctx = Some ctx' \<and> absorbed (m @ [b]) ctx'"
proof -
  let ?n = "length m mod 64" and ?d = "(ctx_data ctx)[datalen ctx := b]"
  have a: "length (ctx_data ctx) = 64" "datalen ctx = ?n" "take ?n (ctx_data ctx) = drop (full_part m) m"
    "bitlen ctx = of_nat (8 * full_part m)" "ctx_state ctx = sha_blocks sha_start (take (full_part m) m)"
    using assms unfolding absorbed_def by auto
  have n: "?n < 64" "full_part m + ?n = length m" "full_part m \<le> length m" by (simp_all add: full_part_def)
  have tk: "take (?n + 1) ?d = drop (full_part m) (m @ [b])"
    using a n by (simp add: take_Suc_conv_app_nth)
  have w: "wr (ctx_data ctx) (datalen ctx) b = Some ?d" using a(1,2) n(1) by simp
  show ?thesis
  proof (cases "?n + 1 = 64")
    case True
    then have f: "full_part (m @ [b]) = full_part m + 64" "length (m @ [b]) mod 64 = 0"
      by (simp_all add: full_part_def mod_Suc div_Suc)
    have blk: "?d = drop (full_part m) (m @ [b])" using tk True a(1) by simp
    have blk64: "length ?d = 64" using a(1) by simp
    have "take (full_part (m @ [b])) (m @ [b]) = take (full_part m) m @ ?d"
      using blk n f(1) by (simp add: take_add)
    then have "sha_blocks sha_start (take (full_part (m @ [b])) (m @ [b])) = compress_block (ctx_state ctx) ?d"
      using a(5) sha_blocks_append [OF full_part_dvd, of sha_start m ?d] sha_blocks_one [OF blk64] by simp
    then show ?thesis
      using w a True f n blk64 unfolding update_byte_def absorbed_def
      by (auto simp: sha256_transform_def Let_def algebra_simps)
  next
    case False
    then have "length (m @ [b]) mod 64 = ?n + 1" "full_part (m @ [b]) = full_part m"
      using n(1) by (simp_all add: full_part_def mod_Suc div_Suc)
    then show ?thesis
      using w a False tk n unfolding update_byte_def absorbed_def by (simp add: Let_def)
  qed
qed

lemma sha256_update_absorbed:
  "absorbed m ctx \<Longrightarrow> \<exists>ctx'. sha256_update ctx dat = Some ctx' \<and> absorbed (m @ dat) ctx'"
proof (induction dat arbitrary: m ctx)
  case (Cons b dat)
  obtain c where "update_byte b ctx = Some c" "absorbed (m @ [b]) c" using update_byte_absorbed [OF Cons.prems] by blast
  then show ?case using Cons.IH [of "m @ [b]" c] by simp
qed simp

lemma overlay_fill: "length D = length xs \<Longrightarrow> overlay (r @ D) (length r) xs = r @ xs"
  by (simp add: overlay_def)

lemma sha256_final_value:
  assumes "absorbed m ctx"
  shows "\<exists>ctx'. sha256_final ctx = Some (ctx', sha256 m)"
proof -
  let ?n = "length m mod 64" and ?r = "drop (full_part m) m" and ?s = "sha_blocks sha_start (take (full_part m) m)"
  obtain D where D: "ctx_data ctx = ?r @ D" "length D = 64 - ?n"
    using assms unfolding absorbed_def by (metis append_take_drop_id length_drop)
  have a: "datalen ctx = ?n" "bitlen ctx = of_nat (8 * full_part m)" "ctx_state ctx = ?s"
    using assms unfolding absorbed_def by auto
  have n: "?n < 64" "length ?r = ?n" "full_part m + ?n = length m" by (simp_all add: full_part_def minus_mult_div_eq_mod)
  have bl: "bitlen ctx + of_nat ?n * 8 = of_nat (8 * length m)"
  proof -
    have "8 * length m = 8 * full_part m + ?n * 8" using n(3) by linarith
    then have "(of_nat (8 * length m) :: u64) = of_nat (8 * full_part m + ?n * 8)" by (rule arg_cong)
    then show ?thesis unfolding a(2) by simp
  qed
  note fp = full_part_dvd [of m]
  have spl: "m @ X = take (full_part m) m @ ?r @ X" for X by (metis append_assoc append_take_drop_id)
  let ?L = "be64 (of_nat (8 * length m))"
  show ?thesis
  proof (cases "?n < 56")
    case True
    have "119 - ?n = 55 - ?n + 64" using True by linarith
    then have z: "(119 - ?n) mod 64 = 55 - ?n" by (simp only: mod_add_self2) (simp add: mod_less)
    let ?b = "?r @ 0x80 # replicate (55 - ?n) 0 @ ?L"
    have b: "length ?b = 64" using True n(2) by simp
    have "sha_pad m = take (full_part m) m @ ?b"
      unfolding sha_pad_def z using spl by (simp only: append_assoc)
    then have v: "sha_blocks sha_start (sha_pad m) = compress_block ?s ?b"
      using sha_blocks_append [OF fp] sha_blocks_one [OF b] by simp
    have w: "wr (ctx_data ctx) ?n 0x80 = Some (overlay (ctx_data ctx) ?n [0x80])"
      "fill_zero (overlay (ctx_data ctx) ?n [0x80]) (?n + 1) 56 = Some (overlay (ctx_data ctx) ?n (0x80 # replicate (55 - ?n) 0))"
      using D n True overlay_overlay [of ?n "[0x80]" "ctx_data ctx" "replicate (55 - ?n) 0"]
      by (simp_all add: overlay_update fill_zero_def wr_seq_overlay)
    have e: "wr_seq (overlay (ctx_data ctx) ?n (0x80 # replicate (55 - ?n) 0)) 56 ?L = Some ?b"
    proof -
      have "overlay (overlay (ctx_data ctx) ?n (0x80 # replicate (55 - ?n) 0)) (?n + length (0x80 # replicate (55 - ?n) (0 :: u8))) ?L
          = overlay (ctx_data ctx) ?n ((0x80 # replicate (55 - ?n) 0) @ ?L)"
        using D n True by (intro overlay_overlay) simp
      also have "\<dots> = ?b"
      proof -
        have "length D = length ((0x80 # replicate (55 - ?n) 0) @ ?L)" using D(2) True by simp
        from overlay_fill [OF this, of ?r] show ?thesis unfolding D(1) n(2) by simp
      qed
      also have "?n + length (0x80 # replicate (55 - ?n) (0 :: u8)) = 56" using True by simp
      finally show ?thesis using D n True by (subst wr_seq_overlay) simp_all
    qed
    show ?thesis
      using True w e v a(1,3) bl unfolding sha256_final_def
      by (simp add: Let_def sha256_transform_def sha256_def)
  next
    case False
    have "119 - ?n < 64" "119 - ?n = (63 - ?n) + 56" using False n(1) by linarith+
    then have z: "(119 - ?n) mod 64 = (63 - ?n) + 56" by (simp only: mod_less)
    let ?b1 = "?r @ 0x80 # replicate (63 - ?n) 0" and ?b2 = "replicate 56 0 @ ?L"
    have b: "length ?b1 = 64" "length ?b2 = 64" using n(1,2) by simp_all
    have "sha_pad m = take (full_part m) m @ ?b1 @ ?b2"
      unfolding sha_pad_def z replicate_add using spl by (simp only: append_assoc append_Cons)
    then have v: "sha_blocks sha_start (sha_pad m) = compress_block (compress_block ?s ?b1) ?b2"
      using sha_blocks_append [OF fp] sha_blocks_append [of ?b1 _ ?b2] sha_blocks_one b by simp
    have w: "wr (ctx_data ctx) ?n 0x80 = Some (overlay (ctx_data ctx) ?n [0x80])"
      "fill_zero (overlay (ctx_data ctx) ?n [0x80]) (?n + 1) 64 = Some (overlay (ctx_data ctx) ?n (0x80 # replicate (63 - ?n) 0))"
      using D n False overlay_overlay [of ?n "[0x80]" "ctx_data ctx" "replicate (63 - ?n) 0"]
      by (simp_all add: overlay_update fill_zero_def wr_seq_overlay)
    have o1: "overlay (ctx_data ctx) ?n (0x80 # replicate (63 - ?n) 0) = ?b1" using D n by (simp add: overlay_def)
    have e: "wr_seq ?b1 0 (replicate 56 0) = Some (overlay ?b1 0 (replicate 56 0))"
      "wr_seq (overlay ?b1 0 (replicate 56 0)) 56 ?L = Some ?b2"
      using b(1) by (subst wr_seq_overlay; simp add: overlay_def)+
    show ?thesis
      using False w e v a(1,3) bl unfolding sha256_final_def
      by (simp add: Let_def sha256_transform_def sha256_def o1)
  qed
qed

section \<open>The three checksums meet the contract\<close>

lemma crc32_append: "crc32 (xs @ ys) c = crc32 ys (crc32 xs c)"
  by (simp add: crc32_def)

lemma crc32_archiver: "crc32 = calc_crc32"
  by (intro ext) (simp add: crc32_def calc_crc32_def crc_byte_def [abs_def] crc_bit_def [abs_def])

lemma fnv1a_append: "fnv1a_32 (xs @ ys) h = fnv1a_32 ys (fnv1a_32 xs h)"
  by (simp add: fnv1a_32_def)

lemma sha256_update_append:
  "sha256_update ctx (xs @ ys) = sha256_update ctx xs \<bind> (\<lambda>ctx. sha256_update ctx ys)"
  by (induction xs arbitrary: ctx) simp_all

lemma sha256_digest:
  assumes "length (ctx_data junk) = 64"
  shows "sha256_update (sha256_init junk) m \<bind> (\<lambda>ctx. map_option snd (sha256_final ctx)) = Some (sha256 m)"
proof -
  obtain ctx where ctx: "sha256_update (sha256_init junk) m = Some ctx" "absorbed m ctx"
    using sha256_update_absorbed [OF absorbed_init [OF assms], of m] by auto
  obtain ctx' where "sha256_final ctx = Some (ctx', sha256 m)" using sha256_final_value [OF ctx(2)] by blast
  then show ?thesis using ctx(1) by simp
qed

definition blank_ctx :: "u8 list \<Rightarrow> sha256_ctx" where
  "blank_ctx junk = \<lparr>ctx_data = take 64 (junk @ replicate 64 0), datalen = 0, bitlen = 0, ctx_state = []\<rparr>"

interpretation crc: checksum "\<lambda>c dat. Some (crc32 dat c)" 0 Some "\<lambda>m. crc32 m 0"
  by unfold_locales (simp_all add: crc32_append, simp add: crc32_def)

interpretation fnv: checksum "\<lambda>h dat. Some (fnv1a_32 dat h)" 2166136261 Some "\<lambda>m. fnv1a_32 m 2166136261"
  by unfold_locales (simp_all add: fnv1a_append, simp add: fnv1a_32_def)

interpretation sha: checksum sha256_update "sha256_init (blank_ctx junk)" "\<lambda>ctx. map_option snd (sha256_final ctx)" sha256
  by unfold_locales (simp_all add: sha256_update_append sha256_digest blank_ctx_def)

lemma hash_loop_chunks:
  "hash_loop cs (c, h, ctx) = sha.absorb_all ctx cs
     \<bind> (\<lambda>ctx. Some (crc32 (concat cs) c, fnv1a_32 (concat cs) h, ctx))"
proof (induction cs arbitrary: c h ctx)
  case Nil
  then show ?case by (simp add: crc32_def fnv1a_32_def)
next
  case (Cons b cs)
  then show ?case by (cases "sha256_update ctx b") (simp_all add: crc32_append fnv1a_append)
qed

lemma sha_absorbs:
  assumes "length (ctx_data junk) = 64"
  shows "\<exists>ctx ctx'. sha256_update (sha256_init junk) m = Some ctx \<and> sha256_final ctx = Some (ctx', sha256 m)"
  using sha256_digest [OF assms, of m] by (auto split: Option.bind_splits)

section \<open>Properties\<close>

text \<open>
  C28: However a file is cut into chunks, the program reports the three checksums of its whole
  contents: the CRC, the FNV hash and the SHA-256 value, that is the block function folded over the
  padded message.  What the context held before its initialisation does not matter, and the same
  bytes given as a string have the same checksums.
\<close>

theorem hashcalc_checksums:
  assumes "length (ctx_data junk) = 64"
  shows "hash_file_stream junk (Some chunks) = Some (Ptr \<lparr>out_crc32 = calc_crc32 (concat chunks) 0,
      out_fnv1a = fnv1a_32 (concat chunks) 2166136261, out_sha256 = sha256 (concat chunks)\<rparr>)
    \<and> hash_string junk (concat chunks) = hash_file_stream junk (Some chunks)"
proof -
  obtain ctx ctx' where "sha256_update (sha256_init junk) (concat chunks) = Some ctx"
    "sha256_final ctx = Some (ctx', sha256 (concat chunks))"
    using sha_absorbs [OF assms] by blast
  then show ?thesis
    by (simp add: hash_file_stream_def hash_string_def hash_loop_chunks sha.absorb_all_concat crc32_archiver)
qed

theorem hashcalc_checksums_witness:
  "hash_file_stream (blank_ctx []) (Some [[97], [98, 99]]) = Some (Ptr \<lparr>out_crc32 = calc_crc32 (concat [[97], [98, 99]]) 0,
      out_fnv1a = fnv1a_32 (concat [[97], [98, 99]]) 2166136261, out_sha256 = sha256 (concat [[97], [98, 99]])\<rparr>)
    \<and> hash_string (blank_ctx []) (concat [[97], [98, 99]]) = hash_file_stream (blank_ctx []) (Some [[97], [98, 99]])"
  by (rule hashcalc_checksums) (simp add: blank_ctx_def)

text \<open>
  The standard takes as round constants the first 32 bits of the fractional parts of the cube roots
  of the first 64 primes.  \<open>w\<close> are these bits for \<open>p\<close> when, put behind the integer part, they
  are the cube root of \<open>p\<close> scaled by \<open>2 ^ 32\<close> and rounded down.
\<close>

definition first_primes :: "nat list" where
  "first_primes = [
    2, 3, 5, 7, 11, 13, 17, 19, 23, 29, 31, 37, 41, 43, 47, 53, 59, 61, 67, 71, 73, 79, 83, 89, 97,
    101, 103, 107, 109, 113, 127, 131, 137, 139, 149, 151, 157, 163, 167, 173, 179, 181, 191,
    193, 197, 199, 211, 223, 227, 229, 233, 239, 241, 251, 257, 263, 269, 271, 277, 281, 283,
    293, 307, 311]"

definition cube_root_bits :: "nat \<Rightarrow> u32 \<Rightarrow> bool" where
  "cube_root_bits p w \<longleftrightarrow> (let k = length (filter (\<lambda>c. c ^ 3 \<le> p) [1..<7]) * 2 ^ 32 + unat w in
     k ^ 3 \<le> p * 2 ^ 96 \<and> p * 2 ^ 96 < (k + 1) ^ 3)"

lemma upt_1_7: "[1..<7] = [1, 2, 3, 4, 5, 6 :: nat]"
  by (simp add: upt_conv_Cons)

lemma constants_checked: "list_all (\<lambda>(p, w). cube_root_bits p w) (take 62 (zip first_primes K))"
  unfolding first_primes_def K_def cube_root_bits_def upt_1_7 by simp

lemma last_constants: "\<not> cube_root_bits (first_primes ! 62) (K ! 62)" "cube_root_bits (first_primes ! 63) (K ! 63)"
  unfolding first_primes_def K_def cube_root_bits_def upt_1_7 by simp_all

lemma standard_constant: "cube_root_bits (first_primes ! 62) 0xbef9a3f7"
  unfolding first_primes_def cube_root_bits_def upt_1_7 by simp

text \<open>
  C29: The table of round constants agrees with the standard except at index 62, where the source has
  \<open>0xbef4a3f7\<close> for \<open>0xbef9a3f7\<close>; so every digest the program prints goes through a wrong constant
  (the same table is in \<open>fdup.c\<close>, \<open>krypt.c\<close> and \<open>cp.c\<close>).
\<close>

theorem sha256_round_constant_wrong:
  "filter (\<lambda>i. \<not> cube_root_bits (first_primes ! i) (K ! i)) [0..<64] = [62] \<and> K ! 62 = 0xbef4a3f7
    \<and> cube_root_bits (first_primes ! 62) 0xbef9a3f7"
proof -
  have l: "length first_primes = 64" "length K = 64" by (simp_all add: first_primes_def K_def)
  have "cube_root_bits (first_primes ! i) (K ! i) \<longleftrightarrow> i \<noteq> 62" if "i < 64" for i
  proof (cases "i < 62")
    case True
    then show ?thesis using constants_checked l by (auto simp: list_all_length)
  next
    case False
    then have "i = 62 \<or> i = 63" using that by linarith
    then show ?thesis using last_constants by auto
  qed
  then have "filter (\<lambda>i. \<not> cube_root_bits (first_primes ! i) (K ! i)) [0..<64] = filter (\<lambda>i. i = 62) [0..<64]"
    by (intro filter_cong) auto
  also have "\<dots> = [62]" by code_simp
  finally show ?thesis using standard_constant by (simp add: K_def)
qed

end
