(* ===== verification/Ptlex.thy ===== *)
theory Ptlex imports Kstring begin

text \<open>
  The lexer of the Pythont transpiler, \<open>src/pythont/pythont.c\<close>.  The source is a buffer that holds
  a C string; a character outside the buffer is undefined behaviour.  A token text is the content of
  its \<open>text[128]\<close> up to the terminator.  An indentation is a natural number: it is at most
  four times the length of the source, and \<open>read_source_file\<close> refuses files of a megabyte.
\<close>

section \<open>Tokens and state\<close>

datatype token_type = TOK_EOF | TOK_IDENTIFIER | TOK_INTEGER | TOK_FLOAT | TOK_STRING | TOK_NEWLINE
  | TOK_INDENT | TOK_DEDENT | TOK_OPERATOR | TOK_DELIMITER | TOK_KEYWORD | TOK_ERROR

definition LEX_TOKEN_TEXT :: nat where "LEX_TOKEN_TEXT = 128"
definition MAX_INDENTS :: nat where "MAX_INDENTS = 64"

record token =
  ttype :: token_type
  ttext :: "u8 list"
  tline :: nat
  tcol :: nat

record lexer =
  lx_pos :: nat
  lx_line :: nat
  lx_col :: nat
  at_line_start :: bool
  pending_dedents :: nat
  indent_stack :: "nat list"
  indent_top :: nat

definition is_alpha :: "u8 \<Rightarrow> bool" where "is_alpha c \<longleftrightarrow> 65 \<le> c \<and> c \<le> 90 \<or> 97 \<le> c \<and> c \<le> 122"
definition is_digit :: "u8 \<Rightarrow> bool" where "is_digit c \<longleftrightarrow> 48 \<le> c \<and> c \<le> 57"

definition lexer_is_identifier_start :: "u8 \<Rightarrow> bool" where
  "lexer_is_identifier_start c \<longleftrightarrow> is_alpha c \<or> c = 95"

definition lexer_is_identifier_char :: "u8 \<Rightarrow> bool" where
  "lexer_is_identifier_char c \<longleftrightarrow> is_alpha c \<or> is_digit c \<or> c = 95"

definition lexer_is_keyword :: "u8 list \<Rightarrow> bool" where
  "lexer_is_keyword s \<longleftrightarrow> s \<in> set (map ascii [
     ''and'', ''as'', ''assert'', ''break'', ''class'', ''continue'',
     ''def'', ''elif'', ''else'', ''except'', ''False'', ''finally'',
     ''for'', ''from'', ''if'', ''import'', ''in'', ''is'', ''lambda'',
     ''None'', ''not'', ''or'', ''pass'', ''raise'', ''return'',
     ''True'', ''try'', ''while'', ''with'', ''yield''])"

text \<open>\<open>stack\<close> is what the array held before; only its first entry is set.\<close>

definition lexer_init :: "nat list \<Rightarrow> lexer" where
  "lexer_init stack = \<lparr>lx_pos = 0, lx_line = 1, lx_col = 1, at_line_start = True, pending_dedents = 0,
     indent_stack = stack[0 := 0], indent_top = 0\<rparr>"

definition lexer_advance :: "u8 list \<Rightarrow> lexer \<Rightarrow> lexer option" where
  "lexer_advance src lx = do {
     c \<leftarrow> rd src (lx_pos lx);
     Some (if c = 0 then lx
       else if c = 10 then lx \<lparr>lx_pos := lx_pos lx + 1, lx_line := lx_line lx + 1, lx_col := 1, at_line_start := True\<rparr>
       else lx \<lparr>lx_pos := lx_pos lx + 1, lx_col := lx_col lx + 1\<rparr>)}"

definition lexer_peek :: "u8 list \<Rightarrow> lexer \<Rightarrow> nat \<Rightarrow> u8 option" where
  "lexer_peek src lx offset = rd src (lx_pos lx + offset)"

text \<open>\<open>snprintf(token.text, sizeof(token.text), "%s", text)\<close> cuts the text at 127 bytes.\<close>

definition lexer_make_token :: "token_type \<Rightarrow> u8 list \<Rightarrow> nat \<Rightarrow> nat \<Rightarrow> token" where
  "lexer_make_token ty s line col = \<lparr>ttype = ty, ttext = take (LEX_TOKEN_TEXT - 1) s, tline = line, tcol = col\<rparr>"

section \<open>Scanning loops\<close>

text \<open>
  A loop that advances while the current character, which is not the terminator, satisfies \<open>P\<close>.
\<close>

function skip_while :: "(u8 \<Rightarrow> bool) \<Rightarrow> u8 list \<Rightarrow> lexer \<Rightarrow> lexer option" where
  "skip_while P src lx =
     (case lexer_peek src lx 0 of
        None \<Rightarrow> None
      | Some c \<Rightarrow>
          if c \<noteq> 0 \<and> P c then lexer_advance src lx \<bind> skip_while P src else Some lx)"
  by pat_completeness auto
termination
  by (relation "measure (\<lambda>(P, src, lx). length src - lx_pos lx)")
     (auto simp: lexer_peek_def lexer_advance_def dest!: rd_SomeD split: if_splits)

declare skip_while.simps [simp del]

text \<open>The same, storing into \<open>text[n++]\<close> as long as there is room.\<close>

function take_while :: "(u8 \<Rightarrow> bool) \<Rightarrow> u8 list \<Rightarrow> lexer \<Rightarrow> u8 list \<Rightarrow> (u8 list \<times> lexer) option" where
  "take_while P src lx s =
     (case lexer_peek src lx 0 of
        None \<Rightarrow> None
      | Some c \<Rightarrow>
          if c \<noteq> 0 \<and> P c then
            (if length s + 1 \<ge> LEX_TOKEN_TEXT then Some (s, lx)
             else lexer_advance src lx \<bind> (\<lambda>lx. take_while P src lx (s @ [c])))
          else Some (s, lx))"
  by pat_completeness auto
termination
  by (relation "measure (\<lambda>(P, src, lx, s). length src - lx_pos lx)")
     (auto simp: lexer_peek_def lexer_advance_def dest!: rd_SomeD split: if_splits)

declare take_while.simps [simp del]

text \<open>\<open>if (n + 1 < sizeof(text)) { text[n++] = c; lexer_advance(lexer); }\<close>\<close>

definition take_char :: "u8 list \<Rightarrow> lexer \<Rightarrow> u8 list \<Rightarrow> u8 \<Rightarrow> (u8 list \<times> lexer) option" where
  "take_char src lx s c =
     (if length s + 1 < LEX_TOKEN_TEXT then map_option (Pair (s @ [c])) (lexer_advance src lx) else Some (s, lx))"

text \<open>The width of the indentation: a tab counts four.\<close>

function skip_indent :: "u8 list \<Rightarrow> lexer \<Rightarrow> nat \<Rightarrow> (nat \<times> lexer) option" where
  "skip_indent src lx indent =
     (case lexer_peek src lx 0 of
        None \<Rightarrow> None
      | Some c \<Rightarrow>
          if c = 32 \<or> c = 9 then lexer_advance src lx \<bind> (\<lambda>lx. skip_indent src lx (indent + (if c = 9 then 4 else 1)))
          else Some (indent, lx))"
  by pat_completeness auto
termination
  by (relation "measure (\<lambda>(src, lx, indent). length src - lx_pos lx)")
     (auto simp: lexer_peek_def lexer_advance_def dest!: rd_SomeD split: if_splits)

declare skip_indent.simps [simp del]

text \<open>The body of a quoted string; \<open>NULL\<close> for the failures.\<close>

function quoted_loop :: "u8 list \<Rightarrow> u8 \<Rightarrow> lexer \<Rightarrow> u8 list \<Rightarrow> (u8 list cptr \<times> lexer) option" where
  "quoted_loop src quote lx s =
     (case lexer_peek src lx 0 of
        None \<Rightarrow> None
      | Some c \<Rightarrow>
          if c = 0 \<or> c = quote then Some (Ptr s, lx)
          else if c = 10 then Some (NULL, lx)
          else do {
            e \<leftarrow> (if c = 92 then lexer_peek src lx 1 else Some 0);
            if e \<noteq> 0 then
              (if length s + 2 \<ge> LEX_TOKEN_TEXT then Some (NULL, lx)
               else lexer_advance src lx \<bind> (\<lambda>lx. lexer_advance src lx \<bind> (\<lambda>lx. quoted_loop src quote lx (s @ [c, e]))))
            else if length s + 1 \<ge> LEX_TOKEN_TEXT then Some (NULL, lx)
            else lexer_advance src lx \<bind> (\<lambda>lx. quoted_loop src quote lx (s @ [c]))})"
  by pat_completeness auto
termination
  by (relation "measure (\<lambda>(src, quote, lx, s). length src - lx_pos lx)")
     (auto simp: lexer_peek_def lexer_advance_def dest!: rd_SomeD split: if_splits)

declare quoted_loop.simps [simp del]

definition lexer_read_quoted :: "u8 list \<Rightarrow> lexer \<Rightarrow> u8 \<Rightarrow> (u8 list cptr \<times> lexer) option" where
  "lexer_read_quoted src lx quote = do {
     lx \<leftarrow> lexer_advance src lx;
     (s, lx) \<leftarrow> quoted_loop src quote lx [];
     (case s of
        NULL \<Rightarrow> Some (NULL, lx)
      | Ptr s \<Rightarrow> do {
          c \<leftarrow> lexer_peek src lx 0;
          if c \<noteq> quote then Some (NULL, lx) else do {lx \<leftarrow> lexer_advance src lx; Some (Ptr s, lx)}})}"

section \<open>One token\<close>

text \<open>Start over (after a comment), a token, or go on with the rest of the function.\<close>

datatype lex_step = Again lexer | Emit token lexer | Continue lexer

text \<open>\<open>while (indent_top > 0 && indent < indent_stack[indent_top]) { indent_top--; pending_dedents++; }\<close>\<close>

function pop_indents :: "nat \<Rightarrow> lexer \<Rightarrow> lexer option" where
  "pop_indents indent lx =
     (if indent_top lx > 0 then do {
        t \<leftarrow> rd (indent_stack lx) (indent_top lx);
        if indent < t
        then pop_indents indent (lx \<lparr>indent_top := indent_top lx - 1, pending_dedents := pending_dedents lx + 1\<rparr>)
        else Some lx}
      else Some lx)"
  by pat_completeness auto
termination by (relation "measure (\<lambda>(indent, lx). indent_top lx)") auto

declare pop_indents.simps [simp del]

definition open_block :: "nat \<Rightarrow> lexer \<Rightarrow> lex_step option" where
  "open_block indent lx =
     (if indent_top lx + 1 \<ge> MAX_INDENTS
      then Some (Emit (lexer_make_token TOK_ERROR (ascii ''<indent-too-deep>'') (lx_line lx) (lx_col lx)) lx)
      else do {
        stack \<leftarrow> wr (indent_stack lx) (indent_top lx + 1) indent;
        Some (Emit (lexer_make_token TOK_INDENT [] (lx_line lx) 1)
          (lx \<lparr>indent_stack := stack, indent_top := indent_top lx + 1, at_line_start := False\<rparr>))})"

definition close_blocks :: "nat \<Rightarrow> lexer \<Rightarrow> lex_step option" where
  "close_blocks indent lx = do {
     lx \<leftarrow> pop_indents indent lx;
     t \<leftarrow> rd (indent_stack lx) (indent_top lx);
     if indent \<noteq> t
     then Some (Emit (lexer_make_token TOK_ERROR (ascii ''<invalid-indent>'') (lx_line lx) (lx_col lx)) lx)
     else if pending_dedents lx > 0
     then Some (Emit (lexer_make_token TOK_DEDENT [] (lx_line lx) 1)
       (lx \<lparr>at_line_start := False, pending_dedents := pending_dedents lx - 1\<rparr>))
     else Some (Continue (lx \<lparr>at_line_start := False\<rparr>))}"

definition line_start :: "u8 list \<Rightarrow> lexer \<Rightarrow> lex_step option" where
  "line_start src lx =
     (if \<not> at_line_start lx then Some (Continue lx)
      else do {
        (indent, lx) \<leftarrow> skip_indent src lx 0;
        first \<leftarrow> lexer_peek src lx 0;
        if first = 35 then do {lx \<leftarrow> skip_while (\<lambda>c. c \<noteq> 10) src lx; Some (Again lx)}
        else if first = 10 then do {
          lx' \<leftarrow> lexer_advance src lx;
          Some (Emit (lexer_make_token TOK_NEWLINE [92, 110] (lx_line lx) (lx_col lx)) lx')}
        else do {
          current \<leftarrow> rd (indent_stack lx) (indent_top lx);
          if indent > current then open_block indent lx
          else if indent < current then close_blocks indent lx
          else Some (Continue (lx \<lparr>at_line_start := False\<rparr>))}})"

text \<open>The characters of a number that starts at the current position.\<close>

definition lexer_number :: "u8 list \<Rightarrow> u8 \<Rightarrow> lexer \<Rightarrow> lex_step option" where
  "lexer_number src c lx = do {
     let line = lx_line lx;
     let col = lx_col lx;
     let is_float = (c = 46);
     (s, lx) \<leftarrow> take_while is_digit src lx [];
     d \<leftarrow> lexer_peek src lx 0;
     (is_float, s, lx) \<leftarrow> (if d = 46 \<and> \<not> is_float then do {
          (s, lx) \<leftarrow> take_char src lx s 46;
          (s, lx) \<leftarrow> take_while is_digit src lx s;
          Some (True, s, lx)}
        else Some (is_float, s, lx));
     e \<leftarrow> lexer_peek src lx 0;
     (is_float, s, lx) \<leftarrow> (if e = 101 \<or> e = 69 then do {
          (s, lx) \<leftarrow> take_char src lx s e;
          g \<leftarrow> lexer_peek src lx 0;
          (s, lx) \<leftarrow> (if g = 43 \<or> g = 45 then take_char src lx s g else Some (s, lx));
          (s, lx) \<leftarrow> take_while is_digit src lx s;
          Some (True, s, lx)}
        else Some (is_float, s, lx));
     Some (Emit (lexer_make_token (if is_float then TOK_FLOAT else TOK_INTEGER) s line col) lx)}"

text \<open>The operator at the current position: one, two or three characters.\<close>

definition operator_text :: "u8 \<Rightarrow> u8 \<Rightarrow> u8 \<Rightarrow> u8 list" where
  "operator_text c n third =
     (if c = n \<and> c \<in> set (ascii ''*/<>'') \<and> third = 61 then [c, n, 61]
      else if c \<in> set (ascii ''=!<>+-*/%&|^@'') \<and> n = 61 then [c, 61]
      else if c = n \<and> c \<in> set (ascii ''*/<>'') \<or> c = 45 \<and> n = 62 \<or> c = 61 \<and> n = 62 then [c, n]
      else [c])"

fun advance_by :: "nat \<Rightarrow> u8 list \<Rightarrow> lexer \<Rightarrow> lexer option" where
  "advance_by 0 src lx = Some lx"
| "advance_by (Suc k) src lx = lexer_advance src lx \<bind> advance_by k src"

definition lexer_operator :: "u8 list \<Rightarrow> u8 \<Rightarrow> lexer \<Rightarrow> lex_step option" where
  "lexer_operator src c lx = do {
     n \<leftarrow> lexer_peek src lx 1;
     third \<leftarrow> lexer_peek src lx 2;
     let s = operator_text c n third;
     lx' \<leftarrow> advance_by (length s) src lx;
     Some (Emit (lexer_make_token (if c \<in> set (ascii ''()[]{}:,.;'') then TOK_DELIMITER else TOK_OPERATOR) s
       (lx_line lx) (lx_col lx)) lx')}"

definition lexer_token :: "u8 list \<Rightarrow> lexer \<Rightarrow> lex_step option" where
  "lexer_token src lx = do {
     lx \<leftarrow> skip_while (\<lambda>c. c = 32 \<or> c = 9 \<or> c = 13) src lx;
     let line = lx_line lx;
     let col = lx_col lx;
     c \<leftarrow> lexer_peek src lx 0;
     d \<leftarrow> (if c = 46 then lexer_peek src lx 1 else Some 0);
     if c = 0 then
       (if indent_top lx > 0
        then Some (Emit (lexer_make_token TOK_DEDENT [] line col) (lx \<lparr>indent_top := indent_top lx - 1\<rparr>))
        else Some (Emit (lexer_make_token TOK_EOF [] line col) lx))
     else if c = 35 then do {lx \<leftarrow> skip_while (\<lambda>c. c \<noteq> 10) src lx; Some (Again lx)}
     else if c = 10 then do {
       lx' \<leftarrow> lexer_advance src lx;
       Some (Emit (lexer_make_token TOK_NEWLINE [92, 110] line col) (lx' \<lparr>at_line_start := True\<rparr>))}
     else if lexer_is_identifier_start c then do {
       (s, lx) \<leftarrow> take_while lexer_is_identifier_char src lx [];
       Some (Emit (lexer_make_token (if lexer_is_keyword s then TOK_KEYWORD else TOK_IDENTIFIER) s line col) lx)}
     else if is_digit c \<or> c = 46 \<and> is_digit d then lexer_number src c lx
     else if c = 39 \<or> c = 34 then do {
       (s, lx) \<leftarrow> lexer_read_quoted src lx c;
       (case s of
          NULL \<Rightarrow> Some (Emit (lexer_make_token TOK_ERROR (ascii ''<invalid-string>'') line col) lx)
        | Ptr s \<Rightarrow> Some (Emit \<lparr>ttype = TOK_STRING, ttext = s, tline = line, tcol = col\<rparr> lx))}
     else lexer_operator src c lx}"

definition lexer_step :: "u8 list \<Rightarrow> lexer \<Rightarrow> lex_step option" where
  "lexer_step src lx =
     (if pending_dedents lx > 0
      then Some (Emit (lexer_make_token TOK_DEDENT [] (lx_line lx) (lx_col lx))
        (lx \<lparr>pending_dedents := pending_dedents lx - 1\<rparr>))
      else do {
        r \<leftarrow> line_start src lx;
        (case r of Continue lx \<Rightarrow> lexer_token src lx | _ \<Rightarrow> Some r)})"

text \<open>\<open>lexer_next\<close> calls itself after a comment.\<close>

partial_function (option) lexer_next :: "u8 list \<Rightarrow> lexer \<Rightarrow> (token \<times> lexer) option" where
  "lexer_next src lx =
     (case lexer_step src lx of
        Some (Again lx) \<Rightarrow> lexer_next src lx
      | Some (Emit t lx) \<Rightarrow> Some (t, lx)
      | _ \<Rightarrow> None)"

definition token_type_name :: "token_type \<Rightarrow> string" where
  "token_type_name ty = (case ty of
     TOK_EOF \<Rightarrow> ''EOF'' | TOK_IDENTIFIER \<Rightarrow> ''IDENTIFIER'' | TOK_INTEGER \<Rightarrow> ''INTEGER'' | TOK_FLOAT \<Rightarrow> ''FLOAT''
   | TOK_STRING \<Rightarrow> ''STRING'' | TOK_NEWLINE \<Rightarrow> ''NEWLINE'' | TOK_INDENT \<Rightarrow> ''INDENT'' | TOK_DEDENT \<Rightarrow> ''DEDENT''
   | TOK_OPERATOR \<Rightarrow> ''OPERATOR'' | TOK_DELIMITER \<Rightarrow> ''DELIMITER'' | TOK_KEYWORD \<Rightarrow> ''KEYWORD'' | TOK_ERROR \<Rightarrow> ''ERROR'')"

text \<open>\<open>lexer_dump\<close>: the tokens it prints.\<close>

partial_function (option) lexer_dump_loop :: "u8 list \<Rightarrow> lexer \<Rightarrow> token list option" where
  "lexer_dump_loop src lx =
     lexer_next src lx \<bind> (\<lambda>(t, lx).
       if ttype t = TOK_ERROR \<or> ttype t = TOK_EOF then Some [t]
       else lexer_dump_loop src lx \<bind> (\<lambda>ts. Some (t # ts)))"

definition lexer_dump :: "nat list \<Rightarrow> u8 list \<Rightarrow> token list option" where
  "lexer_dump stack src = lexer_dump_loop src (lexer_init stack)"

section \<open>Where the scanner goes\<close>

text \<open>\<open>returns x P\<close>: the computation has a value, and the value satisfies \<open>P\<close>.\<close>

fun returns :: "'a option \<Rightarrow> ('a \<Rightarrow> bool) \<Rightarrow> bool" where
  "returns None P \<longleftrightarrow> False"
| "returns (Some x) P \<longleftrightarrow> P x"

lemma returns_iff: "returns x P \<longleftrightarrow> (\<exists>y. x = Some y \<and> P y)"
  by (cases x) auto

lemma returns_bind: "returns x P \<Longrightarrow> (\<And>y. x = Some y \<Longrightarrow> P y \<Longrightarrow> returns (f y) Q) \<Longrightarrow> returns (x \<bind> f) Q"
  by (cases x) auto

lemma returns_mono: "returns x P \<Longrightarrow> (\<And>y. P y \<Longrightarrow> Q y) \<Longrightarrow> returns x Q"
  by (cases x) auto

lemma returns_map: "returns (map_option f x) P \<longleftrightarrow> returns x (\<lambda>y. P (f y))"
  by (cases x) auto

text \<open>
  \<open>lex_ok\<close>: the position is at most that of the terminator, and the stack of indentations is in
  its array.  \<open>moved\<close>: only the position and what is reported about it has changed, and only
  forward.
\<close>

definition lex_ok :: "u8 list \<Rightarrow> lexer \<Rightarrow> bool" where
  "lex_ok src lx \<longleftrightarrow> lx_pos lx \<le> length (cstr src) \<and> length (indent_stack lx) = MAX_INDENTS \<and>
     indent_top lx < MAX_INDENTS \<and> indent_stack lx ! 0 = 0"

definition moved :: "u8 list \<Rightarrow> lexer \<Rightarrow> lexer \<Rightarrow> bool" where
  "moved src lx lx' \<longleftrightarrow> lx_pos lx \<le> lx_pos lx' \<and> lx_pos lx' \<le> length (cstr src) \<and>
     pending_dedents lx' = pending_dedents lx \<and> indent_stack lx' = indent_stack lx \<and> indent_top lx' = indent_top lx"

lemma moved_refl: "lx_pos lx \<le> length (cstr src) \<Longrightarrow> moved src lx lx"
  by (simp add: moved_def)

lemma moved_trans: "moved src lx lx' \<Longrightarrow> moved src lx' lx'' \<Longrightarrow> moved src lx lx''"
  by (auto simp: moved_def)

lemma moved_ok: "moved src lx lx' \<Longrightarrow> lex_ok src lx \<Longrightarrow> lex_ok src lx'"
  by (auto simp: moved_def lex_ok_def)

lemma cstr_at:
  assumes "terminated src" "k \<le> length (cstr src)"
  shows "src ! k = 0 \<longleftrightarrow> k = length (cstr src)"
proof -
  obtain r where "src = cstr src @ 0 # r" using assms(1) by (rule terminatedE)
  then have "src ! k = (cstr src @ 0 # r) ! k" by (rule arg_cong)
  moreover have "k < length (cstr src) \<Longrightarrow> cstr src ! k \<noteq> 0" using cstr_no_nul [of src] by (metis nth_mem)
  ultimately show ?thesis using assms(2) by (auto simp: nth_append)
qed

lemma peek_in: "terminated src \<Longrightarrow> lx_pos lx + k \<le> length (cstr src) \<Longrightarrow>
    lexer_peek src lx k = Some (src ! (lx_pos lx + k))"
  using length_cstr_terminated [of src] by (simp add: lexer_peek_def)

lemma peek_next: "terminated src \<Longrightarrow> lx_pos lx \<le> length (cstr src) \<Longrightarrow> src ! lx_pos lx \<noteq> 0 \<Longrightarrow>
    lexer_peek src lx 1 = Some (src ! (lx_pos lx + 1)) \<and> lx_pos lx < length (cstr src)"
  using cstr_at [of src "lx_pos lx"] by (simp add: peek_in)

lemma advance_moved:
  assumes "terminated src" "lx_pos lx \<le> length (cstr src)"
  shows "returns (lexer_advance src lx) (\<lambda>lx'. moved src lx lx' \<and>
      (src ! lx_pos lx \<noteq> 0 \<longrightarrow> lx_pos lx' = lx_pos lx + 1) \<and>
      (src ! lx_pos lx \<noteq> 10 \<longrightarrow> at_line_start lx' = at_line_start lx))"
proof -
  have "lx_pos lx < length src" using assms length_cstr_terminated [of src] by simp
  moreover have "src ! lx_pos lx \<noteq> 0 \<Longrightarrow> lx_pos lx < length (cstr src)" using assms cstr_at [of src "lx_pos lx"] by simp
  ultimately show ?thesis using assms by (auto simp: lexer_advance_def moved_def)
qed

lemma skip_while_moved:
  assumes "terminated src"
  shows "lx_pos lx \<le> length (cstr src) \<Longrightarrow> returns (skip_while P src lx) (\<lambda>lx'. moved src lx lx' \<and>
      (src ! lx_pos lx \<noteq> 0 \<and> P (src ! lx_pos lx) \<longrightarrow> lx_pos lx < lx_pos lx') \<and>
      (\<not> P 10 \<longrightarrow> at_line_start lx' = at_line_start lx))"
  using assms
proof (induction P src lx rule: skip_while.induct)
  case (1 P src lx)
  let ?c = "src ! lx_pos lx"
  have c: "lexer_peek src lx 0 = Some ?c" using peek_in [of src lx 0] 1(2-) by simp
  show ?case
  proof (cases "?c \<noteq> 0 \<and> P ?c")
    case True
    have "returns (lexer_advance src lx \<bind> skip_while P src) (\<lambda>lx'. moved src lx lx' \<and>
      (?c \<noteq> 0 \<and> P ?c \<longrightarrow> lx_pos lx < lx_pos lx') \<and> (\<not> P 10 \<longrightarrow> at_line_start lx' = at_line_start lx))"
    proof (rule returns_bind [OF advance_moved [OF 1(3,2)]])
      fix y assume a: "lexer_advance src lx = Some y" and y: "moved src lx y \<and> (?c \<noteq> 0 \<longrightarrow> lx_pos y = lx_pos lx + 1) \<and>
          (?c \<noteq> 10 \<longrightarrow> at_line_start y = at_line_start lx)"
      then have "lx_pos y \<le> length (cstr src)" by (simp add: moved_def)
      from 1(1) [OF c True a this 1(3)] show "returns (skip_while P src y) (\<lambda>lx'. moved src lx lx' \<and>
          (?c \<noteq> 0 \<and> P ?c \<longrightarrow> lx_pos lx < lx_pos lx') \<and> (\<not> P 10 \<longrightarrow> at_line_start lx' = at_line_start lx))"
        by (rule returns_mono) (use y True in \<open>auto simp: moved_def\<close>)
    qed
    with c True show ?thesis by (simp add: skip_while.simps [of P src lx])
  next
    case False
    then show ?thesis using 1(2) c by (auto simp: skip_while.simps [of P src lx] moved_refl)
  qed
qed

lemma take_while_moved:
  assumes "terminated src"
  shows "lx_pos lx \<le> length (cstr src) \<Longrightarrow> length s < LEX_TOKEN_TEXT \<Longrightarrow>
    returns (take_while P src lx s) (\<lambda>(s', lx'). moved src lx lx' \<and> length s' < LEX_TOKEN_TEXT \<and>
      (lx_pos lx' = lx_pos lx \<longrightarrow> lx' = lx \<and> s' = s) \<and>
      (src ! lx_pos lx \<noteq> 0 \<and> P (src ! lx_pos lx) \<and> s = [] \<longrightarrow> lx_pos lx < lx_pos lx'))"
  using assms
proof (induction P src lx s rule: take_while.induct)
  case (1 P src lx s)
  let ?c = "src ! lx_pos lx"
  let ?Q = "\<lambda>(s', lx'). moved src lx lx' \<and> length s' < LEX_TOKEN_TEXT \<and> (lx_pos lx' = lx_pos lx \<longrightarrow> lx' = lx \<and> s' = s) \<and>
      (?c \<noteq> 0 \<and> P ?c \<and> s = [] \<longrightarrow> lx_pos lx < lx_pos lx')"
  have c: "lexer_peek src lx 0 = Some ?c" using peek_in [of src lx 0] 1(2-) by simp
  show ?case
  proof (cases "(?c \<noteq> 0 \<and> P ?c) \<and> \<not> LEX_TOKEN_TEXT \<le> length s + 1")
    case True
    then have t: "?c \<noteq> 0 \<and> P ?c" "\<not> LEX_TOKEN_TEXT \<le> length s + 1" by auto
    have "returns (lexer_advance src lx \<bind> (\<lambda>lx. take_while P src lx (s @ [?c]))) ?Q"
    proof (rule returns_bind [OF advance_moved [OF 1(4,2)]])
      fix y assume a: "lexer_advance src lx = Some y" and y: "moved src lx y \<and> (?c \<noteq> 0 \<longrightarrow> lx_pos y = lx_pos lx + 1) \<and>
          (?c \<noteq> 10 \<longrightarrow> at_line_start y = at_line_start lx)"
      then have "lx_pos y \<le> length (cstr src)" "length (s @ [?c]) < LEX_TOKEN_TEXT" using t by (auto simp: moved_def)
      from 1(1) [OF c t a this 1(4)] show "returns (take_while P src y (s @ [?c])) ?Q"
        by (rule returns_mono) (use y t in \<open>auto simp: moved_def split: prod.splits\<close>)
    qed
    with c t show ?thesis by (simp add: take_while.simps [of P src lx])
  next
    case False
    then show ?thesis using 1(2,3) c by (auto simp: take_while.simps [of P src lx] moved_refl LEX_TOKEN_TEXT_def)
  qed
qed

lemma take_char_moved:
  assumes "terminated src" "lx_pos lx \<le> length (cstr src)" "length s < LEX_TOKEN_TEXT"
  shows "returns (take_char src lx s c) (\<lambda>(s', lx'). moved src lx lx' \<and> length s' < LEX_TOKEN_TEXT)"
  using advance_moved [OF assms(1,2)] assms(2,3)
  by (auto simp: take_char_def returns_map moved_refl intro: returns_mono)

lemma skip_indent_moved:
  assumes "terminated src"
  shows "lx_pos lx \<le> length (cstr src) \<Longrightarrow>
    returns (skip_indent src lx k) (\<lambda>(k', lx'). moved src lx lx' \<and> (k' \<noteq> k \<longrightarrow> lx_pos lx < lx_pos lx'))"
  using assms
proof (induction src lx k rule: skip_indent.induct)
  case (1 src lx k)
  let ?c = "src ! lx_pos lx"
  let ?Q = "\<lambda>(k', lx'). moved src lx lx' \<and> (k' \<noteq> k \<longrightarrow> lx_pos lx < lx_pos lx')"
  have c: "lexer_peek src lx 0 = Some ?c" using peek_in [of src lx 0] 1(2-) by simp
  show ?case
  proof (cases "?c = 32 \<or> ?c = 9")
    case True
    have "returns (lexer_advance src lx \<bind> (\<lambda>lx. skip_indent src lx (k + (if ?c = 9 then 4 else 1)))) ?Q"
    proof (rule returns_bind [OF advance_moved [OF 1(3,2)]])
      fix y assume a: "lexer_advance src lx = Some y" and y: "moved src lx y \<and> (?c \<noteq> 0 \<longrightarrow> lx_pos y = lx_pos lx + 1) \<and>
          (?c \<noteq> 10 \<longrightarrow> at_line_start y = at_line_start lx)"
      then have "lx_pos y \<le> length (cstr src)" by (simp add: moved_def)
      from 1(1) [OF c True a this 1(3)] show "returns (skip_indent src y (k + (if ?c = 9 then 4 else 1))) ?Q"
        by (rule returns_mono) (use y True in \<open>auto simp: moved_def split: prod.splits\<close>)
    qed
    with c True show ?thesis by (simp add: skip_indent.simps [of src lx])
  next
    case False
    then show ?thesis using 1(2) c by (auto simp: skip_indent.simps [of src lx] moved_refl)
  qed
qed

lemma quoted_loop_moved:
  assumes "terminated src"
  shows "lx_pos lx \<le> length (cstr src) \<Longrightarrow> length s < LEX_TOKEN_TEXT \<Longrightarrow>
    returns (quoted_loop src q lx s) (\<lambda>(r, lx'). moved src lx lx' \<and> (\<forall>s'. r = Ptr s' \<longrightarrow> length s' < LEX_TOKEN_TEXT))"
  using assms
proof (induction src q lx s rule: quoted_loop.induct)
  case (1 src q lx s)
  let ?c = "src ! lx_pos lx"
  let ?Q = "\<lambda>(r, lx'). moved src lx lx' \<and> (\<forall>s'. r = Ptr s' \<longrightarrow> length s' < LEX_TOKEN_TEXT)"
  have c: "lexer_peek src lx 0 = Some ?c" using peek_in [of src lx 0] 1(3-) by simp
  show ?case
  proof (cases "?c = 0 \<or> ?c = q \<or> ?c = 10")
    case True
    then show ?thesis using 1(3,4) c by (auto simp: quoted_loop.simps [of src q lx] moved_refl)
  next
    case False
    then have f: "\<not> (?c = 0 \<or> ?c = q)" "?c \<noteq> 10" "?c \<noteq> 0" by auto
    define e where "e = (if ?c = 92 then src ! (lx_pos lx + 1) else 0)"
    have e: "(if ?c = 92 then lexer_peek src lx 1 else Some 0) = Some e"
      using peek_next [OF 1(5,3)] f by (simp add: e_def)
    have adv: "returns (lexer_advance src lx) (\<lambda>y. moved src lx y \<and> lx_pos y \<le> length (cstr src) \<and> lx_pos y = lx_pos lx + 1)"
      by (rule returns_mono [OF advance_moved [OF 1(5,3)]]) (use f in \<open>auto simp: moved_def\<close>)
    show ?thesis
    proof (cases "e \<noteq> 0")
      case True
      have "returns (lexer_advance src lx \<bind> (\<lambda>lx. lexer_advance src lx \<bind> (\<lambda>lx. quoted_loop src q lx (s @ [?c, e])))) ?Q"
        if room: "\<not> LEX_TOKEN_TEXT \<le> length s + 2"
      proof (rule returns_bind [OF adv], rule returns_bind, rule advance_moved [OF 1(5)])
        fix y z
        assume y: "lexer_advance src lx = Some y" "moved src lx y \<and> lx_pos y \<le> length (cstr src) \<and> lx_pos y = lx_pos lx + 1"
          and z: "lexer_advance src y = Some z" "moved src y z \<and> (src ! lx_pos y \<noteq> 0 \<longrightarrow> lx_pos z = lx_pos y + 1) \<and>
             (src ! lx_pos y \<noteq> 10 \<longrightarrow> at_line_start z = at_line_start y)"
        have "lx_pos z \<le> length (cstr src)" "length (s @ [?c, e]) < LEX_TOKEN_TEXT" using z room by (auto simp: moved_def)
        from 1(1) [OF c f(1,2) e True room y(1) z(1) this 1(5)] show "returns (quoted_loop src q z (s @ [?c, e])) ?Q"
          by (rule returns_mono) (use y z moved_trans in \<open>auto split: prod.splits\<close>)
      qed simp
      with True c e f 1(3) show ?thesis by (auto simp: quoted_loop.simps [of src q lx] moved_refl)
    next
      case e0: False
      have "returns (lexer_advance src lx \<bind> (\<lambda>lx. quoted_loop src q lx (s @ [?c]))) ?Q"
        if room: "\<not> LEX_TOKEN_TEXT \<le> length s + 1"
      proof (rule returns_bind [OF adv])
        fix y
        assume y: "lexer_advance src lx = Some y" "moved src lx y \<and> lx_pos y \<le> length (cstr src) \<and> lx_pos y = lx_pos lx + 1"
        have "lx_pos y \<le> length (cstr src)" "length (s @ [?c]) < LEX_TOKEN_TEXT" using y room by auto
        from 1(2) [OF c f(1,2) e e0 room y(1) this 1(5)] show "returns (quoted_loop src q y (s @ [?c])) ?Q"
          by (rule returns_mono) (use y moved_trans in \<open>auto split: prod.splits\<close>)
      qed
      with e0 c e f 1(3) show ?thesis by (auto simp: quoted_loop.simps [of src q lx] moved_refl)
    qed
  qed
qed

lemma read_quoted_moved:
  assumes src: "terminated src" and pos: "lx_pos lx \<le> length (cstr src)" and c: "src ! lx_pos lx \<noteq> 0"
  shows "returns (lexer_read_quoted src lx q) (\<lambda>(r, lx'). moved src lx lx' \<and> lx_pos lx < lx_pos lx' \<and>
      (\<forall>s'. r = Ptr s' \<longrightarrow> length s' < LEX_TOKEN_TEXT))"
  unfolding lexer_read_quoted_def
proof (rule returns_bind [OF advance_moved [OF src pos]], rule returns_bind, rule quoted_loop_moved [OF src])
  fix y z
  assume y: "moved src lx y \<and> (src ! lx_pos lx \<noteq> 0 \<longrightarrow> lx_pos y = lx_pos lx + 1) \<and>
      (src ! lx_pos lx \<noteq> 10 \<longrightarrow> at_line_start y = at_line_start lx)"
  then show "lx_pos y \<le> length (cstr src)" by (simp add: moved_def)
  assume z: "case z of (r, lx') \<Rightarrow> moved src y lx' \<and> (\<forall>s'. r = Ptr s' \<longrightarrow> length s' < LEX_TOKEN_TEXT)"
  obtain r lx' where rz: "z = (r, lx')" by fastforce
  have m: "moved src lx lx'" "lx_pos lx < lx_pos lx'" "lx_pos lx' \<le> length (cstr src)"
    using y z c by (auto simp: rz moved_def)
  show "returns (case z of (s, lx) \<Rightarrow> case s of NULL \<Rightarrow> Some (NULL, lx)
      | Ptr s \<Rightarrow> lexer_peek src lx 0 \<bind> (\<lambda>c. if c \<noteq> q then Some (NULL, lx)
          else lexer_advance src lx \<bind> (\<lambda>lx. Some (Ptr s, lx))))
    (\<lambda>(r, lx'). moved src lx lx' \<and> lx_pos lx < lx_pos lx' \<and> (\<forall>s'. r = Ptr s' \<longrightarrow> length s' < LEX_TOKEN_TEXT))"
  proof (cases r)
    case NULL
    then show ?thesis using m by (simp add: rz)
  next
    case (Ptr s)
    have "returns (lexer_advance src lx') (\<lambda>a. moved src lx a \<and> lx_pos lx < lx_pos a)"
      by (rule returns_mono [OF advance_moved [OF src m(3)]]) (use m moved_trans in \<open>fastforce simp: moved_def\<close>)
    then show ?thesis using m z peek_in [of src lx' 0] src by (auto simp: rz Ptr returns_iff)
  qed
qed (simp add: LEX_TOKEN_TEXT_def)

lemma length_token_text: "length (ttext (lexer_make_token ty s line col)) < LEX_TOKEN_TEXT"
  by (simp add: lexer_make_token_def LEX_TOKEN_TEXT_def)

text \<open>
  A number that begins with its point is not scanned: the loop over the digits stops at the point,
  and the point is only accepted after digits.
\<close>

lemma lexer_number_point:
  assumes "terminated src" "lx_pos lx \<le> length (cstr src)" "src ! lx_pos lx = 46"
  shows "lexer_number src 46 lx = Some (Emit (lexer_make_token TOK_FLOAT [] (lx_line lx) (lx_col lx)) lx)"
proof -
  have "lexer_peek src lx 0 = Some 46" using peek_in [of src lx 0] assms by simp
  then show ?thesis by (simp add: lexer_number_def take_while.simps [of is_digit src lx] is_digit_def)
qed

lemma lexer_number_moved:
  assumes src: "terminated src" and pos: "lx_pos lx \<le> length (cstr src)" and c: "is_digit (src ! lx_pos lx)"
  shows "returns (lexer_number src (src ! lx_pos lx) lx) (\<lambda>r. \<exists>t lx'. r = Emit t lx' \<and> moved src lx lx' \<and>
      lx_pos lx < lx_pos lx' \<and> ttype t \<in> {TOK_FLOAT, TOK_INTEGER} \<and> length (ttext t) < LEX_TOKEN_TEXT)"
proof -
  let ?A = "\<lambda>s lx'. moved src lx lx' \<and> lx_pos lx < lx_pos lx' \<and> length s < LEX_TOKEN_TEXT"
  have c0: "src ! lx_pos lx \<noteq> 0" "src ! lx_pos lx \<noteq> 46" using c by (auto simp: is_digit_def)
  have kind: "((if b then TOK_FLOAT else TOK_INTEGER) = TOK_FLOAT) = b"
    "((if b then TOK_FLOAT else TOK_INTEGER) = TOK_INTEGER) = (\<not> b)" for b by simp_all
  have digits: "returns (take_while is_digit src x s) (\<lambda>(s', x'). ?A s' x')" if "?A s x" for s x
    by (rule returns_mono [OF take_while_moved [OF src]]) (use that moved_trans in \<open>auto simp: moved_def\<close>)
  have char: "returns (take_char src x s d) (\<lambda>(s', x'). ?A s' x')" if "?A s x" for s x d
    by (rule returns_mono [OF take_char_moved [OF src]]) (use that moved_trans in \<open>auto simp: moved_def\<close>)
  have peek: "lexer_peek src x 0 = Some (src ! lx_pos x)" if "?A s x" for s x
    using that peek_in [of src x 0] src by (simp add: moved_def)
  have first: "returns (take_while is_digit src lx []) (\<lambda>(s', x'). ?A s' x')"
    by (rule returns_mono [OF take_while_moved [OF src pos]]) (use c c0 in \<open>auto simp: LEX_TOKEN_TEXT_def\<close>)
  have point: "returns (if d = 46 \<and> \<not> f then do {
          (s, x) \<leftarrow> take_char src x s 46;
          (s, x) \<leftarrow> take_while is_digit src x s;
          Some (True, s, x)}
        else Some (f, s, x)) (\<lambda>(f, s', x'). ?A s' x')" if a: "?A s x" for f s x d
    by (auto intro!: returns_bind [OF char [OF a]] returns_bind [OF digits] simp: a)
  have expo: "returns (if d = 101 \<or> d = 69 then do {
          (s, x) \<leftarrow> take_char src x s d;
          g \<leftarrow> lexer_peek src x 0;
          (s, x) \<leftarrow> (if g = 43 \<or> g = 45 then take_char src x s g else Some (s, x));
          (s, x) \<leftarrow> take_while is_digit src x s;
          Some (True, s, x)}
        else Some (f, s, x)) (\<lambda>(f, s', x'). ?A s' x')" if a: "?A s x" for f s x d
    by (auto intro!: returns_bind [OF char] returns_bind [OF digits] simp: a peek)
  show ?thesis unfolding lexer_number_def Let_def
    by (rule returns_bind [OF first])
      (auto intro!: returns_bind [OF point] returns_bind [OF expo] simp: peek kind lexer_make_token_def LEX_TOKEN_TEXT_def
        split del: if_split)
qed

lemma advance_by_moved:
  assumes src: "terminated src"
  shows "lx_pos lx \<le> length (cstr src) \<Longrightarrow> returns (advance_by k src lx) (\<lambda>lx'. moved src lx lx' \<and>
      (0 < k \<and> src ! lx_pos lx \<noteq> 0 \<longrightarrow> lx_pos lx < lx_pos lx'))"
proof (induction k arbitrary: lx)
  case (Suc k)
  have "returns (lexer_advance src lx \<bind> advance_by k src) (\<lambda>lx'. moved src lx lx' \<and>
      (0 < Suc k \<and> src ! lx_pos lx \<noteq> 0 \<longrightarrow> lx_pos lx < lx_pos lx'))"
  proof (rule returns_bind [OF advance_moved [OF src Suc.prems]])
    fix y assume y: "moved src lx y \<and> (src ! lx_pos lx \<noteq> 0 \<longrightarrow> lx_pos y = lx_pos lx + 1) \<and>
        (src ! lx_pos lx \<noteq> 10 \<longrightarrow> at_line_start y = at_line_start lx)"
    then have "lx_pos y \<le> length (cstr src)" by (simp add: moved_def)
    from Suc.IH [OF this] show "returns (advance_by k src y) (\<lambda>lx'. moved src lx lx' \<and>
        (0 < Suc k \<and> src ! lx_pos lx \<noteq> 0 \<longrightarrow> lx_pos lx < lx_pos lx'))"
      by (rule returns_mono) (use y in \<open>auto simp: moved_def\<close>)
  qed
  then show ?case by simp
qed (simp add: moved_refl)

lemma operator_text_nonempty: "0 < length (operator_text c n third)"
  by (simp add: operator_text_def)

lemma lexer_operator_moved:
  assumes src: "terminated src" "length (cstr src) + 1 < length src"
    and pos: "lx_pos lx \<le> length (cstr src)" and c: "src ! lx_pos lx \<noteq> 0"
  shows "returns (lexer_operator src c' lx) (\<lambda>r. \<exists>t lx'. r = Emit t lx' \<and> moved src lx lx' \<and>
      lx_pos lx < lx_pos lx' \<and> ttype t \<in> {TOK_DELIMITER, TOK_OPERATOR} \<and> length (ttext t) < LEX_TOKEN_TEXT)"
proof -
  have "lx_pos lx < length (cstr src)" and n: "lexer_peek src lx 1 = Some (src ! (lx_pos lx + 1))"
    using peek_next [OF src(1) pos c] by auto
  then have third: "lexer_peek src lx 2 = Some (src ! (lx_pos lx + 2))" using src(2) by (simp add: lexer_peek_def)
  show ?thesis unfolding lexer_operator_def Let_def n third bind.bind_lunit
    by (rule returns_bind [OF advance_by_moved [OF src(1) pos]])
      (use c operator_text_nonempty in \<open>simp add: lexer_make_token_def LEX_TOKEN_TEXT_def\<close>)
qed

section \<open>What a step emits\<close>

text \<open>
  The depth of a state is the number of blocks open in the tokens so far.  A call either consumes
  characters or closes a block, and reports INDENT and DEDENT exactly when the depth changes; the
  end, an error, and the empty number are the only tokens that come for nothing.
\<close>

definition depth :: "lexer \<Rightarrow> nat" where
  "depth lx = indent_top lx + pending_dedents lx"

definition lex_work :: "u8 list \<Rightarrow> lexer \<Rightarrow> nat" where
  "lex_work src lx = 2 * (length (cstr src) - lx_pos lx) + depth lx"

definition ends :: "token \<Rightarrow> bool" where
  "ends t \<longleftrightarrow> ttype t = TOK_EOF \<or> ttype t = TOK_ERROR"

definition depth_change :: "token \<Rightarrow> int" where
  "depth_change t = (if ttype t = TOK_INDENT then 1 else if ttype t = TOK_DEDENT then - 1 else 0)"

definition stuck :: "u8 list \<Rightarrow> token \<Rightarrow> lexer \<Rightarrow> bool" where
  "stuck src t lx \<longleftrightarrow> ttype t = TOK_FLOAT \<and> ttext t = [] \<and> lexer_step src lx = Some (Emit t lx)"

definition emits :: "u8 list \<Rightarrow> lexer \<Rightarrow> token \<Rightarrow> lexer \<Rightarrow> bool" where
  "emits src lx t lx' \<longleftrightarrow> lex_ok src lx' \<and> lx_pos lx \<le> lx_pos lx' \<and> length (ttext t) < LEX_TOKEN_TEXT \<and>
     int (depth lx') = int (depth lx) + depth_change t \<and> (ttype t = TOK_EOF \<longrightarrow> depth lx' = 0) \<and>
     (ends t \<or> lex_work src lx' < lex_work src lx \<or> stuck src t lx')"

lemma moved_work: "moved src lx lx' \<Longrightarrow> lex_work src lx' \<le> lex_work src lx"
  by (auto simp: moved_def lex_work_def depth_def)

lemma moved_depth: "moved src lx lx' \<Longrightarrow> depth lx' = depth lx"
  by (simp add: moved_def depth_def)

lemma moved_pos: "moved src lx lx' \<Longrightarrow> lx_pos lx \<le> lx_pos lx'"
  by (simp add: moved_def)

lemma moved_emits:
  assumes "lex_ok src lx" "moved src lx lx'" "lx_pos lx < lx_pos lx'" "length (ttext t) < LEX_TOKEN_TEXT"
    and "ttype t \<notin> {TOK_INDENT, TOK_DEDENT, TOK_EOF}"
  shows "emits src lx t lx'"
proof -
  have "lx_pos lx' \<le> length (cstr src)" using assms(2) by (simp add: moved_def)
  then have "lex_work src lx' < lex_work src lx" using assms(3) moved_depth [OF assms(2)] by (simp add: lex_work_def)
  then show ?thesis using assms by (auto simp: emits_def moved_ok moved_depth moved_pos depth_change_def)
qed

lemma emits_after: "moved src lx lx' \<Longrightarrow> emits src lx' t lx'' \<Longrightarrow> emits src lx t lx''"
  using moved_work [of src lx lx'] moved_pos [of src lx lx'] by (auto simp: emits_def moved_depth)

lemma pop_indents_ok:
  "lex_ok src lx \<Longrightarrow> returns (pop_indents indent lx) (\<lambda>lx'. lex_ok src lx' \<and> lx_pos lx' = lx_pos lx \<and>
      depth lx' = depth lx \<and> pending_dedents lx \<le> pending_dedents lx' \<and>
      (indent < indent_stack lx ! indent_top lx \<longrightarrow> pending_dedents lx < pending_dedents lx'))"
proof (induction indent lx rule: pop_indents.induct)
  case (1 indent lx)
  let ?t = "indent_stack lx ! indent_top lx"
  let ?lx = "lx \<lparr>indent_top := indent_top lx - 1, pending_dedents := pending_dedents lx + 1\<rparr>"
  have t: "rd (indent_stack lx) (indent_top lx) = Some ?t" using 1(2) by (simp add: lex_ok_def)
  show ?case
  proof (cases "0 < indent_top lx \<and> indent < ?t")
    case True
    then have c: "0 < indent_top lx" "indent < ?t" by auto
    have ok: "lex_ok src ?lx" using c 1(2) by (auto simp: lex_ok_def)
    have "returns (pop_indents indent ?lx) (\<lambda>lx'. lex_ok src lx' \<and> lx_pos lx' = lx_pos lx \<and>
        depth lx' = depth lx \<and> pending_dedents lx \<le> pending_dedents lx' \<and>
        (indent < ?t \<longrightarrow> pending_dedents lx < pending_dedents lx'))"
      by (rule returns_mono [OF 1(1) [OF c(1) t c(2) ok]]) (use c in \<open>auto simp: depth_def\<close>)
    with c t show ?thesis by (simp add: pop_indents.simps [of indent lx])
  next
    case False
    then show ?thesis using 1(2) t by (auto simp: pop_indents.simps [of indent lx] lex_ok_def)
  qed
qed

text \<open>What the beginning of a line can do.\<close>

definition start_spec :: "u8 list \<Rightarrow> lexer \<Rightarrow> lex_step \<Rightarrow> bool" where
  "start_spec src lx r = (case r of Again lx' \<Rightarrow> moved src lx lx' \<and> lx_pos lx < lx_pos lx'
      | Emit t lx' \<Rightarrow> emits src lx t lx' | Continue lx' \<Rightarrow> moved src lx lx' \<and> \<not> at_line_start lx')"

lemma error_emits: "lex_ok src lx' \<Longrightarrow> depth lx' = depth lx \<Longrightarrow> lx_pos lx \<le> lx_pos lx' \<Longrightarrow> emits src lx (lexer_make_token TOK_ERROR e l k) lx'"
  using length_token_text by (auto simp: emits_def depth_change_def ends_def lexer_make_token_def)

lemma open_block_ok:
  assumes ok: "lex_ok src lx0" and m: "moved src lx lx0" and i: "lx_pos lx < lx_pos lx0"
  shows "returns (open_block indent lx0) (start_spec src lx)"
proof -
  let ?lx = "lx0 \<lparr>indent_stack := (indent_stack lx0)[indent_top lx0 + 1 := indent], indent_top := indent_top lx0 + 1, at_line_start := False\<rparr>"
  have "lx_pos lx0 \<le> length (cstr src)" using ok by (simp add: lex_ok_def)
  then have "lex_work src ?lx < lex_work src lx" using i moved_depth [OF m] by (simp add: lex_work_def depth_def)
  then have "emits src lx (lexer_make_token TOK_INDENT [] l k) ?lx" if "indent_top lx0 + 1 < MAX_INDENTS" for l k
    using that ok moved_depth [OF m] i
    by (auto simp: emits_def depth_change_def lexer_make_token_def lex_ok_def depth_def LEX_TOKEN_TEXT_def)
  then show ?thesis using error_emits [OF ok moved_depth [OF m] moved_pos [OF m]] ok
    by (auto simp: open_block_def start_spec_def lex_ok_def)
qed

lemma close_blocks_ok:
  assumes ok: "lex_ok src lx0" and m: "moved src lx lx0" and i: "indent < indent_stack lx0 ! indent_top lx0"
  shows "returns (close_blocks indent lx0) (start_spec src lx)"
  unfolding close_blocks_def
proof (rule returns_bind [OF pop_indents_ok [OF ok, of indent]])
  fix y
  assume y: "lex_ok src y \<and> lx_pos y = lx_pos lx0 \<and> depth y = depth lx0 \<and> pending_dedents lx0 \<le> pending_dedents y \<and>
      (indent < indent_stack lx0 ! indent_top lx0 \<longrightarrow> pending_dedents lx0 < pending_dedents y)"
  then have t: "rd (indent_stack y) (indent_top y) = Some (indent_stack y ! indent_top y)" by (simp add: lex_ok_def)
  have e: "emits src lx (lexer_make_token TOK_ERROR e l k) y" for e l k
    using error_emits [of src y lx] y moved_depth [OF m] moved_pos [OF m] by simp
  have d: "emits src lx (lexer_make_token TOK_DEDENT [] l k)
      (y \<lparr>at_line_start := False, pending_dedents := pending_dedents y - 1\<rparr>)" for l k
    using y i moved_pos [OF m] moved_depth [OF m] moved_work [OF m]
    by (auto simp: emits_def depth_change_def lexer_make_token_def lex_ok_def lex_work_def depth_def LEX_TOKEN_TEXT_def)
  show "returns (rd (indent_stack y) (indent_top y) \<bind> (\<lambda>t.
      if indent \<noteq> t then Some (Emit (lexer_make_token TOK_ERROR (ascii ''<invalid-indent>'') (lx_line y) (lx_col y)) y)
      else if 0 < pending_dedents y
      then Some (Emit (lexer_make_token TOK_DEDENT [] (lx_line y) 1)
        (y \<lparr>at_line_start := False, pending_dedents := pending_dedents y - 1\<rparr>))
      else Some (Continue (y \<lparr>at_line_start := False\<rparr>)))) (start_spec src lx)"
    using y i e d by (auto simp: t start_spec_def)
qed

lemma line_start_ok:
  assumes src: "terminated src" and ok: "lex_ok src lx"
  shows "returns (line_start src lx) (start_spec src lx)"
proof (cases "at_line_start lx")
  case False
  then show ?thesis using ok by (simp add: line_start_def lex_ok_def moved_refl start_spec_def)
next
  case True
  have pos: "lx_pos lx \<le> length (cstr src)" using ok by (simp add: lex_ok_def)
  obtain indent lx0 where s: "skip_indent src lx 0 = Some (indent, lx0)" and m: "moved src lx lx0"
    and i: "indent \<noteq> 0 \<Longrightarrow> lx_pos lx < lx_pos lx0"
    using skip_indent_moved [OF src pos, of 0] by (auto simp: returns_iff)
  have ok0: "lex_ok src lx0" using moved_ok m ok by blast
  then have pos0: "lx_pos lx0 \<le> length (cstr src)"
    and t: "rd (indent_stack lx0) (indent_top lx0) = Some (indent_stack lx0 ! indent_top lx0)"
    by (auto simp: lex_ok_def)
  let ?c = "src ! lx_pos lx0"
  have c: "lexer_peek src lx0 0 = Some ?c" using peek_in [of src lx0 0] src pos0 by simp
  have comment: "returns (skip_while (\<lambda>c. c \<noteq> 10) src lx0 \<bind> (\<lambda>lx. Some (Again lx))) (start_spec src lx)"
    if "?c = 35"
    by (rule returns_bind [OF skip_while_moved [OF src pos0]])
      (use m that in \<open>auto simp: moved_def start_spec_def\<close>)
  have newline: "returns (lexer_advance src lx0 \<bind> (\<lambda>lx'.
      Some (Emit (lexer_make_token TOK_NEWLINE [92, 110] (lx_line lx0) (lx_col lx0)) lx'))) (start_spec src lx)"
    if "?c = 10"
  proof (rule returns_bind [OF advance_moved [OF src pos0]])
    fix y assume "moved src lx0 y \<and> (?c \<noteq> 0 \<longrightarrow> lx_pos y = lx_pos lx0 + 1) \<and> (?c \<noteq> 10 \<longrightarrow> at_line_start y = at_line_start lx0)"
    then have "moved src lx y" "lx_pos lx < lx_pos y" using m that by (auto simp: moved_def)
    then show "returns (Some (Emit (lexer_make_token TOK_NEWLINE [92, 110] (lx_line lx0) (lx_col lx0)) y)) (start_spec src lx)"
      using moved_emits [OF ok _ _ length_token_text] by (simp add: lexer_make_token_def start_spec_def)
  qed
  show ?thesis unfolding line_start_def
    using True comment newline open_block_ok [OF ok0 m i, of indent] close_blocks_ok [OF ok0 m, of indent] m
    by (simp add: s c t) (auto simp: start_spec_def moved_def)
qed

lemma digit_not_start: "is_digit c \<Longrightarrow> \<not> lexer_is_identifier_start c"
  by (auto simp: is_digit_def lexer_is_identifier_start_def is_alpha_def word_le_nat_alt)

definition step_spec :: "u8 list \<Rightarrow> lexer \<Rightarrow> lex_step \<Rightarrow> bool" where
  "step_spec src lx r = (case r of Again lx' \<Rightarrow> moved src lx lx' \<and> lx_pos lx < lx_pos lx'
      | Emit t lx' \<Rightarrow> emits src lx t lx' | Continue lx' \<Rightarrow> False)"

lemma lexer_token_stays:
  assumes "terminated src" "lx_pos lx \<le> length (cstr src)" "src ! lx_pos lx = 46" "is_digit (src ! (lx_pos lx + 1))"
    and "pending_dedents lx = 0" "\<not> at_line_start lx"
  shows "lexer_step src lx = Some (Emit (lexer_make_token TOK_FLOAT [] (lx_line lx) (lx_col lx)) lx)"
proof -
  have p: "lexer_peek src lx 0 = Some 46" using peek_in [of src lx 0] assms by simp
  have q: "lexer_peek src lx (Suc 0) = Some (src ! (lx_pos lx + 1))" using peek_next [of src lx] assms by simp
  have "skip_while (\<lambda>c. c = 32 \<or> c = 9 \<or> c = 13) src lx = Some lx"
    by (simp add: skip_while.simps [of _ src lx] p)
  then show ?thesis using assms
    by (simp add: lexer_step_def line_start_def lexer_token_def Let_def p q lexer_number_point
        lexer_is_identifier_start_def is_alpha_def)
qed

lemma lexer_token_ok:
  assumes src: "terminated src" "length (cstr src) + 1 < length src" and ok: "lex_ok src lx"
    and p: "pending_dedents lx = 0" and l: "\<not> at_line_start lx"
  shows "returns (lexer_token src lx) (step_spec src lx)"
proof -
  have "lx_pos lx \<le> length (cstr src)" using ok by (simp add: lex_ok_def)
  from skip_while_moved [OF src(1) this, of "\<lambda>c. c = 32 \<or> c = 9 \<or> c = 13"]
  obtain x where s: "skip_while (\<lambda>c. c = 32 \<or> c = 9 \<or> c = 13) src lx = Some x"
    and m: "moved src lx x" and lx: "\<not> at_line_start x" using l by (auto simp: returns_iff)
  have okx: "lex_ok src x" using moved_ok m ok by blast
  then have pos: "lx_pos x \<le> length (cstr src)" by (simp add: lex_ok_def)
  have px: "pending_dedents x = 0" using m p by (simp add: moved_def)
  let ?c = "src ! lx_pos x"
  have c: "lexer_peek src x 0 = Some ?c" using peek_in [of src x 0] src pos by simp
  have after: "emits src lx t y" if "emits src x t y" for t y using emits_after m that by blast
  consider "?c = 0" | "?c = 35" | "?c = 10" | "lexer_is_identifier_start ?c" | "is_digit ?c"
    | "?c = 46" "is_digit (src ! (lx_pos x + 1))" | "?c = 39 \<or> ?c = 34"
    | "?c \<notin> {0, 35, 10, 39, 34}" "\<not> lexer_is_identifier_start ?c" "\<not> is_digit ?c"
        "\<not> (?c = 46 \<and> is_digit (src ! (lx_pos x + 1)))" by fastforce
  then show ?thesis
  proof cases
    case 1
    have "emits src x (lexer_make_token TOK_DEDENT [] (lx_line x) (lx_col x)) (x \<lparr>indent_top := indent_top x - 1\<rparr>)"
      if "0 < indent_top x"
      using that okx by (auto simp: emits_def lexer_make_token_def lex_ok_def depth_def lex_work_def depth_change_def LEX_TOKEN_TEXT_def)
    moreover have "emits src x (lexer_make_token TOK_EOF [] (lx_line x) (lx_col x)) x" if "indent_top x = 0"
      using that okx px by (auto simp: emits_def ends_def lexer_make_token_def lex_ok_def depth_def depth_change_def LEX_TOKEN_TEXT_def)
    ultimately show ?thesis using after by (auto simp: lexer_token_def Let_def s c 1 step_spec_def)
  next
    case 2
    from skip_while_moved [OF src(1) pos, of "\<lambda>c. c \<noteq> 10"] show ?thesis using 2 m
      by (auto simp: lexer_token_def Let_def s c step_spec_def returns_iff moved_def)
  next
    case 3
    from advance_moved [OF src(1) pos] obtain y where y: "lexer_advance src x = Some y" "moved src x y" "lx_pos x < lx_pos y"
      using 3 by (auto simp: returns_iff)
    then have "emits src x t (y \<lparr>at_line_start := True\<rparr>)" if "ttype t = TOK_NEWLINE" "length (ttext t) < LEX_TOKEN_TEXT" for t
      by (intro moved_emits [OF okx]) (use that in \<open>auto simp: moved_def\<close>)
    then show ?thesis using after y 3
      by (simp add: lexer_token_def Let_def s c step_spec_def lexer_make_token_def LEX_TOKEN_TEXT_def)
  next
    case 4
    have f: "?c \<noteq> 0" "?c \<noteq> 35" "?c \<noteq> 10" "?c \<noteq> 46" "lexer_is_identifier_char ?c"
      using 4 by (auto simp: lexer_is_identifier_start_def lexer_is_identifier_char_def is_alpha_def)
    from take_while_moved [OF src(1) pos, of "[]" lexer_is_identifier_char] obtain w y
      where y: "take_while lexer_is_identifier_char src x [] = Some (w, y)" "moved src x y" "lx_pos x < lx_pos y"
      using f by (auto simp: returns_iff LEX_TOKEN_TEXT_def)
    then have "emits src x (lexer_make_token (if lexer_is_keyword w then TOK_KEYWORD else TOK_IDENTIFIER) w (lx_line x) (lx_col x)) y"
      by (intro moved_emits [OF okx] length_token_text) (simp_all add: lexer_make_token_def)
    then show ?thesis using after y 4 f by (simp add: lexer_token_def Let_def s c step_spec_def)
  next
    case 5
    then have f: "?c \<noteq> 0" "?c \<noteq> 35" "?c \<noteq> 10" "?c \<noteq> 46" "\<not> lexer_is_identifier_start ?c"
      using digit_not_start by (auto simp: is_digit_def)
    from lexer_number_moved [OF src(1) pos 5] have "returns (lexer_number src ?c x) (step_spec src lx)"
      by (rule returns_mono) (use okx in \<open>auto simp: step_spec_def intro!: after moved_emits\<close>)
    then show ?thesis using 5 f by (simp add: lexer_token_def Let_def s c)
  next
    case 6
    have st: "lexer_step src x = Some (Emit (lexer_make_token TOK_FLOAT [] (lx_line x) (lx_col x)) x)"
      by (rule lexer_token_stays) (use src pos 6 px lx in auto)
    have "emits src x (lexer_make_token TOK_FLOAT [] (lx_line x) (lx_col x)) x"
      using okx st by (simp add: emits_def stuck_def depth_change_def lexer_make_token_def LEX_TOKEN_TEXT_def)
    moreover have "lexer_peek src x (Suc 0) = Some (src ! (lx_pos x + 1))" using peek_next [OF src(1) pos] 6 by simp
    ultimately show ?thesis using after 6 src(1) pos
      by (simp add: lexer_token_def Let_def s c step_spec_def lexer_is_identifier_start_def is_alpha_def lexer_number_point)
  next
    case 7
    then have f: "?c \<noteq> 0" "?c \<noteq> 35" "?c \<noteq> 10" "?c \<noteq> 46" "\<not> lexer_is_identifier_start ?c" "\<not> is_digit ?c"
      by (auto simp: lexer_is_identifier_start_def is_digit_def is_alpha_def)
    from read_quoted_moved [OF src(1) pos f(1), of ?c] obtain r y where y: "lexer_read_quoted src x ?c = Some (r, y)"
      "moved src x y" "lx_pos x < lx_pos y" "\<And>w. r = Ptr w \<Longrightarrow> length w < LEX_TOKEN_TEXT"
      by (auto simp: returns_iff)
    then have "emits src x t y" if "ttype t \<in> {TOK_ERROR, TOK_STRING}" "length (ttext t) < LEX_TOKEN_TEXT" for t
      using that by (intro moved_emits [OF okx]) auto
    then show ?thesis using after y 7 f
      by (cases r) (auto simp: lexer_token_def Let_def s c step_spec_def lexer_make_token_def LEX_TOKEN_TEXT_def)
  next
    case 8
    then have c0: "?c \<noteq> 0" by simp
    have n: "lexer_peek src x (Suc 0) = Some (src ! (lx_pos x + 1))" using peek_next [OF src(1) pos c0] by simp
    from lexer_operator_moved [OF src pos c0] have "returns (lexer_operator src ?c x) (step_spec src lx)"
      by (rule returns_mono) (use okx in \<open>auto simp: step_spec_def intro!: after moved_emits\<close>)
    then show ?thesis using 8 n by (auto simp: lexer_token_def Let_def s c)
  qed
qed

lemma lexer_step_ok:
  assumes src: "terminated src" "length (cstr src) + 1 < length src" and ok: "lex_ok src lx"
  shows "returns (lexer_step src lx) (step_spec src lx)"
proof (cases "0 < pending_dedents lx")
  case True
  have "emits src lx (lexer_make_token TOK_DEDENT [] l k) (lx \<lparr>pending_dedents := pending_dedents lx - 1\<rparr>)" for l k
    using True ok by (auto simp: emits_def lexer_make_token_def lex_ok_def depth_def lex_work_def depth_change_def LEX_TOKEN_TEXT_def)
  with True show ?thesis by (simp add: lexer_step_def step_spec_def)
next
  case False
  obtain r where r: "line_start src lx = Some r" "start_spec src lx r"
    using line_start_ok [OF src(1) ok] by (auto simp: returns_iff)
  show ?thesis
  proof (cases r)
    case (Continue x)
    then have m: "moved src lx x" and l: "\<not> at_line_start x" using r(2) by (auto simp: start_spec_def)
    have "lex_ok src x" "pending_dedents x = 0" using moved_ok [OF m ok] m False by (auto simp: moved_def)
    from lexer_token_ok [OF src this l] have "returns (lexer_token src x) (step_spec src lx)"
      by (rule returns_mono) (use m emits_after moved_trans in \<open>auto simp: step_spec_def moved_def split: lex_step.splits\<close>)
    with False r(1) Continue show ?thesis by (simp add: lexer_step_def)
  qed (use False r in \<open>auto simp: lexer_step_def step_spec_def start_spec_def\<close>)
qed

lemma lexer_next_ok:
  assumes src: "terminated src" "length (cstr src) + 1 < length src"
  shows "lex_ok src lx \<Longrightarrow> \<exists>t lx'. lexer_next src lx = Some (t, lx') \<and> emits src lx t lx'"
proof (induction "length (cstr src) - lx_pos lx" arbitrary: lx rule: less_induct)
  case less
  obtain r where r: "lexer_step src lx = Some r" "step_spec src lx r"
    using lexer_step_ok [OF src less.prems] by (auto simp: returns_iff)
  show ?case
  proof (cases r)
    case (Again x)
    then have m: "moved src lx x" "lx_pos lx < lx_pos x" using r(2) by (auto simp: step_spec_def)
    then have "length (cstr src) - lx_pos x < length (cstr src) - lx_pos lx" by (auto simp: moved_def)
    from less.hyps [OF this moved_ok [OF m(1) less.prems]] obtain t lx' where
      "lexer_next src x = Some (t, lx')" "emits src x t lx'" by blast
    then show ?thesis using emits_after [OF m(1)] r(1) Again by (auto simp: lexer_next.simps [of src lx])
  qed (use r in \<open>auto simp: step_spec_def lexer_next.simps [of src lx]\<close>)
qed

section \<open>All the tokens\<close>

text \<open>\<open>lexes src lx ts lx'\<close>: the calls from \<open>lx\<close> give \<open>ts\<close>, none of which ends, and leave \<open>lx'\<close>.\<close>

inductive lexes :: "u8 list \<Rightarrow> lexer \<Rightarrow> token list \<Rightarrow> lexer \<Rightarrow> bool" where
  none: "lexes src lx [] lx"
| more: "lexer_next src lx = Some (t, lx') \<Longrightarrow> \<not> ends t \<Longrightarrow> lexes src lx' ts lx'' \<Longrightarrow> lexes src lx (t # ts) lx''"

inductive_cases lexes_NilE: "lexes src lx [] lx'"
inductive_cases lexes_ConsE: "lexes src lx (t # ts) lx'"

lemma lexer_dump_lexes:
  "lexes src lx ts lx' \<Longrightarrow> lexer_next src lx' = Some (t, lx'') \<Longrightarrow> ends t \<Longrightarrow> lexer_dump_loop src lx = Some (ts @ [t])"
proof (induction rule: lexes.induct)
  case (none src lx)
  then show ?case by (auto simp: lexer_dump_loop.simps [of src lx] ends_def)
next
  case (more src lx u lx1 ts lx2)
  then show ?case by (simp add: lexer_dump_loop.simps [of src lx] ends_def)
qed

lemma lexer_dump_returns_lexes:
  "lexer_dump_loop src lx = Some r \<Longrightarrow> \<exists>ts lx' t lx''. lexes src lx ts lx' \<and> lexer_next src lx' = Some (t, lx'') \<and> ends t"
proof (erule lexer_dump_loop.raw_induct [rotated])
  fix loop :: "u8 list \<Rightarrow> lexer \<Rightarrow> token list option" and src lx r
  assume IH: "\<And>src lx r. loop src lx = Some r \<Longrightarrow>
      \<exists>ts lx' t lx''. lexes src lx ts lx' \<and> lexer_next src lx' = Some (t, lx'') \<and> ends t"
    and r: "lexer_next src lx \<bind> (\<lambda>(t, lx). if ttype t = TOK_ERROR \<or> ttype t = TOK_EOF then Some [t]
        else loop src lx \<bind> (\<lambda>ts. Some (t # ts))) = Some r"
  then obtain t lx1 where t: "lexer_next src lx = Some (t, lx1)" by (cases "lexer_next src lx") auto
  show "\<exists>ts lx' t lx''. lexes src lx ts lx' \<and> lexer_next src lx' = Some (t, lx'') \<and> ends t"
  proof (cases "ends t")
    case True
    then show ?thesis using t lexes.none by blast
  next
    case False
    with r t obtain r' where "loop src lx1 = Some r'" by (auto simp: ends_def split: Option.bind_splits)
    from IH [OF this] show ?thesis using lexes.more [OF t False] by blast
  qed
qed

text \<open>In a state that answers with itself there is no end to reach.\<close>

lemma lexes_stays: "lexes src lx ts lx' \<Longrightarrow> lexer_next src lx = Some (t, lx) \<Longrightarrow> lx' = lx"
  by (induction rule: lexes.induct) auto

lemma lexes_trans: "lexes src lx ts lx' \<Longrightarrow> lexes src lx' us lx'' \<Longrightarrow> lexes src lx (ts @ us) lx''"
  by (induction rule: lexes.induct) (auto intro: lexes.more)

lemma lexer_next_ends: "lexer_next src lx = Some (t, lx') \<Longrightarrow> lexer_dump_loop src lx \<noteq> None \<Longrightarrow> \<not> ends t \<Longrightarrow>
    lexer_dump_loop src lx' \<noteq> None"
  by (auto simp: lexer_dump_loop.simps [of src lx] ends_def split: Option.bind_splits)

lemma lexes_returns: "lexes src lx ts lx' \<Longrightarrow> lexer_dump_loop src lx \<noteq> None \<Longrightarrow> lexer_dump_loop src lx' \<noteq> None"
  by (induction rule: lexes.induct) (auto dest: lexer_next_ends)

lemma lexer_dump_stuck:
  assumes "lexes src lx ts lx'" "lexer_next src lx' = Some (t, lx')" "ttype t = TOK_FLOAT"
  shows "lexer_dump_loop src lx = None"
proof (rule ccontr)
  assume "lexer_dump_loop src lx \<noteq> None"
  then obtain r where "lexer_dump_loop src lx' = Some r" using lexes_returns [OF assms(1)] by auto
  then obtain us lx2 u lx3 where "lexes src lx' us lx2" "lexer_next src lx2 = Some (u, lx3)" "ends u"
    using lexer_dump_returns_lexes by blast
  moreover from this have "lx2 = lx'" using lexes_stays assms(2) by blast
  ultimately show False using assms(2,3) by (simp add: ends_def)
qed

lemma stuck_next: "stuck src t lx \<Longrightarrow> lexer_next src lx = Some (t, lx)"
  by (simp add: stuck_def lexer_next.simps [of src lx])

lemma lexes_ok:
  "lexes src lx ts lx' \<Longrightarrow> terminated src \<Longrightarrow> length (cstr src) + 1 < length src \<Longrightarrow> lex_ok src lx \<Longrightarrow> lex_ok src lx' \<and>
    int (depth lx') = int (depth lx) + sum_list (map depth_change ts) \<and> (\<forall>t\<in>set ts. length (ttext t) < LEX_TOKEN_TEXT)"
proof (induction rule: lexes.induct)
  case (more src lx t lx1 ts lx2)
  then have "emits src lx t lx1" using lexer_next_ok [of src lx] by auto
  then show ?case using more.IH more.prems by (auto simp: emits_def)
qed auto

lemma lexes_take: "lexes src lx ts lx' \<Longrightarrow> \<exists>mid. lexes src lx (take k ts) mid"
proof (induction arbitrary: k rule: lexes.induct)
  case (more src lx t lx1 ts lx2)
  then show ?case by (cases k) (auto intro: lexes.none, metis lexes.more)
qed (auto intro: lexes.none)

lemma lexes_finish:
  assumes src: "terminated src" "length (cstr src) + 1 < length src"
  shows "lex_ok src lx \<Longrightarrow> (\<exists>ts lx' t lx''. lexes src lx ts lx' \<and> lexer_next src lx' = Some (t, lx'') \<and> ends t \<and>
       length ts \<le> lex_work src lx) \<or>
     (\<exists>ts lx' t. lexes src lx ts lx' \<and> stuck src t lx')"
proof (induction "lex_work src lx" arbitrary: lx rule: less_induct)
  case less
  obtain t lx1 where t: "lexer_next src lx = Some (t, lx1)" "emits src lx t lx1"
    using lexer_next_ok [OF src less.prems] by blast
  consider "ends t" | "\<not> ends t" "lex_work src lx1 < lex_work src lx" | "\<not> ends t" "stuck src t lx1"
    using t(2) by (auto simp: emits_def)
  then show ?case
  proof cases
    case 1
    then show ?thesis using t lexes.none by fastforce
  next
    case 2
    then have "lex_ok src lx1" using t(2) by (simp add: emits_def)
    from less.hyps [OF 2(2) this] show ?thesis
    proof (elim disjE exE conjE)
      fix ts lx' u lx''
      assume "lexes src lx1 ts lx'" "lexer_next src lx' = Some (u, lx'')" "ends u" "length ts \<le> lex_work src lx1"
      moreover have "length (t # ts) \<le> lex_work src lx" using 2(2) \<open>length ts \<le> lex_work src lx1\<close> by simp
      ultimately show ?thesis using lexes.more [OF t(1) 2(1)] by blast
    qed (use lexes.more [OF t(1) 2(1)] in blast)
  next
    case 3
    then show ?thesis using lexes.more [OF t(1) 3(1) lexes.none] by blast
  qed
qed

lemma lexer_init_ok: "length stack = MAX_INDENTS \<Longrightarrow> lex_ok src (lexer_init stack) \<and> depth (lexer_init stack) = 0 \<and>
    lex_work src (lexer_init stack) = 2 * length (cstr src)"
  by (simp add: lex_ok_def lexer_init_def depth_def lex_work_def MAX_INDENTS_def)

lemma lexes_balanced:
  assumes "terminated src" "length (cstr src) + 1 < length src" "lexes src lx ts lx'" "lex_ok src lx" "depth lx = 0"
  shows "0 \<le> sum_list (map depth_change (take k ts))"
proof -
  obtain mid where "lexes src lx (take k ts) mid" using lexes_take assms(3) by blast
  then show ?thesis using lexes_ok assms by fastforce
qed

section \<open>Properties\<close>

text \<open>
  C30: a source of the lexer, with a byte to spare after its terminator, is tokenised without a read
  outside it, and there are two cases.  Either \<open>lexer_dump\<close> returns after at most one token more
  than twice the length of the source, every token text fits its array, no prefix of the tokens
  closes more blocks than it opens, and when the end of the source is reached without an error all
  blocks are closed; or a number that begins with a point is met, and from there on the lexer
  returns an empty FLOAT token without consuming anything, so \<open>lexer_dump\<close> never returns.
\<close>

theorem lexer_dump_terminates_or_sticks:
  assumes "terminated src" "length (cstr src) + 1 < length src" "length stack = MAX_INDENTS"
  shows "(\<exists>ts. lexer_dump stack src = Some ts \<and> ts \<noteq> [] \<and> length ts \<le> 2 * length (cstr src) + 1 \<and> ends (last ts) \<and>
       (\<forall>t\<in>set ts. length (ttext t) < 128) \<and> (\<forall>k. 0 \<le> sum_list (map depth_change (take k ts))) \<and>
       (ttype (last ts) = TOK_EOF \<longrightarrow> sum_list (map depth_change ts) = 0)) \<or>
     (lexer_dump stack src = None \<and> (\<exists>ts lx t. lexes src (lexer_init stack) ts lx \<and>
       lexer_next src lx = Some (t, lx) \<and> ttype t = TOK_FLOAT \<and> ttext t = []))"
proof -
  let ?lx = "lexer_init stack"
  note init = lexer_init_ok [OF assms(3), of src]
  consider (return) ts lx' t lx'' where "lexes src ?lx ts lx'" "lexer_next src lx' = Some (t, lx'')" "ends t" "length ts \<le> lex_work src ?lx"
    | (hang) ts lx' t where "lexes src ?lx ts lx'" "stuck src t lx'"
    using lexes_finish [OF assms(1,2), of ?lx] init by blast
  then show ?thesis
  proof cases
    case return
    note run = return(1) and t = return(2,3) and n = return(4)
    have ok: "lex_ok src lx'" "int (depth lx') = sum_list (map depth_change ts)"
      "\<forall>t\<in>set ts. length (ttext t) < LEX_TOKEN_TEXT" using lexes_ok [OF run assms(1,2)] init by auto
    have e: "emits src lx' t lx''" using lexer_next_ok [OF assms(1,2) ok(1)] t by auto
    have d: "lexer_dump stack src = Some (ts @ [t])"
      unfolding lexer_dump_def by (rule lexer_dump_lexes [OF run t])
    have "0 \<le> sum_list (map depth_change (take k (ts @ [t])))" for k
      using lexes_balanced [OF assms(1,2) run, of k] init e ok(2) by (auto simp: take_Cons' emits_def)
    then show ?thesis using d n init ok e t
      by (auto simp: emits_def LEX_TOKEN_TEXT_def depth_change_def)
  next
    case hang
    note run = hang(1) and st = hang(2)
    then show ?thesis using lexer_dump_stuck [OF run stuck_next [OF st]] stuck_next [OF st]
      by (auto simp: lexer_dump_def stuck_def)
  qed
qed

lemma point_number_hangs: "lexer_dump (replicate MAX_INDENTS 0) [46, 53, 0, 0] = None"
proof -
  let ?s = "[46, 53, 0, 0] :: u8 list" and ?i = "lexer_init (replicate MAX_INDENTS 0)"
  let ?x = "?i \<lparr>at_line_start := False\<rparr>"
  let ?t = "lexer_make_token TOK_FLOAT [] 1 1"
  have stay: "lexer_step ?s ?x = Some (Emit ?t ?x)"
    using lexer_token_stays [of ?s ?x] by (simp add: lexer_init_def terminated_def cstr_def is_digit_def)
  have "lexer_step ?s ?i = lexer_step ?s ?x"
    by (simp add: lexer_step_def line_start_def lexer_init_def skip_indent.simps lexer_peek_def MAX_INDENTS_def)
  then have "lexer_next ?s ?i = Some (?t, ?x)" using stay by (simp add: lexer_next.simps [of ?s ?i])
  then have "lexes ?s ?i [?t] ?x"
    by (rule lexes.more [OF _ _ lexes.none]) (simp add: ends_def lexer_make_token_def)
  moreover have "lexer_next ?s ?x = Some (?t, ?x)" using stay by (simp add: lexer_next.simps [of ?s ?x])
  ultimately show ?thesis unfolding lexer_dump_def
    by (rule lexer_dump_stuck) (simp add: lexer_make_token_def)
qed

theorem lexer_dump_terminates_or_sticks_witness:
  "\<exists>ts lx t. lexes [46, 53, 0, 0] (lexer_init (replicate MAX_INDENTS 0)) ts lx \<and>
     lexer_next [46, 53, 0, 0] lx = Some (t, lx) \<and> ttype t = TOK_FLOAT \<and> ttext t = []"
  using lexer_dump_terminates_or_sticks [of "[46, 53, 0, 0]" "replicate MAX_INDENTS 0"] point_number_hangs
  by (simp add: terminated_def cstr_def)

text \<open>
  A buffer with nothing after the terminator, which is what \<open>read_source_file\<close> allocates, is left
  by the look at the third character when an operator is its last character.
\<close>

lemma operator_at_end_overreads:
  assumes "lx_pos lx + 2 = length src" "src ! lx_pos lx \<noteq> 0"
  shows "lexer_operator src c lx = None"
  using assms by (simp add: lexer_operator_def lexer_peek_def)

end
