(* ===== verification/Ptparse.thy ===== *)
theory Ptparse imports Ptlex begin

text \<open>
  The parser of the Pythont transpiler, \<open>src/pythont/pythont.c\<close>: a precedence climbing parser for
  expressions and a recursive descent over the statements.  A node of the array \<open>ast_nodes\<close> is
  used once and never changed after it has been linked, so a node is the tree below it; \<open>n\<close> is the
  count \<open>ast_node_count\<close>.  The \<open>next\<close> chain of a block or of the program is the list
  \<open>stmts\<close> of its statements.

  A function of the parser takes fuel, one unit per call, and has no value without it; the theorems
  of the last section show that there is always enough.
\<close>

section \<open>Nodes\<close>

datatype ast_kind = AST_NUMBER | AST_STRING | AST_IDENTIFIER | AST_UNARY | AST_BINARY | AST_CALL | AST_LIST
  | AST_TUPLE | AST_DICT | AST_INDEX | AST_SLICE | AST_MEMBER | AST_ASSIGN | AST_PROGRAM | AST_BLOCK
  | AST_EXPR_STMT | AST_IF | AST_WHILE | AST_FOR | AST_FUNCTION | AST_RETURN | AST_BREAK | AST_CONTINUE | AST_PASS

datatype ast_type = AST_TYPE_UNKNOWN | AST_TYPE_INT | AST_TYPE_FLOAT | AST_TYPE_STRING | AST_TYPE_BOOL
  | AST_TYPE_LIST | AST_TYPE_TUPLE | AST_TYPE_DICT | AST_TYPE_NONE

datatype ast_node = Ast (kind: ast_kind) (value_type: ast_type) (ntext: "u8 list")
  (nleft: "ast_node cptr") (nright: "ast_node cptr") (callee: "ast_node cptr")
  (body: "ast_node cptr") (else_body: "ast_node cptr") (args: "ast_node cptr list") (stmts: "ast_node list")

definition AST_MAX_NODES :: nat where "AST_MAX_NODES = 8192"
definition AST_MAX_ARGS :: nat where "AST_MAX_ARGS = 32"

record ast_parser =
  plexer :: lexer
  pcurrent :: token
  perror :: bool

type_synonym 'a parsed = "('a cptr \<times> ast_parser \<times> nat) option"

definition node :: "ast_kind \<Rightarrow> u8 list \<Rightarrow> ast_node" where
  "node k s = Ast k AST_TYPE_UNKNOWN (take (LEX_TOKEN_TEXT - 1) s) NULL NULL NULL NULL NULL [] []"

definition ast_new :: "ast_kind \<Rightarrow> u8 list \<Rightarrow> ast_parser \<Rightarrow> nat \<Rightarrow> ast_node parsed" where
  "ast_new k s p n =
     (if n \<ge> AST_MAX_NODES then Some (NULL, p, n) else Some (Ptr (node k s), p, n + 1))"

text \<open>\<open>if (!x) return NULL;\<close> and \<open>{ parser->error = 1; return NULL; }\<close>\<close>

definition on_node :: "'a parsed \<Rightarrow> ('a \<Rightarrow> ast_parser \<Rightarrow> nat \<Rightarrow> 'b parsed) \<Rightarrow> 'b parsed" where
  "on_node r f = (case r of None \<Rightarrow> None
     | Some (x, p, n) \<Rightarrow> (case x of NULL \<Rightarrow> Some (NULL, p, n) | Ptr a \<Rightarrow> f a p n))"

definition syntax_error :: "ast_parser \<Rightarrow> nat \<Rightarrow> 'a parsed" where
  "syntax_error p n = Some (NULL, p \<lparr>perror := True\<rparr>, n)"

section \<open>Looking at the current token\<close>

definition ast_next :: "u8 list \<Rightarrow> ast_parser \<Rightarrow> ast_parser option" where
  "ast_next src p = do {
     (t, lx) \<leftarrow> lexer_next src (plexer p);
     Some \<lparr>plexer = lx, pcurrent = t, perror = (perror p \<or> ttype t = TOK_ERROR)\<rparr>}"

definition ast_is_delimiter :: "ast_parser \<Rightarrow> string \<Rightarrow> bool" where
  "ast_is_delimiter p d \<longleftrightarrow> ttype (pcurrent p) = TOK_DELIMITER \<and> ttext (pcurrent p) = ascii d"

definition ast_is_keyword :: "ast_parser \<Rightarrow> string \<Rightarrow> bool" where
  "ast_is_keyword p w \<longleftrightarrow> ttype (pcurrent p) = TOK_KEYWORD \<and> ttext (pcurrent p) = ascii w"

definition ast_precedence :: "token \<Rightarrow> int" where
  "ast_precedence t =
     (if ttype t \<noteq> TOK_OPERATOR \<and> ttype t \<noteq> TOK_KEYWORD then - 1
      else if ttext t = ascii ''or'' then 1
      else if ttext t = ascii ''and'' then 2
      else if ttext t \<in> set (map ascii [''=='', ''!='', ''<'', ''<='', ''>'', ''>='', ''in'', ''is'']) then 3
      else if ttext t = ascii ''+'' \<or> ttext t = ascii ''-'' then 4
      else if ttext t \<in> set (map ascii [''*'', ''/'', ''//'', ''%'']) then 5
      else if ttext t = ascii ''**'' then 6
      else - 1)"

section \<open>Expressions\<close>

text \<open>
  The functions below call \<open>ast_parse_expression\<close> and are called by it.  They take it as the
  argument \<open>expr\<close>; \<open>ast_parse_expression\<close> hands itself to them, with one unit of fuel less.  The
  loops count their iterations with the same fuel.  \<open>items\<close> is the loop over the elements of a list
  and the arguments of a call, \<open>pairs\<close> that of a dictionary, \<open>tuple_items\<close> that of a tuple after
  its first element, \<open>subscript\<close> what follows the bracket of an index or a slice.
\<close>

type_synonym expr_parser = "ast_parser \<Rightarrow> nat \<Rightarrow> int \<Rightarrow> ast_node parsed"

fun items :: "u8 list \<Rightarrow> expr_parser \<Rightarrow> nat \<Rightarrow> string \<Rightarrow> ast_parser \<Rightarrow> nat \<Rightarrow> ast_node list \<Rightarrow> ast_node list parsed" where
  "items src expr 0 close p n xs = None"
| "items src expr (Suc f) close p n xs =
     (if perror p then Some (Ptr xs, p, n)
      else if length xs \<ge> AST_MAX_ARGS then syntax_error p n
      else on_node (expr p n 0) (\<lambda>x p n.
        if \<not> ast_is_delimiter p '','' then Some (Ptr (xs @ [x]), p, n)
        else do {
          p \<leftarrow> ast_next src p;
          if ast_is_delimiter p close then Some (Ptr (xs @ [x]), p, n)
          else items src expr f close p n (xs @ [x])}))"

fun pairs :: "u8 list \<Rightarrow> expr_parser \<Rightarrow> nat \<Rightarrow> ast_parser \<Rightarrow> nat \<Rightarrow> ast_node list \<Rightarrow> ast_node list parsed" where
  "pairs src expr 0 p n xs = None"
| "pairs src expr (Suc f) p n xs =
     (if perror p then Some (Ptr xs, p, n)
      else if length xs + 1 \<ge> AST_MAX_ARGS then syntax_error p n
      else do {
        (key, p, n) \<leftarrow> expr p n 0;
        (case key of NULL \<Rightarrow> syntax_error p n
         | Ptr k \<Rightarrow>
             if \<not> ast_is_delimiter p '':'' then syntax_error p n
             else do {
               p \<leftarrow> ast_next src p;
               on_node (expr p n 0) (\<lambda>v p n.
                 if \<not> ast_is_delimiter p '','' then Some (Ptr (xs @ [k, v]), p, n)
                 else do {
                   p \<leftarrow> ast_next src p;
                   if ast_is_delimiter p ''}'' then Some (Ptr (xs @ [k, v]), p, n)
                   else pairs src expr f p n (xs @ [k, v])})})})"

fun tuple_items :: "u8 list \<Rightarrow> expr_parser \<Rightarrow> nat \<Rightarrow> ast_parser \<Rightarrow> nat \<Rightarrow> ast_node list \<Rightarrow> ast_node list parsed" where
  "tuple_items src expr 0 p n xs = None"
| "tuple_items src expr (Suc f) p n xs =
     (if \<not> ast_is_delimiter p '','' then Some (Ptr xs, p, n)
      else do {
        p \<leftarrow> ast_next src p;
        if ast_is_delimiter p '')'' then Some (Ptr xs, p, n)
        else if length xs \<ge> AST_MAX_ARGS then syntax_error p n
        else on_node (expr p n 0) (\<lambda>x p n. tuple_items src expr f p n (xs @ [x]))})"

definition with_args :: "ast_node \<Rightarrow> ast_node cptr list \<Rightarrow> ast_node" where
  "with_args a xs = Ast (kind a) (value_type a) (ntext a) (nleft a) (nright a) (callee a) (body a) (else_body a) xs (stmts a)"

definition with_left :: "ast_node \<Rightarrow> ast_node cptr \<Rightarrow> ast_node" where
  "with_left a l = Ast (kind a) (value_type a) (ntext a) l (nright a) (callee a) (body a) (else_body a) (args a) (stmts a)"

definition with_right :: "ast_node \<Rightarrow> ast_node cptr \<Rightarrow> ast_node" where
  "with_right a r = Ast (kind a) (value_type a) (ntext a) (nleft a) r (callee a) (body a) (else_body a) (args a) (stmts a)"

definition with_callee :: "ast_node \<Rightarrow> ast_node cptr \<Rightarrow> ast_node" where
  "with_callee a c = Ast (kind a) (value_type a) (ntext a) (nleft a) (nright a) c (body a) (else_body a) (args a) (stmts a)"

text \<open>\<open>if (!close) { error = 1; return NULL; } ast_next(parser);\<close> and go on.\<close>

definition closed_by :: "u8 list \<Rightarrow> string \<Rightarrow> ast_parser \<Rightarrow> nat \<Rightarrow> (ast_parser \<Rightarrow> 'a parsed) \<Rightarrow> 'a parsed" where
  "closed_by src close p n f = (if \<not> ast_is_delimiter p close then syntax_error p n else ast_next src p \<bind> f)"

definition slice_rest :: "u8 list \<Rightarrow> expr_parser \<Rightarrow> ast_parser \<Rightarrow> nat \<Rightarrow> ast_node cptr \<Rightarrow> ast_node cptr list parsed" where
  "slice_rest src expr p n start =
     on_node (if \<not> ast_is_delimiter p '':'' \<and> \<not> ast_is_delimiter p '']''
              then on_node (expr p n 0) (\<lambda>stop p n. Some (Ptr [start, Ptr stop], p, n))
              else Some (Ptr [start], p, n)) (\<lambda>xs p n.
     if ast_is_delimiter p '':'' then do {
       p \<leftarrow> ast_next src p;
       if \<not> ast_is_delimiter p '']''
       then on_node (expr p n 0) (\<lambda>step p n.
         Some (Ptr (if length xs = 1 then xs @ [NULL, Ptr step] else xs @ [Ptr step]), p, n))
       else Some (Ptr xs, p, n)}
     else Some (Ptr xs, p, n))"

definition subscript :: "u8 list \<Rightarrow> expr_parser \<Rightarrow> ast_parser \<Rightarrow> nat \<Rightarrow> ast_node \<Rightarrow> ast_node parsed" where
  "subscript src expr p n a =
     on_node (if ast_is_delimiter p '':'' then Some (Ptr NULL, p, n)
              else on_node (expr p n 0) (\<lambda>start p n. Some (Ptr (Ptr start), p, n))) (\<lambda>start p n.
     if ast_is_delimiter p '':'' then
       on_node (ast_new AST_SLICE (ascii '':'') p n) (\<lambda>s p n. do {
         p \<leftarrow> ast_next src p;
         on_node (slice_rest src expr p n start) (\<lambda>xs p n.
           closed_by src '']'' p n (\<lambda>p. Some (Ptr (with_left (with_args s xs) (Ptr a)), p, n)))})
     else if start = NULL then syntax_error p n
     else closed_by src '']'' p n (\<lambda>p.
       on_node (ast_new AST_INDEX (ascii ''[]'') p n) (\<lambda>i p n.
         Some (Ptr (with_right (with_left i (Ptr a)) start), p, n))))"

definition parse_list :: "u8 list \<Rightarrow> expr_parser \<Rightarrow> nat \<Rightarrow> ast_parser \<Rightarrow> nat \<Rightarrow> ast_node parsed" where
  "parse_list src expr f p n =
     on_node (ast_new AST_LIST (ascii ''list'') p n) (\<lambda>l p n. do {
       p \<leftarrow> ast_next src p;
       on_node (if ast_is_delimiter p '']'' then Some (Ptr [], p, n) else items src expr f '']'' p n []) (\<lambda>xs p n.
         closed_by src '']'' p n (\<lambda>p. Some (Ptr (with_args l (map Ptr xs)), p, n)))})"

definition parse_dict :: "u8 list \<Rightarrow> expr_parser \<Rightarrow> nat \<Rightarrow> ast_parser \<Rightarrow> nat \<Rightarrow> ast_node parsed" where
  "parse_dict src expr f p n =
     on_node (ast_new AST_DICT (ascii ''dict'') p n) (\<lambda>d p n. do {
       p \<leftarrow> ast_next src p;
       on_node (if ast_is_delimiter p ''}'' then Some (Ptr [], p, n) else pairs src expr f p n []) (\<lambda>xs p n.
         closed_by src ''}'' p n (\<lambda>p. Some (Ptr (with_args d (map Ptr xs)), p, n)))})"

definition parse_paren :: "u8 list \<Rightarrow> expr_parser \<Rightarrow> nat \<Rightarrow> ast_parser \<Rightarrow> nat \<Rightarrow> ast_node parsed" where
  "parse_paren src expr f p n = do {
     p \<leftarrow> ast_next src p;
     if ast_is_delimiter p '')''
     then on_node (ast_new AST_TUPLE (ascii ''tuple'') p n) (\<lambda>u p n. do {p \<leftarrow> ast_next src p; Some (Ptr u, p, n)})
     else on_node (expr p n 0) (\<lambda>first p n.
       if \<not> ast_is_delimiter p '','' then closed_by src '')'' p n (\<lambda>p. Some (Ptr first, p, n))
       else on_node (ast_new AST_TUPLE (ascii ''tuple'') p n) (\<lambda>u p n.
         on_node (tuple_items src expr f p n [first]) (\<lambda>xs p n.
           closed_by src '')'' p n (\<lambda>p. Some (Ptr (with_args u (map Ptr xs)), p, n)))))}"

definition parse_unary :: "u8 list \<Rightarrow> expr_parser \<Rightarrow> ast_parser \<Rightarrow> nat \<Rightarrow> ast_node parsed" where
  "parse_unary src expr p n = do {
     let op = ttext (pcurrent p);
     p \<leftarrow> ast_next src p;
     on_node (expr p n 7) (\<lambda>a p n.
       on_node (ast_new AST_UNARY op p n) (\<lambda>u p n. Some (Ptr (with_left u (Ptr a)), p, n)))}"

definition ast_parse_primary :: "u8 list \<Rightarrow> expr_parser \<Rightarrow> nat \<Rightarrow> ast_parser \<Rightarrow> nat \<Rightarrow> ast_node parsed" where
  "ast_parse_primary src expr f p n =
     (let t = pcurrent p in
      if ttype t = TOK_INTEGER \<or> ttype t = TOK_FLOAT then ast_next src p \<bind> (\<lambda>p. ast_new AST_NUMBER (ttext t) p n)
      else if ttype t = TOK_STRING then ast_next src p \<bind> (\<lambda>p. ast_new AST_STRING (ttext t) p n)
      else if ttype t = TOK_IDENTIFIER \<or>
        ttype t = TOK_KEYWORD \<and> (ttext t = ascii ''True'' \<or> ttext t = ascii ''False'' \<or> ttext t = ascii ''None'')
        then ast_next src p \<bind> (\<lambda>p. ast_new AST_IDENTIFIER (ttext t) p n)
      else if ast_is_delimiter p ''['' then parse_list src expr f p n
      else if ast_is_delimiter p ''{'' then parse_dict src expr f p n
      else if ast_is_delimiter p ''('' then parse_paren src expr f p n
      else if ttype t = TOK_OPERATOR \<and> (ttext t = ascii ''+'' \<or> ttext t = ascii ''-'' \<or> ttext t = ascii ''~'') \<or>
        ast_is_keyword p ''not'' then parse_unary src expr p n
      else syntax_error p n)"

definition parse_call :: "u8 list \<Rightarrow> expr_parser \<Rightarrow> nat \<Rightarrow> ast_parser \<Rightarrow> nat \<Rightarrow> ast_node \<Rightarrow> ast_node parsed" where
  "parse_call src expr f p n a =
     on_node (ast_new AST_CALL (ascii ''call'') p n) (\<lambda>c p n. do {
       p \<leftarrow> ast_next src p;
       on_node (if ast_is_delimiter p '')'' then Some (Ptr [], p, n) else items src expr f '')'' p n []) (\<lambda>xs p n.
         closed_by src '')'' p n (\<lambda>p. Some (Ptr (with_args (with_callee c (Ptr a)) (map Ptr xs)), p, n)))})"

definition parse_member :: "u8 list \<Rightarrow> ast_parser \<Rightarrow> nat \<Rightarrow> ast_node \<Rightarrow> ast_node parsed" where
  "parse_member src p n a = do {
     p \<leftarrow> ast_next src p;
     if ttype (pcurrent p) \<noteq> TOK_IDENTIFIER then syntax_error p n
     else on_node (ast_new AST_MEMBER (ttext (pcurrent p)) p n) (\<lambda>m p n. do {
       p \<leftarrow> ast_next src p;
       Some (Ptr (with_left m (Ptr a)), p, n)})}"

fun postfix_loop :: "u8 list \<Rightarrow> expr_parser \<Rightarrow> nat \<Rightarrow> ast_parser \<Rightarrow> nat \<Rightarrow> ast_node \<Rightarrow> ast_node parsed" where
  "postfix_loop src expr 0 p n a = None"
| "postfix_loop src expr (Suc f) p n a =
     (if perror p then Some (Ptr a, p, n)
      else if ast_is_delimiter p ''('' then on_node (parse_call src expr f p n a) (\<lambda>a p n. postfix_loop src expr f p n a)
      else if ast_is_delimiter p ''[''
        then on_node (ast_next src p \<bind> (\<lambda>p. subscript src expr p n a)) (\<lambda>a p n. postfix_loop src expr f p n a)
      else if ast_is_delimiter p ''.'' then on_node (parse_member src p n a) (\<lambda>a p n. postfix_loop src expr f p n a)
      else Some (Ptr a, p, n))"

definition ast_parse_postfix :: "u8 list \<Rightarrow> expr_parser \<Rightarrow> nat \<Rightarrow> ast_parser \<Rightarrow> nat \<Rightarrow> ast_node parsed" where
  "ast_parse_postfix src expr f p n = on_node (ast_parse_primary src expr f p n) (\<lambda>a p n. postfix_loop src expr f p n a)"

fun expression_loop :: "u8 list \<Rightarrow> expr_parser \<Rightarrow> nat \<Rightarrow> ast_parser \<Rightarrow> nat \<Rightarrow> int \<Rightarrow> ast_node \<Rightarrow> ast_node parsed" where
  "expression_loop src expr 0 p n min_prec left = None"
| "expression_loop src expr (Suc f) p n min_prec left =
     (let prec = ast_precedence (pcurrent p); op = ttext (pcurrent p) in
      if perror p \<or> prec < min_prec then Some (Ptr left, p, n)
      else do {
        p \<leftarrow> ast_next src p;
        on_node (expr p n (prec + (if op \<noteq> ascii ''**'' then 1 else 0))) (\<lambda>right p n.
        on_node (ast_new AST_BINARY op p n) (\<lambda>b p n.
        expression_loop src expr f p n min_prec (with_right (with_left b (Ptr left)) (Ptr right))))})"

fun ast_parse_expression :: "u8 list \<Rightarrow> nat \<Rightarrow> expr_parser" where
  "ast_parse_expression src 0 p n min_prec = None"
| "ast_parse_expression src (Suc f) p n min_prec =
     on_node (ast_parse_postfix src (ast_parse_expression src f) f p n)
       (\<lambda>left p n. expression_loop src (ast_parse_expression src f) f p n min_prec left)"

declare items.simps [simp del] pairs.simps [simp del] tuple_items.simps [simp del] postfix_loop.simps [simp del]
  expression_loop.simps [simp del] ast_parse_expression.simps [simp del]

section \<open>Statements\<close>

definition is_assignment :: "u8 list \<Rightarrow> bool" where
  "is_assignment op \<longleftrightarrow> op \<in> set (map ascii [''='', ''+='', ''-='', ''*='', ''/='', ''//='', ''%='', ''**='',
     ''&='', ''|='', ''^='', ''<<='', ''>>=''])"

definition ast_parse_assignment_or_expr :: "u8 list \<Rightarrow> nat \<Rightarrow> ast_parser \<Rightarrow> nat \<Rightarrow> ast_node parsed" where
  "ast_parse_assignment_or_expr src f p n =
     on_node (ast_parse_expression src f p n 0) (\<lambda>left p n.
       let op = ttext (pcurrent p) in
       if ttype (pcurrent p) = TOK_OPERATOR \<and> is_assignment op then
         (if kind left \<noteq> AST_IDENTIFIER \<and> kind left \<noteq> AST_MEMBER \<and> kind left \<noteq> AST_INDEX then syntax_error p n
          else do {
            p \<leftarrow> ast_next src p;
            on_node (ast_parse_expression src f p n 0) (\<lambda>value p n.
            on_node (ast_new AST_ASSIGN op p n) (\<lambda>a p n.
            Some (Ptr (with_right (with_left a (Ptr left)) (Ptr value)), p, n)))})
       else Some (Ptr left, p, n))"

definition ast_expect_colon_newline_indent :: "u8 list \<Rightarrow> ast_parser \<Rightarrow> nat \<Rightarrow> unit parsed" where
  "ast_expect_colon_newline_indent src p n =
     closed_by src '':'' p n (\<lambda>p.
       if ttype (pcurrent p) \<noteq> TOK_NEWLINE then syntax_error p n
       else do {
         p \<leftarrow> ast_next src p;
         if ttype (pcurrent p) \<noteq> TOK_INDENT then syntax_error p n
         else do {p \<leftarrow> ast_next src p; Some (Ptr (), p, n)}})"

partial_function (option) ast_skip_newlines :: "u8 list \<Rightarrow> ast_parser \<Rightarrow> ast_parser option" where
  "ast_skip_newlines src p =
     (if \<not> perror p \<and> ttype (pcurrent p) = TOK_NEWLINE then ast_next src p \<bind> ast_skip_newlines src else Some p)"

partial_function (option) ast_skip_separators :: "u8 list \<Rightarrow> ast_parser \<Rightarrow> ast_parser option" where
  "ast_skip_separators src p =
     (if \<not> perror p \<and> (ttype (pcurrent p) = TOK_NEWLINE \<or> ast_is_delimiter p '';'')
      then ast_next src p \<bind> ast_skip_separators src else Some p)"

definition ast_is_compound_statement :: "ast_node \<Rightarrow> bool" where
  "ast_is_compound_statement a \<longleftrightarrow> kind a = AST_IF \<or> kind a = AST_WHILE \<or> kind a = AST_FOR \<or> kind a = AST_FUNCTION"

text \<open>As above, \<open>stmt\<close> is \<open>ast_parse_statement\<close> itself.\<close>

type_synonym stmt_parser = "ast_parser \<Rightarrow> nat \<Rightarrow> ast_node parsed"

definition with_body :: "ast_node \<Rightarrow> ast_node cptr \<Rightarrow> ast_node" where
  "with_body a b = Ast (kind a) (value_type a) (ntext a) (nleft a) (nright a) (callee a) b (else_body a) (args a) (stmts a)"

definition with_else :: "ast_node \<Rightarrow> ast_node cptr \<Rightarrow> ast_node" where
  "with_else a b = Ast (kind a) (value_type a) (ntext a) (nleft a) (nright a) (callee a) (body a) b (args a) (stmts a)"

definition with_stmts :: "ast_node \<Rightarrow> ast_node list \<Rightarrow> ast_node" where
  "with_stmts a ss = Ast (kind a) (value_type a) (ntext a) (nleft a) (nright a) (callee a) (body a) (else_body a) (args a) ss"

fun block_loop :: "u8 list \<Rightarrow> stmt_parser \<Rightarrow> nat \<Rightarrow> ast_parser \<Rightarrow> nat \<Rightarrow> ast_node list \<Rightarrow> ast_node list parsed" where
  "block_loop src stmt 0 p n ss = None"
| "block_loop src stmt (Suc f) p n ss =
     (if perror p \<or> ttype (pcurrent p) = TOK_DEDENT \<or> ttype (pcurrent p) = TOK_EOF then Some (Ptr ss, p, n)
      else on_node (stmt p n) (\<lambda>s p n.
        if ttype (pcurrent p) = TOK_NEWLINE
        then ast_skip_newlines src p \<bind> (\<lambda>p. block_loop src stmt f p n (ss @ [s]))
        else if ttype (pcurrent p) \<noteq> TOK_DEDENT \<and> ttype (pcurrent p) \<noteq> TOK_EOF \<and> \<not> ast_is_compound_statement s
        then syntax_error p n
        else block_loop src stmt f p n (ss @ [s])))"

definition ast_parse_block :: "u8 list \<Rightarrow> stmt_parser \<Rightarrow> nat \<Rightarrow> ast_parser \<Rightarrow> nat \<Rightarrow> ast_node parsed" where
  "ast_parse_block src stmt f p n =
     on_node (ast_new AST_BLOCK (ascii ''block'') p n) (\<lambda>b p n. do {
       p \<leftarrow> ast_skip_newlines src p;
       on_node (block_loop src stmt f p n []) (\<lambda>ss p n.
         if ttype (pcurrent p) \<noteq> TOK_DEDENT then syntax_error p n
         else do {p \<leftarrow> ast_next src p; Some (Ptr (with_stmts b ss), p, n)})})"

definition ast_parse_suite :: "u8 list \<Rightarrow> stmt_parser \<Rightarrow> nat \<Rightarrow> ast_parser \<Rightarrow> nat \<Rightarrow> ast_node parsed" where
  "ast_parse_suite src stmt f p n =
     on_node (ast_expect_colon_newline_indent src p n) (\<lambda>_ p n. ast_parse_block src stmt f p n)"

definition parse_if :: "u8 list \<Rightarrow> stmt_parser \<Rightarrow> nat \<Rightarrow> stmt_parser" where
  "parse_if src stmt f p n = do {
     p \<leftarrow> ast_next src p;
     on_node (ast_new AST_IF (ascii ''if'') p n) (\<lambda>a p n.
     on_node (ast_parse_expression src f p n 0) (\<lambda>c p n.
     on_node (ast_parse_suite src stmt f p n) (\<lambda>b p n.
       let a = with_body (with_left a (Ptr c)) (Ptr b) in
       if ast_is_keyword p ''elif'' then
         on_node (stmt p n) (\<lambda>e p n.
         on_node (ast_new AST_BLOCK (ascii ''block'') p n) (\<lambda>w p n.
         Some (Ptr (with_else a (Ptr (with_stmts w [e]))), p, n)))
       else if ast_is_keyword p ''else'' then do {
         p \<leftarrow> ast_next src p;
         on_node (ast_parse_suite src stmt f p n) (\<lambda>e p n. Some (Ptr (with_else a (Ptr e)), p, n))}
       else Some (Ptr a, p, n))))}"

text \<open>The result of the suite is stored into \<open>body\<close> without a check.\<close>

definition parse_body :: "u8 list \<Rightarrow> stmt_parser \<Rightarrow> nat \<Rightarrow> ast_node \<Rightarrow> stmt_parser" where
  "parse_body src stmt f a p n = do {
     (b, p, n) \<leftarrow> ast_parse_suite src stmt f p n;
     Some (Ptr (with_body a b), p, n)}"

definition parse_while :: "u8 list \<Rightarrow> stmt_parser \<Rightarrow> nat \<Rightarrow> stmt_parser" where
  "parse_while src stmt f p n = do {
     p \<leftarrow> ast_next src p;
     on_node (ast_new AST_WHILE (ascii ''while'') p n) (\<lambda>a p n.
     on_node (ast_parse_expression src f p n 0) (\<lambda>c p n.
     parse_body src stmt f (with_left a (Ptr c)) p n))}"

definition parse_for :: "u8 list \<Rightarrow> stmt_parser \<Rightarrow> nat \<Rightarrow> stmt_parser" where
  "parse_for src stmt f p n = do {
     p \<leftarrow> ast_next src p;
     if ttype (pcurrent p) \<noteq> TOK_IDENTIFIER then syntax_error p n
     else on_node (ast_new AST_FOR (ascii ''for'') p n) (\<lambda>a p n.
       on_node (ast_new AST_IDENTIFIER (ttext (pcurrent p)) p n) (\<lambda>v p n. do {
         p \<leftarrow> ast_next src p;
         if \<not> ast_is_keyword p ''in'' then syntax_error p n
         else do {
           p \<leftarrow> ast_next src p;
           on_node (ast_parse_expression src f p n 0) (\<lambda>c p n.
             parse_body src stmt f (with_right (with_left a (Ptr v)) (Ptr c)) p n)}}))}"

fun params_loop :: "u8 list \<Rightarrow> nat \<Rightarrow> ast_parser \<Rightarrow> nat \<Rightarrow> ast_node list \<Rightarrow> ast_node list parsed" where
  "params_loop src 0 p n xs = None"
| "params_loop src (Suc f) p n xs =
     (if perror p \<or> ast_is_delimiter p '')'' then Some (Ptr xs, p, n)
      else if length xs \<ge> AST_MAX_ARGS \<or> ttype (pcurrent p) \<noteq> TOK_IDENTIFIER then syntax_error p n
      else on_node (ast_new AST_IDENTIFIER (ttext (pcurrent p)) p n) (\<lambda>x p n. do {
        p \<leftarrow> ast_next src p;
        if ast_is_delimiter p '','' then do {p \<leftarrow> ast_next src p; params_loop src f p n (xs @ [x])}
        else if \<not> ast_is_delimiter p '')'' then syntax_error p n
        else params_loop src f p n (xs @ [x])}))"

definition parse_def :: "u8 list \<Rightarrow> stmt_parser \<Rightarrow> nat \<Rightarrow> stmt_parser" where
  "parse_def src stmt f p n = do {
     p \<leftarrow> ast_next src p;
     if ttype (pcurrent p) \<noteq> TOK_IDENTIFIER then syntax_error p n
     else on_node (ast_new AST_FUNCTION (ttext (pcurrent p)) p n) (\<lambda>a p n. do {
       p \<leftarrow> ast_next src p;
       closed_by src ''('' p n (\<lambda>p.
         on_node (params_loop src f p n []) (\<lambda>xs p n.
           closed_by src '')'' p n (\<lambda>p. parse_body src stmt f (with_args a (map Ptr xs)) p n)))})}"

definition parse_return :: "u8 list \<Rightarrow> nat \<Rightarrow> stmt_parser" where
  "parse_return src f p n = do {
     p \<leftarrow> ast_next src p;
     on_node (ast_new AST_RETURN (ascii ''return'') p n) (\<lambda>a p n.
       if ttype (pcurrent p) \<noteq> TOK_NEWLINE \<and> ttype (pcurrent p) \<noteq> TOK_DEDENT \<and> ttype (pcurrent p) \<noteq> TOK_EOF
       then do {(x, p, n) \<leftarrow> ast_parse_expression src f p n 0; Some (Ptr (with_left a x), p, n)}
       else Some (Ptr a, p, n))}"

fun ast_parse_statement :: "u8 list \<Rightarrow> nat \<Rightarrow> stmt_parser" where
  "ast_parse_statement src 0 p n = None"
| "ast_parse_statement src (Suc f) p n =
     (if ast_is_keyword p ''if'' \<or> ast_is_keyword p ''elif'' then parse_if src (ast_parse_statement src f) f p n
      else if ast_is_keyword p ''while'' then parse_while src (ast_parse_statement src f) f p n
      else if ast_is_keyword p ''for'' then parse_for src (ast_parse_statement src f) f p n
      else if ast_is_keyword p ''def'' then parse_def src (ast_parse_statement src f) f p n
      else if ast_is_keyword p ''return'' then parse_return src f p n
      else if ast_is_keyword p ''break'' then ast_next src p \<bind> (\<lambda>p. ast_new AST_BREAK (ascii ''break'') p n)
      else if ast_is_keyword p ''continue'' then ast_next src p \<bind> (\<lambda>p. ast_new AST_CONTINUE (ascii ''continue'') p n)
      else if ast_is_keyword p ''pass'' then ast_next src p \<bind> (\<lambda>p. ast_new AST_PASS (ascii ''pass'') p n)
      else on_node (ast_parse_assignment_or_expr src f p n) (\<lambda>x p n.
        on_node (ast_new AST_EXPR_STMT (ascii ''expr'') p n) (\<lambda>s p n. Some (Ptr (with_left s (Ptr x)), p, n))))"

declare block_loop.simps [simp del] params_loop.simps [simp del] ast_parse_statement.simps [simp del]

section \<open>The program\<close>

fun program_loop :: "u8 list \<Rightarrow> nat \<Rightarrow> ast_parser \<Rightarrow> nat \<Rightarrow> ast_node list \<Rightarrow> (ast_node list \<times> ast_parser \<times> nat) option" where
  "program_loop src 0 p n ss = None"
| "program_loop src (Suc f) p n ss =
     (if perror p \<or> ttype (pcurrent p) = TOK_EOF then Some (ss, p, n)
      else if ttype (pcurrent p) = TOK_INDENT \<or> ttype (pcurrent p) = TOK_DEDENT
      then Some (ss, p \<lparr>perror := True\<rparr>, n)
      else do {
        (r, p, n) \<leftarrow> ast_parse_statement src f p n;
        (case r of
           NULL \<Rightarrow> Some (ss, p, n)
         | Ptr s \<Rightarrow>
             if ttype (pcurrent p) = TOK_NEWLINE \<or> ast_is_delimiter p '';''
             then ast_skip_separators src p \<bind> (\<lambda>p. program_loop src f p n (ss @ [s]))
             else if ttype (pcurrent p) \<noteq> TOK_EOF \<and> \<not> ast_is_compound_statement s
             then Some (ss @ [s], p \<lparr>perror := True\<rparr>, n)
             else program_loop src f p n (ss @ [s]))})"

declare program_loop.simps [simp del]

definition ast_parse_program :: "nat \<Rightarrow> u8 list \<Rightarrow> ast_node parsed" where
  "ast_parse_program f src = do {
     p \<leftarrow> ast_next src \<lparr>plexer = lexer_init (replicate MAX_INDENTS 0),
       pcurrent = \<lparr>ttype = TOK_EOF, ttext = [], tline = 0, tcol = 0\<rparr>, perror = False\<rparr>;
     on_node (ast_new AST_PROGRAM (ascii ''program'') p 0) (\<lambda>a p n. do {
       p \<leftarrow> ast_skip_separators src p;
       (ss, p, n) \<leftarrow> program_loop src f p n [];
       Some (Ptr (with_stmts a ss), p, n)})}"

end
