(* ===== verification/Ptround.thy ===== *)
theory Ptround imports Ptparse begin

text \<open>
  Expressions as they are meant, their texts with the parentheses that the precedences ask for, and
  the proof that the parser of \<open>Ptparse\<close> reads such a text back.
\<close>

section \<open>Expressions and their texts\<close>

datatype expr = Num "u8 list" | Str "u8 list" | Name "u8 list" | Unop "u8 list" expr | Binop "u8 list" expr expr
  | Call expr "expr list" | Lst "expr list" | Tup "expr list" | Dict "(expr \<times> expr) list"
  | Index expr expr | Slice expr "expr option" "expr option" "expr option" | Member expr "u8 list"

text \<open>The node that stands for an expression.\<close>

fun tree :: "expr \<Rightarrow> ast_node"
  where
  "tree (Num s) = node AST_NUMBER s"
| "tree (Str s) = node AST_STRING s"
| "tree (Name s) = node AST_IDENTIFIER s"
| "tree (Unop s a) = with_left (node AST_UNARY s) (Ptr (tree a))"
| "tree (Binop s a b) = with_right (with_left (node AST_BINARY s) (Ptr (tree a))) (Ptr (tree b))"
| "tree (Call c xs) = with_args (with_callee (node AST_CALL (ascii ''call'')) (Ptr (tree c))) (map (\<lambda>x. Ptr (tree x)) xs)"
| "tree (Lst xs) = with_args (node AST_LIST (ascii ''list'')) (map (\<lambda>x. Ptr (tree x)) xs)"
| "tree (Tup xs) = with_args (node AST_TUPLE (ascii ''tuple'')) (map (\<lambda>x. Ptr (tree x)) xs)"
| "tree (Dict xs) = with_args (node AST_DICT (ascii ''dict'')) (concat (map (\<lambda>(k, v). [Ptr (tree k), Ptr (tree v)]) xs))"
| "tree (Index a i) = with_right (with_left (node AST_INDEX (ascii ''[]'')) (Ptr (tree a))) (Ptr (tree i))"
| "tree (Slice a x y z) = with_left (with_args (node AST_SLICE (ascii '':''))
     ((case x of None \<Rightarrow> NULL | Some x \<Rightarrow> Ptr (tree x)) #
      (case y of None \<Rightarrow> (case z of None \<Rightarrow> [] | Some z \<Rightarrow> [NULL, Ptr (tree z)])
       | Some y \<Rightarrow> Ptr (tree y) # (case z of None \<Rightarrow> [] | Some z \<Rightarrow> [Ptr (tree z)])))) (Ptr (tree a))"
| "tree (Member a s) = with_left (node AST_MEMBER s) (Ptr (tree a))"

text \<open>How many nodes it takes.\<close>

fun nodes :: "expr \<Rightarrow> nat" where
  "nodes (Unop s a) = nodes a + 1"
| "nodes (Binop s a b) = nodes a + nodes b + 1"
| "nodes (Call c xs) = nodes c + sum_list (map nodes xs) + 1"
| "nodes (Lst xs) = sum_list (map nodes xs) + 1"
| "nodes (Tup xs) = sum_list (map nodes xs) + 1"
| "nodes (Dict xs) = sum_list (map (\<lambda>(k, v). nodes k + nodes v) xs) + 1"
| "nodes (Index a i) = nodes a + nodes i + 1"
| "nodes (Slice a x y z) = nodes a + (case x of None \<Rightarrow> 0 | Some x \<Rightarrow> nodes x) + (case y of None \<Rightarrow> 0 | Some y \<Rightarrow> nodes y) +
     (case z of None \<Rightarrow> 0 | Some z \<Rightarrow> nodes z) + 1"
| "nodes (Member a s) = nodes a + 1"
| "nodes _ = 1"

type_synonym lexeme = "token_type \<times> u8 list"

definition delim :: "string \<Rightarrow> lexeme" where
  "delim d = (TOK_DELIMITER, ascii d)"

definition op_type :: "u8 list \<Rightarrow> token_type" where
  "op_type s = (if lexer_is_keyword s then TOK_KEYWORD else TOK_OPERATOR)"

definition op_prec :: "u8 list \<Rightarrow> int" where
  "op_prec s = ast_precedence \<lparr>ttype = TOK_OPERATOR, ttext = s, tline = 0, tcol = 0\<rparr>"

definition number_type :: "u8 list \<Rightarrow> token_type" where
  "number_type s = (if 46 \<in> set s \<or> 101 \<in> set s \<or> 69 \<in> set s then TOK_FLOAT else TOK_INTEGER)"

fun commas :: "'a list \<Rightarrow> 'a list list \<Rightarrow> 'a list" where
  "commas c [] = []"
| "commas c [x] = x"
| "commas c (x # y # xs) = x @ c @ commas c (y # xs)"

text \<open>How tightly the outermost construct binds: 1 to 6 for an operator, 7 for a sign, 8 otherwise.\<close>

fun level :: "expr \<Rightarrow> int" where
  "level (Unop s a) = 7"
| "level (Binop s a b) = op_prec s"
| "level _ = 8"

definition paren :: "bool \<Rightarrow> lexeme list \<Rightarrow> lexeme list" where
  "paren b ws = (if b then delim ''('' # ws @ [delim '')''] else ws)"

text \<open>
  Operators associate to the left, but \<open>**\<close> to the right.
\<close>

definition left_level :: "u8 list \<Rightarrow> int" where
  "left_level s = (if s = ascii ''**'' then 7 else op_prec s)"

definition right_level :: "u8 list \<Rightarrow> int" where
  "right_level s = (if s = ascii ''**'' then 6 else op_prec s + 1)"

fun unparse :: "expr \<Rightarrow> lexeme list" where
  "unparse (Num s) = [(number_type s, s)]"
| "unparse (Str s) = [(TOK_STRING, s)]"
| "unparse (Name s) = [(if lexer_is_keyword s then TOK_KEYWORD else TOK_IDENTIFIER, s)]"
| "unparse (Unop s a) = (op_type s, s) # paren (level a < 7) (unparse a)"
| "unparse (Binop s a b) = paren (level a < left_level s) (unparse a) @ (op_type s, s) #
     paren (level b < right_level s) (unparse b)"
| "unparse (Call c xs) = paren (level c < 8) (unparse c) @ delim ''('' # commas [delim '',''] (map unparse xs) @ [delim '')'']"
| "unparse (Lst xs) = delim ''['' # commas [delim '',''] (map unparse xs) @ [delim '']'']"
| "unparse (Tup xs) = delim ''('' # commas [delim '',''] (map unparse xs) @
     (if length xs = 1 then [delim '',''] else []) @ [delim '')'']"
| "unparse (Dict xs) = delim ''{'' # commas [delim '',''] (map (\<lambda>(k, v). unparse k @ delim '':'' # unparse v) xs) @ [delim ''}'']"
| "unparse (Index a i) = paren (level a < 8) (unparse a) @ delim ''['' # unparse i @ [delim '']'']"
| "unparse (Slice a x y z) = paren (level a < 8) (unparse a) @ delim ''['' #
     (case x of None \<Rightarrow> [] | Some x \<Rightarrow> unparse x) @ delim '':'' # (case y of None \<Rightarrow> [] | Some y \<Rightarrow> unparse y) @
     (case z of None \<Rightarrow> [] | Some z \<Rightarrow> delim '':'' # unparse z) @ [delim '']'']"
| "unparse (Member a s) = paren (level a < 8) (unparse a) @ [delim ''.'', (TOK_IDENTIFIER, s)]"

text \<open>The expressions that the parser has nodes for: the texts fit, and so do the arguments.\<close>

fun wf_expr :: "expr \<Rightarrow> bool" where
  "wf_expr (Num s) \<longleftrightarrow> length s < LEX_TOKEN_TEXT"
| "wf_expr (Str s) \<longleftrightarrow> length s < LEX_TOKEN_TEXT"
| "wf_expr (Name s) \<longleftrightarrow> length s < LEX_TOKEN_TEXT \<and>
     (lexer_is_keyword s \<longrightarrow> s = ascii ''True'' \<or> s = ascii ''False'' \<or> s = ascii ''None'')"
| "wf_expr (Unop s a) \<longleftrightarrow> (s = ascii ''+'' \<or> s = ascii ''-'' \<or> s = ascii ''~'' \<or> s = ascii ''not'') \<and> wf_expr a"
| "wf_expr (Binop s a b) \<longleftrightarrow> 1 \<le> op_prec s \<and> wf_expr a \<and> wf_expr b"
| "wf_expr (Call c xs) \<longleftrightarrow> wf_expr c \<and> length xs \<le> AST_MAX_ARGS \<and> (\<forall>x\<in>set xs. wf_expr x)"
| "wf_expr (Lst xs) \<longleftrightarrow> length xs \<le> AST_MAX_ARGS \<and> (\<forall>x\<in>set xs. wf_expr x)"
| "wf_expr (Tup xs) \<longleftrightarrow> length xs \<le> AST_MAX_ARGS \<and> (\<forall>x\<in>set xs. wf_expr x)"
| "wf_expr (Dict xs) \<longleftrightarrow> 2 * length xs \<le> AST_MAX_ARGS \<and> (\<forall>(k, v)\<in>set xs. wf_expr k \<and> wf_expr v)"
| "wf_expr (Index a i) \<longleftrightarrow> wf_expr a \<and> wf_expr i"
| "wf_expr (Slice a x y z) \<longleftrightarrow> wf_expr a \<and> (case x of None \<Rightarrow> True | Some x \<Rightarrow> wf_expr x) \<and>
     (case y of None \<Rightarrow> True | Some y \<Rightarrow> wf_expr y) \<and> (case z of None \<Rightarrow> True | Some z \<Rightarrow> wf_expr z)"
| "wf_expr (Member a s) \<longleftrightarrow> wf_expr a \<and> length s < LEX_TOKEN_TEXT"

section \<open>Enough fuel\<close>

text \<open>
  \<open>settles F r\<close>: with enough of both its fuels the computation \<open>F\<close> returns \<open>r\<close>.
\<close>

definition settles :: "(nat \<Rightarrow> nat \<Rightarrow> 'a option) \<Rightarrow> 'a \<Rightarrow> bool" where
  "settles F r \<longleftrightarrow> (\<exists>N. \<forall>f\<ge>N. \<forall>k\<ge>N. F f k = Some r)"

lemma settles_now [simp]: "settles (\<lambda>f k. Some x) r \<longleftrightarrow> x = r"
  by (auto simp: settles_def)

lemma settles_both:
  assumes "settles F r" "settles G s"
  shows "\<exists>N. \<forall>f\<ge>N. \<forall>k\<ge>N. F f k = Some r \<and> G f k = Some s"
proof -
  from assms obtain M N where "\<forall>f\<ge>M. \<forall>k\<ge>M. F f k = Some r" "\<forall>f\<ge>N. \<forall>k\<ge>N. G f k = Some s"
    by (auto simp: settles_def)
  then show ?thesis by (intro exI [of _ "max M N"]) simp
qed

lemma settles_on_node:
  assumes "settles F (Ptr a, p, n)" "settles (\<lambda>f k. G f k a p n) r"
  shows "settles (\<lambda>f k. on_node (F f k) (G f k)) r"
  using settles_both [OF assms] by (force simp: settles_def on_node_def)

lemma settles_bind:
  assumes "settles F x" "settles (\<lambda>f k. G f k x) r"
  shows "settles (\<lambda>f k. F f k \<bind> G f k) r"
  using settles_both [OF assms] by (force simp: settles_def)

lemma settles_Suc:
  assumes "settles (\<lambda>f k. F f (Suc k)) r"
  shows "settles F r"
proof -
  obtain N where N: "\<forall>f\<ge>N. \<forall>k\<ge>N. F f (Suc k) = Some r" using assms by (auto simp: settles_def)
  have "F f k = Some r" if "Suc N \<le> f" "Suc N \<le> k" for f k
    using N that by (cases k) auto
  then show ?thesis by (auto simp: settles_def)
qed

lemma settles_expression:
  assumes "settles (\<lambda>f k. on_node (ast_parse_postfix src (ast_parse_expression src f) k p n)
      (\<lambda>left p n. expression_loop src (ast_parse_expression src f) k p n m left)) r"
  shows "settles (\<lambda>f k. ast_parse_expression src f p n m) r"
proof -
  obtain N where N: "\<forall>f\<ge>N. \<forall>k\<ge>N. on_node (ast_parse_postfix src (ast_parse_expression src f) k p n)
      (\<lambda>left p n. expression_loop src (ast_parse_expression src f) k p n m left) = Some r"
    using assms by (auto simp: settles_def)
  have "ast_parse_expression src f p n m = Some r" if "Suc N \<le> f" for f
    using N that by (cases f) (auto simp: ast_parse_expression.simps)
  then show ?thesis by (auto simp: settles_def)
qed

section \<open>Reading tokens\<close>

text \<open>\<open>reads src p ws q\<close>: the current token and the ones that follow are \<open>ws\<close>, and then the parser
  is \<open>q\<close>, without an error.\<close>

definition current :: "ast_parser \<Rightarrow> lexeme" where
  "current p = (ttype (pcurrent p), ttext (pcurrent p))"

fun reads :: "u8 list \<Rightarrow> ast_parser \<Rightarrow> lexeme list \<Rightarrow> ast_parser \<Rightarrow> bool" where
  "reads src p [] q \<longleftrightarrow> q = p \<and> \<not> perror p"
| "reads src p (w # ws) q \<longleftrightarrow> current p = w \<and> (\<exists>p'. ast_next src p = Some p' \<and> reads src p' ws q)"

lemma next_error: "ast_next src p = Some p' \<Longrightarrow> perror p \<Longrightarrow> perror p'"
  by (auto simp: ast_next_def split: Option.bind_splits)

lemma reads_no_error: "reads src p ws q \<Longrightarrow> \<not> perror p"
  by (induction ws arbitrary: p) (auto dest: next_error)

lemma reads_append: "reads src p (xs @ ys) q \<longleftrightarrow> (\<exists>m. reads src p xs m \<and> reads src m ys q)"
  by (induction xs arbitrary: p) (auto dest: reads_no_error)

lemma of_char_inj: "(of_char c :: u8) = of_char d \<longleftrightarrow> c = d"
proof -
  have "unat (of_char c :: u8) = of_char c" for c
  proof -
    have "(of_char c :: nat) = of_char c mod 256" by (metis of_char_of char_of_char)
    moreover have "(of_char c :: u8) = of_nat (of_char c)" by (simp add: of_nat_of_char)
    ultimately show ?thesis by (simp add: unsigned_of_nat take_bit_eq_mod)
  qed
  then show ?thesis by (metis of_char_eq_iff)
qed

lemma ascii_inj [simp]: "ascii a = ascii b \<longleftrightarrow> a = b"
  by (auto simp: ascii_def of_char_inj inj_map_eq_map inj_def)

lemma is_delimiter_current: "ast_is_delimiter p d \<longleftrightarrow> current p = delim d"
  by (simp add: ast_is_delimiter_def current_def delim_def)

lemma delim_eq [simp]: "delim a = delim b \<longleftrightarrow> a = b"
  by (simp add: delim_def)

definition opener :: "lexeme \<Rightarrow> bool" where
  "opener w \<longleftrightarrow> w = delim ''('' \<or> w = delim ''['' \<or> w = delim ''.''"

definition prec :: "lexeme \<Rightarrow> int" where
  "prec w = ast_precedence \<lparr>ttype = fst w, ttext = snd w, tline = 0, tcol = 0\<rparr>"

lemma prec_current: "ast_precedence (pcurrent p) = prec (current p)"
  by (simp add: prec_def current_def ast_precedence_def)

lemma prec_delim [simp]: "prec (delim d) = - 1"
  by (simp add: prec_def delim_def ast_precedence_def)

lemma prec_op: "prec (op_type s, s) = op_prec s"
  by (simp add: prec_def op_type_def op_prec_def ast_precedence_def)

lemma op_prec_le: "op_prec s \<le> 6"
  by (simp add: op_prec_def ast_precedence_def)

lemma op_prec_power: "op_prec s = 6 \<longleftrightarrow> s = ascii ''**''"
  by (simp add: op_prec_def ast_precedence_def)

lemma op_prec_starts: "1 \<le> op_prec s \<Longrightarrow> s \<noteq> []"
  by (auto simp: op_prec_def ast_precedence_def ascii_def)

lemma op_length: "1 \<le> op_prec s \<Longrightarrow> length s < LEX_TOKEN_TEXT"
proof -
  assume "1 \<le> op_prec s"
  then have "s \<in> set (map ascii [''or'', ''and'', ''=='', ''!='', ''<'', ''<='', ''>'', ''>='', ''in'', ''is'', ''+'', ''-'',
      ''*'', ''/'', ''//'', ''%'', ''**''])" by (auto simp: op_prec_def ast_precedence_def split: if_splits)
  then show ?thesis by (auto simp: ascii_def LEX_TOKEN_TEXT_def)
qed

lemma level_bounds: "wf_expr e \<Longrightarrow> 1 \<le> level e \<and> level e \<le> 8"
proof (cases e)
  case (Binop s a b)
  then show "wf_expr e \<Longrightarrow> 1 \<le> level e \<and> level e \<le> 8" using op_prec_le [of s] by simp
qed auto

text \<open>No text begins with what closes or separates.\<close>

definition starter :: "lexeme \<Rightarrow> bool" where
  "starter w \<longleftrightarrow> w \<notin> delim ` set ['')'', '']'', ''}'', '':'', '','']"

lemma starter_paren: "ws \<noteq> [] \<and> starter (hd ws) \<Longrightarrow> paren b ws \<noteq> [] \<and> starter (hd (paren b ws))"
  by (simp add: paren_def starter_def)

lemma unparse_starts: "unparse e \<noteq> [] \<and> starter (hd (unparse e))"
proof (induction e)
  case (Binop s a b)
  then show ?case using starter_paren [of "unparse a"] by simp
next
  case (Call c xs)
  then show ?case using starter_paren [of "unparse c"] by simp
next
  case (Index c xs)
  then show ?case using starter_paren [of "unparse c"] by simp
next
  case (Slice c x y z)
  then show ?case using starter_paren [of "unparse c"] by simp
next
  case (Member c s)
  then show ?case using starter_paren [of "unparse c"] by simp
qed (auto simp: starter_def delim_def op_type_def number_type_def)

lemma reads_starts:
  assumes "reads src p (unparse e) q" "d \<in> set ['')'', '']'', ''}'', '':'', '','']"
  shows "\<not> ast_is_delimiter p d"
proof -
  have "current p = hd (unparse e)" using assms(1) unparse_starts [of e] by (cases "unparse e") auto
  then show ?thesis using unparse_starts [of e] assms(2) by (auto simp: is_delimiter_current starter_def)
qed

section \<open>The parser reads a text back\<close>

text \<open>
  What is proved of each expression: from its text the parser gets to the point where the loop over
  the postfixes, or the loop over the operators, goes on with its node.
\<close>

definition postfix_reads :: "u8 list \<Rightarrow> expr \<Rightarrow> bool" where
  "postfix_reads src e \<longleftrightarrow> (\<forall>p q n r. reads src p (paren (level e < 8) (unparse e)) q \<longrightarrow> n + nodes e \<le> AST_MAX_NODES \<longrightarrow>
     settles (\<lambda>f k. postfix_loop src (ast_parse_expression src f) k q (n + nodes e) (tree e)) r \<longrightarrow>
     settles (\<lambda>f k. ast_parse_postfix src (ast_parse_expression src f) k p n) r)"

definition fits :: "int \<Rightarrow> ast_parser \<Rightarrow> bool" where
  "fits k q \<longleftrightarrow> \<not> opener (current q) \<and> prec (current q) \<le> k \<and> (k = 6 \<longrightarrow> prec (current q) < 6)"

definition continues :: "u8 list \<Rightarrow> int \<Rightarrow> lexeme list \<Rightarrow> expr \<Rightarrow> bool" where
  "continues src k ws e \<longleftrightarrow> (\<forall>p q n m r. reads src p ws q \<longrightarrow> n + nodes e \<le> AST_MAX_NODES \<longrightarrow> m \<le> k \<longrightarrow> fits k q \<longrightarrow>
     settles (\<lambda>f j. expression_loop src (ast_parse_expression src f) j q (n + nodes e) m (tree e)) r \<longrightarrow>
     settles (\<lambda>f j. ast_parse_expression src f p n m) r)"

definition expression_reads :: "u8 list \<Rightarrow> expr \<Rightarrow> bool" where
  "expression_reads src e \<longleftrightarrow> (\<forall>k. 0 \<le> k \<longrightarrow> k \<le> 8 \<longrightarrow> continues src k (paren (level e < k) (unparse e)) e)"

lemma loop_stops: "\<not> perror q \<Longrightarrow> prec (current q) < m \<Longrightarrow>
    settles (\<lambda>f j. expression_loop src (E f) j q n m a) (Ptr a, q, n)"
  by (rule settles_Suc) (simp add: expression_loop.simps prec_current)

lemma postfix_stops: "\<not> opener (current q) \<Longrightarrow>
    settles (\<lambda>f j. postfix_loop src (E f) j q n a) (Ptr a, q, n)"
  by (rule settles_Suc, cases "perror q") (simp_all add: postfix_loop.simps is_delimiter_current opener_def)

lemma reads_end: "reads src p ws q \<Longrightarrow> \<not> perror q"
  by (induction ws arbitrary: p) auto

lemma continues_whole:
  assumes "continues src k ws e" "reads src p ws q" "n + nodes e \<le> AST_MAX_NODES" "\<not> opener (current q)" "prec (current q) < k"
  shows "settles (\<lambda>f j. ast_parse_expression src f p n k) (Ptr (tree e), q, n + nodes e)"
  using assms loop_stops [OF reads_end [OF assms(2)] assms(5)]
  unfolding continues_def fits_def by auto

lemma expression_whole:
  assumes e: "expression_reads src e" and r: "reads src p (unparse e) q" and n: "n + nodes e \<le> AST_MAX_NODES"
    and q: "current q = delim d" "d \<noteq> ''(''" "d \<noteq> ''[''" "d \<noteq> ''.''" and wf: "wf_expr e"
  shows "settles (\<lambda>f j. ast_parse_expression src f p n 0) (Ptr (tree e), q, n + nodes e)"
proof -
  have "continues src 0 (unparse e) e"
    using e level_bounds [OF wf] by (force simp: expression_reads_def paren_def)
  then show ?thesis by (rule continues_whole [OF _ r n]) (simp_all add: q opener_def)
qed

text \<open>An expression in parentheses is a primary expression, whatever it is.\<close>

lemma next_reads: "reads src p (w # ws) q \<Longrightarrow> \<exists>p'. ast_next src p = Some p' \<and> reads src p' ws q \<and> current p = w"
  by auto

lemma reads_single: "reads src p [w] q \<longleftrightarrow> current p = w \<and> ast_next src p = Some q \<and> \<not> perror q"
  by auto

lemma primary_paren:
  assumes c: "current p = delim ''(''"
  shows "ast_parse_primary src E f p n = parse_paren src E f p n"
proof -
  have "ttype (pcurrent p) = TOK_DELIMITER" "ttext (pcurrent p) = ascii ''(''"
    using c by (simp_all add: current_def delim_def)
  then show ?thesis by (simp add: ast_parse_primary_def ast_is_delimiter_def ast_is_keyword_def)
qed

lemma closed_settles:
  assumes "reads src p [delim d] q" "settles (\<lambda>f k. F f k q) r"
  shows "settles (\<lambda>f k. closed_by src d p n (F f k)) r"
  using assms by (simp add: closed_by_def is_delimiter_current)

lemma paren_reads:
  assumes u: "continues src 0 (unparse e) e" and l: "level e < 8"
  shows "postfix_reads src e"
  unfolding postfix_reads_def
proof (intro allI impI)
  fix p q n r
  assume r: "reads src p (paren (level e < 8) (unparse e)) q" and n: "n + nodes e \<le> AST_MAX_NODES"
    and loop: "settles (\<lambda>f k. postfix_loop src (ast_parse_expression src f) k q (n + nodes e) (tree e)) r"
  from r l obtain p1 p2 where c: "current p = delim ''(''" "ast_next src p = Some p1"
    and e: "reads src p1 (unparse e) p2" and z: "reads src p2 [delim '')''] q"
    by (auto simp: paren_def reads_append)
  have s: "\<not> ast_is_delimiter p1 '')''" using reads_starts [OF e] by simp
  have E: "settles (\<lambda>f k. ast_parse_expression src f p1 n 0) (Ptr (tree e), p2, n + nodes e)"
    by (rule continues_whole [OF u e n]) (use z in \<open>simp_all add: opener_def\<close>)
  have z': "\<not> ast_is_delimiter p2 '',''" using z by (simp add: is_delimiter_current)
  have "settles (\<lambda>f k. ast_parse_primary src (ast_parse_expression src f) k p n) (Ptr (tree e), q, n + nodes e)"
    unfolding primary_paren [OF c(1)] parse_paren_def c(2) bind.bind_lunit if_not_P [OF s]
    by (rule settles_on_node [OF E]) (use z z' in \<open>auto intro!: closed_settles\<close>)
  then show "settles (\<lambda>f k. ast_parse_postfix src (ast_parse_expression src f) k p n) r"
    unfolding ast_parse_postfix_def using loop by (rule settles_on_node)
qed

text \<open>From the postfix level to any level.\<close>

lemma postfix_continues:
  assumes "postfix_reads src e"
  shows "continues src k (paren (level e < 8) (unparse e)) e"
  unfolding continues_def
proof (intro allI impI)
  fix p q n m r
  assume r: "reads src p (paren (level e < 8) (unparse e)) q" and n: "n + nodes e \<le> AST_MAX_NODES" and q: "fits k q"
    and loop: "settles (\<lambda>f j. expression_loop src (ast_parse_expression src f) j q (n + nodes e) m (tree e)) r"
  have stop: "settles (\<lambda>f k. postfix_loop src (ast_parse_expression src f) k q (n + nodes e) (tree e))
      (Ptr (tree e), q, n + nodes e)"
    by (rule postfix_stops) (use q in \<open>simp add: fits_def\<close>)
  have "settles (\<lambda>f k. ast_parse_postfix src (ast_parse_expression src f) k p n) (Ptr (tree e), q, n + nodes e)"
    using assms r n stop unfolding postfix_reads_def by blast
  then show "settles (\<lambda>f j. ast_parse_expression src f p n m) r"
    by (rule settles_expression [OF settles_on_node]) (rule loop)
qed

lemma expression_readsI:
  assumes p: "postfix_reads src e" and u: "\<And>k. 0 \<le> k \<Longrightarrow> k \<le> level e \<Longrightarrow> level e < 8 \<Longrightarrow> continues src k (unparse e) e"
    and wf: "wf_expr e"
  shows "expression_reads src e"
  unfolding expression_reads_def
proof (intro allI impI)
  fix k :: int assume k: "0 \<le> k" "k \<le> 8"
  show "continues src k (paren (level e < k) (unparse e)) e"
  proof (cases "level e < 8 \<and> k \<le> level e")
    case True
    then show ?thesis using u k by (simp add: paren_def)
  next
    case False
    then have "(level e < k) = (level e < 8)" using k level_bounds [OF wf] by auto
    then show ?thesis using postfix_continues [OF p, of k] by simp
  qed
qed

text \<open>Signs and operators.\<close>

lemma primary_unary:
  assumes c: "current p = (op_type s, s)" and s: "s = ascii ''+'' \<or> s = ascii ''-'' \<or> s = ascii ''~'' \<or> s = ascii ''not''"
  shows "ast_parse_primary src E f p n = parse_unary src E p n"
proof -
  have k: "lexer_is_keyword (ascii ''not'')" "\<not> lexer_is_keyword (ascii ''+'')" "\<not> lexer_is_keyword (ascii ''-'')"
    "\<not> lexer_is_keyword (ascii ''~'')" by (simp_all add: lexer_is_keyword_def)
  have t: "ttype (pcurrent p) = op_type s" "ttext (pcurrent p) = s" using c by (simp_all add: current_def)
  show ?thesis using s
    by (auto simp: ast_parse_primary_def ast_is_delimiter_def ast_is_keyword_def t op_type_def k)
qed

lemma unary_continues:
  assumes a: "expression_reads src a" and s: "s = ascii ''+'' \<or> s = ascii ''-'' \<or> s = ascii ''~'' \<or> s = ascii ''not''"
    and k: "k \<le> 7" and wf: "wf_expr a"
  shows "continues src k (unparse (Unop s a)) (Unop s a)"
  unfolding continues_def
proof (intro allI impI)
  let ?e = "Unop s a"
  fix p q n m r
  assume r: "reads src p (unparse ?e) q" and n: "n + nodes ?e \<le> AST_MAX_NODES" and q: "fits k q"
    and loop: "settles (\<lambda>f j. expression_loop src (ast_parse_expression src f) j q (n + nodes ?e) m (tree ?e)) r"
  from r obtain p1 where c: "current p = (op_type s, s)" "ast_next src p = Some p1"
    and e: "reads src p1 (paren (level a < 7) (unparse a)) q" by auto
  have "continues src 7 (paren (level a < 7) (unparse a)) a" using a by (simp add: expression_reads_def)
  moreover have "prec (current q) < 7"
    using op_prec_le by (simp add: prec_def ast_precedence_def)
  ultimately have E: "settles (\<lambda>f j. ast_parse_expression src f p1 n 7) (Ptr (tree a), q, n + nodes a)"
    using e n q by (intro continues_whole) (simp_all add: fits_def)
  have t: "ttext (pcurrent p) = s" using c(1) by (simp add: current_def)
  have new: "ast_new AST_UNARY s q (n + nodes a) = Some (Ptr (node AST_UNARY s), q, n + nodes a + 1)"
    using n by (simp add: ast_new_def)
  have "settles (\<lambda>f k. ast_parse_primary src (ast_parse_expression src f) k p n) (Ptr (tree ?e), q, n + nodes ?e)"
    unfolding primary_unary [OF c(1) s] parse_unary_def c(2) bind.bind_lunit t Let_def
    by (rule settles_on_node [OF E]) (simp add: new on_node_def)
  then have "settles (\<lambda>f k. ast_parse_postfix src (ast_parse_expression src f) k p n) (Ptr (tree ?e), q, n + nodes ?e)"
    unfolding ast_parse_postfix_def
    by (rule settles_on_node) (rule postfix_stops, use q in \<open>simp add: fits_def\<close>)
  then show "settles (\<lambda>f j. ast_parse_expression src f p n m) r"
    by (rule settles_expression [OF settles_on_node]) (rule loop)
qed

lemma right_level: "right_level s = op_prec s + (if s \<noteq> ascii ''**'' then 1 else 0)"
  using op_prec_power [of s] by (auto simp: right_level_def)

lemma operator_fits:
  assumes "current q = (op_type s, s)" "1 \<le> op_prec s"
  shows "fits (left_level s) q"
proof -
  have "prec (current q) = op_prec s" "\<not> opener (current q)"
    using assms(1) prec_op by (simp_all add: opener_def delim_def op_type_def)
  then show ?thesis using op_prec_le [of s] op_prec_power [of s]
    by (auto simp: fits_def left_level_def)
qed

lemma new_binary: "1 \<le> op_prec s \<Longrightarrow> n < AST_MAX_NODES \<Longrightarrow> ast_new AST_BINARY s p n = Some (Ptr (node AST_BINARY s), p, n + 1)"
  by (simp add: ast_new_def)

lemma binary_continues:
  assumes a: "expression_reads src a" and b: "expression_reads src b" and wf: "wf_expr (Binop s a b)"
    and k: "0 \<le> k" "k \<le> op_prec s"
  shows "continues src k (unparse (Binop s a b)) (Binop s a b)"
  unfolding continues_def
proof (intro allI impI)
  let ?e = "Binop s a b" and ?E = "ast_parse_expression src"
  fix p q n m r
  assume r: "reads src p (unparse ?e) q" and n: "n + nodes ?e \<le> AST_MAX_NODES" and m: "m \<le> k" and q: "fits k q"
    and loop: "settles (\<lambda>f j. expression_loop src (?E f) j q (n + nodes ?e) m (tree ?e)) r"
  have s: "1 \<le> op_prec s" "op_prec s \<le> 6" using wf op_prec_le by auto
  from r obtain p1 p2 where ra: "reads src p (paren (level a < left_level s) (unparse a)) p1"
    and op: "current p1 = (op_type s, s)" "ast_next src p1 = Some p2"
    and rb: "reads src p2 (paren (level b < right_level s) (unparse b)) q" by (auto simp: reads_append)
  have cb: "continues src (right_level s) (paren (level b < right_level s) (unparse b)) b"
    using b s by (simp add: expression_reads_def right_level_def)
  have "prec (current q) < right_level s"
    using q k s op_prec_power [of s] by (auto simp: fits_def right_level_def)
  with cb rb n q have B: "settles (\<lambda>f j. ?E f p2 (n + nodes a) (right_level s)) (Ptr (tree b), q, n + nodes a + nodes b)"
    by (intro continues_whole) (simp_all add: fits_def)
  have new: "settles (\<lambda>f j. ast_new AST_BINARY s q (n + nodes a + nodes b)) (Ptr (node AST_BINARY s), q, n + nodes ?e)"
    using new_binary [OF s(1)] n by (simp add: add.assoc)
  have t: "ttext (pcurrent p1) = s" "ast_precedence (pcurrent p1) = op_prec s" "\<not> perror p1"
    using op(1) reads_end [OF ra] by (simp_all add: prec_current prec_op) (simp add: current_def)
  have "settles (\<lambda>f j. expression_loop src (?E f) j p1 (n + nodes a) m (tree a)) r"
  proof (rule settles_Suc)
    have "settles (\<lambda>f j. on_node (?E f p2 (n + nodes a) (right_level s)) (\<lambda>right p n.
        on_node (ast_new AST_BINARY s p n) (\<lambda>b p n.
        expression_loop src (?E f) j p n m (with_right (with_left b (Ptr (tree a))) (Ptr right))))) r"
      by (rule settles_on_node [OF B], rule settles_on_node [OF new]) (use loop in simp)
    then show "settles (\<lambda>f j. expression_loop src (?E f) (Suc j) p1 (n + nodes a) m (tree a)) r"
      using t m k by (simp add: expression_loop.simps op(2) right_level)
  qed
  moreover have "continues src (left_level s) (paren (level a < left_level s) (unparse a)) a"
    using a s by (simp add: expression_reads_def left_level_def)
  moreover have na: "n + nodes a \<le> AST_MAX_NODES" using n by simp
  moreover have "m \<le> left_level s" using m k s by (simp add: left_level_def)
  ultimately show "settles (\<lambda>f j. ?E f p n m) r"
    using ra na operator_fits [OF op(1) s(1)] unfolding continues_def by blast
qed

text \<open>Elements separated by commas.\<close>

lemma items_read:
  assumes "\<forall>x\<in>set xs. expression_reads src x \<and> wf_expr x" "xs \<noteq> []" "length ys + length xs \<le> AST_MAX_ARGS"
    and "reads src p (commas [delim '',''] (map unparse xs)) q" "current q = delim close" "close \<in> {'')'', '']''}"
    and "n + sum_list (map nodes xs) \<le> AST_MAX_NODES"
  shows "settles (\<lambda>f k. items src (ast_parse_expression src f) k close p n ys)
    (Ptr (ys @ map tree xs), q, n + sum_list (map nodes xs))"
  using assms
proof (induction xs arbitrary: p n ys)
  case (Cons x xs)
  let ?E = "ast_parse_expression src"
  have x: "expression_reads src x" "wf_expr x" using Cons.prems(1) by auto
  have ne: "\<not> perror p" using reads_no_error Cons.prems(4) by blast
  have room: "\<not> AST_MAX_ARGS \<le> length ys" using Cons.prems(3) by simp
  show ?case
  proof (cases xs)
    case Nil
    then have "reads src p (unparse x) q" using Cons.prems(4) by simp
    then have X: "settles (\<lambda>f k. ?E f p n 0) (Ptr (tree x), q, n + nodes x)"
      by (rule expression_whole [OF x(1) _ _ Cons.prems(5) _ _ _ x(2)]) (use Cons.prems Nil in auto)
    have "\<not> ast_is_delimiter q '',''" using Cons.prems(5,6) by (auto simp: is_delimiter_current)
    then show ?thesis
      by (rule_tac settles_Suc, unfold items.simps if_not_P [OF ne] if_not_P [OF room], rule_tac settles_on_node [OF X])
        (simp add: Nil)
  next
    case (Cons y zs)
    from Cons.prems(4) obtain p1 p2 where rx: "reads src p (unparse x) p1" and c: "current p1 = delim '',''" "ast_next src p1 = Some p2"
      and rest: "reads src p2 (commas [delim '',''] (map unparse xs)) q" by (auto simp: Cons reads_append)
    have X: "settles (\<lambda>f k. ?E f p n 0) (Ptr (tree x), p1, n + nodes x)"
      by (rule expression_whole [OF x(1) rx _ c(1) _ _ _ x(2)]) (use Cons.prems in auto)
    obtain m where "reads src p2 (unparse y) m" using rest by (cases zs) (auto simp: Cons reads_append)
    then have next2: "\<not> ast_is_delimiter p2 close" using reads_starts [of src p2 y m close] Cons.prems(6) by auto
    have "settles (\<lambda>f k. items src (?E f) k close p2 (n + nodes x) (ys @ [tree x]))
        (Ptr ((ys @ [tree x]) @ map tree xs), q, n + nodes x + sum_list (map nodes xs))"
      by (rule Cons.IH) (use Cons.prems rest Cons in auto)
    then show ?thesis
      by (rule_tac settles_Suc, unfold items.simps if_not_P [OF ne] if_not_P [OF room], rule_tac settles_on_node [OF X])
        (simp add: is_delimiter_current c next2 [unfolded is_delimiter_current] add.assoc)
  qed
qed simp

text \<open>The loop is left out when the list is empty.\<close>

lemma items_or_none:
  assumes "\<forall>x\<in>set xs. expression_reads src x \<and> wf_expr x" "length xs \<le> AST_MAX_ARGS"
    and "reads src p (commas [delim '',''] (map unparse xs)) q" "current q = delim close" "close \<in> {'')'', '']''}"
    and "n + sum_list (map nodes xs) \<le> AST_MAX_NODES"
  shows "settles (\<lambda>f k. if ast_is_delimiter p close then Some (Ptr [], p, n)
      else items src (ast_parse_expression src f) k close p n []) (Ptr (map tree xs), q, n + sum_list (map nodes xs))"
proof (cases xs)
  case Nil
  then show ?thesis using assms by (simp add: is_delimiter_current)
next
  case (Cons x zs)
  obtain m where "reads src p (unparse x) m" using assms(3) by (cases zs) (auto simp: Cons reads_append)
  then have "\<not> ast_is_delimiter p close" using reads_starts [of src p x m close] assms(5) by auto
  then show ?thesis using items_read [OF assms(1) _ _ assms(3,4,5,6), of "[]"] assms(2) Cons by simp
qed

lemma new_node: "n < AST_MAX_NODES \<Longrightarrow> settles (\<lambda>f k. ast_new c s p n) (Ptr (node c s), p, n + 1)"
  by (simp add: ast_new_def)

lemma new_node_then:
  assumes "n < AST_MAX_NODES" "settles (\<lambda>f k. F f k (node c s) p (n + 1)) r"
  shows "settles (\<lambda>f k. on_node (ast_new c s p n) (F f k)) r"
  by (rule settles_on_node, rule new_node [OF assms(1)], rule assms(2))

text \<open>What follows an operand: from the loop at the opening token to the loop after the closing one.\<close>

lemma postfix_step:
  assumes a: "postfix_reads src a"
    and r: "reads src p (paren (level a < 8) (unparse a)) p1" "n + nodes a \<le> AST_MAX_NODES"
    and l: "settles (\<lambda>f k. postfix_loop src (ast_parse_expression src f) (Suc k) p1 (n + nodes a) (tree a)) r"
  shows "settles (\<lambda>f k. ast_parse_postfix src (ast_parse_expression src f) k p n) r"
  using a r settles_Suc [where F = "\<lambda>f k. postfix_loop src (ast_parse_expression src f) k p1 (n + nodes a) (tree a)", OF l]
  unfolding postfix_reads_def by blast

lemma postfix_stepI:
  assumes a: "postfix_reads src a" and e: "level e = 8" "unparse e = paren (level a < 8) (unparse a) @ w # ws" "nodes a \<le> nodes e"
    and step: "\<And>p1 q n r. current p1 = w \<Longrightarrow> reads src p1 (w # ws) q \<Longrightarrow> n + nodes e \<le> AST_MAX_NODES \<Longrightarrow> \<not> perror p1 \<Longrightarrow>
      settles (\<lambda>f k. postfix_loop src (ast_parse_expression src f) k q (n + nodes e) (tree e)) r \<Longrightarrow>
      settles (\<lambda>f k. postfix_loop src (ast_parse_expression src f) (Suc k) p1 (n + nodes a) (tree a)) r"
  shows "postfix_reads src e"
  unfolding postfix_reads_def
proof (intro allI impI)
  fix p q n r
  assume r: "reads src p (paren (level e < 8) (unparse e)) q" and n: "n + nodes e \<le> AST_MAX_NODES"
    and loop: "settles (\<lambda>f k. postfix_loop src (ast_parse_expression src f) k q (n + nodes e) (tree e)) r"
  from r obtain p1 where ra: "reads src p (paren (level a < 8) (unparse a)) p1" and rw: "reads src p1 (w # ws) q"
    by (auto simp: e paren_def reads_append)
  have "settles (\<lambda>f k. postfix_loop src (ast_parse_expression src f) (Suc k) p1 (n + nodes a) (tree a)) r"
    by (rule step [OF _ rw n reads_end [OF ra] loop]) (use rw in simp)
  then show "settles (\<lambda>f k. ast_parse_postfix src (ast_parse_expression src f) k p n) r"
    using n e(3) by (intro postfix_step [OF a ra]) auto
qed

lemma call_reads:
  assumes c: "postfix_reads src c" and xs: "\<forall>x\<in>set xs. expression_reads src x \<and> wf_expr x" and len: "length xs \<le> AST_MAX_ARGS"
  shows "postfix_reads src (Call c xs)"
proof (rule postfix_stepI [OF c])
  let ?e = "Call c xs" and ?E = "ast_parse_expression src" and ?ws = "commas [delim '',''] (map unparse xs) @ [delim '')'']"
  fix p1 q n r
  assume o: "current p1 = delim ''(''" and r: "reads src p1 (delim ''('' # ?ws) q"
    and n: "n + nodes ?e \<le> AST_MAX_NODES" and ne: "\<not> perror p1"
    and loop: "settles (\<lambda>f k. postfix_loop src (?E f) k q (n + nodes ?e) (tree ?e)) r"
  from r obtain p2 p3 where p2: "ast_next src p1 = Some p2"
    and rx: "reads src p2 (commas [delim '',''] (map unparse xs)) p3" and z: "reads src p3 [delim '')''] q"
    by (auto simp: reads_append)
  let ?n = "n + nodes c + 1"
  have X: "settles (\<lambda>f k. if ast_is_delimiter p2 '')'' then Some (Ptr [], p2, ?n) else items src (?E f) k '')'' p2 ?n [])
      (Ptr (map tree xs), p3, ?n + sum_list (map nodes xs))"
    using z n by (intro items_or_none [OF xs len rx]) auto
  have "settles (\<lambda>f k. parse_call src (?E f) k p1 (n + nodes c) (tree c)) (Ptr (tree ?e), q, n + nodes ?e)"
    unfolding parse_call_def
    by (rule new_node_then, use n in simp, simp only: p2 bind.bind_lunit, rule settles_on_node [OF X],
        rule closed_settles [OF z]) (simp add: comp_def)
  then have "settles (\<lambda>f k. on_node (parse_call src (?E f) k p1 (n + nodes c) (tree c)) (\<lambda>a p n. postfix_loop src (?E f) k p n a)) r"
    by (rule settles_on_node) (rule loop)
  then show "settles (\<lambda>f k. postfix_loop src (?E f) (Suc k) p1 (n + nodes c) (tree c)) r"
    using ne o by (simp add: postfix_loop.simps is_delimiter_current)
qed simp_all

lemma member_reads:
  assumes "postfix_reads src a"
  shows "postfix_reads src (Member a s)"
proof (rule postfix_stepI [OF assms])
  fix p1 q n r
  assume c: "current p1 = delim ''.''" and r: "reads src p1 (delim ''.'' # [(TOK_IDENTIFIER, s)]) q"
    and n: "n + nodes (Member a s) \<le> AST_MAX_NODES" and ne: "\<not> perror p1"
    and loop: "settles (\<lambda>f k. postfix_loop src (ast_parse_expression src f) k q (n + nodes (Member a s)) (tree (Member a s))) r"
  from r obtain p2 where p2: "ast_next src p1 = Some p2" "current p2 = (TOK_IDENTIFIER, s)" "ast_next src p2 = Some q" by auto
  have "parse_member src p1 (n + nodes a) (tree a) = Some (Ptr (tree (Member a s)), q, n + nodes (Member a s))"
    using n p2 by (simp add: parse_member_def current_def ast_new_def on_node_def)
  then show "settles (\<lambda>f k. postfix_loop src (ast_parse_expression src f) (Suc k) p1 (n + nodes a) (tree a)) r"
    using ne c loop by (simp add: postfix_loop.simps is_delimiter_current on_node_def)
qed simp_all

lemma index_reads:
  assumes a: "postfix_reads src a" and i: "expression_reads src i" "wf_expr i"
  shows "postfix_reads src (Index a i)"
proof (rule postfix_stepI [OF a])
  let ?e = "Index a i" and ?E = "ast_parse_expression src"
  fix p1 q n r
  assume c: "current p1 = delim ''[''" and r: "reads src p1 (delim ''['' # unparse i @ [delim '']'']) q"
    and n: "n + nodes ?e \<le> AST_MAX_NODES" and ne: "\<not> perror p1"
    and loop: "settles (\<lambda>f k. postfix_loop src (?E f) k q (n + nodes ?e) (tree ?e)) r"
  from r obtain p2 p3 where p2: "ast_next src p1 = Some p2" and ri: "reads src p2 (unparse i) p3" and z: "reads src p3 [delim '']''] q"
    by (auto simp: reads_append)
  have s: "\<not> ast_is_delimiter p2 '':''" using reads_starts [OF ri] by simp
  have I: "settles (\<lambda>f k. ?E f p2 (n + nodes a) 0) (Ptr (tree i), p3, n + nodes a + nodes i)"
    by (rule expression_whole [OF i(1) ri _ _ _ _ _ i(2)]) (use n z in auto)
  have start: "settles (\<lambda>f k. on_node (?E f p2 (n + nodes a) 0) (\<lambda>start p n. Some (Ptr (Ptr start), p, n)))
      (Ptr (Ptr (tree i)), p3, n + nodes a + nodes i)"
    by (rule settles_on_node [OF I]) simp
  have c3: "\<not> ast_is_delimiter p3 '':''" using z by (simp add: is_delimiter_current)
  have new: "ast_new AST_INDEX (ascii ''[]'') q (n + nodes a + nodes i) = Some (Ptr (node AST_INDEX (ascii ''[]'')), q, n + nodes ?e)"
    using n by (simp add: ast_new_def)
  have "settles (\<lambda>f k. subscript src (?E f) p2 (n + nodes a) (tree a)) (Ptr (tree ?e), q, n + nodes ?e)"
    unfolding subscript_def if_not_P [OF s]
    by (rule settles_on_node [OF start]) (use c3 z in \<open>auto intro!: closed_settles simp: new on_node_def\<close>)
  then have "settles (\<lambda>f k. on_node (subscript src (?E f) p2 (n + nodes a) (tree a)) (\<lambda>a p n. postfix_loop src (?E f) k p n a)) r"
    by (rule settles_on_node) (rule loop)
  then show "settles (\<lambda>f k. postfix_loop src (?E f) (Suc k) p1 (n + nodes a) (tree a)) r"
    using ne c p2 by (simp add: postfix_loop.simps is_delimiter_current)
qed simp_all

text \<open>The three parts of a slice, each of which may be missing.\<close>

definition part_ok :: "u8 list \<Rightarrow> expr option \<Rightarrow> bool" where
  "part_ok src x \<longleftrightarrow> (\<forall>e. x = Some e \<longrightarrow> expression_reads src e \<and> wf_expr e)"

abbreviation part_nodes :: "expr option \<Rightarrow> nat" where
  "part_nodes x \<equiv> (case x of None \<Rightarrow> 0 | Some e \<Rightarrow> nodes e)"

abbreviation part_text :: "expr option \<Rightarrow> lexeme list" where
  "part_text x \<equiv> (case x of None \<Rightarrow> [] | Some e \<Rightarrow> unparse e)"

lemma part_whole:
  assumes "part_ok src (Some e)" "reads src p (unparse e) q" "n + nodes e \<le> AST_MAX_NODES" "current q = delim d" "d \<in> {'':'', '']''}"
  shows "settles (\<lambda>f k. ast_parse_expression src f p n 0) (Ptr (tree e), q, n + nodes e)"
  using assms by (intro expression_whole) (auto simp: part_ok_def)

lemma slice_start:
  assumes "part_ok src x" "reads src p (part_text x) q" "n + part_nodes x \<le> AST_MAX_NODES" "current q = delim '':''"
  shows "settles (\<lambda>f k. if ast_is_delimiter p '':'' then Some (Ptr NULL, p, n)
      else on_node (ast_parse_expression src f p n 0) (\<lambda>start p n. Some (Ptr (Ptr start), p, n)))
    (Ptr (case x of None \<Rightarrow> NULL | Some e \<Rightarrow> Ptr (tree e)), q, n + part_nodes x)"
proof (cases x)
  case None
  then show ?thesis using assms by (simp add: is_delimiter_current)
next
  case (Some e)
  have r: "reads src p (unparse e) q" using assms(2) Some by simp
  have "\<not> ast_is_delimiter p '':''" using reads_starts [OF r] by simp
  moreover have "settles (\<lambda>f k. ast_parse_expression src f p n 0) (Ptr (tree e), q, n + nodes e)"
    by (rule part_whole [OF _ r]) (use assms Some in auto)
  then have "settles (\<lambda>f k. on_node (ast_parse_expression src f p n 0) (\<lambda>start p n. Some (Ptr (Ptr start), p, n)))
      (Ptr (Ptr (tree e)), q, n + nodes e)" by (rule settles_on_node) simp
  ultimately show ?thesis using Some by simp
qed

lemma slice_rest_reads:
  assumes y: "part_ok src y" and z: "part_ok src z"
    and r: "reads src p (part_text y @ (case z of None \<Rightarrow> [] | Some e \<Rightarrow> delim '':'' # unparse e)) q"
    and c: "current q = delim '']''" and n: "n + part_nodes y + part_nodes z \<le> AST_MAX_NODES"
  shows "settles (\<lambda>f k. slice_rest src (ast_parse_expression src f) p n start)
    (Ptr (start # (case y of None \<Rightarrow> (case z of None \<Rightarrow> [] | Some z \<Rightarrow> [NULL, Ptr (tree z)])
       | Some y \<Rightarrow> Ptr (tree y) # (case z of None \<Rightarrow> [] | Some z \<Rightarrow> [Ptr (tree z)]))), q, n + part_nodes y + part_nodes z)"
proof -
  let ?E = "ast_parse_expression src"
  let ?xs = "start # (case y of None \<Rightarrow> [] | Some y \<Rightarrow> [Ptr (tree y)])"
  from r obtain p1 where ry: "reads src p (part_text y) p1"
    and rz: "reads src p1 (case z of None \<Rightarrow> [] | Some e \<Rightarrow> delim '':'' # unparse e) q" by (auto simp: reads_append)
  have c1: "current p1 = delim (if z = None then '']'' else '':'')" using rz c by (cases z) auto
  have Y: "settles (\<lambda>f k. if \<not> ast_is_delimiter p '':'' \<and> \<not> ast_is_delimiter p '']''
      then on_node (?E f p n 0) (\<lambda>stop p n. Some (Ptr [start, Ptr stop], p, n)) else Some (Ptr [start], p, n))
    (Ptr ?xs, p1, n + part_nodes y)"
  proof (cases y)
    case None
    then show ?thesis using ry c1 by (auto simp: is_delimiter_current split: if_splits)
  next
    case (Some e)
    have re: "reads src p (unparse e) p1" using ry Some by simp
    have s: "\<not> ast_is_delimiter p '':'' \<and> \<not> ast_is_delimiter p '']''" using reads_starts [OF re] by simp
    have "settles (\<lambda>f k. ?E f p n 0) (Ptr (tree e), p1, n + nodes e)"
      by (rule part_whole [OF _ re _ c1]) (use y n Some in auto)
    then have "settles (\<lambda>f k. on_node (?E f p n 0) (\<lambda>stop p n. Some (Ptr [start, Ptr stop], p, n)))
        (Ptr [start, Ptr (tree e)], p1, n + nodes e)" by (rule settles_on_node) simp
    then show ?thesis using s Some by simp
  qed
  show ?thesis
  proof (cases z)
    case None
    then show ?thesis unfolding slice_rest_def using rz c
      by (intro settles_on_node [OF Y]) (auto simp: is_delimiter_current split: option.splits)
  next
    case (Some e)
    from rz Some obtain p2 where p2: "ast_next src p1 = Some p2" and re: "reads src p2 (unparse e) q" by auto
    have s: "\<not> ast_is_delimiter p2 '']''" using reads_starts [OF re] by simp
    have "settles (\<lambda>f k. ?E f p2 (n + part_nodes y) 0) (Ptr (tree e), q, n + part_nodes y + nodes e)"
      by (rule part_whole [OF _ re _ c]) (use z n Some in auto)
    then have "settles (\<lambda>f k. on_node (?E f p2 (n + part_nodes y) 0) (\<lambda>step p n.
        Some (Ptr (if length ?xs = 1 then ?xs @ [NULL, Ptr step] else ?xs @ [Ptr step]), p, n)))
        (Ptr (if length ?xs = 1 then ?xs @ [NULL, Ptr (tree e)] else ?xs @ [Ptr (tree e)]), q, n + part_nodes y + nodes e)"
      by (rule settles_on_node) simp
    then show ?thesis unfolding slice_rest_def using c1 p2 s Some
      by (intro settles_on_node [OF Y]) (auto simp: is_delimiter_current split: option.splits)
  qed
qed

lemma slice_reads:
  assumes a: "postfix_reads src a" and x: "part_ok src x" and y: "part_ok src y" and z: "part_ok src z"
  shows "postfix_reads src (Slice a x y z)"
proof (rule postfix_stepI [OF a])
  let ?e = "Slice a x y z" and ?E = "ast_parse_expression src"
  let ?rest = "part_text y @ (case z of None \<Rightarrow> [] | Some e \<Rightarrow> delim '':'' # unparse e)"
  fix p1 q n r
  assume c: "current p1 = delim ''[''" and r: "reads src p1 (delim ''['' # (part_text x @ delim '':'' # ?rest @ [delim '']''])) q"
    and n: "n + nodes ?e \<le> AST_MAX_NODES" and ne: "\<not> perror p1"
    and loop: "settles (\<lambda>f k. postfix_loop src (?E f) k q (n + nodes ?e) (tree ?e)) r"
  from r obtain p2 p3 p4 p5 where p2: "ast_next src p1 = Some p2" and rx: "reads src p2 (part_text x) p3"
    and p3: "current p3 = delim '':''" "ast_next src p3 = Some p4" and rr: "reads src p4 ?rest p5"
    and close: "reads src p5 [delim '']''] q"
    by (simp add: reads_append) blast
  let ?n = "n + nodes a + part_nodes x" and ?s = "case x of None \<Rightarrow> NULL | Some e \<Rightarrow> Ptr (tree e)"
  have X: "settles (\<lambda>f k. if ast_is_delimiter p2 '':'' then Some (Ptr NULL, p2, n + nodes a)
      else on_node (?E f p2 (n + nodes a) 0) (\<lambda>start p n. Some (Ptr (Ptr start), p, n))) (Ptr ?s, p3, ?n)"
    by (rule slice_start [OF x rx _ p3(1)]) (use n in simp)
  have R: "settles (\<lambda>f k. slice_rest src (?E f) p4 (?n + 1) ?s)
    (Ptr (?s # (case y of None \<Rightarrow> (case z of None \<Rightarrow> [] | Some z \<Rightarrow> [NULL, Ptr (tree z)])
       | Some y \<Rightarrow> Ptr (tree y) # (case z of None \<Rightarrow> [] | Some z \<Rightarrow> [Ptr (tree z)]))), p5, ?n + 1 + part_nodes y + part_nodes z)"
    by (rule slice_rest_reads [OF y z rr]) (use n close in auto)
  have i: "ast_is_delimiter p3 '':''" using p3 by (simp add: is_delimiter_current)
  have "settles (\<lambda>f k. subscript src (?E f) p2 (n + nodes a) (tree a)) (Ptr (tree ?e), q, n + nodes ?e)"
    unfolding subscript_def
    by (rule settles_on_node [OF X], simp only: i if_True, rule new_node_then, use n in simp,
        simp only: p3(2) bind.bind_lunit, rule settles_on_node [OF R], rule closed_settles [OF close]) simp
  then have "settles (\<lambda>f k. on_node (subscript src (?E f) p2 (n + nodes a) (tree a)) (\<lambda>a p n. postfix_loop src (?E f) k p n a)) r"
    by (rule settles_on_node) (rule loop)
  then show "settles (\<lambda>f k. postfix_loop src (?E f) (Suc k) p1 (n + nodes a) (tree a)) r"
    using ne c p2 by (simp add: postfix_loop.simps is_delimiter_current)
qed simp_all

text \<open>Primary expressions.\<close>

lemma primary_reads:
  assumes l: "level e = 8"
    and e: "\<And>p q n. reads src p (unparse e) q \<Longrightarrow> n + nodes e \<le> AST_MAX_NODES \<Longrightarrow>
      settles (\<lambda>f k. ast_parse_primary src (ast_parse_expression src f) k p n) (Ptr (tree e), q, n + nodes e)"
  shows "postfix_reads src e"
  unfolding postfix_reads_def ast_parse_postfix_def
proof (intro allI impI)
  fix p q n r
  assume "reads src p (paren (level e < 8) (unparse e)) q" and n: "n + nodes e \<le> AST_MAX_NODES"
    and loop: "settles (\<lambda>f k. postfix_loop src (ast_parse_expression src f) k q (n + nodes e) (tree e)) r"
  then have "reads src p (unparse e) q" by (simp add: l paren_def)
  from e [OF this n] show "settles (\<lambda>f k. on_node (ast_parse_primary src (ast_parse_expression src f) k p n)
      (\<lambda>a p n. postfix_loop src (ast_parse_expression src f) k p n a)) r"
    by (rule settles_on_node) (rule loop)
qed

lemma atoms_read:
  shows "wf_expr (Num s) \<Longrightarrow> postfix_reads src (Num s)" "wf_expr (Str s) \<Longrightarrow> postfix_reads src (Str s)"
    and "wf_expr (Name s) \<Longrightarrow> postfix_reads src (Name s)"
  by (rule primary_reads; auto simp: ast_parse_primary_def ast_new_def current_def number_type_def split: if_splits)+

lemma primary_open:
  assumes "current p = delim d"
  shows "d = ''['' \<Longrightarrow> ast_parse_primary src E f p n = parse_list src E f p n"
    "d = ''{'' \<Longrightarrow> ast_parse_primary src E f p n = parse_dict src E f p n"
proof -
  have "ttype (pcurrent p) = TOK_DELIMITER" "ttext (pcurrent p) = ascii d"
    using assms by (simp_all add: current_def delim_def)
  then show "d = ''['' \<Longrightarrow> ast_parse_primary src E f p n = parse_list src E f p n"
    "d = ''{'' \<Longrightarrow> ast_parse_primary src E f p n = parse_dict src E f p n"
    by (simp_all add: ast_parse_primary_def ast_is_delimiter_def ast_is_keyword_def)
qed

lemma list_reads:
  assumes xs: "\<forall>x\<in>set xs. expression_reads src x \<and> wf_expr x" and len: "length xs \<le> AST_MAX_ARGS"
  shows "postfix_reads src (Lst xs)"
proof (rule primary_reads)
  let ?E = "ast_parse_expression src"
  fix p q n
  assume r: "reads src p (unparse (Lst xs)) q" and n: "n + nodes (Lst xs) \<le> AST_MAX_NODES"
  from r obtain p1 p2 where c: "current p = delim ''[''" and p1: "ast_next src p = Some p1"
    and rx: "reads src p1 (commas [delim '',''] (map unparse xs)) p2" and z: "reads src p2 [delim '']''] q"
    by (auto simp: reads_append)
  have X: "settles (\<lambda>f k. if ast_is_delimiter p1 '']'' then Some (Ptr [], p1, n + 1) else items src (?E f) k '']'' p1 (n + 1) [])
      (Ptr (map tree xs), p2, n + 1 + sum_list (map nodes xs))"
    using z n by (intro items_or_none [OF xs len rx]) auto
  show "settles (\<lambda>f k. ast_parse_primary src (?E f) k p n) (Ptr (tree (Lst xs)), q, n + nodes (Lst xs))"
    unfolding primary_open(1) [OF c refl] parse_list_def
    by (rule new_node_then, use n in simp, simp only: p1 bind.bind_lunit, rule settles_on_node [OF X],
        rule closed_settles [OF z]) (simp add: comp_def)
qed simp

text \<open>A dictionary.\<close>

abbreviation pair_text :: "expr \<times> expr \<Rightarrow> lexeme list" where
  "pair_text \<equiv> \<lambda>(k, v). unparse k @ delim '':'' # unparse v"

abbreviation pair_nodes :: "expr \<times> expr \<Rightarrow> nat" where
  "pair_nodes \<equiv> \<lambda>(k, v). nodes k + nodes v"

abbreviation pair_trees :: "(expr \<times> expr) list \<Rightarrow> ast_node list" where
  "pair_trees xs \<equiv> concat (map (\<lambda>(k, v). [tree k, tree v]) xs)"

definition pair_ok :: "u8 list \<Rightarrow> expr \<times> expr \<Rightarrow> bool" where
  "pair_ok src x \<longleftrightarrow> (case x of (k, v) \<Rightarrow> expression_reads src k \<and> wf_expr k \<and> expression_reads src v \<and> wf_expr v)"

lemma settles_bind_node:
  assumes "settles F (Ptr a, p, n)" "settles (\<lambda>f k. G f k (Ptr a) p n) r"
  shows "settles (\<lambda>f k. F f k \<bind> (\<lambda>(x, p, n). G f k x p n)) r"
  by (rule settles_bind [OF assms(1)]) (simp add: assms(2))

lemma pairs_read:
  assumes "\<forall>x\<in>set xs. pair_ok src x" "xs \<noteq> []" "length ys + 2 * length xs \<le> AST_MAX_ARGS"
    and "reads src p (commas [delim '',''] (map pair_text xs)) q" "current q = delim ''}''"
    and "n + sum_list (map pair_nodes xs) \<le> AST_MAX_NODES"
  shows "settles (\<lambda>f k. pairs src (ast_parse_expression src f) k p n ys)
    (Ptr (ys @ pair_trees xs), q, n + sum_list (map pair_nodes xs))"
  using assms
proof (induction xs arbitrary: p n ys)
  case (Cons x xs)
  let ?E = "ast_parse_expression src"
  obtain k v where kv: "x = (k, v)" by fastforce
  have x: "expression_reads src k" "wf_expr k" "expression_reads src v" "wf_expr v"
    using Cons.prems(1) by (auto simp: kv pair_ok_def)
  have ne: "\<not> perror p" using reads_no_error Cons.prems(4) by blast
  have room: "\<not> AST_MAX_ARGS \<le> length ys + 1" using Cons.prems(3) by simp
  define rest where "rest = (if xs = [] then [] else delim '','' # commas [delim '',''] (map pair_text xs))"
  have "commas [delim '',''] (map pair_text (x # xs)) = unparse k @ delim '':'' # unparse v @ rest"
    by (cases xs) (simp_all add: rest_def kv)
  then obtain p1 p2 p3 where rk: "reads src p (unparse k) p1" and p1: "current p1 = delim '':''" "ast_next src p1 = Some p2"
    and rv: "reads src p2 (unparse v) p3" and rest: "reads src p3 rest q"
    using Cons.prems(4) by (auto simp: reads_append)
  have c3: "current p3 = delim (if xs = [] then ''}'' else '','')"
    using rest Cons.prems(5) by (auto simp: rest_def split: if_splits)
  have K: "settles (\<lambda>f j. ?E f p n 0) (Ptr (tree k), p1, n + nodes k)"
    by (rule expression_whole [OF x(1) rk _ p1(1) _ _ _ x(2)]) (use Cons.prems kv in auto)
  have V: "settles (\<lambda>f j. ?E f p2 (n + nodes k) 0) (Ptr (tree v), p3, n + nodes k + nodes v)"
    by (rule expression_whole [OF x(3) rv _ c3 _ _ _ x(4)]) (use Cons.prems kv in auto)
  have d1: "ast_is_delimiter p1 '':''" using p1(1) by (simp add: is_delimiter_current)
  show ?case
  proof (cases xs)
    case Nil
    have "\<not> ast_is_delimiter p3 '',''" using c3 Nil by (simp add: is_delimiter_current)
    moreover have "p3 = q" using rest Nil by (simp add: rest_def)
    ultimately show ?thesis
      by (rule_tac settles_Suc, unfold pairs.simps if_not_P [OF ne] if_not_P [OF room], rule_tac settles_bind_node [OF K],
          simp only: d1 not_True_eq_False if_False cptr.case p1(2) bind.bind_lunit, rule_tac settles_on_node [OF V])
        (simp add: Nil kv)
  next
    case (Cons y zs)
    from rest Cons obtain p4 where p3: "ast_next src p3 = Some p4" and r4: "reads src p4 (commas [delim '',''] (map pair_text xs)) q"
      by (auto simp: rest_def)
    obtain k' v' where y: "y = (k', v')" by fastforce
    obtain m where "reads src p4 (unparse k') m" using r4 by (cases zs) (auto simp: Cons y reads_append)
    then have next4: "\<not> ast_is_delimiter p4 ''}''" using reads_starts [of src p4 k' m] by simp
    have d3: "ast_is_delimiter p3 '',''" using c3 Cons by (simp add: is_delimiter_current)
    have "settles (\<lambda>f j. pairs src (?E f) j p4 (n + nodes k + nodes v) (ys @ [tree k, tree v]))
        (Ptr ((ys @ [tree k, tree v]) @ pair_trees xs), q, n + nodes k + nodes v + sum_list (map pair_nodes xs))"
      by (rule Cons.IH) (use Cons.prems r4 Cons kv in auto)
    then show ?thesis
      by (rule_tac settles_Suc, unfold pairs.simps if_not_P [OF ne] if_not_P [OF room], rule_tac settles_bind_node [OF K],
          simp only: d1 not_True_eq_False if_False cptr.case p1(2) bind.bind_lunit, rule_tac settles_on_node [OF V])
        (simp add: d3 p3 next4 kv add.assoc)
  qed
qed simp

lemma dict_reads:
  assumes xs: "\<forall>x\<in>set xs. pair_ok src x" and len: "2 * length xs \<le> AST_MAX_ARGS"
  shows "postfix_reads src (Dict xs)"
proof (rule primary_reads)
  let ?E = "ast_parse_expression src"
  fix p q n
  assume r: "reads src p (unparse (Dict xs)) q" and n: "n + nodes (Dict xs) \<le> AST_MAX_NODES"
  from r obtain p1 p2 where c: "current p = delim ''{''" and p1: "ast_next src p = Some p1"
    and rx: "reads src p1 (commas [delim '',''] (map pair_text xs)) p2" and z: "reads src p2 [delim ''}''] q"
    by (auto simp: reads_append)
  have X: "settles (\<lambda>f k. if ast_is_delimiter p1 ''}'' then Some (Ptr [], p1, n + 1) else pairs src (?E f) k p1 (n + 1) [])
      (Ptr (pair_trees xs), p2, n + 1 + sum_list (map pair_nodes xs))"
  proof (cases xs)
    case Nil
    then show ?thesis using rx z by (simp add: is_delimiter_current)
  next
    case (Cons y zs)
    obtain k' v' where y: "y = (k', v')" by fastforce
    obtain m where "reads src p1 (unparse k') m" using rx by (cases zs) (auto simp: Cons y reads_append)
    then have "\<not> ast_is_delimiter p1 ''}''" using reads_starts [of src p1 k' m] by simp
    then show ?thesis using pairs_read [OF xs _ _ rx, of "[]" "n + 1"] len n z Cons by simp
  qed
  have t: "tree (Dict xs) = with_args (node AST_DICT (ascii ''dict'')) (map Ptr (pair_trees xs))"
    by (simp add: map_concat comp_def split_def)
  show "settles (\<lambda>f k. ast_parse_primary src (?E f) k p n) (Ptr (tree (Dict xs)), q, n + nodes (Dict xs))"
    unfolding primary_open(2) [OF c refl] parse_dict_def t
    by (rule new_node_then, use n in simp, simp only: p1 bind.bind_lunit, rule settles_on_node [OF X],
        rule closed_settles [OF z]) simp
qed simp

text \<open>A tuple.\<close>

lemma commas_Cons: "commas [c] (x # xs) = x @ concat (map (\<lambda>y. c # y) xs)"
  by (induction xs arbitrary: x) simp_all

lemma tuple_items_read:
  assumes "\<forall>x\<in>set xs. expression_reads src x \<and> wf_expr x" "length ys + length xs \<le> AST_MAX_ARGS"
    and "reads src p (concat (map (\<lambda>x. delim '','' # unparse x) xs)) q" "current q = delim '')''"
    and "n + sum_list (map nodes xs) \<le> AST_MAX_NODES"
  shows "settles (\<lambda>f k. tuple_items src (ast_parse_expression src f) k p n ys)
    (Ptr (ys @ map tree xs), q, n + sum_list (map nodes xs))"
  using assms
proof (induction xs arbitrary: p n ys)
  case Nil
  then have "\<not> ast_is_delimiter q '',''" "p = q" by (simp_all add: is_delimiter_current)
  then show ?case by (rule_tac settles_Suc) (simp add: tuple_items.simps)
next
  case (Cons x xs)
  let ?E = "ast_parse_expression src" and ?rest = "concat (map (\<lambda>x. delim '','' # unparse x) xs)"
  have x: "expression_reads src x" "wf_expr x" using Cons.prems(1) by auto
  from Cons.prems(3) obtain p1 p2 where p1: "current p = delim '',''" "ast_next src p = Some p1" and rx: "reads src p1 (unparse x) p2"
    and rest: "reads src p2 ?rest q" by (auto simp: reads_append)
  have c2: "current p2 = delim (if xs = [] then '')'' else '','')"
    using rest Cons.prems(4) by (cases xs) auto
  have X: "settles (\<lambda>f k. ?E f p1 n 0) (Ptr (tree x), p2, n + nodes x)"
    by (rule expression_whole [OF x(1) rx _ c2 _ _ _ x(2)]) (use Cons.prems in auto)
  have d: "\<not> \<not> ast_is_delimiter p '',''" "\<not> ast_is_delimiter p1 '')''" "\<not> AST_MAX_ARGS \<le> length ys"
    using p1 reads_starts [OF rx] Cons.prems(2) by (simp_all add: is_delimiter_current)
  have "settles (\<lambda>f k. tuple_items src (?E f) k p2 (n + nodes x) (ys @ [tree x]))
      (Ptr ((ys @ [tree x]) @ map tree xs), q, n + nodes x + sum_list (map nodes xs))"
    by (rule Cons.IH) (use Cons.prems rest in auto)
  then show ?case
    by (rule_tac settles_Suc, unfold tuple_items.simps if_not_P [OF d(1)], simp only: p1(2) bind.bind_lunit,
        unfold if_not_P [OF d(2)] if_not_P [OF d(3)], rule_tac settles_on_node [OF X]) (simp add: add.assoc)
qed

lemma tuple_reads:
  assumes xs: "\<forall>x\<in>set xs. expression_reads src x \<and> wf_expr x" and len: "length xs \<le> AST_MAX_ARGS"
  shows "postfix_reads src (Tup xs)"
proof (rule primary_reads)
  let ?E = "ast_parse_expression src" and ?t = "node AST_TUPLE (ascii ''tuple'')"
  fix p q n
  assume r: "reads src p (unparse (Tup xs)) q" and n: "n + nodes (Tup xs) \<le> AST_MAX_NODES"
  from r obtain p1 where c: "current p = delim ''(''" and p1: "ast_next src p = Some p1"
    and r1: "reads src p1 (commas [delim '',''] (map unparse xs) @ (if length xs = 1 then [delim '',''] else []) @ [delim '')'']) q"
    by auto
  show "settles (\<lambda>f k. ast_parse_primary src (?E f) k p n) (Ptr (tree (Tup xs)), q, n + nodes (Tup xs))"
  proof (cases xs)
    case Nil
    then show ?thesis using r1 n
      by (simp add: primary_paren [OF c] parse_paren_def p1 is_delimiter_current ast_new_def on_node_def
          node_def with_args_def)
  next
    case (Cons x ys)
    let ?rest = "concat (map (\<lambda>x. delim '','' # unparse x) ys)"
    have x: "expression_reads src x" "wf_expr x" using xs Cons by auto
    from r1 obtain p2 where rx: "reads src p1 (unparse x) p2"
      and rr: "reads src p2 (?rest @ (if ys = [] then [delim '',''] else []) @ [delim '')'']) q"
      by (auto simp: Cons commas_Cons reads_append comp_def)
    have c2: "current p2 = delim '',''" using rr by (cases ys) auto
    have s1: "\<not> ast_is_delimiter p1 '')''" using reads_starts [OF rx] by simp
    have X: "settles (\<lambda>f k. ?E f p1 n 0) (Ptr (tree x), p2, n + nodes x)"
      by (rule expression_whole [OF x(1) rx _ c2 _ _ _ x(2)]) (use n Cons in auto)
    have d2: "\<not> \<not> ast_is_delimiter p2 '',''" using c2 by (simp add: is_delimiter_current)
    have T: "\<exists>p3. settles (\<lambda>f k. tuple_items src (?E f) k p2 (n + nodes x + 1) [tree x])
        (Ptr (map tree xs), p3, n + nodes x + 1 + sum_list (map nodes ys)) \<and> reads src p3 [delim '')''] q"
    proof (cases ys)
      case Nil
      then obtain p3 where p3: "ast_next src p2 = Some p3" and z: "reads src p3 [delim '')''] q" using rr by auto
      have "settles (\<lambda>f k. tuple_items src (?E f) k p2 (n + nodes x + 1) [tree x]) (Ptr [tree x], p3, n + nodes x + 1)"
        by (rule settles_Suc) (use d2 p3 z in \<open>simp add: tuple_items.simps is_delimiter_current\<close>)
      with z show ?thesis by (auto simp: Nil Cons)
    next
      case (Cons y zs)
      then obtain p3 where ry: "reads src p2 ?rest p3" and z: "reads src p3 [delim '')''] q"
        using rr by (simp only: list.distinct if_False append_Nil reads_append) blast
      have "settles (\<lambda>f k. tuple_items src (?E f) k p2 (n + nodes x + 1) [tree x])
          (Ptr ([tree x] @ map tree ys), p3, n + nodes x + 1 + sum_list (map nodes ys))"
        by (rule tuple_items_read [OF _ _ ry]) (use z xs len n \<open>xs = x # ys\<close> in auto)
      with z show ?thesis by (auto simp: \<open>xs = x # ys\<close>)
    qed
    then obtain p3 where T: "settles (\<lambda>f k. tuple_items src (?E f) k p2 (n + nodes x + 1) [tree x])
        (Ptr (map tree xs), p3, n + nodes x + 1 + sum_list (map nodes ys))" and z: "reads src p3 [delim '')''] q" by blast
    show ?thesis unfolding primary_paren [OF c] parse_paren_def p1 bind.bind_lunit if_not_P [OF s1]
      by (rule settles_on_node [OF X], unfold if_not_P [OF d2], rule new_node_then, use n Cons in simp,
          rule settles_on_node [OF T], rule closed_settles [OF z]) (simp add: Cons comp_def)
  qed
qed simp

section \<open>Every expression\<close>

lemma expression_round_trip:
  "wf_expr e \<Longrightarrow> postfix_reads src e \<and> expression_reads src e"
proof (induction e)
  case (Unop s a)
  then have u: "continues src k (unparse (Unop s a)) (Unop s a)" if "k \<le> 7" for k
    using that by (intro unary_continues) auto
  have p: "postfix_reads src (Unop s a)" by (rule paren_reads [OF u]) simp_all
  then show ?case using expression_readsI [OF p _ Unop.prems] u by simp
next
  case (Binop s a b)
  then have u: "continues src k (unparse (Binop s a b)) (Binop s a b)" if "0 \<le> k" "k \<le> op_prec s" for k
    using that by (intro binary_continues) auto
  have l: "0 \<le> op_prec s" "op_prec s < 8" using Binop.prems op_prec_le [of s] by auto
  have p: "postfix_reads src (Binop s a b)" by (rule paren_reads [OF u]) (use l in simp_all)
  then show ?case using expression_readsI [OF p _ Binop.prems] u by simp
next
  case (Call c xs)
  then have "postfix_reads src (Call c xs)" by (intro call_reads) auto
  then show ?case using expression_readsI [OF _ _ Call.prems] by auto
next
  case (Slice a x y z)
  then have "postfix_reads src (Slice a x y z)" by (intro slice_reads) (auto simp: part_ok_def)
  then show ?case using expression_readsI [OF _ _ Slice.prems] by auto
next
  case (Dict xs)
  then have "\<forall>x\<in>set xs. pair_ok src x" by (fastforce simp: pair_ok_def)
  then have "postfix_reads src (Dict xs)" using Dict.prems by (intro dict_reads) auto
  then show ?case using expression_readsI [OF _ _ Dict.prems] by auto
next
  case (Lst xs)
  then have "postfix_reads src (Lst xs)" by (intro list_reads) auto
  then show ?case using expression_readsI [OF _ _ Lst.prems] by auto
next
  case (Tup xs)
  then have "postfix_reads src (Tup xs)" by (intro tuple_reads) auto
  then show ?case using expression_readsI [OF _ _ Tup.prems] by auto
next
  case (Index a i)
  then have "postfix_reads src (Index a i)" by (intro index_reads) auto
  then show ?case using expression_readsI [OF _ _ Index.prems] by auto
next
  case (Member a s)
  then have "postfix_reads src (Member a s)" by (intro member_reads) auto
  then show ?case using expression_readsI [OF _ _ Member.prems] by auto
next
  case (Num s)
  then show ?case using atoms_read(1) expression_readsI [OF atoms_read(1) _ Num] by auto
next
  case (Str s)
  then show ?case using atoms_read(2) expression_readsI [OF atoms_read(2) _ Str] by auto
next
  case (Name s)
  then show ?case using atoms_read(3) expression_readsI [OF atoms_read(3) _ Name] by auto
qed

section \<open>Properties\<close>

text \<open>
  C31: the parser reads back every expression of its grammar.  When the tokens from the current one on
  are the text of the expression, with parentheses only where the precedences and the associativity
  ask for them, and then a token that no expression goes on with, and when the node array has room,
  then with enough fuel \<open>ast_parse_expression\<close> returns exactly the tree of the expression, in as many
  nodes as it has, and stops at that token.
\<close>

theorem ast_parse_expression_unparse:
  assumes "wf_expr e" "reads src p (unparse e) q" "n + nodes e \<le> AST_MAX_NODES"
    and "\<not> opener (current q)" "prec (current q) < 0"
  shows "\<exists>N. \<forall>f\<ge>N. ast_parse_expression src f p n 0 = Some (Ptr (tree e), q, n + nodes e)"
proof -
  have "expression_reads src e" using expression_round_trip assms(1) by blast
  then have "continues src 0 (unparse e) e"
    using level_bounds [OF assms(1)] by (force simp: expression_reads_def paren_def)
  from continues_whole [OF this assms(2-5)] show ?thesis by (auto simp: settles_def)
qed

text \<open>The source \<open>a-b-c\<close>, after its first token.\<close>

definition sample_lexer :: "nat \<Rightarrow> lexer" where
  "sample_lexer k = \<lparr>lx_pos = k, lx_line = 1, lx_col = k + 1, at_line_start = False, pending_dedents = 0,
     indent_stack = [0], indent_top = 0\<rparr>"

definition sample_parser :: "nat \<Rightarrow> token_type \<Rightarrow> u8 list \<Rightarrow> nat \<Rightarrow> ast_parser" where
  "sample_parser k ty s c = \<lparr>plexer = sample_lexer k, pcurrent = \<lparr>ttype = ty, ttext = s, tline = 1, tcol = c\<rparr>, perror = False\<rparr>"

abbreviation sample_source :: "u8 list" where
  "sample_source \<equiv> [97, 45, 98, 45, 99, 0, 0]"

lemmas lexer_eval = lexer_next.simps lexer_step_def line_start_def lexer_token_def Let_def lexer_peek_def lexer_advance_def
  skip_while.simps take_while.simps lexer_is_identifier_start_def lexer_is_identifier_char_def is_alpha_def is_digit_def
  lexer_is_keyword_def lexer_make_token_def lexer_operator_def operator_text_def LEX_TOKEN_TEXT_def ascii_def

lemma sample_tokens:
  "lexer_next sample_source (sample_lexer 1) = Some (\<lparr>ttype = TOK_OPERATOR, ttext = [45], tline = 1, tcol = 2\<rparr>, sample_lexer 2)"
  "lexer_next sample_source (sample_lexer 2) = Some (\<lparr>ttype = TOK_IDENTIFIER, ttext = [98], tline = 1, tcol = 3\<rparr>, sample_lexer 3)"
  "lexer_next sample_source (sample_lexer 3) = Some (\<lparr>ttype = TOK_OPERATOR, ttext = [45], tline = 1, tcol = 4\<rparr>, sample_lexer 4)"
  "lexer_next sample_source (sample_lexer 4) = Some (\<lparr>ttype = TOK_IDENTIFIER, ttext = [99], tline = 1, tcol = 5\<rparr>, sample_lexer 5)"
  "lexer_next sample_source (sample_lexer 5) = Some (\<lparr>ttype = TOK_EOF, ttext = [], tline = 1, tcol = 6\<rparr>, sample_lexer 5)"
  by (simp_all add: lexer_eval sample_lexer_def)

theorem ast_parse_expression_unparse_witness:
  "\<exists>N. \<forall>f\<ge>N. ast_parse_expression sample_source f (sample_parser 1 TOK_IDENTIFIER [97] 1) 0 0 =
     Some (Ptr (tree (Binop [45] (Binop [45] (Name [97]) (Name [98])) (Name [99]))), sample_parser 5 TOK_EOF [] 6, 5)"
proof -
  let ?e = "Binop [45] (Binop [45] (Name [97]) (Name [98])) (Name [99])"
  have p: "op_prec [45] = 4" "\<not> lexer_is_keyword [45]" "[45] \<noteq> ascii ''**''"
    "\<not> lexer_is_keyword [97]" "\<not> lexer_is_keyword [98]" "\<not> lexer_is_keyword [99]"
    by (simp_all add: op_prec_def ast_precedence_def ascii_def lexer_is_keyword_def)
  have r: "reads sample_source (sample_parser 1 TOK_IDENTIFIER [97] 1) (unparse ?e) (sample_parser 5 TOK_EOF [] 6)"
    by (simp add: p op_type_def left_level_def right_level_def paren_def sample_parser_def current_def ast_next_def
        sample_tokens [unfolded One_nat_def])
  have "wf_expr ?e" using p by (simp add: LEX_TOKEN_TEXT_def)
  moreover have "\<not> opener (current (sample_parser 5 TOK_EOF [] 6))" "prec (current (sample_parser 5 TOK_EOF [] 6)) < 0"
    by (simp_all add: sample_parser_def current_def opener_def delim_def prec_def ast_precedence_def)
  moreover have n: "0 + nodes ?e = 5" "5 \<le> AST_MAX_NODES" by (simp_all add: AST_MAX_NODES_def)
  ultimately show ?thesis
    using ast_parse_expression_unparse [of ?e sample_source _ _ 0, OF _ r] unfolding n(1) by blast
qed

end
