(* ===== verification/Ptterm.thy ===== *)
theory Ptterm imports Ptround begin

text \<open>
  The parser always returns: for every source there is fuel that is enough.  The rank of a state
  counts the tokens that can still come; a token that is used up makes it smaller, except the end of
  the source, an error and the empty number at which the lexer sticks, and nothing calls the parser
  again after one of these.
\<close>

section \<open>Ranks\<close>

definition dead :: "u8 list \<Rightarrow> ast_parser \<Rightarrow> bool" where
  "dead src p \<longleftrightarrow> ends (pcurrent p) \<or> stuck src (pcurrent p) (plexer p)"

definition rank :: "u8 list \<Rightarrow> ast_parser \<Rightarrow> nat" where
  "rank src p = 2 * lex_work src (plexer p) + (if dead src p then 0 else 1)"

text \<open>The source is fit for the lexer, and the lexer is in order.\<close>

definition pok :: "u8 list \<Rightarrow> ast_parser \<Rightarrow> bool" where
  "pok src p \<longleftrightarrow> terminated src \<and> length (cstr src) + 1 < length src \<and> lex_ok src (plexer p)"

lemma emits_work: "emits src lx t lx' \<Longrightarrow> ttype t = TOK_EOF \<or> ttype t = TOK_ERROR \<or> ttype t = TOK_FLOAT \<Longrightarrow>
    lex_work src lx' \<le> lex_work src lx"
  by (auto simp: emits_def lex_work_def depth_change_def)

lemma next_rank:
  assumes "pok src p"
  shows "returns (ast_next src p) (\<lambda>p'. pok src p' \<and> rank src p' \<le> rank src p \<and> (\<not> dead src p \<longrightarrow> rank src p' < rank src p))"
proof -
  from assms have src: "terminated src" "length (cstr src) + 1 < length src" and ok: "lex_ok src (plexer p)"
    by (auto simp: pok_def)
  obtain t lx where t: "lexer_next src (plexer p) = Some (t, lx)" "emits src (plexer p) t lx"
    using lexer_next_ok [OF src ok] by blast
  define p' where "p' = \<lparr>plexer = lx, pcurrent = t, perror = (perror p \<or> ttype t = TOK_ERROR)\<rparr>"
  have "rank src p' \<le> 2 * lex_work src (plexer p)"
  proof (cases "dead src p'")
    case True
    then have "ttype t = TOK_EOF \<or> ttype t = TOK_ERROR \<or> ttype t = TOK_FLOAT"
      by (auto simp: dead_def p'_def ends_def stuck_def)
    then show ?thesis using emits_work [OF t(2)] True by (simp add: rank_def p'_def)
  next
    case False
    then have "lex_work src lx < lex_work src (plexer p)" using t(2) by (auto simp: emits_def dead_def p'_def)
    then show ?thesis by (simp add: rank_def p'_def)
  qed
  moreover have "pok src p'" using t(2) src by (simp add: pok_def p'_def emits_def)
  ultimately show ?thesis using t(1) by (auto simp: ast_next_def p'_def [symmetric] rank_def)
qed

lemma live_delimiter: "ast_is_delimiter p d \<Longrightarrow> \<not> dead src p"
  by (simp add: dead_def ast_is_delimiter_def ends_def stuck_def)

lemma live_keyword: "ast_is_keyword p d \<Longrightarrow> \<not> dead src p"
  by (simp add: dead_def ast_is_keyword_def ends_def stuck_def)

lemma live_type: "ttype (pcurrent p) \<notin> {TOK_EOF, TOK_ERROR, TOK_FLOAT} \<Longrightarrow> \<not> dead src p"
  by (auto simp: dead_def ends_def stuck_def)

lemma live_operator: "0 \<le> ast_precedence (pcurrent p) \<Longrightarrow> \<not> dead src p"
  by (rule live_type) (auto simp: ast_precedence_def)

lemma error_rank [simp]: "rank src (p \<lparr>perror := b\<rparr>) = rank src p" "pok src (p \<lparr>perror := b\<rparr>) = pok src p"
  by (simp_all add: rank_def dead_def pok_def)

section \<open>Rules for computations that return\<close>

definition halts :: "(nat \<Rightarrow> nat \<Rightarrow> 'a option) \<Rightarrow> ('a \<Rightarrow> bool) \<Rightarrow> bool" where
  "halts F Q \<longleftrightarrow> (\<exists>r. settles F r \<and> Q r)"

named_theorems halting \<open>rules that decompose a computation of the parser\<close>

lemma halts_Some [halting]: "Q x \<Longrightarrow> halts (\<lambda>f k. Some x) Q"
  by (simp add: halts_def)

lemma halts_if [halting]: "(b \<Longrightarrow> halts F Q) \<Longrightarrow> (\<not> b \<Longrightarrow> halts G Q) \<Longrightarrow> halts (\<lambda>f k. if b then F f k else G f k) Q"
  by (cases b) simp_all

lemma haltsI: "settles F r \<Longrightarrow> Q r \<Longrightarrow> halts F Q"
  by (auto simp: halts_def)

lemma halts_mono: "halts F P \<Longrightarrow> (\<And>r. P r \<Longrightarrow> Q r) \<Longrightarrow> halts F Q"
  by (auto simp: halts_def)

lemma halts_Suc: "halts (\<lambda>f k. F f (Suc k)) Q \<Longrightarrow> halts F Q"
  using settles_Suc by (fastforce simp: halts_def)

lemma halts_bind:
  assumes "halts F P" "\<And>x. P x \<Longrightarrow> halts (\<lambda>f k. G f k x) Q"
  shows "halts (\<lambda>f k. F f k \<bind> G f k) Q"
proof -
  from assms(1) obtain x where x: "settles F x" "P x" by (auto simp: halts_def)
  with assms(2) obtain r where "settles (\<lambda>f k. G f k x) r" "Q r" by (auto simp: halts_def)
  then show ?thesis by (intro haltsI [OF settles_bind [OF x(1)]])
qed

lemma settles_on_NULL: "settles F (NULL, p, n) \<Longrightarrow> settles (\<lambda>f k. on_node (F f k) (G f k)) (NULL, p, n)"
proof -
  assume "settles F (NULL, p, n)"
  then obtain N where "\<forall>f\<ge>N. \<forall>k\<ge>N. F f k = Some (NULL, p, n)" by (auto simp: settles_def)
  then have "\<forall>f\<ge>N. \<forall>k\<ge>N. on_node (F f k) (G f k) = Some (NULL, p, n)" by (simp add: on_node_def)
  then show ?thesis by (auto simp: settles_def)
qed

lemma halts_on_node:
  assumes "halts F P" "\<And>p n. P (NULL, p, n) \<Longrightarrow> Q (NULL, p, n)"
    "\<And>a p n. P (Ptr a, p, n) \<Longrightarrow> halts (\<lambda>f k. G f k a p n) Q"
  shows "halts (\<lambda>f k. on_node (F f k) (G f k)) Q"
proof -
  from assms(1) obtain x p n where x: "settles F (x, p, n)" "P (x, p, n)" by (auto simp: halts_def)
  show ?thesis
  proof (cases x)
    case NULL
    then show ?thesis using x assms(2) by (intro haltsI [OF settles_on_NULL]) auto
  next
    case (Ptr a)
    then have "halts (\<lambda>f k. G f k a p n) Q" using x(2) assms(3) by simp
    then obtain r where "settles (\<lambda>f k. G f k a p n) r" "Q r" unfolding halts_def by blast
    then show ?thesis using x Ptr by (intro haltsI [OF settles_on_node]) auto
  qed
qed

lemma halts_next [halting]:
  assumes "pok src p"
    and "\<And>p'. pok src p' \<Longrightarrow> rank src p' \<le> rank src p \<Longrightarrow> (\<not> dead src p \<Longrightarrow> rank src p' < rank src p) \<Longrightarrow> halts (\<lambda>f k. F f k p') Q"
  shows "halts (\<lambda>f k. ast_next src p \<bind> F f k) Q"
proof -
  obtain p' where "ast_next src p = Some p'" "pok src p'" "rank src p' \<le> rank src p" "\<not> dead src p \<longrightarrow> rank src p' < rank src p"
    using next_rank [OF assms(1)] by (auto simp: returns_iff)
  then show ?thesis using assms(2) by simp
qed

lemma halts_error [halting]: "Q (NULL, p \<lparr>perror := True\<rparr>, n) \<Longrightarrow> halts (\<lambda>f k. syntax_error p n) Q"
  by (simp add: syntax_error_def halts_Some)

lemma halts_new [halting]: "Q (NULL, p, n) \<Longrightarrow> Q (Ptr (node c s), p, n + 1) \<Longrightarrow> halts (\<lambda>f k. ast_new c s p n) Q"
  by (simp add: ast_new_def halts_Some)

lemma halts_new_node [halting]:
  "Q (NULL, p, n) \<Longrightarrow> halts (\<lambda>f k. F f k (node c s) p (n + 1)) Q \<Longrightarrow> halts (\<lambda>f k. on_node (ast_new c s p n) (F f k)) Q"
  by (simp add: ast_new_def on_node_def halts_Some)

lemma halts_closed [halting]:
  assumes "pok src p" "Q (NULL, p \<lparr>perror := True\<rparr>, n)"
    and "\<And>p'. pok src p' \<Longrightarrow> rank src p' < rank src p \<Longrightarrow> halts (\<lambda>f k. F f k p') Q"
  shows "halts (\<lambda>f k. closed_by src d p n (F f k)) Q"
  using assms live_delimiter unfolding closed_by_def by (auto intro!: halting)

text \<open>A result whose rank is at most \<open>m\<close>.\<close>

definition within :: "u8 list \<Rightarrow> nat \<Rightarrow> 'a \<times> ast_parser \<times> nat \<Rightarrow> bool" where
  "within src m r \<longleftrightarrow> (case r of (x, p, n) \<Rightarrow> pok src p \<and> rank src p \<le> m)"

lemma within_iff [simp]: "within src m (x, p, n) \<longleftrightarrow> pok src p \<and> rank src p \<le> m"
  by (simp add: within_def)

section \<open>Expressions\<close>

text \<open>What the functions below know of the expression parser: it returns from every state of a rank below \<open>M\<close>.\<close>

definition returns_below :: "u8 list \<Rightarrow> nat \<Rightarrow> bool" where
  "returns_below src M \<longleftrightarrow> (\<forall>p n m. pok src p \<longrightarrow> rank src p < M \<longrightarrow> 0 \<le> m \<longrightarrow>
     halts (\<lambda>f k. ast_parse_expression src f p n m) (within src (rank src p)))"

lemma halts_expression:
  assumes "returns_below src M" "pok src p" "rank src p < M" "0 \<le> m"
    and "\<And>p' n'. pok src p' \<Longrightarrow> rank src p' \<le> rank src p \<Longrightarrow> Q (NULL, p', n')"
    and "\<And>a p' n'. pok src p' \<Longrightarrow> rank src p' \<le> rank src p \<Longrightarrow> halts (\<lambda>f k. G f k a p' n') Q"
  shows "halts (\<lambda>f k. on_node (ast_parse_expression src f p n m) (G f k)) Q"
proof -
  have "halts (\<lambda>f k. ast_parse_expression src f p n m) (within src (rank src p))"
    using assms(1-4) by (simp add: returns_below_def)
  then show ?thesis by (rule halts_on_node) (use assms(5,6) in auto)
qed

lemma items_halts:
  assumes E: "returns_below src M"
  shows "pok src p \<Longrightarrow> rank src p < M \<Longrightarrow>
    halts (\<lambda>f k. items src (ast_parse_expression src f) k close p n xs) (within src (rank src p))"
proof (induction "rank src p" arbitrary: p n xs rule: less_induct)
  case less
  note IH = less.hyps
  show ?case
    by (rule halts_Suc, unfold items.simps)
      (use less.prems in \<open>auto intro!: halting halts_expression [OF E] halts_mono [OF IH] simp: live_delimiter\<close>)
qed

lemma pairs_halts:
  assumes E: "returns_below src M"
  shows "pok src p \<Longrightarrow> rank src p < M \<Longrightarrow> halts (\<lambda>f k. pairs src (ast_parse_expression src f) k p n xs) (within src (rank src p))"
proof (induction "rank src p" arbitrary: p n xs rule: less_induct)
  case less
  note IH = less.hyps
  have key: "halts (\<lambda>f k. ast_parse_expression src f p n 0) (within src (rank src p))"
    using E less.prems by (simp add: returns_below_def)
  have rest: "halts (\<lambda>f k. case r of (key, p, n) \<Rightarrow> (case key of NULL \<Rightarrow> syntax_error p n
         | Ptr a \<Rightarrow> if \<not> ast_is_delimiter p '':'' then syntax_error p n
             else do {
               p \<leftarrow> ast_next src p;
               on_node (ast_parse_expression src f p n 0) (\<lambda>v p n.
                 if \<not> ast_is_delimiter p '','' then Some (Ptr (xs @ [a, v]), p, n)
                 else do {
                   p \<leftarrow> ast_next src p;
                   if ast_is_delimiter p ''}'' then Some (Ptr (xs @ [a, v]), p, n)
                   else pairs src (ast_parse_expression src f) k p n (xs @ [a, v])})})) (within src (rank src p))"
    if r: "within src (rank src p) r" for r
  proof -
    obtain key q n' where q: "r = (key, q, n')" by (cases r)
    show ?thesis
      using r less.prems
      by (cases key) (auto simp: q live_delimiter intro!: halting halts_expression [OF E] halts_mono [OF IH])
  qed
  show ?case
    by (rule halts_Suc, unfold pairs.simps)
      (use less.prems rest in \<open>auto intro!: halting halts_bind [OF key]\<close>)
qed

lemma tuple_items_halts:
  assumes E: "returns_below src M"
  shows "pok src p \<Longrightarrow> rank src p \<le> M \<Longrightarrow> halts (\<lambda>f k. tuple_items src (ast_parse_expression src f) k p n xs) (within src (rank src p))"
proof (induction "rank src p" arbitrary: p n xs rule: less_induct)
  case less
  note IH = less.hyps
  show ?case
    by (rule halts_Suc, unfold tuple_items.simps)
      (use less.prems in \<open>auto intro!: halting halts_expression [OF E] halts_mono [OF IH] simp: live_delimiter\<close>)
qed

lemma slice_rest_halts:
  assumes E: "returns_below src M" and p: "pok src p" "rank src p < M"
  shows "halts (\<lambda>f k. slice_rest src (ast_parse_expression src f) p n start) (within src (rank src p))"
  unfolding slice_rest_def
  by (rule halts_on_node [where P = "within src (rank src p)"])
    (use p in \<open>auto intro!: halting halts_expression [OF E] simp: live_delimiter\<close>)

lemma subscript_halts:
  assumes E: "returns_below src M" and p: "pok src p" "rank src p < M"
  shows "halts (\<lambda>f k. subscript src (ast_parse_expression src f) p n a) (within src (rank src p))"
  unfolding subscript_def
  by (rule halts_on_node [where P = "within src (rank src p)"])
    (use p in \<open>auto intro!: halting halts_expression [OF E] halts_on_node [OF slice_rest_halts [OF E]] simp: live_delimiter\<close>)

lemma bracketed_halts:
  assumes E: "returns_below src M" and p: "pok src p" "rank src p \<le> M"
  shows "ast_is_delimiter p d \<Longrightarrow> halts (\<lambda>f k. parse_list src (ast_parse_expression src f) k p n) (within src (rank src p))"
    and "ast_is_delimiter p d \<Longrightarrow> halts (\<lambda>f k. parse_dict src (ast_parse_expression src f) k p n) (within src (rank src p))"
    and "ast_is_delimiter p d \<Longrightarrow> halts (\<lambda>f k. parse_call src (ast_parse_expression src f) k p n a)
      (\<lambda>(x, p', n'). pok src p' \<and> rank src p' < rank src p \<or> x = NULL \<and> pok src p' \<and> rank src p' \<le> rank src p)"
proof -
  assume d: "ast_is_delimiter p d"
  note live = live_delimiter [OF d, of src]
  show "halts (\<lambda>f k. parse_list src (ast_parse_expression src f) k p n) (within src (rank src p))"
    unfolding parse_list_def
    by (use p live in \<open>auto intro!: halting halts_on_node [where P = "within src (rank src p)"] halts_mono [OF items_halts [OF E]]\<close>)
  show "halts (\<lambda>f k. parse_dict src (ast_parse_expression src f) k p n) (within src (rank src p))"
    unfolding parse_dict_def
    by (use p live in \<open>auto intro!: halting halts_on_node [where P = "within src (rank src p)"] halts_mono [OF pairs_halts [OF E]]\<close>)
  show "halts (\<lambda>f k. parse_call src (ast_parse_expression src f) k p n a)
      (\<lambda>(x, p', n'). pok src p' \<and> rank src p' < rank src p \<or> x = NULL \<and> pok src p' \<and> rank src p' \<le> rank src p)"
    unfolding parse_call_def
    by (use p live in \<open>auto intro!: halting halts_on_node [where P = "within src (rank src p)"] halts_mono [OF items_halts [OF E]]\<close>)
qed

lemma paren_halts:
  assumes E: "returns_below src M" and p: "pok src p" "rank src p \<le> M" and d: "ast_is_delimiter p d"
  shows "halts (\<lambda>f k. parse_paren src (ast_parse_expression src f) k p n) (within src (rank src p))"
  unfolding parse_paren_def
  using p live_delimiter [OF d, of src]
  by (auto intro!: halting halts_expression [OF E] halts_on_node [OF tuple_items_halts [OF E]])

lemma unary_halts:
  assumes E: "returns_below src M" and p: "pok src p" "rank src p \<le> M" and d: "\<not> dead src p"
  shows "halts (\<lambda>f k. parse_unary src (ast_parse_expression src f) p n) (within src (rank src p))"
  unfolding parse_unary_def Let_def
  using p d by (auto intro!: halting halts_expression [OF E])

lemma primary_halts:
  assumes E: "returns_below src M" and p: "pok src p" "rank src p \<le> M"
  shows "halts (\<lambda>f k. ast_parse_primary src (ast_parse_expression src f) k p n) (within src (rank src p))"
proof -
  have op: "ttype (pcurrent p) = TOK_OPERATOR \<Longrightarrow> \<not> dead src p" by (rule live_type) simp
  show ?thesis unfolding ast_parse_primary_def Let_def
    using p op
    by (auto intro!: halting bracketed_halts(1,2) [OF E] paren_halts [OF E] unary_halts [OF E] dest: live_keyword)
qed

lemma member_halts:
  assumes p: "pok src p" and d: "ast_is_delimiter p d"
  shows "halts (\<lambda>f k. parse_member src p n a)
    (\<lambda>(x, p', n'). pok src p' \<and> rank src p' < rank src p \<or> x = NULL \<and> pok src p' \<and> rank src p' \<le> rank src p)"
  unfolding parse_member_def
  using p live_delimiter [OF d, of src] by (auto intro!: halting)

lemma postfix_loop_halts:
  assumes E: "returns_below src M"
  shows "pok src p \<Longrightarrow> rank src p \<le> M \<Longrightarrow>
    halts (\<lambda>f k. postfix_loop src (ast_parse_expression src f) k p n a) (within src (rank src p))"
proof (induction "rank src p" arbitrary: p n a rule: less_induct)
  case less
  note IH = less.hyps
  show ?case
    by (rule halts_Suc, unfold postfix_loop.simps)
      (use less.prems in \<open>auto intro!: halting halts_mono [OF IH] halts_on_node [OF bracketed_halts(3) [OF E]]
        halts_on_node [OF member_halts] halts_on_node [where F = "\<lambda>f k. ast_next src p \<bind> F f k" and P = "\<lambda>(x, p', n'). pok src p' \<and> rank src p' < rank src p" for F]
        halts_mono [OF subscript_halts [OF E]] simp: live_delimiter\<close>)
qed

lemma expression_loop_halts:
  assumes E: "returns_below src M" and m: "0 \<le> m"
  shows "pok src p \<Longrightarrow> rank src p \<le> M \<Longrightarrow>
    halts (\<lambda>f k. expression_loop src (ast_parse_expression src f) k p n m a) (within src (rank src p))"
proof (induction "rank src p" arbitrary: p n a rule: less_induct)
  case less
  note IH = less.hyps
  have op: "m \<le> ast_precedence (pcurrent p) \<Longrightarrow> \<not> dead src p" using m by (intro live_operator) simp
  show ?case
    by (rule halts_Suc, unfold expression_loop.simps Let_def)
      (use less.prems m op in \<open>auto intro!: halting halts_mono [OF IH] halts_expression [OF E]\<close>)
qed

lemma halts_expressionI:
  "halts (\<lambda>f k. on_node (ast_parse_postfix src (ast_parse_expression src f) k p n)
      (\<lambda>left p n. expression_loop src (ast_parse_expression src f) k p n m left)) Q \<Longrightarrow>
   halts (\<lambda>f k. ast_parse_expression src f p n m) Q"
  unfolding halts_def using settles_expression by blast

lemma expression_returns: "returns_below src M"
proof (induction M)
  case 0
  show ?case by (simp add: returns_below_def)
next
  case (Suc M)
  show ?case unfolding returns_below_def
  proof (intro allI impI)
    fix p n m
    assume p: "pok src p" "rank src p < Suc M" and m: "(0 :: int) \<le> m"
    then have r: "rank src p \<le> M" by simp
    have post: "halts (\<lambda>f k. ast_parse_postfix src (ast_parse_expression src f) k p n) (within src (rank src p))"
      unfolding ast_parse_postfix_def
      by (rule halts_on_node [OF primary_halts [OF Suc p(1) r]])
        (use r in \<open>auto intro!: halts_mono [OF postfix_loop_halts [OF Suc]]\<close>)
    show "halts (\<lambda>f k. ast_parse_expression src f p n m) (within src (rank src p))"
      by (rule halts_expressionI [OF halts_on_node [OF post]])
        (use r m in \<open>auto intro!: halts_mono [OF expression_loop_halts [OF Suc m]]\<close>)
  qed
qed

section \<open>Statements\<close>

lemma expression_halts [halting]:
  assumes "pok src p" "0 \<le> m" "\<And>x p' n'. pok src p' \<Longrightarrow> rank src p' \<le> rank src p \<Longrightarrow> Q (x, p', n')"
  shows "halts (\<lambda>f k. ast_parse_expression src f p n m) Q"
proof -
  have "halts (\<lambda>f k. ast_parse_expression src f p n m) (within src (rank src p))"
    using expression_returns [of src "rank src p + 1"] assms(1,2) by (simp add: returns_below_def)
  then show ?thesis by (rule halts_mono) (use assms(3) in auto)
qed

lemma expression_node_halts [halting]:
  assumes "pok src p" "0 \<le> m" "\<And>p' n'. pok src p' \<Longrightarrow> rank src p' \<le> rank src p \<Longrightarrow> Q (NULL, p', n')"
    and "\<And>a p' n'. pok src p' \<Longrightarrow> rank src p' \<le> rank src p \<Longrightarrow> halts (\<lambda>f k. G f k a p' n') Q"
  shows "halts (\<lambda>f k. on_node (ast_parse_expression src f p n m) (G f k)) Q"
  by (rule halts_expression [OF expression_returns]) (use assms in auto)

text \<open>In the statements the expressions get the second fuel.\<close>

lemma halts_second: "halts (\<lambda>f k. F f) Q \<Longrightarrow> halts (\<lambda>f k. F k) Q"
  by (force simp: halts_def settles_def)

lemma expression_second_halts [halting]:
  assumes "pok src p" "0 \<le> m" "\<And>x p' n'. pok src p' \<Longrightarrow> rank src p' \<le> rank src p \<Longrightarrow> Q (x, p', n')"
  shows "halts (\<lambda>f k. ast_parse_expression src k p n m) Q"
  using halts_second [of "\<lambda>f. ast_parse_expression src f p n m"] expression_halts assms by blast

lemma expression_second_node_halts [halting]:
  assumes "pok src p" "0 \<le> m" "\<And>p' n'. pok src p' \<Longrightarrow> rank src p' \<le> rank src p \<Longrightarrow> Q (NULL, p', n')"
    and "\<And>a p' n'. pok src p' \<Longrightarrow> rank src p' \<le> rank src p \<Longrightarrow> halts (\<lambda>f k. G f k a p' n') Q"
  shows "halts (\<lambda>f k. on_node (ast_parse_expression src k p n m) (G f k)) Q"
  by (rule halts_on_node [where P = "within src (rank src p)"]) (use assms in \<open>auto intro!: halting\<close>)

lemma assignment_halts:
  assumes "pok src p"
  shows "halts (\<lambda>f k. ast_parse_assignment_or_expr src k p n) (within src (rank src p))"
  unfolding ast_parse_assignment_or_expr_def Let_def using assms by (auto intro!: halting)

lemma skip_newlines_returns:
  "pok src p \<Longrightarrow> returns (ast_skip_newlines src p) (\<lambda>p'. pok src p' \<and> rank src p' \<le> rank src p \<and>
     (ttype (pcurrent p) = TOK_NEWLINE \<and> \<not> perror p \<longrightarrow> rank src p' < rank src p) \<and> (perror p \<longrightarrow> p' = p))"
proof (induction "rank src p" arbitrary: p rule: less_induct)
  case less
  show ?case
  proof (cases "\<not> perror p \<and> ttype (pcurrent p) = TOK_NEWLINE")
    case True
    then have "\<not> dead src p" by (intro live_type) simp
    with next_rank [OF less.prems] obtain q where q: "ast_next src p = Some q" "pok src q" "rank src q < rank src p"
      by (auto simp: returns_iff)
    from less.hyps [OF q(3,2)] have "returns (ast_skip_newlines src q) (\<lambda>p'. pok src p' \<and> rank src p' < rank src p)"
      by (rule returns_mono) (use q in auto)
    then show ?thesis using True q(1) by (auto simp: ast_skip_newlines.simps [of src p] returns_iff)
  next
    case False
    then show ?thesis using less.prems by (auto simp: ast_skip_newlines.simps [of src p])
  qed
qed

lemma skip_newlines_halts [halting]:
  assumes "pok src p" "\<And>p'. pok src p' \<Longrightarrow> rank src p' \<le> rank src p \<Longrightarrow>
      (ttype (pcurrent p) = TOK_NEWLINE \<and> \<not> perror p \<longrightarrow> rank src p' < rank src p) \<Longrightarrow> (perror p \<longrightarrow> p' = p) \<Longrightarrow> halts (\<lambda>f k. F f k p') Q"
  shows "halts (\<lambda>f k. ast_skip_newlines src p \<bind> F f k) Q"
proof -
  obtain y where y: "ast_skip_newlines src p = Some y" and q: "pok src y" "rank src y \<le> rank src p"
    "ttype (pcurrent p) = TOK_NEWLINE \<and> \<not> perror p \<longrightarrow> rank src y < rank src p" "perror p \<longrightarrow> y = p"
    using skip_newlines_returns [OF assms(1)] by (auto simp: returns_iff)
  show ?thesis unfolding y bind.bind_lunit by (rule assms(2) [OF q])
qed

text \<open>What the functions below know of the statement parser.  A compound statement begins with a keyword.\<close>

definition statement_post :: "u8 list \<Rightarrow> nat \<Rightarrow> ast_node cptr \<times> ast_parser \<times> nat \<Rightarrow> bool" where
  "statement_post src m r \<longleftrightarrow> (case r of (x, p, n) \<Rightarrow> pok src p \<and> rank src p \<le> m \<and>
     (\<forall>a. x = Ptr a \<and> ast_is_compound_statement a \<longrightarrow> rank src p < m))"

definition statements_below :: "u8 list \<Rightarrow> nat \<Rightarrow> bool" where
  "statements_below src M \<longleftrightarrow> (\<forall>p n. pok src p \<longrightarrow> rank src p < M \<longrightarrow>
     halts (\<lambda>f k. ast_parse_statement src f p n) (statement_post src (rank src p)))"

lemma halts_statement:
  assumes "statements_below src M" "pok src p" "rank src p < M"
    and "\<And>p' n'. pok src p' \<Longrightarrow> rank src p' \<le> rank src p \<Longrightarrow> Q (NULL, p', n')"
    and "\<And>a p' n'. pok src p' \<Longrightarrow> rank src p' \<le> rank src p \<Longrightarrow>
      (ast_is_compound_statement a \<Longrightarrow> rank src p' < rank src p) \<Longrightarrow> halts (\<lambda>f k. G f k a p' n') Q"
  shows "halts (\<lambda>f k. on_node (ast_parse_statement src f p n) (G f k)) Q"
proof -
  have "halts (\<lambda>f k. ast_parse_statement src f p n) (statement_post src (rank src p))"
    using assms(1-3) by (simp add: statements_below_def)
  then show ?thesis by (rule halts_on_node) (use assms(4,5) in \<open>auto simp: statement_post_def\<close>)
qed

lemma block_loop_now: "perror p \<or> ttype (pcurrent p) = TOK_DEDENT \<or> ttype (pcurrent p) = TOK_EOF \<Longrightarrow> Q (Ptr ss, p, n) \<Longrightarrow>
    halts (\<lambda>f k. block_loop src (S f) k p n ss) Q"
  by (rule halts_Suc) (auto simp: block_loop.simps intro: halting)

lemma block_loop_halts:
  assumes S: "statements_below src M"
  shows "pok src p \<Longrightarrow> rank src p < M \<Longrightarrow>
    halts (\<lambda>f k. block_loop src (ast_parse_statement src f) k p n ss) (within src (rank src p))"
proof (induction "rank src p" arbitrary: p n ss rule: less_induct)
  case less
  note IH = less.hyps
  have again: "halts (\<lambda>f k. block_loop src (ast_parse_statement src f) k q n' ss') (within src (rank src p))"
    if "pok src q" "rank src q \<le> rank src p"
      "rank src q < rank src p \<or> perror q \<or> ttype (pcurrent q) = TOK_DEDENT \<or> ttype (pcurrent q) = TOK_EOF" for q n' ss'
  proof (cases "rank src q < rank src p")
    case True
    then show ?thesis using that(1) less.prems by (intro halts_mono [OF IH]) auto
  next
    case False
    then show ?thesis using that by (intro block_loop_now) auto
  qed
  show ?case
    by (rule halts_Suc, unfold block_loop.simps)
      (use less.prems in \<open>auto intro!: halting halts_statement [OF S] again\<close>)
qed

lemma block_halts:
  assumes S: "statements_below src M" and p: "pok src p" "rank src p < M"
  shows "halts (\<lambda>f k. ast_parse_block src (ast_parse_statement src f) k p n) (within src (rank src p))"
  unfolding ast_parse_block_def
  using p by (auto intro!: halting halts_on_node [OF block_loop_halts [OF S]])

lemma expect_halts: "pok src p \<Longrightarrow> halts (\<lambda>f k. ast_expect_colon_newline_indent src p n) (within src (rank src p))"
  unfolding ast_expect_colon_newline_indent_def by (auto intro!: halting)

lemma suite_halts:
  assumes S: "statements_below src M" and p: "pok src p" "rank src p < M"
  shows "halts (\<lambda>f k. ast_parse_suite src (ast_parse_statement src f) k p n) (within src (rank src p))"
  unfolding ast_parse_suite_def
  by (rule halts_on_node [OF expect_halts [OF p(1)]]) (use p in \<open>auto intro!: halts_mono [OF block_halts [OF S]]\<close>)

lemma params_loop_halts:
  "pok src p \<Longrightarrow> halts (\<lambda>f k. params_loop src k p n xs) (within src (rank src p))"
proof (induction "rank src p" arbitrary: p n xs rule: less_induct)
  case less
  note IH = less.hyps
  have live: "ttype (pcurrent p) = TOK_IDENTIFIER \<Longrightarrow> \<not> dead src p" by (rule live_type) simp
  show ?case
    by (rule halts_Suc, unfold params_loop.simps)
      (use less.prems live in \<open>auto intro!: halting halts_mono [OF IH]\<close>)
qed

text \<open>The statements that hold statements.\<close>

lemma body_halts:
  assumes S: "statements_below src M" and p: "pok src p" "rank src p < m" "m \<le> M"
  shows "halts (\<lambda>f k. parse_body src (ast_parse_statement src f) k a p n) (statement_post src m)"
  unfolding parse_body_def
  by (rule halts_bind [OF suite_halts [OF S p(1)]]) (use p in \<open>auto intro!: halting simp: statement_post_def\<close>)

lemma if_halts:
  assumes S: "statements_below src M" and p: "pok src p" "rank src p \<le> M" and d: "\<not> dead src p"
  shows "halts (\<lambda>f k. parse_if src (ast_parse_statement src f) k p n) (statement_post src (rank src p))"
  unfolding parse_if_def Let_def
  using p d
  by (auto intro!: halting halts_on_node [OF suite_halts [OF S]] halts_statement [OF S] simp: statement_post_def)

lemma while_halts:
  assumes S: "statements_below src M" and p: "pok src p" "rank src p \<le> M" and d: "\<not> dead src p"
  shows "halts (\<lambda>f k. parse_while src (ast_parse_statement src f) k p n) (statement_post src (rank src p))"
  unfolding parse_while_def
  using p d by (auto intro!: halting body_halts [OF S] simp: statement_post_def)

lemma for_halts:
  assumes S: "statements_below src M" and p: "pok src p" "rank src p \<le> M" and d: "\<not> dead src p"
  shows "halts (\<lambda>f k. parse_for src (ast_parse_statement src f) k p n) (statement_post src (rank src p))"
  unfolding parse_for_def
  using p d by (auto intro!: halting body_halts [OF S] simp: statement_post_def)

lemma def_halts:
  assumes S: "statements_below src M" and p: "pok src p" "rank src p \<le> M" and d: "\<not> dead src p"
  shows "halts (\<lambda>f k. parse_def src (ast_parse_statement src f) k p n) (statement_post src (rank src p))"
  unfolding parse_def_def
  using p d by (auto intro!: halting body_halts [OF S] halts_on_node [OF params_loop_halts] simp: statement_post_def)

lemma return_halts:
  assumes p: "pok src p"
  shows "halts (\<lambda>f k. parse_return src k p n) (\<lambda>(x, p', n'). pok src p' \<and> rank src p' \<le> rank src p \<and>
    (\<forall>a. x = Ptr a \<longrightarrow> kind a = AST_RETURN))"
  unfolding parse_return_def
  using p by (auto intro!: halting halts_bind [where P = "within src (rank src p)"] simp: node_def with_left_def)

lemma halts_statementI:
  assumes "halts (\<lambda>f k. if ast_is_keyword p ''if'' \<or> ast_is_keyword p ''elif'' then parse_if src (ast_parse_statement src f) k p n
      else if ast_is_keyword p ''while'' then parse_while src (ast_parse_statement src f) k p n
      else if ast_is_keyword p ''for'' then parse_for src (ast_parse_statement src f) k p n
      else if ast_is_keyword p ''def'' then parse_def src (ast_parse_statement src f) k p n
      else if ast_is_keyword p ''return'' then parse_return src k p n
      else if ast_is_keyword p ''break'' then ast_next src p \<bind> (\<lambda>p. ast_new AST_BREAK (ascii ''break'') p n)
      else if ast_is_keyword p ''continue'' then ast_next src p \<bind> (\<lambda>p. ast_new AST_CONTINUE (ascii ''continue'') p n)
      else if ast_is_keyword p ''pass'' then ast_next src p \<bind> (\<lambda>p. ast_new AST_PASS (ascii ''pass'') p n)
      else on_node (ast_parse_assignment_or_expr src k p n) (\<lambda>x p n.
        on_node (ast_new AST_EXPR_STMT (ascii ''expr'') p n) (\<lambda>s p n. Some (Ptr (with_left s (Ptr x)), p, n)))) Q"
    (is "halts ?F Q")
  shows "halts (\<lambda>f k. ast_parse_statement src f p n) Q"
proof -
  obtain r N where r: "Q r" "\<forall>f\<ge>N. \<forall>k\<ge>N. ?F f k = Some r" using assms by (auto simp: halts_def settles_def)
  have "ast_parse_statement src f p n = Some r" if "Suc N \<le> f" for f
    using that r(2) by (cases f) (simp_all add: ast_parse_statement.simps)
  then have "settles (\<lambda>f k. ast_parse_statement src f p n) r" unfolding settles_def by blast
  then show ?thesis using r(1) by (rule haltsI)
qed

lemma not_compound: "kind a \<notin> {AST_IF, AST_WHILE, AST_FOR, AST_FUNCTION} \<Longrightarrow> \<not> ast_is_compound_statement a"
  by (simp add: ast_is_compound_statement_def)

lemma statements_return: "statements_below src M"
proof (induction M)
  case 0
  show ?case by (simp add: statements_below_def)
next
  case (Suc M)
  show ?case unfolding statements_below_def
  proof (intro allI impI)
    fix p n
    assume p: "pok src p" "rank src p < Suc M"
    then have r: "rank src p \<le> M" by simp
    have ret: "halts (\<lambda>f k. parse_return src k p n) (statement_post src (rank src p))"
      by (rule halts_mono [OF return_halts [OF p(1)]]) (auto simp: statement_post_def not_compound)
    have expr: "halts (\<lambda>f k. on_node (ast_parse_assignment_or_expr src k p n) (\<lambda>x p n.
        on_node (ast_new AST_EXPR_STMT (ascii ''expr'') p n) (\<lambda>s p n. Some (Ptr (with_left s (Ptr x)), p, n))))
        (statement_post src (rank src p))"
      by (rule halts_on_node [OF assignment_halts [OF p(1)]])
        (auto intro!: halting simp: statement_post_def not_compound node_def with_left_def)
    show "halts (\<lambda>f k. ast_parse_statement src f p n) (statement_post src (rank src p))"
      by (rule halts_statementI)
        (use p r ret expr in \<open>auto intro!: halting if_halts [OF Suc] while_halts [OF Suc] for_halts [OF Suc] def_halts [OF Suc]
          simp: live_keyword statement_post_def not_compound node_def\<close>)
  qed
qed

section \<open>The program\<close>

lemma skip_separators_returns:
  "pok src p \<Longrightarrow> returns (ast_skip_separators src p) (\<lambda>p'. pok src p' \<and> rank src p' \<le> rank src p \<and>
     ((ttype (pcurrent p) = TOK_NEWLINE \<or> ast_is_delimiter p '';'') \<and> \<not> perror p \<longrightarrow> rank src p' < rank src p) \<and>
     (perror p \<longrightarrow> p' = p))"
proof (induction "rank src p" arbitrary: p rule: less_induct)
  case less
  show ?case
  proof (cases "\<not> perror p \<and> (ttype (pcurrent p) = TOK_NEWLINE \<or> ast_is_delimiter p '';'')")
    case True
    then have "\<not> dead src p" using live_type [of p src] live_delimiter [of p "'';''" src] by auto
    with next_rank [OF less.prems] obtain q where q: "ast_next src p = Some q" "pok src q" "rank src q < rank src p"
      by (auto simp: returns_iff)
    from less.hyps [OF q(3,2)] have "returns (ast_skip_separators src q) (\<lambda>p'. pok src p' \<and> rank src p' < rank src p)"
      by (rule returns_mono) (use q in auto)
    then show ?thesis using True q(1) by (auto simp: ast_skip_separators.simps [of src p] returns_iff)
  next
    case False
    then show ?thesis using less.prems by (auto simp: ast_skip_separators.simps [of src p])
  qed
qed

lemma program_loop_halts:
  "pok src p \<Longrightarrow> halts (\<lambda>f k. program_loop src k p n ss) (\<lambda>_. True)"
proof (induction "rank src p" arbitrary: p n ss rule: less_induct)
  case less
  note IH = less.hyps
  have again: "halts (\<lambda>f k. program_loop src k q n' ss') (\<lambda>_. True)"
    if "pok src q" "rank src q < rank src p \<or> perror q \<or> ttype (pcurrent q) = TOK_EOF" for q n' ss'
  proof (cases "rank src q < rank src p")
    case True
    then show ?thesis using that(1) by (rule IH)
  next
    case False
    then have "perror q \<or> ttype (pcurrent q) = TOK_EOF" using that(2) by simp
    then show ?thesis by (intro halts_Suc [where F = "\<lambda>f k. program_loop src k q n' ss'"])
        (simp only: program_loop.simps if_True halts_Some)
  qed
  have skip: "halts (\<lambda>f k. ast_skip_separators src q \<bind> (\<lambda>q. program_loop src k q n' ss')) (\<lambda>_. True)"
    if q: "pok src q" "rank src q \<le> rank src p" "ttype (pcurrent q) = TOK_NEWLINE \<or> ast_is_delimiter q '';''" for q n' ss'
  proof -
    obtain y where y: "ast_skip_separators src q = Some y" "pok src y" "rank src y < rank src p \<or> perror y"
      using skip_separators_returns [OF q(1)] q(2,3) by (fastforce simp: returns_iff)
    then have "halts (\<lambda>f k. program_loop src k y n' ss') (\<lambda>_. True)" by (intro again) auto
    then show ?thesis unfolding y bind.bind_lunit .
  qed
  have S: "halts (\<lambda>f k. ast_parse_statement src k p n) (statement_post src (rank src p))"
    using statements_return [of src "rank src p + 1"] less.prems halts_second [of "\<lambda>f. ast_parse_statement src f p n"]
    by (auto simp: statements_below_def)
  show ?case
  proof (rule halts_Suc, unfold program_loop.simps, intro halts_if halts_Some TrueI, rule halts_bind [OF S])
    fix r assume r: "statement_post src (rank src p) r"
    obtain x q n' where xq: "r = (x, q, n')" by (cases r)
    show "halts (\<lambda>f k. case r of (r, p, n) \<Rightarrow> (case r of NULL \<Rightarrow> Some (ss, p, n)
         | Ptr s \<Rightarrow> if ttype (pcurrent p) = TOK_NEWLINE \<or> ast_is_delimiter p '';''
             then ast_skip_separators src p \<bind> (\<lambda>p. program_loop src k p n (ss @ [s]))
             else if ttype (pcurrent p) \<noteq> TOK_EOF \<and> \<not> ast_is_compound_statement s
             then Some (ss @ [s], p \<lparr>perror := True\<rparr>, n)
             else program_loop src k p n (ss @ [s]))) (\<lambda>_. True)"
      using r by (cases x) (auto simp: xq statement_post_def intro!: halting skip again)
  qed
qed

lemma lexer_init_pok:
  assumes "terminated src" "length (cstr src) + 1 < length src"
  shows "pok src \<lparr>plexer = lexer_init (replicate MAX_INDENTS 0), pcurrent = t, perror = False\<rparr>"
  using assms lexer_init_ok [of "replicate MAX_INDENTS 0" src] by (simp add: pok_def)

section \<open>Properties\<close>

text \<open>
  C32: the parser of the transpiler returns on every source that has a byte to spare after its
  terminator, whatever the source says: there is an amount of fuel from which on
  \<open>ast_parse_program\<close> has a value, so no input makes it loop or read outside the source, and
  the fuel of the other theorems is never what stops it.
\<close>

theorem ast_parse_program_returns:
  assumes "terminated src" "length (cstr src) + 1 < length src"
  shows "\<exists>N r. \<forall>f\<ge>N. ast_parse_program f src = Some r"
proof -
  let ?p = "\<lparr>plexer = lexer_init (replicate MAX_INDENTS 0), pcurrent = \<lparr>ttype = TOK_EOF, ttext = [], tline = 0, tcol = 0\<rparr>, perror = False\<rparr>"
  have loop: "halts (\<lambda>f k. program_loop src k q n [] \<bind> (\<lambda>(ss, p, n). Some (Ptr (with_stmts a ss), p, n))) (\<lambda>_. True)"
    if "pok src q" for q n a
    by (rule halts_bind [OF program_loop_halts [OF that]]) (auto intro: halting split: prod.splits)
  have skip: "halts (\<lambda>f k. ast_skip_separators src q \<bind> (\<lambda>p. program_loop src k p n [] \<bind>
      (\<lambda>(ss, p, n). Some (Ptr (with_stmts a ss), p, n)))) (\<lambda>_. True)" if "pok src q" for q n a
    using skip_separators_returns [OF that] loop by (auto simp: returns_iff)
  have "halts (\<lambda>f k. ast_parse_program k src) (\<lambda>_. True)"
    unfolding ast_parse_program_def
    by (intro halts_next [OF lexer_init_pok [OF assms]] halts_new_node TrueI skip)
  then show ?thesis by (auto simp: halts_def settles_def)
qed

theorem ast_parse_program_returns_witness:
  "\<exists>N r. \<forall>f\<ge>N. ast_parse_program f [46, 53, 0, 0] = Some r"
  by (rule ast_parse_program_returns) (simp_all add: terminated_def cstr_def)

end
