(* ===== verification/Ptlimit.thy ===== *)
theory Ptlimit imports Ptterm begin

text \<open>
  What the parser does when the array of nodes is full, on the source that repeats the line \<open>x\<close>.
\<close>

definition x_lines :: "nat \<Rightarrow> u8 list" where
  "x_lines k = concat (replicate k [120, 10]) @ [0, 0]"

lemma length_x_lines: "length (concat (replicate k [120, 10 :: u8])) = 2 * k"
  by (induction k) simp_all

lemma x_lines_nth: "j < 2 * k \<Longrightarrow> x_lines k ! j = (if even j then 120 else 10)"
proof (induction k arbitrary: j)
  case (Suc k)
  then show ?case by (cases j rule: nat.exhaust [case_names 0 Suc]) (auto simp: x_lines_def nth_Cons split: nat.splits)
qed simp

lemma x_lines_end: "x_lines k ! (2 * k) = 0" "length (x_lines k) = 2 * k + 2"
  by (simp_all add: x_lines_def nth_append length_x_lines)

definition line_lexer :: "nat \<Rightarrow> bool \<Rightarrow> lexer" where
  "line_lexer i b = \<lparr>lx_pos = 2 * i, lx_line = i + 1, lx_col = 1, at_line_start = b, pending_dedents = 0,
     indent_stack = replicate MAX_INDENTS 0, indent_top = 0\<rparr>"

definition word_lexer :: "nat \<Rightarrow> lexer" where
  "word_lexer i = \<lparr>lx_pos = 2 * i + 1, lx_line = i + 1, lx_col = 2, at_line_start = False, pending_dedents = 0,
     indent_stack = replicate MAX_INDENTS 0, indent_top = 0\<rparr>"

lemma x_lines_tokens:
  "i < k \<Longrightarrow> lexer_next (x_lines k) (line_lexer i True) = Some (\<lparr>ttype = TOK_IDENTIFIER, ttext = [120], tline = i + 1, tcol = 1\<rparr>, word_lexer i)"
  "i < k \<Longrightarrow> lexer_next (x_lines k) (word_lexer i) = Some (\<lparr>ttype = TOK_NEWLINE, ttext = [92, 110], tline = i + 1, tcol = 2\<rparr>, line_lexer (i + 1) True)"
  "lexer_next (x_lines k) (line_lexer k True) = Some (\<lparr>ttype = TOK_EOF, ttext = [], tline = k + 1, tcol = 1\<rparr>, line_lexer k False)"
  by (simp_all add: lexer_eval skip_indent.simps line_lexer_def word_lexer_def x_lines_nth x_lines_end MAX_INDENTS_def)

definition word_parser :: "nat \<Rightarrow> ast_parser" where
  "word_parser i = \<lparr>plexer = word_lexer i, pcurrent = \<lparr>ttype = TOK_IDENTIFIER, ttext = [120], tline = i + 1, tcol = 1\<rparr>, perror = False\<rparr>"

definition line_parser :: "nat \<Rightarrow> ast_parser" where
  "line_parser i = \<lparr>plexer = line_lexer i True, pcurrent = \<lparr>ttype = TOK_NEWLINE, ttext = [92, 110], tline = i, tcol = 2\<rparr>, perror = False\<rparr>"

lemma x_lines_next:
  "i < k \<Longrightarrow> ast_next (x_lines k) (word_parser i) = Some (line_parser (i + 1))"
  "i < k \<Longrightarrow> ast_next (x_lines k) (line_parser i) = Some (word_parser i)"
  by (simp_all add: ast_next_def word_parser_def line_parser_def x_lines_tokens)

text \<open>The statement \<open>x\<close>, with its two nodes.\<close>

definition x_statement :: ast_node where
  "x_statement = with_left (node AST_EXPR_STMT (ascii ''expr'')) (Ptr (node AST_IDENTIFIER [120]))"

lemma word_parser_simps [simp]: "ttype (pcurrent (word_parser i)) = TOK_IDENTIFIER" "ttext (pcurrent (word_parser i)) = [120]"
  "\<not> perror (word_parser i)" "ttype (pcurrent (line_parser i)) = TOK_NEWLINE" "\<not> perror (line_parser i)"
  by (simp_all add: word_parser_def line_parser_def)

lemma x_expression:
  assumes "i < k"
  shows "ast_parse_expression (x_lines k) (Suc (Suc f)) (word_parser i) n 0 =
    (if n \<ge> AST_MAX_NODES then Some (NULL, line_parser (i + 1), n)
     else Some (Ptr (node AST_IDENTIFIER [120]), line_parser (i + 1), n + 1))"
  using assms x_lines_next(1) [OF assms]
  by (simp add: ast_parse_expression.simps ast_parse_postfix_def ast_parse_primary_def on_node_def ast_new_def
      postfix_loop.simps expression_loop.simps ast_is_delimiter_def ast_precedence_def)

lemma x_statement_parsed:
  assumes "i < k"
  shows "ast_parse_statement (x_lines k) (Suc (Suc (Suc f))) (word_parser i) n =
    (if n + 1 \<ge> AST_MAX_NODES then Some (NULL, line_parser (i + 1), max n AST_MAX_NODES)
     else Some (Ptr x_statement, line_parser (i + 1), n + 2))"
  using x_expression [OF assms]
  by (auto simp: ast_parse_statement.simps ast_is_keyword_def ast_parse_assignment_or_expr_def on_node_def ast_new_def x_statement_def
      AST_MAX_NODES_def)

lemma x_separators: "i < k \<Longrightarrow> ast_skip_separators (x_lines k) (line_parser i) = Some (word_parser i)"
  by (simp add: ast_skip_separators.simps [of _ "line_parser i"] ast_skip_separators.simps [of _ "word_parser i"]
      x_lines_next ast_is_delimiter_def)

lemma four: "4 \<le> f \<Longrightarrow> \<exists>g. f = Suc (Suc (Suc (Suc g)))"
  by (rule exI [of _ "f - 4"]) simp

lemma x_program_loop:
  assumes "4096 \<le> k"
  shows "j \<le> 4095 \<Longrightarrow> j + 4 \<le> f \<Longrightarrow> program_loop (x_lines k) f (word_parser (4095 - j)) (2 * (4095 - j) + 1) ss =
    Some (ss @ replicate j x_statement, line_parser 4096, AST_MAX_NODES)"
proof (induction j arbitrary: f ss)
  case 0
  then obtain g where f: "f = Suc (Suc (Suc (Suc g)))" using four [of f] by auto
  have "4095 < k" using assms by simp
  then show ?case using x_statement_parsed [of 4095 k g "8191"]
    by (simp add: f program_loop.simps(2) [of _ "Suc (Suc (Suc g))"] AST_MAX_NODES_def)
next
  case (Suc j)
  then obtain g where f: "f = Suc (Suc (Suc (Suc g)))" using four [of f] by auto
  let ?i = "4095 - Suc j"
  have i: "?i < k" "?i + 1 < k" "?i + 1 = 4095 - j" using assms Suc.prems by auto
  have st: "ast_parse_statement (x_lines k) (Suc (Suc (Suc g))) (word_parser ?i) (2 * ?i + 1) =
      Some (Ptr x_statement, line_parser (4095 - j), 2 * (4095 - j) + 1)"
    using x_statement_parsed [OF i(1), of g "2 * ?i + 1"] Suc.prems i(3) by (simp add: AST_MAX_NODES_def)
  have "program_loop (x_lines k) f (word_parser ?i) (2 * ?i + 1) ss =
      program_loop (x_lines k) (Suc (Suc (Suc g))) (word_parser (4095 - j)) (2 * (4095 - j) + 1) (ss @ [x_statement])"
    using st i x_separators [of "4095 - j" k] by (simp add: f program_loop.simps(2) [of _ "Suc (Suc (Suc g))"])
  also have "\<dots> = Some ((ss @ [x_statement]) @ replicate j x_statement, line_parser 4096, AST_MAX_NODES)"
    by (rule Suc.IH) (use Suc.prems f in auto)
  finally show ?case by simp
qed

section \<open>Properties\<close>

text \<open>
  C35: the parser drops the end of a program that needs more nodes than the array has, and reports no
  error.  This is shown for programs of lines \<open>x\<close>, which take two nodes each (the statement and the name): with
  the node of the program, 4095 of them fill the 8192 nodes but one, and of 4096 or more lines the parser
  keeps 4095, with the error flag clear.  (Other statements take other numbers of nodes and meet the
  limit at other lengths.)
\<close>

theorem ast_parse_program_truncates:
  assumes "4096 \<le> k" "4100 \<le> f"
  shows "\<exists>p. ast_parse_program f (x_lines k) =
      Some (Ptr (with_stmts (node AST_PROGRAM (ascii ''program'')) (replicate 4095 x_statement)), p, AST_MAX_NODES) \<and> \<not> perror p"
proof -
  have k: "0 < k" using assms by simp
  have "lexer_init (replicate MAX_INDENTS 0) = line_lexer 0 True"
    by (simp add: lexer_init_def line_lexer_def list_update_same_conv MAX_INDENTS_def)
  then have "ast_next (x_lines k) \<lparr>plexer = lexer_init (replicate MAX_INDENTS 0),
       pcurrent = \<lparr>ttype = TOK_EOF, ttext = [], tline = 0, tcol = 0\<rparr>, perror = False\<rparr> = Some (word_parser 0)"
    using x_lines_tokens(1) [OF k] by (simp add: ast_next_def word_parser_def)
  moreover have "ast_skip_separators (x_lines k) (word_parser 0) = Some (word_parser 0)"
    by (simp add: ast_skip_separators.simps [of _ "word_parser 0"] ast_is_delimiter_def)
  ultimately show ?thesis
    using x_program_loop [OF assms(1), of 4095 f "[]"] assms(2)
    by (simp add: ast_parse_program_def ast_new_def on_node_def AST_MAX_NODES_def)
qed

theorem ast_parse_program_truncates_witness:
  "\<exists>p. ast_parse_program 5000 (x_lines 6000) =
      Some (Ptr (with_stmts (node AST_PROGRAM (ascii ''program'')) (replicate 4095 x_statement)), p, AST_MAX_NODES) \<and> \<not> perror p"
  by (rule ast_parse_program_truncates) simp_all

end
