(* ===== verification/Ptinfer.thy ===== *)
theory Ptinfer imports Ptparse begin

text \<open>
  The inference of types and the listing of the tree in the Pythont transpiler,
  \<open>src/pythont/pythont.c\<close>, over the nodes of \<open>Ptparse\<close>.
\<close>

section \<open>Names\<close>

definition ast_kind_name :: "ast_kind \<Rightarrow> string" where
  "ast_kind_name k = (case k of
     AST_NUMBER \<Rightarrow> ''Number'' | AST_STRING \<Rightarrow> ''String'' | AST_IDENTIFIER \<Rightarrow> ''Identifier'' | AST_UNARY \<Rightarrow> ''Unary''
   | AST_BINARY \<Rightarrow> ''Binary'' | AST_CALL \<Rightarrow> ''Call'' | AST_LIST \<Rightarrow> ''List'' | AST_TUPLE \<Rightarrow> ''Tuple'' | AST_DICT \<Rightarrow> ''Dict''
   | AST_INDEX \<Rightarrow> ''Index'' | AST_SLICE \<Rightarrow> ''Slice'' | AST_MEMBER \<Rightarrow> ''Member'' | AST_ASSIGN \<Rightarrow> ''Assign''
   | AST_PROGRAM \<Rightarrow> ''Program'' | AST_BLOCK \<Rightarrow> ''Block'' | AST_EXPR_STMT \<Rightarrow> ''ExprStmt'' | AST_IF \<Rightarrow> ''If''
   | AST_WHILE \<Rightarrow> ''While'' | AST_FOR \<Rightarrow> ''For'' | AST_FUNCTION \<Rightarrow> ''Function'' | AST_RETURN \<Rightarrow> ''Return''
   | AST_BREAK \<Rightarrow> ''Break'' | AST_CONTINUE \<Rightarrow> ''Continue'' | AST_PASS \<Rightarrow> ''Pass'')"

definition ast_type_name :: "ast_type \<Rightarrow> string" where
  "ast_type_name t = (case t of
     AST_TYPE_INT \<Rightarrow> ''int'' | AST_TYPE_FLOAT \<Rightarrow> ''float'' | AST_TYPE_STRING \<Rightarrow> ''str'' | AST_TYPE_BOOL \<Rightarrow> ''bool''
   | AST_TYPE_LIST \<Rightarrow> ''list'' | AST_TYPE_TUPLE \<Rightarrow> ''tuple'' | AST_TYPE_DICT \<Rightarrow> ''dict'' | AST_TYPE_NONE \<Rightarrow> ''none''
   | AST_TYPE_UNKNOWN \<Rightarrow> ''unknown'')"

section \<open>Types\<close>

text \<open>
  \<open>ast_infer_type\<close> writes the type into the node.  A node is passed with the statements that follow
  it in its chain, because the case of a function also goes through \<open>node->next\<close>, and \<open>c\<close>
  counts the calls.  The results are the node and its followers with their types.
\<close>

definition with_type :: "ast_node \<Rightarrow> ast_type \<Rightarrow> ast_node" where
  "with_type a t = Ast (kind a) t (ntext a) (nleft a) (nright a) (callee a) (body a) (else_body a) (args a) (stmts a)"

definition type_of :: "ast_node cptr \<Rightarrow> ast_type" where
  "type_of x = (case x of NULL \<Rightarrow> AST_TYPE_UNKNOWN | Ptr a \<Rightarrow> value_type a)"

definition binary_type :: "u8 list \<Rightarrow> ast_type \<Rightarrow> ast_type \<Rightarrow> ast_type" where
  "binary_type op l r =
     (if op \<in> set (map ascii [''=='', ''!='', ''<'', ''<='', ''>'', ''>='', ''and'', ''or'', ''in'', ''is'']) then AST_TYPE_BOOL
      else if l = AST_TYPE_FLOAT \<or> r = AST_TYPE_FLOAT then AST_TYPE_FLOAT
      else if l = AST_TYPE_INT \<and> r = AST_TYPE_INT then AST_TYPE_INT
      else AST_TYPE_UNKNOWN)"

definition leaf_type :: "ast_node \<Rightarrow> ast_type" where
  "leaf_type a = (case kind a of
     AST_NUMBER \<Rightarrow> if 46 \<in> set (ntext a) then AST_TYPE_FLOAT else AST_TYPE_INT
   | AST_STRING \<Rightarrow> AST_TYPE_STRING
   | AST_IDENTIFIER \<Rightarrow>
       if ntext a = ascii ''True'' \<or> ntext a = ascii ''False'' then AST_TYPE_BOOL
       else if ntext a = ascii ''None'' then AST_TYPE_NONE else AST_TYPE_UNKNOWN
   | AST_LIST \<Rightarrow> AST_TYPE_LIST
   | AST_TUPLE \<Rightarrow> AST_TYPE_TUPLE
   | AST_DICT \<Rightarrow> AST_TYPE_DICT
   | _ \<Rightarrow> AST_TYPE_UNKNOWN)"

type_synonym infer = "ast_node \<Rightarrow> ast_node list \<Rightarrow> nat \<Rightarrow> (ast_node \<times> ast_node list \<times> nat) option"

text \<open>A child, which has no followers; a call with a null pointer is counted too.\<close>

definition infer_child :: "infer \<Rightarrow> ast_node cptr \<Rightarrow> nat \<Rightarrow> (ast_node cptr \<times> nat) option" where
  "infer_child infer x c = (case x of NULL \<Rightarrow> Some (NULL, c + 1)
     | Ptr a \<Rightarrow> do {(a, _, c) \<leftarrow> infer a [] c; Some (Ptr a, c)})"

fun infer_args :: "infer \<Rightarrow> ast_node cptr list \<Rightarrow> nat \<Rightarrow> (ast_node cptr list \<times> nat) option" where
  "infer_args infer [] c = Some ([], c)"
| "infer_args infer (x # xs) c = do {
     (x, c) \<leftarrow> infer_child infer x c;
     (xs, c) \<leftarrow> infer_args infer xs c;
     Some (x # xs, c)}"

text \<open>\<open>for (n = first; n; n = n->next) ast_infer_type(n);\<close>\<close>

fun infer_chain :: "infer \<Rightarrow> nat \<Rightarrow> ast_node list \<Rightarrow> nat \<Rightarrow> (ast_node list \<times> nat) option" where
  "infer_chain infer 0 ns c = None"
| "infer_chain infer (Suc f) ns c = (case ns of [] \<Rightarrow> Some ([], c)
     | n # rest \<Rightarrow> do {
         (n, rest, c) \<leftarrow> infer n rest c;
         (rest, c) \<leftarrow> infer_chain infer f rest c;
         Some (n # rest, c)})"

fun ast_infer_type :: "nat \<Rightarrow> infer" where
  "ast_infer_type 0 a rest c = None"
| "ast_infer_type (Suc f) a rest c =
     (let child = infer_child (ast_infer_type f); c = c + 1 in
      case kind a of
        AST_UNARY \<Rightarrow> do {
          (l, c) \<leftarrow> child (nleft a) c;
          Some (with_type (with_left a l) (if ntext a = ascii ''not'' then AST_TYPE_BOOL else type_of l), rest, c)}
      | AST_BINARY \<Rightarrow> do {
          (l, c) \<leftarrow> child (nleft a) c;
          (r, c) \<leftarrow> child (nright a) c;
          Some (with_type (with_right (with_left a l) r) (binary_type (ntext a) (type_of l) (type_of r)), rest, c)}
      | AST_ASSIGN \<Rightarrow> do {
          (l, c) \<leftarrow> child (nleft a) c;
          (r, c) \<leftarrow> child (nright a) c;
          Some (with_type (with_right (with_left a l) r) (type_of r), rest, c)}
      | AST_EXPR_STMT \<Rightarrow> do {(l, c) \<leftarrow> child (nleft a) c; Some (with_type (with_left a l) (type_of l), rest, c)}
      | AST_RETURN \<Rightarrow> do {(l, c) \<leftarrow> child (nleft a) c; Some (with_type (with_left a l) (type_of l), rest, c)}
      | AST_CALL \<Rightarrow> do {
          (l, c) \<leftarrow> child (callee a) c;
          (xs, c) \<leftarrow> infer_args (ast_infer_type f) (args a) c;
          Some (with_type (with_args (with_callee a l) xs) AST_TYPE_UNKNOWN, rest, c)}
      | AST_FUNCTION \<Rightarrow> do {
          (rest, c) \<leftarrow> infer_chain (ast_infer_type f) f rest c;
          (b, c) \<leftarrow> child (body a) c;
          Some (with_type (with_body a b) AST_TYPE_UNKNOWN, rest, c)}
      | k \<Rightarrow>
          if k \<in> {AST_IF, AST_WHILE, AST_FOR, AST_INDEX, AST_SLICE, AST_MEMBER} then do {
            (l, c) \<leftarrow> child (nleft a) c;
            (r, c) \<leftarrow> child (nright a) c;
            Some (with_type (with_right (with_left a l) r) AST_TYPE_UNKNOWN, rest, c)}
          else if k \<in> {AST_BLOCK, AST_PROGRAM} then do {
            (ss, c) \<leftarrow> infer_chain (ast_infer_type f) f (stmts a) c;
            (b, c) \<leftarrow> child (body a) c;
            Some (with_type (with_body (with_stmts a ss) b) AST_TYPE_UNKNOWN, rest, c)}
          else Some (with_type a (leaf_type a), rest, c))"

declare ast_infer_type.simps [simp del]

definition ast_infer_program :: "nat \<Rightarrow> ast_node \<Rightarrow> (ast_node \<times> nat) option" where
  "ast_infer_program f p = do {
     (ss, c) \<leftarrow> infer_chain (ast_infer_type f) f (stmts p) 0;
     Some (with_stmts p ss, c)}"

section \<open>The listing\<close>

lemma size_children:
  "size_cptr size (nleft a) + size_cptr size (nright a) + size_cptr size (callee a) + size_cptr size (body a) +
   size_list (size_cptr size) (args a) + size_list size (stmts a) < size a"
  by (cases a) simp

lemma ast_size_pos: "0 < size (a :: ast_node)"
  by (cases a) simp

lemma size_child [termination_simp]:
  "nleft a = Ptr b \<Longrightarrow> size b < size a" "nright a = Ptr b \<Longrightarrow> size b < size a" "callee a = Ptr b \<Longrightarrow> size b < size a"
  "body a = Ptr b \<Longrightarrow> size b < size a" "else_body a = Ptr b \<Longrightarrow> size b < size a"
  by (cases a; simp)+

lemma size_member [termination_simp]:
  "b \<in> set (stmts a) \<Longrightarrow> size b < size a" "Ptr b \<in> set (args a) \<Longrightarrow> size b < size a"
proof -
  have "size b < size_list size xs" if "b \<in> set xs" for xs :: "ast_node list" using that by (induction xs) auto
  then show "b \<in> set (stmts a) \<Longrightarrow> size b < size a" by (cases a) fastforce
  have "size b < size_list (size_cptr size) xs" if "Ptr b \<in> set xs" for xs using that by (induction xs) auto
  then show "Ptr b \<in> set (args a) \<Longrightarrow> size b < size a" by (cases a) fastforce
qed

lemma size_field:
  "size_cptr size (nleft a) < Suc (size a)" "size_cptr size (nright a) < Suc (size a)" "size_cptr size (callee a) < Suc (size a)"
  "size_cptr size (body a) < Suc (size a)" "size_cptr size (else_body a) < Suc (size a)"
  by (cases a; simp)+

lemma size_arg: "x \<in> set (args a) \<Longrightarrow> size_cptr size x < Suc (size a)"
  by (cases x) (auto dest: size_member intro: ast_size_pos)

text \<open>The lines of \<open>ast_dump_node\<close>.\<close>

definition dump_line :: "nat \<Rightarrow> ast_node \<Rightarrow> u8 list" where
  "dump_line lvl a = concat (replicate lvl [32, 32]) @ ascii (ast_kind_name (kind a)) @
     (if ntext a \<noteq> [] then ascii '': '' @ ntext a else []) @
     (if value_type a \<noteq> AST_TYPE_UNKNOWN then ascii '' <'' @ ascii (ast_type_name (value_type a)) @ ascii ''>'' else []) @ [10]"

function ast_dump_node :: "nat \<Rightarrow> ast_node cptr \<Rightarrow> u8 list list" where
  "ast_dump_node lvl NULL = []"
| "ast_dump_node lvl (Ptr a) =
     dump_line lvl a #
     (case kind a of
        AST_PROGRAM \<Rightarrow> concat (map (\<lambda>n. ast_dump_node (lvl + 1) (Ptr n)) (stmts a))
      | AST_BLOCK \<Rightarrow> concat (map (\<lambda>n. ast_dump_node (lvl + 1) (Ptr n)) (stmts a))
      | AST_FUNCTION \<Rightarrow> concat (map (ast_dump_node (lvl + 1)) (args a)) @ ast_dump_node (lvl + 1) (body a)
      | AST_CALL \<Rightarrow> (if callee a \<noteq> NULL
          then ast_dump_node (lvl + 1) (callee a) @ concat (map (ast_dump_node (lvl + 1)) (args a)) else [])
      | k \<Rightarrow>
          if k \<in> {AST_IF, AST_WHILE, AST_FOR} then
            ast_dump_node (lvl + 1) (nleft a) @ ast_dump_node (lvl + 1) (nright a) @
            ast_dump_node (lvl + 1) (body a) @ ast_dump_node (lvl + 1) (else_body a)
          else if k \<in> {AST_EXPR_STMT, AST_RETURN, AST_UNARY, AST_ASSIGN, AST_BINARY, AST_INDEX, AST_SLICE, AST_MEMBER} then
            ast_dump_node (lvl + 1) (nleft a) @ ast_dump_node (lvl + 1) (nright a)
          else if k \<in> {AST_LIST, AST_TUPLE, AST_DICT} then concat (map (ast_dump_node (lvl + 1)) (args a))
          else [])"
  by pat_completeness auto
termination by (relation "measure (\<lambda>(d, x). size_cptr size x)") (auto simp: size_field intro: size_member size_arg)

declare ast_dump_node.simps [simp del]

text \<open>\<open>ast_dump_source\<close>: the lines, or nothing when the source is refused.\<close>

definition ast_dump_source :: "nat \<Rightarrow> u8 list \<Rightarrow> u8 list list cptr option" where
  "ast_dump_source f src = do {
     (x, p, n) \<leftarrow> ast_parse_program f src;
     (case x of NULL \<Rightarrow> Some NULL
      | Ptr a \<Rightarrow> if perror p then Some NULL
          else do {(a, _) \<leftarrow> ast_infer_program f a; Some (Ptr (ast_dump_node 0 (Ptr a)))})}"

section \<open>The inference returns, after a number of calls\<close>

lemma size_with [simp]:
  "size_cptr size l = size_cptr size (nleft a) \<Longrightarrow> size (with_left a l) = size a"
  "size_cptr size l = size_cptr size (nright a) \<Longrightarrow> size (with_right a l) = size a"
  "size_cptr size l = size_cptr size (callee a) \<Longrightarrow> size (with_callee a l) = size a"
  "size_cptr size l = size_cptr size (body a) \<Longrightarrow> size (with_body a l) = size a"
  "size_list (size_cptr size) xs = size_list (size_cptr size) (args a) \<Longrightarrow> size (with_args a xs) = size a"
  "size_list size ss = size_list size (stmts a) \<Longrightarrow> size (with_stmts a ss) = size a"
  "size (with_type a t) = size a"
  by (cases a; simp add: with_left_def with_right_def with_callee_def with_body_def with_args_def with_stmts_def with_type_def)+

lemma with_select [simp]:
  "nright (with_left a l) = nright a" "args (with_callee a l) = args a" "body (with_stmts a ss) = body a"
  "kind (with_type a t) = kind a" "kind (with_body a b) = kind a"
  by (simp_all add: with_left_def with_callee_def with_stmts_def with_type_def with_body_def)

text \<open>The sizes do not change.\<close>

definition sized :: "infer \<Rightarrow> bool" where
  "sized infer \<longleftrightarrow> (\<forall>a rest c a' rest' c'. infer a rest c = Some (a', rest', c') \<longrightarrow>
     size a' = size a \<and> map size rest' = map size rest)"

lemma sized_child: "sized infer \<Longrightarrow> infer_child infer x c = Some (x', c') \<Longrightarrow> size_cptr size x' = size_cptr size x"
  unfolding sized_def by (cases x) (fastforce simp: infer_child_def split: Option.bind_splits)+

lemma sized_args: "sized infer \<Longrightarrow> infer_args infer xs c = Some (xs', c') \<Longrightarrow>
    size_list (size_cptr size) xs' = size_list (size_cptr size) xs"
  by (induction xs arbitrary: c xs' c') (auto dest!: sized_child [of infer] split: Option.bind_splits)

lemma sized_chain: "sized infer \<Longrightarrow> infer_chain infer f ns c = Some (ns', c') \<Longrightarrow> map size ns' = map size ns"
proof (induction f arbitrary: ns c ns' c')
  case (Suc f)
  show ?case
  proof (cases ns)
    case Nil
    then show ?thesis using Suc.prems by simp
  next
    case (Cons n rest)
    with Suc.prems obtain n1 rest1 c1 rest2 where "infer n rest c = Some (n1, rest1, c1)"
      "infer_chain infer f rest1 c1 = Some (rest2, c')" "ns' = n1 # rest2" by (auto split: Option.bind_splits)
    with Suc.IH [OF Suc.prems(1)] Suc.prems(1) show ?thesis unfolding sized_def Cons by fastforce
  qed
qed simp

lemma size_list_map: "map size xs = map size ys \<Longrightarrow> size_list size (xs :: ast_node list) = size_list size ys"
proof (induction xs arbitrary: ys)
  case (Cons x xs)
  then show ?case by (cases ys) auto
qed simp

lemma size_with_stmts: "map size ss = map size (stmts a) \<Longrightarrow> size (with_stmts a ss) = size a"
  by (rule size_with(6)) (rule size_list_map)

lemma sized_infer: "sized (ast_infer_type f)"
proof (induction f)
  case 0
  show ?case by (simp add: sized_def ast_infer_type.simps)
next
  case (Suc f)
  note child = sized_child [OF Suc] and args = sized_args [OF Suc] and chain = sized_chain [OF Suc]
  show ?case unfolding sized_def
  proof (intro allI impI)
    fix a rest c a' rest' c'
    assume "ast_infer_type (Suc f) a rest c = Some (a', rest', c')"
    then show "size a' = size a \<and> map size rest' = map size rest"
      by (cases "kind a") (auto simp: ast_infer_type.simps Let_def size_with_stmts
          split: Option.bind_splits dest!: child args chain)
  qed
qed

text \<open>With more fuel than the size of what it is given, the inference returns.\<close>

definition total_below :: "infer \<Rightarrow> nat \<Rightarrow> bool" where
  "total_below infer m \<longleftrightarrow> (\<forall>a rest c. size a + size_list size rest < m \<longrightarrow> (\<exists>b ss d. infer a rest c = Some (b, ss, d)))"

lemma infer_child_returns:
  "total_below infer m \<Longrightarrow> size_cptr size x \<le> m \<Longrightarrow> \<exists>y d. infer_child infer x c = Some (y, d)"
proof (cases x)
  case (Ptr a)
  moreover assume "total_below infer m" "size_cptr size x \<le> m"
  ultimately obtain b ss d where "infer a [] c = Some (b, ss, d)" unfolding total_below_def by force
  then show ?thesis by (simp add: infer_child_def Ptr)
qed (simp add: infer_child_def)

lemma infer_args_returns:
  assumes "total_below infer m"
  shows "size_list (size_cptr size) xs \<le> m \<Longrightarrow> \<exists>ys d. infer_args infer xs c = Some (ys, d)"
proof (induction xs arbitrary: c)
  case (Cons x xs)
  obtain y c1 where "infer_child infer x c = Some (y, c1)"
    using infer_child_returns [OF assms, of x c] Cons.prems by auto
  moreover obtain ys c2 where "infer_args infer xs c1 = Some (ys, c2)" using Cons.IH [of c1] Cons.prems by auto
  ultimately show ?case by simp
qed simp

lemma infer_chain_returns:
  assumes "total_below infer m" "sized infer"
  shows "size_list size ns \<le> m \<Longrightarrow> length ns < f \<Longrightarrow> \<exists>ys d. infer_chain infer f ns c = Some (ys, d)"
proof (induction f arbitrary: ns c)
  case (Suc f)
  show ?case
  proof (cases ns)
    case (Cons n rest)
    then obtain n1 rest1 c1 where n: "infer n rest c = Some (n1, rest1, c1)"
      using assms(1) Suc.prems unfolding total_below_def by force
    then have e: "map size rest1 = map size rest" using assms(2) unfolding sized_def by blast
    have "length rest1 < f" using map_eq_imp_length_eq [OF e] Suc.prems Cons by simp
    then obtain ys d where "infer_chain infer f rest1 c1 = Some (ys, d)"
      using Suc.IH [of rest1 c1] size_list_map [OF e] Suc.prems Cons by auto
    then show ?thesis using n Cons by simp
  qed simp
qed simp

lemma always: "(\<And>c. \<exists>y d. F c = Some (y, d)) \<Longrightarrow> \<exists>g. \<forall>c. F c = Some (g c)"
  by (rule exI [of _ "\<lambda>c. the (F c)"]) (metis option.sel)

lemma ast_infer_type_returns: "total_below (ast_infer_type f) f"
proof (induction f)
  case 0
  show ?case by (simp add: total_below_def)
next
  case (Suc f)
  show ?case unfolding total_below_def
  proof (intro allI impI)
    fix a :: ast_node and rest :: "ast_node list" and c
    assume m: "size a + size_list size rest < Suc f"
    have len: "size_list size ns \<ge> length ns" for ns :: "ast_node list" by (induction ns) auto
    have child: "\<exists>y d. infer_child (ast_infer_type f) x c = Some (y, d)" if "size_cptr size x < size a" for x c
      using infer_child_returns [OF Suc, of x c] that m by auto
    have args: "\<exists>ys d. infer_args (ast_infer_type f) (args a) c = Some (ys, d)" for c
      using infer_args_returns [OF Suc, of "args a" c] size_children [of a] m by auto
    have chain: "\<exists>ys d. infer_chain (ast_infer_type f) f ns c = Some (ys, d)" if "size_list size ns < f" for ns c
      using infer_chain_returns [OF Suc sized_infer, of ns f c] that len [of ns] by auto
    have less: "size_cptr size (nleft a) < size a" "size_cptr size (nright a) < size a" "size_cptr size (callee a) < size a"
      "size_cptr size (body a) < size a" "size_list size (stmts a) < f" "size_list size rest < f"
      using size_children [of a] ast_size_pos [of a] m by auto
    obtain l where l: "\<And>c. infer_child (ast_infer_type f) (nleft a) c = Some (l c)" using always [of "infer_child (ast_infer_type f) (nleft a)", OF child [OF less(1)]] by blast
    obtain r where r: "\<And>c. infer_child (ast_infer_type f) (nright a) c = Some (r c)" using always [of "infer_child (ast_infer_type f) (nright a)", OF child [OF less(2)]] by blast
    obtain q where q: "\<And>c. infer_child (ast_infer_type f) (callee a) c = Some (q c)" using always [of "infer_child (ast_infer_type f) (callee a)", OF child [OF less(3)]] by blast
    obtain b where b: "\<And>c. infer_child (ast_infer_type f) (body a) c = Some (b c)" using always [of "infer_child (ast_infer_type f) (body a)", OF child [OF less(4)]] by blast
    obtain s where s: "\<And>c. infer_chain (ast_infer_type f) f (stmts a) c = Some (s c)" using always [of "infer_chain (ast_infer_type f) f (stmts a)", OF chain [OF less(5)]] by blast
    obtain t where t: "\<And>c. infer_chain (ast_infer_type f) f rest c = Some (t c)" using always [of "infer_chain (ast_infer_type f) f rest", OF chain [OF less(6)]] by blast
    obtain x where x: "\<And>c. infer_args (ast_infer_type f) (args a) c = Some (x c)" using always [of "infer_args (ast_infer_type f) (args a)", OF args] by blast
    show "\<exists>b ss d. ast_infer_type (Suc f) a rest c = Some (b, ss, d)"
      by (cases "kind a") (simp_all add: ast_infer_type.simps Let_def l r q b s t x split: prod.splits)
  qed
qed

text \<open>A sequence of definitions is gone through twice as often with every definition more.\<close>

definition grows :: "infer \<Rightarrow> bool" where
  "grows infer \<longleftrightarrow> (\<forall>a rest c a' rest' c'. infer a rest c = Some (a', rest', c') \<longrightarrow>
     c < c' \<and> kind a' = kind a \<and> map kind rest' = map kind rest)"

lemma grows_child: "grows infer \<Longrightarrow> infer_child infer x c = Some (x', c') \<Longrightarrow> c < c'"
proof (cases x)
  case (Ptr a)
  moreover assume "infer_child infer x c = Some (x', c')"
  ultimately obtain b ss where "infer a [] c = Some (b, ss, c')" by (auto simp: infer_child_def split: Option.bind_splits)
  moreover assume "grows infer"
  ultimately show ?thesis unfolding grows_def by blast
qed (simp add: infer_child_def)

lemma grows_args: "grows infer \<Longrightarrow> infer_args infer xs c = Some (xs', c') \<Longrightarrow> c \<le> c'"
proof (induction xs arbitrary: c xs' c')
  case (Cons x xs)
  then obtain y c1 ys where "infer_child infer x c = Some (y, c1)" "infer_args infer xs c1 = Some (ys, c')"
    by (auto split: Option.bind_splits)
  then have "c < c1" "c1 \<le> c'" using grows_child [OF Cons.prems(1)] Cons.IH [OF Cons.prems(1)] by blast+
  then show ?case by simp
qed simp

lemma infer_chain_Cons:
  assumes "infer_chain infer f (n # rest) c = Some (ns', c')"
  obtains g n1 rest1 c1 rest2 where "infer n rest c = Some (n1, rest1, c1)" "infer_chain infer g rest1 c1 = Some (rest2, c')"
    "ns' = n1 # rest2" "f = Suc g"
  using assms by (cases f) (auto split: Option.bind_splits)

lemma grows_chain: "grows infer \<Longrightarrow> infer_chain infer f ns c = Some (ns', c') \<Longrightarrow> c \<le> c' \<and> map kind ns' = map kind ns"
proof (induction f arbitrary: ns c ns' c')
  case (Suc f)
  show ?case
  proof (cases ns)
    case (Cons n rest)
    from Suc.prems(2) [unfolded Cons] obtain n1 rest1 c1 rest2 where n: "infer n rest c = Some (n1, rest1, c1)"
      and r: "infer_chain infer f rest1 c1 = Some (rest2, c')" "ns' = n1 # rest2" by (rule infer_chain_Cons) simp
    have "c < c1 \<and> kind n1 = kind n \<and> map kind rest1 = map kind rest" using Suc.prems(1) n unfolding grows_def by blast
    then show ?thesis using Suc.IH [OF Suc.prems(1) r(1)] r(2) Cons by auto
  qed (use Suc.prems in simp)
qed simp

lemma kind_with [simp]: "kind (with_left a l) = kind a" "kind (with_right a l) = kind a" "kind (with_callee a l) = kind a"
  "kind (with_args a xs) = kind a" "kind (with_stmts a ss) = kind a"
  by (simp_all add: with_left_def with_right_def with_callee_def with_args_def with_stmts_def)

lemma grows_infer: "grows (ast_infer_type f)"
proof (induction f)
  case 0
  show ?case by (simp add: grows_def ast_infer_type.simps)
next
  case (Suc f)
  show ?case unfolding grows_def
  proof (intro allI impI)
    fix a rest c a' rest' c'
    assume "ast_infer_type (Suc f) a rest c = Some (a', rest', c')"
    then show "c < c' \<and> kind a' = kind a \<and> map kind rest' = map kind rest"
      by (cases "kind a") (auto simp: ast_infer_type.simps Let_def split: Option.bind_splits
          dest!: grows_child [OF Suc] grows_args [OF Suc] grows_chain [OF Suc])
  qed
qed

lemma infer_functions_calls:
  "\<forall>n\<in>set ns. kind n = AST_FUNCTION \<Longrightarrow> infer_chain (ast_infer_type f) g ns c = Some (ns', c') \<Longrightarrow> c + 2 ^ length ns \<le> c' + 1"
proof (induction ns arbitrary: f g c ns' c' rule: length_induct)
  case (1 ns)
  show ?case
  proof (cases ns)
    case (Cons n rest)
    from 1(3) [unfolded Cons] obtain h n1 rest1 c1 rest2 where n: "ast_infer_type f n rest c = Some (n1, rest1, c1)"
      and r: "infer_chain (ast_infer_type f) h rest1 c1 = Some (rest2, c')" by (rule infer_chain_Cons) simp
    have k: "map kind rest1 = map kind rest" using grows_infer [of f] n unfolding grows_def by blast
    have len: "length rest1 = length rest" by (rule map_eq_imp_length_eq [OF k])
    have F: "\<forall>n\<in>set rest1. kind n = AST_FUNCTION" "\<forall>n\<in>set rest. kind n = AST_FUNCTION" "kind n = AST_FUNCTION"
      using 1(2) Cons arg_cong [OF k, of set] by (simp_all, metis image_iff)
    obtain f' where f: "f = Suc f'" using n by (cases f) (auto simp: ast_infer_type.simps)
    from n F(3) obtain b c2 where c2: "infer_chain (ast_infer_type f') f' rest (c + 1) = Some (rest1, c2)"
      "infer_child (ast_infer_type f') (body n) c2 = Some (b, c1)"
      by (auto simp: f ast_infer_type.simps Let_def split: Option.bind_splits)
    have IH: "c + 2 ^ length ys \<le> c' + 1" if "length ys < length ns" "\<forall>n\<in>set ys. kind n = AST_FUNCTION"
      "infer_chain (ast_infer_type f) g ys c = Some (ys', c')" for ys f g c ys' c' using 1(1) that by blast
    have "c + 1 + 2 ^ length rest \<le> c2 + 1" by (rule IH [OF _ F(2) c2(1)]) (simp add: Cons)
    moreover have "c2 < c1" by (rule grows_child [OF grows_infer c2(2)])
    moreover have "c1 + 2 ^ length rest1 \<le> c' + 1" by (rule IH [OF _ F(1) r]) (simp add: Cons len)
    ultimately show ?thesis using len Cons by simp
  qed (use 1(3) in \<open>cases g; simp\<close>)
qed

text \<open>
  C36: the type inference returns on every program, but a sequence of function definitions makes it
  exponential: with \<open>k\<close> definitions in a row at the top level it makes at least \<open>2 ^ k - 1\<close> calls,
  because each definition also goes through all that follow it.
\<close>

theorem ast_infer_program_exponential:
  assumes "\<forall>s\<in>set (stmts p). kind s = AST_FUNCTION"
  shows "\<exists>N. \<forall>f\<ge>N. \<exists>q calls. ast_infer_program f p = Some (q, calls) \<and> 2 ^ length (stmts p) \<le> calls + 1"
proof (intro exI [of _ "size p + 1"] allI impI)
  fix f assume f: "size p + 1 \<le> f"
  have "length ns \<le> size_list size ns" for ns :: "ast_node list" by (induction ns) auto
  then have "length (stmts p) \<le> size_list size (stmts p)" .
  then have "size_list size (stmts p) \<le> f" "length (stmts p) < f" using size_children [of p] f by auto
  from infer_chain_returns [OF ast_infer_type_returns sized_infer this, of 0]
  obtain ss c where c: "infer_chain (ast_infer_type f) f (stmts p) 0 = Some (ss, c)" by blast
  then show "\<exists>q calls. ast_infer_program f p = Some (q, calls) \<and> 2 ^ length (stmts p) \<le> calls + 1"
    using infer_functions_calls [OF assms c] by (simp add: ast_infer_program_def)
qed

theorem ast_infer_program_exponential_witness:
  "\<exists>N. \<forall>f\<ge>N. \<exists>q calls. ast_infer_program f (with_stmts (node AST_PROGRAM []) (replicate 64 (node AST_FUNCTION [102]))) =
     Some (q, calls) \<and> 2 ^ 64 \<le> calls + (1 :: nat)"
  using ast_infer_program_exponential [of "with_stmts (node AST_PROGRAM []) (replicate 64 (node AST_FUNCTION [102]))"]
  by (simp add: with_stmts_def node_def)

end
