(* ===== verification/Ptgen.thy ===== *)
theory Ptgen imports Ptinfer begin

text \<open>
  The C generator of the Pythont transpiler, \<open>src/pythont/pythont.c\<close>.  It appends formatted pieces
  to a buffer of fixed size; a piece that does not fit sets the error flag for good.  The second part
  gives the text that a tree stands for as a function without a buffer, and proves that the generator
  either sets its flag or has written exactly this text.
\<close>

section \<open>The buffer\<close>

record cgen =
  gbuf :: "u8 list"
  gpos :: nat
  gindent :: nat
  gerror :: bool

text \<open>\<open>s\<close> is the formatted text, which \<open>vsnprintf\<close> writes with a terminator.\<close>

definition ast_cgen_append :: "u8 list \<Rightarrow> cgen \<Rightarrow> cgen option" where
  "ast_cgen_append s g =
     (if gerror g then Some g
      else if gpos g + length s + 1 \<ge> length (gbuf g) then Some (g \<lparr>gerror := True\<rparr>)
      else do {
        b \<leftarrow> wr_seq (gbuf g) (gpos g) (s @ [0]);
        Some (g \<lparr>gbuf := b, gpos := gpos g + length s\<rparr>)})"

fun repeat_append :: "nat \<Rightarrow> u8 list \<Rightarrow> cgen \<Rightarrow> cgen option" where
  "repeat_append 0 s g = Some g"
| "repeat_append (Suc n) s g = ast_cgen_append s g \<bind> repeat_append n s"

definition ast_cgen_indent :: "cgen \<Rightarrow> cgen option" where
  "ast_cgen_indent g = repeat_append (gindent g) (ascii ''    '') g"

definition escaped :: "u8 \<Rightarrow> u8 list" where
  "escaped c = (if c = 92 \<or> c = 34 then [92, c] else if c = 10 then ascii [CHR 92, CHR ''n'']
     else if c = 13 then ascii [CHR 92, CHR ''r''] else if c = 9 then ascii [CHR 92, CHR ''t''] else [c])"

fun append_each :: "u8 list \<Rightarrow> cgen \<Rightarrow> cgen option" where
  "append_each [] g = Some g"
| "append_each (c # cs) g = ast_cgen_append (escaped c) g \<bind> append_each cs"

definition ast_cgen_string_literal :: "u8 list \<Rightarrow> cgen \<Rightarrow> cgen option" where
  "ast_cgen_string_literal s g = do {
     g \<leftarrow> ast_cgen_append [34] g;
     if gerror g then Some g else append_each s g \<bind> ast_cgen_append [34]}"

section \<open>What is left to the legacy backend\<close>

function ast_cgen_requires_legacy_expr :: "ast_node cptr \<Rightarrow> bool" where
  "ast_cgen_requires_legacy_expr NULL = False"
| "ast_cgen_requires_legacy_expr (Ptr a) = (case kind a of
     AST_LIST \<Rightarrow> True | AST_TUPLE \<Rightarrow> True | AST_DICT \<Rightarrow> True | AST_INDEX \<Rightarrow> True | AST_SLICE \<Rightarrow> True | AST_MEMBER \<Rightarrow> True
   | AST_UNARY \<Rightarrow> ast_cgen_requires_legacy_expr (nleft a)
   | AST_BINARY \<Rightarrow> ast_cgen_requires_legacy_expr (nleft a) \<or> ast_cgen_requires_legacy_expr (nright a)
   | AST_CALL \<Rightarrow> ast_cgen_requires_legacy_expr (callee a) \<or> (\<exists>x\<in>set (args a). ast_cgen_requires_legacy_expr x)
   | AST_ASSIGN \<Rightarrow> (case nright a of Ptr r \<Rightarrow> kind r = AST_STRING | NULL \<Rightarrow> False) \<or>
       ast_cgen_requires_legacy_expr (nleft a) \<or> ast_cgen_requires_legacy_expr (nright a)
   | _ \<Rightarrow> False)"
  by pat_completeness auto
termination by (relation "measure (size_cptr size)") (auto simp: size_field intro: size_arg)

declare ast_cgen_requires_legacy_expr.simps [simp del]

function ast_cgen_requires_legacy_stmt :: "ast_node cptr \<Rightarrow> bool" where
  "ast_cgen_requires_legacy_stmt NULL = False"
| "ast_cgen_requires_legacy_stmt (Ptr a) = (case kind a of
     AST_EXPR_STMT \<Rightarrow> ast_cgen_requires_legacy_expr (nleft a)
   | AST_ASSIGN \<Rightarrow> ast_cgen_requires_legacy_expr (Ptr a)
   | AST_RETURN \<Rightarrow> ast_cgen_requires_legacy_expr (nleft a)
   | AST_IF \<Rightarrow> ast_cgen_requires_legacy_expr (nleft a) \<or> ast_cgen_requires_legacy_stmt (body a) \<or>
       ast_cgen_requires_legacy_stmt (else_body a)
   | AST_WHILE \<Rightarrow> ast_cgen_requires_legacy_expr (nleft a) \<or> ast_cgen_requires_legacy_stmt (body a) \<or>
       ast_cgen_requires_legacy_stmt (else_body a)
   | AST_FOR \<Rightarrow> ast_cgen_requires_legacy_expr (nright a) \<or> ast_cgen_requires_legacy_stmt (body a) \<or>
       ast_cgen_requires_legacy_stmt (else_body a)
   | AST_BLOCK \<Rightarrow> (\<exists>s\<in>set (stmts a). ast_cgen_requires_legacy_stmt (Ptr s))
   | AST_PROGRAM \<Rightarrow> (\<exists>s\<in>set (stmts a). ast_cgen_requires_legacy_stmt (Ptr s))
   | AST_FUNCTION \<Rightarrow> ast_cgen_requires_legacy_stmt (body a)
   | _ \<Rightarrow> False)"
  by pat_completeness auto
termination by (relation "measure (size_cptr size)") (auto simp: size_field intro: size_member)

declare ast_cgen_requires_legacy_stmt.simps [simp del]

section \<open>Expressions\<close>

text \<open>
  \<open>cgen_args\<close> is the loop over the arguments of a call, with a separator before all but the first.
  A null pointer is written as \<open>0\<close>.
\<close>

function ast_cgen_expr :: "ast_node cptr \<Rightarrow> cgen \<Rightarrow> cgen option"
  and cgen_args :: "bool \<Rightarrow> ast_node cptr list \<Rightarrow> cgen \<Rightarrow> cgen option" where
  "ast_cgen_expr NULL g = ast_cgen_append (ascii ''0'') g"
| "ast_cgen_expr (Ptr a) g = (case kind a of
     AST_NUMBER \<Rightarrow> ast_cgen_append (ntext a) g
   | AST_STRING \<Rightarrow> ast_cgen_string_literal (ntext a) g
   | AST_IDENTIFIER \<Rightarrow>
       ast_cgen_append (if ntext a = ascii ''True'' then ascii ''1''
         else if ntext a = ascii ''False'' \<or> ntext a = ascii ''None'' then ascii ''0'' else ntext a) g
   | AST_UNARY \<Rightarrow>
       if ntext a = ascii ''not'' then
         ast_cgen_append (ascii ''(!('') g \<bind> ast_cgen_expr (nleft a) \<bind> ast_cgen_append (ascii ''))'')
       else ast_cgen_append (ascii ''('' @ ntext a) g \<bind> ast_cgen_expr (nleft a) \<bind> ast_cgen_append (ascii '')'')
   | AST_BINARY \<Rightarrow>
       if ntext a = ascii ''and'' then ast_cgen_append (ascii ''('') g \<bind> ast_cgen_expr (nleft a) \<bind>
         ast_cgen_append (ascii '' && '') \<bind> ast_cgen_expr (nright a) \<bind> ast_cgen_append (ascii '')'')
       else if ntext a = ascii ''or'' then ast_cgen_append (ascii ''('') g \<bind> ast_cgen_expr (nleft a) \<bind>
         ast_cgen_append (ascii '' || '') \<bind> ast_cgen_expr (nright a) \<bind> ast_cgen_append (ascii '')'')
       else if ntext a = ascii ''//'' then ast_cgen_append (ascii ''((long long)('') g \<bind> ast_cgen_expr (nleft a) \<bind>
         ast_cgen_append (ascii '') / (long long)('') \<bind> ast_cgen_expr (nright a) \<bind> ast_cgen_append (ascii ''))'')
       else if ntext a = ascii ''**'' then ast_cgen_append (ascii ''pow('') g \<bind> ast_cgen_expr (nleft a) \<bind>
         ast_cgen_append (ascii '','') \<bind> ast_cgen_expr (nright a) \<bind> ast_cgen_append (ascii '')'')
       else if ntext a = ascii ''in'' \<or> ntext a = ascii ''is'' then ast_cgen_append (ascii ''('') g \<bind> ast_cgen_expr (nleft a) \<bind>
         ast_cgen_append (ascii '' == '') \<bind> ast_cgen_expr (nright a) \<bind> ast_cgen_append (ascii '')'')
       else ast_cgen_append (ascii ''('') g \<bind> ast_cgen_expr (nleft a) \<bind>
         ast_cgen_append (ascii '' '' @ ntext a @ ascii '' '') \<bind> ast_cgen_expr (nright a) \<bind> ast_cgen_append (ascii '')'')
   | AST_CALL \<Rightarrow> ast_cgen_expr (callee a) g \<bind> ast_cgen_append (ascii ''('') \<bind> cgen_args False (args a) \<bind>
       ast_cgen_append (ascii '')'')
   | AST_INDEX \<Rightarrow> ast_cgen_expr (nleft a) g \<bind> ast_cgen_append (ascii ''['') \<bind> ast_cgen_expr (nright a) \<bind>
       ast_cgen_append (ascii '']'')
   | AST_MEMBER \<Rightarrow> ast_cgen_expr (nleft a) g \<bind> ast_cgen_append (ascii ''.'' @ ntext a)
   | _ \<Rightarrow> Some (g \<lparr>gerror := True\<rparr>))"
| "cgen_args sep [] g = Some g"
| "cgen_args sep (x # xs) g =
     (if sep then ast_cgen_append (ascii '', '') g else Some g) \<bind> ast_cgen_expr x \<bind> cgen_args True xs"
  by pat_completeness auto
termination
proof (relation "measure (case_sum (\<lambda>(x, g). size_cptr size x) (\<lambda>(sep, xs, g). size_list (size_cptr size) xs))")
qed (use size_field size_children in \<open>auto simp: less_Suc_eq_le intro: le_trans [OF _ less_imp_le [OF size_children]]\<close>)

declare ast_cgen_expr.simps [simp del] cgen_args.simps [simp del]

section \<open>Statements\<close>

definition end_line :: "u8 list" where "end_line = ascii '';'' @ [10]"

text \<open>\<open>print\<close> with its arguments becomes \<open>printf\<close>: the format, then the values.\<close>

definition is_call_of :: "string \<Rightarrow> ast_node cptr \<Rightarrow> bool" where
  "is_call_of f x = (case x of NULL \<Rightarrow> False
     | Ptr a \<Rightarrow> kind a = AST_CALL \<and> (case callee a of NULL \<Rightarrow> False | Ptr c \<Rightarrow> kind c = AST_IDENTIFIER \<and> ntext c = ascii f))"

fun print_format :: "bool \<Rightarrow> ast_node cptr list \<Rightarrow> cgen \<Rightarrow> cgen option" where
  "print_format sep [] g = Some g"
| "print_format sep (x # xs) g = (case x of NULL \<Rightarrow> None
     | Ptr a \<Rightarrow> (if sep then ast_cgen_append (ascii '' '') g else Some g) \<bind>
         ast_cgen_append (if kind a = AST_STRING then ascii ''%s'' else ascii ''%lld'') \<bind> print_format True xs)"

fun print_values :: "ast_node cptr list \<Rightarrow> cgen \<Rightarrow> cgen option" where
  "print_values [] g = Some g"
| "print_values (x # xs) g = ast_cgen_append (ascii '', '') g \<bind> ast_cgen_expr x \<bind> print_values xs"

definition cgen_print :: "ast_node cptr list \<Rightarrow> cgen \<Rightarrow> cgen option" where
  "cgen_print xs g = ast_cgen_append (ascii ''printf('' @ [34]) g \<bind> print_format False xs \<bind>
     ast_cgen_append ([92] @ ascii ''n'' @ [34]) \<bind> print_values xs \<bind> ast_cgen_append (ascii '')'' @ end_line)"

definition cgen_assign :: "ast_node \<Rightarrow> cgen \<Rightarrow> cgen option" where
  "cgen_assign a g = ast_cgen_expr (nleft a) g \<bind> ast_cgen_append (ascii '' '' @ ntext a @ ascii '' '') \<bind>
     ast_cgen_expr (nright a) \<bind> ast_cgen_append end_line"

definition cgen_expr_stmt :: "ast_node cptr \<Rightarrow> cgen \<Rightarrow> cgen option" where
  "cgen_expr_stmt x g =
     (case x of NULL \<Rightarrow> ast_cgen_expr x g \<bind> ast_cgen_append end_line
      | Ptr a \<Rightarrow> if kind a = AST_ASSIGN then cgen_assign a g
          else if is_call_of ''print'' x then cgen_print (args a) g
          else ast_cgen_expr x g \<bind> ast_cgen_append end_line)"

definition arg_at :: "ast_node \<Rightarrow> nat \<Rightarrow> ast_node cptr" where
  "arg_at a i = (if i < length (args a) then args a ! i else NULL)"

text \<open>The head of a \<open>for\<close> over a range.\<close>

definition cgen_for_head :: "ast_node \<Rightarrow> ast_node \<Rightarrow> cgen \<Rightarrow> cgen option" where
  "cgen_for_head v r g =
     ast_cgen_append (ascii ''for (int64_t '' @ ntext v @ ascii '' = '') g \<bind>
     (if length (args r) = 1 then ast_cgen_append (ascii ''0; '' @ ntext v @ ascii '' < '')
      else (\<lambda>g. ast_cgen_expr (arg_at r 0) g \<bind> ast_cgen_append (ascii ''; '' @ ntext v @ ascii '' < ''))) \<bind>
     ast_cgen_expr (arg_at r (if length (args r) = 1 then 0 else 1)) \<bind>
     ast_cgen_append (ascii ''; '' @ ntext v @ ascii ''++) {'' @ [10])"

definition deeper :: "cgen \<Rightarrow> cgen option" where "deeper g = Some (g \<lparr>gindent := gindent g + 1\<rparr>)"
definition shallower :: "cgen \<Rightarrow> cgen option" where "shallower g = Some (g \<lparr>gindent := gindent g - 1\<rparr>)"

lemma size_bodies: "size_cptr size (body a) < size a" "size_cptr size (else_body a) < size a"
  by (cases a; simp)+

lemma size_stmts: "size_list size (stmts a) < size a"
  by (cases a) simp

lemmas size_parts = size_bodies [THEN less_imp_le] size_stmts [THEN less_imp_le]

function ast_cgen_stmt :: "ast_node \<Rightarrow> cgen \<Rightarrow> cgen option"
  and ast_cgen_block :: "ast_node cptr \<Rightarrow> cgen \<Rightarrow> cgen option"
  and cgen_stmts :: "ast_node list \<Rightarrow> cgen \<Rightarrow> cgen option" where
  "ast_cgen_stmt a g =
     (if gerror g then Some g
      else ast_cgen_indent g \<bind> (\<lambda>g. case kind a of
        AST_EXPR_STMT \<Rightarrow> cgen_expr_stmt (nleft a) g
      | AST_ASSIGN \<Rightarrow> cgen_assign a g
      | AST_IF \<Rightarrow>
          ast_cgen_append (ascii ''if ('') g \<bind> ast_cgen_expr (nleft a) \<bind> ast_cgen_append (ascii '') {'' @ [10]) \<bind>
          deeper \<bind> ast_cgen_block (body a) \<bind> shallower \<bind> ast_cgen_indent \<bind> ast_cgen_append (ascii ''}'') \<bind>
          (\<lambda>g. if else_body a = NULL then Some g
            else ast_cgen_append (ascii '' else {'' @ [10]) g \<bind> deeper \<bind> ast_cgen_block (else_body a) \<bind>
              shallower \<bind> ast_cgen_indent \<bind> ast_cgen_append (ascii ''}'')) \<bind>
          ast_cgen_append [10]
      | AST_WHILE \<Rightarrow>
          ast_cgen_append (ascii ''while ('') g \<bind> ast_cgen_expr (nleft a) \<bind> ast_cgen_append (ascii '') {'' @ [10]) \<bind>
          deeper \<bind> ast_cgen_block (body a) \<bind> shallower \<bind> ast_cgen_indent \<bind> ast_cgen_append (ascii ''}'' @ [10])
      | AST_FOR \<Rightarrow>
          if is_call_of ''range'' (nright a) then
            (case nleft a of NULL \<Rightarrow> None | Ptr v \<Rightarrow> (case nright a of NULL \<Rightarrow> None | Ptr r \<Rightarrow>
              cgen_for_head v r g \<bind> deeper \<bind> ast_cgen_block (body a) \<bind> shallower \<bind> ast_cgen_indent \<bind>
              ast_cgen_append (ascii ''}'' @ [10])))
          else Some (g \<lparr>gerror := True\<rparr>)
      | AST_RETURN \<Rightarrow>
          ast_cgen_append (ascii ''return'') g \<bind>
          (\<lambda>g. if nleft a = NULL then Some g else ast_cgen_append (ascii '' '') g \<bind> ast_cgen_expr (nleft a)) \<bind>
          ast_cgen_append end_line
      | AST_BREAK \<Rightarrow> ast_cgen_append (ascii ''break'' @ end_line) g
      | AST_CONTINUE \<Rightarrow> ast_cgen_append (ascii ''continue'' @ end_line) g
      | AST_PASS \<Rightarrow> ast_cgen_append end_line g
      | _ \<Rightarrow> Some (g \<lparr>gerror := True\<rparr>)))"
| "ast_cgen_block x g = (case x of NULL \<Rightarrow> Some g | Ptr b \<Rightarrow> cgen_stmts (stmts b) g)"
| "cgen_stmts [] g = Some g"
| "cgen_stmts (s # ss) g = (if kind s = AST_FUNCTION then cgen_stmts ss g else ast_cgen_stmt s g \<bind> cgen_stmts ss)"
  by pat_completeness auto
termination
  by (relation "measure (case_sum (\<lambda>(a, g). 2 * size a) (case_sum (\<lambda>(x, g). 2 * size_cptr size x) (\<lambda>(ss, g). 2 * size_list size ss + 1)))")
     (simp_all add: less_Suc_eq_le size_parts size_bodies size_stmts le_SucI)

declare ast_cgen_stmt.simps [simp del] ast_cgen_block.simps [simp del] cgen_stmts.simps [simp del]

section \<open>The program\<close>

fun cgen_params :: "bool \<Rightarrow> ast_node cptr list \<Rightarrow> cgen \<Rightarrow> cgen option" where
  "cgen_params sep [] g = Some g"
| "cgen_params sep (x # xs) g = (case x of NULL \<Rightarrow> None
     | Ptr a \<Rightarrow> (if sep then ast_cgen_append (ascii '', '') g else Some g) \<bind>
         ast_cgen_append (ascii ''int64_t '' @ ntext a) \<bind> cgen_params True xs)"

definition set_indent :: "nat \<Rightarrow> cgen \<Rightarrow> cgen option" where "set_indent n g = Some (g \<lparr>gindent := n\<rparr>)"

definition ast_cgen_function :: "ast_node \<Rightarrow> cgen \<Rightarrow> cgen option" where
  "ast_cgen_function a g =
     (if kind a \<noteq> AST_FUNCTION then Some g
      else ast_cgen_append (ascii ''static int64_t '' @ ntext a @ ascii ''('') g \<bind> cgen_params False (args a) \<bind>
        ast_cgen_append (ascii '') {'' @ [10]) \<bind> set_indent 1 \<bind> ast_cgen_block (body a) \<bind> ast_cgen_indent \<bind>
        ast_cgen_append (ascii ''return 0'' @ end_line @ ascii ''}'' @ [10, 10]) \<bind> set_indent 0)"

text \<open>The names assigned to, each once, cut at 63 characters and 512 in number.\<close>

function ast_cgen_collect_globals :: "ast_node cptr \<Rightarrow> u8 list list \<Rightarrow> u8 list list"
  and collect_chain :: "ast_node list \<Rightarrow> u8 list list \<Rightarrow> u8 list list" where
  "ast_cgen_collect_globals NULL names = names"
| "ast_cgen_collect_globals (Ptr a) names =
     (if length names \<ge> 512 then names
      else
        let target = (case (if kind a = AST_EXPR_STMT then nleft a else Ptr a) of NULL \<Rightarrow> NULL
              | Ptr b \<Rightarrow> if kind b = AST_ASSIGN then (case nleft b of NULL \<Rightarrow> NULL
                  | Ptr v \<Rightarrow> if kind v = AST_IDENTIFIER then Ptr (ntext v) else NULL) else NULL) in
        if (case target of NULL \<Rightarrow> False | Ptr t \<Rightarrow> t \<in> set names) then names
        else
          let names = (case target of NULL \<Rightarrow> names | Ptr t \<Rightarrow> names @ [take 63 t]) in
          if kind a = AST_PROGRAM \<or> kind a = AST_BLOCK then collect_chain (stmts a) names
          else if kind a = AST_IF \<or> kind a = AST_WHILE \<or> kind a = AST_FOR
          then ast_cgen_collect_globals (else_body a) (ast_cgen_collect_globals (body a) names)
          else names)"
| "collect_chain [] names = names"
| "collect_chain (s # ss) names = collect_chain ss (ast_cgen_collect_globals (Ptr s) names)"
  by pat_completeness auto
termination
  by (relation "measure (case_sum (\<lambda>(x, names). 2 * size_cptr size x) (\<lambda>(ss, names). 2 * size_list size ss + 1))")
     (simp_all add: less_Suc_eq_le size_parts size_bodies size_stmts le_SucI)

declare ast_cgen_collect_globals.simps [simp del] collect_chain.simps [simp del]

fun cgen_functions :: "ast_node list \<Rightarrow> cgen \<Rightarrow> cgen option" where
  "cgen_functions [] g = Some g"
| "cgen_functions (s # ss) g = (if kind s = AST_FUNCTION then ast_cgen_function s g else Some g) \<bind> cgen_functions ss"

fun cgen_globals :: "u8 list list \<Rightarrow> cgen \<Rightarrow> cgen option" where
  "cgen_globals [] g = Some g"
| "cgen_globals (v # vs) g = ast_cgen_append (ascii ''    int64_t '' @ v @ ascii '' = 0'' @ end_line) g \<bind> cgen_globals vs"

definition c_head :: "u8 list" where
  "c_head = ascii ''#include <stdio.h>'' @ [10] @ ascii ''#include <stdint.h>'' @ [10] @ ascii ''#include <math.h>'' @ [10, 10]"

text \<open>\<open>buf\<close> is what \<open>calloc\<close> returned; the result is the buffer, or \<open>NULL\<close> for the failure.\<close>

definition ast_emit_c_source :: "u8 list cptr \<Rightarrow> ast_node \<Rightarrow> u8 list cptr option" where
  "ast_emit_c_source buf p = (case buf of NULL \<Rightarrow> Some NULL
     | Ptr buf \<Rightarrow> do {
         g \<leftarrow> ast_cgen_append c_head \<lparr>gbuf = buf, gpos = 0, gindent = 0, gerror = False\<rparr> \<bind> cgen_functions (stmts p) \<bind>
           ast_cgen_append (ascii ''int main(void) {'' @ [10]) \<bind> cgen_globals (ast_cgen_collect_globals (Ptr p) []) \<bind>
           set_indent 1 \<bind> ast_cgen_block (Ptr p) \<bind> ast_cgen_append (ascii ''    return 0'' @ end_line @ ascii ''}'' @ [10]);
         Some (if gerror g then NULL else Ptr (gbuf g))})"

text \<open>The status, and the text when it is 0: 1 for a syntax error, 2 for what the legacy backend has to do.\<close>

definition ast_compile_source :: "nat \<Rightarrow> u8 list cptr \<Rightarrow> u8 list \<Rightarrow> (nat \<times> u8 list cptr) option" where
  "ast_compile_source f buf src = do {
     (x, p, n) \<leftarrow> ast_parse_program f src;
     (case x of NULL \<Rightarrow> Some (1, NULL)
      | Ptr a \<Rightarrow> if perror p then Some (1, NULL)
          else do {
            (a, _) \<leftarrow> ast_infer_program f a;
            if ast_cgen_requires_legacy_stmt (Ptr a) then Some (2, NULL)
            else do {
              r \<leftarrow> ast_emit_c_source buf a;
              Some (case r of NULL \<Rightarrow> (2, NULL) | Ptr b \<Rightarrow> (0, Ptr b))}})}"

end
