(* ===== verification/Ptemit.thy ===== *)
theory Ptemit imports Ptgen begin

text \<open>
  What the C generator of Ptgen writes.  The texts below are those of the pieces of a program, without
  buffer, position, error flag and depth counter; \<open>None\<close> is a tree the generator refuses.  A function of
  the generator \<open>renders\<close> a text if it appends exactly this text when it fits and otherwise sets the
  flag, which no later piece clears.
\<close>

section \<open>The texts\<close>

definition joined :: "u8 list option \<Rightarrow> u8 list option \<Rightarrow> u8 list option" where
  "joined s t = (case s of None \<Rightarrow> None | Some s \<Rightarrow> (case t of None \<Rightarrow> None | Some t \<Rightarrow> Some (s @ t)))"

definition cat :: "u8 list option list \<Rightarrow> u8 list option" where
  "cat ts = foldr joined ts (Some [])"

definition lit :: "string \<Rightarrow> u8 list option" where "lit s = Some (ascii s)"

definition nl :: "u8 list option" where "nl = Some [10]"

definition literal_text :: "u8 list \<Rightarrow> u8 list" where
  "literal_text s = [34] @ concat (map escaped s) @ [34]"

definition name_text :: "u8 list \<Rightarrow> u8 list" where
  "name_text s = (if s = ascii ''True'' then ascii ''1''
     else if s = ascii ''False'' \<or> s = ascii ''None'' then ascii ''0'' else s)"

text \<open>What stands before, between and behind the operands of a binary operator.\<close>

definition around :: "u8 list \<Rightarrow> u8 list \<times> u8 list \<times> u8 list" where
  "around op =
     (if op = ascii ''and'' then (ascii ''('', ascii '' && '', ascii '')'')
      else if op = ascii ''or'' then (ascii ''('', ascii '' || '', ascii '')'')
      else if op = ascii ''//'' then (ascii ''((long long)('', ascii '') / (long long)('', ascii ''))'')
      else if op = ascii ''**'' then (ascii ''pow('', ascii '','', ascii '')'')
      else if op = ascii ''in'' \<or> op = ascii ''is'' then (ascii ''('', ascii '' == '', ascii '')'')
      else (ascii ''('', ascii '' '' @ op @ ascii '' '', ascii '')''))"

function expr_text :: "ast_node cptr \<Rightarrow> u8 list option"
  and args_text :: "bool \<Rightarrow> ast_node cptr list \<Rightarrow> u8 list option" where
  "expr_text NULL = lit ''0''"
| "expr_text (Ptr a) = (case kind a of
     AST_NUMBER \<Rightarrow> Some (ntext a)
   | AST_STRING \<Rightarrow> Some (literal_text (ntext a))
   | AST_IDENTIFIER \<Rightarrow> Some (name_text (ntext a))
   | AST_UNARY \<Rightarrow> if ntext a = ascii ''not'' then cat [lit ''(!('', expr_text (nleft a), lit ''))'']
       else cat [Some (ascii ''('' @ ntext a), expr_text (nleft a), lit '')'']
   | AST_BINARY \<Rightarrow> (case around (ntext a) of (l, m, r) \<Rightarrow>
       cat [Some l, expr_text (nleft a), Some m, expr_text (nright a), Some r])
   | AST_CALL \<Rightarrow> cat [expr_text (callee a), lit ''('', args_text False (args a), lit '')'']
   | AST_INDEX \<Rightarrow> cat [expr_text (nleft a), lit ''['', expr_text (nright a), lit '']'']
   | AST_MEMBER \<Rightarrow> cat [expr_text (nleft a), Some (ascii ''.'' @ ntext a)]
   | _ \<Rightarrow> None)"
| "args_text sep [] = Some []"
| "args_text sep (x # xs) = cat [if sep then lit '', '' else Some [], expr_text x, args_text True xs]"
  by pat_completeness auto
termination
proof (relation "measure (case_sum (size_cptr size) (\<lambda>(sep, xs). size_list (size_cptr size) xs))")
qed (use size_field size_children in \<open>auto simp: less_Suc_eq_le intro: le_trans [OF _ less_imp_le [OF size_children]]\<close>)

declare expr_text.simps [simp del] args_text.simps [simp del]

fun format_text :: "bool \<Rightarrow> ast_node cptr list \<Rightarrow> u8 list option" where
  "format_text sep [] = Some []"
| "format_text sep (x # xs) = (case x of NULL \<Rightarrow> None
     | Ptr a \<Rightarrow> cat [if sep then lit '' '' else Some [], lit (if kind a = AST_STRING then ''%s'' else ''%lld''),
         format_text True xs])"

fun values_text :: "ast_node cptr list \<Rightarrow> u8 list option" where
  "values_text [] = Some []"
| "values_text (x # xs) = cat [lit '', '', expr_text x, values_text xs]"

definition print_text :: "ast_node cptr list \<Rightarrow> u8 list option" where
  "print_text xs = cat [Some (ascii ''printf('' @ [34]), format_text False xs, Some ([92] @ ascii ''n'' @ [34]),
     values_text xs, Some (ascii '')'' @ end_line)]"

definition assign_text :: "ast_node \<Rightarrow> u8 list option" where
  "assign_text a = cat [expr_text (nleft a), Some (ascii '' '' @ ntext a @ ascii '' ''), expr_text (nright a),
     Some end_line]"

definition expr_stmt_text :: "ast_node cptr \<Rightarrow> u8 list option" where
  "expr_stmt_text x =
     (case x of NULL \<Rightarrow> cat [expr_text x, Some end_line]
      | Ptr a \<Rightarrow> if kind a = AST_ASSIGN then assign_text a
          else if is_call_of ''print'' x then print_text (args a)
          else cat [expr_text x, Some end_line])"

definition for_text :: "ast_node \<Rightarrow> ast_node \<Rightarrow> u8 list option" where
  "for_text v r = cat [Some (ascii ''for (int64_t '' @ ntext v @ ascii '' = ''),
     (if length (args r) = 1 then lit ''0'' else expr_text (arg_at r 0)),
     Some (ascii ''; '' @ ntext v @ ascii '' < ''),
     expr_text (arg_at r (if length (args r) = 1 then 0 else 1)),
     Some (ascii ''; '' @ ntext v @ ascii ''++) {'' @ [10])]"

definition indent_text :: "nat \<Rightarrow> u8 list" where
  "indent_text i = concat (replicate i (ascii ''    ''))"

function stmt_text :: "nat \<Rightarrow> ast_node \<Rightarrow> u8 list option"
  and block_text :: "nat \<Rightarrow> ast_node cptr \<Rightarrow> u8 list option"
  and stmts_text :: "nat \<Rightarrow> ast_node list \<Rightarrow> u8 list option" where
  "stmt_text i a = joined (Some (indent_text i)) (case kind a of
     AST_EXPR_STMT \<Rightarrow> expr_stmt_text (nleft a)
   | AST_ASSIGN \<Rightarrow> assign_text a
   | AST_IF \<Rightarrow> cat [lit ''if ('', expr_text (nleft a), Some (ascii '') {'' @ [10]), block_text (Suc i) (body a),
       Some (indent_text i), lit ''}'',
       (if else_body a = NULL then Some []
        else cat [Some (ascii '' else {'' @ [10]), block_text (Suc i) (else_body a), Some (indent_text i), lit ''}'']),
       nl]
   | AST_WHILE \<Rightarrow> cat [lit ''while ('', expr_text (nleft a), Some (ascii '') {'' @ [10]), block_text (Suc i) (body a),
       Some (indent_text i), Some (ascii ''}'' @ [10])]
   | AST_FOR \<Rightarrow> if is_call_of ''range'' (nright a) then
       (case nleft a of NULL \<Rightarrow> None | Ptr v \<Rightarrow> (case nright a of NULL \<Rightarrow> None | Ptr r \<Rightarrow>
         cat [for_text v r, block_text (Suc i) (body a), Some (indent_text i), Some (ascii ''}'' @ [10])]))
       else None
   | AST_RETURN \<Rightarrow> cat [lit ''return'', if nleft a = NULL then Some [] else cat [lit '' '', expr_text (nleft a)],
       Some end_line]
   | AST_BREAK \<Rightarrow> Some (ascii ''break'' @ end_line)
   | AST_CONTINUE \<Rightarrow> Some (ascii ''continue'' @ end_line)
   | AST_PASS \<Rightarrow> Some end_line
   | _ \<Rightarrow> None)"
| "block_text i x = (case x of NULL \<Rightarrow> Some [] | Ptr b \<Rightarrow> stmts_text i (stmts b))"
| "stmts_text i [] = Some []"
| "stmts_text i (s # ss) = (if kind s = AST_FUNCTION then stmts_text i ss else cat [stmt_text i s, stmts_text i ss])"
  by pat_completeness auto
termination
  by (relation "measure (case_sum (\<lambda>(i, a). 2 * size a) (case_sum (\<lambda>(i, x). 2 * size_cptr size x) (\<lambda>(i, ss). 2 * size_list size ss + 1)))")
     (simp_all add: less_Suc_eq_le size_parts size_bodies size_stmts le_SucI)

declare stmt_text.simps [simp del] block_text.simps [simp del] stmts_text.simps [simp del]

fun params_text :: "bool \<Rightarrow> ast_node cptr list \<Rightarrow> u8 list option" where
  "params_text sep [] = Some []"
| "params_text sep (x # xs) = (case x of NULL \<Rightarrow> None
     | Ptr a \<Rightarrow> cat [if sep then lit '', '' else Some [], Some (ascii ''int64_t '' @ ntext a), params_text True xs])"

definition function_text :: "ast_node \<Rightarrow> u8 list option" where
  "function_text a = cat [Some (ascii ''static int64_t '' @ ntext a @ ascii ''(''), params_text False (args a),
     Some (ascii '') {'' @ [10]), block_text 1 (body a), Some (indent_text 1),
     Some (ascii ''return 0'' @ end_line @ ascii ''}'' @ [10, 10])]"

definition functions_text :: "ast_node list \<Rightarrow> u8 list option" where
  "functions_text ss = cat (map function_text [s\<leftarrow>ss. kind s = AST_FUNCTION])"

definition globals_text :: "u8 list list \<Rightarrow> u8 list" where
  "globals_text vs = concat (map (\<lambda>v. ascii ''    int64_t '' @ v @ ascii '' = 0'' @ end_line) vs)"

definition c_text :: "ast_node \<Rightarrow> u8 list option" where
  "c_text p = cat [Some c_head, functions_text (stmts p), Some (ascii ''int main(void) {'' @ [10]),
     Some (globals_text (ast_cgen_collect_globals (Ptr p) [])), block_text 1 (Ptr p),
     Some (ascii ''    return 0'' @ end_line @ ascii ''}'' @ [10])]"

section \<open>Rendering\<close>

definition writer :: "nat \<Rightarrow> u8 list \<Rightarrow> nat \<Rightarrow> cgen" where
  "writer cap w i = \<lparr>gbuf = w @ replicate (cap - length w) 0, gpos = length w, gindent = i, gerror = False\<rparr>"

definition failed :: "nat \<Rightarrow> cgen \<Rightarrow> bool" where
  "failed i g \<longleftrightarrow> gerror g \<and> gindent g = i"

definition renders :: "nat \<Rightarrow> nat \<Rightarrow> nat \<Rightarrow> (cgen \<Rightarrow> cgen option) \<Rightarrow> u8 list option \<Rightarrow> bool" where
  "renders cap i j F t \<longleftrightarrow>
     (\<forall>g. failed i g \<longrightarrow> (case F g of None \<Rightarrow> t = None | Some g' \<Rightarrow> failed j g')) \<and>
     (\<forall>w. length w + 1 < cap \<longrightarrow> (case F (writer cap w i) of None \<Rightarrow> t = None
        | Some g' \<Rightarrow> (case t of None \<Rightarrow> failed j g'
            | Some v \<Rightarrow> if length w + length v + 1 < cap then g' = writer cap (w @ v) j else failed j g')))"

lemma joined_Nil [simp]: "joined (Some []) t = t" "joined t (Some []) = t"
  by (auto simp: joined_def split: option.split)

lemma joined_assoc: "joined (joined s t) u = joined s (joined t u)"
  by (simp add: joined_def split: option.split)

lemma renders_bind:
  assumes "renders cap i j F s" and "renders cap j k G t"
  shows "renders cap i k (\<lambda>g. F g \<bind> G) (joined s t)"
proof -
  have "case F g \<bind> G of None \<Rightarrow> joined s t = None | Some g' \<Rightarrow> failed k g'" if "failed i g" for g
  proof (cases "F g")
    case None
    then show ?thesis using assms(1) that by (auto simp: renders_def joined_def)
  next
    case (Some g')
    then have "failed j g'" using assms(1) that by (auto simp: renders_def split: option.splits)
    then have "case G g' of None \<Rightarrow> t = None | Some g'' \<Rightarrow> failed k g''" using assms(2) by (simp add: renders_def)
    then show ?thesis using Some by (auto simp: joined_def split: option.splits)
  qed
  moreover have "case F (writer cap w i) \<bind> G of None \<Rightarrow> joined s t = None
     | Some g' \<Rightarrow> (case joined s t of None \<Rightarrow> failed k g'
         | Some v \<Rightarrow> if length w + length v + 1 < cap then g' = writer cap (w @ v) k else failed k g')"
    if w: "length w + 1 < cap" for w
  proof (cases "F (writer cap w i)")
    case None
    then show ?thesis using assms(1) w by (auto simp: renders_def joined_def)
  next
    case (Some g)
    note f = assms(1)[unfolded renders_def, THEN conjunct2, rule_format, OF w, unfolded Some, simplified]
    note g1 = assms(2)[unfolded renders_def, THEN conjunct1, rule_format]
    note g2 = assms(2)[unfolded renders_def, THEN conjunct2, rule_format]
    show ?thesis
    proof (cases "\<exists>v. s = Some v \<and> length w + length v + 1 < cap")
      case True
      then obtain v where v: "s = Some v" "length w + length v + 1 < cap" by blast
      then have "g = writer cap (w @ v) j" using f by simp
      then show ?thesis using g2 [of "w @ v"] v Some
        by (auto simp: joined_def add.assoc split: option.splits)
    next
      case False
      then have "failed j g" using f by (auto split: option.splits)
      then show ?thesis using g1 [of g] False Some by (auto simp: joined_def split: option.splits)
    qed
  qed
  ultimately show ?thesis by (simp add: renders_def)
qed

lemma renders_append: "renders cap i i (ast_cgen_append s) (Some s)"
proof -
  have "ast_cgen_append s (writer cap w i) = Some (writer cap (w @ s) i)" if l: "length w + length s + 1 < cap" for w
  proof -
    obtain m where m: "cap = length w + length s + Suc (Suc m)" using less_imp_Suc_add [OF l] by auto
    have "wr_seq (w @ replicate (cap - length w) 0) (length w) (s @ [0]) = Some ((w @ s) @ replicate (cap - length (w @ s)) 0)"
      using drop_replicate [of "length s" "Suc (m + length s)" "0 :: u8"]
      by (subst wr_seq_overlay) (simp_all add: m overlay_def add.commute)
    then show ?thesis by (simp add: ast_cgen_append_def writer_def m)
  qed
  then show ?thesis by (auto simp: renders_def ast_cgen_append_def failed_def writer_def)
qed

lemma renders_skip: "renders cap i i Some (Some [])"
  by (simp add: renders_def)

lemma renders_fail: "renders cap i i (\<lambda>g. Some (g \<lparr>gerror := True\<rparr>)) None"
  by (simp add: renders_def failed_def writer_def)

lemma renders_None: "renders cap i j (\<lambda>g. None) None"
  by (simp add: renders_def)

lemma renders_deeper: "renders cap i (Suc i) deeper (Some [])"
  by (simp add: renders_def failed_def writer_def deeper_def)

lemma renders_shallower: "renders cap (Suc i) i shallower (Some [])"
  by (simp add: renders_def failed_def writer_def shallower_def)

lemma renders_set_indent: "renders cap i j (set_indent j) (Some [])"
  by (simp add: renders_def failed_def writer_def set_indent_def)

section \<open>Every function renders its text\<close>

lemma cat_simps [simp]: "cat [] = Some []" "cat (a # as) = joined a (cat as)"
  by (simp_all add: cat_def)

lemma renders_skipped: "renders cap i i F t \<Longrightarrow> renders cap i i (\<lambda>g. if gerror g then Some g else F g) t"
  by (auto simp: renders_def failed_def writer_def)

text \<open>Rules for a right-nested sequence, one for each kind of first piece.\<close>

lemma renders_then:
  "renders cap i i F s \<Longrightarrow> renders cap i k G t \<Longrightarrow> renders cap i k (\<lambda>g. F g \<bind> G) (joined s t)"
  "renders cap (Suc i) k G t \<Longrightarrow> renders cap i k (\<lambda>g. deeper g \<bind> G) t"
  "renders cap i k G t \<Longrightarrow> renders cap (Suc i) k (\<lambda>g. shallower g \<bind> G) t"
  "renders cap n k G t \<Longrightarrow> renders cap i k (\<lambda>g. set_indent n g \<bind> G) t"
  using renders_bind [of cap i i F s k G t] renders_bind [OF renders_deeper, of cap i k G t]
    renders_bind [OF renders_shallower, of cap i k G t] renders_bind [OF renders_set_indent, of cap n k G t i]
  by simp_all

lemma renders_then_set: "renders cap i i F t \<Longrightarrow> renders cap i k (\<lambda>g. F g \<bind> set_indent k) t"
  using renders_bind [OF _ renders_set_indent, of cap i i F t k] by simp

lemmas renders_base = renders_append renders_skip renders_fail renders_None renders_set_indent

lemma renders_append_each: "renders cap i i (append_each s) (Some (concat (map escaped s)))"
proof (induction s)
  case Nil
  then show ?case using renders_skip by (simp add: append_each.simps(1) [abs_def])
next
  case (Cons c s)
  have "append_each (c # s) = (\<lambda>g. ast_cgen_append (escaped c) g \<bind> append_each s)" by (rule ext) simp
  then show ?case using renders_then(1) [OF renders_append Cons.IH] by (simp add: joined_def)
qed

lemma renders_string_literal: "renders cap i i (ast_cgen_string_literal s) (Some (literal_text s))"
proof -
  note r = renders_then(1) [OF renders_append renders_skipped [OF renders_then(1) [OF renders_append_each renders_append]]]
  from r [of cap i "[34]" s "[34]"]
  show ?thesis by (simp add: ast_cgen_string_literal_def [abs_def] joined_def literal_text_def)
qed

lemma renders_expr:
  "renders cap i i (ast_cgen_expr x) (expr_text x)"
  "renders cap i i (cgen_args sep xs) (args_text sep xs)"
proof (induction x and sep xs rule: expr_text_args_text.induct)
  case 1
  then show ?case using renders_append by (simp add: ast_cgen_expr.simps(1) [abs_def] expr_text.simps lit_def)
next
  case (2 a)
  then show ?case
    by (cases "kind a")
      (simp_all add: ast_cgen_expr.simps(2) [abs_def] expr_text.simps lit_def name_text_def around_def
      renders_base renders_string_literal renders_then)
next
  case (3 sep)
  then show ?case using renders_skip by (simp add: cgen_args.simps(1) [abs_def] args_text.simps)
next
  case (4 sep x xs)
  then show ?case by (cases sep) (simp_all add: cgen_args.simps(2) [abs_def] args_text.simps lit_def renders_base renders_then)
qed

lemma renders_indent: "renders cap i i ast_cgen_indent (Some (indent_text i))"
proof -
  have r: "renders cap j j (repeat_append n s) (Some (concat (replicate n s)))" for j n s
  proof (induction n)
    case 0
    then show ?case using renders_skip by (simp add: repeat_append.simps(1) [abs_def])
  next
    case (Suc n)
    have "repeat_append (Suc n) s = (\<lambda>g. ast_cgen_append s g \<bind> repeat_append n s)" by (rule ext) simp
    then show ?case using renders_then(1) [OF renders_append Suc.IH] by (simp add: joined_def)
  qed
  have i: "gindent (writer cap w i) = i" "failed i g \<Longrightarrow> gindent g = i" for w g by (simp_all add: writer_def failed_def)
  show ?thesis using r [of i i "ascii ''    ''"] by (simp add: renders_def ast_cgen_indent_def indent_text_def i)
qed

lemmas renders_piece = renders_base renders_string_literal renders_expr renders_indent renders_then

lemma renders_print_format: "renders cap i i (print_format sep xs) (format_text sep xs)"
proof (induction xs arbitrary: sep)
  case Nil
  then show ?case by (simp add: print_format.simps(1) [abs_def] renders_piece)
next
  case (Cons x xs)
  then show ?case
    by (cases x; cases sep) (simp_all add: print_format.simps(2) [abs_def] lit_def renders_piece)
qed

lemma renders_print_values: "renders cap i i (print_values xs) (values_text xs)"
  by (induction xs) (simp_all add: print_values.simps [abs_def] lit_def renders_piece)

lemma renders_print: "renders cap i i (cgen_print xs) (print_text xs)"
  by (simp add: cgen_print_def [abs_def] print_text_def renders_piece renders_print_format renders_print_values)

lemma renders_assign: "renders cap i i (cgen_assign a) (assign_text a)"
  by (simp add: cgen_assign_def [abs_def] assign_text_def renders_piece)

lemma renders_expr_stmt: "renders cap i i (cgen_expr_stmt x) (expr_stmt_text x)"
  by (cases x) (simp_all add: cgen_expr_stmt_def [abs_def] expr_stmt_text_def renders_piece renders_print renders_assign)

lemma renders_for_head: "renders cap i i (cgen_for_head v r) (for_text v r)"
proof -
  have l: "joined (lit ''0'') (joined (Some (ascii ''; '' @ s)) t) = joined (Some (ascii ''0; '' @ s)) t" for s t
    by (simp add: joined_def lit_def ascii_def split: option.split)
  show ?thesis by (cases "length (args r) = 1") (simp_all add: cgen_for_head_def [abs_def] for_text_def renders_piece l)
qed

lemma renders_stmt:
  "renders cap i i (ast_cgen_stmt a) (stmt_text i a)"
  "renders cap i i (ast_cgen_block x) (block_text i x)"
  "renders cap i i (cgen_stmts ss) (stmts_text i ss)"
proof (induction i a and i x and i ss rule: stmt_text_block_text_stmts_text.induct)
  case (1 i a)
  have s: "ast_cgen_stmt a = (\<lambda>g. if gerror g then Some g else ast_cgen_indent g \<bind> F) \<Longrightarrow>
      stmt_text i a = joined (Some (indent_text i)) t \<Longrightarrow> renders cap i i F t \<Longrightarrow>
      renders cap i i (ast_cgen_stmt a) (stmt_text i a)" for F t
    by (simp add: renders_skipped renders_piece)
  show ?case
    by (rule s, rule ext, rule ast_cgen_stmt.simps, rule stmt_text.simps, cases "kind a")
       (simp_all add: 1 lit_def nl_def renders_piece renders_expr_stmt renders_assign renders_for_head joined_assoc split: cptr.split)
next
  case (2 i x)
  then show ?case by (cases x) (simp_all add: ast_cgen_block.simps [abs_def] block_text.simps renders_piece)
next
  case (3 i)
  then show ?case by (simp add: cgen_stmts.simps(1) [abs_def] stmts_text.simps renders_piece)
next
  case (4 i s ss)
  then show ?case
    by (cases "kind s = AST_FUNCTION") (simp_all add: cgen_stmts.simps(2) [abs_def] stmts_text.simps renders_piece)
qed

lemma renders_params: "renders cap i i (cgen_params sep xs) (params_text sep xs)"
proof (induction xs arbitrary: sep)
  case Nil
  then show ?case by (simp add: cgen_params.simps(1) [abs_def] renders_piece)
next
  case (Cons x xs)
  then show ?case
    by (cases x; cases sep) (simp_all add: cgen_params.simps(2) [abs_def] lit_def renders_piece)
qed

lemma renders_function:
  assumes "kind a = AST_FUNCTION"
  shows "renders cap 0 0 (ast_cgen_function a) (function_text a)"
  using assms
  by (simp add: ast_cgen_function_def [abs_def] function_text_def renders_piece renders_then_set renders_params renders_stmt)

lemma renders_functions: "renders cap 0 0 (cgen_functions ss) (functions_text ss)"
  unfolding functions_text_def
  by (induction ss) (simp_all add: cgen_functions.simps [abs_def] renders_piece renders_function)

lemma renders_globals: "renders cap i i (cgen_globals vs) (Some (globals_text vs))"
proof (induction vs)
  case Nil
  then show ?case by (simp add: cgen_globals.simps(1) [abs_def] globals_text_def renders_piece)
next
  case (Cons v vs)
  from renders_then(1) [OF renders_append Cons.IH, of "ascii ''    int64_t '' @ v @ ascii '' = 0'' @ end_line"]
  show ?case by (simp add: cgen_globals.simps(2) [abs_def] globals_text_def joined_def)
qed

lemma renders_program:
  "renders cap 0 1 (\<lambda>g. ast_cgen_append c_head g \<bind> cgen_functions (stmts p) \<bind>
     ast_cgen_append (ascii ''int main(void) {'' @ [10]) \<bind> cgen_globals (ast_cgen_collect_globals (Ptr p) []) \<bind>
     set_indent 1 \<bind> ast_cgen_block (Ptr p) \<bind> ast_cgen_append (ascii ''    return 0'' @ end_line @ ascii ''}'' @ [10]))
   (c_text p)"
  by (simp add: c_text_def renders_piece renders_functions renders_globals renders_stmt)

lemma renders_result:
  assumes "renders cap i j F t" and "1 < cap"
  shows "case t of
     Some w \<Rightarrow> F (writer cap [] i) \<bind> (\<lambda>g. Some (if gerror g then NULL else Ptr (gbuf g))) =
       Some (if length w + 1 < cap then Ptr (w @ replicate (cap - length w) 0) else NULL)
   | None \<Rightarrow> F (writer cap [] i) \<bind> (\<lambda>g. Some (if gerror g then NULL else Ptr (gbuf g))) \<in> {None, Some NULL}"
proof -
  have "length [] + 1 < cap" using assms(2) by simp
  note r = assms(1)[unfolded renders_def, THEN conjunct2, rule_format, OF this]
  show ?thesis
    using r by (cases "F (writer cap [] i)") (auto simp: failed_def writer_def split: option.splits if_splits)
qed

lemma emit_result:
  "case c_text p of
     Some w \<Rightarrow> ast_emit_c_source (Ptr (replicate (2 ^ 20) 0)) p =
       Some (if length w + 1 < 2 ^ 20 then Ptr (w @ replicate (2 ^ 20 - length w) 0) else NULL)
   | None \<Rightarrow> ast_emit_c_source (Ptr (replicate (2 ^ 20) 0)) p \<in> {None, Some NULL}"
proof -
  have c: "1 < (2 ^ 20 :: nat)" by simp
  have "ast_emit_c_source (Ptr (replicate (2 ^ 20) 0)) p =
     (ast_cgen_append c_head (writer (2 ^ 20) [] 0) \<bind> cgen_functions (stmts p) \<bind>
       ast_cgen_append (ascii ''int main(void) {'' @ [10]) \<bind> cgen_globals (ast_cgen_collect_globals (Ptr p) []) \<bind>
       set_indent 1 \<bind> ast_cgen_block (Ptr p) \<bind> ast_cgen_append (ascii ''    return 0'' @ end_line @ ascii ''}'' @ [10]))
     \<bind> (\<lambda>g. Some (if gerror g then NULL else Ptr (gbuf g)))"
    by (simp add: ast_emit_c_source_def writer_def)
  then show ?thesis using renders_result [OF renders_program c, of p] by (simp only:)
qed

text \<open>
  Floor division in place: the operator is copied into the program, where it starts a comment.
\<close>

definition floor_source :: "u8 list" where
  "floor_source = ascii ''x //= 2'' @ [10, 0, 0]"

definition floor_text :: "u8 list" where
  "floor_text = c_head @ ascii ''int main(void) {'' @ [10] @ ascii ''    int64_t x = 0;'' @ [10] @
     ascii ''    x //= 2;'' @ [10] @ ascii ''    return 0;'' @ [10] @ ascii ''}'' @ [10]"

declare lexer_next.simps [code] ast_skip_separators.simps [code]

lemma floor_parsed:
  "(do {(x, p, n) \<leftarrow> ast_parse_program 40 floor_source;
     (case x of NULL \<Rightarrow> None | Ptr a \<Rightarrow> do {
       (b, c) \<leftarrow> ast_infer_program 40 a;
       Some (perror p, ast_cgen_requires_legacy_stmt (Ptr b), c_text b, length floor_text)})}) =
   Some (False, False, Some floor_text, 123)"
  by code_simp

text \<open>Every statement ends its line.\<close>

lemma joined_eq_Some: "joined s t = Some w \<longleftrightarrow> (\<exists>u v. s = Some u \<and> t = Some v \<and> w = u @ v)"
  by (cases s; cases t) (auto simp: joined_def)

definition ends_line :: "u8 list option \<Rightarrow> bool" where
  "ends_line t \<longleftrightarrow> (\<forall>w. t = Some w \<longrightarrow> w \<noteq> [] \<and> last w = 10)"

lemma ends_line_joined [simp]: "ends_line u \<Longrightarrow> ends_line (joined t u)"
  by (auto simp: ends_line_def joined_eq_Some)

lemma ends_line_base [simp]: "ends_line None" "ends_line (Some (x @ end_line))" "ends_line (Some end_line)"
  "ends_line (Some (x @ [10]))" "ends_line nl"
  by (simp_all add: ends_line_def end_line_def nl_def ascii_def)

lemma ends_line_parts: "ends_line (print_text xs)" "ends_line (assign_text a)" "ends_line (expr_stmt_text x)"
  by (auto simp: print_text_def assign_text_def expr_stmt_text_def split: cptr.splits)

lemma stmt_text_ends: "ends_line (stmt_text i a)"
  by (subst stmt_text.simps) (auto simp: ends_line_parts split: ast_kind.splits cptr.splits intro!: ends_line_joined)

lemma stmts_text_ends: "stmts_text i ss = Some t \<Longrightarrow> t = [] \<or> last t = 10"
proof (induction ss arbitrary: t)
  case (Cons s ss)
  then show ?case using stmt_text_ends [of i s]
    by (auto simp: stmts_text.simps joined_eq_Some ends_line_def last_append split: if_splits)
qed (simp add: stmts_text.simps)

lemma stmts_text_append: "stmts_text i (ss @ ss') = joined (stmts_text i ss) (stmts_text i ss')"
  by (induction ss) (simp_all add: stmts_text.simps joined_assoc)

text \<open>
  C33: The generator writes into a megabyte that it has cleared.  For every tree it stays inside this
  buffer and hands it out only if it holds the complete text of the program followed by a terminator;
  a text that would not leave room for the terminator and a tree outside the language are refused
  (\<open>NULL\<close>), and undefined behaviour is possible only for a tree outside the language.
\<close>

theorem ast_emit_c_source_exact:
  "case c_text p of
     Some w \<Rightarrow> ast_emit_c_source (Ptr (replicate (2 ^ 20) 0)) p =
       Some (if length w + 1 < 2 ^ 20 then Ptr (w @ replicate (2 ^ 20 - length w) 0) else NULL)
   | None \<Rightarrow> ast_emit_c_source (Ptr (replicate (2 ^ 20) 0)) p \<in> {None, Some NULL}"
  by (rule emit_result)

text \<open>
  C34: An assignment \<open>x //= e\<close> is never compiled to a division.  For every program with such a statement
  at top level, whatever stands before and after it and whatever the divisor is, a C text that the
  generator hands out has a line of its own for it, and in this line the operator is copied: what
  follows the name of the variable is a C comment, the divisor and the semicolon with it.
\<close>

theorem ast_emit_c_source_floor_comment:
  assumes p: "kind p = AST_PROGRAM" "stmts p = us @ s # vs"
    and s: "kind s = AST_ASSIGN \<and> a = s \<or> kind s = AST_EXPR_STMT \<and> nleft s = Ptr a \<and> kind a = AST_ASSIGN"
    and a: "ntext a = ascii ''//=''" "nleft a = Ptr l" "kind l = AST_IDENTIFIER" "nright a = e"
    and out: "ast_emit_c_source (Ptr (replicate (2 ^ 20) 0)) p = Some (Ptr out)"
  shows "\<exists>before divisor after. expr_text e = Some divisor \<and> last before = 10 \<and>
    out = before @ ascii ''    '' @ name_text (ntext l) @ ascii '' //= '' @ divisor @ ascii '';'' @ [10] @ after"
proof -
  obtain w where w: "c_text p = Some w" "out = w @ replicate (2 ^ 20 - length w) 0"
    using emit_result [of p] out by (auto split: option.splits if_splits)
  obtain h f g us' z where t: "functions_text (stmts p) = Some f" "g = globals_text (ast_cgen_collect_globals (Ptr p) [])"
    "stmts_text 1 (us @ s # vs) = Some us'"
    "w = c_head @ f @ (ascii ''int main(void) {'' @ [10]) @ g @ us' @ ascii ''    return 0'' @ end_line @ ascii ''}'' @ [10]"
    using w(1) p(2) by (auto simp: c_text_def block_text.simps joined_eq_Some)
  have at: "stmt_text 1 s = joined (Some (indent_text 1)) (assign_text a)"
    using s by (subst stmt_text.simps) (auto simp: expr_stmt_text_def)
  have nf: "kind s \<noteq> AST_FUNCTION" using s by auto
  obtain u v where u: "stmts_text 1 us = Some u" and v: "joined (stmt_text 1 s) (stmts_text 1 vs) = Some v" "us' = u @ v"
    using t(3) nf by (auto simp: stmts_text_append stmts_text.simps joined_eq_Some)
  obtain d y where d: "expr_text e = Some d"
    "v = indent_text 1 @ name_text (ntext l) @ (ascii '' '' @ ascii ''//='' @ ascii '' '') @ d @ end_line @ y"
    using v(1) a unfolding at by (auto simp: assign_text_def joined_eq_Some expr_text.simps)
  let ?b = "c_head @ f @ (ascii ''int main(void) {'' @ [10]) @ g @ u"
  have "last (x @ [10] @ g) = 10" for x
  proof (cases "ast_cgen_collect_globals (Ptr p) []" rule: rev_cases)
    case Nil
    then show ?thesis by (simp add: t(2) globals_text_def)
  next
    case (snoc ns n)
    then show ?thesis by (simp add: t(2) globals_text_def end_line_def)
  qed
  then have "last ((c_head @ f @ ascii ''int main(void) {'') @ [10] @ g) = 10" by blast
  then have "last ?b = 10" using stmts_text_ends [OF u] by (cases "u = []") auto
  moreover have "out = ?b @ ascii ''    '' @ name_text (ntext l) @ ascii '' //= '' @ d @ ascii '';'' @ [10]
      @ (y @ ascii ''    return 0'' @ end_line @ ascii ''}'' @ [10] @ replicate (2 ^ 20 - length w) 0)"
    unfolding w(2) t(4) v(2) d(2) by (simp add: indent_text_def end_line_def ascii_def)
  ultimately show ?thesis using d(1) by blast
qed

definition floor_assign :: ast_node where
  "floor_assign = Ast AST_ASSIGN AST_TYPE_UNKNOWN (ascii ''//='') (Ptr (node AST_IDENTIFIER [120])) (Ptr (node AST_NUMBER [50]))
     NULL NULL NULL [] []"

definition floor_program :: ast_node where
  "floor_program = Ast AST_PROGRAM AST_TYPE_UNKNOWN (ascii ''program'') NULL NULL NULL NULL NULL [] [floor_assign]"

lemma floor_program_text: "c_text floor_program = Some floor_text \<and> length floor_text = 123"
  by code_simp

theorem ast_emit_c_source_floor_comment_witness:
  "\<exists>out before divisor after. ast_emit_c_source (Ptr (replicate (2 ^ 20) 0)) floor_program = Some (Ptr out) \<and>
    last before = 10 \<and> expr_text (Ptr (node AST_NUMBER [50])) = Some divisor \<and>
    out = before @ ascii ''    '' @ name_text [120] @ ascii '' //= '' @ divisor @ ascii '';'' @ [10] @ after"
proof -
  have e: "ast_emit_c_source (Ptr (replicate (2 ^ 20) 0)) floor_program =
      Some (Ptr (floor_text @ replicate (2 ^ 20 - length floor_text) 0))"
    using emit_result [of floor_program] floor_program_text by simp
  have p: "kind floor_program = AST_PROGRAM" "stmts floor_program = [] @ floor_assign # []"
    by (simp_all add: floor_program_def)
  have a: "kind floor_assign = AST_ASSIGN \<and> floor_assign = floor_assign \<or> kind floor_assign = AST_EXPR_STMT \<and>
      nleft floor_assign = Ptr floor_assign \<and> kind floor_assign = AST_ASSIGN"
    "ntext floor_assign = ascii ''//=''" "nleft floor_assign = Ptr (node AST_IDENTIFIER [120])"
    "kind (node AST_IDENTIFIER [120]) = AST_IDENTIFIER" "nright floor_assign = Ptr (node AST_NUMBER [50])"
    by (simp_all add: floor_assign_def node_def)
  have n: "ntext (node AST_IDENTIFIER [120]) = [120]" by (simp add: node_def LEX_TOKEN_TEXT_def)
  show ?thesis using ast_emit_c_source_floor_comment [OF p a e] e unfolding n by blast
qed

end
