(* ===== verification/Qrecc.thy ===== *)
theory Qrecc imports Kstring begin

text \<open>
  The error correction of \<open>src/qrcli/qrcli.c\<close>: the tables of the field with 256 elements and the
  Reed-Solomon encoder.  The reference is the product of polynomials over two elements modulo
  \<open>x^8 + x^4 + x^3 + x^2 + 1\<close>, and the roots of the code words.
\<close>

section \<open>The tables\<close>

record gf =
  gf_exp :: "u8 list"
  gf_log :: "u8 list"

fun gf_fill :: "nat \<Rightarrow> nat \<Rightarrow> u32 \<Rightarrow> gf \<Rightarrow> gf option" where
  "gf_fill 0 i x t = Some t"
| "gf_fill (Suc k) i x t = do {
     e \<leftarrow> wr (gf_exp t) i (ucast x);
     e \<leftarrow> wr e (i + 255) (ucast x);
     l \<leftarrow> wr (gf_log t) (unat x) (of_nat i);
     let x = push_bit 1 x;
     gf_fill k (i + 1) (if x AND 0x100 \<noteq> 0 then x XOR 0x11D else x) \<lparr>gf_exp = e, gf_log = l\<rparr>}"

definition gf_init :: "gf \<Rightarrow> gf option" where
  "gf_init t = do {
     t \<leftarrow> gf_fill 255 0 1 t;
     l \<leftarrow> wr (gf_log t) 0 0;
     Some (t \<lparr>gf_log := l\<rparr>)}"

definition gf_mul :: "gf \<Rightarrow> u8 \<Rightarrow> u8 \<Rightarrow> u8 option" where
  "gf_mul t a b =
     (if a = 0 \<or> b = 0 then Some 0
      else do {
        la \<leftarrow> rd (gf_log t) (unat a);
        lb \<leftarrow> rd (gf_log t) (unat b);
        rd (gf_exp t) (unat la + unat lb)})"

section \<open>The encoder\<close>

text \<open>The loop over \<open>j\<close> from \<open>i + 1\<close> down to 1, and the loop over \<open>i\<close>.\<close>

fun gen_row :: "gf \<Rightarrow> nat \<Rightarrow> nat \<Rightarrow> u8 list \<Rightarrow> u8 list option" where
  "gen_row t i 0 poly = Some poly"
| "gen_row t i (Suc j) poly = do {
     a \<leftarrow> rd poly (Suc j);
     b \<leftarrow> rd poly j;
     e \<leftarrow> rd (gf_exp t) i;
     m \<leftarrow> gf_mul t b e;
     poly \<leftarrow> wr poly (Suc j) (a XOR m);
     gen_row t i j poly}"

fun gen_rows :: "gf \<Rightarrow> nat list \<Rightarrow> u8 list \<Rightarrow> u8 list option" where
  "gen_rows t [] poly = Some poly"
| "gen_rows t (i # is) poly = gen_row t i (i + 1) poly \<bind> gen_rows t is"

definition rs_gen_poly :: "gf \<Rightarrow> nat \<Rightarrow> u8 list \<Rightarrow> u8 list option" where
  "rs_gen_poly t nsym poly = do {
     poly \<leftarrow> wr_seq poly 0 (replicate (nsym + 1) 0);
     poly \<leftarrow> wr poly 0 1;
     gen_rows t [0..<nsym] poly}"

text \<open>\<open>for (j = 0; j < ec_len - 1; j++)\<close>; \<open>k\<close> rounds are left.\<close>

fun ec_shift :: "gf \<Rightarrow> u8 list \<Rightarrow> u8 \<Rightarrow> nat \<Rightarrow> nat \<Rightarrow> u8 list \<Rightarrow> u8 list option" where
  "ec_shift t gen factor 0 j ec = Some ec"
| "ec_shift t gen factor (Suc k) j ec = do {
     a \<leftarrow> rd ec (j + 1);
     g \<leftarrow> rd gen (j + 1);
     m \<leftarrow> gf_mul t g factor;
     ec \<leftarrow> wr ec j (a XOR m);
     ec_shift t gen factor k (j + 1) ec}"

fun rs_loop :: "gf \<Rightarrow> u8 list \<Rightarrow> nat \<Rightarrow> u8 list \<Rightarrow> u8 list \<Rightarrow> u8 list option" where
  "rs_loop t gen ec_len [] ec = Some ec"
| "rs_loop t gen ec_len (d # dat) ec = do {
     e0 \<leftarrow> rd ec 0;
     let factor = d XOR e0;
     ec \<leftarrow> ec_shift t gen factor (ec_len - 1) 0 ec;
     g \<leftarrow> rd gen ec_len;
     m \<leftarrow> gf_mul t g factor;
     ec \<leftarrow> wr ec (ec_len - 1) m;
     rs_loop t gen ec_len dat ec}"

text \<open>\<open>dat\<close> are the \<open>data_len\<close> bytes at \<open>data\<close>.\<close>

definition rs_encode :: "gf \<Rightarrow> u8 list \<Rightarrow> u8 list \<Rightarrow> nat \<Rightarrow> u8 list \<Rightarrow> u8 list option" where
  "rs_encode t dat ec ec_len gen = do {
     ec \<leftarrow> wr_seq ec 0 (replicate ec_len 0);
     rs_loop t gen ec_len dat ec}"

section \<open>The field\<close>

definition xtime :: "u8 \<Rightarrow> u8" where
  "xtime a = push_bit 1 a XOR (if bit a 7 then 0x1D else 0)"

definition gmul :: "u8 \<Rightarrow> u8 \<Rightarrow> u8" where
  "gmul a b = foldr (\<lambda>i r. (if bit b i then (xtime ^^ i) a else 0) XOR r) [0..<8] 0"

definition pw :: "nat \<Rightarrow> u8" where "pw i = (xtime ^^ i) 1"

text \<open>The same on integers, for evaluation.\<close>

definition xt :: "int \<Rightarrow> int" where "xt x = (if x < 128 then 2 * x else (2 * x - 256) XOR 29)"

lemma uint_xtime: "uint (xtime a) = xt (uint a)"
proof -
  have a: "0 \<le> uint a" "uint a < 256" using uint_lt2p [of a] by auto
  have d: "odd (x div 128) \<longleftrightarrow> 128 \<le> x" if "0 \<le> x" "x < 256" for x :: int
    using that div_pos_geq [of 128 x] by (cases "x < 128") simp_all
  have "bit a 7 \<longleftrightarrow> 128 \<le> uint a"
    using d [OF a] bit_uint_iff [of a 7] bit_iff_odd [of "uint a" 7] by simp
  moreover have "uint (push_bit 1 a) = (if uint a < 128 then 2 * uint a else 2 * uint a - 256)"
  proof -
    have "(2 * x) mod 256 = (if x < 128 then 2 * x else 2 * x - 256)" if "0 \<le> x" "x < 256" for x :: int
      using that mod_pos_pos_trivial [of "2 * x - 256" 256] minus_mod_self2 [of "2 * x" 256] by simp
    moreover have "uint (push_bit 1 a) = (2 * uint a) mod 256"
      by (simp only: unsigned_push_bit_eq) (simp add: take_bit_eq_mod push_bit_eq_mult mult.commute)
    ultimately show ?thesis using a by (simp only:)
  qed
  moreover have "uint (xtime a) = uint (push_bit 1 a) XOR uint (if bit a 7 then 29 else 0 :: u8)"
    unfolding xtime_def by (rule uint_xor)
  ultimately show ?thesis by (cases "uint a < 128") (simp_all only: xt_def, simp_all)
qed

lemma uint_xtime_pow: "uint ((xtime ^^ i) a) = (xt ^^ i) (uint a)"
  by (induction i) (simp_all add: uint_xtime)

lemma xtime_xor: "xtime (a XOR b) = xtime a XOR xtime b"
  by (auto simp: xtime_def bit_xor_iff push_bit_xor intro!: bit_word_eqI simp: bit_simps)

lemma xtime_0 [simp]: "xtime 0 = 0"
  by (simp add: xtime_def)

lemma xtime_pow_xor: "(xtime ^^ i) (a XOR b) = (xtime ^^ i) a XOR (xtime ^^ i) b"
  by (induction i) (simp_all add: xtime_xor)

lemma xtime_pow_0 [simp]: "(xtime ^^ i) 0 = 0"
  by (induction i) simp_all

lemma xtime_inj: "xtime a = xtime b \<Longrightarrow> a = b"
proof -
  assume e: "xtime a = xtime b"
  define c where "c = a XOR b"
  have z: "xtime c = 0" using e by (simp add: c_def xtime_xor)
  have "c = 0"
  proof (rule bit_word_eqI)
    fix n assume n: "n < LENGTH(8)"
    have "bit (xtime c) 0 = bit c 7" by (simp add: xtime_def bit_xor_iff bit_0 even_xor_iff)
    then have h: "\<not> bit c 7" using z by simp
    then have "xtime c = push_bit 1 c" by (simp add: xtime_def)
    then have "\<not> bit (push_bit 1 c) (Suc n)" using z by (simp del: push_bit_of_1)
    then have "n < 7 \<longrightarrow> \<not> bit c n" unfolding bit_push_bit_iff by simp
    then show "bit c n = bit (0 :: u8) n" using n h
      by (cases "n = 7") auto
  qed
  then have "(a XOR b) XOR b = b" by (simp add: c_def)
  then show "a = b" by (simp only: xor.assoc xor_self_eq xor.right_neutral)
qed

lemma gmul_xor_left: "gmul (a XOR b) c = gmul a c XOR gmul b c"
proof -
  have "foldr (\<lambda>i r. (if bit c i then (xtime ^^ i) (a XOR b) else 0) XOR r) is 0 =
    foldr (\<lambda>i r. (if bit c i then (xtime ^^ i) a else 0) XOR r) is 0 XOR
    foldr (\<lambda>i r. (if bit c i then (xtime ^^ i) b else 0) XOR r) is 0" for "is"
    by (induction "is") (auto simp: xtime_pow_xor ac_simps)
  then show ?thesis by (simp add: gmul_def)
qed

lemma if_xor: "(if p \<noteq> q then x else 0) = (if p then x else 0) XOR (if q then x else (0 :: u8))"
  by simp

lemma gmul_xor_right: "gmul a (b XOR c) = gmul a b XOR gmul a c"
proof -
  have "foldr (\<lambda>i r. (if bit (b XOR c) i then (xtime ^^ i) a else 0) XOR r) is 0 =
    foldr (\<lambda>i r. (if bit b i then (xtime ^^ i) a else 0) XOR r) is 0 XOR
    foldr (\<lambda>i r. (if bit c i then (xtime ^^ i) a else 0) XOR r) is 0" for "is"
    by (induction "is") (simp_all add: bit_xor_iff if_xor ac_simps)
  then show ?thesis by (simp add: gmul_def)
qed

lemma gmul_xtime: "gmul (xtime a) b = xtime (gmul a b)"
proof -
  have "foldr (\<lambda>i r. (if bit b i then (xtime ^^ i) (xtime a) else 0) XOR r) is 0 =
    xtime (foldr (\<lambda>i r. (if bit b i then (xtime ^^ i) a else 0) XOR r) is 0)" for "is"
    by (induction "is") (auto simp: xtime_xor funpow_swap1)
  then show ?thesis by (simp add: gmul_def)
qed

lemma bit_sum_powers:
  assumes "n < 8" and "distinct is" and "set is \<subseteq> {..<8}"
  shows "bit (foldr (\<lambda>i r. (if bit b i then push_bit i 1 else 0) XOR r) is (0 :: u8)) n \<longleftrightarrow> n \<in> set is \<and> bit b n"
  using assms(2,3) by (induction "is") (use assms(1) in \<open>auto simp: bit_xor_iff bit_exp_iff\<close>)

lemma gmul_1 [simp]: "gmul 1 b = b"
proof -
  have "\<forall>i\<in>set [0..<8]. (xtime ^^ i) 1 = push_bit i 1"
    by (simp add: upt_rec word_uint_eq_iff uint_xtime xt_def)
  then have "gmul 1 b = foldr (\<lambda>i r. (if bit b i then push_bit i 1 else 0) XOR r) [0..<8] 0"
    unfolding gmul_def by (intro foldr_cong) auto
  also have "\<dots> = b"
    by (rule bit_word_eqI) (subst bit_sum_powers; auto)
  finally show ?thesis .
qed

lemma gmul_0 [simp]: "gmul 0 b = 0" "gmul a 0 = 0"
proof -
  have "foldr (\<lambda>i r. (if bit b i then (xtime ^^ i) 0 else 0) XOR r) is 0 = (0 :: u8)" for "is"
    by (induction "is") auto
  then show "gmul 0 b = 0" by (simp add: gmul_def)
  have "foldr (\<lambda>i r. r) is (0 :: u8) = 0" for "is" :: "nat list" by (induction "is") auto
  then show "gmul a 0 = 0" by (simp add: gmul_def)
qed

lemma gmul_pow: "gmul ((xtime ^^ i) a) b = (xtime ^^ i) (gmul a b)"
  by (induction i) (simp_all add: gmul_xtime)

lemma gmul_pw: "gmul (pw i) b = (xtime ^^ i) b"
  using gmul_pow [of i 1 b] by (simp add: pw_def)

lemma gmul_pw_pw: "gmul (pw i) (pw j) = pw (i + j)"
  by (simp add: gmul_pw) (simp add: pw_def funpow_add)

lemma pw_0 [simp]: "pw 0 = 1"
  by (simp add: pw_def)

lemma pw_Suc: "pw (Suc i) = xtime (pw i)"
  by (simp add: pw_def)

fun orbit_avoids_1 :: "nat \<Rightarrow> int \<Rightarrow> bool" where
  "orbit_avoids_1 0 x = True"
| "orbit_avoids_1 (Suc n) x = (x \<noteq> 1 \<and> orbit_avoids_1 n (xt x))"

fun xt_steps :: "nat \<Rightarrow> int \<Rightarrow> int" where
  "xt_steps 0 x = x"
| "xt_steps (Suc n) x = xt_steps n (xt x)"

lemma xt_steps: "xt_steps n x = (xt ^^ n) x"
  by (induction n arbitrary: x) (simp_all add: funpow_swap1)

lemma orbit_pw: "orbit_avoids_1 n (uint (pw k)) \<Longrightarrow> i < n \<Longrightarrow> pw (k + i) \<noteq> 1"
proof (induction n arbitrary: k i)
  case (Suc n)
  have s: "xt (uint (pw k)) = uint (pw (Suc k))" by (simp add: pw_Suc uint_xtime)
  show ?case
  proof (cases i)
    case 0
    then show ?thesis using Suc.prems(1) by (auto simp: word_uint_eq_iff)
  next
    case (Suc j)
    then show ?thesis using Suc.IH [of "Suc k" j] Suc.prems s by simp
  qed
qed simp

lemma pw_order: "0 < d \<Longrightarrow> d < 255 \<Longrightarrow> pw d \<noteq> 1" "pw 255 = 1"
proof -
  have "orbit_avoids_1 254 2" by code_simp
  moreover have "uint (pw 1) = 2" by (simp add: pw_def uint_xtime xt_def)
  ultimately show "0 < d \<Longrightarrow> d < 255 \<Longrightarrow> pw d \<noteq> 1" using orbit_pw [of 254 1 "d - 1"] by simp
  have "xt_steps 255 1 = 1" by code_simp
  then show "pw 255 = 1" by (simp add: pw_def word_uint_eq_iff uint_xtime_pow xt_steps)
qed

lemma pw_period: "pw (i + 255) = pw i"
  using gmul_pw_pw [of i 255] by (simp add: pw_order) (metis add.right_neutral gmul_pw_pw pw_0)

lemma pw_inj: "i < j \<Longrightarrow> j < 255 \<Longrightarrow> pw i \<noteq> pw j"
proof -
  have "pw i = pw j \<Longrightarrow> i < j \<Longrightarrow> pw (j - i) = 1" for i j
  proof (induction i arbitrary: j)
    case (Suc i)
    then obtain k where k: "j = Suc k" by (cases j) auto
    then have "pw i = pw k" using Suc.prems(1) by (auto simp: pw_Suc dest: xtime_inj)
    then show ?case using Suc k by simp
  qed simp
  moreover assume "i < j" "j < 255"
  moreover have "pw (j - i) \<noteq> 1" using pw_order(1) [of "j - i"] \<open>i < j\<close> \<open>j < 255\<close> by simp
  ultimately show "pw i \<noteq> pw j" by blast
qed

lemma pw_nonzero: "pw i \<noteq> 0"
  by (induction i) (auto simp: pw_Suc dest: xtime_inj [of _ 0, simplified])

lemma pw_surj: "a \<noteq> 0 \<Longrightarrow> \<exists>i<255. a = pw i"
proof -
  assume a: "a \<noteq> 0"
  have "inj_on pw {..<255}" by (rule linorder_inj_onI) (auto dest: pw_inj)
  then have "card (pw ` {..<255}) = 255" by (simp add: card_image)
  moreover have "card (UNIV - {0 :: u8}) = 255" by (simp add: card_Diff_subset card_word)
  moreover have "pw ` {..<255} \<subseteq> UNIV - {0}" using pw_nonzero by auto
  ultimately have "pw ` {..<255} = UNIV - {0}" by (intro card_subset_eq) auto
  then show ?thesis using a by blast
qed

lemma gmul_commute: "gmul a b = gmul b a"
  by (cases "a = 0"; cases "b = 0") (auto dest!: pw_surj simp: gmul_pw_pw add.commute)

lemma gmul_assoc: "gmul (gmul a b) c = gmul a (gmul b c)"
  by (cases "a = 0"; cases "b = 0"; cases "c = 0") (auto dest!: pw_surj simp: gmul_pw_pw add.assoc)

lemma gmul_left_commute: "gmul a (gmul b c) = gmul b (gmul a c)"
  by (metis gmul_assoc gmul_commute)

lemmas gmul_ring = gmul_xor_left gmul_xor_right gmul_assoc gmul_commute gmul_left_commute xor.assoc xor.commute xor.left_commute

section \<open>The tables are right\<close>

definition tables :: "gf \<Rightarrow> bool" where
  "tables t \<longleftrightarrow> length (gf_exp t) = 512 \<and> length (gf_log t) = 256 \<and>
     (\<forall>i<510. gf_exp t ! i = pw i) \<and> (\<forall>i<255. gf_log t ! unat (pw i) = of_nat i)"

definition filled :: "nat \<Rightarrow> gf \<Rightarrow> bool" where
  "filled i t \<longleftrightarrow> length (gf_exp t) = 512 \<and> length (gf_log t) = 256 \<and>
     (\<forall>j<i. gf_exp t ! j = pw j \<and> gf_exp t ! (j + 255) = pw j \<and> gf_log t ! unat (pw j) = of_nat j)"

lemma bit_ucast_8: "bit (ucast (a :: u8) :: u32) n \<longleftrightarrow> bit a n"
  using bit_imp_le_length [of a n] by (auto simp: bit_ucast_iff)

lemma drop_carry:
  "bit a 7 \<Longrightarrow> push_bit 1 (ucast a :: u32) XOR (2 ^ 8 XOR ucast (c :: u8)) = ucast (push_bit 1 a XOR c)"
  "\<not> bit a 7 \<Longrightarrow> push_bit 1 (ucast a :: u32) = ucast (push_bit 1 a)"
proof -
  have b: "bit (x :: u8) n \<Longrightarrow> n < 8" for x n using bit_imp_le_length by fastforce
  have e: "1 \<le> n \<and> bit a (n - 1) \<and> \<not> n < 8 \<Longrightarrow> n = 8" for n using b [of a "n - 1"] by auto
  show "push_bit 1 (ucast a :: u32) XOR (2 ^ 8 XOR ucast c) = ucast (push_bit 1 a XOR c)" if "bit a 7"
    by (rule bit_word_eqI, simp only: bit_xor_iff bit_push_bit_iff bit_ucast_8 bit_exp_iff)
       (use that e b [of c] in fastforce)
  show "push_bit 1 (ucast a :: u32) = ucast (push_bit 1 a)" if "\<not> bit a 7"
    by (rule bit_word_eqI, simp only: bit_push_bit_iff bit_ucast_8) (use that e in fastforce)
qed

lemma next_power:
  "(let x = push_bit 1 (ucast a :: u32) in if x AND 0x100 \<noteq> 0 then x XOR 0x11D else x) = ucast (xtime a)"
proof -
  have m: "(0x100 :: u32) = 2 ^ 8" "(0x11D :: u32) = 2 ^ 8 XOR ucast (0x1D :: u8)" by simp_all
  have t: "push_bit 1 (ucast a :: u32) AND 0x100 \<noteq> 0 \<longleftrightarrow> bit a 7"
    unfolding m(1) and_exp_eq_0_iff_not_bit not_not
    by (simp only: bit_push_bit_iff bit_ucast_iff) simp
  show ?thesis
    using t drop_carry(1) [of a "0x1D"] drop_carry(2) [of a] unfolding m(2) xtime_def Let_def by (cases "bit a 7") simp_all
qed

lemma gf_fill_filled:
  "i + k = 255 \<Longrightarrow> filled i t \<Longrightarrow> \<exists>t'. gf_fill k i (ucast (pw i)) t = Some t' \<and> filled 255 t'"
proof (induction k arbitrary: i t)
  case (Suc k)
  have u: "unat (ucast (pw i) :: u32) = unat (pw i)" "ucast (ucast (pw i) :: u32) = pw i"
    using unsigned_less [of "pw i", where 'a = nat]
    by (simp add: unsigned_ucast_eq take_bit_nat_eq_self, intro bit_word_eqI) (simp add: bit_ucast_iff bit_ucast_8)
  have l: "unat (pw i) < 256" using unsigned_less [of "pw i"] by simp
  define t' where "t' = \<lparr>gf_exp = (gf_exp t)[i := pw i, i + 255 := pw i], gf_log = (gf_log t)[unat (pw i) := of_nat i]\<rparr>"
  have "filled (Suc i) t'"
    using Suc.prems l by (auto simp: filled_def t'_def nth_list_update less_Suc_eq word_unat_eq_iff [symmetric] dest: pw_inj)
  then obtain t'' where "gf_fill k (Suc i) (ucast (pw (Suc i))) t' = Some t''" "filled 255 t''"
    using Suc.IH [of "Suc i" t'] Suc.prems(1) by auto
  then show ?case using Suc.prems l next_power [of "pw i"]
    by (auto simp: u filled_def t'_def Let_def pw_Suc)
qed auto

lemma gf_init_tables:
  assumes "length (gf_exp t) = 512" and "length (gf_log t) = 256"
  obtains t' where "gf_init t = Some t'" "tables t'"
proof -
  obtain t' where t': "gf_fill 255 0 1 t = Some t'" "filled 255 t'"
    using gf_fill_filled [of 0 255 t] assms by (auto simp: filled_def)
  define t'' where "t'' = t' \<lparr>gf_log := (gf_log t')[0 := 0]\<rparr>"
  have "unat (pw i) \<noteq> 0" for i using pw_nonzero [of i] by (simp add: unat_eq_0)
  moreover have "gf_exp t' ! i = pw i" if "i < 510" for i
  proof (cases "i < 255")
    case False
    then have "i - 255 < 255" "i = i - 255 + 255" using that by simp_all
    then show ?thesis using t'(2) pw_period [of "i - 255"] by (metis filled_def)
  qed (use t'(2) in \<open>simp add: filled_def\<close>)
  ultimately have "tables t''" using t'(2) by (auto simp: tables_def filled_def t''_def nth_list_update)
  moreover have "gf_init t = Some t''" using t' by (simp add: gf_init_def filled_def t''_def)
  ultimately show ?thesis using that by blast
qed

lemma gf_mul_correct:
  assumes "tables t"
  shows "gf_mul t a b = Some (gmul a b)"
proof (cases "a = 0 \<or> b = 0")
  case False
  then obtain i j where i: "i < 255" "a = pw i" and j: "j < 255" "b = pw j" using pw_surj by metis
  have u: "unat (pw k) < 256" for k using unsigned_less [of "pw k"] by simp
  have "unat (of_nat k :: u8) = k" if "k < 255" for k using that by (simp add: unat_of_nat)
  then show ?thesis using assms False i j u by (simp add: gf_mul_def tables_def gmul_pw_pw)
qed (auto simp: gf_mul_def)

section \<open>Polynomials\<close>

text \<open>The value of a polynomial, whose first coefficient is the leading one.\<close>

definition ev :: "u8 \<Rightarrow> u8 list \<Rightarrow> u8" where
  "ev x cs = foldl (\<lambda>v c. gmul v x XOR c) 0 cs"

fun gpow :: "u8 \<Rightarrow> nat \<Rightarrow> u8" where
  "gpow x 0 = 1"
| "gpow x (Suc n) = gmul x (gpow x n)"

lemma ev_Nil [simp]: "ev x [] = 0"
  by (simp add: ev_def)

lemma ev_snoc [simp]: "ev x (cs @ [c]) = gmul (ev x cs) x XOR c"
  by (simp add: ev_def)

lemma ev_Cons: "ev x (c # cs) = gmul c (gpow x (length cs)) XOR ev x cs"
proof (induction cs rule: rev_induct)
  case Nil
  then show ?case using gmul_commute [of c 1] by (simp add: ev_def)
next
  case (snoc d cs)
  have "ev x (c # cs @ [d]) = gmul (ev x (c # cs)) x XOR d" using ev_snoc [of x "c # cs" d] by simp
  also have "\<dots> = gmul c (gmul x (gpow x (length cs))) XOR (gmul (ev x cs) x XOR d)"
    by (simp add: snoc.IH gmul_ring)
  finally show ?case by simp
qed

lemma ev_append: "ev x (as @ bs) = gmul (ev x as) (gpow x (length bs)) XOR ev x bs"
proof (induction bs rule: rev_induct)
  case Nil
  then show ?case using gmul_commute [of _ 1] by simp
next
  case (snoc b bs)
  have "ev x (as @ bs @ [b]) = gmul (ev x (as @ bs)) x XOR b" using ev_snoc [of x "as @ bs" b] by simp
  then show ?case
    by (simp add: snoc.IH gmul_ring)
qed

lemma ev_xor: "length as = length bs \<Longrightarrow> ev x (map2 (XOR) as bs) = ev x as XOR ev x bs"
  by (induction as bs rule: list_induct2) (simp_all add: ev_Cons gmul_xor_left ac_simps)

lemma ev_scale: "ev x (map (gmul c) as) = gmul c (ev x as)"
  by (induction as) (simp_all add: ev_Cons gmul_xor_right gmul_assoc)

section \<open>The generator polynomial\<close>

lemma gen_row_value:
  assumes t: "tables t" and i: "i < 255"
  shows "j < length p \<Longrightarrow> gen_row t i j p =
     Some (map (\<lambda>k. if 1 \<le> k \<and> k \<le> j then p ! k XOR gmul (p ! (k - 1)) (pw i) else p ! k) [0..<length p])"
proof (induction j arbitrary: p)
  case 0
  then show ?case by (auto intro!: nth_equalityI)
next
  case (Suc j)
  have e: "gf_exp t ! i = pw i" "i < length (gf_exp t)" using t i by (auto simp: tables_def)
  have "gen_row t i (Suc j) p = gen_row t i j (p[Suc j := p ! Suc j XOR gmul (p ! j) (pw i)])"
    using Suc.prems e by (simp add: gf_mul_correct [OF t])
  also have "\<dots> = Some (map (\<lambda>k. if 1 \<le> k \<and> k \<le> Suc j then p ! k XOR gmul (p ! (k - 1)) (pw i) else p ! k) [0..<length p])"
    using Suc.prems Suc.IH [of "p[Suc j := p ! Suc j XOR gmul (p ! j) (pw i)]"]
    by (auto simp: nth_list_update le_Suc_eq intro!: map_cong)
  finally show ?case .
qed

definition gen_poly :: "nat \<Rightarrow> u8 list \<Rightarrow> bool" where
  "gen_poly n g \<longleftrightarrow> length g = n + 1 \<and> g ! 0 = 1 \<and> (\<forall>i<n. ev (pw i) g = 0)"

lemma gen_row_poly:
  assumes t: "tables t" and i: "i < 255" and g: "gen_poly i g"
  shows "\<exists>g'. gen_poly (Suc i) g' \<and> gen_row t i (i + 1) (g @ 0 # r) = Some (g' @ r)"
proof -
  define g' where "g' = map2 (XOR) (g @ [0]) (map (gmul (pw i)) (0 # g))"
  have l: "length g = i + 1" using g by (simp add: gen_poly_def)
  have n: "g' ! k = (g @ [0]) ! k XOR gmul (pw i) ((0 # g) ! k)" if "k \<le> i + 1" for k
    using that l by (cases k) (simp_all add: g'_def nth_append)
  have "ev x g' = gmul (ev x g) x XOR gmul (pw i) (ev x g)" for x
    by (simp add: g'_def ev_xor ev_scale del: list.map) (simp add: ev_Cons)
  then have "gen_poly (Suc i) g'"
    using g n [of 0] by (auto simp: gen_poly_def g'_def less_Suc_eq gmul_commute nth_append)
  moreover have "gen_row t i (i + 1) (g @ 0 # r) = Some (g' @ r)"
  proof -
    have "map (\<lambda>k. if 1 \<le> k \<and> k \<le> i + 1 then (g @ 0 # r) ! k XOR gmul ((g @ 0 # r) ! (k - 1)) (pw i)
       else (g @ 0 # r) ! k) [0..<length (g @ 0 # r)] = g' @ r"
    proof (rule nth_equalityI)
      fix k assume "k < length (map (\<lambda>k. if 1 \<le> k \<and> k \<le> i + 1 then (g @ 0 # r) ! k XOR gmul ((g @ 0 # r) ! (k - 1)) (pw i)
         else (g @ 0 # r) ! k) [0..<length (g @ 0 # r)])"
      then show "map (\<lambda>k. if 1 \<le> k \<and> k \<le> i + 1 then (g @ 0 # r) ! k XOR gmul ((g @ 0 # r) ! (k - 1)) (pw i)
         else (g @ 0 # r) ! k) [0..<length (g @ 0 # r)] ! k = (g' @ r) ! k"
        using l n [of k] by (cases k) (auto simp: nth_append gmul_commute [of _ "pw i"] g'_def nth_Cons' simp del: upt_Suc)
    qed (simp add: l g'_def)
    then show ?thesis using gen_row_value [OF t i, of "i + 1" "g @ 0 # r"] l by (simp del: gen_row.simps upt_Suc)
  qed
  ultimately show ?thesis by blast
qed

lemma gen_rows_poly:
  assumes t: "tables t"
  shows "i + k \<le> 255 \<Longrightarrow> gen_poly i g \<Longrightarrow>
     \<exists>g'. gen_poly (i + k) g' \<and> gen_rows t [i..<i + k] (g @ replicate k 0 @ r) = Some (g' @ r)"
proof (induction k arbitrary: i g)
  case (Suc k)
  obtain g1 where g1: "gen_poly (Suc i) g1" "gen_row t i (i + 1) (g @ 0 # replicate k 0 @ r) = Some (g1 @ replicate k 0 @ r)"
    using gen_row_poly [OF t, of i g "replicate k 0 @ r"] Suc.prems by auto
  obtain g' where "gen_poly (Suc i + k) g'" "gen_rows t [Suc i..<Suc i + k] (g1 @ replicate k 0 @ r) = Some (g' @ r)"
    using Suc.IH [of "Suc i" g1] Suc.prems g1(1) by auto
  moreover have "[i..<i + Suc k] = i # [Suc i..<Suc i + k]" by (simp add: upt_rec)
  ultimately show ?case using g1(2) by auto
qed auto

lemma rs_gen_poly_correct:
  assumes t: "tables t" and n: "n \<le> 255" and l: "n + 1 \<le> length buf"
  obtains g where "gen_poly n g" "rs_gen_poly t n buf = Some (g @ drop (n + 1) buf)"
proof -
  have "gen_poly 0 [1]" by (simp add: gen_poly_def)
  then obtain g where "gen_poly n g" "gen_rows t [0..<n] ([1] @ replicate n 0 @ drop (n + 1) buf) = Some (g @ drop (n + 1) buf)"
    using gen_rows_poly [OF t, of 0 n "[1]" "drop (n + 1) buf"] n by auto
  moreover have "wr_seq buf 0 (replicate (n + 1) 0) \<bind> (\<lambda>b. wr b 0 1) = Some ([1] @ replicate n 0 @ drop (n + 1) buf)"
    using l wr_seq_overlay [of 0 "replicate (n + 1) 0" buf] by (simp add: overlay_def del: wr_seq.simps)
  ultimately show ?thesis using that by (simp add: rs_gen_poly_def bind_assoc [symmetric] del: wr_seq.simps)
qed

section \<open>Encoding\<close>

lemma ec_shift_value:
  assumes t: "tables t"
  shows "j + k < length ec \<Longrightarrow> j + k < length gen \<Longrightarrow> ec_shift t gen f k j ec =
     Some (map (\<lambda>m. if j \<le> m \<and> m < j + k then ec ! (m + 1) XOR gmul (gen ! (m + 1)) f else ec ! m) [0..<length ec])"
proof (induction k arbitrary: j ec)
  case 0
  then show ?case by (auto intro!: nth_equalityI)
next
  case (Suc k)
  have "ec_shift t gen f (Suc k) j ec = ec_shift t gen f k (j + 1) (ec[j := ec ! (j + 1) XOR gmul (gen ! (j + 1)) f])"
    using Suc.prems by (simp add: gf_mul_correct [OF t])
  also have "\<dots> = Some (map (\<lambda>m. if j \<le> m \<and> m < j + Suc k then ec ! (m + 1) XOR gmul (gen ! (m + 1)) f else ec ! m) [0..<length ec])"
    using Suc.prems Suc.IH [of "j + 1" "ec[j := ec ! (j + 1) XOR gmul (gen ! (j + 1)) f]"]
    by (auto simp: nth_list_update intro!: map_cong)
  finally show ?case .
qed

definition ec_step :: "u8 list \<Rightarrow> u8 \<Rightarrow> u8 list \<Rightarrow> u8 list" where
  "ec_step g d e = map2 (XOR) (tl e @ [0]) (map (gmul (d XOR hd e)) (tl g))"

lemma rs_loop_step:
  assumes t: "tables t" and l: "length g = n + 1" "length e = n" "0 < n"
  shows "rs_loop t (g @ gr) n (d # dat) (e @ er) = rs_loop t (g @ gr) n dat (ec_step g d e @ er)"
proof -
  let ?f = "d XOR hd e"
  let ?s = "map (\<lambda>m. if 0 \<le> m \<and> m < 0 + (n - 1) then (e @ er) ! (m + 1) XOR gmul ((g @ gr) ! (m + 1)) ?f else (e @ er) ! m) [0..<length (e @ er)]"
  have s: "ec_shift t (g @ gr) ?f (n - 1) 0 (e @ er) = Some ?s"
    using l by (intro ec_shift_value [OF t]) simp_all
  have h: "(e @ er) ! 0 = hd e" using l by (cases e) auto
  have u: "?s[n - 1 := gmul (g ! n) ?f] = ec_step g d e @ er"
  proof (rule nth_equalityI)
    fix m assume "m < length (?s[n - 1 := gmul (g ! n) ?f])"
    moreover have "m < n \<Longrightarrow> tl g ! m = g ! Suc m" "m < n - 1 \<Longrightarrow> tl e ! m = e ! Suc m"
      using l by (simp_all add: nth_tl)
    ultimately show "?s[n - 1 := gmul (g ! n) ?f] ! m = (ec_step g d e @ er) ! m"
      using l by (cases "m < n - 1"; cases "m = n - 1") (auto simp: ec_step_def nth_append nth_list_update gmul_commute)
  qed (use l in \<open>simp add: ec_step_def\<close>)
  show ?thesis using l h s u by (simp add: gf_mul_correct [OF t] nth_append)
qed

lemma ev_ec_step:
  assumes "length g = n + 1" "g ! 0 = 1" "length e = n" "0 < n" "ev x g = 0"
  shows "ev x (ec_step g d e) = gmul x (ev x e) XOR gmul d (gpow x n)"
proof -
  obtain g' where g: "g = 1 # g'" "length g' = n" using assms(1,2) by (cases g) auto
  obtain h e' where e: "e = h # e'" "length e' = n - 1" using assms(3,4) by (cases e) auto
  have "ev x g' = gpow x n" using assms(5) g by (simp add: ev_Cons) (metis xor.assoc xor_self_eq xor.right_neutral)
  moreover have "gpow x n = gmul x (gpow x (n - 1))" using assms(4) by (cases n) auto
  ultimately show ?thesis
    using e g assms(4) by (simp add: ec_step_def ev_xor ev_scale ev_Cons gmul_ring)
qed

lemma rs_loop_correct:
  assumes t: "tables t" and g: "gen_poly n g" and n: "0 < n"
  shows "length e = n \<Longrightarrow> \<forall>i<n. ev (pw i) e = gmul (ev (pw i) pre) (gpow (pw i) n) \<Longrightarrow>
     \<exists>e'. length e' = n \<and> rs_loop t (g @ gr) n dat (e @ er) = Some (e' @ er) \<and>
       (\<forall>i<n. ev (pw i) (pre @ dat @ e') = 0)"
proof (induction dat arbitrary: e pre)
  case Nil
  then show ?case by (auto simp: ev_append)
next
  case (Cons d dat)
  have l: "length g = n + 1" "g ! 0 = 1" using g by (auto simp: gen_poly_def)
  have "\<forall>i<n. ev (pw i) (ec_step g d e) = gmul (ev (pw i) (pre @ [d])) (gpow (pw i) n)"
    using Cons.prems g ev_ec_step [OF l Cons.prems(1) n] by (simp add: gen_poly_def gmul_ring)
  moreover have "length (ec_step g d e) = n" using Cons.prems(1) l n by (simp add: ec_step_def)
  ultimately obtain e' where "length e' = n" "rs_loop t (g @ gr) n dat (ec_step g d e @ er) = Some (e' @ er)"
    "\<forall>i<n. ev (pw i) ((pre @ [d]) @ dat @ e') = 0"
    using Cons.IH [of "ec_step g d e" "pre @ [d]"] by blast
  then show ?case using rs_loop_step [OF t l(1) Cons.prems(1) n] by auto
qed

lemma rs_codeword:
  assumes t: "tables t" and n: "0 < n" "n \<le> 63" and l: "length gen = 64" "length ec = 64"
  shows "\<exists>g ec'. rs_gen_poly t n gen = Some g \<and> rs_encode t dat ec n g = Some ec' \<and> length ec' = 64 \<and>
     (\<forall>i<n. ev (pw i) (dat @ take n ec') = 0)"
proof -
  obtain g where g: "gen_poly n g" "rs_gen_poly t n gen = Some (g @ drop (n + 1) gen)"
    using rs_gen_poly_correct [OF t, of n gen] n l by auto
  have z: "ev x (replicate n 0) = 0" for x by (induction n) (simp_all add: ev_Cons)
  obtain e where e: "length e = n" "rs_loop t (g @ drop (n + 1) gen) n dat (replicate n 0 @ drop n ec) = Some (e @ drop n ec)"
    "\<forall>i<n. ev (pw i) ([] @ dat @ e) = 0"
    using rs_loop_correct [OF t g(1) n(1), of "replicate n 0" "[]" "drop (n + 1) gen" dat "drop n ec"] z by auto
  have "rs_encode t dat ec n (g @ drop (n + 1) gen) = Some (e @ drop n ec)"
    using e(2) n l by (simp add: rs_encode_def wr_seq_overlay overlay_def)
  then show ?thesis using g(2) e n l by auto
qed

text \<open>
  Whatever the static arrays and the buffers held, the tables, the generator polynomial and the
  check bytes are computed without leaving an array, and the \<open>n\<close> powers of the generator of the field
  from 0 to \<open>n - 1\<close> are roots of the code word: data and check bytes form a Reed-Solomon code word.
\<close>

theorem rs_encode_codeword:
  assumes "length (gf_exp t0) = 512" and "length (gf_log t0) = 256"
    and "0 < n" and "n \<le> 63" and "length gen = 64" and "length ec = 64"
  shows "\<exists>t g ec'. gf_init t0 = Some t \<and> rs_gen_poly t n gen = Some g \<and>
     rs_encode t dat ec n g = Some ec' \<and> length ec' = 64 \<and>
     (\<forall>i<n. ev (pw i) (dat @ take n ec') = 0)"
proof -
  obtain t where "gf_init t0 = Some t" "tables t" using gf_init_tables assms(1,2) by blast
  then show ?thesis using rs_codeword [OF _ assms(3-6), of t dat] by blast
qed

theorem rs_encode_codeword_witness:
  "\<exists>t g ec'. gf_init \<lparr>gf_exp = replicate 512 0, gf_log = replicate 256 0\<rparr> = Some t \<and>
     rs_gen_poly t 7 (replicate 64 0) = Some g \<and> rs_encode t [64, 86] (replicate 64 0) 7 g = Some ec' \<and> length ec' = 64 \<and>
     (\<forall>i<7. ev (pw i) ([64, 86] @ take 7 ec') = 0)"
  by (rule rs_encode_codeword) simp_all

end
