(* ===== verification/Qrcode.thy ===== *)
theory Qrcode imports Qrecc begin

text \<open>
  The symbols of \<open>src/qrcli/qrcli.c\<close>: the bits of the data, the patterns, the zigzag placement with its
  mask and the format information.  The two arrays of modules hold zeros and ones; here they are maps
  from a row and a column to \<^typ>\<open>bool\<close> that are accessed below \<open>MAX_MODULES\<close> only.  Printing the symbol is left
  out.
\<close>

section \<open>Arrays of modules\<close>

definition MAX_MODULES :: int where "MAX_MODULES = 45"

type_synonym matrix = "int \<times> int \<Rightarrow> bool"

definition inside :: "int \<Rightarrow> int \<Rightarrow> bool" where
  "inside r c \<longleftrightarrow> 0 \<le> r \<and> r < MAX_MODULES \<and> 0 \<le> c \<and> c < MAX_MODULES"

definition put :: "int \<Rightarrow> int \<Rightarrow> bool \<Rightarrow> matrix \<Rightarrow> matrix option" where
  "put r c v m = (if inside r c then Some (m((r, c) := v)) else None)"

definition get :: "int \<Rightarrow> int \<Rightarrow> matrix \<Rightarrow> bool option" where
  "get r c m = (if inside r c then Some (m (r, c)) else None)"

record symbol =
  grid :: matrix
  reserved :: matrix

definition paint :: "int \<Rightarrow> int \<Rightarrow> bool \<Rightarrow> symbol \<Rightarrow> symbol option" where
  "paint r c v s = do {m \<leftarrow> put r c v (grid s); Some (s \<lparr>grid := m\<rparr>)}"

definition reserve :: "int \<Rightarrow> int \<Rightarrow> symbol \<Rightarrow> symbol option" where
  "reserve r c s = do {m \<leftarrow> put r c True (reserved s); Some (s \<lparr>reserved := m\<rparr>)}"

fun for_each :: "'a list \<Rightarrow> ('a \<Rightarrow> 's \<Rightarrow> 's option) \<Rightarrow> 's \<Rightarrow> 's option" where
  "for_each [] f s = Some s"
| "for_each (x # xs) f s = f x s \<bind> for_each xs f"

section \<open>The function patterns\<close>

definition draw_finder :: "int \<Rightarrow> int \<Rightarrow> int \<Rightarrow> symbol \<Rightarrow> symbol option" where
  "draw_finder r0 c0 sz =
     for_each [-1..7] (\<lambda>r. for_each [-1..7] (\<lambda>c s.
       let qr = r0 + r in let qc = c0 + c in
       if 0 \<le> qr \<and> qr < sz \<and> 0 \<le> qc \<and> qc < sz then
         reserve qr qc s \<bind> paint qr qc
           (0 \<le> r \<and> r \<le> 6 \<and> 0 \<le> c \<and> c \<le> 6 \<and>
            (r = 0 \<or> r = 6 \<or> c = 0 \<or> c = 6 \<or> 2 \<le> r \<and> r \<le> 4 \<and> 2 \<le> c \<and> c \<le> 4))
       else Some s))"

definition draw_alignment :: "int \<Rightarrow> int \<Rightarrow> symbol \<Rightarrow> symbol option" where
  "draw_alignment r0 c0 =
     for_each [-2..2] (\<lambda>r. for_each [-2..2] (\<lambda>c s.
       reserve (r0 + r) (c0 + c) s \<bind>
       paint (r0 + r) (c0 + c) (r = -2 \<or> r = 2 \<or> c = -2 \<or> c = 2 \<or> r = 0 \<and> c = 0)))"

definition draw_timing :: "int \<Rightarrow> symbol \<Rightarrow> symbol option" where
  "draw_timing sz = for_each [8..sz - 9] (\<lambda>i s.
     paint 6 i (i mod 2 = 0) s \<bind> paint i 6 (i mod 2 = 0) \<bind> reserve 6 i \<bind> reserve i 6)"

definition reserve_format :: "int \<Rightarrow> symbol \<Rightarrow> symbol option" where
  "reserve_format sz = for_each [0..8] (\<lambda>i s.
     reserve 8 i s \<bind> reserve i 8 \<bind> reserve 8 (sz - 1 - i) \<bind> reserve (sz - 1 - i) 8)"

definition draw_patterns :: "int \<Rightarrow> int \<Rightarrow> symbol \<Rightarrow> symbol option" where
  "draw_patterns sz align s =
     draw_finder 0 0 sz s \<bind> draw_finder 0 (sz - 7) sz \<bind> draw_finder (sz - 7) 0 sz \<bind>
     (\<lambda>s. if align > 0 then draw_alignment align align s else Some s) \<bind>
     draw_timing sz \<bind> paint (sz - 8) 8 True \<bind> reserve (sz - 8) 8 \<bind> reserve_format sz"

section \<open>The code words\<close>

record version_info =
  version :: nat
  modules :: int
  data_cw :: nat
  ec_cw :: nat
  align_pos :: int

definition qr_versions :: "version_info list" where
  "qr_versions = [
     \<lparr>version = 1, modules = 21, data_cw = 19, ec_cw = 7, align_pos = 0\<rparr>,
     \<lparr>version = 2, modules = 25, data_cw = 34, ec_cw = 10, align_pos = 18\<rparr>,
     \<lparr>version = 3, modules = 29, data_cw = 55, ec_cw = 15, align_pos = 22\<rparr>,
     \<lparr>version = 4, modules = 33, data_cw = 80, ec_cw = 20, align_pos = 26\<rparr>,
     \<lparr>version = 5, modules = 37, data_cw = 108, ec_cw = 26, align_pos = 30\<rparr>]"

definition choose_version :: "nat \<Rightarrow> version_info cptr" where
  "choose_version n = (case find (\<lambda>v. n + 3 \<le> data_cw v) qr_versions of None \<Rightarrow> NULL | Some v \<Rightarrow> Ptr v)"

text \<open>\<open>WRITE_BITS\<close>; the state is the array with the position of the next bit.\<close>

fun write_bits :: "nat \<Rightarrow> nat \<Rightarrow> u8 list \<times> nat \<Rightarrow> (u8 list \<times> nat) option" where
  "write_bits v 0 s = Some s"
| "write_bits v (Suc b) (d, pos) = do {
     d \<leftarrow> (if bit v b then do {x \<leftarrow> rd d (pos div 8); wr d (pos div 8) (x OR push_bit (7 - pos mod 8) 1)} else Some d);
     write_bits v b (d, pos + 1)}"

text \<open>\<open>for (i = current_bytes; i < data_cw_count; i++)\<close>\<close>

definition pad_bytes :: "nat \<Rightarrow> nat \<Rightarrow> u8 list \<Rightarrow> u8 list option" where
  "pad_bytes cur n d = for_each [cur..<n] (\<lambda>i d. wr d i (if i mod 2 = cur mod 2 then 0xEC else 0x11)) d"

definition encode_data :: "u8 list \<Rightarrow> nat \<Rightarrow> u8 list option" where
  "encode_data s cw = do {
     p \<leftarrow> write_bits 4 4 (replicate 128 0, 0);
     p \<leftarrow> write_bits (length s) 8 p;
     (d, pos) \<leftarrow> for_each s (\<lambda>c. write_bits (unat c) 8) p;
     (d, pos) \<leftarrow> write_bits 0 (min 4 (cw * 8 - pos)) (d, pos);
     (d, pos) \<leftarrow> (if pos mod 8 \<noteq> 0 then write_bits 0 (8 - pos mod 8) (d, pos) else Some (d, pos));
     pad_bytes (pos div 8) cw d}"

section \<open>Placement and format\<close>

definition place_module :: "matrix \<Rightarrow> u8 list \<Rightarrow> nat \<Rightarrow> int \<Rightarrow> int \<Rightarrow> matrix \<times> nat \<Rightarrow> (matrix \<times> nat) option" where
  "place_module res words nbits row col = (\<lambda>(m, idx). do {
     taken \<leftarrow> get row col res;
     if taken then Some (m, idx)
     else do {
       (b, idx) \<leftarrow> (if idx < nbits then do {w \<leftarrow> rd words (idx div 8); Some (bit w (7 - idx mod 8), idx + 1)}
          else Some (False, idx));
       m \<leftarrow> put row col (b \<noteq> ((row + col) mod 2 = 0)) m;
       Some (m, idx)}})"

function place_columns :: "int \<Rightarrow> matrix \<Rightarrow> u8 list \<Rightarrow> nat \<Rightarrow> int \<Rightarrow> int \<Rightarrow> int \<Rightarrow> matrix \<times> nat \<Rightarrow> (matrix \<times> nat) option" where
  "place_columns sz res words nbits c dir r st =
     (if c > 0 then
        let c = (if c = 6 then c - 1 else c) in do {
          st \<leftarrow> for_each [0..sz - 1] (\<lambda>i. let row = r + (if dir < 0 then - i else i) in
            for_each [0, 1] (\<lambda>col_offset. place_module res words nbits row (c - col_offset))) st;
          place_columns sz res words nbits (c - 2) (- dir) (if dir < 0 then 0 else sz - 1) st}
      else Some st)"
  by pat_completeness auto
termination by (relation "measure (\<lambda>(sz, res, words, nbits, c, dir, r, st). nat c)") auto

declare place_columns.simps [simp del]

definition format_bits :: nat where "format_bits = 0x77C4"

definition write_format :: "int \<Rightarrow> symbol \<Rightarrow> symbol option" where
  "write_format sz = for_each [0..14] (\<lambda>i s.
     let b = bit format_bits (nat i) in
     (if i \<le> 5 then paint 8 i b s
      else if i = 6 then paint 8 7 b s
      else if i = 7 then paint 8 8 b s
      else if i = 8 then paint 7 8 b s
      else paint (14 - i) 8 b s) \<bind>
     (if i < 8 then paint (sz - 1 - i) 8 b else paint 8 (sz - 15 + i) b))"

text \<open>
  \<open>text\<close> is a C string; \<open>NULL\<close> is the failure.  \<open>gen\<close>, \<open>ec\<close> and \<open>words\<close> are what the arrays \<open>gen_poly\<close>, \<open>ec_bytes\<close> and
  \<open>all_codewords\<close> held before.
\<close>

definition generate_qr_code :: "gf \<Rightarrow> u8 list \<Rightarrow> u8 list \<Rightarrow> u8 list \<Rightarrow> u8 list \<Rightarrow> (int \<times> matrix) cptr option" where
  "generate_qr_code t gen ec words s = do {
     t \<leftarrow> gf_init t;
     (case choose_version (length s) of NULL \<Rightarrow> Some NULL
      | Ptr v \<Rightarrow> do {
          d \<leftarrow> encode_data s (data_cw v);
          gen \<leftarrow> rs_gen_poly t (ec_cw v) gen;
          ec \<leftarrow> rs_encode t (take (data_cw v) d) ec (ec_cw v) gen;
          words \<leftarrow> wr_seq words 0 (take (data_cw v) d);
          words \<leftarrow> wr_seq words (data_cw v) (take (ec_cw v) ec);
          s \<leftarrow> draw_patterns (modules v) (align_pos v) \<lparr>grid = (\<lambda>_. False), reserved = (\<lambda>_. False)\<rparr>;
          (m, _) \<leftarrow> place_columns (modules v) (reserved s) words ((data_cw v + ec_cw v) * 8)
            (modules v - 1) (-1) (modules v - 1) (grid s, 0);
          s \<leftarrow> write_format (modules v) (s \<lparr>grid := m\<rparr>);
          Some (Ptr (modules v, grid s))})}"

section \<open>The reserved modules\<close>

lemma for_each_append: "for_each (xs @ ys) f s = for_each xs f s \<bind> for_each ys f"
  by (induction xs arbitrary: s) (auto intro!: Option.bind_cong)

lemma for_each_fun: "for_each [] f = Some" "for_each (x # xs) f = (\<lambda>s. f x s \<bind> for_each xs f)"
  by auto

lemma for_each_concat: "for_each (concat (map g xs)) f s = for_each xs (\<lambda>x. for_each (g x) f) s"
  by (induction xs arbitrary: s) (auto simp: for_each_append intro!: Option.bind_cong)

definition draws :: "(symbol \<Rightarrow> symbol option) \<Rightarrow> (int \<times> int) set \<Rightarrow> bool" where
  "draws F S \<longleftrightarrow> (\<forall>s. \<exists>s'. F s = Some s' \<and> (\<forall>p. reserved s' p \<longleftrightarrow> reserved s p \<or> p \<in> S))"

lemma drawsD: "draws F S \<Longrightarrow> \<exists>s'. F s = Some s' \<and> (\<forall>p. reserved s' p \<longleftrightarrow> reserved s p \<or> p \<in> S)"
  by (simp only: draws_def)

lemma draws_skip: "draws Some {}"
  by (simp add: draws_def)

lemma draws_reserve: "inside r c \<Longrightarrow> draws (reserve r c) {(r, c)}"
  by (auto simp: draws_def reserve_def put_def)

lemma draws_paint: "inside r c \<Longrightarrow> draws (paint r c v) {}"
  by (simp add: draws_def paint_def put_def)

lemma draws_then: "draws F S \<Longrightarrow> draws G T \<Longrightarrow> draws (\<lambda>s. F s \<bind> G) (S \<union> T)"
  unfolding draws_def by (metis Un_iff bind.bind_lunit)

lemma draws_for_each: "(\<And>x. x \<in> set xs \<Longrightarrow> draws (f x) (S x)) \<Longrightarrow> draws (for_each xs f) (\<Union>x\<in>set xs. S x)"
proof (induction xs)
  case Nil
  then show ?case by (simp add: draws_def)
next
  case (Cons x xs)
  have "draws (\<lambda>s. f x s \<bind> for_each xs f) (S x \<union> (\<Union>x\<in>set xs. S x))"
    using Cons by (intro draws_then) auto
  then show ?case by (simp add: draws_def)
qed

lemma draws_set: "draws F S \<Longrightarrow> S = T \<Longrightarrow> draws F T"
  by simp

definition square :: "int \<Rightarrow> int \<Rightarrow> int \<Rightarrow> (int \<times> int) set" where
  "square sz r0 c0 = {(r, c). 0 \<le> r \<and> r < sz \<and> 0 \<le> c \<and> c < sz \<and> r0 - 1 \<le> r \<and> r \<le> r0 + 7 \<and> c0 - 1 \<le> c \<and> c \<le> c0 + 7}"

lemma draws_finder:
  assumes "sz \<le> MAX_MODULES"
  shows "draws (draw_finder r0 c0 sz) (square sz r0 c0)"
proof -
  have "draws (draw_finder r0 c0 sz) (\<Union>r\<in>set [-1..7]. \<Union>c\<in>set [-1..7].
     if 0 \<le> r0 + r \<and> r0 + r < sz \<and> 0 \<le> c0 + c \<and> c0 + c < sz then {(r0 + r, c0 + c)} else {})"
    unfolding draw_finder_def
  proof (intro draws_for_each)
    fix r c
    show "draws (\<lambda>s. let qr = r0 + r; qc = c0 + c in
       if 0 \<le> qr \<and> qr < sz \<and> 0 \<le> qc \<and> qc < sz then
         reserve qr qc s \<bind> paint qr qc
           (0 \<le> r \<and> r \<le> 6 \<and> 0 \<le> c \<and> c \<le> 6 \<and>
            (r = 0 \<or> r = 6 \<or> c = 0 \<or> c = 6 \<or> 2 \<le> r \<and> r \<le> 4 \<and> 2 \<le> c \<and> c \<le> 4))
       else Some s)
      (if 0 \<le> r0 + r \<and> r0 + r < sz \<and> 0 \<le> c0 + c \<and> c0 + c < sz then {(r0 + r, c0 + c)} else {})"
    proof (cases "0 \<le> r0 + r \<and> r0 + r < sz \<and> 0 \<le> c0 + c \<and> c0 + c < sz")
      case True
      then have i: "inside (r0 + r) (c0 + c)" using assms by (simp add: inside_def)
      show ?thesis using True draws_then [OF draws_reserve [OF i] draws_paint [OF i]] by (simp add: Let_def)
    next
      case False
      show ?thesis unfolding Let_def if_not_P [OF False] by (rule draws_skip)
    qed
  qed
  then show ?thesis
  proof (rule draws_set)
    have "(\<exists>x\<in>set [-1..7]. a = r0 + x) \<longleftrightarrow> r0 - 1 \<le> a \<and> a \<le> r0 + 7" for a r0 :: int
      by (auto intro: bexI [of _ "a - r0"])
    then show "(\<Union>r\<in>set [-1..7]. \<Union>c\<in>set [-1..7].
       if 0 \<le> r0 + r \<and> r0 + r < sz \<and> 0 \<le> c0 + c \<and> c0 + c < sz then {(r0 + r, c0 + c)} else {}) = square sz r0 c0"
      by (auto simp: square_def split: if_splits; fastforce)
  qed
qed

lemma draws_alignment:
  assumes "2 \<le> a" "a + 2 < MAX_MODULES"
  shows "draws (draw_alignment a a) {(r, c). a - 2 \<le> r \<and> r \<le> a + 2 \<and> a - 2 \<le> c \<and> c \<le> a + 2}"
proof -
  have "draws (draw_alignment a a) (\<Union>r\<in>set [-2..2]. \<Union>c\<in>set [-2..2]. {(a + r, a + c)} \<union> {})"
    unfolding draw_alignment_def
    by (intro draws_for_each draws_then draws_reserve draws_paint) (use assms in \<open>auto simp: inside_def\<close>)
  then show ?thesis
  proof (rule draws_set)
    show "(\<Union>r\<in>set [-2..2]. \<Union>c\<in>set [-2..2]. {(a + r, a + c)} \<union> {}) =
        {(r, c). a - 2 \<le> r \<and> r \<le> a + 2 \<and> a - 2 \<le> c \<and> c \<le> a + 2}"
    proof -
      have "(\<exists>x\<in>set [-2..2]. b = a + x) \<longleftrightarrow> a - 2 \<le> b \<and> b \<le> a + 2" for b by (auto intro: bexI [of _ "b - a"])
      then show ?thesis by auto (metis)+
    qed
  qed
qed

lemma draws_timing:
  assumes "sz \<le> MAX_MODULES"
  shows "draws (draw_timing sz) {(r, c). r = 6 \<and> 8 \<le> c \<and> c \<le> sz - 9 \<or> c = 6 \<and> 8 \<le> r \<and> r \<le> sz - 9}"
proof -
  have "draws (draw_timing sz) (\<Union>i\<in>set [8..sz - 9]. (({} \<union> {}) \<union> {(6, i)}) \<union> {(i, 6)})"
    unfolding draw_timing_def
    by (intro draws_for_each draws_then draws_reserve draws_paint) (use assms in \<open>auto simp: inside_def MAX_MODULES_def\<close>)
  then show ?thesis by (rule draws_set) auto
qed

lemma draws_format:
  assumes "9 \<le> sz" "sz \<le> MAX_MODULES"
  shows "draws (reserve_format sz) {(r, c). r = 8 \<and> (0 \<le> c \<and> c \<le> 8 \<or> sz - 9 \<le> c \<and> c < sz) \<or>
     c = 8 \<and> (0 \<le> r \<and> r \<le> 8 \<or> sz - 9 \<le> r \<and> r < sz)}"
proof -
  have "draws (reserve_format sz) (\<Union>i\<in>set [0..8]. (({(8, i)} \<union> {(i, 8)}) \<union> {(8, sz - 1 - i)}) \<union> {(sz - 1 - i, 8)})"
    unfolding reserve_format_def
    by (intro draws_for_each draws_then draws_reserve) (use assms in \<open>auto simp: inside_def MAX_MODULES_def\<close>)
  then show ?thesis
  proof (rule draws_set)
    have "sz - 9 \<le> x \<Longrightarrow> x < sz \<Longrightarrow> \<exists>i\<in>set [0..8]. x = sz - 1 - i" for x by (intro bexI [of _ "sz - 1 - x"]) auto
    then show "(\<Union>i\<in>set [0..8]. (({(8, i)} \<union> {(i, 8)}) \<union> {(8, sz - 1 - i)}) \<union> {(sz - 1 - i, 8)}) =
        {(r, c). r = 8 \<and> (0 \<le> c \<and> c \<le> 8 \<or> sz - 9 \<le> c \<and> c < sz) \<or> c = 8 \<and> (0 \<le> r \<and> r \<le> 8 \<or> sz - 9 \<le> r \<and> r < sz)}"
      by (auto simp: set_upto)
  qed
qed

text \<open>
  The modules of the function patterns; \<open>k\<close> is the reach of the two outer strips of format information,
  8 modules in the standard.
\<close>

definition function_module :: "int \<Rightarrow> int \<Rightarrow> int \<Rightarrow> int \<Rightarrow> int \<Rightarrow> bool" where
  "function_module k sz al r c \<longleftrightarrow>
     r \<le> 7 \<and> c \<le> 7 \<or> r \<le> 7 \<and> sz - 8 \<le> c \<or> sz - 8 \<le> r \<and> c \<le> 7 \<or>
     0 < al \<and> al - 2 \<le> r \<and> r \<le> al + 2 \<and> al - 2 \<le> c \<and> c \<le> al + 2 \<or>
     r = 6 \<or> c = 6 \<or>
     r = 8 \<and> (c \<le> 8 \<or> sz - k \<le> c) \<or> c = 8 \<and> (r \<le> 8 \<or> sz - k \<le> r)"

lemma pattern_cases:
  assumes "C7 \<or> CB \<or> Cl \<and> Ch" "R7 \<or> RB \<or> Rl \<and> Rh" "R6 \<Longrightarrow> R7" "C6 \<Longrightarrow> C7" "Rd \<Longrightarrow> R9" "C0" "Cs" "R0" "Rs"
  shows "(((((((R7 \<and> C7) \<or> (R7 \<and> CB)) \<or> (RB \<and> C7)) \<or> A) \<or> (R6 \<and> Cl \<and> Ch \<or> C6 \<and> Rl \<and> Rh)) \<or> False) \<or> (Rd \<and> C8)) \<or>
      (R8 \<and> (C0 \<and> C8le \<or> C9 \<and> Cs) \<or> C8 \<and> (R0 \<and> R8le \<or> R9 \<and> Rs)) \<longleftrightarrow>
     R7 \<and> C7 \<or> R7 \<and> CB \<or> RB \<and> C7 \<or> A \<or> R6 \<or> C6 \<or> R8 \<and> (C8le \<or> C9) \<or> C8 \<and> (R8le \<or> R9)"
  using assms by blast

lemma draws_patterns:
  assumes sz: "21 \<le> sz" "sz \<le> MAX_MODULES" and al: "al = 0 \<or> 2 \<le> al \<and> al + 2 < sz"
  shows "\<exists>s'. draw_patterns sz al s = Some s' \<and>
     (\<forall>r c. 0 \<le> r \<longrightarrow> r < sz \<longrightarrow> 0 \<le> c \<longrightarrow> c < sz \<longrightarrow> (reserved s' (r, c) \<longleftrightarrow> reserved s (r, c) \<or> function_module 9 sz al r c))"
proof -
  define A where "A = {(r, c). al > 0 \<and> al - 2 \<le> r \<and> r \<le> al + 2 \<and> al - 2 \<le> c \<and> c \<le> al + 2}"
  have a: "draws (\<lambda>s. if al > 0 then draw_alignment al al s else Some s) A"
    using draws_alignment [of al] draws_skip al sz by (cases "al > 0") (auto simp: A_def)
  have i: "inside (sz - 8) 8" using sz by (simp add: inside_def MAX_MODULES_def)
  have f: "9 \<le> sz" using sz(1) by simp
  note d = draws_then [OF draws_then [OF draws_then [OF draws_then [OF draws_then [OF draws_then [OF draws_then
    [OF draws_finder [OF sz(2)] draws_finder [OF sz(2)]] draws_finder [OF sz(2)]] a] draws_timing [OF sz(2)]]
    draws_paint [OF i]] draws_reserve [OF i]] draws_format [OF f sz(2)]]
  define S where "S = square sz 0 0 \<union> square sz 0 (sz - 7) \<union> square sz (sz - 7) 0 \<union> A \<union>
      {(r, c). r = 6 \<and> 8 \<le> c \<and> c \<le> sz - 9 \<or> c = 6 \<and> 8 \<le> r \<and> r \<le> sz - 9} \<union> {} \<union> {(sz - 8, 8)} \<union>
      {(r, c). r = 8 \<and> (0 \<le> c \<and> c \<le> 8 \<or> sz - 9 \<le> c \<and> c < sz) \<or> c = 8 \<and> (0 \<le> r \<and> r \<le> 8 \<or> sz - 9 \<le> r \<and> r < sz)}"
  have "draws (draw_patterns sz al) S"
    using d unfolding draw_patterns_def S_def by blast
  then obtain s' where s': "draw_patterns sz al s = Some s'" "\<And>p. reserved s' p \<longleftrightarrow> reserved s p \<or> p \<in> S"
    using drawsD by blast
  have "(r, c) \<in> S \<longleftrightarrow> function_module 9 sz al r c" if "0 \<le> r" "r < sz" "0 \<le> c" "c < sz" for r c
  proof -
    have q: "(r, c) \<in> square sz 0 0 \<longleftrightarrow> r \<le> 7 \<and> c \<le> 7" "(r, c) \<in> square sz 0 (sz - 7) \<longleftrightarrow> r \<le> 7 \<and> sz - 8 \<le> c"
      "(r, c) \<in> square sz (sz - 7) 0 \<longleftrightarrow> sz - 8 \<le> r \<and> c \<le> 7" "(r, c) \<in> A \<longleftrightarrow> (r, c) \<in> A \<and> 0 < al"
      using that by (auto simp: square_def A_def)
    have f: "function_module 9 sz al r c \<longleftrightarrow> r \<le> 7 \<and> c \<le> 7 \<or> r \<le> 7 \<and> sz - 8 \<le> c \<or> sz - 8 \<le> r \<and> c \<le> 7 \<or>
       (r, c) \<in> A \<or> r = 6 \<or> c = 6 \<or> r = 8 \<and> (c \<le> 8 \<or> sz - 9 \<le> c) \<or> c = 8 \<and> (r \<le> 8 \<or> sz - 9 \<le> r)"
      by (simp add: function_module_def A_def)
    have h: "c \<le> 7 \<or> sz - 8 \<le> c \<or> 8 \<le> c \<and> c \<le> sz - 9" "r \<le> 7 \<or> sz - 8 \<le> r \<or> 8 \<le> r \<and> r \<le> sz - 9"
      "r = 6 \<Longrightarrow> r \<le> 7" "c = 6 \<Longrightarrow> c \<le> 7" "r = sz - 8 \<Longrightarrow> sz - 9 \<le> r" by linarith+
    have m: "(r, c) \<in> {(r, c). P r c} \<longleftrightarrow> P r c" "(r, c) \<in> {(a, b)} \<longleftrightarrow> r = a \<and> c = b" "(r, c) \<in> {} \<longleftrightarrow> False" for P a b
      by auto
    show ?thesis unfolding S_def f Un_iff q(1-3) m by (rule pattern_cases) (use h that in simp_all)
  qed
  then show ?thesis using s' by auto
qed

section \<open>The zigzag\<close>

text \<open>The order in which the data go: pairs of columns from the right, upwards and downwards in turn.\<close>

definition column_pair :: "int \<Rightarrow> bool \<Rightarrow> int \<Rightarrow> (int \<times> int) list" where
  "column_pair sz up c = concat (map (\<lambda>i. let r = (if up then sz - 1 - i else i) in [(r, c), (r, c - 1)]) [0..sz - 1])"

fun zigzag :: "int \<Rightarrow> bool \<Rightarrow> int list \<Rightarrow> (int \<times> int) list" where
  "zigzag sz up [] = []"
| "zigzag sz up (c # cs) = column_pair sz up c @ zigzag sz (\<not> up) cs"

function right_columns :: "int \<Rightarrow> int list" where
  "right_columns c = (if c > 0 then (let c = (if c = 6 then 5 else c) in c # right_columns (c - 2)) else [])"
  by pat_completeness auto
termination by (relation "measure nat") auto

declare right_columns.simps [simp del]

lemma place_columns_zigzag:
  "dir \<noteq> 0 \<Longrightarrow> r = (if dir < 0 then sz - 1 else 0) \<Longrightarrow>
   place_columns sz res words nbits c dir r st =
     for_each (zigzag sz (dir < 0) (right_columns c)) (\<lambda>(row, col). place_module res words nbits row col) st"
proof (induction sz res words nbits c dir r st rule: place_columns.induct)
  case (1 sz res words nbits c dir r st)
  let ?p = "\<lambda>(row, col). place_module res words nbits row col"
  show ?case
  proof (cases "c > 0")
    case True
    define c' where "c' = (if c = 6 then c - 1 else c)"
    have pair: "for_each [0..sz - 1] (\<lambda>i. let row = r + (if dir < 0 then - i else i) in
        for_each [0, 1] (\<lambda>col_offset. place_module res words nbits row (c' - col_offset))) st =
        for_each (column_pair sz (dir < 0) c') ?p st"
    proof -
      have q: "for_each [0, 1] (\<lambda>col_offset. place_module res words nbits row (c' - col_offset)) =
          for_each [(row, c'), (row, c' - 1)] ?p" for row by (simp add: for_each_fun)
      show ?thesis unfolding column_pair_def for_each_concat q using "1.prems"(2) by (simp add: Let_def)
    qed
    have "place_columns sz res words nbits c dir r st = for_each (column_pair sz (dir < 0) c') ?p st \<bind>
        place_columns sz res words nbits (c' - 2) (- dir) (if dir < 0 then 0 else sz - 1)"
      by (subst place_columns.simps) (simp only: True c'_def [symmetric] Let_def pair [unfolded Let_def] if_True)
    also have "for_each (column_pair sz (dir < 0) c') ?p st \<bind>
        place_columns sz res words nbits (c' - 2) (- dir) (if dir < 0 then 0 else sz - 1) =
        for_each (column_pair sz (dir < 0) c') ?p st \<bind> for_each (zigzag sz (\<not> dir < 0) (right_columns (c' - 2))) ?p"
    proof -
      have "place_columns sz res words nbits (c' - 2) (- dir) (if dir < 0 then 0 else sz - 1) st' =
          for_each (zigzag sz (\<not> dir < 0) (right_columns (c' - 2))) ?p st'"
        if "for_each (column_pair sz (dir < 0) c') ?p st = Some st'" for st'
        using "1.IH" [OF True c'_def, of st'] "1.prems" that unfolding pair [symmetric] by (auto simp: Let_def)
      then show ?thesis by (intro Option.bind_cong) auto
    qed
    finally have e: "place_columns sz res words nbits c dir r st = for_each (column_pair sz (dir < 0) c') ?p st \<bind>
        for_each (zigzag sz (\<not> dir < 0) (right_columns (c' - 2))) ?p" .
    have "right_columns c = c' # right_columns (c' - 2)"
      using True by (subst right_columns.simps) (simp add: c'_def Let_def)
    then show ?thesis using e by (simp add: for_each_append)
  next
    case False
    then show ?thesis by (simp add: place_columns.simps [of _ _ _ _ c] right_columns.simps [of c])
  qed
qed

lemma column_pair_set: "p \<in> set (column_pair sz up c) \<Longrightarrow> 0 \<le> fst p \<and> fst p < sz \<and> (snd p = c \<or> snd p = c - 1)"
  by (auto simp: column_pair_def Let_def split: if_splits)

lemma distinct_column_pair: "distinct (column_pair sz up c)"
proof -
  have "distinct (concat (map (\<lambda>i. [(f i, c), (f i, c - 1)]) xs))" if "inj_on f (set xs)" "distinct xs"
    for f :: "int \<Rightarrow> int" and xs
    using that by (induction xs) (auto simp: inj_on_def)
  from this [of "\<lambda>i. if up then sz - 1 - i else i" "[0..sz - 1]"] show ?thesis
    by (simp add: column_pair_def Let_def inj_on_def)
qed

lemma right_columns_bounds: "x \<in> set (right_columns c) \<Longrightarrow> 1 \<le> x \<and> x \<le> c"
proof (induction c rule: right_columns.induct)
  case (1 c)
  show ?case
  proof (cases "c > 0")
    case True
    define c' where "c' = (if c = 6 then 5 else c)"
    have "x = c' \<or> x \<in> set (right_columns (c' - 2))"
      using "1.prems" True by (subst (asm) right_columns.simps) (simp add: c'_def Let_def)
    then show ?thesis using "1.IH" [OF True c'_def] True by (auto simp: c'_def split: if_splits)
  next
    case False
    then show ?thesis using "1.prems" by (simp add: right_columns.simps [of c])
  qed
qed

lemma right_columns_apart: "sorted_wrt (\<lambda>a b. b + 2 \<le> a) (right_columns c)"
proof (induction c rule: right_columns.induct)
  case (1 c)
  then show ?case
    by (subst right_columns.simps) (auto simp: Let_def dest: right_columns_bounds)
qed

lemma zigzag_bounds:
  "p \<in> set (zigzag sz up cs) \<Longrightarrow> 0 \<le> fst p \<and> fst p < sz \<and> (\<exists>c\<in>set cs. snd p = c \<or> snd p = c - 1)"
  by (induction cs arbitrary: up) (auto dest: column_pair_set)

lemma distinct_zigzag: "sorted_wrt (\<lambda>a b. b + 2 \<le> a) cs \<Longrightarrow> distinct (zigzag sz up cs)"
proof (induction cs arbitrary: up)
  case (Cons c cs)
  have "set (column_pair sz up c) \<inter> set (zigzag sz (\<not> up) cs) = {}"
  proof (rule ccontr)
    assume "set (column_pair sz up c) \<inter> set (zigzag sz (\<not> up) cs) \<noteq> {}"
    then obtain p where p: "p \<in> set (column_pair sz up c)" "p \<in> set (zigzag sz (\<not> up) cs)" by blast
    obtain c' where "c' \<in> set cs" "snd p = c' \<or> snd p = c' - 1" using zigzag_bounds [OF p(2)] by blast
    moreover have "snd p = c \<or> snd p = c - 1" using column_pair_set [OF p(1)] by simp
    moreover have "c' + 2 \<le> c" using Cons.prems \<open>c' \<in> set cs\<close> by simp
    ultimately show False by linarith
  qed
  then show ?case using Cons by (simp add: distinct_column_pair)
qed simp

section \<open>Placing and reading back\<close>

definition word_bit :: "u8 list \<Rightarrow> nat \<Rightarrow> nat \<Rightarrow> bool" where
  "word_bit words nbits j \<longleftrightarrow> j < nbits \<and> bit (words ! (j div 8)) (7 - j mod 8)"

definition masked :: "int \<times> int \<Rightarrow> bool" where
  "masked p \<longleftrightarrow> (fst p + snd p) mod 2 = 0"

lemma place_module_step:
  assumes "inside r c" and "nbits \<le> 8 * length words"
  shows "place_module res words nbits r c (m, min j nbits) = Some
     (if res (r, c) then (m, min j nbits)
      else (m((r, c) := (word_bit words nbits j \<noteq> masked (r, c))), min (j + 1) nbits))"
proof (cases "j < nbits")
  case True
  then have "j div 8 < length words" using assms(2) by (simp add: div_less_iff_less_mult mult.commute)
  then show ?thesis using True assms
    by (auto simp: place_module_def get_def put_def word_bit_def masked_def min_def)
next
  case False
  then show ?thesis using assms by (auto simp: place_module_def get_def put_def word_bit_def masked_def min_def)
qed

lemma place_all:
  assumes nb: "nbits \<le> 8 * length words"
  shows "(\<And>p. p \<in> set ps \<Longrightarrow> inside (fst p) (snd p)) \<Longrightarrow> distinct ps \<Longrightarrow>
     \<exists>m'. for_each ps (\<lambda>(row, col). place_module res words nbits row col) (m, min j nbits) =
         Some (m', min (j + length [p\<leftarrow>ps. \<not> res p]) nbits) \<and>
       (\<forall>i<length [p\<leftarrow>ps. \<not> res p]. m' ([p\<leftarrow>ps. \<not> res p] ! i) = (word_bit words nbits (j + i) \<noteq> masked ([p\<leftarrow>ps. \<not> res p] ! i))) \<and>
       (\<forall>p. p \<notin> set [p\<leftarrow>ps. \<not> res p] \<longrightarrow> m' p = m p)"
proof (induction ps arbitrary: m j)
  case (Cons p ps)
  obtain r c where p: "p = (r, c)" by (cases p)
  have i: "inside r c" using Cons.prems(1) [of p] p by simp
  have ins: "\<And>p. p \<in> set ps \<Longrightarrow> inside (fst p) (snd p)" "distinct ps" using Cons.prems by auto
  show ?case
  proof (cases "res p")
    case True
    then show ?thesis using Cons.IH [of m j] Cons.prems p place_module_step [OF i nb] by auto
  next
    case False
    let ?m = "m(p := (word_bit words nbits j \<noteq> masked p))"
    obtain m' where m': "for_each ps (\<lambda>(row, col). place_module res words nbits row col) (?m, min (j + 1) nbits) =
         Some (m', min (j + 1 + length [p\<leftarrow>ps. \<not> res p]) nbits)"
      "\<forall>i<length [p\<leftarrow>ps. \<not> res p]. m' ([p\<leftarrow>ps. \<not> res p] ! i) =
         (word_bit words nbits (j + 1 + i) \<noteq> masked ([p\<leftarrow>ps. \<not> res p] ! i))"
      "\<forall>p. p \<notin> set [p\<leftarrow>ps. \<not> res p] \<longrightarrow> m' p = ?m p"
      using Cons.IH [OF ins, of ?m "j + 1"] by blast
    have "m' p = (word_bit words nbits j \<noteq> masked p)" using m'(3) [rule_format, of p] Cons.prems(2) by simp
    then have "\<forall>i<length [p\<leftarrow>p # ps. \<not> res p]. m' ([p\<leftarrow>p # ps. \<not> res p] ! i) =
        (word_bit words nbits (j + i) \<noteq> masked ([p\<leftarrow>p # ps. \<not> res p] ! i))"
      using m'(2) False by (auto simp: less_Suc_eq_0_disj)
    moreover have "\<forall>q. q \<notin> set [p\<leftarrow>p # ps. \<not> res p] \<longrightarrow> m' q = m q" using m'(3) False by auto
    ultimately show ?thesis using m'(1) False p place_module_step [OF i nb, of res m j] by auto
  qed
qed simp

section \<open>The bits of the data\<close>

definition bits :: "nat \<Rightarrow> nat \<Rightarrow> bool list" where
  "bits k v = map (\<lambda>i. bit v (k - 1 - i)) [0..<k]"

definition bits_of :: "u8 list \<Rightarrow> bool list" where
  "bits_of d = concat (map (\<lambda>b. bits 8 (unat b)) d)"

lemma length_bits [simp]: "length (bits k v) = k"
  by (simp add: bits_def)

lemma bits_Suc: "bits (Suc k) v = bit v k # bits k v"
  by (simp add: bits_def upt_conv_Cons map_Suc_upt [symmetric] del: upt_Suc)

lemma length_bits_of [simp]: "length (bits_of d) = 8 * length d"
  by (induction d) (simp_all add: bits_of_def)

lemma bits_of_append: "bits_of (d @ e) = bits_of d @ bits_of e"
  by (simp add: bits_of_def)

lemma bits_of_zeros: "bits_of (replicate k 0) = replicate (8 * k) False"
proof -
  have "bits 8 0 = replicate 8 False" by (simp add: bits_def map_replicate_const)
  then show ?thesis by (induction k) (simp_all add: bits_of_def replicate_add [symmetric])
qed

lemma bits_of_nth: "p < 8 * length d \<Longrightarrow> bits_of d ! p = bit (d ! (p div 8)) (7 - p mod 8)"
proof (induction d arbitrary: p)
  case (Cons b d)
  show ?case
  proof (cases "p < 8")
    case True
    then show ?thesis by (simp add: bits_of_def nth_append bits_def bit_unsigned_iff)
  next
    case False
    then have "(p - 8) div 8 = p div 8 - 1" "(p - 8) mod 8 = p mod 8" "1 \<le> p div 8"
      by (simp_all add: le_div_geq le_mod_geq)
    moreover have "bits_of (b # d) ! p = bits_of d ! (p - 8)" using False by (simp add: bits_of_def nth_append)
    ultimately show ?thesis using Cons False by (simp add: nth_Cons')
  qed
qed simp

lemma bits_of_set:
  assumes "p < 8 * length d"
  shows "bits_of (d[p div 8 := d ! (p div 8) OR push_bit (7 - p mod 8) 1]) = (bits_of d)[p := True]"
proof (rule nth_equalityI)
  fix q assume "q < length (bits_of (d[p div 8 := d ! (p div 8) OR push_bit (7 - p mod 8) 1]))"
  then have q: "q < 8 * length d" by simp
  have b: "bit (push_bit (7 - p mod 8) 1 :: u8) (7 - q mod 8) \<longleftrightarrow> p mod 8 = q mod 8"
  proof -
    have "p mod 8 < 8" "q mod 8 < 8" by simp_all
    then have "7 - q mod 8 = 7 - p mod 8 \<longleftrightarrow> p mod 8 = q mod 8" "7 - q mod 8 < 8" by linarith+
    then show ?thesis by (simp add: bit_exp_iff)
  qed
  have "p = q \<longleftrightarrow> p div 8 = q div 8 \<and> p mod 8 = q mod 8" by (metis div_mult_mod_eq)
  then show "bits_of (d[p div 8 := d ! (p div 8) OR push_bit (7 - p mod 8) 1]) ! q = (bits_of d)[p := True] ! q"
    using q assms b by (auto simp: bits_of_nth nth_list_update bit_or_iff)
qed simp

lemma write_bits_bits:
  "bits_of d = xs @ replicate m False \<Longrightarrow> length xs = pos \<Longrightarrow> k \<le> m \<Longrightarrow>
   \<exists>d'. write_bits v k (d, pos) = Some (d', pos + k) \<and> length d' = length d \<and>
     bits_of d' = (xs @ bits k v) @ replicate (m - k) False"
proof (induction k arbitrary: d pos xs m)
  case 0
  then show ?case by (simp add: bits_def)
next
  case (Suc k)
  obtain m' where m: "m = Suc m'" using Suc.prems(3) by (cases m) auto
  have l: "8 * length d = pos + m" using arg_cong [OF Suc.prems(1), of length] Suc.prems(2) by simp
  then have p: "pos div 8 < length d" "pos < 8 * length d" using m by auto
  define d1 where "d1 = (if bit v k then d[pos div 8 := d ! (pos div 8) OR push_bit (7 - pos mod 8) 1] else d)"
  have "bits_of d1 = (xs @ [bit v k]) @ replicate m' False"
    using Suc.prems(1,2) m bits_of_set [OF p(2)] by (simp add: d1_def list_update_append)
  then obtain d' where d': "write_bits v k (d1, pos + 1) = Some (d', pos + 1 + k)" "length d' = length d1"
    "bits_of d' = ((xs @ [bit v k]) @ bits k v) @ replicate (m' - k) False"
    using Suc.IH [of d1 "xs @ [bit v k]" m' "pos + 1"] Suc.prems m by auto
  have "write_bits v (Suc k) (d, pos) = write_bits v k (d1, pos + 1)"
    using p by (simp add: d1_def)
  then show ?case using d' m by (auto simp: bits_Suc d1_def)
qed

lemma write_text_bits:
  "bits_of d = xs @ replicate m False \<Longrightarrow> length xs = pos \<Longrightarrow> 8 * length s \<le> m \<Longrightarrow>
   \<exists>d'. for_each s (\<lambda>c. write_bits (unat c) 8) (d, pos) = Some (d', pos + 8 * length s) \<and> length d' = length d \<and>
     bits_of d' = (xs @ bits_of s) @ replicate (m - 8 * length s) False"
proof (induction s arbitrary: d pos xs m)
  case Nil
  then show ?case by (simp add: bits_of_def)
next
  case (Cons c s)
  obtain d1 where d1: "write_bits (unat c) 8 (d, pos) = Some (d1, pos + 8)" "length d1 = length d"
    "bits_of d1 = (xs @ bits 8 (unat c)) @ replicate (m - 8) False"
    using write_bits_bits [OF Cons.prems(1,2), of 8 "unat c"] Cons.prems(3) by auto
  have m: "8 * length s \<le> m - 8" using Cons.prems(3) by simp
  obtain d' where "for_each s (\<lambda>c. write_bits (unat c) 8) (d1, pos + 8) = Some (d', pos + 8 + 8 * length s)" "length d' = length d1"
    "bits_of d' = ((xs @ bits 8 (unat c)) @ bits_of s) @ replicate (m - 8 - 8 * length s) False"
    using Cons.IH [OF d1(3), of "pos + 8"] Cons.prems(2) m by auto
  then show ?case using d1 by (auto simp: bits_of_def add_ac)
qed

text \<open>The padding, and the bits of all the data: mode, length, bytes, terminator, padding.\<close>

definition padding :: "nat \<Rightarrow> u8 list" where
  "padding k = map (\<lambda>i. if even i then 0xEC else 0x11) [0..<k]"

definition data_bits :: "u8 list \<Rightarrow> nat \<Rightarrow> bool list" where
  "data_bits s cw = bits 4 4 @ bits 8 (length s) @ bits_of s @ replicate 4 False @ bits_of (padding (cw - length s - 2))"

lemma for_each_wr:
  "cur + k \<le> length d \<Longrightarrow> for_each [cur..<cur + k] (\<lambda>i d. wr d i (f i)) d =
     Some (take cur d @ map f [cur..<cur + k] @ drop (cur + k) d)"
proof (induction k)
  case (Suc k)
  have "drop (cur + k) d = d ! (cur + k) # drop (Suc (cur + k)) d" using Suc.prems by (simp add: Cons_nth_drop_Suc)
  then show ?case using Suc by (simp add: for_each_append list_update_append)
qed simp

lemma pad_bytes_value:
  assumes "cur \<le> n" "n \<le> length d"
  shows "pad_bytes cur n d = Some (take cur d @ padding (n - cur) @ drop n d)"
proof -
  have "(cur + i) mod 2 = cur mod 2 \<longleftrightarrow> even i" for i by (auto simp: mod_2_eq_odd)
  then have "map (\<lambda>i. if i mod 2 = cur mod 2 then 0xEC else 0x11 :: u8) [cur..<n] = padding (n - cur)"
    using assms(1) by (auto simp: padding_def intro!: nth_equalityI)
  then show ?thesis using for_each_wr [of cur "n - cur" d] assms by (simp add: pad_bytes_def)
qed

lemma bits_of_take: "bits_of (take k d) = take (8 * k) (bits_of d)"
proof (cases "k \<le> length d")
  case True
  then show ?thesis using bits_of_append [of "take k d" "drop k d"] by simp
qed simp

lemma encode_data_bits:
  assumes "length s + 3 \<le> cw" "cw \<le> 108"
  shows "\<exists>d. encode_data s cw = Some d \<and> length d = 128 \<and> bits_of (take cw d) = data_bits s cw"
proof -
  let ?n = "length s"
  have n: "4 \<le> 1012 - 8 * ?n" using assms by simp
  obtain d1 where d1: "write_bits 4 4 (replicate 128 0, 0) = Some (d1, 4)" "length d1 = 128"
    "bits_of d1 = ([] @ bits 4 4) @ replicate 1020 False"
    using write_bits_bits [of "replicate 128 0" "[]" 1024 0 4 4] by (auto simp: bits_of_zeros)
  obtain d2 where d2: "write_bits ?n 8 (d1, 4) = Some (d2, 12)" "length d2 = 128"
    "bits_of d2 = ([] @ bits 4 4 @ bits 8 ?n) @ replicate 1012 False"
    using write_bits_bits [OF d1(3), of 4 8 ?n] d1(2) by auto
  obtain d3 where d3: "for_each s (\<lambda>c. write_bits (unat c) 8) (d2, 12) = Some (d3, 12 + 8 * ?n)" "length d3 = 128"
    "bits_of d3 = (bits 4 4 @ bits 8 ?n @ bits_of s) @ replicate (1012 - 8 * ?n) False"
    using write_text_bits [OF d2(3), of 12 s] d2(2) assms by auto
  obtain d4 where d4: "write_bits 0 4 (d3, 12 + 8 * ?n) = Some (d4, 16 + 8 * ?n)" "length d4 = 128"
    "bits_of d4 = (bits 4 4 @ bits 8 ?n @ bits_of s @ bits 4 0) @ replicate (1008 - 8 * ?n) False"
    using write_bits_bits [OF d3(3), of "12 + 8 * ?n" 4 0] d3(2) n by auto
  have t: "min 4 (cw * 8 - (12 + 8 * ?n)) = 4" "(16 + 8 * ?n) mod 8 = 0" "(16 + 8 * ?n) div 8 = ?n + 2"
    using assms(1) by (auto simp: min_def mod_add_eq)
  have "encode_data s cw = pad_bytes (?n + 2) cw d4"
    using d1(1) d2(1) d3(1) d4(1) t by (simp add: encode_data_def)
  also have "\<dots> = Some (take (?n + 2) d4 @ padding (cw - (?n + 2)) @ drop cw d4)"
    using assms d4(2) by (intro pad_bytes_value) simp_all
  finally have e: "encode_data s cw = Some (take (?n + 2) d4 @ padding (cw - (?n + 2)) @ drop cw d4)" .
  have z: "bits 4 0 = replicate 4 False" by (simp add: bits_def map_replicate_const)
  have "length (padding k) = k" for k by (simp add: padding_def)
  then have "take cw (take (?n + 2) d4 @ padding (cw - (?n + 2)) @ drop cw d4) = take (?n + 2) d4 @ padding (cw - (?n + 2))"
    and "length (take (?n + 2) d4 @ padding (cw - (?n + 2)) @ drop cw d4) = 128"
    using assms d4(2) by simp_all
  moreover have "bits_of (take (?n + 2) d4) = bits 4 4 @ bits 8 ?n @ bits_of s @ replicate 4 False"
    unfolding bits_of_take d4(3) z by simp
  ultimately show ?thesis using e by (simp add: bits_of_append data_bits_def)
qed

section \<open>What painting leaves alone\<close>

definition paints :: "(symbol \<Rightarrow> symbol option) \<Rightarrow> (int \<times> int) set \<Rightarrow> bool" where
  "paints F P \<longleftrightarrow> (\<forall>s s'. F s = Some s' \<longrightarrow> (\<forall>p. p \<notin> P \<longrightarrow> grid s' p = grid s p))"

lemma paints_skip: "paints Some P"
  by (simp add: paints_def)

lemma paints_reserve: "paints (reserve r c) P"
  by (auto simp: paints_def reserve_def split: bind_splits)

lemma paints_paint: "(r, c) \<in> P \<Longrightarrow> paints (paint r c v) P"
  by (auto simp: paints_def paint_def put_def split: bind_splits if_splits)

lemma paints_then: "paints F P \<Longrightarrow> paints G P \<Longrightarrow> paints (\<lambda>s. F s \<bind> G) P"
  unfolding paints_def by (metis bind_eq_Some_conv)

lemma paints_branch: "(b \<Longrightarrow> paints F P) \<Longrightarrow> (\<not> b \<Longrightarrow> paints G P) \<Longrightarrow> paints (\<lambda>s. if b then F s else G s) P"
  by (cases b) simp_all

lemma paints_for_each: "(\<And>x. x \<in> set xs \<Longrightarrow> paints (f x) P) \<Longrightarrow> paints (for_each xs f) P"
proof (induction xs)
  case (Cons x xs)
  then show ?case using paints_then [of "f x" P "for_each xs f"] by (simp add: for_each_fun)
qed (simp add: for_each_fun paints_skip)

lemmas painting = paints_for_each paints_then paints_branch paints_reserve paints_paint paints_skip

lemma paints_patterns:
  assumes "21 \<le> sz" "al = 0 \<or> 11 \<le> al"
  shows "paints (draw_patterns sz al) (- {(8, sz - 8)})"
  unfolding draw_patterns_def draw_finder_def draw_alignment_def draw_timing_def reserve_format_def Let_def
  by (intro painting) (use assms in auto)

lemma upto_format: "[0..14] = [0, 1, 2, 3, 4, 5, 6, 7, 8, 9, 10, 11, 12, 13, 14 :: int]"
  by (simp add: upto.simps)

text \<open>The format information as the code writes it, from the top left corner and from the other two.\<close>

definition first_copy :: "int \<Rightarrow> int \<times> int" where
  "first_copy i = (if i \<le> 5 then (8, i) else if i = 6 then (8, 7) else if i = 7 then (8, 8) else if i = 8 then (7, 8) else (14 - i, 8))"

definition second_copy :: "int \<Rightarrow> int \<Rightarrow> int \<times> int" where
  "second_copy sz i = (if i < 8 then (sz - 1 - i, 8) else (8, sz - 15 + i))"

definition painted :: "int \<times> int \<Rightarrow> bool \<Rightarrow> symbol \<Rightarrow> symbol option" where
  "painted p b = paint (fst p) (snd p) b"

lemma write_format_copies:
  "write_format sz = for_each [0..14] (\<lambda>i s.
     painted (first_copy i) (bit format_bits (nat i)) s \<bind> painted (second_copy sz i) (bit format_bits (nat i)))"
  unfolding write_format_def by (intro ext arg_cong2 [where f = "\<lambda>f s. for_each [0..14] f s"])
    (auto simp: painted_def first_copy_def second_copy_def Let_def)

lemma for_each_painted:
  assumes "\<And>i. i \<in> set xs \<Longrightarrow> inside (fst (f i)) (snd (f i)) \<and> inside (fst (g i)) (snd (g i))"
  shows "\<exists>s'. for_each xs (\<lambda>i s. painted (f i) (b i) s \<bind> painted (g i) (b i)) s = Some s' \<and>
     grid s' = foldl (\<lambda>m i. m(f i := b i, g i := b i)) (grid s) xs \<and> reserved s' = reserved s"
  using assms
proof (induction xs arbitrary: s)
  case (Cons i xs)
  have h: "\<And>i. i \<in> set xs \<Longrightarrow> inside (fst (f i)) (snd (f i)) \<and> inside (fst (g i)) (snd (g i))"
    using Cons.prems by simp
  have "painted (f i) (b i) s \<bind> painted (g i) (b i) = Some (s \<lparr>grid := (grid s)(f i := b i, g i := b i)\<rparr>)"
    using Cons.prems [of i] by (simp add: painted_def paint_def put_def)
  moreover obtain s' where "for_each xs (\<lambda>i s. painted (f i) (b i) s \<bind> painted (g i) (b i)) (s \<lparr>grid := (grid s)(f i := b i, g i := b i)\<rparr>) = Some s'"
    "grid s' = foldl (\<lambda>m i. m(f i := b i, g i := b i)) ((grid s)(f i := b i, g i := b i)) xs" "reserved s' = reserved s"
    using Cons.IH [OF h, of "s \<lparr>grid := (grid s)(f i := b i, g i := b i)\<rparr>"] by (auto simp del: fun_upd_apply)
  ultimately show ?case by (auto simp del: fun_upd_apply)
qed simp

definition formatted :: "int \<Rightarrow> matrix \<Rightarrow> matrix" where
  "formatted sz m = foldl (\<lambda>m i. m(first_copy i := bit format_bits (nat i), second_copy sz i := bit format_bits (nat i))) m [0..14]"

lemma write_format_value:
  assumes "21 \<le> sz" "sz \<le> MAX_MODULES"
  shows "\<exists>s'. write_format sz s = Some s' \<and> grid s' = formatted sz (grid s)"
proof -
  have "\<And>i. i \<in> set [0..14] \<Longrightarrow> inside (fst (first_copy i)) (snd (first_copy i)) \<and>
      inside (fst (second_copy sz i)) (snd (second_copy sz i))"
    using assms by (auto simp: first_copy_def second_copy_def inside_def MAX_MODULES_def)
  from for_each_painted [of "[0..14]" first_copy "second_copy sz" "\<lambda>i. bit format_bits (nat i)" s, OF this]
  show ?thesis unfolding write_format_copies formatted_def by blast
qed

lemma foldl_other:
  fixes f g :: "int \<Rightarrow> int \<times> int"
  assumes "\<And>i. i \<in> set xs \<Longrightarrow> p \<noteq> f i \<and> p \<noteq> g i"
  shows "foldl (\<lambda>m i. m(f i := b i, g i := b i)) m xs p = m p"
  using assms by (induction xs arbitrary: m) auto

lemma copies_reserved:
  assumes "0 \<le> i" "i \<le> 14"
  shows "first_copy i = (r, c) \<Longrightarrow> function_module 9 sz al r c" "second_copy sz i = (r, c) \<Longrightarrow> function_module 9 sz al r c"
proof -
  have f: "r = 8 \<and> (c \<le> 8 \<or> sz - 9 \<le> c) \<or> c = 8 \<and> (r \<le> 8 \<or> sz - 9 \<le> r) \<Longrightarrow> function_module 9 sz al r c" for r c
    unfolding function_module_def by blast
  show "first_copy i = (r, c) \<Longrightarrow> function_module 9 sz al r c"
    by (rule f) (use assms in \<open>auto simp: first_copy_def split: if_splits\<close>)
  show "second_copy sz i = (r, c) \<Longrightarrow> function_module 9 sz al r c"
    by (rule f) (use assms in \<open>auto simp: second_copy_def split: if_splits\<close>)
qed

lemma formatted_other:
  assumes "\<not> function_module 9 sz al r c"
  shows "formatted sz m (r, c) = m (r, c)"
proof -
  have "(r, c) \<noteq> first_copy i \<and> (r, c) \<noteq> second_copy sz i" if "i \<in> set [0..14]" for i
    using that assms copies_reserved(1) [of i r c sz al] copies_reserved(2) [of i sz r c al] by auto
  then show ?thesis unfolding formatted_def by (rule foldl_other)
qed

text \<open>The positions of the standard, least significant bit first, and what is read there.\<close>

definition std_first :: "int \<Rightarrow> int \<times> int" where
  "std_first i = (if i \<le> 5 then (i, 8) else if i = 6 then (7, 8) else if i = 7 then (8, 8) else if i = 8 then (8, 7) else (8, 14 - i))"

definition std_second :: "int \<Rightarrow> int \<Rightarrow> int \<times> int" where
  "std_second sz i = (if i < 8 then (8, sz - 1 - i) else (sz - 15 + i, 8))"

lemma formatted_first:
  assumes "21 \<le> sz" "i \<in> set [0..14]"
  shows "formatted sz m (std_first i) = bit format_bits (nat (14 - i))"
  using assms unfolding upto_format formatted_def
  by (auto simp: first_copy_def second_copy_def std_first_def)

lemma formatted_second:
  assumes "21 \<le> sz" "i \<in> set [0..14]"
  shows "formatted sz m (std_second sz i) = (if i = 7 then m (8, sz - 8) else bit format_bits (nat (14 - i)))"
  using assms unfolding upto_format formatted_def
  by (auto simp: first_copy_def second_copy_def std_second_def)

section \<open>The symbol\<close>

definition free_modules :: "int \<Rightarrow> version_info \<Rightarrow> (int \<times> int) list" where
  "free_modules k v = [(r, c)\<leftarrow>zigzag (modules v) True (right_columns (modules v - 1)).
     \<not> function_module k (modules v) (align_pos v) r c]"

lemma versions:
  assumes "v \<in> set qr_versions"
  shows "21 \<le> modules v" "modules v \<le> 37" "align_pos v = 0 \<or> 18 \<le> align_pos v \<and> align_pos v + 2 < modules v"
    "data_cw v \<le> 108" "0 < ec_cw v" "ec_cw v \<le> 26" "data_cw v + ec_cw v \<le> 134"
  using assms by (auto simp: qr_versions_def)

lemma choose_version_Ptr: "choose_version n = Ptr v \<Longrightarrow> v \<in> set qr_versions \<and> n + 3 \<le> data_cw v"
  by (auto simp: choose_version_def find_Some_iff split: option.splits)

lemma choose_version_total: "choose_version n = NULL \<longleftrightarrow> 105 < n"
  by (auto simp: choose_version_def qr_versions_def)

lemma zigzag_inside:
  assumes "p \<in> set (zigzag sz True (right_columns (sz - 1)))"
  shows "0 \<le> fst p \<and> fst p < sz \<and> 0 \<le> snd p \<and> snd p < sz"
  using zigzag_bounds [OF assms] right_columns_bounds by force

lemma word_bit_words:
  "word_bit (D @ r) (8 * length D) j \<longleftrightarrow> j < 8 * length D \<and> bits_of D ! j"
  by (cases "j < 8 * length D") (auto simp: word_bit_def bits_of_nth nth_append less_mult_imp_div_less mult.commute)

definition symbol_of :: "gf \<Rightarrow> u8 list \<Rightarrow> u8 list \<Rightarrow> u8 list \<Rightarrow> u8 list \<Rightarrow> version_info \<Rightarrow> u8 list \<Rightarrow> u8 list \<Rightarrow> matrix \<Rightarrow> bool" where
  "symbol_of t gen ec words s v D check m \<longleftrightarrow>
     generate_qr_code t gen ec words s = Some (Ptr (modules v, formatted (modules v) m)) \<and>
     length D = data_cw v \<and> bits_of D = data_bits s (data_cw v) \<and>
     length check = ec_cw v \<and> (\<forall>i<ec_cw v. ev (pw i) (D @ check) = 0) \<and>
     \<not> m (8, modules v - 8) \<and>
     (\<forall>i<length (free_modules 9 v). m (free_modules 9 v ! i) =
        ((i < 8 * (data_cw v + ec_cw v) \<and> bits_of (D @ check) ! i) \<noteq> masked (free_modules 9 v ! i)))"

lemma generate_symbol:
  assumes t: "length (gf_exp t) = 512" "length (gf_log t) = 256"
    and b: "length gen = 64" "length ec = 64" "length words = 256"
    and v: "choose_version (length s) = Ptr v"
  shows "\<exists>D check m. symbol_of t gen ec words s v D check m"
proof -
  have v': "v \<in> set qr_versions" "length s + 3 \<le> data_cw v" using choose_version_Ptr [OF v] by auto
  note vs = versions [OF v'(1)]
  obtain d where d: "encode_data s (data_cw v) = Some d" "length d = 128" "bits_of (take (data_cw v) d) = data_bits s (data_cw v)"
    using encode_data_bits [OF v'(2) vs(4)] by blast
  define D where "D = take (data_cw v) d"
  have D: "length D = data_cw v" using d(2) vs(4) by (simp add: D_def)
  obtain t' where t': "gf_init t = Some t'" "tables t'" using gf_init_tables t by blast
  obtain g ec' where g: "rs_gen_poly t' (ec_cw v) gen = Some g" "rs_encode t' D ec (ec_cw v) g = Some ec'" "length ec' = 64"
    "\<forall>i<ec_cw v. ev (pw i) (D @ take (ec_cw v) ec') = 0"
    using rs_codeword [OF t'(2) vs(5), of gen ec D] vs(6) b by auto
  define check where "check = take (ec_cw v) ec'"
  have check: "length check = ec_cw v" using g(3) vs(6) by (simp add: check_def)
  define w where "w = D @ check @ drop (length D + length check) words"
  have lw: "length D + length check \<le> length words" using D check vs(7) b(3) by simp
  have w: "wr_seq words 0 D = Some (D @ drop (length D) words)" "wr_seq (D @ drop (length D) words) (data_cw v) check = Some w"
    using lw D by (simp_all add: wr_seq_overlay overlay_def w_def add.commute)
  obtain s0 where s0: "draw_patterns (modules v) (align_pos v) \<lparr>grid = (\<lambda>_. False), reserved = (\<lambda>_. False)\<rparr> = Some s0"
    "\<And>r c. 0 \<le> r \<Longrightarrow> r < modules v \<Longrightarrow> 0 \<le> c \<Longrightarrow> c < modules v \<Longrightarrow>
        reserved s0 (r, c) \<longleftrightarrow> function_module 9 (modules v) (align_pos v) r c"
    using draws_patterns [of "modules v" "align_pos v" "\<lparr>grid = (\<lambda>_. False), reserved = (\<lambda>_. False)\<rparr>"] vs
    by (auto simp: MAX_MODULES_def)
  have dark: "\<not> grid s0 (8, modules v - 8)"
    using paints_patterns [of "modules v" "align_pos v"] vs(1,3) s0(1) by (auto simp: paints_def)
  define zz where "zz = zigzag (modules v) True (right_columns (modules v - 1))"
  have zin: "\<And>p. p \<in> set zz \<Longrightarrow> 0 \<le> fst p \<and> fst p < modules v \<and> 0 \<le> snd p \<and> snd p < modules v"
    unfolding zz_def by (rule zigzag_inside)
  have fs: "[p\<leftarrow>zz. \<not> reserved s0 p] = free_modules 9 v"
    unfolding free_modules_def zz_def [symmetric] by (rule filter_cong [OF refl]) (use zin s0(2) in force)
  define nb where "nb = (data_cw v + ec_cw v) * 8"
  have nb: "nb \<le> 8 * length w" "nb = 8 * length (D @ check)" using D check by (simp_all add: nb_def w_def)
  have pa: "\<And>p. p \<in> set zz \<Longrightarrow> inside (fst p) (snd p)" "distinct zz"
    using zin vs(2) distinct_zigzag [OF right_columns_apart] by (force simp: inside_def MAX_MODULES_def, simp add: zz_def)
  obtain m where m: "for_each zz (\<lambda>(row, col). place_module (reserved s0) w nb row col) (grid s0, min 0 nb) =
       Some (m, min (0 + length (free_modules 9 v)) nb)"
    "\<forall>i<length (free_modules 9 v). m (free_modules 9 v ! i) = (word_bit w nb (0 + i) \<noteq> masked (free_modules 9 v ! i))"
    "\<forall>p. p \<notin> set (free_modules 9 v) \<longrightarrow> m p = grid s0 p"
    using place_all [OF nb(1) pa, of "reserved s0" "grid s0" 0, unfolded fs] by blast
  have "(8, modules v - 8) \<notin> set (free_modules 9 v)" by (auto simp: free_modules_def function_module_def)
  then have m8: "\<not> m (8, modules v - 8)" using m(3) dark by blast
  have p: "place_columns (modules v) (reserved s0) w nb (modules v - 1) (-1) (modules v - 1) (grid s0, 0) =
      Some (m, min (length (free_modules 9 v)) nb)"
    using m(1) by (subst place_columns_zigzag) (simp_all add: zz_def)
  obtain s1 where s1: "write_format (modules v) (s0 \<lparr>grid := m\<rparr>) = Some s1" "grid s1 = formatted (modules v) m"
    using write_format_value [of "modules v" "s0 \<lparr>grid := m\<rparr>"] vs(1,2) by (auto simp: MAX_MODULES_def)
  have "generate_qr_code t gen ec words s = Some (Ptr (modules v, formatted (modules v) m))"
    unfolding generate_qr_code_def t'(1) bind.bind_lunit v cptr.case d(1) g(1) D_def [symmetric] g(2) w(1) check_def [symmetric] w(2)
      s0(1) nb_def [symmetric] p prod.case s1(1) s1(2) by (rule refl)
  moreover have "word_bit w nb i \<longleftrightarrow> i < 8 * (data_cw v + ec_cw v) \<and> bits_of (D @ check) ! i" for i
    using word_bit_words [of "D @ check" "drop (length D + length check) words" i] D check by (simp add: w_def nb(2))
  ultimately show ?thesis unfolding symbol_of_def
    using D d(3) check g(4) m8 m(2) by (intro exI [of _ D] exI [of _ check] exI [of _ m]) (simp add: D_def [symmetric] check_def)
qed

lemma free_modules_kept: "p \<in> set (free_modules 9 v) \<Longrightarrow> formatted (modules v) m p = m p"
  by (cases p) (auto simp: free_modules_def formatted_other)

lemma all_upto_list_all: "(\<forall>i<n. P i) = list_all P [0..<n]"
  by (auto simp: list_all_iff)

text \<open>
  C37: A text of more than 105 bytes is refused.  For every other text the program stays inside its arrays,
  takes the smallest version with room, and the symbol carries the code word: read in zigzag order and
  without the mask, the modules it leaves to the data hold the bits of mode, length, text, terminator,
  padding and check bytes, followed by zeros, as far as there are modules.
\<close>

theorem generate_qr_code_reads_back:
  assumes "length (gf_exp t) = 512" "length (gf_log t) = 256" "length gen = 64" "length ec = 64" "length words = 256"
  shows "(105 < length s \<longrightarrow> generate_qr_code t gen ec words s = Some NULL) \<and>
    (length s \<le> 105 \<longrightarrow> (\<exists>v D check m. choose_version (length s) = Ptr v \<and>
       generate_qr_code t gen ec words s = Some (Ptr (modules v, m)) \<and>
       length D = data_cw v \<and> bits_of D = data_bits s (data_cw v) \<and>
       length check = ec_cw v \<and> (\<forall>i<ec_cw v. ev (pw i) (D @ check) = 0) \<and>
       (\<forall>i<length (free_modules 9 v). (m (free_modules 9 v ! i) \<noteq> masked (free_modules 9 v ! i)) =
          (i < 8 * (data_cw v + ec_cw v) \<and> bits_of (D @ check) ! i))))"
proof (intro conjI impI)
  assume "105 < length s"
  then have v: "choose_version (length s) = NULL" by (simp add: choose_version_total)
  obtain t' where "gf_init t = Some t'" using gf_init_tables assms by blast
  then show "generate_qr_code t gen ec words s = Some NULL" by (simp add: generate_qr_code_def v)
next
  assume "length s \<le> 105"
  then obtain v where v: "choose_version (length s) = Ptr v"
    using choose_version_total by (cases "choose_version (length s)") auto
  obtain D check m where m: "symbol_of t gen ec words s v D check m" using generate_symbol [OF assms v] by blast
  have "formatted (modules v) m (free_modules 9 v ! i) = m (free_modules 9 v ! i)" if "i < length (free_modules 9 v)" for i
    using free_modules_kept [OF nth_mem [OF that]] .
  then show "\<exists>v D check m. choose_version (length s) = Ptr v \<and>
       generate_qr_code t gen ec words s = Some (Ptr (modules v, m)) \<and>
       length D = data_cw v \<and> bits_of D = data_bits s (data_cw v) \<and>
       length check = ec_cw v \<and> (\<forall>i<ec_cw v. ev (pw i) (D @ check) = 0) \<and>
       (\<forall>i<length (free_modules 9 v). (m (free_modules 9 v ! i) \<noteq> masked (free_modules 9 v ! i)) =
          (i < 8 * (data_cw v + ec_cw v) \<and> bits_of (D @ check) ! i))"
    using m v unfolding symbol_of_def
    by (intro exI [of _ v] exI [of _ D] exI [of _ check] exI [of _ "formatted (modules v) m"]) (simp del: bits_of_nth, blast)
qed

theorem generate_qr_code_reads_back_witness:
  "\<exists>v D check m. choose_version (length [104, 105 :: u8]) = Ptr v \<and>
     generate_qr_code \<lparr>gf_exp = replicate 512 0, gf_log = replicate 256 0\<rparr>
       (replicate 64 0) (replicate 64 0) (replicate 256 0) [104, 105] = Some (Ptr (modules v, m)) \<and>
     length D = data_cw v \<and> bits_of D = data_bits [104, 105] (data_cw v) \<and>
     length check = ec_cw v \<and> list_all (\<lambda>i. ev (pw i) (D @ check) = 0) [0..<ec_cw v] \<and>
     list_all (\<lambda>i. (m (free_modules 9 v ! i) \<noteq> masked (free_modules 9 v ! i)) =
       (i < 8 * (data_cw v + ec_cw v) \<and> bits_of (D @ check) ! i)) [0..<length (free_modules 9 v)]"
  using generate_qr_code_reads_back [of "\<lparr>gf_exp = replicate 512 0, gf_log = replicate 256 0\<rparr>"
      "replicate 64 0" "replicate 64 0" "replicate 256 0" "[104, 105]"]
  unfolding all_upto_list_all by simp

lemma free_modules_1: "length (free_modules 9 (hd qr_versions)) = 206"
  by code_simp

lemma version_1: "v \<in> set qr_versions \<Longrightarrow> version v = 1 \<Longrightarrow> v = hd qr_versions"
  by (auto simp: qr_versions_def)

text \<open>
  C38: In every version the program reserves two modules more than the function patterns of the standard
  take up, in which the two outer strips of format information have eight modules each (\<open>function_module 8\<close>):
  the data behind the first of them are shifted.  Version 1 has 26 code words, 208 bits, and is left with
  206 modules: the program stops before the last two bits of the check bytes, whatever the words are.
\<close>

theorem qr_two_modules_lost:
  assumes v: "v \<in> set qr_versions" and w: "length w = 256"
  shows "\<exists>s m n. draw_patterns (modules v) (align_pos v) \<lparr>grid = (\<lambda>_. False), reserved = (\<lambda>_. False)\<rparr> = Some s \<and>
    {(r, c). 0 \<le> r \<and> r < modules v \<and> 0 \<le> c \<and> c < modules v \<and> reserved s (r, c)} =
      {(r, c). 0 \<le> r \<and> r < modules v \<and> 0 \<le> c \<and> c < modules v \<and> function_module 8 (modules v) (align_pos v) r c} \<union>
      {(8, modules v - 9), (modules v - 9, 8)} \<and>
    \<not> function_module 8 (modules v) (align_pos v) 8 (modules v - 9) \<and>
    \<not> function_module 8 (modules v) (align_pos v) (modules v - 9) 8 \<and>
    place_columns (modules v) (reserved s) w ((data_cw v + ec_cw v) * 8) (modules v - 1) (-1) (modules v - 1) (grid s, 0)
      = Some (m, n) \<and> (version v = 1 \<longrightarrow> n = 206 \<and> (data_cw v + ec_cw v) * 8 = 208)"
proof -
  let ?sz = "modules v" and ?al = "align_pos v" and ?nb = "(data_cw v + ec_cw v) * 8"
  note vs = versions [OF v]
  obtain s where s: "draw_patterns ?sz ?al \<lparr>grid = (\<lambda>_. False), reserved = (\<lambda>_. False)\<rparr> = Some s"
    "\<And>r c. 0 \<le> r \<Longrightarrow> r < ?sz \<Longrightarrow> 0 \<le> c \<Longrightarrow> c < ?sz \<Longrightarrow> reserved s (r, c) \<longleftrightarrow> function_module 9 ?sz ?al r c"
    using draws_patterns [of ?sz ?al "\<lparr>grid = (\<lambda>_. False), reserved = (\<lambda>_. False)\<rparr>"] vs by (auto simp: MAX_MODULES_def)
  have k: "function_module 9 ?sz ?al r c \<longleftrightarrow> function_module 8 ?sz ?al r c \<or> (r, c) = (8, ?sz - 9) \<or> (r, c) = (?sz - 9, 8)" for r c
  proof -
    have e: "?sz - 9 \<le> x \<longleftrightarrow> ?sz - 8 \<le> x \<or> x = ?sz - 9" for x by linarith
    show ?thesis unfolding function_module_def e prod.inject by blast
  qed
  have lost: "\<not> function_module 8 ?sz ?al 8 (?sz - 9)" "\<not> function_module 8 ?sz ?al (?sz - 9) 8"
    unfolding function_module_def using vs(1,3) by auto
  define zz where "zz = zigzag ?sz True (right_columns (?sz - 1))"
  have zin: "\<And>p. p \<in> set zz \<Longrightarrow> 0 \<le> fst p \<and> fst p < ?sz \<and> 0 \<le> snd p \<and> snd p < ?sz"
    unfolding zz_def by (rule zigzag_inside)
  have fs: "[p\<leftarrow>zz. \<not> reserved s p] = free_modules 9 v"
    unfolding free_modules_def zz_def [symmetric] by (rule filter_cong [OF refl]) (use zin s(2) in force)
  have pa: "\<And>p. p \<in> set zz \<Longrightarrow> inside (fst p) (snd p)" "distinct zz"
    using zin vs(2) distinct_zigzag [OF right_columns_apart] by (force simp: inside_def MAX_MODULES_def, simp add: zz_def)
  have "?nb \<le> 8 * length w" using vs(7) w by simp
  from place_all [OF this pa, of "reserved s" "grid s" 0, unfolded fs]
  obtain m where "for_each zz (\<lambda>(row, col). place_module (reserved s) w ?nb row col) (grid s, min 0 ?nb) =
      Some (m, min (0 + length (free_modules 9 v)) ?nb)" by blast
  then have "place_columns ?sz (reserved s) w ?nb (?sz - 1) (-1) (?sz - 1) (grid s, 0) =
      Some (m, min (length (free_modules 9 v)) ?nb)"
    by (subst place_columns_zigzag) (simp_all add: zz_def)
  moreover have "min (length (free_modules 9 v)) ?nb = 206 \<and> ?nb = 208" if "version v = 1"
    using version_1 [OF v that] free_modules_1 by (simp add: qr_versions_def)
  moreover have "{(r, c). 0 \<le> r \<and> r < ?sz \<and> 0 \<le> c \<and> c < ?sz \<and> reserved s (r, c)} =
      {(r, c). 0 \<le> r \<and> r < ?sz \<and> 0 \<le> c \<and> c < ?sz \<and> function_module 8 ?sz ?al r c} \<union> {(8, ?sz - 9), (?sz - 9, 8)}"
    using s(2) k vs(1) by auto
  ultimately show ?thesis using s(1) lost by blast
qed

theorem qr_two_modules_lost_witness:
  "\<exists>s m. draw_patterns 21 0 \<lparr>grid = (\<lambda>_. False), reserved = (\<lambda>_. False)\<rparr> = Some s \<and>
    \<not> function_module 8 21 0 8 12 \<and> \<not> function_module 8 21 0 12 8 \<and>
    place_columns 21 (reserved s) (replicate 256 0) 208 20 (-1) 20 (grid s, 0) = Some (m, 206)"
proof -
  have "hd qr_versions \<in> set qr_versions" by (simp add: qr_versions_def)
  from qr_two_modules_lost [OF this, of "replicate 256 0"] show ?thesis
    by (simp add: qr_versions_def) blast
qed

text \<open>
  The 32 words of format information of the standard: five data bits, ten check bits, a mask.  Their
  distance is 7, so that three wrong bits can be corrected.
\<close>

definition format_word :: "nat \<Rightarrow> nat" where
  "format_word d = (push_bit 10 d OR
     foldl (\<lambda>r i. if bit r i then r XOR push_bit (i - 10) 0x537 else r) (push_bit 10 d) [14, 13, 12, 11, 10]) XOR 0x5412"

definition format_distance :: "nat \<Rightarrow> (int \<Rightarrow> bool) \<Rightarrow> nat" where
  "format_distance w f = length (filter (\<lambda>i. f i \<noteq> bit w (nat i)) [0..14])"

lemmas format_eval = format_distance_def upto_format format_word_def bit_iff_odd push_bit_eq_mult format_bits_def

definition format_far :: "nat \<Rightarrow> bool" where
  "format_far w \<longleftrightarrow> 4 \<le> format_distance w (\<lambda>i. bit format_bits (nat (14 - i))) \<and>
     4 \<le> format_distance w (\<lambda>i. i \<noteq> 7 \<and> bit format_bits (nat (14 - i)))"

lemma format_words_far: "list_all format_far (map format_word [0..<32])"
proof -
  have "[0..<32] = [0, 1, 2, 3, 4, 5, 6, 7, 8, 9, 10, 11, 12, 13, 14, 15, 16, 17, 18, 19, 20, 21, 22, 23, 24, 25, 26, 27, 28, 29, 30, 31]"
    by code_simp
  moreover have "format_word 0 = 0x5412" "format_word 1 = 0x5125" "format_word 2 = 0x5e7c" "format_word 3 = 0x5b4b"
    "format_word 4 = 0x45f9" "format_word 5 = 0x40ce" "format_word 6 = 0x4f97" "format_word 7 = 0x4aa0"
    "format_word 8 = 0x77c4" "format_word 9 = 0x72f3" "format_word 10 = 0x7daa" "format_word 11 = 0x789d"
    "format_word 12 = 0x662f" "format_word 13 = 0x6318" "format_word 14 = 0x6c41" "format_word 15 = 0x6976"
    "format_word 16 = 0x1689" "format_word 17 = 0x13be" "format_word 18 = 0x1ce7" "format_word 19 = 0x19d0"
    "format_word 20 = 0x762" "format_word 21 = 0x255" "format_word 22 = 0xd0c" "format_word 23 = 0x83b"
    "format_word 24 = 0x355f" "format_word 25 = 0x3068" "format_word 26 = 0x3f31" "format_word 27 = 0x3a06"
    "format_word 28 = 0x24b4" "format_word 29 = 0x2183" "format_word 30 = 0x2eda" "format_word 31 = 0x2bed"
    by (simp_all add: format_word_def bit_iff_odd push_bit_eq_mult)
  moreover have "format_far 0x5412" "format_far 0x5125" "format_far 0x5e7c" "format_far 0x5b4b" "format_far 0x45f9"
    "format_far 0x40ce" "format_far 0x4f97" "format_far 0x4aa0" "format_far 0x77c4" "format_far 0x72f3"
    "format_far 0x7daa" "format_far 0x789d" "format_far 0x662f" "format_far 0x6318" "format_far 0x6c41"
    "format_far 0x6976" "format_far 0x1689" "format_far 0x13be" "format_far 0x1ce7" "format_far 0x19d0"
    "format_far 0x762" "format_far 0x255" "format_far 0xd0c" "format_far 0x83b" "format_far 0x355f"
    "format_far 0x3068" "format_far 0x3f31" "format_far 0x3a06" "format_far 0x24b4" "format_far 0x2183"
    "format_far 0x2eda" "format_far 0x2bed"
    by (simp_all add: format_far_def format_eval)
  ultimately show ?thesis by (simp only: list.map list.pred_inject simp_thms)
qed

lemma format_distance_cong: "(\<And>i. i \<in> set [0..14] \<Longrightarrow> f i = g i) \<Longrightarrow> format_distance w f = format_distance w g"
  unfolding format_distance_def by (intro arg_cong [where f = length] filter_cong) auto

text \<open>
  C39: The format information is written with rows and columns exchanged.  Both copies, read where the
  standard has them, differ in at least four bits from every word of format information: no reader
  can tell the mask of a symbol of this program.
\<close>

theorem qr_format_unreadable:
  assumes "length (gf_exp t) = 512" "length (gf_log t) = 256" "length gen = 64" "length ec = 64" "length words = 256"
    and "length s \<le> 105"
  shows "format_word 8 = format_bits \<and> (\<exists>sz m. generate_qr_code t gen ec words s = Some (Ptr (sz, m)) \<and>
     (\<forall>d<32. 4 \<le> format_distance (format_word d) (\<lambda>i. m (std_first i)) \<and>
            4 \<le> format_distance (format_word d) (\<lambda>i. m (std_second sz i))))"
proof -
  obtain v where v: "choose_version (length s) = Ptr v"
    using choose_version_total assms(6) by (cases "choose_version (length s)") auto
  obtain D check m where m: "symbol_of t gen ec words s v D check m" using generate_symbol [OF assms(1-5) v] by blast
  have sz: "21 \<le> modules v" using versions(1) choose_version_Ptr [OF v] by blast
  have "format_distance w (\<lambda>i. formatted (modules v) m (std_first i)) = format_distance w (\<lambda>i. bit format_bits (nat (14 - i)))"
    "format_distance w (\<lambda>i. formatted (modules v) m (std_second (modules v) i)) =
      format_distance w (\<lambda>i. i \<noteq> 7 \<and> bit format_bits (nat (14 - i)))" for w
    using m formatted_first [OF sz] formatted_second [OF sz]
    by (auto simp: symbol_of_def split: if_splits intro!: format_distance_cong)
  moreover have "format_word 8 = format_bits" by (simp add: format_eval)
  ultimately show ?thesis using m format_words_far unfolding symbol_of_def
    by (intro conjI exI [of _ "modules v"] exI [of _ "formatted (modules v) m"])
      (auto simp: list_all_iff format_far_def)
qed

theorem qr_format_unreadable_witness:
  "format_word 8 = format_bits \<and> (\<exists>sz m. generate_qr_code \<lparr>gf_exp = replicate 512 0, gf_log = replicate 256 0\<rparr>
      (replicate 64 0) (replicate 64 0) (replicate 256 0) [104, 105] = Some (Ptr (sz, m)) \<and>
     list_all (\<lambda>d. 4 \<le> format_distance (format_word d) (\<lambda>i. m (std_first i)) \<and>
       4 \<le> format_distance (format_word d) (\<lambda>i. m (std_second sz i))) [0..<32])"
  unfolding all_upto_list_all [symmetric] by (rule qr_format_unreadable) simp_all

end
