(* ===== verification/Krypt.thy ===== *)
theory Krypt imports Hashcalc Zarchive begin

text \<open>
  The vaults of \<open>src/krypt/krypt.c\<close>: key derivation, ChaCha20, the packing of a directory, encryption
  and decryption.  The SHA-256 code of the program is that of \<open>Hashcalc\<close> word for word, with the same
  table of constants.  Files are byte lists that reads and writes transfer completely; the casts of the
  key and the nonce to words are those of a little-endian machine.
\<close>

section \<open>ChaCha20\<close>

definition ROTL :: "u32 \<Rightarrow> nat \<Rightarrow> u32" where
  "ROTL a b = push_bit b a OR drop_bit (32 - b) a"

definition QR :: "nat \<Rightarrow> nat \<Rightarrow> nat \<Rightarrow> nat \<Rightarrow> u32 list \<Rightarrow> u32 list" where
  "QR a b c d x =
     (let xa = x ! a + x ! b; xd = ROTL (x ! d XOR xa) 16;
          xc = x ! c + xd; xb = ROTL (x ! b XOR xc) 12;
          xa = xa + xb; xd = ROTL (xd XOR xa) 8;
          xc = xc + xd; xb = ROTL (xb XOR xc) 7
      in x[a := xa, b := xb, c := xc, d := xd])"

definition double_round :: "u32 list \<Rightarrow> u32 list" where
  "double_round x = QR 3 4 9 14 (QR 2 7 8 13 (QR 1 6 11 12 (QR 0 5 10 15
     (QR 3 7 11 15 (QR 2 6 10 14 (QR 1 5 9 13 (QR 0 4 8 12 x)))))))"

definition chacha20_block :: "u32 list \<Rightarrow> u32 list \<Rightarrow> u32 \<Rightarrow> u8 list" where
  "chacha20_block key nonce counter =
     (let state = [0x61707865, 0x3320646e, 0x79622d32, 0x6b206574] @ take 8 key @ [counter] @ take 3 nonce;
          x = (double_round ^^ 10) state
      in concat (map2 (\<lambda>a b. let v = a + b in map (\<lambda>k. ucast (drop_bit k v AND 0xFF)) [0, 8, 16, 24]) x state))"

text \<open>\<open>((uint32_t *)p)[i]\<close> for \<open>i < k\<close>\<close>

definition as_words :: "nat \<Rightarrow> u8 list \<Rightarrow> u32 list" where
  "as_words k p = map (\<lambda>i. of_nat (le_value (take 4 (drop (4 * i) p)))) [0..<k]"

function crypt_blocks :: "u32 list \<Rightarrow> u32 list \<Rightarrow> u32 \<Rightarrow> u8 list \<Rightarrow> u32 \<times> u8 list" where
  "crypt_blocks k n counter dat =
     (if dat = [] then (counter, [])
      else let block = chacha20_block k n counter;
               (c, out) = crypt_blocks k n (counter + 1) (drop 64 dat)
           in (c, map2 (XOR) (take 64 dat) block @ out))"
  by pat_completeness auto
termination by (relation "measure (\<lambda>(k, n, counter, dat). length dat)") auto

declare crypt_blocks.simps [simp del]

definition chacha20_crypt :: "u8 list \<Rightarrow> u8 list \<Rightarrow> u32 \<Rightarrow> u8 list \<Rightarrow> u32 \<times> u8 list" where
  "chacha20_crypt key nonce counter dat = crypt_blocks (as_words 8 key) (as_words 3 nonce) counter dat"

section \<open>The keys\<close>

definition KRYPT_MAGIC :: "u8 list" where "KRYPT_MAGIC = ascii ''KRYPT20'' @ [0]"
definition SALT_SIZE :: nat where "SALT_SIZE = 16"
definition NONCE_SIZE :: nat where "NONCE_SIZE = 12"
definition VAULT_HASH_SIZE :: nat where "VAULT_HASH_SIZE = 32"
definition CHUNK_SZ :: nat where "CHUNK_SZ = 65536"
definition KEY_ROUNDS :: nat where "KEY_ROUNDS = 50000"

text \<open>Initialise a context, absorb the pieces, finish.\<close>

definition hash_pieces :: "u8 list list \<Rightarrow> sha256_ctx \<Rightarrow> (sha256_ctx \<times> u8 list) option" where
  "hash_pieces ps ctx = foldl (\<lambda>r p. r \<bind> (\<lambda>ctx. sha256_update ctx p)) (Some (sha256_init ctx)) ps \<bind> sha256_final"

fun key_rounds :: "nat \<Rightarrow> u8 list \<Rightarrow> sha256_ctx \<Rightarrow> u8 list \<Rightarrow> (sha256_ctx \<times> u8 list) option" where
  "key_rounds 0 salt ctx h = Some (ctx, h)"
| "key_rounds (Suc n) salt ctx h = do {(ctx, h) \<leftarrow> hash_pieces [h, salt] ctx; key_rounds n salt ctx h}"

text \<open>\<open>password\<close> is the string without its terminator; the result is the key and the key of the check.\<close>

definition derive_key :: "sha256_ctx \<Rightarrow> u8 list \<Rightarrow> u8 list \<Rightarrow> (u8 list \<times> u8 list) option" where
  "derive_key ctx password salt = do {
     let pass_len = min (length password) 64;
     (ctx, h) \<leftarrow> hash_pieces [take pass_len password @ salt] ctx;
     (ctx, h) \<leftarrow> key_rounds KEY_ROUNDS salt ctx h;
     (ctx, mac) \<leftarrow> hash_pieces [h, ascii ''INTEGRITY_KEY_2.0''] ctx;
     Some (h, mac)}"

section \<open>Encryption\<close>

text \<open>
  What the program sees of a file: its mode, the size that \<open>lstat\<close> reports, and the bytes that reading it
  gives (\<open>NULL\<close> when it cannot be opened); they differ for a symbolic link.
\<close>

datatype ktree = KDir nat "(u8 list \<times> ktree) list" | KFile nat nat "u8 list cptr"

definition entry_bytes :: "u8 list \<Rightarrow> nat \<Rightarrow> nat \<Rightarrow> nat \<Rightarrow> u8 list" where
  "entry_bytes rel isd md sz =
     le_bytes 2 (length rel) @ take (length rel mod 2 ^ 16) rel @ le_bytes 1 isd @ le_bytes 4 md @ le_bytes 8 sz"

text \<open>
  No value for a path that does not fit into \<open>full_path[2048]\<close>: what \<open>lstat\<close> finds under the shortened name
  is another file.
\<close>

fun pack_directory_tree :: "u8 list \<Rightarrow> u8 list \<Rightarrow> (u8 list \<times> ktree) list \<Rightarrow> u8 list option" where
  "pack_directory_tree base_dir rel_prefix [] = Some []"
| "pack_directory_tree base_dir rel_prefix ((name, node) # es) =
     (if name = [46] \<or> name = [46, 46] then pack_directory_tree base_dir rel_prefix es
      else if length (base_dir @ [47] @ name) \<ge> 2048 then None
      else do {
        let rel = take 2047 (if rel_prefix \<noteq> [] then rel_prefix @ [47] @ name else name);
        bs \<leftarrow> (case node of
            KDir md kids \<Rightarrow> do {
              sub \<leftarrow> pack_directory_tree (base_dir @ [47] @ name) rel kids;
              Some (entry_bytes rel 1 md 0 @ sub)}
          | KFile md sz content \<Rightarrow>
              Some (entry_bytes rel 0 md sz @ (case content of NULL \<Rightarrow> [] | Ptr c \<Rightarrow> c)));
        rest \<leftarrow> pack_directory_tree base_dir rel_prefix es;
        Some (bs @ rest)})"

function seal_loop :: "u8 list \<Rightarrow> u8 list \<Rightarrow> u32 \<Rightarrow> sha256_ctx \<Rightarrow> u8 list \<Rightarrow> (sha256_ctx \<times> u8 list) option" where
  "seal_loop key nonce counter ctx dat =
     (if dat = [] then Some (ctx, [])
      else case chacha20_crypt key nonce counter (take CHUNK_SZ dat) of (counter, chunk) \<Rightarrow> do {
        ctx \<leftarrow> sha256_update ctx chunk;
        (ctx, out) \<leftarrow> seal_loop key nonce counter ctx (drop CHUNK_SZ dat);
        Some (ctx, chunk @ out)})"
  by pat_completeness auto
termination by (relation "measure (\<lambda>(key, nonce, counter, ctx, dat). length dat)") (auto simp: CHUNK_SZ_def)

declare seal_loop.simps [simp del]

text \<open>Whether the temporary file and the output can be opened, and what \<open>/dev/urandom\<close> gives.\<close>

record kenv =
  tmp_ok :: bool
  out_ok :: bool
  random :: "(u8 list \<times> u8 list) option"

text \<open>The status and the vault that is written.\<close>

definition encrypt_vault :: "kenv \<Rightarrow> sha256_ctx \<Rightarrow> u8 list \<Rightarrow> ktree option \<Rightarrow> u8 list \<Rightarrow> (int \<times> u8 list cptr) option" where
  "encrypt_vault env ctx in_target node pass =
     (case node of None \<Rightarrow> Some (- 1, NULL)
      | Some nd \<Rightarrow>
          if \<not> tmp_ok env then Some (- 1, NULL)
          else do {
            payload \<leftarrow> (case nd of
                KDir md kids \<Rightarrow> do {bs \<leftarrow> pack_directory_tree in_target [] kids; Some (Ptr (2 # bs @ [0, 0]))}
              | KFile md sz content \<Rightarrow> Some (case content of NULL \<Rightarrow> NULL | Ptr c \<Rightarrow> Ptr (1 # c)));
            (case payload of NULL \<Rightarrow> Some (- 1, NULL)
             | Ptr payload \<Rightarrow> (case random env of None \<Rightarrow> Some (- 1, NULL)
                 | Some (salt, nonce) \<Rightarrow> do {
                     (key, mac_key) \<leftarrow> derive_key ctx pass salt;
                     if \<not> out_ok env then Some (- 1, NULL)
                     else do {
                       ctx \<leftarrow> sha256_update (sha256_init ctx) mac_key;
                       (ctx, sealed) \<leftarrow> seal_loop key nonce 1 ctx payload;
                       (ctx, tag) \<leftarrow> sha256_final ctx;
                       Some (0, Ptr (KRYPT_MAGIC @ salt @ nonce @ sealed @ tag))}}))})"

section \<open>Decryption\<close>

datatype kaction = KMkdir "u8 list" nat | KWrite "u8 list" nat "u8 list"

definition make_parent_dirs_for_file :: "u8 list \<Rightarrow> kaction list" where
  "make_parent_dirs_for_file file_path =
     (let temp = take 1023 file_path in
      map (\<lambda>i. KMkdir (take i temp) 0x1ED) (filter (\<lambda>i. temp ! i = 47) [1..<length temp]))"

function mac_loop :: "sha256_ctx \<Rightarrow> u8 list \<Rightarrow> sha256_ctx option" where
  "mac_loop ctx dat = (if dat = [] then Some ctx
     else do {ctx \<leftarrow> sha256_update ctx (take CHUNK_SZ dat); mac_loop ctx (drop CHUNK_SZ dat)})"
  by pat_completeness auto
termination by (relation "measure (\<lambda>(ctx, dat). length dat)") (auto simp: CHUNK_SZ_def)

function open_loop :: "u8 list \<Rightarrow> u8 list \<Rightarrow> u32 \<Rightarrow> u8 list \<Rightarrow> u8 list" where
  "open_loop key nonce counter dat = (if dat = [] then []
     else case chacha20_crypt key nonce counter (take CHUNK_SZ dat) of (counter, chunk) \<Rightarrow>
       chunk @ open_loop key nonce counter (drop CHUNK_SZ dat))"
  by pat_completeness auto
termination by (relation "measure (\<lambda>(key, nonce, counter, dat). length dat)") (auto simp: CHUNK_SZ_def)

declare mac_loop.simps [simp del] open_loop.simps [simp del]

text \<open>
  The entries of a directory.  \<open>junk\<close> is what \<open>rel_path[1024]\<close> held; \<open>can_open\<close> tells which files can be
  created: the contents of one that cannot are left in the stream.
\<close>

function restore_items :: "(u8 list \<Rightarrow> bool) \<Rightarrow> u8 list \<Rightarrow> u8 list \<Rightarrow> u8 list \<Rightarrow> kaction list option" where
  "restore_items can_open junk out_target bs =
     (let plen = le_value (take 2 bs) in
      if bs = [] \<or> plen = 0 then Some []
      else do {
        (rel, bs) \<leftarrow> read_path junk plen (drop 2 bs);
        let isd = le_value (take 1 bs);
        let md = le_value (take 4 (drop 1 bs));
        let fsize = le_value (take 8 (drop 5 bs));
        let dest = take 2047 (out_target @ [47] @ rel);
        if isd \<noteq> 0 then do {
          acts \<leftarrow> restore_items can_open junk out_target (drop 13 bs);
          Some (KMkdir dest md # acts)}
        else if can_open dest then do {
          acts \<leftarrow> restore_items can_open junk out_target (drop fsize (drop 13 bs));
          Some (make_parent_dirs_for_file dest @ KWrite dest md (take fsize (drop 13 bs)) # acts)}
        else do {
          acts \<leftarrow> restore_items can_open junk out_target (drop 13 bs);
          Some (make_parent_dirs_for_file dest @ acts)}})"
  by pat_completeness auto
termination
  by (relation "measure (\<lambda>(can_open, junk, out_target, bs). length bs)")
     (auto simp: read_path_def split: if_splits)

declare restore_items.simps [simp del]

text \<open>The last step: the decrypted payload (\<open>vault_type\<close> stays 0 when there is none).\<close>

definition unpack_payload ::
  "(u8 list \<Rightarrow> bool) \<Rightarrow> u8 list \<Rightarrow> u8 list \<Rightarrow> u8 list \<Rightarrow> (int \<times> kaction list) option" where
  "unpack_payload can_open junk out_target payload =
     (let vault_type = (case payload of [] \<Rightarrow> 0 | t # _ \<Rightarrow> t) in
      if vault_type = 1 then
        (if can_open out_target then Some (0, [KWrite out_target 0x1A4 (drop 1 payload)]) else Some (- 1, []))
      else if vault_type = 2 then do {
        acts \<leftarrow> restore_items can_open junk out_target (drop 1 payload);
        Some (0, KMkdir out_target 0x1ED # acts)}
      else Some (0, []))"

definition decrypt_vault ::
  "bool \<Rightarrow> (u8 list \<Rightarrow> bool) \<Rightarrow> sha256_ctx \<Rightarrow> u8 list \<Rightarrow> u8 list cptr \<Rightarrow> u8 list \<Rightarrow> u8 list \<Rightarrow> (int \<times> kaction list) option" where
  "decrypt_vault tmp can_open ctx junk vault out_target pass =
     (case vault of NULL \<Rightarrow> Some (- 1, [])
      | Ptr v \<Rightarrow>
          if length v < 8 \<or> take 8 v \<noteq> KRYPT_MAGIC then Some (- 1, [])
          else if length v < 8 + SALT_SIZE + NONCE_SIZE + VAULT_HASH_SIZE then Some (- 1, [])
          else do {
            let salt = take SALT_SIZE (drop 8 v);
            let nonce = take NONCE_SIZE (drop (8 + SALT_SIZE) v);
            let sealed = take (length v - 8 - SALT_SIZE - NONCE_SIZE - VAULT_HASH_SIZE) (drop (8 + SALT_SIZE + NONCE_SIZE) v);
            (key, mac_key) \<leftarrow> derive_key ctx pass salt;
            ctx \<leftarrow> sha256_update (sha256_init ctx) mac_key;
            ctx \<leftarrow> mac_loop ctx sealed;
            (ctx, tag) \<leftarrow> sha256_final ctx;
            if tag \<noteq> drop (length v - VAULT_HASH_SIZE) v then Some (- 1, [])
            else if \<not> tmp then Some (- 1, [])
            else unpack_payload can_open junk out_target (open_loop key nonce 1 sealed)})"

section \<open>The program\<close>

text \<open>\<open>fgets\<close> into \<open>n\<close> bytes, and the line without its end.\<close>

definition get_hidden_password :: "nat \<Rightarrow> u8 list \<Rightarrow> u8 list" where
  "get_hidden_password n inp =
     (let line = takeWhile (\<lambda>c. c \<noteq> 10) (take (n - 1) inp) @ (if 10 \<in> set (take (n - 1) inp) then [10] else []);
          out_pass = takeWhile (\<lambda>c. c \<noteq> 0) line
      in rev (dropWhile (\<lambda>c. c = 13 \<or> c = 10) (rev out_pass)))"

record kopts =
  mode_encrypt :: bool
  mode_decrypt :: bool
  auto_shred :: bool
  k_target :: "u8 list option"
  k_out :: "u8 list"

definition kmode_target :: "u8 list list \<Rightarrow> kopts \<Rightarrow> kopts \<times> nat" where
  "kmode_target rest opt =
     (case rest of
        b # _ \<Rightarrow> if \<not> starts_dash b then (opt \<lparr>k_target := Some b\<rparr>, 1) else (opt, 0)
      | [] \<Rightarrow> (opt, 0))"

definition krypt_arg :: "u8 list \<Rightarrow> u8 list list \<Rightarrow> kopts \<Rightarrow> kopts \<times> nat" where
  "krypt_arg a rest opt =
     (if a = ascii ''-e'' \<or> a = ascii ''--encrypt'' then kmode_target rest (opt \<lparr>mode_encrypt := True\<rparr>)
      else if a = ascii ''-d'' \<or> a = ascii ''--decrypt'' then kmode_target rest (opt \<lparr>mode_decrypt := True\<rparr>)
      else if a = ascii ''-s'' \<or> a = ascii ''--shred'' then (opt \<lparr>auto_shred := True\<rparr>, 0)
      else if (a = ascii ''-o'' \<or> a = ascii ''--output'') \<and> rest \<noteq> [] then (opt \<lparr>k_out := take 511 (hd rest)\<rparr>, 1)
      else if k_target opt = None \<and> \<not> starts_dash a then (opt \<lparr>k_target := Some a\<rparr>, 0)
      else (opt, 0))"

function krypt_args :: "u8 list list \<Rightarrow> kopts \<Rightarrow> kopts" where
  "krypt_args [] opt = opt"
| "krypt_args (a # rest) opt = (case krypt_arg a rest opt of (opt, k) \<Rightarrow> krypt_args (drop k rest) opt)"
  by pat_completeness auto
termination by (relation "measure (\<lambda>(args, opt). length args)") auto

text \<open>The part of a string before the first occurrence of \<open>.kr\<close>, \<open>None\<close> when there is none.\<close>

fun before_kr :: "u8 list \<Rightarrow> u8 list option" where
  "before_kr [] = None"
| "before_kr (c # cs) = (if take 3 (c # cs) = ascii ''.kr'' then Some [] else map_option ((#) c) (before_kr cs))"

text \<open>
  The name of the output when none is given; no value when \<open>clean_target[512]\<close> is left without a
  terminator or \<open>strcat\<close> writes past \<open>out_target[512]\<close>.
\<close>

definition default_out :: "bool \<Rightarrow> u8 list \<Rightarrow> u8 list option" where
  "default_out enc in_target =
     (if enc then
        (if length in_target < 511 then Some (take 511 (strip_slash in_target @ ascii ''.kr'')) else None)
      else (let out = take 511 in_target in
        case before_kr out of Some o' \<Rightarrow> Some o'
        | None \<Rightarrow> if length out + 4 < 512 then Some (out @ ascii ''_dec'') else None))"

datatype krypt_cmd = KHelp int | KEmptyPass | KEncrypt "u8 list" "u8 list" "u8 list" bool
  | KDecrypt "u8 list" "u8 list" "u8 list" | KNothing

text \<open>The arguments after the program's name and the standard input.\<close>

definition krypt_main :: "u8 list list \<Rightarrow> u8 list \<Rightarrow> krypt_cmd option" where
  "krypt_main args inp =
     (if length args < 2 then Some (KHelp 1)
      else if hd args = ascii ''--help'' \<or> hd args = ascii ''-h'' then Some (KHelp 0)
      else let opt = krypt_args args \<lparr>mode_encrypt = False, mode_decrypt = False, auto_shred = False,
          k_target = None, k_out = []\<rparr> in
        case k_target opt of
          None \<Rightarrow> Some (KHelp 1)
        | Some in_target \<Rightarrow> do {
            out_target \<leftarrow> (if k_out opt = [] then default_out (mode_encrypt opt) in_target else Some (k_out opt));
            let pass = get_hidden_password 128 inp;
            Some (if pass = [] then KEmptyPass
              else if mode_encrypt opt then KEncrypt in_target out_target pass (auto_shred opt)
              else if mode_decrypt opt then KDecrypt in_target out_target pass
              else KNothing)})"

section \<open>The hash\<close>

text \<open>The buffer keeps its 64 bytes, so that every context can be used again.\<close>

definition ctx_ok :: "sha256_ctx \<Rightarrow> bool" where
  "ctx_ok ctx \<longleftrightarrow> length (ctx_data ctx) = 64"

lemma final_ok:
  assumes "absorbed m ctx"
  shows "\<exists>ctx'. sha256_final ctx = Some (ctx', sha256 m) \<and> ctx_ok ctx'"
proof -
  obtain ctx' where c: "sha256_final ctx = Some (ctx', sha256 m)" using sha256_final_value [OF assms] by blast
  have len: "length d' = length d" if "wr d i x = Some d'" for d d' :: "u8 list" and i x
    using that by (auto simp: wr_def split: if_splits)
  have lens: "length d' = length d" if "wr_seq d i xs = Some d'" for d d' :: "u8 list" and i xs
    using that by (induction xs arbitrary: d i) (auto split: Option.bind_splits dest: len)
  have "length (ctx_data ctx') = length (ctx_data ctx)" using c
    by (auto simp: sha256_final_def sha256_transform_def fill_zero_def Let_def
        split: Option.bind_splits if_splits dest!: len lens)
  then show ?thesis using c assms by (simp add: ctx_ok_def absorbed_def)
qed

lemma hash_pieces_value:
  assumes "ctx_ok ctx"
  shows "\<exists>ctx'. hash_pieces ps ctx = Some (ctx', sha256 (concat ps)) \<and> ctx_ok ctx'"
proof -
  have "\<exists>c. foldl (\<lambda>r p. r \<bind> (\<lambda>ctx. sha256_update ctx p)) (Some c0) ps = Some c \<and> absorbed (m @ concat ps) c"
    if "absorbed m c0" for m c0
    using that
  proof (induction ps arbitrary: m c0)
    case (Cons p ps)
    obtain c where "sha256_update c0 p = Some c" "absorbed (m @ p) c" using sha256_update_absorbed [OF Cons.prems] by blast
    then show ?case using Cons.IH [of "m @ p" c] by simp
  qed simp
  from this [OF absorbed_init [OF assms [unfolded ctx_ok_def]]] show ?thesis
    using final_ok by (fastforce simp: hash_pieces_def)
qed

text \<open>The key derivation as a function of password and salt.\<close>

definition stretched :: "u8 list \<Rightarrow> u8 list \<Rightarrow> u8 list" where
  "stretched password salt = ((\<lambda>h. sha256 (h @ salt)) ^^ KEY_ROUNDS) (sha256 (take 64 password @ salt))"

definition mac_key_of :: "u8 list \<Rightarrow> u8 list" where
  "mac_key_of key = sha256 (key @ ascii ''INTEGRITY_KEY_2.0'')"

lemma key_rounds_value:
  "ctx_ok ctx \<Longrightarrow> \<exists>ctx'. key_rounds n salt ctx h = Some (ctx', ((\<lambda>h. sha256 (h @ salt)) ^^ n) h) \<and> ctx_ok ctx'"
proof (induction n arbitrary: ctx h)
  case (Suc n)
  obtain c where c: "hash_pieces [h, salt] ctx = Some (c, sha256 (h @ salt))" "ctx_ok c"
    using hash_pieces_value [OF Suc.prems, of "[h, salt]"] by auto
  show ?case using Suc.IH [OF c(2), of "sha256 (h @ salt)"] c(1)
    by (simp add: funpow_Suc_right del: funpow.simps)
qed simp

lemma derive_key_value:
  assumes "ctx_ok ctx"
  shows "derive_key ctx password salt = Some (stretched password salt, mac_key_of (stretched password salt))"
proof -
  let ?h = "sha256 (take 64 password @ salt)"
  have t: "take (min (length password) 64) password = take 64 password" by (cases "length password \<le> 64") auto
  obtain c where c: "hash_pieces [take 64 password @ salt] ctx = Some (c, ?h)" "ctx_ok c"
    using hash_pieces_value [OF assms, of "[take 64 password @ salt]"] by auto
  obtain d where d: "key_rounds KEY_ROUNDS salt c ?h = Some (d, stretched password salt)" "ctx_ok d"
    using key_rounds_value [OF c(2), of KEY_ROUNDS salt ?h] unfolding stretched_def by blast
  obtain e where "hash_pieces [stretched password salt, ascii ''INTEGRITY_KEY_2.0''] d
      = Some (e, mac_key_of (stretched password salt))"
    using hash_pieces_value [OF d(2), of "[stretched password salt, ascii ''INTEGRITY_KEY_2.0'']"]
    by (auto simp: mac_key_of_def)
  then show ?thesis unfolding derive_key_def Let_def t using c(1) d(1) by (simp del: key_rounds.simps)
qed

section \<open>The stream cipher\<close>

lemma length_QR: "length (QR a b c d x) = length x"
  unfolding QR_def Let_def by (simp only: length_list_update)

lemma length_double_round: "length (double_round x) = length x"
  by (simp add: double_round_def length_QR)

lemma length_block_words: "length (as_words k p) = k"
  by (simp add: as_words_def)

lemma length_chacha20_block:
  assumes "length key = 8" "length nonce = 3"
  shows "length (chacha20_block key nonce c) = 64"
proof -
  have it: "length ((double_round ^^ n) x) = length x" for n x
    by (induction n) (simp_all add: length_double_round)
  have "length (concat (map2 (\<lambda>a b. let v = a + b in map (\<lambda>k. ucast (drop_bit k v AND 0xFF) :: u8) [0, 8, 16, 24]) x y))
      = 4 * min (length x) (length y)" for x y :: "u32 list"
    by (induction x y rule: list_induct2') (simp_all add: Let_def)
  then show ?thesis using assms by (simp add: chacha20_block_def Let_def it del: funpow.simps)
qed

text \<open>Byte \<open>i\<close> of the stream that starts with block \<open>c\<close>.\<close>

definition stream_byte :: "u32 list \<Rightarrow> u32 list \<Rightarrow> u32 \<Rightarrow> nat \<Rightarrow> u8" where
  "stream_byte k n c i = chacha20_block k n (c + of_nat (i div 64)) ! (i mod 64)"

definition with_stream :: "u32 list \<Rightarrow> u32 list \<Rightarrow> u32 \<Rightarrow> u8 list \<Rightarrow> u8 list" where
  "with_stream k n c dat = map (\<lambda>i. dat ! i XOR stream_byte k n c i) [0..<length dat]"

lemma length_with_stream [simp]: "length (with_stream k n c dat) = length dat"
  by (simp add: with_stream_def)

lemma with_stream_twice: "with_stream k n c (with_stream k n c dat) = dat"
  by (intro nth_equalityI) (simp_all add: with_stream_def xor.assoc)

lemma with_stream_append:
  assumes "64 * m = length xs"
  shows "with_stream k n c (xs @ ys) = with_stream k n c xs @ with_stream k n (c + of_nat m) ys"
proof (rule nth_equalityI)
  fix i assume "i < length (with_stream k n c (xs @ ys))"
  moreover have "stream_byte k n c i = stream_byte k n (c + of_nat m) (i - length xs)" if "\<not> i < length xs"
  proof -
    have "64 * m \<le> i" using that assms by simp
    then obtain j where "i = 64 * m + j" using le_Suc_ex by blast
    moreover have "(64 * m + j) div 64 = m + j div 64" "(64 * m + j) mod 64 = j mod 64" by simp_all
    moreover have "64 * m + j - length xs = j" using assms by simp
    ultimately show ?thesis by (simp only: stream_byte_def of_nat_add add.assoc)
  qed
  ultimately show "with_stream k n c (xs @ ys) ! i = (with_stream k n c xs @ with_stream k n (c + of_nat m) ys) ! i"
    by (auto simp: with_stream_def nth_append)
qed simp

lemma blocks_next: "0 < (n :: nat) \<Longrightarrow> (n + 63) div 64 = Suc ((n - 64 + 63) div 64)"
proof (cases "n \<le> 64")
  case True
  assume "0 < n"
  then have "(n + 63) div 64 = 1" using True by (intro div_nat_eqI) simp_all
  then show ?thesis using True by simp
next
  case False
  then obtain m where "n = m + 64" by (metis le_add_diff_inverse2 nat_le_linear)
  then show ?thesis using div_add_self2 [of 64 "m + 63"] by (simp add: ac_simps)
qed

lemma crypt_blocks_stream:
  assumes "length k = 8" "length n = 3"
  shows "crypt_blocks k n c dat = (c + of_nat ((length dat + 63) div 64), with_stream k n c dat)"
  using assms
proof (induction k n c dat rule: crypt_blocks.induct)
  case (1 k n c dat)
  show ?case
  proof (cases "dat = []")
    case True
    then show ?thesis by (simp add: crypt_blocks.simps with_stream_def)
  next
    case False
    have b: "map2 (XOR) (take 64 dat) (chacha20_block k n c) = with_stream k n c (take 64 dat)"
      using length_chacha20_block [of k n c] 1(2,3)
      by (intro nth_equalityI) (simp_all add: with_stream_def stream_byte_def)
    have w: "with_stream k n c dat = with_stream k n c (take 64 dat) @ with_stream k n (c + 1) (drop 64 dat)"
    proof (cases "length dat \<le> 64")
      case True
      then show ?thesis by (simp add: with_stream_def)
    next
      case False
      then show ?thesis using with_stream_append [of 1 "take 64 dat" k n c "drop 64 dat"] by simp
    qed
    have "(length dat + 63) div 64 = Suc ((length (drop 64 dat) + 63) div 64)"
      using blocks_next [of "length dat"] False by simp
    then show ?thesis using False 1(1) [OF False refl 1(2,3)] b w by (subst crypt_blocks.simps) (simp add: ac_simps)
  qed
qed

definition key_stream :: "u8 list \<Rightarrow> u8 list \<Rightarrow> nat \<Rightarrow> u8" where
  "key_stream key nonce i = stream_byte (as_words 8 key) (as_words 3 nonce) 1 i"

lemma chacha20_crypt_stream:
  "chacha20_crypt key nonce c dat =
     (c + of_nat ((length dat + 63) div 64), with_stream (as_words 8 key) (as_words 3 nonce) c dat)"
  by (simp add: chacha20_crypt_def crypt_blocks_stream length_block_words)

lemma open_loop_stream: "open_loop key nonce c dat = with_stream (as_words 8 key) (as_words 3 nonce) c dat"
proof (induction key nonce c dat rule: open_loop.induct)
  case (1 key nonce c dat)
  let ?k = "as_words 8 key" and ?n = "as_words 3 nonce"
  show ?case
  proof (cases "length dat \<le> CHUNK_SZ")
    case True
    have "open_loop key nonce c' [] = []" for c' by (simp add: open_loop.simps)
    then show ?thesis using True by (subst open_loop.simps) (simp add: chacha20_crypt_stream with_stream_def)
  next
    case False
    have c: "chacha20_crypt key nonce c (take CHUNK_SZ dat) = (c + of_nat 1024, with_stream ?k ?n c (take CHUNK_SZ dat))"
      using False by (simp add: chacha20_crypt_stream CHUNK_SZ_def)
    have ne: "dat \<noteq> []" using False by auto
    have "64 * 1024 = length (take CHUNK_SZ dat)" using False by (simp add: CHUNK_SZ_def)
    from with_stream_append [OF this, of ?k ?n c "drop CHUNK_SZ dat"]
    have "with_stream ?k ?n c dat = with_stream ?k ?n c (take CHUNK_SZ dat) @ with_stream ?k ?n (c + of_nat 1024) (drop CHUNK_SZ dat)"
      by (simp only: append_take_drop_id)
    moreover have "open_loop key nonce c dat = with_stream ?k ?n c (take CHUNK_SZ dat) @ open_loop key nonce (c + of_nat 1024) (drop CHUNK_SZ dat)"
      using ne by (subst open_loop.simps) (simp only: c if_False prod.case)
    ultimately show ?thesis using 1 [OF ne c [symmetric]] by simp
  qed
qed

lemma open_loop_twice: "open_loop key nonce c (open_loop key nonce c dat) = dat"
  by (simp add: open_loop_stream with_stream_twice)

lemma seal_loop_open:
  "seal_loop key nonce c ctx dat = sha256_update ctx (open_loop key nonce c dat)
     \<bind> (\<lambda>ctx. Some (ctx, open_loop key nonce c dat))"
proof (induction key nonce c ctx dat rule: seal_loop.induct)
  case (1 key nonce c ctx dat)
  show ?case
  proof (cases "dat = []")
    case True
    then show ?thesis by (simp add: seal_loop.simps open_loop.simps)
  next
    case False
    obtain c' chunk where c: "chacha20_crypt key nonce c (take CHUNK_SZ dat) = (c', chunk)" by fastforce
    have o: "open_loop key nonce c dat = chunk @ open_loop key nonce c' (drop CHUNK_SZ dat)"
      using False c by (subst open_loop.simps) simp
    have l: "seal_loop key nonce c ctx dat = sha256_update ctx chunk \<bind> (\<lambda>ctx. seal_loop key nonce c' ctx (drop CHUNK_SZ dat)
        \<bind> (\<lambda>(ctx, out). Some (ctx, chunk @ out)))"
      using False c by (subst seal_loop.simps) simp
    show ?thesis unfolding o l sha256_update_append
      using 1 [OF False c [symmetric]] by (cases "sha256_update ctx chunk") (simp_all split: bind_split)
  qed
qed

lemma mac_loop_update: "mac_loop ctx dat = sha256_update ctx dat"
proof (induction ctx dat rule: mac_loop.induct)
  case (1 ctx dat)
  have "sha256_update ctx (take CHUNK_SZ dat @ drop CHUNK_SZ dat)
      = sha256_update ctx (take CHUNK_SZ dat) \<bind> (\<lambda>ctx. sha256_update ctx (drop CHUNK_SZ dat))"
    by (rule sha256_update_append)
  then show ?case using 1
    by (subst mac_loop.simps) (cases "dat = []"; cases "sha256_update ctx (take CHUNK_SZ dat)"; simp)
qed

section \<open>The tree\<close>

definition krel :: "u8 list \<Rightarrow> u8 list \<Rightarrow> u8 list" where
  "krel rel_prefix name = take 2047 (if rel_prefix \<noteq> [] then rel_prefix @ [47] @ name else name)"

text \<open>The entries in the order of the walk: path, directory or not, mode, size reported, bytes read.\<close>

datatype kitem = KItem (item_rel: "u8 list") (item_isd: nat) (item_mode: nat) (item_size: nat) (item_data: "u8 list")

definition got :: "u8 list cptr \<Rightarrow> u8 list" where
  "got content = (case content of NULL \<Rightarrow> [] | Ptr c \<Rightarrow> c)"

fun ktree_items :: "u8 list \<Rightarrow> (u8 list \<times> ktree) list \<Rightarrow> kitem list" where
  "ktree_items p [] = []"
| "ktree_items p ((name, node) # es) =
     (if name = [46] \<or> name = [46, 46] then ktree_items p es
      else (case node of
          KDir md kids \<Rightarrow> KItem (krel p name) 1 md 0 [] # ktree_items (krel p name) kids
        | KFile md sz content \<Rightarrow> [KItem (krel p name) 0 md sz (got content)]) @ ktree_items p es)"

definition kitem_bytes :: "kitem \<Rightarrow> u8 list" where
  "kitem_bytes it = entry_bytes (item_rel it) (item_isd it) (item_mode it) (item_size it) @ item_data it"

lemma pack_directory_items:
  "pack_directory_tree base_dir p es = Some bs \<Longrightarrow> bs = concat (map kitem_bytes (ktree_items p es))"
proof (induction base_dir p es arbitrary: bs rule: pack_directory_tree.induct)
  case (2 base_dir p name node es)
  show ?case
  proof (cases "name = [46] \<or> name = [46, 46]")
    case True
    then show ?thesis using 2 by auto
  next
    case False
    have rel: "take 2047 (if p \<noteq> [] then p @ [47] @ name else name) = krel p name" by (simp add: krel_def)
    show ?thesis
    proof (cases node)
      case (KDir md kids)
      then show ?thesis using 2(4) False 2(2) [OF False _ refl KDir] 2(3) [OF False]
        by (auto simp: rel Let_def kitem_bytes_def split: if_splits Option.bind_splits)
    next
      case (KFile md sz content)
      then show ?thesis using 2(4) False 2(3) [OF False]
        by (auto simp: rel Let_def kitem_bytes_def got_def split: if_splits Option.bind_splits)
    qed
  qed
qed simp

text \<open>
  An entry that comes back: a path that fits, one byte for the kind, a size that is that of the content
  (of a symbolic link it is not).
\<close>

definition kitem_ok :: "kitem \<Rightarrow> bool" where
  "kitem_ok it \<longleftrightarrow> item_rel it \<noteq> [] \<and> length (item_rel it) < 1024 \<and> 0 \<notin> set (item_rel it) \<and> item_isd it \<le> 1 \<and>
     item_mode it < 2 ^ 32 \<and> item_size it < 2 ^ 64 \<and> length (item_data it) = item_size it"

definition kitem_restores :: "u8 list \<Rightarrow> kitem \<Rightarrow> kaction list" where
  "kitem_restores out_target it =
     (let dest = take 2047 (out_target @ [47] @ item_rel it) in
      if item_isd it \<noteq> 0 then [KMkdir dest (item_mode it)]
      else make_parent_dirs_for_file dest @ [KWrite dest (item_mode it) (item_data it)])"

lemma restore_item:
  assumes j: "length junk = 1024" and ok: "kitem_ok it" and d: "item_isd it \<noteq> 0 \<longrightarrow> item_data it = []"
  shows "restore_items (\<lambda>_. True) junk out_target (kitem_bytes it @ rest)
    = map_option ((@) (kitem_restores out_target it)) (restore_items (\<lambda>_. True) junk out_target rest)"
proof -
  let ?r = "item_rel it"
  let ?tl = "le_bytes 1 (item_isd it) @ le_bytes 4 (item_mode it) @ le_bytes 8 (item_size it) @ item_data it @ rest"
  have k: "?r \<noteq> []" "length ?r < 1024" "0 \<notin> set ?r" "item_isd it \<le> 1" "item_mode it < 2 ^ 32" "item_size it < 2 ^ 64"
    "length (item_data it) = item_size it" using ok by (simp_all add: kitem_ok_def)
  have b: "kitem_bytes it @ rest = le_bytes 2 (length ?r) @ ?r @ ?tl"
    using k(2) by (simp add: kitem_bytes_def entry_bytes_def)
  have v: "le_value (le_bytes 2 (length ?r)) = length ?r" "le_value (le_bytes 1 (item_isd it)) = item_isd it"
    "le_value (le_bytes 4 (item_mode it)) = item_mode it" "le_value (le_bytes 8 (item_size it)) = item_size it"
    using k by (simp_all add: le_value_small)
  have p: "read_path junk (length ?r) (?r @ ?tl) = Some (?r, ?tl)" by (rule read_path_ok [OF j k(2,3)])
  have h: "restore_items (\<lambda>_. True) junk out_target (kitem_bytes it @ rest) = do {
        let dest = take 2047 (out_target @ [47] @ ?r);
        if item_isd it \<noteq> 0 then do {
          acts \<leftarrow> restore_items (\<lambda>_. True) junk out_target (item_data it @ rest);
          Some (KMkdir dest (item_mode it) # acts)}
        else do {
          acts \<leftarrow> restore_items (\<lambda>_. True) junk out_target (drop (item_size it) (item_data it @ rest));
          Some (make_parent_dirs_for_file dest @ KWrite dest (item_mode it) (take (item_size it) (item_data it @ rest)) # acts)}}"
    unfolding b using k(1) p v by (subst restore_items.simps) (simp add: Let_def)
  show ?thesis unfolding h using d k(7)
    by (cases "restore_items (\<lambda>_. True) junk out_target rest") (auto simp: kitem_restores_def Let_def)
qed

lemma ktree_dirs_empty: "it \<in> set (ktree_items p es) \<Longrightarrow> item_isd it \<noteq> 0 \<Longrightarrow> item_data it = []"
  by (induction p es rule: ktree_items.induct) (auto split: ktree.splits if_splits)

lemma restore_all:
  assumes j: "length junk = 1024"
  shows "\<forall>it\<in>set items. kitem_ok it \<and> (item_isd it \<noteq> 0 \<longrightarrow> item_data it = []) \<Longrightarrow>
    restore_items (\<lambda>_. True) junk out_target (concat (map kitem_bytes items) @ [0, 0])
      = Some (concat (map (kitem_restores out_target) items))"
proof (induction items)
  case Nil
  show ?case by (subst restore_items.simps) (simp add: le_value_def)
next
  case (Cons it items)
  then show ?case using restore_item [OF j, of it out_target "concat (map kitem_bytes items) @ [0, 0]"] by simp
qed

section \<open>The vault\<close>

definition payload_of :: "u8 list \<Rightarrow> ktree \<Rightarrow> u8 list cptr option" where
  "payload_of in_target nd = (case nd of
      KDir md kids \<Rightarrow> do {bs \<leftarrow> pack_directory_tree in_target [] kids; Some (Ptr (2 # bs @ [0, 0]))}
    | KFile md sz content \<Rightarrow> Some (case content of NULL \<Rightarrow> NULL | Ptr c \<Rightarrow> Ptr (1 # c)))"

definition sealed_of :: "u8 list \<Rightarrow> u8 list \<Rightarrow> u8 list \<Rightarrow> u8 list" where
  "sealed_of key nonce payload = map (\<lambda>i. payload ! i XOR key_stream key nonce i) [0..<length payload]"

lemma open_sealed: "open_loop key nonce 1 dat = sealed_of key nonce dat"
  by (simp add: open_loop_stream sealed_of_def with_stream_def key_stream_def)

definition vault_of :: "u8 list \<Rightarrow> u8 list \<Rightarrow> u8 list \<Rightarrow> u8 list \<Rightarrow> u8 list" where
  "vault_of pass salt nonce sealed =
     KRYPT_MAGIC @ salt @ nonce @ sealed @ sha256 (mac_key_of (stretched pass salt) @ sealed)"

lemma encrypt_vault_value:
  assumes c: "ctx_ok ctx" and e: "tmp_ok env" "out_ok env" "random env = Some (salt, nonce)"
    and p: "payload_of in_target nd = Some (Ptr payload)"
  shows "encrypt_vault env ctx in_target (Some nd) pass
    = Some (0, Ptr (vault_of pass salt nonce (sealed_of (stretched pass salt) nonce payload)))"
proof -
  let ?k = "stretched pass salt"
  let ?m = "mac_key_of ?k" and ?s = "sealed_of ?k nonce payload"
  obtain c1 where c1: "sha256_update (sha256_init ctx) ?m = Some c1" "absorbed ?m c1"
    using sha256_update_absorbed [OF absorbed_init [OF c [unfolded ctx_ok_def]], of ?m] by auto
  obtain c2 where c2: "sha256_update c1 ?s = Some c2" "absorbed (?m @ ?s) c2"
    using sha256_update_absorbed [OF c1(2), of ?s] by auto
  obtain c3 where c3: "sha256_final c2 = Some (c3, sha256 (?m @ ?s))" using sha256_final_value [OF c2(2)] by blast
  have l: "seal_loop ?k nonce 1 c1 payload = Some (c2, ?s)" using c2(1) by (simp add: seal_loop_open open_sealed)
  show ?thesis
    unfolding encrypt_vault_def option.case(2) payload_of_def [symmetric] p
    using e derive_key_value [OF c] c1(1) l c3 by (simp add: vault_of_def)
qed

lemma length_sha256 [simp]: "length (sha256 m) = 32"
proof -
  have "length (compress_block s b) = 8" for s b
    by (simp add: compress_block_def Let_def split: prod.split)
  then have "length s = 8 \<Longrightarrow> length (sha_blocks s bs) = 8" for s bs
    by (induction s bs rule: sha_blocks.induct) (subst sha_blocks.simps, simp)
  then have "length (sha_blocks sha_start (sha_pad m)) = 8" by (simp add: sha_start_def)
  moreover have "length (concat (map be32 ws)) = 4 * length ws" for ws
    by (induction ws) (simp_all add: be32_def)
  ultimately show ?thesis by (simp add: sha256_def)
qed

lemma length_KRYPT_MAGIC: "length KRYPT_MAGIC = 8"
  by (simp add: KRYPT_MAGIC_def ascii_def)

text \<open>What is accepted, and what is then unpacked; the nonce is not part of the tag.\<close>

lemma decrypt_vault_value:
  assumes c: "ctx_ok ctx" and l: "length salt = 16" "length nonce = 12" "length tag = 32"
  shows "decrypt_vault True can_open ctx junk (Ptr (KRYPT_MAGIC @ salt @ nonce @ sealed @ tag)) out_target pass
    = (if tag = sha256 (mac_key_of (stretched pass salt) @ sealed)
       then unpack_payload can_open junk out_target (sealed_of (stretched pass salt) nonce sealed)
       else Some (- 1, []))"
proof -
  let ?k = "stretched pass salt"
  let ?m = "mac_key_of ?k"
  obtain c1 where c1: "sha256_update (sha256_init ctx) ?m = Some c1" "absorbed ?m c1"
    using sha256_update_absorbed [OF absorbed_init [OF c [unfolded ctx_ok_def]], of ?m] by auto
  obtain c2 where c2: "sha256_update c1 sealed = Some c2" "absorbed (?m @ sealed) c2"
    using sha256_update_absorbed [OF c1(2), of sealed] by auto
  obtain c3 where c3: "sha256_final c2 = Some (c3, sha256 (?m @ sealed))" using sha256_final_value [OF c2(2)] by blast
  have z: "SALT_SIZE = 16" "NONCE_SIZE = 12" "VAULT_HASH_SIZE = 32" by (simp_all add: SALT_SIZE_def NONCE_SIZE_def VAULT_HASH_SIZE_def)
  show ?thesis
    unfolding decrypt_vault_def z
    using l length_KRYPT_MAGIC derive_key_value [OF c] c1(1) c2(1) c3
    by (simp add: Let_def mac_loop_update open_sealed)
qed

text \<open>A tree that comes back, and the actions that restore it.\<close>

definition knode_ok :: "u8 list \<Rightarrow> ktree \<Rightarrow> bool" where
  "knode_ok in_target nd = (case nd of
      KDir md kids \<Rightarrow> pack_directory_tree in_target [] kids \<noteq> None \<and> list_all kitem_ok (ktree_items [] kids)
    | KFile md sz content \<Rightarrow> content \<noteq> NULL)"

definition knode_restores :: "u8 list \<Rightarrow> ktree \<Rightarrow> kaction list" where
  "knode_restores out_target nd = (case nd of
      KDir md kids \<Rightarrow> KMkdir out_target 0x1ED # concat (map (kitem_restores out_target) (ktree_items [] kids))
    | KFile md sz content \<Rightarrow> [KWrite out_target 0x1A4 (got content)])"

lemma unpack_restores:
  assumes j: "length junk = 1024" and ok: "knode_ok in_target nd"
  shows "\<exists>payload. payload_of in_target nd = Some (Ptr payload) \<and>
    unpack_payload (\<lambda>_. True) junk out_target payload = Some (0, knode_restores out_target nd)"
proof (cases nd)
  case (KDir md kids)
  obtain bs where bs: "pack_directory_tree in_target [] kids = Some bs" using ok KDir by (auto simp: knode_ok_def)
  then have "bs = concat (map kitem_bytes (ktree_items [] kids))" by (rule pack_directory_items)
  moreover have "\<forall>it\<in>set (ktree_items [] kids). kitem_ok it \<and> (item_isd it \<noteq> 0 \<longrightarrow> item_data it = [])"
    using ok KDir ktree_dirs_empty by (auto simp: knode_ok_def list_all_iff)
  ultimately show ?thesis using restore_all [OF j] bs KDir
    by (simp add: payload_of_def unpack_payload_def knode_restores_def)
next
  case (KFile md sz content)
  then show ?thesis using ok
    by (cases content) (auto simp: knode_ok_def payload_of_def unpack_payload_def knode_restores_def got_def)
qed

text \<open>The quarter round is that of ChaCha20: the test vector of RFC 8439, section 2.1.1.\<close>

lemma QR_test_vector:
  "QR 0 1 2 3 [0x11111111, 0x01020304, 0x9b8d6f43, 0x01234567] = [0xea2a92f4, 0xcb1cf8ce, 0x4581472e, 0x5881c4bb]"
  by code_simp

text \<open>
  The tag does not cover the nonce.  Whoever writes another nonce into a vault gets it accepted
  with the password of its owner: no authentication error is reported, and what is unpacked is the payload,
  each byte changed by the difference of the two key streams.
\<close>

lemma krypt_nonce_unauthenticated:
  assumes "length (ctx_data ctx) = 64" "length (ctx_data ctx') = 64"
    and "tmp_ok env" "out_ok env" "random env = Some (salt, nonce)" "length salt = 16" "length nonce = 12"
    and "payload_of in_target nd = Some (Ptr payload)" "length nonce' = 12"
  shows "\<exists>f. encrypt_vault env ctx in_target (Some nd) pass = Some (0, Ptr f) \<and>
    decrypt_vault True can_open ctx' junk (Ptr (take 24 f @ nonce' @ drop 36 f)) out_target pass
      = unpack_payload can_open junk out_target (map (\<lambda>i. payload ! i XOR key_stream (stretched pass salt) nonce i
          XOR key_stream (stretched pass salt) nonce' i) [0..<length payload])"
proof -
  let ?k = "stretched pass salt"
  let ?s = "sealed_of ?k nonce payload"
  have c: "ctx_ok ctx" "ctx_ok ctx'" using assms(1,2) by (simp_all add: ctx_ok_def)
  have t: "take 24 (vault_of pass salt nonce ?s) @ nonce' @ drop 36 (vault_of pass salt nonce ?s)
      = vault_of pass salt nonce' ?s"
    using assms(6,7) length_KRYPT_MAGIC by (simp add: vault_of_def)
  have "sealed_of ?k nonce' ?s = map (\<lambda>i. payload ! i XOR key_stream ?k nonce i XOR key_stream ?k nonce' i) [0..<length payload]"
    by (simp add: sealed_of_def xor.assoc)
  then show ?thesis
    using encrypt_vault_value [OF c(1) assms(3,4,5,8)] decrypt_vault_value [OF c(2) assms(6,9) length_sha256] t
    by (simp add: vault_of_def)
qed

section \<open>Properties\<close>

text \<open>
  C40: Whatever \<open>krypt\<close> has encrypted it restores with the same password: for a directory the entries in the
  order of the walk, each with its path, mode and content, for a file its content, with mode 0644 whatever
  mode the file had.  The vault is its header, salt and nonce, the payload under the ChaCha20 stream of
  block 1 on, however the program cuts it into chunks, and the tag.  Paths are shorter than 1024 bytes,
  what reading a file gives is as long as its reported size,
  and every file to be restored can be created.
\<close>

theorem krypt_vault_roundtrip:
  assumes "length (ctx_data ctx) = 64" "length (ctx_data ctx') = 64" "length junk = 1024"
    and "tmp_ok env" "out_ok env" "random env = Some (salt, nonce)" "length salt = 16" "length nonce = 12"
    and "knode_ok in_target nd"
  shows "\<exists>f payload. encrypt_vault env ctx in_target (Some nd) pass = Some (0, Ptr f) \<and>
    payload_of in_target nd = Some (Ptr payload) \<and>
    f = vault_of pass salt nonce (sealed_of (stretched pass salt) nonce payload) \<and>
    decrypt_vault True (\<lambda>_. True) ctx' junk (Ptr f) out_target pass = Some (0, knode_restores out_target nd)"
proof -
  let ?k = "stretched pass salt"
  have c: "ctx_ok ctx" "ctx_ok ctx'" using assms(1,2) by (simp_all add: ctx_ok_def)
  obtain payload where p: "payload_of in_target nd = Some (Ptr payload)"
    "unpack_payload (\<lambda>_. True) junk out_target payload = Some (0, knode_restores out_target nd)"
    using unpack_restores [OF assms(3,9)] by blast
  have "sealed_of ?k nonce (sealed_of ?k nonce payload) = payload"
    using open_loop_twice [of ?k nonce 1 payload] by (simp add: open_sealed)
  then have "decrypt_vault True (\<lambda>_. True) ctx' junk (Ptr (vault_of pass salt nonce (sealed_of ?k nonce payload))) out_target pass
      = Some (0, knode_restores out_target nd)"
    using decrypt_vault_value [OF c(2) assms(7,8) length_sha256] p(2) by (simp add: vault_of_def)
  then show ?thesis using encrypt_vault_value [OF c(1) assms(4,5,6) p(1)] p(1) by blast
qed

theorem krypt_vault_roundtrip_witness:
  "\<exists>f payload. encrypt_vault \<lparr>tmp_ok = True, out_ok = True, random = Some (replicate 16 1, replicate 12 2)\<rparr> (blank_ctx [])
      [100] (Some (KDir 0x1ED [([97], KFile 0x1A4 3 (Ptr [1, 2, 3])), ([98], KDir 0x1C0 [])])) [112] = Some (0, Ptr f) \<and>
    payload_of [100] (KDir 0x1ED [([97], KFile 0x1A4 3 (Ptr [1, 2, 3])), ([98], KDir 0x1C0 [])]) = Some (Ptr payload) \<and>
    f = vault_of [112] (replicate 16 1) (replicate 12 2)
      (sealed_of (stretched [112] (replicate 16 1)) (replicate 12 2) payload) \<and>
    decrypt_vault True (\<lambda>_. True) (blank_ctx []) (replicate 1024 0) (Ptr f) [111] [112] = Some (0,
      knode_restores [111] (KDir 0x1ED [([97], KFile 0x1A4 3 (Ptr [1, 2, 3])), ([98], KDir 0x1C0 [])]))"
  by (rule krypt_vault_roundtrip)
    (simp_all add: blank_ctx_def knode_ok_def kitem_ok_def krel_def got_def Let_def)

end
