(* ===== verification/Spec2Isabelle.thy ===== *)
theory Spec2Isabelle imports Prelude Kringbuf Klist Kspinlock Kdiv64 Kstring Kmem Kprintf Kvfs Chip8 Kgfx Kata Kdiskfs Krtc Ksound Kfixed Kbmp Idt Ps2 Zarchive B64 Hashcalc Ptround Ptlimit Ptemit Qrcode Krypt begin

text \<open>
  The repository holds a freestanding kernel library (\<open>src/freestanding\<close>), a small test system
  that boots on it (\<open>src/test_os\<close>) and some seventy command line tools for Linux (\<open>src/src\<close>,
  \<open>src/low-utils\<close>, \<open>src/heavy_utils\<close>), all in C.  This development models the kernel library, the
  drivers of the test system and a few of the tools, and proves what makes each of them correct, or
  what is wrong with it.

  \<^bold>\<open>How C is modelled.\<close>  A C function is a HOL function; it yields \<^typ>\<open>'a option\<close> where the C text
  can run into undefined behaviour or need not return, and \<^const>\<open>None\<close> is that case (theory
  \<open>Prelude\<close>: \<open>rd\<close> and \<open>wr\<close> check an access to an object, \<open>ck32\<close> and \<open>ck64\<close> a signed sum).  Unsigned
  integers are words of their width, or natural numbers with the reduction written out
  (\<open>w32\<close> in \<open>Kmem\<close>); pointers that may be null are \<open>NULL\<close> or \<open>Ptr x\<close>; memory that several objects
  share is a function from addresses (\<open>Klist\<close>, \<open>Kmem\<close>, \<open>Kvfs\<close>).  Code outside the repository is an
  argument: the device behind the ports (\<open>Kport\<close>), \<open>malloc\<close>, files, the clock.  The kernel
  is a 32-bit program, the tools are 64-bit programs.

  \<^bold>\<open>The kernel library.\<close>
  \<^item> \<open>Kringbuf\<close> (\<open>kringbuf.c\<close>), \<open>Klist\<close> (\<open>klist.c\<close>), \<open>Kspinlock\<close> (\<open>kspinlock.c\<close>), \<open>Kdiv64\<close>
    (\<open>kdiv64.c\<close>): the ring buffer refines a bounded queue and, with two unlocked clients, loses
    updates; the intrusive list realises a cyclic list; the lock excludes; the division is the division.
  \<^item> \<open>Kstring\<close> (\<open>kstring.c\<close>), \<open>Kprintf\<close> (\<open>kprintf.c\<close>): strings, number text and formatting against
    reference texts, with the bounds of every write.
  \<^item> \<open>Kmem\<close> (\<open>kmem.c\<close>): the heap of headers and back pointers.  The invariant says that the block list
    tiles the region and that no two free blocks touch; allocation is first fit, it and release keep the
    invariant, live blocks
    are disjoint, and the contents of the objects of a client survive (the locale \<open>byte_heap\<close>, which
    \<open>Kvfs\<close> uses).
  \<^item> \<open>Kvfs\<close> (\<open>kvfs.c\<close>): the file table with its data in that heap refines a map from canonical paths
    to contents.  \<open>Kdiskfs\<close> (\<open>kdiskfs.c\<close>) keeps such files on a disk through \<open>Kata\<close> (\<open>kata.c\<close>), which
    is correct on every drive that keeps the protocol \<open>ata_drive\<close>: after each command and each sector the
    drive may be busy for any number of status reads below the limit of the driver's polling loops.
  \<^item> \<open>Kgfx\<close> (\<open>kgfx.c\<close>), \<open>Kbmp\<close> (\<open>kbmp.c\<close>): which pixels the shapes paint; clipping; termination of the
    line drawing.  \<open>Krtc\<close>, \<open>Ksound\<close>, \<open>Kfixed\<close>: clock registers, speaker, fixed point numbers.

  \<^bold>\<open>The test system.\<close>  \<open>Idt\<close> (\<open>idt.c\<close>, \<open>gdt.c\<close>) and \<open>Ps2\<close> (\<open>ps2.c\<close>): descriptor tables, timer,
  keyboard and mouse; the pointer stays on the screen whatever bytes arrive.

  \<^bold>\<open>The tools.\<close>
  \<^item> \<open>Chip8\<close> (\<open>chip8.c\<close>): the whole interpreter with its built-in program; it is type safe, drawing is
    exclusive or, and the built-in program never leaves an array.
  \<^item> \<open>Zpack\<close> and \<open>Zarchive\<close> (\<open>zpack.c\<close>): compressor, decompressor and archive format; decompression
    inverts compression, extraction restores what was packed, file by file, whichever files can be created.
  \<^item> \<open>Krypt\<close> (\<open>krypt.c\<close>): vaults of files and directories under ChaCha20 and a tag.  Decryption restores what
    was encrypted; a lemma shows that the tag does not cover the nonce.
  \<^item> \<open>B64\<close> (\<open>b64.c\<close>): both codecs meet the locale \<open>text_codec\<close>.  \<open>Hashcalc\<close> (\<open>hashcalc.c\<close>): the checksums
    meet the locale \<open>checksum\<close>; SHA-256 is computed as specified, but with a wrong constant.
  \<^item> The modern front end of the Pythont transpiler (\<open>pythont.c\<close>).  \<open>Ptlex\<close> is the lexer: it stays inside
    its source, and it ends or hangs at a number that begins with a point.  \<open>Ptparse\<close> is the parser;
    \<open>Ptround\<close> proves that it inverts printing with minimal parentheses, \<open>Ptterm\<close> that it returns on every
    source, \<open>Ptlimit\<close> that the node limit truncates a program silently, for programs of lines \<open>x\<close>.  \<open>Ptinfer\<close> is the type inference and
    the listing, with the number of calls that inference makes; \<open>Ptgen\<close> is the C generator and \<open>Ptemit\<close>
    the texts it refines: the generator hands out the complete text or nothing, and it copies \<open>//=\<close>, which
    starts a comment.
  \<^item> \<open>Qrecc\<close> and \<open>Qrcode\<close> (\<open>qrcli.c\<close>): the field of 256 elements, the Reed-Solomon encoder and the symbol.  The
    symbol carries the code word in zigzag order, but the program reserves two modules more than the
    standard, so that version 1 loses two bits, and the format is unreadable.

  \<^bold>\<open>Bounds and fuel.\<close>  Loops over data are structural or have a measure.  Three kinds of loops may not
  end and say so: pointer chasing in the heap and the lists and the archive listing are
  \<open>partial_function (option)\<close>, with theorems that they return on well-formed heaps; polling loops of the
  drivers carry the counters of the code; the spinlock is a step relation.  The recursive descent of
  \<open>Ptparse\<close> and the inference of \<open>Ptinfer\<close> take a bound on the depth of the recursion; \<open>Ptterm\<close> and
  \<open>Ptinfer\<close> prove that every large enough bound gives the same result.

  \<^bold>\<open>Not modelled.\<close>  Assembly stubs and the loading of tables; what programs print, where it is only
  layout; tools that wrap system calls (processes, sockets, terminals, \<open>/proc\<close>), whose behaviour is that of
  the kernel below them; floating point code.  The desktop, shell and games of
  \<open>test_os/kernel.c\<close>, the line based translator that Pythont keeps beside its new front end, and the
  tools that the component list names are not modelled.
\<close>

end
